(* ===== verification/Prelude.thy ===== *)
theory Prelude
  imports Main "HOL-Library.Word"
begin

text \<open>
  What the components share: the faults a C function can run into, results that carry such a
  fault, byte buffers indexed by an offset, unsigned 64-bit subtraction, and generic lemmas on
  lists. The collections \<open>buf_simps\<close> and \<open>res_simps\<close> are the simplification sets for buffers
  and for results.
\<close>

unbundle bit_operations_syntax

named_theorems buf_simps
named_theorems res_simps
named_theorems const_simps

section \<open>Faults and results\<close>

text \<open>
  A call of the C code either returns (\<open>Inr\<close>) or runs into behaviour the C standard leaves
  undefined or that ends the process (\<open>Inl\<close>). Return codes such as \<open>-1\<close> are ordinary values.
\<close>

datatype fault =
    Null_deref
  | Wild_deref
  | Buffer_overflow
  | Out_of_bounds
  | Use_after_free
  | Bad_join
  | Process_exit
  | Hang
  | Out_of_fuel

type_synonym 'a res = "fault + 'a"

definition rbind :: "'a res \<Rightarrow> ('a \<Rightarrow> 'b res) \<Rightarrow> 'b res" where
  "rbind m f = (case m of Inl e \<Rightarrow> Inl e | Inr a \<Rightarrow> f a)"

lemma rbind_Inl [simp, res_simps]: "rbind (Inl e) f = Inl e"
  by (simp add: rbind_def)

lemma rbind_Inr [simp, res_simps]: "rbind (Inr a) f = f a"
  by (simp add: rbind_def)

lemma rbind_eq_Inr [res_simps]: "rbind m f = Inr b \<longleftrightarrow> (\<exists>a. m = Inr a \<and> f a = Inr b)"
  by (cases m) auto

lemma rbind_eq_Inl: "rbind m f = Inl e \<longleftrightarrow> m = Inl e \<or> (\<exists>a. m = Inr a \<and> f a = Inl e)"
  by (cases m) auto

section \<open>Byte buffers\<close>

text \<open>
  A region of memory is a function from the offset in the region to the byte there; a bounded
  piece of data in flight is a list of bytes. \<open>buf_write\<close> and \<open>buf_read\<close> are the two directions
  of \<open>memcpy\<close>.
\<close>

type_synonym byte = "8 word"
type_synonym buf = "nat \<Rightarrow> byte"

definition buf_write :: "buf \<Rightarrow> nat \<Rightarrow> byte list \<Rightarrow> buf" where
  "buf_write f off bs = (\<lambda>j. if off \<le> j \<and> j < off + length bs then bs ! (j - off) else f j)"

definition buf_read :: "buf \<Rightarrow> nat \<Rightarrow> nat \<Rightarrow> byte list" where
  "buf_read f off n = map f [off ..< off + n]"

definition buf_copy :: "buf \<Rightarrow> buf \<Rightarrow> nat \<Rightarrow> nat \<Rightarrow> buf" where
  "buf_copy dst src n off = (\<lambda>j. if off \<le> j \<and> j < off + n then src (j - off) else dst j)"

lemma length_buf_read [simp, buf_simps]: "length (buf_read f off n) = n"
  by (simp add: buf_read_def)

lemma nth_buf_read [simp, buf_simps]: "i < n \<Longrightarrow> buf_read f off n ! i = f (off + i)"
  by (simp add: buf_read_def)

lemma buf_read_0 [simp, buf_simps]: "buf_read f off 0 = []"
  by (simp add: buf_read_def)

lemma buf_write_Nil [simp, buf_simps]: "buf_write f off [] = f"
  by (rule ext) (auto simp: buf_write_def)

lemma buf_write_in [buf_simps]: "off \<le> j \<Longrightarrow> j < off + length bs \<Longrightarrow> buf_write f off bs j = bs ! (j - off)"
  by (simp add: buf_write_def)

lemma buf_write_out [buf_simps]: "j < off \<or> off + length bs \<le> j \<Longrightarrow> buf_write f off bs j = f j"
  by (auto simp: buf_write_def)

lemma buf_read_cong: "(\<And>j. off \<le> j \<Longrightarrow> j < off + n \<Longrightarrow> f j = g j) \<Longrightarrow> buf_read f off n = buf_read g off n"
  by (auto simp: buf_read_def)

lemma buf_read_write_same [simp, buf_simps]: "n = length bs \<Longrightarrow> buf_read (buf_write f off bs) off n = bs"
  by (rule nth_equalityI) (auto simp: buf_write_def)

lemma buf_read_write_disj:
  "off' + n \<le> off \<or> off + length bs \<le> off' \<Longrightarrow> buf_read (buf_write f off bs) off' n = buf_read f off' n"
  by (rule buf_read_cong) (auto simp: buf_write_def)

lemma buf_read_add: "buf_read f off (m + n) = buf_read f off m @ buf_read f (off + m) n"
  by (rule nth_equalityI) (auto simp: nth_append)

lemma buf_write_append:
  "buf_write (buf_write f off xs) (off + length xs) ys = buf_write f off (xs @ ys)"
  by (auto simp: buf_write_def nth_append fun_eq_iff)

section \<open>Regions of an address space\<close>

text \<open>Is \<open>x\<close> one of the \<open>n\<close> addresses from \<open>p\<close> on; sums of this count how often an address is covered.\<close>

definition span :: "nat \<Rightarrow> nat \<Rightarrow> nat \<Rightarrow> nat" where
  "span p n x = (if p \<le> x \<and> x < p + n then 1 else 0)"

lemma span_halves: "span p (2 * n) x = span p n x + span (p + n) n x"
  by (auto simp: span_def)

lemma span_le: "span p n x \<le> 1"
  by (simp add: span_def)

lemma span_disjoint: "(\<forall>x. span p n x + span q m x \<le> 1) \<Longrightarrow> 0 < n \<Longrightarrow> 0 < m \<Longrightarrow> p + n \<le> q \<or> q + m \<le> p"
proof (rule ccontr)
  assume a: "\<forall>x. span p n x + span q m x \<le> 1" "0 < n" "0 < m" "\<not> (p + n \<le> q \<or> q + m \<le> p)"
  then have "span p n (max p q) = 1" "span q m (max p q) = 1" by (auto simp: span_def)
  moreover have "span p n (max p q) + span q m (max p q) \<le> 1" using a(1) by blast
  ultimately show False by simp
qed

section \<open>Unsigned 64-bit arithmetic on naturals\<close>

definition usub64 :: "nat \<Rightarrow> nat \<Rightarrow> nat" where
  "usub64 a b = (a + 2 ^ 64 - b) mod 2 ^ 64"

lemma usub64_ge: "b \<le> a \<Longrightarrow> a < 2 ^ 64 \<Longrightarrow> usub64 a b = a - b"
proof -
  assume ab: "b \<le> a" and a: "a < 2 ^ 64"
  have "a + 2 ^ 64 - b = (a - b) + 2 ^ 64" using ab by linarith
  moreover have "a - b < 2 ^ 64" using a by linarith
  ultimately show ?thesis unfolding usub64_def by (metis mod_add_self2 mod_less)
qed

lemma usub64_lt: "a < b \<Longrightarrow> b \<le> 2 ^ 64 \<Longrightarrow> usub64 a b = a + 2 ^ 64 - b"
  by (simp add: usub64_def)

lemma usub64_bound: "usub64 a b < 2 ^ 64"
  by (simp add: usub64_def)

definition uadd64 :: "nat \<Rightarrow> nat \<Rightarrow> nat" where
  "uadd64 a b = (a + b) mod 2 ^ 64"

lemma uadd64_id: "a + b < 2 ^ 64 \<Longrightarrow> uadd64 a b = a + b"
  by (simp add: uadd64_def)

section \<open>Signed 32-bit integers\<close>

text \<open>The value an \<open>int\<close> has after an assignment from a wider integer.\<close>

definition sint32 :: "int \<Rightarrow> int" where
  "sint32 x = (x + 2 ^ 31) mod 2 ^ 32 - 2 ^ 31"

lemma sint32_id: "- (2 ^ 31) \<le> x \<Longrightarrow> x < 2 ^ 31 \<Longrightarrow> sint32 x = x"
  by (simp add: sint32_def)

lemma sint32_bounds: "- (2 ^ 31) \<le> sint32 x" "sint32 x < 2 ^ 31"
proof -
  have "0 \<le> (x + 2 ^ 31) mod 2 ^ 32" "(x + 2 ^ 31) mod 2 ^ 32 < 2 ^ 32" by simp_all
  moreover have "(2 :: int) ^ 32 = 2 ^ 31 + 2 ^ 31" by simp
  ultimately show "- (2 ^ 31) \<le> sint32 x" "sint32 x < 2 ^ 31" unfolding sint32_def by linarith+
qed

section \<open>Lists\<close>

lemma distinct_concat_map_fst:
  assumes "\<And>i. i < length bs \<Longrightarrow> distinct (map fst (bs ! i))"
    and "\<And>i j k. i < length bs \<Longrightarrow> j < length bs \<Longrightarrow> k \<in> fst ` set (bs ! i) \<Longrightarrow> k \<in> fst ` set (bs ! j) \<Longrightarrow> i = j"
  shows "distinct (map fst (concat bs))"
  using assms
proof (induction bs)
  case Nil
  then show ?case by simp
next
  case (Cons b bs)
  have d: "distinct (map fst b)" using Cons.prems(1)[of 0] by simp
  have ds: "distinct (map fst (concat bs))"
  proof (rule Cons.IH)
    fix i assume "i < length bs"
    then show "distinct (map fst (bs ! i))" using Cons.prems(1)[of "Suc i"] by simp
  next
    fix i j k assume "i < length bs" "j < length bs" "k \<in> fst ` set (bs ! i)" "k \<in> fst ` set (bs ! j)"
    then show "i = j" using Cons.prems(2)[of "Suc i" "Suc j" k] by simp
  qed
  have "fst ` set b \<inter> fst ` set (concat bs) = {}"
  proof -
    have False if k: "k \<in> fst ` set b" "k \<in> fst ` set (concat bs)" for k
    proof -
      from k(2) obtain c where "c \<in> set bs" "k \<in> fst ` set c" by auto
      then obtain j where "j < length bs" "c = bs ! j" by (metis in_set_conv_nth)
      with k(1) \<open>k \<in> fst ` set c\<close> show False using Cons.prems(2)[of 0 "Suc j" k] by simp
    qed
    then show ?thesis by blast
  qed
  with d ds show ?case by auto
qed

lemma map_of_concat_bucket:
  assumes "i < length bs"
    and "\<And>j. j < length bs \<Longrightarrow> k \<in> fst ` set (bs ! j) \<Longrightarrow> j = i"
  shows "map_of (concat bs) k = map_of (bs ! i) k"
  using assms
proof (induction bs arbitrary: i)
  case Nil
  then show ?case by simp
next
  case (Cons b bs)
  show ?case
  proof (cases i)
    case 0
    have "k \<notin> fst ` set (concat bs)"
    proof
      assume "k \<in> fst ` set (concat bs)"
      then obtain c where "c \<in> set bs" "k \<in> fst ` set c" by auto
      then obtain j where "j < length bs" "c = bs ! j" by (metis in_set_conv_nth)
      with \<open>k \<in> fst ` set c\<close> show False using Cons.prems(2)[of "Suc j"] 0 by simp
    qed
    then have "map_of (concat bs) k = None" by (simp add: map_of_eq_None_iff)
    then show ?thesis using 0 by (simp add: map_add_def split: option.split)
  next
    case (Suc i')
    have "k \<notin> fst ` set b" using Cons.prems(2)[of 0] Suc by auto
    then have "map_of b k = None" by (simp add: map_of_eq_None_iff)
    moreover have "map_of (concat bs) k = map_of (bs ! i') k"
    proof (rule Cons.IH)
      show "i' < length bs" using Cons.prems(1) Suc by simp
      show "j = i'" if "j < length bs" "k \<in> fst ` set (bs ! j)" for j
        using Cons.prems(2)[of "Suc j"] that Suc by simp
    qed
    ultimately show ?thesis using Suc by (simp add: map_add_def split: option.split)
  qed
qed

lemma sum_list_map_update:
  fixes f :: "'a \<Rightarrow> nat"
  assumes "i < length xs"
  shows "sum_list (map f (xs[i := x])) + f (xs ! i) = sum_list (map f xs) + f x"
  using assms
proof (induction xs arbitrary: i)
  case Nil
  then show ?case by simp
next
  case (Cons a xs)
  then show ?case by (cases i) (auto simp: algebra_simps)
qed

lemma distinct_remove1_append: "distinct (xs @ x # ys) \<Longrightarrow> remove1 x (xs @ x # ys) = xs @ ys"
  by (simp add: remove1_append)

end
