(* ===== verification/Interfaces.thy ===== *)
theory Interfaces
  imports Prelude
begin

text \<open>
  The contracts between components, as locales: what a client may assume of the operations it
  calls, and what follows for the client from those laws alone. The component that provides the
  operations interprets the locale on its own definitions.
\<close>

section \<open>Dictionaries\<close>

text \<open>
  What the directory code needs of \<open>d_hash\<close>: \<open>get\<close>, \<open>put\<close> and \<open>remove\<close> behave as a finite map
  under an invariant that every operation keeps.
\<close>

locale dict =
  fixes lookup :: "'m \<Rightarrow> 'k \<Rightarrow> 'v option"
    and update :: "'m \<Rightarrow> 'k \<Rightarrow> 'v \<Rightarrow> 'm"
    and delete :: "'m \<Rightarrow> 'k \<Rightarrow> 'm"
    and count :: "'m \<Rightarrow> int"
    and invar :: "'m \<Rightarrow> bool"
  assumes lookup_update: "invar m \<Longrightarrow> lookup (update m k v) k' = (if k' = k then Some v else lookup m k')"
    and lookup_delete: "invar m \<Longrightarrow> lookup (delete m k) k' = (if k' = k then None else lookup m k')"
    and count_update: "invar m \<Longrightarrow> count (update m k v) = count m + (if lookup m k = None then 1 else 0)"
    and count_delete: "invar m \<Longrightarrow> count (delete m k) = count m - (if lookup m k = None then 0 else 1)"
    and invar_update: "invar m \<Longrightarrow> invar (update m k v)"
    and invar_delete: "invar m \<Longrightarrow> invar (delete m k)"
begin

lemma create_remove:
  assumes "invar m" "lookup m k = None"
  shows "lookup (delete (update m k v) k) k' = lookup m k'" "count (delete (update m k v) k) = count m"
  using assms invar_update[OF assms(1), of k v]
  by (simp_all add: lookup_update lookup_delete count_update count_delete)

text \<open>Moving the value of one key to another key, as a rename does.\<close>

lemma move_key:
  assumes "invar m"
  shows "lookup (update (delete m k) k1 v) k' =
    (if k' = k1 then Some v else if k' = k then None else lookup m k')"
  using invar_delete[OF assms, of k] by (simp add: lookup_update lookup_delete assms)

lemma move_key_count:
  assumes "invar m" "lookup m k \<noteq> None" "lookup m k1 = None \<or> k1 = k"
  shows "count (update (delete m k) k1 v) = count m"
  using assms invar_delete[OF assms(1), of k]
  by (auto simp: count_update count_delete lookup_delete)

lemma invar_move_key: "invar m \<Longrightarrow> invar (update (delete m k) k1 v)"
  by (simp add: invar_update invar_delete)

text \<open>A whole history of operations is the history of a map.\<close>

definition run_op :: "'m \<Rightarrow> 'k \<times> 'v option \<Rightarrow> 'm" where
  "run_op m op = (case snd op of None \<Rightarrow> delete m (fst op) | Some v \<Rightarrow> update m (fst op) v)"

lemma run_ops:
  assumes "invar m" "finite (dom (lookup m))" "count m = int (card (dom (lookup m)))"
  shows "invar (foldl run_op m ops) \<and> lookup (foldl run_op m ops) = foldl (\<lambda>f (k, v). f(k := v)) (lookup m) ops \<and>
    finite (dom (lookup (foldl run_op m ops))) \<and>
    count (foldl run_op m ops) = int (card (dom (lookup (foldl run_op m ops))))"
  using assms
proof (induction ops arbitrary: m)
  case Nil
  then show ?case by simp
next
  case (Cons op ops)
  obtain k v where op: "op = (k, v)" by fastforce
  have l: "lookup (run_op m op) = (lookup m)(k := v)"
    using Cons.prems(1) by (cases v) (auto simp: run_op_def op lookup_update lookup_delete)
  have i: "invar (run_op m op)"
    using Cons.prems(1) by (cases v) (simp_all add: run_op_def op invar_update invar_delete)
  have "int (card (dom (lookup m) - {k})) = int (card (dom (lookup m))) - (if lookup m k = None then 0 else 1)"
  proof (cases "lookup m k")
    case (Some x)
    then have "k \<in> dom (lookup m)" by auto
    then have "card (dom (lookup m)) > 0" using Cons.prems(2) card_gt_0_iff by blast
    then show ?thesis using Some Cons.prems(2) \<open>k \<in> dom (lookup m)\<close> by (simp add: card_Diff_singleton)
  qed (simp add: dom_def)
  then have "count (run_op m op) = int (card (dom (lookup (run_op m op))))"
    using Cons.prems op l
    by (cases v) (auto simp: run_op_def count_update count_delete card_insert_if domIff)
  moreover have "finite (dom (lookup (run_op m op)))" using Cons.prems(2) l by (cases v) simp_all
  ultimately have "invar (foldl run_op (run_op m op) ops) \<and>
      lookup (foldl run_op (run_op m op) ops) = foldl (\<lambda>f (k, v). f(k := v)) (lookup (run_op m op)) ops \<and>
      finite (dom (lookup (foldl run_op (run_op m op) ops))) \<and>
      count (foldl run_op (run_op m op) ops) = int (card (dom (lookup (foldl run_op (run_op m op) ops))))"
    by (intro Cons.IH[OF i])
  then show ?case unfolding l unfolding op foldl.simps prod.case .
qed

end

section \<open>Allocators of numbered cells\<close>

text \<open>
  What the block index needs of the chunk allocator: a cell handed out was free, a failed request
  means that no cell was, and a release gives back exactly the cell it names.
\<close>

locale allocator =
  fixes cells :: "'c set"
    and used :: "'s \<Rightarrow> 'c set"
    and alloc :: "'s \<Rightarrow> 'c option \<times> 's"
    and release :: "'s \<Rightarrow> 'c \<Rightarrow> 's"
    and invar :: "'s \<Rightarrow> bool"
  assumes finite_cells: "finite cells"
    and used_cells: "used s \<subseteq> cells"
    and alloc_Some: "invar s \<Longrightarrow> alloc s = (Some c, s') \<Longrightarrow>
      c \<in> cells \<and> c \<notin> used s \<and> used s' = insert c (used s) \<and> invar s'"
    and alloc_None: "invar s \<Longrightarrow> alloc s = (None, s') \<Longrightarrow> used s = cells \<and> used s' = used s \<and> invar s'"
    and used_release: "used (release s c) = used s - {c}"
    and invar_release: "invar s \<Longrightarrow> invar (release s c)"
begin

lemma alloc_progress:
  assumes "invar s" "card (used s) < card cells"
  shows "\<exists>c s'. alloc s = (Some c, s')"
proof (cases "alloc s")
  case (Pair co s')
  then show ?thesis using alloc_None[OF assms(1)] assms(2) by (cases co) auto
qed

fun allocs :: "nat \<Rightarrow> 's \<Rightarrow> 'c option list \<times> 's" where
  "allocs 0 s = ([], s)"
| "allocs (Suc n) s = (case alloc s of (c, s1) \<Rightarrow> (case allocs n s1 of (cs, s2) \<Rightarrow> (c # cs, s2)))"

text \<open>A run of requests within the free space succeeds, with pairwise distinct cells.\<close>

lemma allocs_ok:
  assumes "invar s" "card (used s) + n \<le> card cells"
  shows "\<exists>cs s'. allocs n s = (map Some cs, s') \<and> length cs = n \<and> distinct cs \<and> set cs \<inter> used s = {} \<and>
    set cs \<subseteq> cells \<and> used s' = used s \<union> set cs \<and> invar s'"
  using assms
proof (induction n arbitrary: s)
  case 0
  then show ?case by simp
next
  case (Suc n)
  obtain c s1 where a: "alloc s = (Some c, s1)" using alloc_progress[of s] Suc.prems by auto
  note c = alloc_Some[OF Suc.prems(1) a]
  have "finite (used s)" using used_cells finite_cells finite_subset by blast
  then have "card (used s1) + n \<le> card cells" using Suc.prems(2) c by simp
  from Suc.IH[OF _ this] c obtain cs s' where r: "allocs n s1 = (map Some cs, s')" "length cs = n" "distinct cs"
    "set cs \<inter> used s1 = {}" "set cs \<subseteq> cells" "used s' = used s1 \<union> set cs" "invar s'" by auto
  have "allocs (Suc n) s = (map Some (c # cs), s')" using a r(1) by simp
  moreover have "distinct (c # cs)" "set (c # cs) \<inter> used s = {}" "set (c # cs) \<subseteq> cells"
    "used s' = used s \<union> set (c # cs)" using c r by auto
  ultimately show ?case using r(2,7) by (metis length_Cons)
qed

text \<open>What is released can be allocated again.\<close>

lemma release_alloc:
  assumes "invar s" "c \<in> used s"
  shows "\<exists>c' s'. alloc (release s c) = (Some c', s')"
proof (rule alloc_progress)
  show "invar (release s c)" by (rule invar_release[OF assms(1)])
  have "finite (used s)" using used_cells finite_cells finite_subset by blast
  moreover have "card (used s) \<le> card cells" by (rule card_mono[OF finite_cells used_cells])
  moreover have "card (used s) > 0" using assms(2) calculation(1) card_gt_0_iff by blast
  ultimately show "card (used (release s c)) < card cells"
    using assms(2) by (simp add: used_release card_Diff_singleton)
qed

end

section \<open>Remote memory\<close>

text \<open>
  What the file system needs of the client library: as long as an address is usable, a write inside
  its region returns 0 and changes exactly those bytes, and a read inside it returns 0 and fills the
  caller's buffer with the bytes written last; neither makes another address unusable or changes it.
\<close>

locale remote_store =
  fixes rd :: "'m \<Rightarrow> nat \<Rightarrow> byte list \<Rightarrow> nat \<Rightarrow> (int \<times> byte list \<times> 'm) res"
    and wr :: "'m \<Rightarrow> nat \<Rightarrow> byte list \<Rightarrow> nat \<Rightarrow> (int \<times> 'm) res"
    and content :: "'m \<Rightarrow> nat \<Rightarrow> buf"
    and ok :: "'m \<Rightarrow> nat \<Rightarrow> bool"
    and region :: nat
  assumes rd_ok: "ok m a \<Longrightarrow> buff \<noteq> [] \<Longrightarrow> off + length buff \<le> region \<Longrightarrow>
      \<exists>m'. rd m a buff off = Inr (0, buf_read (content m a) off (length buff), m') \<and> ok m' = ok m \<and> (\<forall>b. ok m b \<longrightarrow> content m' b = content m b)"
    and wr_ok: "ok m a \<Longrightarrow> bs \<noteq> [] \<Longrightarrow> off + length bs \<le> region \<Longrightarrow>
      \<exists>m'. wr m a bs off = Inr (0, m') \<and> ok m' = ok m \<and>
        (\<forall>b. ok m b \<longrightarrow> content m' b = (if b = a then buf_write (content m a) off bs else content m b))"
begin

text \<open>A read after a write sees it.\<close>

lemma write_then_read:
  assumes "ok m a" "bs \<noteq> []" "off + length bs \<le> region" "length buff = length bs"
  shows "\<exists>m1 m2. wr m a bs off = Inr (0, m1) \<and> rd m1 a buff off = Inr (0, bs, m2)"
proof -
  from wr_ok[OF assms(1-3)] obtain m1 where m1: "wr m a bs off = Inr (0, m1)" "ok m1 = ok m"
    "content m1 a = buf_write (content m a) off bs" using assms(1) by auto
  have "ok m1 a" using m1(2) assms(1) by simp
  moreover have "buff \<noteq> []" using assms(2,4) by auto
  ultimately show ?thesis using rd_ok[of m1 a buff off] assms(3,4) m1 by auto
qed

text \<open>Writing the same bytes to several addresses, one after the other.\<close>

fun wr_all :: "'m \<Rightarrow> nat list \<Rightarrow> byte list \<Rightarrow> nat \<Rightarrow> 'm res" where
  "wr_all m [] bs off = Inr m"
| "wr_all m (a # as) bs off = rbind (wr m a bs off) (\<lambda>(re, m1). wr_all m1 as bs off)"

lemma wr_all_ok:
  assumes "\<forall>a \<in> set as. ok m a" "bs \<noteq> []" "off + length bs \<le> region"
  shows "\<exists>m'. wr_all m as bs off = Inr m' \<and> ok m' = ok m \<and>
    (\<forall>b. ok m b \<longrightarrow> content m' b = (if b \<in> set as then buf_write (content m b) off bs else content m b))"
  using assms
proof (induction as arbitrary: m)
  case Nil
  then show ?case by simp
next
  case (Cons a as)
  have "ok m a" using Cons.prems(1) by simp
  from wr_ok[OF this Cons.prems(2,3)] obtain m1 where m1: "wr m a bs off = Inr (0, m1)" "ok m1 = ok m"
    "\<forall>b. ok m b \<longrightarrow> content m1 b = (if b = a then buf_write (content m a) off bs else content m b)" by blast
  have "\<forall>a \<in> set as. ok m1 a" using Cons.prems(1) m1(2) by simp
  from Cons.IH[OF this Cons.prems(2,3)] obtain m' where m': "wr_all m1 as bs off = Inr m'" "ok m' = ok m1"
    "\<forall>b. ok m1 b \<longrightarrow> content m' b = (if b \<in> set as then buf_write (content m1 b) off bs else content m1 b)" by blast
  have idem: "buf_write (buf_write f off bs) off bs = buf_write f off bs" for f
    by (auto simp: buf_write_def fun_eq_iff)
  have "content m' b = (if b \<in> set (a # as) then buf_write (content m b) off bs else content m b)" if "ok m b" for b
    using m1(2,3) m'(3) that idem by auto
  then show ?case using m1 m' by auto
qed

end

section \<open>Heaps of address regions\<close>

text \<open>
  What the callers of an allocator of address ranges rely on. \<open>busy s x\<close> counts the regions handed out that
  contain address \<open>x\<close>: never more than one. A successful request adds exactly one region, a failed one
  none; a region handed out can be given back, and giving it back frees exactly its addresses.
\<close>

locale region_heap =
  fixes take_region :: "'s \<Rightarrow> 'q \<Rightarrow> ('r option \<times> 's) res"
    and give_region :: "'s \<Rightarrow> 'r \<Rightarrow> 's res"
    and request_ok :: "'q \<Rightarrow> bool"
    and at :: "'r \<Rightarrow> nat"
    and extent :: "'r \<Rightarrow> nat"
    and busy :: "'s \<Rightarrow> nat \<Rightarrow> nat"
    and legal :: "'s \<Rightarrow> 'r \<Rightarrow> bool"
    and invar :: "'s \<Rightarrow> bool"
  assumes busy_le: "invar s \<Longrightarrow> busy s x \<le> 1"
    and extent_pos: "legal s r \<Longrightarrow> 0 < extent r"
    and take_ok: "invar s \<Longrightarrow> request_ok q \<Longrightarrow> \<exists>r s'. take_region s q = Inr (r, s') \<and> invar s' \<and>
      (\<forall>r'. legal s r' \<longrightarrow> legal s' r') \<and>
      (case r of None \<Rightarrow> busy s' = busy s
       | Some r \<Rightarrow> legal s' r \<and> (\<forall>x. busy s' x = busy s x + span (at r) (extent r) x))"
    and give_ok: "invar s \<Longrightarrow> legal s r \<Longrightarrow> (\<forall>x. span (at r) (extent r) x \<le> busy s x) \<Longrightarrow>
      \<exists>s'. give_region s r = Inr s' \<and> invar s' \<and> (\<forall>x. busy s' x + span (at r) (extent r) x = busy s x) \<and>
      (\<forall>r'. legal s r' \<longrightarrow> (\<forall>x. span (at r) (extent r) x + span (at r') (extent r') x \<le> 1) \<longrightarrow> legal s' r')"
begin

definition cover :: "'r list \<Rightarrow> nat \<Rightarrow> nat" where
  "cover rs x = (\<Sum>r \<leftarrow> rs. span (at r) (extent r) x)"

lemma cover_simps [simp]: "cover [] x = 0" "cover (r # rs) x = span (at r) (extent r) x + cover rs x"
  by (simp_all add: cover_def)

lemma cover_remove1: "r \<in> set rs \<Longrightarrow> cover rs x = span (at r) (extent r) x + cover (remove1 r rs) x"
  by (induction rs) auto

text \<open>The regions \<open>rs\<close> are what is handed out.\<close>

definition holds :: "'s \<Rightarrow> 'r list \<Rightarrow> bool" where
  "holds s rs \<longleftrightarrow> invar s \<and> (\<forall>x. busy s x = cover rs x) \<and> (\<forall>r \<in> set rs. legal s r)"

lemma two_in_cover:
  assumes "i < j" "j < length rs"
  shows "span (at (rs ! i)) (extent (rs ! i)) x + span (at (rs ! j)) (extent (rs ! j)) x \<le> cover rs x"
  using assms
proof (induction rs arbitrary: i j)
  case (Cons r rs)
  have in_cover: "span (at (rs ! k)) (extent (rs ! k)) x \<le> cover rs x" if "k < length rs" for k
    using cover_remove1[of "rs ! k" rs x] that by simp
  obtain j' where j: "j = Suc j'" using Cons.prems(1) by (cases j) auto
  show ?case
  proof (cases i)
    case 0
    then show ?thesis using in_cover[of j'] j Cons.prems by simp
  next
    case (Suc i')
    then show ?thesis using Cons.IH[of i' j'] j Cons.prems by simp
  qed
qed simp

lemma holds_disjoint:
  assumes "holds s rs" "i < length rs" "j < length rs" "i \<noteq> j"
  shows "at (rs ! i) + extent (rs ! i) \<le> at (rs ! j) \<or> at (rs ! j) + extent (rs ! j) \<le> at (rs ! i)"
proof -
  have "legal s (rs ! i)" "legal s (rs ! j)" using assms by (auto simp: holds_def)
  then have ex: "0 < extent (rs ! i)" "0 < extent (rs ! j)" using extent_pos by blast+
  have "span (at (rs ! i)) (extent (rs ! i)) x + span (at (rs ! j)) (extent (rs ! j)) x \<le> 1" for x
  proof -
    have "cover rs x \<le> 1" using assms(1) busy_le by (metis holds_def)
    then show ?thesis using two_in_cover[of i j rs x] two_in_cover[of j i rs x] assms by (cases "i < j") auto
  qed
  then show ?thesis using span_disjoint ex by blast
qed

text \<open>Histories: \<open>Inl q\<close> requests, \<open>Inr k\<close> gives the \<open>k\<close>-th region handed out back.\<close>

definition history_step :: "'s \<times> 'r list \<Rightarrow> 'q + nat \<Rightarrow> ('s \<times> 'r list) res" where
  "history_step c ev =
     (case ev of
        Inl q \<Rightarrow> rbind (take_region (fst c) q) (\<lambda>(r, s'). Inr (s', case r of None \<Rightarrow> snd c | Some r \<Rightarrow> r # snd c))
      | Inr k \<Rightarrow> if k < length (snd c)
                 then rbind (give_region (fst c) (snd c ! k)) (\<lambda>s'. Inr (s', remove1 (snd c ! k) (snd c))) else Inr c)"

fun history :: "'s \<times> 'r list \<Rightarrow> ('q + nat) list \<Rightarrow> ('s \<times> 'r list) res" where
  "history c [] = Inr c"
| "history c (ev # evs) = rbind (history_step c ev) (\<lambda>c'. history c' evs)"

lemma history_step_ok:
  assumes "holds s rs" "\<And>q. ev = Inl q \<Longrightarrow> request_ok q"
  shows "\<exists>s' rs'. history_step (s, rs) ev = Inr (s', rs') \<and> holds s' rs'"
proof (cases ev)
  case (Inl q)
  have i: "invar s" using assms(1) by (simp add: holds_def)
  from take_ok[OF i assms(2)[OF Inl]] obtain r s' where t: "take_region s q = Inr (r, s')" "invar s'" "\<forall>r'. legal s r' \<longrightarrow> legal s' r'"
    "case r of None \<Rightarrow> busy s' = busy s | Some r \<Rightarrow> legal s' r \<and> (\<forall>x. busy s' x = busy s x + span (at r) (extent r) x)" by blast
  then show ?thesis using assms(1) Inl by (cases r) (auto simp: history_step_def holds_def)
next
  case (Inr k)
  show ?thesis
  proof (cases "k < length rs")
    case False
    then show ?thesis using assms(1) Inr by (simp add: history_step_def)
  next
    case True
    let ?r = "rs ! k"
    have r: "?r \<in> set rs" using True by simp
    have h: "invar s" "legal s ?r" "\<forall>x. span (at ?r) (extent ?r) x \<le> busy s x"
      using assms(1) r cover_remove1[OF r] by (simp_all add: holds_def)
    from give_ok[OF this] obtain s' where g: "give_region s ?r = Inr s'" "invar s'" "\<forall>x. busy s' x + span (at ?r) (extent ?r) x = busy s x"
      "\<forall>r'. legal s r' \<longrightarrow> (\<forall>x. span (at ?r) (extent ?r) x + span (at r') (extent r') x \<le> 1) \<longrightarrow> legal s' r'" by blast
    have b: "busy s' x = cover (remove1 ?r rs) x" for x
    proof -
      have "busy s x = span (at ?r) (extent ?r) x + cover (remove1 ?r rs) x" using assms(1) cover_remove1[OF r] by (simp add: holds_def)
      then show ?thesis using g(3) by (metis add.commute add_left_cancel)
    qed
    have "legal s' r'" if r': "r' \<in> set (remove1 ?r rs)" for r'
    proof -
      have "span (at ?r) (extent ?r) x + span (at r') (extent r') x \<le> 1" for x
      proof -
        have "cover rs x \<le> 1" using assms(1) busy_le by (metis holds_def)
        then show ?thesis using cover_remove1[OF r, of x] cover_remove1[OF r', of x] by simp
      qed
      moreover have "legal s r'" using r' assms(1) by (meson holds_def notin_set_remove1)
      ultimately show ?thesis using g(4) by blast
    qed
    then show ?thesis using g(1,2) b True Inr by (auto simp: history_step_def holds_def)
  qed
qed

text \<open>No history faults, and after every history the regions handed out are pairwise disjoint.\<close>

lemma history_ok:
  assumes "holds s rs" "\<And>q. Inl q \<in> set evs \<Longrightarrow> request_ok q"
  shows "\<exists>s' rs'. history (s, rs) evs = Inr (s', rs') \<and> holds s' rs'"
  using assms
proof (induction evs arbitrary: s rs)
  case (Cons ev evs)
  from history_step_ok[OF Cons.prems(1), of ev] Cons.prems(2) obtain s1 rs1 where
    1: "history_step (s, rs) ev = Inr (s1, rs1)" "holds s1 rs1" by auto
  from Cons.IH[OF 1(2)] Cons.prems(2) obtain s' rs' where "history (s1, rs1) evs = Inr (s', rs')" "holds s' rs'" by auto
  then show ?case using 1(1) by auto
qed simp

end

end
