(* ===== verification/Fs_Hashmap.thy ===== *)
theory Fs_Hashmap
  imports Interfaces
begin

text \<open>
  The chained hash table of \<open>src/src/dhmp_fs_hashmap.c\<close> that every directory inode keeps in
  \<open>d_hash\<close>. A C key is a pointer to a NUL-terminated file name; the model keeps the characters
  before the NUL, so a \<^typ>\<open>string\<close> here never contains NUL. The table is an array of entries:
  the head entry of a bucket is stored inline, with key \<open>NULL\<close> (\<open>None\<close>) when the bucket is empty,
  and the rest of the bucket hangs off its \<open>next\<close> pointer.
\<close>

section \<open>The table\<close>

record 'v entry =
  e_key :: "string option"
  e_value :: "'v option"
  e_next :: "(string \<times> 'v) list"

record 'v hashMap =
  hm_size :: int
  listSize :: nat
  changeSize :: bool
  hash_list :: "'v entry list"

definition DEFAULT_MAP_SIZE :: nat where
  "DEFAULT_MAP_SIZE = 50"

definition empty_entry :: "'v entry" where
  "empty_entry = \<lparr>e_key = None, e_value = None, e_next = []\<rparr>"

definition createHashMap :: "int \<Rightarrow> 'v hashMap" where
  "createHashMap ls =
     (let n = (if ls = -1 then DEFAULT_MAP_SIZE else nat ls)
      in \<lparr>hm_size = 0, listSize = n, changeSize = True, hash_list = replicate n empty_entry\<rparr>)"

section \<open>Hashing and comparing keys\<close>

text \<open>
  \<open>char\<close> is signed on the target, so a byte above 127 is sign-extended to the 64 bits of
  \<open>unsigned long\<close>.
\<close>

definition schar :: "char \<Rightarrow> 64 word" where
  "schar c = (let n = (of_char c :: nat) in if n < 128 then of_nat n else of_nat n - 256)"

fun hash_chars :: "64 word \<Rightarrow> string \<Rightarrow> 64 word" where
  "hash_chars h [] = h"
| "hash_chars h (c # cs) =
     (let h1 = push_bit 4 h + schar c;
          g = h1 AND 0xF0000000;
          h2 = (if g \<noteq> 0 then h1 XOR drop_bit 24 g else h1)
      in hash_chars (h2 AND NOT g) cs)"

definition defaultHashCode :: "'v hashMap \<Rightarrow> string \<Rightarrow> nat" where
  "defaultHashCode m key = unat (hash_chars 0 key) mod listSize m"

definition defaultEqual :: "string \<Rightarrow> string \<Rightarrow> bool" where
  "defaultEqual key1 key2 \<longleftrightarrow> key1 = key2"

section \<open>Operations\<close>

text \<open>The loops along a chain: find a key, overwrite its value, unlink its node.\<close>

fun chain_get :: "string \<Rightarrow> (string \<times> 'v) list \<Rightarrow> 'v option" where
  "chain_get k [] = None"
| "chain_get k ((k', v) # r) = (if defaultEqual k' k then Some v else chain_get k r)"

fun chain_set :: "string \<Rightarrow> 'v \<Rightarrow> (string \<times> 'v) list \<Rightarrow> (string \<times> 'v) list option" where
  "chain_set k v [] = None"
| "chain_set k v ((k', v') # r) =
     (if defaultEqual k k' then Some ((k', v) # r) else map_option (Cons (k', v')) (chain_set k v r))"

fun chain_del :: "string \<Rightarrow> (string \<times> 'v) list \<Rightarrow> (string \<times> 'v) list option" where
  "chain_del k [] = None"
| "chain_del k ((k', v') # r) =
     (if defaultEqual k' k then Some r else map_option (Cons (k', v')) (chain_del k r))"

definition defaultExists :: "'v hashMap \<Rightarrow> string \<Rightarrow> bool" where
  "defaultExists m key =
     (let e = hash_list m ! defaultHashCode m key
      in case e_key e of
           None \<Rightarrow> False
         | Some k \<Rightarrow> defaultEqual k key \<or> chain_get key (e_next e) \<noteq> None)"

definition defaultGet :: "'v hashMap \<Rightarrow> string \<Rightarrow> 'v option" where
  "defaultGet m key =
     (if defaultExists m key then
        (let e = hash_list m ! defaultHashCode m key
         in case e_key e of
              None \<Rightarrow> None
            | Some k \<Rightarrow> if defaultEqual k key then e_value e else chain_get key (e_next e))
      else None)"

text \<open>
  The first half of \<open>defaultPut\<close>: store in an empty head, overwrite an existing key, or hang a
  new node behind the head. The flag tells whether control reaches the resizing test at the end
  (overwriting returns early).
\<close>

definition put_entry :: "'v hashMap \<Rightarrow> string \<Rightarrow> 'v \<Rightarrow> 'v hashMap \<times> bool" where
  "put_entry m key value =
     (let index = defaultHashCode m key; e = hash_list m ! index
      in case e_key e of
           None \<Rightarrow>
             (m\<lparr>hm_size := hm_size m + 1,
                hash_list := (hash_list m)[index := e\<lparr>e_key := Some key, e_value := Some value\<rparr>]\<rparr>, True)
         | Some k \<Rightarrow>
             if defaultEqual key k then
               (m\<lparr>hash_list := (hash_list m)[index := e\<lparr>e_value := Some value\<rparr>]\<rparr>, False)
             else
               (case chain_set key value (e_next e) of
                  Some ch \<Rightarrow> (m\<lparr>hash_list := (hash_list m)[index := e\<lparr>e_next := ch\<rparr>]\<rparr>, False)
                | None \<Rightarrow>
                    (m\<lparr>hm_size := hm_size m + 1,
                       hash_list := (hash_list m)[index := e\<lparr>e_next := (key, value) # e_next e\<rparr>]\<rparr>, True)))"

text \<open>The pairs of one bucket in the order \<open>resetHashMap\<close> walks them: it stops at a \<open>NULL\<close> key.\<close>

definition entry_list :: "'v entry \<Rightarrow> (string \<times> 'v) list" where
  "entry_list e =
     (case e_key e of
        None \<Rightarrow> []
      | Some k \<Rightarrow> (case e_value e of None \<Rightarrow> [] | Some v \<Rightarrow> (k, v) # e_next e))"

definition all_entries :: "'v hashMap \<Rightarrow> (string \<times> 'v) list" where
  "all_entries m = concat (map entry_list (hash_list m))"

text \<open>
  \<open>defaultPut\<close> grows the table through \<open>resetHashMap\<close>, which puts every pair back through
  \<open>defaultPut\<close>. The fuel bounds how deep resizes nest; \<open>None\<close> is running out of it.
\<close>

function (sequential)
  defaultPut_fuel :: "nat \<Rightarrow> 'v hashMap \<Rightarrow> string \<Rightarrow> 'v \<Rightarrow> 'v hashMap option" and
  resetHashMap_fuel :: "nat \<Rightarrow> 'v hashMap \<Rightarrow> nat \<Rightarrow> 'v hashMap option" and
  reput_fuel :: "nat \<Rightarrow> 'v hashMap \<Rightarrow> (string \<times> 'v) list \<Rightarrow> 'v hashMap option"
where
  "defaultPut_fuel 0 m key value = None"
| "defaultPut_fuel (Suc n) m key value =
     (case put_entry m key value of
        (m', False) \<Rightarrow> Some m'
      | (m', True) \<Rightarrow>
          if int (listSize m') \<le> hm_size m' \<and> changeSize m'
          then resetHashMap_fuel n m' (listSize m' * 2)
          else Some m')"
| "resetHashMap_fuel n m new_listSize =
     (if new_listSize < DEFAULT_MAP_SIZE then Some m
      else reput_fuel n
             (m\<lparr>listSize := new_listSize, hash_list := replicate new_listSize empty_entry, hm_size := 0\<rparr>)
             (take (nat (hm_size m)) (all_entries m)))"
| "reput_fuel n m [] = Some m"
| "reput_fuel n m ((k, v) # kvs) =
     (case defaultPut_fuel n m k v of None \<Rightarrow> None | Some m' \<Rightarrow> reput_fuel n m' kvs)"
  by pat_completeness auto
termination
  by (relation "measures [\<lambda>x. case x of Inl (n, _) \<Rightarrow> n | Inr (Inl (n, _)) \<Rightarrow> n | Inr (Inr (n, _)) \<Rightarrow> n,
        \<lambda>x. case x of Inl _ \<Rightarrow> 0 | Inr (Inl (_, m, _)) \<Rightarrow> Suc (length (all_entries m)) | Inr (Inr (_, _, l)) \<Rightarrow> length l]")
     auto

declare defaultPut_fuel.simps(2) [simp del] resetHashMap_fuel.simps [simp del]

definition defaultPut :: "'v hashMap \<Rightarrow> string \<Rightarrow> 'v \<Rightarrow> 'v hashMap" where
  "defaultPut m key value = (case defaultPut_fuel 2 m key value of Some m' \<Rightarrow> m' | None \<Rightarrow> m)"

definition resetHashMap :: "'v hashMap \<Rightarrow> nat \<Rightarrow> 'v hashMap" where
  "resetHashMap m new_listSize = (case resetHashMap_fuel 1 m new_listSize of Some m' \<Rightarrow> m' | None \<Rightarrow> m)"

text \<open>\<open>defaultRemove\<close> returns the key of the bucket's head entry as it was on entry.\<close>

definition remove_entry :: "'v hashMap \<Rightarrow> string \<Rightarrow> 'v hashMap \<times> bool" where
  "remove_entry m key =
     (let index = defaultHashCode m key; e = hash_list m ! index
      in case e_key e of
           None \<Rightarrow> (m, False)
         | Some k \<Rightarrow>
             if defaultEqual k key then
               (m\<lparr>hm_size := hm_size m - 1,
                  hash_list := (hash_list m)[index :=
                    (case e_next e of
                       (k', v') # r \<Rightarrow> \<lparr>e_key = Some k', e_value = Some v', e_next = r\<rparr>
                     | [] \<Rightarrow> e\<lparr>e_key := None, e_value := None\<rparr>)]\<rparr>, True)
             else
               (case chain_del key (e_next e) of
                  Some ch \<Rightarrow>
                    (m\<lparr>hm_size := hm_size m - 1,
                       hash_list := (hash_list m)[index := e\<lparr>e_next := ch\<rparr>]\<rparr>, True)
                | None \<Rightarrow> (m, False)))"

definition defaultRemove :: "'v hashMap \<Rightarrow> string \<Rightarrow> 'v hashMap \<times> string option" where
  "defaultRemove m key =
     (let entryKey = e_key (hash_list m ! defaultHashCode m key); (m', result) = remove_entry m key
      in if result \<and> hm_size m' < int (listSize m' div 2) \<and> changeSize m'
         then (resetHashMap m' (listSize m' div 2), entryKey)
         else (m', entryKey))"

definition defaultClear :: "'v hashMap \<Rightarrow> 'v hashMap" where
  "defaultClear m = m\<lparr>hash_list := [], hm_size := -1, listSize := 0\<rparr>"

section \<open>Well-formed tables and their contents\<close>

definition hm_map :: "'v hashMap \<Rightarrow> string \<Rightarrow> 'v option" where
  "hm_map m = map_of (all_entries m)"

definition entry_ok :: "'v entry \<Rightarrow> bool" where
  "entry_ok e \<longleftrightarrow> (e_key e = None \<longleftrightarrow> e_value e = None) \<and> (e_key e = None \<longrightarrow> e_next e = [])"

definition bucket_keys :: "'v entry \<Rightarrow> string set" where
  "bucket_keys e = fst ` set (entry_list e)"

text \<open>
  \<open>hm_ok\<close> is what the bucket operations need; \<open>hm_wf\<close> adds the load bound that makes one
  resize enough.
\<close>

definition hm_ok :: "'v hashMap \<Rightarrow> bool" where
  "hm_ok m \<longleftrightarrow>
     length (hash_list m) = listSize m \<and> 0 < listSize m \<and>
     (\<forall>i < listSize m. entry_ok (hash_list m ! i) \<and> distinct (map fst (entry_list (hash_list m ! i))) \<and>
        (\<forall>k \<in> bucket_keys (hash_list m ! i). defaultHashCode m k = i)) \<and>
     hm_size m = int (length (all_entries m))"

definition hm_wf :: "'v hashMap \<Rightarrow> bool" where
  "hm_wf m \<longleftrightarrow> hm_ok m \<and> changeSize m \<and> DEFAULT_MAP_SIZE \<le> listSize m \<and> hm_size m < int (listSize m)"

lemma hm_wf_ok: "hm_wf m \<Longrightarrow> hm_ok m"
  by (simp add: hm_wf_def)

lemma hash_cong: "listSize m' = listSize m \<Longrightarrow> defaultHashCode m' k = defaultHashCode m k"
  by (simp add: defaultHashCode_def)

lemma hash_less: "hm_ok m \<Longrightarrow> defaultHashCode m k < listSize m"
  by (simp add: defaultHashCode_def hm_ok_def)

lemma entry_list_simps [simp]:
  "entry_list \<lparr>e_key = None, e_value = x, e_next = r\<rparr> = []"
  "entry_list \<lparr>e_key = Some k, e_value = Some v, e_next = r\<rparr> = (k, v) # r"
  by (simp_all add: entry_list_def)

lemma entry_cases [case_names Empty Full]:
  assumes "entry_ok e"
  obtains "e = empty_entry" "entry_list e = []"
  | k v r where "e = \<lparr>e_key = Some k, e_value = Some v, e_next = r\<rparr>" "entry_list e = (k, v) # r"
proof (cases "e_key e")
  case None
  with assms have "e = empty_entry" by (simp add: entry_ok_def empty_entry_def)
  then show ?thesis using that(1) by (simp add: empty_entry_def)
next
  case (Some k)
  with assms obtain v where "e_value e = Some v" by (auto simp: entry_ok_def)
  with Some have "e = \<lparr>e_key = Some k, e_value = Some v, e_next = e_next e\<rparr>" by simp
  then show ?thesis using that(2) by (metis entry_list_simps(2))
qed

lemma map_of_hm_map:
  assumes "hm_ok m"
  shows "hm_map m k = map_of (entry_list (hash_list m ! defaultHashCode m k)) k"
proof -
  let ?i = "defaultHashCode m k"
  have "map_of (concat (map entry_list (hash_list m))) k = map_of (map entry_list (hash_list m) ! ?i) k"
  proof (rule map_of_concat_bucket)
    show "?i < length (map entry_list (hash_list m))"
      using assms hash_less[OF assms] by (simp add: hm_ok_def)
    show "j = ?i" if "j < length (map entry_list (hash_list m))"
      "k \<in> fst ` set (map entry_list (hash_list m) ! j)" for j
      using that assms by (auto simp: hm_ok_def bucket_keys_def)
  qed
  then show ?thesis
    using assms hash_less[OF assms, of k] by (simp add: hm_map_def all_entries_def hm_ok_def)
qed

lemma distinct_all_entries: "hm_ok m \<Longrightarrow> distinct (map fst (all_entries m))"
  unfolding all_entries_def
proof (rule distinct_concat_map_fst)
  assume ok: "hm_ok m"
  have home: "defaultHashCode m k = i" if "i < length (map entry_list (hash_list m))"
    "k \<in> fst ` set (map entry_list (hash_list m) ! i)" for i k
    using ok that by (auto simp: hm_ok_def bucket_keys_def)
  show "i = j" if "i < length (map entry_list (hash_list m))" "j < length (map entry_list (hash_list m))"
    "k \<in> fst ` set (map entry_list (hash_list m) ! i)" "k \<in> fst ` set (map entry_list (hash_list m) ! j)" for i j k
    using home[OF that(1,3)] home[OF that(2,4)] by simp
qed (auto simp: hm_ok_def)

lemma all_entries_update:
  assumes "i < length (hash_list m)"
  shows "length (concat (map entry_list ((hash_list m)[i := e]))) + length (entry_list (hash_list m ! i))
       = length (all_entries m) + length (entry_list e)"
  using sum_list_map_update[OF assms, of "\<lambda>e. length (entry_list e)" e]
  by (simp add: all_entries_def length_concat comp_def)

text \<open>Replacing one bucket: every operation on a key is an instance of this.\<close>

lemma replace_bucket:
  assumes ok: "hm_ok m" and i: "i = defaultHashCode m k"
    and e: "entry_ok e" "distinct (map fst (entry_list e))"
    and keys: "bucket_keys e \<subseteq> insert k (bucket_keys (hash_list m ! i))"
    and m': "m' = m\<lparr>hash_list := (hash_list m)[i := e], hm_size := n\<rparr>"
    and n: "n + int (length (entry_list (hash_list m ! i))) = hm_size m + int (length (entry_list e))"
  shows "hm_ok m'" and "hm_map m' x = (if defaultHashCode m x = i then map_of (entry_list e) x else hm_map m x)"
proof -
  have il: "i < length (hash_list m)" and len: "length (hash_list m) = listSize m"
    using ok hash_less[OF ok, of k] by (auto simp: i hm_ok_def)
  have hc: "defaultHashCode m' y = defaultHashCode m y" for y
    by (simp add: m' defaultHashCode_def)
  have size: "n = int (length (concat (map entry_list ((hash_list m)[i := e]))))"
    using all_entries_update[OF il, of e] n ok by (simp add: hm_ok_def)
  have old: "\<forall>j < listSize m. entry_ok (hash_list m ! j) \<and> distinct (map fst (entry_list (hash_list m ! j))) \<and>
        (\<forall>k \<in> bucket_keys (hash_list m ! j). defaultHashCode m k = j)"
    using ok by (simp add: hm_ok_def)
  have ek: "\<forall>y \<in> bucket_keys e. defaultHashCode m y = i"
    using keys old il len i by auto
  show ok': "hm_ok m'"
    unfolding hm_ok_def
  proof (intro conjI allI impI)
    show "hm_size m' = int (length (all_entries m'))" using size by (simp add: m' all_entries_def)
    show "0 < listSize m'" using ok by (simp add: m' hm_ok_def)
    fix j assume j: "j < listSize m'"
    then have jl: "j < length (hash_list m)" by (simp add: m' len)
    show "entry_ok (hash_list m' ! j)" using old jl e(1) len by (cases "i = j") (auto simp: m' nth_list_update)
    show "distinct (map fst (entry_list (hash_list m' ! j)))"
      using old jl e(2) len by (cases "i = j") (auto simp: m' nth_list_update)
    show "\<forall>k \<in> bucket_keys (hash_list m' ! j). defaultHashCode m' k = j"
      using old jl ek len hc by (cases "i = j") (auto simp: m' nth_list_update)
  qed (simp add: m' len)
  show "hm_map m' x = (if defaultHashCode m x = i then map_of (entry_list e) x else hm_map m x)"
    using il by (simp add: map_of_hm_map[OF ok'] map_of_hm_map[OF ok] hc) (simp add: m' nth_list_update)
qed

section \<open>The chains\<close>

lemma chain_get_map_of: "chain_get k r = map_of r k"
  by (induction r) (auto simp: defaultEqual_def)

lemma chain_set_None: "chain_set k v r = None \<longleftrightarrow> k \<notin> fst ` set r"
  by (induction k v r rule: chain_set.induct) (auto simp: defaultEqual_def split: if_splits)

lemma chain_set_Some:
  "chain_set k v r = Some r' \<Longrightarrow>
     map fst r' = map fst r \<and> map_of r' = (map_of r)(k \<mapsto> v)"
  by (induction k v r arbitrary: r' rule: chain_set.induct)
     (auto simp: defaultEqual_def fun_upd_twist split: if_splits)

lemma chain_del_None: "chain_del k r = None \<longleftrightarrow> k \<notin> fst ` set r"
  by (induction k r rule: chain_del.induct) (auto simp: defaultEqual_def split: if_splits)

lemma chain_del_Some:
  "chain_del k r = Some r' \<Longrightarrow> distinct (map fst r) \<Longrightarrow>
     distinct (map fst r') \<and> fst ` set r' = fst ` set r - {k} \<and> map_of r' = (map_of r)(k := None) \<and>
     length r = Suc (length r')"
proof (induction k r arbitrary: r' rule: chain_del.induct)
  case (1 k)
  then show ?case by simp
next
  case (2 k k' v r)
  show ?case
  proof (cases "k' = k")
    case True
    with 2 have "r' = r" "map_of r k = None"
      by (auto simp: defaultEqual_def map_of_eq_None_iff)
    with 2 True show ?thesis by auto
  next
    case False
    with 2 obtain r1 where r1: "chain_del k r = Some r1" "r' = (k', v) # r1"
      by (auto simp: defaultEqual_def)
    then have "distinct (map fst r1) \<and> fst ` set r1 = fst ` set r - {k} \<and> map_of r1 = (map_of r)(k := None) \<and>
        length r = Suc (length r1)"
      using 2 False by (auto simp: defaultEqual_def)
    with r1 2(3) False show ?thesis by (auto simp: fun_upd_twist)
  qed
qed

section \<open>Looking keys up\<close>

lemma bucket_ok: "hm_ok m \<Longrightarrow> entry_ok (hash_list m ! defaultHashCode m k)"
  using hash_less[of m k] by (simp add: hm_ok_def)

lemma bucket_distinct: "hm_ok m \<Longrightarrow> distinct (map fst (entry_list (hash_list m ! defaultHashCode m k)))"
  using hash_less[of m k] by (simp add: hm_ok_def)

lemma defaultExists_iff: "hm_ok m \<Longrightarrow> defaultExists m k \<longleftrightarrow> hm_map m k \<noteq> None"
  using bucket_ok[of m k]
  by (cases rule: entry_cases[of "hash_list m ! defaultHashCode m k"])
     (auto simp: defaultExists_def map_of_hm_map Let_def chain_get_map_of defaultEqual_def empty_entry_def
           split: option.splits)

lemma defaultGet_eq: "hm_ok m \<Longrightarrow> defaultGet m k = hm_map m k"
  using bucket_ok[of m k] defaultExists_iff[of m k]
  by (cases rule: entry_cases[of "hash_list m ! defaultHashCode m k"])
     (auto simp: defaultGet_def map_of_hm_map Let_def chain_get_map_of defaultEqual_def empty_entry_def)

section \<open>Storing\<close>

text \<open>What \<open>put_entry\<close> does to the bucket of the key, in one shape for all four branches.\<close>

lemma put_entry_shape:
  assumes ok: "hm_ok m" and put: "put_entry m k v = (m', full)"
  obtains e n where "m' = m\<lparr>hash_list := (hash_list m)[defaultHashCode m k := e], hm_size := n\<rparr>"
    "entry_ok e" "distinct (map fst (entry_list e))"
    "bucket_keys e \<subseteq> insert k (bucket_keys (hash_list m ! defaultHashCode m k))"
    "n + int (length (entry_list (hash_list m ! defaultHashCode m k))) = hm_size m + int (length (entry_list e))"
    "map_of (entry_list e) = (map_of (entry_list (hash_list m ! defaultHashCode m k)))(k \<mapsto> v)"
    "n = hm_size m + (if hm_map m k = None then 1 else 0)" "full \<longleftrightarrow> hm_map m k = None"
proof -
  let ?i = "defaultHashCode m k"
  let ?e = "hash_list m ! ?i"
  have d: "distinct (map fst (entry_list ?e))" by (rule bucket_distinct[OF ok])
  have hm: "hm_map m k = map_of (entry_list ?e) k" by (rule map_of_hm_map[OF ok])
  from bucket_ok[OF ok, of k] show thesis
  proof (cases rule: entry_cases)
    case Empty
    then have "m' = m\<lparr>hash_list := (hash_list m)[?i := \<lparr>e_key = Some k, e_value = Some v, e_next = []\<rparr>],
        hm_size := hm_size m + 1\<rparr>" "full"
      using put by (auto simp: put_entry_def Let_def empty_entry_def)
    then show thesis using Empty hm by (intro that) (auto simp: entry_ok_def bucket_keys_def)
  next
    case (Full k0 v0 r)
    show thesis
    proof (cases "k0 = k")
      case True
      then have "m' = m\<lparr>hash_list := (hash_list m)[?i := \<lparr>e_key = Some k, e_value = Some v, e_next = r\<rparr>],
          hm_size := hm_size m\<rparr>" "\<not> full"
        using put Full by (auto simp: put_entry_def Let_def defaultEqual_def)
      then show thesis using Full hm True d by (intro that) (auto simp: entry_ok_def bucket_keys_def)
    next
      case ne: False
      show thesis
      proof (cases "chain_set k v r")
        case None
        then have "m' = m\<lparr>hash_list := (hash_list m)[?i := \<lparr>e_key = Some k0, e_value = Some v0, e_next = (k, v) # r\<rparr>],
            hm_size := hm_size m + 1\<rparr>" "full"
          using put Full ne by (auto simp: put_entry_def Let_def defaultEqual_def)
        then show thesis using Full hm ne d None
          by (intro that) (auto simp: entry_ok_def bucket_keys_def chain_set_None map_of_eq_None_iff)
      next
        case (Some r')
        then have "m' = m\<lparr>hash_list := (hash_list m)[?i := \<lparr>e_key = Some k0, e_value = Some v0, e_next = r'\<rparr>],
            hm_size := hm_size m\<rparr>" "\<not> full"
          using put Full ne by (auto simp: put_entry_def Let_def defaultEqual_def)
        moreover have "k \<in> fst ` set r" using Some chain_set_None[of k v r] by auto
        moreover have "length r' = length r" using chain_set_Some[OF Some] by (metis length_map)
        moreover have "bucket_keys \<lparr>e_key = Some k0, e_value = Some v0, e_next = r'\<rparr> = bucket_keys ?e"
          using chain_set_Some[OF Some] Full(2) unfolding bucket_keys_def by (metis entry_list_simps(2) list.simps(9) list.set_map)
        ultimately show thesis using Full hm ne d chain_set_Some[OF Some]
          by (intro that) (auto simp: entry_ok_def map_of_eq_None_iff)
      qed
    qed
  qed
qed

lemma put_entry_ok:
  assumes "hm_ok m" "put_entry m k v = (m', full)"
  shows "hm_ok m'" "hm_map m' = (hm_map m)(k \<mapsto> v)" "listSize m' = listSize m" "changeSize m' = changeSize m"
    "hm_size m' = hm_size m + (if hm_map m k = None then 1 else 0)" "full \<longleftrightarrow> hm_map m k = None"
proof -
  let ?i = "defaultHashCode m k"
  from put_entry_shape[OF assms] obtain e n where
    s: "m' = m\<lparr>hash_list := (hash_list m)[?i := e], hm_size := n\<rparr>"
    "entry_ok e" "distinct (map fst (entry_list e))"
    "bucket_keys e \<subseteq> insert k (bucket_keys (hash_list m ! ?i))"
    "n + int (length (entry_list (hash_list m ! ?i))) = hm_size m + int (length (entry_list e))"
    and mo: "map_of (entry_list e) = (map_of (entry_list (hash_list m ! ?i)))(k \<mapsto> v)"
    and n: "n = hm_size m + (if hm_map m k = None then 1 else 0)" "full \<longleftrightarrow> hm_map m k = None"
    by metis
  note rb = replace_bucket[OF assms(1) refl s(2,3,4,1,5)]
  show "hm_ok m'" by (rule rb(1))
  show "hm_map m' = (hm_map m)(k \<mapsto> v)"
  proof
    fix x show "hm_map m' x = ((hm_map m)(k \<mapsto> v)) x"
      using rb(2)[of x] map_of_hm_map[OF assms(1), of x] mo by auto
  qed
  show "listSize m' = listSize m" "changeSize m' = changeSize m"
    "hm_size m' = hm_size m + (if hm_map m k = None then 1 else 0)" "full \<longleftrightarrow> hm_map m k = None"
    using n by (simp_all add: s(1))
qed

section \<open>Resizing\<close>

definition fresh_table :: "'v hashMap \<Rightarrow> nat \<Rightarrow> 'v hashMap" where
  "fresh_table m n = m\<lparr>listSize := n, hash_list := replicate n empty_entry, hm_size := 0\<rparr>"

lemma entry_list_empty [simp]: "entry_list empty_entry = []"
  by (simp add: empty_entry_def)

lemma fresh_table_ok: "0 < n \<Longrightarrow> hm_ok (fresh_table m n)"
  by (auto simp: hm_ok_def fresh_table_def entry_ok_def empty_entry_def bucket_keys_def all_entries_def)

lemma fresh_table_map [simp]: "hm_map (fresh_table m n) = Map.empty"
  by (simp add: hm_map_def fresh_table_def all_entries_def)

lemma put_step_simple:
  assumes "hm_ok m" "hm_size m + 1 < int (listSize m)"
  shows "defaultPut_fuel (Suc n) m k v = Some (fst (put_entry m k v))"
proof -
  obtain m' full where p: "put_entry m k v = (m', full)" by fastforce
  have "hm_size m' < int (listSize m')" using put_entry_ok[OF assms(1) p] assms(2) by auto
  then show ?thesis using p by (cases full) (simp_all add: defaultPut_fuel.simps(2))
qed

lemma reput_fuel_ok:
  assumes "hm_ok m" "distinct (map fst kvs)" "fst ` set kvs \<inter> dom (hm_map m) = {}"
    "hm_size m + int (length kvs) < int (listSize m)"
  obtains m' where "reput_fuel (Suc n) m kvs = Some m'" "hm_ok m'" "hm_map m' = hm_map m ++ map_of kvs"
    "listSize m' = listSize m" "changeSize m' = changeSize m" "hm_size m' = hm_size m + int (length kvs)"
  using assms
proof (induction kvs arbitrary: m thesis)
  case Nil
  then show ?case by simp
next
  case (Cons kv kvs)
  obtain k v where kv: "kv = (k, v)" by fastforce
  obtain m1 full where p: "put_entry m k v = (m1, full)" by fastforce
  note po = put_entry_ok[OF Cons.prems(2) p]
  have knew: "hm_map m k = None" using Cons.prems(4) kv by auto
  have step: "defaultPut_fuel (Suc n) m k v = Some m1"
    using put_step_simple[OF Cons.prems(2), of n k v] Cons.prems(5) p by simp
  obtain m' where m': "reput_fuel (Suc n) m1 kvs = Some m'" "hm_ok m'" "hm_map m' = hm_map m1 ++ map_of kvs"
    "listSize m' = listSize m1" "changeSize m' = changeSize m1" "hm_size m' = hm_size m1 + int (length kvs)"
  proof (rule Cons.IH[OF _ po(1)])
    show "distinct (map fst kvs)" using Cons.prems(3) by simp
    show "fst ` set kvs \<inter> dom (hm_map m1) = {}" using Cons.prems(3,4) kv by (auto simp: po(2))
    show "hm_size m1 + int (length kvs) < int (listSize m1)" using Cons.prems(5) by (simp add: po(3,5))
  qed
  have "k \<notin> fst ` set kvs" using Cons.prems(3) kv by simp
  then have "map_of kvs k = None" by (simp add: map_of_eq_None_iff)
  then have "hm_map m1 ++ map_of kvs = hm_map m ++ map_of (kv # kvs)"
    by (auto simp: po(2) kv map_add_def fun_eq_iff split: option.split)
  with m'(3) have map: "hm_map m' = hm_map m ++ map_of (kv # kvs)" by simp
  have "reput_fuel (Suc n) m (kv # kvs) = Some m'" using m'(1) step by (simp add: kv)
  moreover have "hm_size m' = hm_size m + int (length (kv # kvs))"
    using m'(6) po(5) knew by simp
  moreover have "listSize m' = listSize m" "changeSize m' = changeSize m" using m'(4,5) po(3,4) by simp_all
  ultimately show ?case using Cons.prems(1)[OF _ m'(2) map] by blast
qed

text \<open>One level of fuel is enough to rebuild a table into one that has room for its pairs.\<close>

lemma resetHashMap_fuel_ok:
  assumes ok: "hm_ok m" and n: "DEFAULT_MAP_SIZE \<le> n" and room: "hm_size m < int n" and ch: "changeSize m"
  obtains m' where "resetHashMap_fuel (Suc f) m n = Some m'" "hm_wf m'" "hm_map m' = hm_map m"
    "hm_size m' = hm_size m" "listSize m' = n"
proof -
  have size: "nat (hm_size m) = length (all_entries m)" using ok by (simp add: hm_ok_def)
  have n0: "0 < n" using n by (simp add: DEFAULT_MAP_SIZE_def)
  obtain m' where m': "reput_fuel (Suc f) (fresh_table m n) (all_entries m) = Some m'" "hm_ok m'"
    "hm_map m' = hm_map (fresh_table m n) ++ map_of (all_entries m)" "listSize m' = listSize (fresh_table m n)"
    "changeSize m' = changeSize (fresh_table m n)"
    "hm_size m' = hm_size (fresh_table m n) + int (length (all_entries m))"
  proof (rule reput_fuel_ok[OF fresh_table_ok[OF n0], where kvs = "all_entries m"])
    show "distinct (map fst (all_entries m))" by (rule distinct_all_entries[OF ok])
    show "hm_size (fresh_table m n) + int (length (all_entries m)) < int (listSize (fresh_table m n))"
      using room ok by (simp add: fresh_table_def hm_ok_def)
  qed simp_all
  have "resetHashMap_fuel (Suc f) m n = Some m'"
    using m'(1) n size by (simp add: resetHashMap_fuel.simps fresh_table_def)
  moreover have "hm_map m' = hm_map m" using m'(3) by (simp add: hm_map_def[of m])
  moreover have "hm_size m' = hm_size m" "listSize m' = n" "changeSize m'"
    using m'(4,5,6) ok ch by (simp_all add: fresh_table_def hm_ok_def)
  ultimately show thesis
    using m'(2) n room by (intro that[of m']) (simp_all add: hm_wf_def)
qed

lemma resetHashMap_ok:
  assumes "hm_ok m" "DEFAULT_MAP_SIZE \<le> n" "hm_size m < int n" "changeSize m"
  shows "hm_wf (resetHashMap m n)" "hm_map (resetHashMap m n) = hm_map m"
    "hm_size (resetHashMap m n) = hm_size m" "listSize (resetHashMap m n) = n"
proof -
  obtain m' where "resetHashMap_fuel 1 m n = Some m'" "hm_wf m'" "hm_map m' = hm_map m"
    "hm_size m' = hm_size m" "listSize m' = n"
    using resetHashMap_fuel_ok[OF assms, of 0] unfolding One_nat_def by metis
  then show "hm_wf (resetHashMap m n)" "hm_map (resetHashMap m n) = hm_map m"
    "hm_size (resetHashMap m n) = hm_size m" "listSize (resetHashMap m n) = n"
    by (simp_all add: resetHashMap_def)
qed

lemma defaultPut_fuel_ok:
  assumes wf: "hm_wf m"
  obtains m' where "defaultPut_fuel (Suc (Suc f)) m k v = Some m'" "hm_wf m'" "hm_map m' = (hm_map m)(k \<mapsto> v)"
    "hm_size m' = hm_size m + (if hm_map m k = None then 1 else 0)"
proof -
  obtain m1 full where p: "put_entry m k v = (m1, full)" by fastforce
  note po = put_entry_ok[OF hm_wf_ok[OF wf] p]
  have le: "hm_size m1 \<le> int (listSize m1)" using wf by (simp add: po(3,5) hm_wf_def)
  show thesis
  proof (cases "full \<and> int (listSize m1) \<le> hm_size m1")
    case False
    have "hm_size m1 < int (listSize m1)" using False wf po(3,5,6) by (auto simp: hm_wf_def)
    then have "hm_wf m1" using wf po(1,3,4) by (simp add: hm_wf_def)
    moreover have "defaultPut_fuel (Suc (Suc f)) m k v = Some m1"
      using False p by (cases full) (simp_all add: defaultPut_fuel.simps(2))
    ultimately show thesis using that po(2,5) by blast
  next
    case True
    have "DEFAULT_MAP_SIZE \<le> listSize m1 * 2" "hm_size m1 < int (listSize m1 * 2)" "changeSize m1"
      using wf le po(3,4) by (auto simp: hm_wf_def DEFAULT_MAP_SIZE_def)
    from resetHashMap_fuel_ok[OF po(1) this(1,2,3), of f] obtain m2 where
      m2: "resetHashMap_fuel (Suc f) m1 (listSize m1 * 2) = Some m2" "hm_wf m2" "hm_map m2 = hm_map m1"
      "hm_size m2 = hm_size m1"
      by metis
    moreover have "defaultPut_fuel (Suc (Suc f)) m k v = Some m2"
      using True p m2(1) \<open>changeSize m1\<close> by (simp add: defaultPut_fuel.simps(2))
    ultimately show thesis using that po(2,5) by metis
  qed
qed

lemma defaultPut_ok:
  assumes "hm_wf m"
  shows "hm_wf (defaultPut m k v)" "hm_map (defaultPut m k v) = (hm_map m)(k \<mapsto> v)"
    "hm_size (defaultPut m k v) = hm_size m + (if hm_map m k = None then 1 else 0)"
proof -
  have two: "(2::nat) = Suc (Suc 0)" by simp
  from defaultPut_fuel_ok[OF assms, of 0 k v] obtain m' where "defaultPut_fuel 2 m k v = Some m'" "hm_wf m'"
    "hm_map m' = (hm_map m)(k \<mapsto> v)" "hm_size m' = hm_size m + (if hm_map m k = None then 1 else 0)"
    unfolding two by metis
  then show "hm_wf (defaultPut m k v)" "hm_map (defaultPut m k v) = (hm_map m)(k \<mapsto> v)"
    "hm_size (defaultPut m k v) = hm_size m + (if hm_map m k = None then 1 else 0)"
    by (simp_all add: defaultPut_def)
qed

section \<open>Removing\<close>

lemma remove_entry_ok:
  assumes ok: "hm_ok m" and rm: "remove_entry m k = (m', result)"
  shows "hm_ok m'" "hm_map m' = (hm_map m)(k := None)" "listSize m' = listSize m" "changeSize m' = changeSize m"
    "hm_size m' = hm_size m - (if result then 1 else 0)" "result \<longleftrightarrow> hm_map m k \<noteq> None"
proof -
  let ?i = "defaultHashCode m k"
  let ?e = "hash_list m ! ?i"
  have d: "distinct (map fst (entry_list ?e))" by (rule bucket_distinct[OF ok])
  have hm: "hm_map m k = map_of (entry_list ?e) k" by (rule map_of_hm_map[OF ok])
  have conc: "hm_ok m' \<and> hm_map m' = (hm_map m)(k := None) \<and> listSize m' = listSize m \<and> changeSize m' = changeSize m \<and>
      hm_size m' = hm_size m - (if result then 1 else 0) \<and> (result \<longleftrightarrow> hm_map m k \<noteq> None)"
  proof (cases result)
    case False
    have "m' = m \<and> map_of (entry_list ?e) k = None" using bucket_ok[OF ok, of k] rm False
      by (cases rule: entry_cases[of ?e])
         (auto simp: remove_entry_def Let_def defaultEqual_def empty_entry_def chain_del_None map_of_eq_None_iff
            split: if_splits option.splits list.splits prod.splits)
    then show ?thesis using ok hm False by (auto simp: fun_upd_idem)
  next
    case True
    obtain k0 v0 r where e: "?e = \<lparr>e_key = Some k0, e_value = Some v0, e_next = r\<rparr>" "entry_list ?e = (k0, v0) # r"
      using bucket_ok[OF ok, of k] rm True
      by (cases rule: entry_cases[of ?e]) (auto simp: remove_entry_def Let_def empty_entry_def)
    obtain e' where s: "m' = m\<lparr>hash_list := (hash_list m)[?i := e'], hm_size := hm_size m - 1\<rparr>"
      "entry_ok e'" "distinct (map fst (entry_list e'))" "bucket_keys e' \<subseteq> insert k (bucket_keys ?e)"
      "length (entry_list ?e) = Suc (length (entry_list e'))"
      "map_of (entry_list e') = (map_of (entry_list ?e))(k := None)" "map_of (entry_list ?e) k \<noteq> None"
    proof (cases "k0 = k")
      case True
      have "map_of r k = None" using d e(2) True by (simp add: map_of_eq_None_iff)
      note facts = this rm e d True
      show thesis
      proof (cases r)
        case Nil
        show thesis
          by (rule that[of "\<lparr>e_key = None, e_value = None, e_next = []\<rparr>"])
             (use facts Nil in \<open>auto simp: remove_entry_def Let_def defaultEqual_def entry_ok_def bucket_keys_def\<close>)
      next
        case (Cons a r2)
        show thesis
          by (rule that[of "\<lparr>e_key = Some (fst a), e_value = Some (snd a), e_next = r2\<rparr>"])
             (use facts Cons in \<open>auto simp: remove_entry_def Let_def defaultEqual_def entry_ok_def bucket_keys_def
                fun_upd_idem split: prod.splits\<close>)
      qed
    next
      case ne: False
      then obtain r' where r': "chain_del k r = Some r'"
        "m' = m\<lparr>hash_list := (hash_list m)[?i := \<lparr>e_key = Some k0, e_value = Some v0, e_next = r'\<rparr>], hm_size := hm_size m - 1\<rparr>"
        using rm e True by (auto simp: remove_entry_def Let_def defaultEqual_def split: option.splits)
      have "k \<in> fst ` set r" using r'(1) chain_del_None[of k r] by auto
      then show thesis
        using r' e d ne chain_del_Some[OF r'(1)] that[of "\<lparr>e_key = Some k0, e_value = Some v0, e_next = r'\<rparr>"]
        by (auto simp: entry_ok_def bucket_keys_def fun_upd_twist map_of_eq_None_iff)
    qed
    note rb = replace_bucket[OF ok refl s(2,3,4,1)]
    have sz: "hm_size m - 1 + int (length (entry_list ?e)) = hm_size m + int (length (entry_list e'))" using s(5) by simp
    have "hm_map m' = (hm_map m)(k := None)"
    proof
      fix x show "hm_map m' x = ((hm_map m)(k := None)) x"
        using rb(2)[OF sz, of x] map_of_hm_map[OF ok, of x] s(6) by auto
    qed
    then show ?thesis using rb(1)[OF sz] s(7) hm True by (simp add: s(1))
  qed
  then show "hm_ok m'" "hm_map m' = (hm_map m)(k := None)" "listSize m' = listSize m" "changeSize m' = changeSize m"
    "hm_size m' = hm_size m - (if result then 1 else 0)" "result \<longleftrightarrow> hm_map m k \<noteq> None" by auto
qed

lemma defaultRemove_ok:
  assumes wf: "hm_wf m"
  shows "hm_wf (fst (defaultRemove m k))" "hm_map (fst (defaultRemove m k)) = (hm_map m)(k := None)"
    "hm_size (fst (defaultRemove m k)) = hm_size m - (if hm_map m k = None then 0 else 1)"
proof -
  obtain m1 result where r: "remove_entry m k = (m1, result)" by fastforce
  note ro = remove_entry_ok[OF hm_wf_ok[OF wf] r]
  have wf1: "hm_wf m1" using wf ro(1,3,4,5) by (auto simp: hm_wf_def)
  have conc: "hm_wf (fst (defaultRemove m k)) \<and> hm_map (fst (defaultRemove m k)) = hm_map m1 \<and>
      hm_size (fst (defaultRemove m k)) = hm_size m1"
  proof (cases "result \<and> hm_size m1 < int (listSize m1 div 2) \<and> changeSize m1")
    case False
    then show ?thesis using wf1 r by (auto simp: defaultRemove_def Let_def)
  next
    case True
    then have eq: "fst (defaultRemove m k) = resetHashMap m1 (listSize m1 div 2)"
      using r by (simp add: defaultRemove_def Let_def)
    show ?thesis
    proof (cases "listSize m1 div 2 < DEFAULT_MAP_SIZE")
      case True
      then show ?thesis using wf1 eq by (simp add: resetHashMap_def resetHashMap_fuel.simps)
    next
      case big: False
      then show ?thesis using resetHashMap_ok[OF ro(1), of "listSize m1 div 2"] True eq by simp
    qed
  qed
  then show "hm_wf (fst (defaultRemove m k))" "hm_map (fst (defaultRemove m k)) = (hm_map m)(k := None)"
    "hm_size (fst (defaultRemove m k)) = hm_size m - (if hm_map m k = None then 0 else 1)"
    using ro(2,5,6) by auto
qed

text \<open>The return value is not \<open>NULL\<close> when the key was there (the converse does not hold).\<close>

lemma defaultRemove_key:
  assumes "hm_ok m" "hm_map m k \<noteq> None"
  shows "snd (defaultRemove m k) \<noteq> None"
proof -
  let ?e = "hash_list m ! defaultHashCode m k"
  have m: "map_of (entry_list ?e) k \<noteq> None" using map_of_hm_map[OF assms(1), of k] assms(2) by simp
  have "e_key ?e \<noteq> None" using bucket_ok[OF assms(1), of k] m by (cases rule: entry_cases[of ?e]) auto
  then show ?thesis by (simp add: defaultRemove_def Let_def split: prod.split)
qed

lemma createHashMap_ok:
  "hm_wf (createHashMap (-1))" "hm_map (createHashMap (-1)) = Map.empty" "hm_size (createHashMap (-1)) = 0"
  by (auto simp: createHashMap_def hm_wf_def hm_ok_def DEFAULT_MAP_SIZE_def entry_ok_def empty_entry_def
        bucket_keys_def all_entries_def hm_map_def)

section \<open>The table provides a dictionary\<close>

interpretation hm: dict defaultGet defaultPut "\<lambda>m k. fst (defaultRemove m k)" hm_size hm_wf
  by unfold_locales
     (simp_all add: defaultGet_eq hm_wf_ok defaultPut_ok defaultRemove_ok)

lemmas hm_laws = hm.lookup_update hm.lookup_delete hm.invar_update hm.invar_delete

section \<open>Properties\<close>

text \<open>A history of \<open>put\<close> (\<open>Some\<close>) and \<open>remove\<close> (\<open>None\<close>) calls on a table.\<close>

definition hm_history :: "'v hashMap \<Rightarrow> (string \<times> 'v option) list \<Rightarrow> 'v hashMap" where
  "hm_history m ops =
     foldl (\<lambda>m (k, v). case v of None \<Rightarrow> fst (defaultRemove m k) | Some x \<Rightarrow> defaultPut m k x) m ops"

text \<open>C10: from \<open>createHashMap\<close> on, every history of \<open>put\<close> and \<open>remove\<close> calls, resizes in both
  directions included, leaves a table whose \<open>get\<close> is the plain map updated by the same history;
  \<open>size\<close> counts its keys and stays below the number of buckets.\<close>

theorem hashmap_refines_map:
  "defaultGet (hm_history (createHashMap (-1)) ops) = foldl (\<lambda>f (k, v). f(k := v)) Map.empty ops \<and>
   hm_size (hm_history (createHashMap (-1)) ops) = int (card (dom (defaultGet (hm_history (createHashMap (-1)) ops)))) \<and>
   hm_size (hm_history (createHashMap (-1)) ops) < int (listSize (hm_history (createHashMap (-1)) ops))"
proof -
  have h: "hm_history m ops = foldl hm.run_op m ops" for m :: "'a hashMap"
    unfolding hm_history_def by (rule foldl_cong) (auto simp: hm.run_op_def split: option.split)
  have e: "defaultGet (createHashMap (-1) :: 'a hashMap) = Map.empty"
    using createHashMap_ok(2) by (simp add: fun_eq_iff defaultGet_eq[OF hm_wf_ok[OF createHashMap_ok(1)]])
  show ?thesis
    using hm.run_ops[OF createHashMap_ok(1), of ops] createHashMap_ok(3)
    unfolding h by (auto simp: e hm_wf_def)
qed

text \<open>One resize never triggers another: on a well-formed table \<open>put\<close> returns with two levels
  of nesting, whatever extra depth is allowed, so the recursion between \<open>defaultPut\<close> and
  \<open>resetHashMap\<close> ends.\<close>

theorem put_terminates:
  assumes "hm_wf m"
  shows "\<exists>m'. defaultPut_fuel (Suc (Suc f)) m k v = Some m' \<and> hm_wf m'"
  using defaultPut_fuel_ok[OF assms, of f k v] by metis

theorem put_terminates_witness:
  "\<exists>m'. defaultPut_fuel (Suc (Suc 0)) (createHashMap (-1) :: nat hashMap) ''a'' 1 = Some m' \<and> hm_wf m'"
  by (rule put_terminates[OF createHashMap_ok(1)])

end
