(* ===== verification/Fs_Index.thy ===== *)
theory Fs_Index
  imports Fs_Hashmap Interfaces
begin

text \<open>
  Inodes, chunks and the block index of \<open>src/src/dhmp_fs_index.c\<close> and \<open>src/include/dhmp_fs.h\<close>.
  An inode is named by the address \<open>malloc\<close> gave it (a natural number), a \<open>context\<close> by its chunk
  index; \<open>NULL\<close> is \<open>None\<close>. The list \<open>ctxs\<close> of an inode is the \<open>next\<close> chain behind its dummy head
  \<open>inode->context\<close>. Fields that the code leaves uninitialised keep what the memory held before.
\<close>

section \<open>Sizes\<close>

definition TOTOL_SIZE :: nat where "TOTOL_SIZE = 1024 * 1024 * 1024 * 8"
definition BANK_SIZE :: nat where "BANK_SIZE = 1024 * 1024 * 4"
definition BANK_NUM :: nat where "BANK_NUM = TOTOL_SIZE div BANK_SIZE"
definition CHUNK_SIZE :: nat where "CHUNK_SIZE = 1024 * 4"
definition CHUNK_NUM :: nat where "CHUNK_NUM = TOTOL_SIZE div CHUNK_SIZE"
definition CACHE_SIZE_BYTE :: nat where "CACHE_SIZE_BYTE = 1024 * 1024 * 512"
definition CACHE_SIZE :: nat where "CACHE_SIZE = CACHE_SIZE_BYTE div BANK_SIZE"
definition FILE_NAME_LEN :: nat where "FILE_NAME_LEN = 512"
definition INDIRECT_INDEX_NUMS :: nat where "INDIRECT_INDEX_NUMS = 256"
definition DIRECT_INDEX_NUMS :: nat where "DIRECT_INDEX_NUMS = 100"
definition SLAB_NUMS :: nat where "SLAB_NUMS = 1000"

definition SIZE_DIRECT_UNIT :: nat where "SIZE_DIRECT_UNIT = CHUNK_SIZE"
definition SIZE_FIRST_DIRECT_UNIT :: nat where "SIZE_FIRST_DIRECT_UNIT = CHUNK_SIZE"
definition SIZE_SECOND_DIRECT_UNIT :: nat where "SIZE_SECOND_DIRECT_UNIT = CHUNK_SIZE * INDIRECT_INDEX_NUMS"
definition SIZE_THIRD_DIRECT_UNIT :: nat where
  "SIZE_THIRD_DIRECT_UNIT = CHUNK_SIZE * INDIRECT_INDEX_NUMS * INDIRECT_INDEX_NUMS"

definition SIZE_DIRECT_END :: nat where "SIZE_DIRECT_END = DIRECT_INDEX_NUMS * CHUNK_SIZE"
definition SIZE_FIRST_DIRECT_END :: nat where
  "SIZE_FIRST_DIRECT_END = SIZE_DIRECT_END + INDIRECT_INDEX_NUMS * CHUNK_SIZE"
definition SIZE_SECOND_DIRECT_END :: nat where
  "SIZE_SECOND_DIRECT_END = SIZE_FIRST_DIRECT_END + INDIRECT_INDEX_NUMS * INDIRECT_INDEX_NUMS * CHUNK_SIZE"
definition SIZE_THIRD_DIRECT_END :: nat where
  "SIZE_THIRD_DIRECT_END =
     SIZE_SECOND_DIRECT_END + INDIRECT_INDEX_NUMS * INDIRECT_INDEX_NUMS * INDIRECT_INDEX_NUMS * CHUNK_SIZE"

lemma sizes [const_simps]:
  "BANK_SIZE = 4194304" "CHUNK_SIZE = 4096" "BANK_NUM = 2048" "CHUNK_NUM = 2097152" "CACHE_SIZE = 128"
  "FILE_NAME_LEN = 512"
  by (simp_all add: BANK_SIZE_def CHUNK_SIZE_def BANK_NUM_def CHUNK_NUM_def CACHE_SIZE_def TOTOL_SIZE_def
        CACHE_SIZE_BYTE_def FILE_NAME_LEN_def)

lemma index_sizes [const_simps]:
  "INDIRECT_INDEX_NUMS = 256" "DIRECT_INDEX_NUMS = 100"
  "SIZE_DIRECT_UNIT = 4096" "SIZE_FIRST_DIRECT_UNIT = 4096"
  "SIZE_SECOND_DIRECT_UNIT = 1048576" "SIZE_THIRD_DIRECT_UNIT = 268435456"
  "SIZE_DIRECT_END = 409600" "SIZE_FIRST_DIRECT_END = 1458176"
  "SIZE_SECOND_DIRECT_END = 269893632" "SIZE_THIRD_DIRECT_END = 68989370368"
  by (simp_all add: INDIRECT_INDEX_NUMS_def DIRECT_INDEX_NUMS_def SIZE_DIRECT_UNIT_def SIZE_FIRST_DIRECT_UNIT_def
        SIZE_SECOND_DIRECT_UNIT_def SIZE_THIRD_DIRECT_UNIT_def SIZE_DIRECT_END_def SIZE_FIRST_DIRECT_END_def
        SIZE_SECOND_DIRECT_END_def SIZE_THIRD_DIRECT_END_def CHUNK_SIZE_def)

section \<open>State\<close>

type_synonym inode_id = nat
type_synonym chunk_id = nat
type_synonym indirect_class1 = "nat \<Rightarrow> chunk_id option"
type_synonym indirect_class2 = "nat \<Rightarrow> indirect_class1"
type_synonym indirect_class3 = "nat \<Rightarrow> indirect_class2"

record file_index =
  addr :: indirect_class1
  in1addr :: "indirect_class1 option"
  in2addr :: "indirect_class2 option"
  in3addr :: "indirect_class3 option"

text \<open>A place in the index that can hold the address of a context: what \<open>which_inode_it_is\<close> points at.\<close>

datatype slot = Direct nat | In1 nat | In2 nat nat | In3 nat nat nat

record cntxt =
  csize :: nat
  which_inode_it_is :: "(inode_id \<times> slot) option"

record inode =
  filename :: string
  isize :: nat
  ispace :: nat
  timeLastModified :: nat
  isDirectories :: bool
  son_nums :: int
  cnt_id :: file_index
  d_hash :: "inode_id hashMap option"
  ctxs :: "chunk_id list"
  son :: "inode_id option"
  bro :: "inode_id option"

record index_state =
  inodes :: "inode_id \<Rightarrow> inode"
  next_addr :: nat
  free_inode_slab :: "inode_id list"
  bitmap :: "chunk_id \<Rightarrow> bool"
  free_cursor :: chunk_id
  context_addr :: "chunk_id \<Rightarrow> cntxt"
  root :: inode_id
  clock :: nat

definition upd_inode :: "'a index_state_scheme \<Rightarrow> inode_id \<Rightarrow> (inode \<Rightarrow> inode) \<Rightarrow> 'a index_state_scheme" where
  "upd_inode s i f = s\<lparr>inodes := (inodes s)(i := f (inodes s i))\<rparr>"

definition upd_context :: "'a index_state_scheme \<Rightarrow> chunk_id \<Rightarrow> (cntxt \<Rightarrow> cntxt) \<Rightarrow> 'a index_state_scheme" where
  "upd_context s c f = s\<lparr>context_addr := (context_addr s)(c := f (context_addr s c))\<rparr>"

fun get_slot :: "file_index \<Rightarrow> slot \<Rightarrow> chunk_id option" where
  "get_slot fi (Direct i) = addr fi i"
| "get_slot fi (In1 i) = (case in1addr fi of None \<Rightarrow> None | Some t \<Rightarrow> t i)"
| "get_slot fi (In2 j i) = (case in2addr fi of None \<Rightarrow> None | Some t \<Rightarrow> t j i)"
| "get_slot fi (In3 k j i) = (case in3addr fi of None \<Rightarrow> None | Some t \<Rightarrow> t k j i)"

fun set_slot :: "file_index \<Rightarrow> slot \<Rightarrow> chunk_id option \<Rightarrow> file_index" where
  "set_slot fi (Direct i) c = fi\<lparr>addr := (addr fi)(i := c)\<rparr>"
| "set_slot fi (In1 i) c = fi\<lparr>in1addr := map_option (\<lambda>t. t(i := c)) (in1addr fi)\<rparr>"
| "set_slot fi (In2 j i) c = fi\<lparr>in2addr := map_option (\<lambda>t. t(j := (t j)(i := c))) (in2addr fi)\<rparr>"
| "set_slot fi (In3 k j i) c =
     fi\<lparr>in3addr := map_option (\<lambda>t. t(k := (t k)(j := (t k j)(i := c)))) (in3addr fi)\<rparr>"

section \<open>Inodes\<close>

definition init_indirect_class1 :: indirect_class1 where
  "init_indirect_class1 = (\<lambda>_. None)"

definition init_indirect_class2 :: indirect_class2 where
  "init_indirect_class2 = (\<lambda>_. init_indirect_class1)"

definition init_indirect_class3 :: indirect_class3 where
  "init_indirect_class3 = (\<lambda>_. init_indirect_class2)"

definition malloc_inode :: "'a index_state_scheme \<Rightarrow> inode_id \<times> 'a index_state_scheme" where
  "malloc_inode s =
     (let now = next_addr s
      in (now, (upd_inode s now (\<lambda>d. d\<lparr>isDirectories := False, isize := 0, timeLastModified := clock s,
             cnt_id := \<lparr>addr = (\<lambda>_. None), in1addr = Some init_indirect_class1,
               in2addr = Some init_indirect_class2, in3addr = None\<rparr>,
             ctxs := [], filename := [], son_nums := 0, son := None, bro := None\<rparr>))
           \<lparr>next_addr := Suc now\<rparr>))"

fun slab_loop :: "nat \<Rightarrow> 'a index_state_scheme \<Rightarrow> 'a index_state_scheme" where
  "slab_loop 0 s = s"
| "slab_loop (Suc n) s =
     (let (now, s') = malloc_inode s in slab_loop n (s'\<lparr>free_inode_slab := free_inode_slab s' @ [now]\<rparr>))"

text \<open>The list head itself is an inode too, so it takes one address from \<open>malloc\<close>.\<close>

definition init_inode_slab :: "'a index_state_scheme \<Rightarrow> 'a index_state_scheme" where
  "init_inode_slab s = slab_loop SLAB_NUMS (s\<lparr>next_addr := Suc (next_addr s), free_inode_slab := []\<rparr>)"

definition init_context :: "'a index_state_scheme \<Rightarrow> 'a index_state_scheme" where
  "init_context s =
     s\<lparr>context_addr := (\<lambda>c. if c < CHUNK_NUM then \<lparr>csize = 0, which_inode_it_is = None\<rparr> else context_addr s c)\<rparr>"

definition release_chunk :: "'a index_state_scheme \<Rightarrow> chunk_id \<Rightarrow> 'a index_state_scheme" where
  "release_chunk s c = s\<lparr>bitmap := (bitmap s)(c := False)\<rparr>"

text \<open>The loop of \<open>reset_indoe\<close> over the contexts of the inode.\<close>

fun release_contexts :: "'a index_state_scheme \<Rightarrow> chunk_id list \<Rightarrow> 'a index_state_scheme res" where
  "release_contexts s [] = Inr s"
| "release_contexts s (c # cs) =
     (case which_inode_it_is (context_addr s c) of
        None \<Rightarrow> Inl Null_deref
      | Some (i, sl) \<Rightarrow>
          let s1 = upd_inode s i (\<lambda>d. d\<lparr>cnt_id := set_slot (cnt_id d) sl None\<rparr>);
              s2 = upd_context s1 c (\<lambda>x. x\<lparr>which_inode_it_is := None, csize := 0\<rparr>)
          in release_contexts (release_chunk s2 c) cs)"

definition reset_indoe :: "'a index_state_scheme \<Rightarrow> inode_id option \<Rightarrow> 'a index_state_scheme res" where
  "reset_indoe s ptr =
     (case ptr of
        None \<Rightarrow> Inr s
      | Some now \<Rightarrow>
          if isDirectories (inodes s now) \<and> d_hash (inodes s now) = None then Inl Wild_deref
          else
            let cnt = ctxs (inodes s now);
                s1 = upd_inode s now (\<lambda>d. d\<lparr>d_hash := (if isDirectories d then None else d_hash d),
                       isDirectories := False, son := None, bro := None, isize := 0, ispace := 0,
                       timeLastModified := clock s, ctxs := []\<rparr>)
            in rbind (release_contexts s1 cnt) (\<lambda>s2.
                 Inr ((upd_inode s2 now (\<lambda>d. d\<lparr>filename := []\<rparr>))
                        \<lparr>free_inode_slab := free_inode_slab s2 @ [now]\<rparr>)))"

definition get_free_inode :: "'a index_state_scheme \<Rightarrow> inode_id \<times> 'a index_state_scheme" where
  "get_free_inode s =
     (case free_inode_slab s of
        free_inode # rest \<Rightarrow> (free_inode, s\<lparr>free_inode_slab := rest\<rparr>)
      | [] \<Rightarrow> malloc_inode s)"

section \<open>Chunks\<close>

text \<open>
  The scan of \<open>getFreeChunk\<close>: from the position the last call stopped at, at most once around the
  bitmap. \<open>CHUNK_NUM\<close> is a power of two, so the mask wraps the index.
\<close>

function chunk_scan :: "(chunk_id \<Rightarrow> bool) \<Rightarrow> chunk_id \<Rightarrow> nat \<Rightarrow> chunk_id \<times> nat" where
  "chunk_scan b i count =
     (if count < CHUNK_NUM then
        if b i then chunk_scan b ((i + 1) AND (CHUNK_NUM - 1)) (count + 1) else (i, count)
      else (i, count))"
  by pat_completeness auto
termination
  by (relation "measure (\<lambda>(b, i, count). CHUNK_NUM - count)") auto

declare chunk_scan.simps [simp del]

definition getFreeChunk :: "'a index_state_scheme \<Rightarrow> chunk_id option \<times> 'a index_state_scheme" where
  "getFreeChunk s =
     (let (i, count) = chunk_scan (bitmap s) (free_cursor s) 0
      in if count = CHUNK_NUM then (None, s\<lparr>free_cursor := i\<rparr>)
         else (Some i, s\<lparr>free_cursor := i, bitmap := (bitmap s)(i := True)\<rparr>))"

definition get_free_context :: "'a index_state_scheme \<Rightarrow> chunk_id option \<times> 'a index_state_scheme" where
  "get_free_context s = getFreeChunk s"

definition insert_list :: "'a index_state_scheme \<Rightarrow> inode_id \<Rightarrow> chunk_id \<Rightarrow> 'a index_state_scheme" where
  "insert_list s head cnt = upd_inode s head (\<lambda>d. d\<lparr>ctxs := cnt # ctxs d\<rparr>)"

section \<open>From a file offset to a chunk\<close>

text \<open>
  The part all four branches of \<open>level3_local_index\<close> share once the slot is known: give up on a
  hole when only reading, otherwise allocate a context, store it and hang it on the inode. With no
  free chunk the code stores \<open>NULL\<close> and then writes through it.
\<close>

definition fill_slot :: "'a index_state_scheme \<Rightarrow> inode_id \<Rightarrow> slot \<Rightarrow> 'a index_state_scheme res" where
  "fill_slot s head sl =
     (case get_free_context s of
        (None, s1) \<Rightarrow> Inl Null_deref
      | (Some new_cnt, s1) \<Rightarrow>
          let s2 = upd_inode s1 head (\<lambda>d. d\<lparr>cnt_id := set_slot (cnt_id d) sl (Some new_cnt)\<rparr>);
              s3 = upd_context s2 new_cnt (\<lambda>x. x\<lparr>which_inode_it_is := Some (head, sl)\<rparr>)
          in Inr (insert_list s3 head new_cnt))"

definition visit_slot ::
  "'a index_state_scheme \<Rightarrow> inode_id \<Rightarrow> slot \<Rightarrow> bool \<Rightarrow> ('a index_state_scheme \<times> chunk_id option) res" where
  "visit_slot s head sl only_read =
     (if get_slot (cnt_id (inodes s head)) sl = None then
        if only_read then Inr (s, None)
        else rbind (fill_slot s head sl) (\<lambda>s'. Inr (s', get_slot (cnt_id (inodes s' head)) sl))
      else Inr (s, get_slot (cnt_id (inodes s head)) sl))"

definition level3_local_index ::
  "'a index_state_scheme \<Rightarrow> nat \<Rightarrow> inode_id \<Rightarrow> bool \<Rightarrow> ('a index_state_scheme \<times> chunk_id option \<times> nat) res" where
  "level3_local_index s offset head only_read =
     (if offset < SIZE_DIRECT_END then
        (let in_0_id = offset div SIZE_DIRECT_UNIT; offset = offset mod SIZE_DIRECT_UNIT
         in rbind (visit_slot s head (Direct in_0_id) only_read) (\<lambda>(s', c). Inr (s', c, offset)))
      else if offset < SIZE_FIRST_DIRECT_END then
        (if in1addr (cnt_id (inodes s head)) = None \<and> only_read then Inr (s, None, offset)
         else
           let s1 = (if in1addr (cnt_id (inodes s head)) = None
                     then upd_inode s head (\<lambda>d. d\<lparr>cnt_id := (cnt_id d)\<lparr>in1addr := Some init_indirect_class1\<rparr>\<rparr>) else s);
               offset = offset - SIZE_DIRECT_END;
               in_1_id = offset div SIZE_FIRST_DIRECT_UNIT; offset = offset mod SIZE_FIRST_DIRECT_UNIT
           in rbind (visit_slot s1 head (In1 in_1_id) only_read) (\<lambda>(s', c). Inr (s', c, offset)))
      else if offset < SIZE_SECOND_DIRECT_END then
        (if in2addr (cnt_id (inodes s head)) = None \<and> only_read then Inr (s, None, offset)
         else
           let s1 = (if in2addr (cnt_id (inodes s head)) = None
                     then upd_inode s head (\<lambda>d. d\<lparr>cnt_id := (cnt_id d)\<lparr>in2addr := Some init_indirect_class2\<rparr>\<rparr>) else s);
               offset = offset - SIZE_FIRST_DIRECT_END;
               in_2_id = offset div SIZE_SECOND_DIRECT_UNIT; offset = offset mod SIZE_SECOND_DIRECT_UNIT;
               in_1_id = offset div SIZE_FIRST_DIRECT_UNIT; offset = offset mod SIZE_FIRST_DIRECT_UNIT
           in rbind (visit_slot s1 head (In2 in_2_id in_1_id) only_read) (\<lambda>(s', c). Inr (s', c, offset)))
      else if offset < SIZE_THIRD_DIRECT_END then
        (if in3addr (cnt_id (inodes s head)) = None \<and> only_read then Inr (s, None, offset)
         else
           let s1 = (if in3addr (cnt_id (inodes s head)) = None
                     then upd_inode s head (\<lambda>d. d\<lparr>cnt_id := (cnt_id d)\<lparr>in3addr := Some init_indirect_class3\<rparr>\<rparr>) else s);
               offset = offset - SIZE_SECOND_DIRECT_END;
               in_3_id = offset div SIZE_THIRD_DIRECT_UNIT; offset = offset mod SIZE_THIRD_DIRECT_UNIT;
               in_2_id = offset div SIZE_SECOND_DIRECT_UNIT; offset = offset mod SIZE_SECOND_DIRECT_UNIT;
               in_1_id = offset div SIZE_FIRST_DIRECT_UNIT; offset = offset mod SIZE_FIRST_DIRECT_UNIT
           in rbind (visit_slot s1 head (In3 in_3_id in_2_id in_1_id) only_read) (\<lambda>(s', c). Inr (s', c, offset)))
      else Inr (s, None, offset))"

section \<open>The index as a function of the chunk number\<close>

text \<open>
  The reference: chunk \<open>n\<close> of a file has one slot, the first 100 direct, the next 256 behind
  \<open>in1addr\<close>, then 256 * 256 behind \<open>in2addr\<close> and 256 * 256 * 256 behind \<open>in3addr\<close>.
\<close>

definition MAX_CHUNKS :: nat where
  "MAX_CHUNKS = 100 + 256 + 256 * 256 + 256 * 256 * 256"

definition chunk_slot :: "nat \<Rightarrow> slot" where
  "chunk_slot n =
     (if n < 100 then Direct n
      else if n < 356 then In1 (n - 100)
      else if n < 65892 then In2 ((n - 356) div 256) ((n - 356) mod 256)
      else In3 ((n - 65892) div 65536) ((n - 65892) div 256 mod 256) ((n - 65892) mod 256))"

fun slot_chunk :: "slot \<Rightarrow> nat" where
  "slot_chunk (Direct i) = i"
| "slot_chunk (In1 i) = 100 + i"
| "slot_chunk (In2 j i) = 356 + (256 * j + i)"
| "slot_chunk (In3 k j i) = 65892 + (256 * (256 * k + j) + i)"

fun slot_in_range :: "slot \<Rightarrow> bool" where
  "slot_in_range (Direct i) \<longleftrightarrow> i < DIRECT_INDEX_NUMS"
| "slot_in_range (In1 i) \<longleftrightarrow> i < INDIRECT_INDEX_NUMS"
| "slot_in_range (In2 j i) \<longleftrightarrow> j < INDIRECT_INDEX_NUMS \<and> i < INDIRECT_INDEX_NUMS"
| "slot_in_range (In3 k j i) \<longleftrightarrow> k < INDIRECT_INDEX_NUMS \<and> j < INDIRECT_INDEX_NUMS \<and> i < INDIRECT_INDEX_NUMS"

text \<open>The tables a slot needs, created on first use when writing.\<close>

fun add_table :: "slot \<Rightarrow> file_index \<Rightarrow> file_index" where
  "add_table (Direct _) fi = fi"
| "add_table (In1 _) fi = fi\<lparr>in1addr := Some init_indirect_class1\<rparr>"
| "add_table (In2 _ _) fi = fi\<lparr>in2addr := Some init_indirect_class2\<rparr>"
| "add_table (In3 _ _ _) fi = fi\<lparr>in3addr := Some init_indirect_class3\<rparr>"

fun has_table :: "slot \<Rightarrow> file_index \<Rightarrow> bool" where
  "has_table (Direct _) fi \<longleftrightarrow> True"
| "has_table (In1 _) fi \<longleftrightarrow> in1addr fi \<noteq> None"
| "has_table (In2 _ _) fi \<longleftrightarrow> in2addr fi \<noteq> None"
| "has_table (In3 _ _ _) fi \<longleftrightarrow> in3addr fi \<noteq> None"

lemma slot_chunk_inverse: "n < MAX_CHUNKS \<Longrightarrow> slot_chunk (chunk_slot n) = n"
proof -
  have a: "256 * ((m::nat) div 256) + m mod 256 = m" for m by simp
  have b: "256 * ((m::nat) div 65536) + m div 256 mod 256 = m div 256" for m
    using a[of "m div 256"] by (simp add: div_mult2_eq[symmetric])
  show "slot_chunk (chunk_slot n) = n"
    unfolding chunk_slot_def using a[of "n - 356"] a[of "n - 65892"] b[of "n - 65892"] by auto
qed

lemma chunk_slot_in_range: "n < MAX_CHUNKS \<Longrightarrow> slot_in_range (chunk_slot n)"
  by (auto simp: chunk_slot_def MAX_CHUNKS_def const_simps less_mult_imp_div_less)

lemma chunk_slot_inj: "n < MAX_CHUNKS \<Longrightarrow> m < MAX_CHUNKS \<Longrightarrow> chunk_slot n = chunk_slot m \<Longrightarrow> n = m"
  using slot_chunk_inverse by metis

lemma offset_split:
  fixes x :: nat
  shows "x div 1048576 = x div 4096 div 256" "x mod 1048576 div 4096 = x div 4096 mod 256"
    "x mod 1048576 mod 4096 = x mod 4096"
    "x div 268435456 = x div 4096 div 65536" "x mod 268435456 div 1048576 = x div 4096 div 256 mod 256"
    "x mod 268435456 mod 1048576 div 4096 = x div 4096 mod 256"
    "x mod 268435456 mod 1048576 mod 4096 = x mod 4096"
proof -
  have d: "x mod (a * b) div a = x div a mod b" for a b :: nat
    by (cases "a = 0") (simp_all add: mod_mult2_eq)
  show e1: "x div 1048576 = x div 4096 div 256" by (simp add: div_mult2_eq[symmetric])
  show "x mod 1048576 div 4096 = x div 4096 mod 256" using d[of 4096 256] by simp
  show "x mod 1048576 mod 4096 = x mod 4096" by (simp add: mod_mod_cancel)
  show "x div 268435456 = x div 4096 div 65536" by (simp add: div_mult2_eq[symmetric])
  show "x mod 268435456 div 1048576 = x div 4096 div 256 mod 256" using d[of 1048576 256] e1 by simp
  have "x mod 268435456 mod 1048576 = x mod 1048576" by (simp add: mod_mod_cancel)
  then show "x mod 268435456 mod 1048576 div 4096 = x div 4096 mod 256" "x mod 268435456 mod 1048576 mod 4096 = x mod 4096"
    using d[of 4096 256] by (simp_all add: mod_mod_cancel)
qed

lemma offset_region:
  fixes off base :: nat
  assumes "4096 * base \<le> off"
  shows "(off - 4096 * base) div 4096 = off div 4096 - base" "(off - 4096 * base) mod 4096 = off mod 4096"
proof -
  have "off = 4096 * (off div 4096) + off mod 4096" by simp
  then obtain d r where off: "off = 4096 * d + r" "r < 4096" "off div 4096 = d" "off mod 4096 = r"
    by (metis mod_less_divisor zero_less_numeral)
  then have "base \<le> d" using assms by linarith
  then have "off - 4096 * base = 4096 * (d - base) + r" using off(1) by (simp add: diff_mult_distrib2)
  then show "(off - 4096 * base) div 4096 = off div 4096 - base" "(off - 4096 * base) mod 4096 = off mod 4096"
    using off by simp_all
qed

text \<open>All four branches of \<open>level3_local_index\<close> are one lookup of the slot of chunk
  \<open>offset div CHUNK_SIZE\<close>, at position \<open>offset mod CHUNK_SIZE\<close> in it.\<close>

lemma level3_eq:
  assumes "offset < SIZE_THIRD_DIRECT_END"
  shows "level3_local_index s offset head only_read =
    (let sl = chunk_slot (offset div CHUNK_SIZE); o' = offset mod CHUNK_SIZE
     in if \<not> has_table sl (cnt_id (inodes s head)) \<and> only_read then Inr (s, None, offset)
        else rbind (visit_slot (if has_table sl (cnt_id (inodes s head)) then s
                                else upd_inode s head (\<lambda>d. d\<lparr>cnt_id := add_table sl (cnt_id d)\<rparr>)) head sl only_read)
               (\<lambda>(s', c). Inr (s', c, o')))"
proof -
  have num: "4096 * 100 = (409600::nat)" "4096 * 356 = (1458176::nat)" "4096 * 65892 = (269893632::nat)" by simp_all
  note r = offset_region[of 100 offset, unfolded num] offset_region[of 356 offset, unfolded num]
    offset_region[of 65892 offset, unfolded num]
  have bounds: "offset < 409600 \<longleftrightarrow> offset div 4096 < 100" "offset < 1458176 \<longleftrightarrow> offset div 4096 < 356"
    "offset < 269893632 \<longleftrightarrow> offset div 4096 < 65892" by auto
  consider "offset < 409600" | "\<not> offset < 409600" "offset < 1458176"
    | "\<not> offset < 1458176" "offset < 269893632" | "\<not> offset < 269893632"
    by linarith
  then show ?thesis
  proof cases
    case 1
    then show ?thesis by (auto simp: level3_local_index_def chunk_slot_def const_simps bounds)
  next
    case 2
    then show ?thesis using r(1,2)
      by (auto simp: level3_local_index_def chunk_slot_def const_simps bounds Let_def)
  next
    case 3
    then show ?thesis using r(3,4)
      by (auto simp: level3_local_index_def chunk_slot_def const_simps bounds offset_split Let_def)
  next
    case 4
    let ?y = "offset - 269893632" and ?n = "offset div 4096 - 65892"
    have le: "269893632 \<le> offset" using 4 by simp
    have q: "?y div 268435456 = ?n div 65536" "?y mod 268435456 div 1048576 = ?n div 256 mod 256"
      "?y mod 268435456 mod 1048576 div 4096 = ?n mod 256"
      "?y mod 268435456 mod 1048576 mod 4096 = offset mod 4096"
      by (simp_all only: offset_split(4-7)[of ?y] r(5,6)[OF le])
    have sl: "chunk_slot (offset div 4096) = In3 (?n div 65536) (?n div 256 mod 256) (?n mod 256)"
      using 4 by (simp add: chunk_slot_def bounds)
    show ?thesis using 4 assms
      unfolding level3_local_index_def index_sizes sizes Let_def q sl
      by auto
  qed
qed

section \<open>The ownership invariant\<close>

text \<open>
  Every context in use belongs to exactly one place of one inode, and the back pointer, the slot,
  the inode's list and the bitmap agree about it. The size of an inode is the sum of its chunks'
  sizes.
\<close>

definition owns_ok :: "'a index_state_scheme \<Rightarrow> inode_id \<Rightarrow> bool" where
  "owns_ok s i \<longleftrightarrow>
     distinct (ctxs (inodes s i)) \<and>
     (\<forall>c \<in> set (ctxs (inodes s i)). c < CHUNK_NUM \<and> bitmap s c \<and>
        (\<exists>sl. which_inode_it_is (context_addr s c) = Some (i, sl) \<and> get_slot (cnt_id (inodes s i)) sl = Some c)) \<and>
     (\<forall>sl c. get_slot (cnt_id (inodes s i)) sl = Some c \<longrightarrow>
        c \<in> set (ctxs (inodes s i)) \<and> which_inode_it_is (context_addr s c) = Some (i, sl))"

definition sizes_ok :: "'a index_state_scheme \<Rightarrow> inode_id \<Rightarrow> bool" where
  "sizes_ok s i \<longleftrightarrow>
     isize (inodes s i) = sum_list (map (\<lambda>c. csize (context_addr s c)) (ctxs (inodes s i))) \<and>
     (\<forall>c \<in> set (ctxs (inodes s i)). csize (context_addr s c) \<le> CHUNK_SIZE)"

definition chunks_ok :: "'a index_state_scheme \<Rightarrow> bool" where
  "chunks_ok s \<longleftrightarrow> free_cursor s < CHUNK_NUM \<and>
     (\<forall>c < CHUNK_NUM. if bitmap s c then \<exists>i. c \<in> set (ctxs (inodes s i))
        else which_inode_it_is (context_addr s c) = None \<and> csize (context_addr s c) = 0)"

definition ix_inv :: "'a index_state_scheme \<Rightarrow> bool" where
  "ix_inv s \<longleftrightarrow> (\<forall>i. owns_ok s i \<and> sizes_ok s i) \<and> chunks_ok s"

lemma get_set_slot:
  "has_table sl fi \<Longrightarrow> get_slot (set_slot fi sl c) sl' = (if sl' = sl then c else get_slot fi sl')"
  by (cases sl; cases sl') auto

lemma has_table_of_slot: "get_slot fi sl = Some c \<Longrightarrow> has_table sl fi"
  by (cases sl) (auto split: option.splits)

lemma get_slot_add_table: "\<not> has_table sl fi \<Longrightarrow> get_slot (add_table sl fi) sl' = get_slot fi sl'"
  by (cases sl; cases sl')
     (auto simp: init_indirect_class1_def init_indirect_class2_def init_indirect_class3_def)

lemma has_table_add [simp]: "has_table sl (add_table sl fi)"
  by (cases sl) simp_all

lemma inodes_upd [simp]:
  "inodes (upd_inode s i f) = (inodes s)(i := f (inodes s i))"
  "bitmap (upd_inode s i f) = bitmap s" "context_addr (upd_inode s i f) = context_addr s"
  "free_cursor (upd_inode s i f) = free_cursor s" "free_inode_slab (upd_inode s i f) = free_inode_slab s"
  "next_addr (upd_inode s i f) = next_addr s" "root (upd_inode s i f) = root s" "clock (upd_inode s i f) = clock s"
  by (simp_all add: upd_inode_def)

lemma context_upd [simp]:
  "context_addr (upd_context s c f) = (context_addr s)(c := f (context_addr s c))"
  "bitmap (upd_context s c f) = bitmap s" "inodes (upd_context s c f) = inodes s"
  "free_cursor (upd_context s c f) = free_cursor s" "free_inode_slab (upd_context s c f) = free_inode_slab s"
  "next_addr (upd_context s c f) = next_addr s" "root (upd_context s c f) = root s" "clock (upd_context s c f) = clock s"
  by (simp_all add: upd_context_def)

lemma owner_unique: "owns_ok s i \<Longrightarrow> owns_ok s j \<Longrightarrow> c \<in> set (ctxs (inodes s i)) \<Longrightarrow> c \<in> set (ctxs (inodes s j)) \<Longrightarrow> i = j"
  unfolding owns_ok_def by fastforce

lemma slot_unique: "owns_ok s i \<Longrightarrow> get_slot (cnt_id (inodes s i)) sl = Some c \<Longrightarrow>
    get_slot (cnt_id (inodes s i)) sl' = Some c \<Longrightarrow> sl = sl'"
  unfolding owns_ok_def by (metis option.inject prod.inject)

section \<open>Allocating a chunk\<close>

lemma wrap_mask: "(i + 1) AND (CHUNK_NUM - 1) = (i + 1) mod CHUNK_NUM" for i :: nat
proof -
  have "CHUNK_NUM - 1 = mask 21" by (simp add: const_simps mask_eq_exp_minus_1)
  then have "(i + 1) AND (CHUNK_NUM - 1) = take_bit 21 (i + 1)" by (simp only: take_bit_eq_mask)
  then show ?thesis by (simp only: take_bit_eq_mod) (simp add: const_simps)
qed

text \<open>The scan stops at a free chunk, or has seen every chunk from its start on taken.\<close>

lemma chunk_scan_spec:
  assumes "i < CHUNK_NUM" "count \<le> CHUNK_NUM" "chunk_scan b i count = (j, n)"
  shows "j < CHUNK_NUM \<and> n \<le> CHUNK_NUM \<and> (n < CHUNK_NUM \<longrightarrow> \<not> b j) \<and>
    (n = CHUNK_NUM \<longrightarrow> (\<forall>t < CHUNK_NUM - count. b ((i + t) mod CHUNK_NUM)))"
  using assms
proof (induction b i count rule: chunk_scan.induct)
  case (1 b i count)
  show ?case
  proof (cases "count < CHUNK_NUM \<and> b i")
    case False
    then show ?thesis using 1 by (auto simp: chunk_scan.simps[of b i count] split: if_splits)
  next
    case True
    let ?i = "(i + 1) AND (CHUNK_NUM - 1)"
    have i': "?i < CHUNK_NUM" unfolding wrap_mask by (simp add: sizes(4))
    have rec: "chunk_scan b ?i (count + 1) = (j, n)"
      using 1(4) True by (simp add: chunk_scan.simps[of b i count])
    have IH: "j < CHUNK_NUM \<and> n \<le> CHUNK_NUM \<and> (n < CHUNK_NUM \<longrightarrow> \<not> b j) \<and>
        (n = CHUNK_NUM \<longrightarrow> (\<forall>t < CHUNK_NUM - (count + 1). b ((?i + t) mod CHUNK_NUM)))"
      using 1(1)[OF _ _ i' _ rec] True by simp
    have "b ((i + t) mod CHUNK_NUM)" if "n = CHUNK_NUM" "t < CHUNK_NUM - count" for t
    proof (cases t)
      case 0
      then show ?thesis using True 1(2) by simp
    next
      case (Suc t')
      then have "b ((?i + t') mod CHUNK_NUM)" using IH that by simp
      then have "b (((i + 1) mod CHUNK_NUM + t') mod CHUNK_NUM)" unfolding wrap_mask .
      then show ?thesis by (simp add: mod_simps Suc)
    qed
    then show ?thesis using IH by blast
  qed
qed

lemma getFreeChunk_None:
  assumes "free_cursor s < CHUNK_NUM" "getFreeChunk s = (None, s')" "c < CHUNK_NUM"
  shows "bitmap s c"
proof -
  obtain j n where sc: "chunk_scan (bitmap s) (free_cursor s) 0 = (j, n)" by fastforce
  then have "n = CHUNK_NUM" using assms(2) by (simp add: getFreeChunk_def split: if_splits)
  then have all: "\<forall>t < CHUNK_NUM. bitmap s ((free_cursor s + t) mod CHUNK_NUM)"
    using chunk_scan_spec[OF assms(1) _ sc] by simp
  let ?t = "(c + CHUNK_NUM - free_cursor s) mod CHUNK_NUM"
  have pos: "0 < CHUNK_NUM" by (simp add: const_simps)
  have "(free_cursor s + ?t) mod CHUNK_NUM = (free_cursor s + (c + CHUNK_NUM - free_cursor s)) mod CHUNK_NUM"
    by (simp add: mod_simps)
  also have "\<dots> = c" using assms(1,3) by simp
  finally show ?thesis using all pos by (metis mod_less_divisor)
qed

lemma getFreeChunk_Some:
  assumes "free_cursor s < CHUNK_NUM" "getFreeChunk s = (Some c, s')"
  shows "c < CHUNK_NUM" "\<not> bitmap s c" "s' = s\<lparr>free_cursor := c, bitmap := (bitmap s)(c := True)\<rparr>"
proof -
  obtain j n where sc: "chunk_scan (bitmap s) (free_cursor s) 0 = (j, n)" by fastforce
  then have "n \<noteq> CHUNK_NUM" "c = j" and s': "s' = s\<lparr>free_cursor := j, bitmap := (bitmap s)(j := True)\<rparr>"
    using assms(2) by (auto simp: getFreeChunk_def split: if_splits)
  then show "c < CHUNK_NUM" "\<not> bitmap s c" "s' = s\<lparr>free_cursor := c, bitmap := (bitmap s)(c := True)\<rparr>"
    using chunk_scan_spec[OF assms(1) _ sc] by auto
qed

lemma getFreeChunk_cursor:
  assumes "free_cursor s < CHUNK_NUM" "getFreeChunk s = (None, s')"
  shows "free_cursor s' < CHUNK_NUM" "bitmap s' = bitmap s" "inodes s' = inodes s"
    "context_addr s' = context_addr s"
proof -
  obtain j n where sc: "chunk_scan (bitmap s) (free_cursor s) 0 = (j, n)" by fastforce
  then have "s' = s\<lparr>free_cursor := j\<rparr>" using assms(2) by (simp add: getFreeChunk_def split: if_splits)
  then show "free_cursor s' < CHUNK_NUM" "bitmap s' = bitmap s" "inodes s' = inodes s"
    "context_addr s' = context_addr s"
    using chunk_scan_spec[OF assms(1) _ sc] by simp_all
qed

definition used_chunks :: "'a index_state_scheme \<Rightarrow> chunk_id set" where
  "used_chunks s = {c. c < CHUNK_NUM \<and> bitmap s c}"

interpretation chunks: allocator "{c. c < CHUNK_NUM}" used_chunks getFreeChunk release_chunk
  "\<lambda>s. free_cursor s < CHUNK_NUM"
proof unfold_locales
  fix s s' :: "'a index_state_scheme" and c
  show "used_chunks s \<subseteq> {c. c < CHUNK_NUM}" by (auto simp: used_chunks_def)
  show "used_chunks (release_chunk s c) = used_chunks s - {c}"
    by (auto simp: used_chunks_def release_chunk_def)
  assume inv: "free_cursor s < CHUNK_NUM"
  show "free_cursor (release_chunk s c) < CHUNK_NUM" using inv by (simp add: release_chunk_def)
  show "c \<in> {c. c < CHUNK_NUM} \<and> c \<notin> used_chunks s \<and> used_chunks s' = insert c (used_chunks s) \<and>
      free_cursor s' < CHUNK_NUM" if "getFreeChunk s = (Some c, s')"
    using getFreeChunk_Some[OF inv that] by (auto simp: used_chunks_def)
  show "used_chunks s = {c. c < CHUNK_NUM} \<and> used_chunks s' = used_chunks s \<and> free_cursor s' < CHUNK_NUM"
    if "getFreeChunk s = (None, s')"
    using getFreeChunk_None[OF inv that] getFreeChunk_cursor[OF inv that] by (auto simp: used_chunks_def)
qed simp

section \<open>Filling a slot\<close>

lemma release_chunk_upd [simp]:
  "inodes (release_chunk s c) = inodes s" "context_addr (release_chunk s c) = context_addr s"
  "bitmap (release_chunk s c) = (bitmap s)(c := False)" "free_cursor (release_chunk s c) = free_cursor s"
  "free_inode_slab (release_chunk s c) = free_inode_slab s" "next_addr (release_chunk s c) = next_addr s"
  "root (release_chunk s c) = root s" "clock (release_chunk s c) = clock s"
  by (simp_all add: release_chunk_def)

definition file_chunk :: "'a index_state_scheme \<Rightarrow> inode_id \<Rightarrow> nat \<Rightarrow> chunk_id option" where
  "file_chunk s i n = get_slot (cnt_id (inodes s i)) (chunk_slot n)"

lemma fill_slot_Inr:
  assumes "free_cursor s < CHUNK_NUM" "fill_slot s head sl = Inr s'"
  shows "\<exists>c < CHUNK_NUM. \<not> bitmap s c \<and>
    s' = insert_list (upd_context (upd_inode (s\<lparr>free_cursor := c, bitmap := (bitmap s)(c := True)\<rparr>) head
           (\<lambda>d. d\<lparr>cnt_id := set_slot (cnt_id d) sl (Some c)\<rparr>)) c (\<lambda>x. x\<lparr>which_inode_it_is := Some (head, sl)\<rparr>)) head c"
proof -
  obtain co s1 where g: "getFreeChunk s = (co, s1)" by fastforce
  show ?thesis
  proof (cases co)
    case None
    then show ?thesis using g assms(2) by (simp add: fill_slot_def get_free_context_def)
  next
    case (Some c)
    then show ?thesis using getFreeChunk_Some[OF assms(1), of c s1] g assms(2)
      by (auto simp: fill_slot_def get_free_context_def)
  qed
qed

lemma fill_slot_Inl:
  assumes "free_cursor s < CHUNK_NUM" "fill_slot s head sl = Inl e"
  shows "e = Null_deref \<and> used_chunks s = {c. c < CHUNK_NUM}"
proof -
  obtain co s1 where g: "getFreeChunk s = (co, s1)" by fastforce
  then show ?thesis using chunks.alloc_None[OF assms(1), of s1] assms(2)
    by (cases co) (simp_all add: fill_slot_def get_free_context_def)
qed

lemma fill_slot_total:
  assumes "free_cursor s < CHUNK_NUM" "c < CHUNK_NUM" "\<not> bitmap s c"
  shows "\<exists>s'. fill_slot s head sl = Inr s'"
  using fill_slot_Inl[OF assms(1), of head sl] assms(2,3)
  by (cases "fill_slot s head sl") (auto simp: used_chunks_def)

lemma ix_invD:
  assumes "ix_inv s"
  shows "owns_ok s i" "sizes_ok s i" "chunks_ok s" "free_cursor s < CHUNK_NUM"
  using assms by (simp_all add: ix_inv_def chunks_ok_def)

lemma free_chunk:
  assumes "ix_inv s" "\<not> bitmap s c" "c < CHUNK_NUM"
  shows "c \<notin> set (ctxs (inodes s i))" "get_slot (cnt_id (inodes s i)) sl \<noteq> Some c"
    "which_inode_it_is (context_addr s c) = None" "csize (context_addr s c) = 0"
  using ix_invD(1)[OF assms(1), of i] ix_invD(3)[OF assms(1)] assms(2,3) by (auto simp: owns_ok_def chunks_ok_def)

lemma fill_slot_owns:
  assumes inv: "ix_inv s" and t: "has_table sl (cnt_id (inodes s head))"
    and n: "get_slot (cnt_id (inodes s head)) sl = None" and c: "c < CHUNK_NUM" "\<not> bitmap s c"
    and s': "inodes s' = (inodes s)(head := (inodes s head)\<lparr>cnt_id := set_slot (cnt_id (inodes s head)) sl (Some c),
        ctxs := c # ctxs (inodes s head)\<rparr>)" "bitmap s' = (bitmap s)(c := True)"
      "context_addr s' = (context_addr s)(c := (context_addr s c)\<lparr>which_inode_it_is := Some (head, sl)\<rparr>)"
  shows "owns_ok s' i \<and> sizes_ok s' i"
proof -
  have own: "owns_ok s i" "sizes_ok s i" by (rule ix_invD[OF inv])+
  have fresh: "c \<notin> set (ctxs (inodes s i))" "\<And>sl. get_slot (cnt_id (inodes s i)) sl \<noteq> Some c"
    "csize (context_addr s c) = 0"
    using free_chunk[OF inv c(2,1)] by blast+
  have sz: "csize (context_addr s' a) = csize (context_addr s a)" for a
    by (simp add: s'(3))
  show ?thesis
  proof (cases "i = head")
    case False
    have "owns_ok s' i" using own(1) fresh False by (auto simp: owns_ok_def s')
    moreover have "sizes_ok s' i" using own(2) False by (simp add: sizes_ok_def s'(1) sz)
    ultimately show ?thesis ..
  next
    case True
    have "\<exists>sla. sla \<noteq> sl \<and> which_inode_it_is (context_addr s ca) = Some (head, sla) \<and>
        get_slot (cnt_id (inodes s head)) sla = Some ca" if "ca \<in> set (ctxs (inodes s head))" for ca
      using own(1) n True that unfolding owns_ok_def by (metis option.distinct(1))
    then have "owns_ok s' i" using own(1) fresh True c(1)
      unfolding owns_ok_def s' by (auto simp: get_set_slot[OF t] split: if_splits) blast
    moreover have "sizes_ok s' i" using own(2) True fresh(3) by (simp add: sizes_ok_def s'(1) sz)
    ultimately show ?thesis ..
  qed
qed

lemma ix_inv_frame:
  assumes "ix_inv s" "bitmap s' = bitmap s" "context_addr s' = context_addr s" "free_cursor s' = free_cursor s"
    and "\<And>i. get_slot (cnt_id (inodes s' i)) = get_slot (cnt_id (inodes s i))"
    and "\<And>i. ctxs (inodes s' i) = ctxs (inodes s i)" "\<And>i. isize (inodes s' i) = isize (inodes s i)"
  shows "ix_inv s'"
  using assms by (simp add: ix_inv_def owns_ok_def sizes_ok_def chunks_ok_def)

text \<open>What filling a slot leaves alone: everything but the inode's index and its chunk list.\<close>

definition index_frame :: "'a index_state_scheme \<Rightarrow> 'a index_state_scheme \<Rightarrow> inode_id \<Rightarrow> bool" where
  "index_frame s s' head \<longleftrightarrow>
     (\<forall>i. inodes s' i = (if i = head then (inodes s i)\<lparr>cnt_id := cnt_id (inodes s' i), ctxs := ctxs (inodes s' i)\<rparr>
                        else inodes s i)) \<and>
     (\<forall>c. csize (context_addr s' c) = csize (context_addr s c)) \<and>
     next_addr s' = next_addr s \<and> free_inode_slab s' = free_inode_slab s \<and> root s' = root s \<and>
     clock s' = clock s \<and> index_state.more s' = index_state.more s"

lemma fill_slot_spec:
  assumes inv: "ix_inv s" and t: "has_table sl (cnt_id (inodes s head))"
    and n: "get_slot (cnt_id (inodes s head)) sl = None" and f: "fill_slot s head sl = Inr s'"
  shows "\<exists>c < CHUNK_NUM. \<not> bitmap s c \<and> ix_inv s' \<and> bitmap s' = (bitmap s)(c := True) \<and> index_frame s s' head \<and>
    ctxs (inodes s' head) = c # ctxs (inodes s head) \<and>
    (\<forall>sl'. get_slot (cnt_id (inodes s' head)) sl' = (if sl' = sl then Some c else get_slot (cnt_id (inodes s head)) sl'))"
proof -
  from fill_slot_Inr[OF ix_invD(4)[OF inv] f] obtain c where c: "c < CHUNK_NUM" "\<not> bitmap s c" and s':
    "s' = insert_list (upd_context (upd_inode (s\<lparr>free_cursor := c, bitmap := (bitmap s)(c := True)\<rparr>) head
           (\<lambda>d. d\<lparr>cnt_id := set_slot (cnt_id d) sl (Some c)\<rparr>)) c (\<lambda>x. x\<lparr>which_inode_it_is := Some (head, sl)\<rparr>)) head c"
    by blast
  have eqs: "inodes s' = (inodes s)(head := (inodes s head)\<lparr>cnt_id := set_slot (cnt_id (inodes s head)) sl (Some c),
        ctxs := c # ctxs (inodes s head)\<rparr>)" "bitmap s' = (bitmap s)(c := True)"
      "context_addr s' = (context_addr s)(c := (context_addr s c)\<lparr>which_inode_it_is := Some (head, sl)\<rparr>)"
    and cur: "free_cursor s' = c"
    by (simp_all add: s' insert_list_def)
  have own: "owns_ok s' i \<and> sizes_ok s' i" for i by (rule fill_slot_owns[OF inv t n c eqs])
  have "chunks_ok s'"
    using ix_invD(3)[OF inv] c(1) unfolding chunks_ok_def cur eqs(2,3)
    by (auto simp: eqs(1) fun_upd_apply) metis
  then have inv': "ix_inv s'" using own by (simp add: ix_inv_def)
  have "index_frame s s' head"
    by (simp add: index_frame_def s' insert_list_def upd_inode_def upd_context_def)
  then show ?thesis using c inv' by (auto simp: eqs get_set_slot[OF t])
qed

section \<open>Translation\<close>

lemma add_table_inv: "ix_inv s \<Longrightarrow> \<not> has_table sl (cnt_id (inodes s head)) \<Longrightarrow>
    ix_inv (upd_inode s head (\<lambda>d. d\<lparr>cnt_id := add_table sl (cnt_id d)\<rparr>))"
  by (erule ix_inv_frame) (auto simp: get_slot_add_table fun_eq_iff)

text \<open>Reading translates without changing anything.\<close>

lemma level3_read:
  assumes "offset < SIZE_THIRD_DIRECT_END"
  shows "\<exists>o'. level3_local_index s offset head True = Inr (s, file_chunk s head (offset div CHUNK_SIZE), o') \<and>
    (file_chunk s head (offset div CHUNK_SIZE) \<noteq> None \<longrightarrow> o' = offset mod CHUNK_SIZE)"
proof -
  let ?sl = "chunk_slot (offset div CHUNK_SIZE)"
  have "\<not> has_table ?sl (cnt_id (inodes s head)) \<Longrightarrow> get_slot (cnt_id (inodes s head)) ?sl = None"
    using has_table_of_slot[of "cnt_id (inodes s head)" ?sl] by (cases "get_slot (cnt_id (inodes s head)) ?sl") auto
  then show ?thesis
    unfolding level3_eq[OF assms] Let_def file_chunk_def visit_slot_def by auto
qed

lemma level3_out_of_range:
  "SIZE_THIRD_DIRECT_END \<le> offset \<Longrightarrow> level3_local_index s offset head only_read = Inr (s, None, offset)"
  by (simp add: level3_local_index_def const_simps)

lemma offset_chunk: "offset < SIZE_THIRD_DIRECT_END \<Longrightarrow> offset div CHUNK_SIZE < MAX_CHUNKS"
  by (simp add: const_simps MAX_CHUNKS_def less_mult_imp_div_less)

text \<open>Writing finds the chunk or adds one; either way the other chunks of every file stay put.\<close>

lemma level3_write:
  assumes inv: "ix_inv s" and off: "offset < SIZE_THIRD_DIRECT_END"
    and r: "level3_local_index s offset head False = Inr (s', co, o')"
  shows "\<exists>c < CHUNK_NUM. co = Some c \<and> o' = offset mod CHUNK_SIZE \<and> ix_inv s' \<and> index_frame s s' head \<and>
    bitmap s' = (bitmap s)(c := True) \<and>
    (case file_chunk s head (offset div CHUNK_SIZE) of
       None \<Rightarrow> \<not> bitmap s c \<and> ctxs (inodes s' head) = c # ctxs (inodes s head)
     | Some c' \<Rightarrow> c' = c \<and> ctxs (inodes s' head) = ctxs (inodes s head)) \<and>
    (\<forall>n < MAX_CHUNKS. file_chunk s' head n = (if n = offset div CHUNK_SIZE then Some c else file_chunk s head n))"
proof -
  let ?sl = "chunk_slot (offset div CHUNK_SIZE)"
  let ?s1 = "if has_table ?sl (cnt_id (inodes s head)) then s
             else upd_inode s head (\<lambda>d. d\<lparr>cnt_id := add_table ?sl (cnt_id d)\<rparr>)"
  have inv1: "ix_inv ?s1" using inv add_table_inv by auto
  have t1: "has_table ?sl (cnt_id (inodes ?s1 head))" by simp
  have g1: "get_slot (cnt_id (inodes ?s1 head)) sl' = get_slot (cnt_id (inodes s head)) sl'" for sl'
    by (simp add: get_slot_add_table)
  have fr1: "index_frame s ?s1 head" by (auto simp: index_frame_def upd_inode_def)
  have rest: "bitmap ?s1 = bitmap s" "ctxs (inodes ?s1 head) = ctxs (inodes s head)" by simp_all
  have v: "visit_slot ?s1 head ?sl False = Inr (s', co)" and o': "o' = offset mod CHUNK_SIZE"
    using r unfolding level3_eq[OF off] Let_def by (auto simp: rbind_eq_Inr simp del: has_table_add)
  show ?thesis
  proof (cases "file_chunk s head (offset div CHUNK_SIZE)")
    case (Some c)
    then have g: "get_slot (cnt_id (inodes ?s1 head)) ?sl = Some c" unfolding g1 file_chunk_def .
    then have "s' = ?s1" "co = Some c" using v unfolding visit_slot_def by simp_all
    moreover have "c < CHUNK_NUM" "bitmap s c"
      using ix_invD(1)[OF inv, of head] Some unfolding owns_ok_def file_chunk_def by blast+
    moreover have "(bitmap s)(c := True) = bitmap s" using calculation(4) by (simp add: fun_upd_idem)
    moreover have "file_chunk ?s1 head n = file_chunk s head n" for n unfolding file_chunk_def g1 ..
    ultimately show ?thesis using Some o' inv1 fr1 rest by auto
  next
    case None
    then have g: "get_slot (cnt_id (inodes ?s1 head)) ?sl = None" unfolding g1 file_chunk_def .
    then obtain f: "fill_slot ?s1 head ?sl = Inr s'" and co: "co = get_slot (cnt_id (inodes s' head)) ?sl"
      using v unfolding visit_slot_def by (auto simp: rbind_eq_Inr simp del: inodes_upd)
    from fill_slot_spec[OF inv1 t1 g f] obtain c where c: "c < CHUNK_NUM" "\<not> bitmap ?s1 c" "ix_inv s'"
      "bitmap s' = (bitmap ?s1)(c := True)" "index_frame ?s1 s' head"
      "ctxs (inodes s' head) = c # ctxs (inodes ?s1 head)"
      "\<And>sl'. get_slot (cnt_id (inodes s' head)) sl' = (if sl' = ?sl then Some c else get_slot (cnt_id (inodes ?s1 head)) sl')"
      by blast
    have "index_frame s s' head" using fr1 c(5) by (auto simp: index_frame_def upd_inode_def split: if_splits)
    moreover have "file_chunk s' head n = (if n = offset div CHUNK_SIZE then Some c else file_chunk s head n)"
      if "n < MAX_CHUNKS" for n
      using chunk_slot_inj[OF that offset_chunk[OF off]] unfolding file_chunk_def c(7) g1 by auto
    ultimately show ?thesis using None c(1-4,6) co o' unfolding rest c(7) by auto
  qed
qed

text \<open>Writing fails only on a full disk.\<close>

lemma level3_write_fault:
  assumes "ix_inv s" "offset < SIZE_THIRD_DIRECT_END" "level3_local_index s offset head False = Inl e"
  shows "e = Null_deref \<and> used_chunks s = {c. c < CHUNK_NUM}"
proof -
  let ?sl = "chunk_slot (offset div CHUNK_SIZE)"
  let ?s1 = "if has_table ?sl (cnt_id (inodes s head)) then s
             else upd_inode s head (\<lambda>d. d\<lparr>cnt_id := add_table ?sl (cnt_id d)\<rparr>)"
  have "fill_slot ?s1 head ?sl = Inl e" using assms(3) unfolding level3_eq[OF assms(2)] Let_def visit_slot_def
    by (auto simp: rbind_eq_Inl split: if_splits prod.splits)
  moreover have "free_cursor ?s1 < CHUNK_NUM" using ix_invD(4)[OF assms(1)] by simp
  ultimately have "e = Null_deref \<and> used_chunks ?s1 = {c. c < CHUNK_NUM}" by (intro fill_slot_Inl)
  moreover have "used_chunks ?s1 = used_chunks s" by (simp add: used_chunks_def)
  ultimately show ?thesis by simp
qed

lemma level3_write_total:
  assumes "ix_inv s" "offset < SIZE_THIRD_DIRECT_END" "card (used_chunks s) < CHUNK_NUM"
  shows "\<exists>r. level3_local_index s offset head False = Inr r"
proof (cases "level3_local_index s offset head False")
  case (Inl e)
  then have "used_chunks s = {c. c < CHUNK_NUM}" using level3_write_fault[OF assms(1,2)] by blast
  then show ?thesis using assms(3) by simp
qed blast

section \<open>Releasing the chunks of an inode\<close>

lemma release_contexts_spec:
  assumes "distinct cs"
    and "\<And>c. c \<in> set cs \<Longrightarrow> \<exists>sl. which_inode_it_is (context_addr s c) = Some (now, sl) \<and>
           get_slot (cnt_id (inodes s now)) sl = Some c"
    and "\<And>sl c. get_slot (cnt_id (inodes s now)) sl = Some c \<Longrightarrow> c \<in> set cs \<Longrightarrow>
           which_inode_it_is (context_addr s c) = Some (now, sl)"
  shows "\<exists>s' fi. release_contexts s cs = Inr s' \<and> inodes s' = (inodes s)(now := (inodes s now)\<lparr>cnt_id := fi\<rparr>) \<and>
    (\<forall>sl. get_slot fi sl = (case get_slot (cnt_id (inodes s now)) sl of None \<Rightarrow> None
                           | Some c \<Rightarrow> if c \<in> set cs then None else Some c)) \<and>
    (\<forall>c. bitmap s' c \<longleftrightarrow> bitmap s c \<and> c \<notin> set cs) \<and>
    (\<forall>c. context_addr s' c = (if c \<in> set cs then \<lparr>csize = 0, which_inode_it_is = None\<rparr> else context_addr s c)) \<and>
    free_cursor s' = free_cursor s \<and> free_inode_slab s' = free_inode_slab s \<and> next_addr s' = next_addr s \<and>
    root s' = root s \<and> clock s' = clock s \<and> index_state.more s' = index_state.more s"
  using assms
proof (induction cs arbitrary: s)
  case Nil
  show ?case by (rule exI[of _ s], rule exI[of _ "cnt_id (inodes s now)"]) (auto split: option.split)
next
  case (Cons c cs)
  obtain sl where w: "which_inode_it_is (context_addr s c) = Some (now, sl)"
    and g: "get_slot (cnt_id (inodes s now)) sl = Some c" using Cons.prems(2)[of c] by auto
  have t: "has_table sl (cnt_id (inodes s now))" by (rule has_table_of_slot[OF g])
  let ?s1 = "release_chunk (upd_context (upd_inode s now (\<lambda>d. d\<lparr>cnt_id := set_slot (cnt_id d) sl None\<rparr>)) c
               (\<lambda>x. x\<lparr>which_inode_it_is := None, csize := 0\<rparr>)) c"
  have only: "get_slot (cnt_id (inodes s now)) sl' = Some c \<longleftrightarrow> sl' = sl" for sl'
    using Cons.prems(3)[of sl' c] w g by auto
  have g1: "get_slot (cnt_id (inodes ?s1 now)) sl' = (if sl' = sl then None else get_slot (cnt_id (inodes s now)) sl')" for sl'
    by (simp add: get_set_slot[OF t])
  have nc: "c \<notin> set cs" using Cons.prems(1) by simp
  have "\<exists>s' fi. release_contexts ?s1 cs = Inr s' \<and> inodes s' = (inodes ?s1)(now := (inodes ?s1 now)\<lparr>cnt_id := fi\<rparr>) \<and>
    (\<forall>sl. get_slot fi sl = (case get_slot (cnt_id (inodes ?s1 now)) sl of None \<Rightarrow> None
                           | Some c \<Rightarrow> if c \<in> set cs then None else Some c)) \<and>
    (\<forall>c. bitmap s' c \<longleftrightarrow> bitmap ?s1 c \<and> c \<notin> set cs) \<and>
    (\<forall>c. context_addr s' c = (if c \<in> set cs then \<lparr>csize = 0, which_inode_it_is = None\<rparr> else context_addr ?s1 c)) \<and>
    free_cursor s' = free_cursor ?s1 \<and> free_inode_slab s' = free_inode_slab ?s1 \<and> next_addr s' = next_addr ?s1 \<and>
    root s' = root ?s1 \<and> clock s' = clock ?s1 \<and> index_state.more s' = index_state.more ?s1"
  proof (rule Cons.IH)
    show "distinct cs" using Cons.prems(1) by simp
    show "\<exists>sl. which_inode_it_is (context_addr ?s1 c') = Some (now, sl) \<and>
        get_slot (cnt_id (inodes ?s1 now)) sl = Some c'" if c': "c' \<in> set cs" for c'
    proof -
      obtain sl' where sl': "which_inode_it_is (context_addr s c') = Some (now, sl')"
        "get_slot (cnt_id (inodes s now)) sl' = Some c'" using Cons.prems(2)[of c'] c' by auto
      then have "sl' \<noteq> sl" "c' \<noteq> c" using g nc c' by auto
      then show ?thesis using sl' g1 by (intro exI[of _ sl']) simp
    qed
    show "which_inode_it_is (context_addr ?s1 c') = Some (now, sl')"
      if "get_slot (cnt_id (inodes ?s1 now)) sl' = Some c'" "c' \<in> set cs" for sl' c'
      using that nc Cons.prems(3)[of sl' c'] unfolding g1 by (auto split: if_splits)
  qed
  then obtain s' fi where r: "release_contexts ?s1 cs = Inr s'"
    "inodes s' = (inodes ?s1)(now := (inodes ?s1 now)\<lparr>cnt_id := fi\<rparr>)"
    "\<And>sl. get_slot fi sl = (case get_slot (cnt_id (inodes ?s1 now)) sl of None \<Rightarrow> None
                           | Some c \<Rightarrow> if c \<in> set cs then None else Some c)"
    "\<And>c. bitmap s' c \<longleftrightarrow> bitmap ?s1 c \<and> c \<notin> set cs"
    "\<And>c. context_addr s' c = (if c \<in> set cs then \<lparr>csize = 0, which_inode_it_is = None\<rparr> else context_addr ?s1 c)"
    "free_cursor s' = free_cursor ?s1" "free_inode_slab s' = free_inode_slab ?s1" "next_addr s' = next_addr ?s1"
    "root s' = root ?s1" "clock s' = clock ?s1" "index_state.more s' = index_state.more ?s1" by blast
  show ?case
  proof (intro exI conjI allI)
    show "release_contexts s (c # cs) = Inr s'" using r(1) by (simp add: w Let_def)
    show "inodes s' = (inodes s)(now := (inodes s now)\<lparr>cnt_id := fi\<rparr>)" using r(2) by simp
    show "get_slot fi sl' = (case get_slot (cnt_id (inodes s now)) sl' of None \<Rightarrow> None
         | Some c' \<Rightarrow> if c' \<in> set (c # cs) then None else Some c')" for sl'
      unfolding r(3) g1 using only[of sl'] by (auto split: option.splits)
    show "bitmap s' c' \<longleftrightarrow> bitmap s c' \<and> c' \<notin> set (c # cs)" for c' using r(4)[of c'] by auto
    show "context_addr s' c' = (if c' \<in> set (c # cs) then \<lparr>csize = 0, which_inode_it_is = None\<rparr> else context_addr s c')"
      for c' using r(5)[of c'] by auto
  qed (use r(6-11) in \<open>simp_all add: release_chunk_def upd_inode_def upd_context_def\<close>)
qed

text \<open>
  Resetting an inode always succeeds under the invariant, frees exactly its chunks, empties its
  index and puts the inode back at the end of the slab; the son list of the inode and its
  \<open>son_nums\<close> counter are not looked at.
\<close>

lemma reset_indoe_spec:
  assumes inv: "ix_inv s" and h: "isDirectories (inodes s now) \<Longrightarrow> d_hash (inodes s now) \<noteq> None"
  shows "\<exists>s' fi. reset_indoe s (Some now) = Inr s' \<and> ix_inv s' \<and>
    inodes s' = (inodes s)(now := (inodes s now)\<lparr>filename := [], isize := 0, ispace := 0, timeLastModified := clock s,
      isDirectories := False, cnt_id := fi, d_hash := (if isDirectories (inodes s now) then None else d_hash (inodes s now)),
      ctxs := [], son := None, bro := None\<rparr>) \<and>
    (\<forall>sl. get_slot fi sl = None) \<and> (\<forall>c. bitmap s' c \<longleftrightarrow> bitmap s c \<and> c \<notin> set (ctxs (inodes s now))) \<and>
    free_inode_slab s' = free_inode_slab s @ [now] \<and> next_addr s' = next_addr s \<and>
    (\<forall>c. c \<notin> set (ctxs (inodes s now)) \<longrightarrow> context_addr s' c = context_addr s c) \<and>
    root s' = root s \<and> clock s' = clock s \<and> index_state.more s' = index_state.more s"
proof -
  let ?d = "inodes s now"
  let ?s1 = "upd_inode s now (\<lambda>d. d\<lparr>d_hash := (if isDirectories d then None else d_hash d),
                       isDirectories := False, son := None, bro := None, isize := 0, ispace := 0,
                       timeLastModified := clock s, ctxs := []\<rparr>)"
  have own: "owns_ok s now" by (rule ix_invD[OF inv])
  have "\<exists>s' fi. release_contexts ?s1 (ctxs ?d) = Inr s' \<and> inodes s' = (inodes ?s1)(now := (inodes ?s1 now)\<lparr>cnt_id := fi\<rparr>) \<and>
    (\<forall>sl. get_slot fi sl = (case get_slot (cnt_id (inodes ?s1 now)) sl of None \<Rightarrow> None
                           | Some c \<Rightarrow> if c \<in> set (ctxs ?d) then None else Some c)) \<and>
    (\<forall>c. bitmap s' c \<longleftrightarrow> bitmap ?s1 c \<and> c \<notin> set (ctxs ?d)) \<and>
    (\<forall>c. context_addr s' c = (if c \<in> set (ctxs ?d) then \<lparr>csize = 0, which_inode_it_is = None\<rparr> else context_addr ?s1 c)) \<and>
    free_cursor s' = free_cursor ?s1 \<and> free_inode_slab s' = free_inode_slab ?s1 \<and> next_addr s' = next_addr ?s1 \<and>
    root s' = root ?s1 \<and> clock s' = clock ?s1 \<and> index_state.more s' = index_state.more ?s1"
    using own by (intro release_contexts_spec) (auto simp: owns_ok_def)
  then obtain s2 fi where r: "release_contexts ?s1 (ctxs ?d) = Inr s2"
    "inodes s2 = (inodes ?s1)(now := (inodes ?s1 now)\<lparr>cnt_id := fi\<rparr>)"
    "\<And>sl. get_slot fi sl = (case get_slot (cnt_id (inodes ?s1 now)) sl of None \<Rightarrow> None
                           | Some c \<Rightarrow> if c \<in> set (ctxs ?d) then None else Some c)"
    "\<And>c. bitmap s2 c \<longleftrightarrow> bitmap ?s1 c \<and> c \<notin> set (ctxs ?d)"
    "\<And>c. context_addr s2 c = (if c \<in> set (ctxs ?d) then \<lparr>csize = 0, which_inode_it_is = None\<rparr> else context_addr ?s1 c)"
    "free_cursor s2 = free_cursor ?s1" "free_inode_slab s2 = free_inode_slab ?s1" "next_addr s2 = next_addr ?s1"
    "root s2 = root ?s1" "clock s2 = clock ?s1" "index_state.more s2 = index_state.more ?s1" by blast
  let ?s' = "(upd_inode s2 now (\<lambda>d. d\<lparr>filename := []\<rparr>))\<lparr>free_inode_slab := free_inode_slab s2 @ [now]\<rparr>"
  have eq: "reset_indoe s (Some now) = Inr ?s'" using h r(1) by (auto simp: reset_indoe_def)
  have ino: "inodes ?s' = (inodes s)(now := ?d\<lparr>filename := [], isize := 0, ispace := 0, timeLastModified := clock s,
      isDirectories := False, cnt_id := fi, d_hash := (if isDirectories ?d then None else d_hash ?d),
      ctxs := [], son := None, bro := None\<rparr>)"
    by (cases ?d) (simp add: r(2))
  have none: "get_slot fi sl = None" for sl
    using own unfolding r(3) owns_ok_def by (auto split: option.split)
  have disj: "c \<notin> set (ctxs ?d)" if "c \<in> set (ctxs (inodes s i))" "i \<noteq> now" for c i
    using owner_unique[OF ix_invD(1)[OF inv] own] that by blast
  have ctx: "context_addr ?s' c = context_addr s c" if "c \<in> set (ctxs (inodes s i))" "i \<noteq> now" for c i
    using disj[OF that] by (simp add: r(5))
  have "owns_ok ?s' i \<and> sizes_ok ?s' i" for i
  proof (cases "i = now")
    case True
    then show ?thesis by (simp add: owns_ok_def sizes_ok_def ino none)
  next
    case False
    have "owns_ok s i" "sizes_ok s i" by (rule ix_invD[OF inv])+
    moreover have "bitmap ?s' c = bitmap s c" if "c \<in> set (ctxs (inodes s i))" for c
      using disj[OF that False] by (simp add: r(4))
    moreover have "map (\<lambda>c. csize (context_addr ?s' c)) (ctxs (inodes s i)) = map (\<lambda>c. csize (context_addr s c)) (ctxs (inodes s i))"
      using ctx False by simp
    ultimately show ?thesis using ctx False unfolding owns_ok_def sizes_ok_def ino
      by (simp del: map_eq_conv) metis
  qed
  moreover have "chunks_ok ?s'"
  proof -
    have "if bitmap ?s' c then \<exists>i. c \<in> set (ctxs (inodes ?s' i))
        else which_inode_it_is (context_addr ?s' c) = None \<and> csize (context_addr ?s' c) = 0" if "c < CHUNK_NUM" for c
    proof (cases "c \<in> set (ctxs ?d)")
      case True
      then show ?thesis by (simp add: r(4,5))
    next
      case False
      then have "if bitmap s c then \<exists>i. c \<in> set (ctxs (inodes s i)) \<and> i \<noteq> now
        else which_inode_it_is (context_addr s c) = None \<and> csize (context_addr s c) = 0"
        using ix_invD(3)[OF inv] that by (auto simp: chunks_ok_def split: if_splits)
      then show ?thesis using False unfolding ino by (auto simp: r(4,5) split: if_splits)
    qed
    moreover have "free_cursor ?s' < CHUNK_NUM" using ix_invD(4)[OF inv] by (simp add: r(6))
    ultimately show ?thesis unfolding chunks_ok_def by blast
  qed
  ultimately have "ix_inv ?s'" by (simp add: ix_inv_def)
  then show ?thesis
    by (intro exI[of _ ?s'] exI[of _ fi] conjI eq ino allI none impI)
       (simp_all add: r(4,5,7,8,9,10) r(11) upd_inode_def)
qed

section \<open>Properties\<close>

text \<open>A state right after start-up, with zeroed inodes: where the witnesses evaluate.\<close>

definition blank_inode :: inode where
  "blank_inode = \<lparr>filename = [], isize = 0, ispace = 0, timeLastModified = 0, isDirectories = False, son_nums = 0,
     cnt_id = \<lparr>addr = (\<lambda>_. None), in1addr = Some init_indirect_class1, in2addr = Some init_indirect_class2,
       in3addr = None\<rparr>, d_hash = None, ctxs = [], son = None, bro = None\<rparr>"

definition index_start :: index_state where
  "index_start = \<lparr>inodes = (\<lambda>_. blank_inode), next_addr = 1, free_inode_slab = [], bitmap = (\<lambda>_. False),
     free_cursor = 0, context_addr = (\<lambda>_. \<lparr>csize = 0, which_inode_it_is = None\<rparr>), root = 0, clock = 0\<rparr>"

lemma no_slots [simp]: "get_slot \<lparr>addr = (\<lambda>_. None), in1addr = Some init_indirect_class1, in2addr = Some init_indirect_class2,
       in3addr = None\<rparr> sl = None"
  by (cases sl) (simp_all add: init_indirect_class1_def init_indirect_class2_def)

lemma index_start_inv: "ix_inv index_start"
  by (simp add: ix_inv_def owns_ok_def sizes_ok_def chunks_ok_def index_start_def blank_inode_def sizes(4))

lemma no_sharing:
  assumes "ix_inv s" "n < MAX_CHUNKS" "m < MAX_CHUNKS" "file_chunk s i n = Some c" "file_chunk s j m = Some c"
  shows "i = j \<and> n = m"
proof -
  have "c \<in> set (ctxs (inodes s i))" "c \<in> set (ctxs (inodes s j))"
    using ix_invD(1)[OF assms(1)] assms(4,5) unfolding owns_ok_def file_chunk_def by blast+
  then have ij: "i = j" using owner_unique ix_invD(1)[OF assms(1)] by blast
  then have "chunk_slot n = chunk_slot m"
    using slot_unique[OF ix_invD(1)[OF assms(1)]] assms(4,5) unfolding file_chunk_def by blast
  then show ?thesis using ij chunk_slot_inj[OF assms(2,3)] by blast
qed

text \<open>C4: \<open>level3_local_index\<close> in writing mode. For every offset the index can express it either
  dereferences \<open>NULL\<close>, and then every chunk of the disk is taken, or it returns the chunk that holds
  the offset with the position inside it, having added that chunk if the file had a hole there. In
  the second case the ownership invariant is kept (no chunk in two places), every other chunk number
  of the file translates as before, no other inode changes and no chunk's size changes.\<close>

theorem translation_for_writing:
  assumes "ix_inv s" "offset < SIZE_THIRD_DIRECT_END"
  shows "case level3_local_index s offset head False of
      Inl e \<Rightarrow> e = Null_deref \<and> (\<forall>c < CHUNK_NUM. bitmap s c)
    | Inr (s', co, o') \<Rightarrow> (\<exists>c < CHUNK_NUM. co = Some c \<and> o' = offset mod CHUNK_SIZE \<and> ix_inv s' \<and> index_frame s s' head \<and>
        bitmap s' = (bitmap s)(c := True) \<and>
        (file_chunk s head (offset div CHUNK_SIZE) = None \<and> \<not> bitmap s c \<or> file_chunk s head (offset div CHUNK_SIZE) = Some c) \<and>
        (\<forall>n < MAX_CHUNKS. file_chunk s' head n = (if n = offset div CHUNK_SIZE then Some c else file_chunk s head n)))"
proof (cases "level3_local_index s offset head False")
  case (Inl e)
  then show ?thesis using level3_write_fault[OF assms Inl] by (auto simp: used_chunks_def)
next
  case (Inr r)
  obtain s' co o' where r: "r = (s', co, o')" using prod_cases3 by blast
  show ?thesis using level3_write[OF assms, of head s' co o'] Inr unfolding r
    by (auto split: option.splits)
qed

theorem translation_for_writing_witness:
  "case level3_local_index index_start 500000 7 False of
      Inl e \<Rightarrow> e = Null_deref \<and> (\<forall>c < CHUNK_NUM. bitmap index_start c)
    | Inr (s', co, o') \<Rightarrow> (\<exists>c < CHUNK_NUM. co = Some c \<and> o' = 500000 mod CHUNK_SIZE \<and> ix_inv s' \<and> index_frame index_start s' 7 \<and>
        bitmap s' = (bitmap index_start)(c := True) \<and>
        (file_chunk index_start 7 (500000 div CHUNK_SIZE) = None \<and> \<not> bitmap index_start c \<or>
         file_chunk index_start 7 (500000 div CHUNK_SIZE) = Some c) \<and>
        (\<forall>n < MAX_CHUNKS. file_chunk s' 7 n = (if n = 500000 div CHUNK_SIZE then Some c else file_chunk index_start 7 n)))"
  by (rule translation_for_writing[OF index_start_inv]) (simp add: const_simps)

text \<open>C17: translating for reading changes nothing and gives the chunk of the offset, or \<open>NULL\<close>
  exactly at a hole or beyond the largest offset the index can express.\<close>

theorem translation_for_reading:
  "\<exists>o'. level3_local_index s offset head True =
       Inr (s, if offset < SIZE_THIRD_DIRECT_END then file_chunk s head (offset div CHUNK_SIZE) else None, o') \<and>
     (offset < SIZE_THIRD_DIRECT_END \<and> file_chunk s head (offset div CHUNK_SIZE) \<noteq> None \<longrightarrow> o' = offset mod CHUNK_SIZE)"
  using level3_read[of offset s head] level3_out_of_range[of offset s head True]
  by (cases "offset < SIZE_THIRD_DIRECT_END") auto

theorem translation_for_reading_witness:
  "\<exists>o'. level3_local_index index_start 500000 7 True = Inr (index_start, None, o')"
  using translation_for_reading[of index_start 500000 7]
  by (auto simp: file_chunk_def index_start_def blank_inode_def)

text \<open>The chunk allocator. From any position of the cursor, a run of requests that the free
  space can hold succeeds and yields pairwise distinct chunks, none of them in use before.\<close>

theorem chunk_requests_succeed:
  assumes "free_cursor s < CHUNK_NUM" "card (used_chunks s) + n \<le> CHUNK_NUM"
  shows "\<exists>cs s'. chunks.allocs n s = (map Some cs, s') \<and> length cs = n \<and> distinct cs \<and>
    set cs \<inter> used_chunks s = {} \<and> (\<forall>c \<in> set cs. c < CHUNK_NUM) \<and> used_chunks s' = used_chunks s \<union> set cs"
  using chunks.allocs_ok[OF assms(1), of n] assms(2) by auto

theorem chunk_requests_succeed_witness:
  "\<exists>cs s'. chunks.allocs 1000 index_start = (map Some cs, s') \<and> length cs = 1000 \<and> distinct cs \<and>
    set cs \<inter> used_chunks index_start = {} \<and> (\<forall>c \<in> set cs. c < CHUNK_NUM) \<and>
    used_chunks s' = used_chunks index_start \<union> set cs"
  by (rule chunk_requests_succeed) (simp_all add: index_start_def used_chunks_def sizes(4))

text \<open>C18: \<open>reset_indoe\<close> on an inode returns, gives back exactly the chunks of that file, leaves
  its index empty and its size 0, appends the inode to the free list and keeps the ownership
  invariant; no other inode changes.\<close>

theorem reset_releases_file:
  assumes "ix_inv s" "isDirectories (inodes s now) \<Longrightarrow> d_hash (inodes s now) \<noteq> None"
  shows "\<exists>s'. reset_indoe s (Some now) = Inr s' \<and> ix_inv s' \<and>
    used_chunks s' = used_chunks s - set (ctxs (inodes s now)) \<and> (\<forall>n. file_chunk s' now n = None) \<and>
    isize (inodes s' now) = 0 \<and> free_inode_slab s' = free_inode_slab s @ [now] \<and>
    (\<forall>i. i \<noteq> now \<longrightarrow> inodes s' i = inodes s i)"
  using reset_indoe_spec[OF assms] by (auto simp: used_chunks_def file_chunk_def)

theorem reset_releases_file_witness:
  "\<exists>s'. reset_indoe index_start (Some 7) = Inr s' \<and> ix_inv s' \<and>
    used_chunks s' = used_chunks index_start - set (ctxs (inodes index_start 7)) \<and> (\<forall>n. file_chunk s' 7 n = None) \<and>
    isize (inodes s' 7) = 0 \<and> free_inode_slab s' = free_inode_slab index_start @ [7] \<and>
    (\<forall>i. i \<noteq> 7 \<longrightarrow> inodes s' i = inodes index_start i)"
  by (rule reset_releases_file[OF index_start_inv]) (simp add: index_start_def blank_inode_def)

end
