(* ===== verification/Fs_Dir.thy ===== *)
theory Fs_Dir
  imports Fs_Index "HOL-Library.Multiset"
begin

text \<open>
  Path resolution and the namespace operations of \<open>src/src/dhmp_fs_dir_ops.c\<close>. A path is the string
  up to its terminating NUL, an inode pointer an \<open>inode_id\<close> or \<open>None\<close>. The sons of a directory hang
  on a chain that starts at \<open>son\<close> and goes on through \<open>bro\<close>; loops over such chains carry fuel, the
  number of inodes ever allocated, which bounds the length of a chain without cycles. \<open>d_hash = None\<close>
  stands for a pointer that is \<open>NULL\<close> or was never set, so going through it is a wild dereference.
  Each operation takes and gives back the lock of the directory it changes; the model runs one
  operation at a time and leaves the lock out.
\<close>

section \<open>Sons of a directory\<close>

definition add_to_father :: "'a index_state_scheme \<Rightarrow> inode_id \<Rightarrow> inode_id \<Rightarrow> 'a index_state_scheme" where
  "add_to_father s father now =
     (let tmp = son (inodes s father);
          s1 = upd_inode s father (\<lambda>d. d\<lparr>son := Some now\<rparr>);
          s2 = upd_inode s1 now (\<lambda>d. d\<lparr>bro := tmp\<rparr>)
      in upd_inode s2 father (\<lambda>d. d\<lparr>son_nums := son_nums d + 1\<rparr>))"

fun del_scan :: "nat \<Rightarrow> 'a index_state_scheme \<Rightarrow> inode_id \<Rightarrow> inode_id \<Rightarrow> inode_id \<Rightarrow> inode_id option \<Rightarrow>
    'a index_state_scheme res" where
  "del_scan 0 s father del bef now = Inl Out_of_fuel"
| "del_scan (Suc n) s father del bef None = Inr s"
| "del_scan (Suc n) s father del bef (Some now) =
     (if now = del then
        Inr (upd_inode (upd_inode s bef (\<lambda>d. d\<lparr>bro := bro (inodes s now)\<rparr>)) father
               (\<lambda>d. d\<lparr>son_nums := son_nums d - 1\<rparr>))
      else del_scan n s father del now (bro (inodes s now)))"

definition del_from_father :: "'a index_state_scheme \<Rightarrow> inode_id \<Rightarrow> inode_id \<Rightarrow> 'a index_state_scheme res" where
  "del_from_father s father del =
     (case son (inodes s father) of
        None \<Rightarrow> Inr s
      | Some first \<Rightarrow>
          if first = del then
            Inr (upd_inode s father (\<lambda>d. d\<lparr>son := bro (inodes s first), son_nums := son_nums d - 1\<rparr>))
          else del_scan (Suc (next_addr s)) s father del first (bro (inodes s first)))"

section \<open>Paths\<close>

text \<open>
  \<open>deal\<close> cuts a path at its last slash that is not its last character. Both result buffers and
  the caller's path hold 512 bytes; a longer path runs over the end of \<open>dirname\<close>, and a path of
  length 0 or 1 makes the code read \<open>filename[-1]\<close>.
\<close>

definition last_slash :: "string \<Rightarrow> nat" where
  "last_slash path =
     foldl (\<lambda>j i. if path ! i = CHR ''/'' \<and> i + 1 < length path then i else j) 0 [0 ..< length path]"

definition deal :: "string \<Rightarrow> (string \<times> string) res" where
  "deal path =
     (if FILE_NAME_LEN < length path then Inl Buffer_overflow
      else
        let m = last_slash path; filename = drop (m + 1) path; dirname = take (m + 1) path
        in if filename = [] then Inl Out_of_bounds
           else Inr (dirname, if last filename = CHR ''/'' then butlast filename else filename))"

text \<open>
  The loop of \<open>search_d_hash\<close>: \<open>name\<close> holds the characters of the current component, \<open>first\<close> is
  \<open>i == 0\<close>.
\<close>

fun search_loop :: "'a index_state_scheme \<Rightarrow> inode_id \<Rightarrow> string \<Rightarrow> bool \<Rightarrow> string \<Rightarrow> inode_id option res" where
  "search_loop s now_node name first [] = Inr (Some now_node)"
| "search_loop s now_node name first (ch # rest) =
     (if FILE_NAME_LEN \<le> length name then Inl Buffer_overflow
      else if ch = CHR ''/'' \<or> rest = [] then
        (if first then search_loop s now_node name False rest
         else if ch \<noteq> CHR ''/'' \<and> FILE_NAME_LEN \<le> length name + 1 then Inl Buffer_overflow
         else
           (case d_hash (inodes s now_node) of
              None \<Rightarrow> Inl Wild_deref
            | Some h \<Rightarrow>
                (case defaultGet h (if ch = CHR ''/'' then name else name @ [ch]) of
                   None \<Rightarrow> Inr None
                 | Some next_inode \<Rightarrow> search_loop s next_inode [] False rest)))
      else search_loop s now_node (name @ [ch]) False rest)"

definition search_d_hash :: "'a index_state_scheme \<Rightarrow> string \<Rightarrow> inode_id option res" where
  "search_d_hash s path =
     (if length path = 1 then Inr (Some (root s)) else search_loop s (root s) [] True path)"

section \<open>Creating\<close>

definition dhmpCreateDirectory :: "'a index_state_scheme \<Rightarrow> string \<Rightarrow> ('a index_state_scheme \<times> int) res" where
  "dhmpCreateDirectory s path =
     (if length path = 1 then Inr (s, 0)
      else
        rbind (deal path) (\<lambda>(dirname, fname).
        rbind (search_d_hash s dirname) (\<lambda>father_opt.
          case father_opt of
            None \<Rightarrow> Inr (s, -1)
          | Some father \<Rightarrow>
              if \<not> isDirectories (inodes s father) then Inr (s, -1)
              else
                (case d_hash (inodes s father) of
                   None \<Rightarrow> Inl Wild_deref
                 | Some h \<Rightarrow>
                     if defaultGet h fname \<noteq> None then Inr (s, -1)
                     else
                       let (now, s1) = get_free_inode s;
                           s2 = upd_inode s1 now (\<lambda>d. d\<lparr>isDirectories := True, d_hash := Some (createHashMap (-1)),
                                  filename := fname\<rparr>);
                           s3 = add_to_father s2 father now;
                           s4 = upd_inode s3 father (\<lambda>d. d\<lparr>d_hash :=
                                  map_option (\<lambda>h. defaultPut h (filename (inodes s3 now)) now) (d_hash d)\<rparr>)
                       in Inr (s4, 1)))))"

definition dhmpMknod :: "'a index_state_scheme \<Rightarrow> string \<Rightarrow> ('a index_state_scheme \<times> int) res" where
  "dhmpMknod s path =
     (if length path = 1 then Inr (s, 0)
      else
        rbind (deal path) (\<lambda>(dirname, fname).
        rbind (search_d_hash s dirname) (\<lambda>father_opt.
          case father_opt of
            None \<Rightarrow> Inr (s, -1)
          | Some father \<Rightarrow>
              (case d_hash (inodes s father) of
                 None \<Rightarrow> Inl Wild_deref
               | Some h \<Rightarrow>
                   if defaultGet h fname \<noteq> None then Inr (s, -1)
                   else
                     let (now, s1) = get_free_inode s;
                         s2 = upd_inode s1 now (\<lambda>d. d\<lparr>filename := fname\<rparr>);
                         s3 = upd_inode s2 father (\<lambda>d. d\<lparr>d_hash :=
                                map_option (\<lambda>h. defaultPut h (filename (inodes s2 now)) now) (d_hash d)\<rparr>);
                         s4 = add_to_father s3 father now
                     in Inr (s4, 1)))))"

section \<open>Deleting\<close>

text \<open>
  \<open>dhmpDeleteALL\<close> walks the chain of sons, recursing into the directories on it; the loop and the
  recursion share one fuel argument.
\<close>

fun delete_loop :: "nat \<Rightarrow> 'a index_state_scheme \<Rightarrow> inode_id option \<Rightarrow> 'a index_state_scheme res" where
  "delete_loop 0 s p = Inl Out_of_fuel"
| "delete_loop (Suc n) s None = Inr s"
| "delete_loop (Suc n) s (Some p) =
     rbind (if isDirectories (inodes s p) \<and> son_nums (inodes s p) \<noteq> 0 then delete_loop n s (son (inodes s p))
            else Inr s) (\<lambda>s1.
       let next = bro (inodes s1 p)
       in rbind (reset_indoe s1 (Some p)) (\<lambda>s2. delete_loop n s2 next))"

definition dhmpDeleteALL :: "'a index_state_scheme \<Rightarrow> inode_id \<Rightarrow> 'a index_state_scheme res" where
  "dhmpDeleteALL s father = delete_loop (Suc (next_addr s)) s (son (inodes s father))"

definition dhmpDelFromInode ::
  "'a index_state_scheme \<Rightarrow> inode_id option \<Rightarrow> string \<Rightarrow> ('a index_state_scheme \<times> int) res" where
  "dhmpDelFromInode s father_opt fname =
     (case father_opt of
        None \<Rightarrow> Inr (s, -1)
      | Some father \<Rightarrow>
          if \<not> isDirectories (inodes s father) then Inr (s, -1)
          else
            (case d_hash (inodes s father) of
               None \<Rightarrow> Inl Wild_deref
             | Some h \<Rightarrow>
                 (case defaultGet h fname of
                    None \<Rightarrow> Inr (s, -1)
                  | Some to_del \<Rightarrow>
                      rbind (del_from_father s father to_del) (\<lambda>s1.
                        let (h', key) = defaultRemove h fname;
                            s2 = upd_inode s1 father (\<lambda>d. d\<lparr>d_hash := Some h'\<rparr>)
                        in if key = None then Inr (s2, -1)
                           else
                             rbind (if isDirectories (inodes s2 to_del) then dhmpDeleteALL s2 to_del else Inr s2)
                               (\<lambda>s3. rbind (reset_indoe s3 (Some to_del)) (\<lambda>s4. Inr (s4, 1)))))))"

definition dhmpDelete :: "'a index_state_scheme \<Rightarrow> string \<Rightarrow> ('a index_state_scheme \<times> int) res" where
  "dhmpDelete s path =
     (if length path = 1 then Inr (s, 0)
      else
        rbind (deal path) (\<lambda>(dirname, fname).
        rbind (search_d_hash s dirname) (\<lambda>father.
          dhmpDelFromInode s father fname)))"

section \<open>Attributes and listings\<close>

text \<open>\<open>attr.size\<close> is an \<open>int\<close>, so the size of a file is cut to 32 bits on its way to \<open>stat\<close>.\<close>

record attr =
  a_size :: int
  a_timeLastModified :: nat
  a_isDirectories :: bool

definition dhmpGetAttr :: "'a index_state_scheme \<Rightarrow> string \<Rightarrow> attr option res" where
  "dhmpGetAttr s path =
     rbind (search_d_hash s path) (\<lambda>head_opt.
       case head_opt of
         None \<Rightarrow> Inr None
       | Some head \<Rightarrow>
           Inr (Some \<lparr>a_size = sint32 (int (isize (inodes s head))), a_timeLastModified = timeLastModified (inodes s head),
                  a_isDirectories = isDirectories (inodes s head)\<rparr>))"

text \<open>The list under construction; a new entry goes right behind the first one.\<close>

fun readdir_loop :: "nat \<Rightarrow> 'a index_state_scheme \<Rightarrow> inode_id option \<Rightarrow> (string \<times> bool) list \<Rightarrow>
    (string \<times> bool) list res" where
  "readdir_loop 0 s p Li_head = Inl Out_of_fuel"
| "readdir_loop (Suc n) s None Li_head = Inr Li_head"
| "readdir_loop (Suc n) s (Some p) Li_head =
     (let Li = (filename (inodes s p), isDirectories (inodes s p))
      in readdir_loop n s (bro (inodes s p)) (case Li_head of [] \<Rightarrow> [Li] | h # tp \<Rightarrow> h # Li # tp))"

definition dhmpReadDir :: "'a index_state_scheme \<Rightarrow> string \<Rightarrow> (string \<times> bool) list res" where
  "dhmpReadDir s path =
     (if length path \<noteq> 1 then
        rbind (search_d_hash s path) (\<lambda>father_opt.
          case father_opt of
            None \<Rightarrow> Inr []
          | Some father \<Rightarrow>
              if \<not> isDirectories (inodes s father) then Inr []
              else readdir_loop (Suc (next_addr s)) s (son (inodes s father)) [])
      else readdir_loop (Suc (next_addr s)) s (son (inodes s (root s))) [])"

section \<open>The operations FUSE calls\<close>

record stat =
  st_mode :: nat
  st_size :: int
  st_nlink :: nat
  st_uid :: nat
  st_gid :: nat
  st_rdev :: nat
  st_atime :: nat
  st_mtime :: nat
  st_ctime :: nat

definition S_IFMT :: nat where "S_IFMT = 0xF000"
definition S_IFDIR :: nat where "S_IFDIR = 0x4000"
definition S_IFREG :: nat where "S_IFREG = 0x8000"

definition dhmp_fs_access :: "string \<Rightarrow> int \<Rightarrow> int" where
  "dhmp_fs_access path m = 0"

definition dhmp_fs_getattr :: "'a index_state_scheme \<Rightarrow> string \<Rightarrow> stat \<Rightarrow> (stat \<times> int) res" where
  "dhmp_fs_getattr s path stbuf =
     rbind (if length path = 1 then
              Inr (Some \<lparr>a_size = 0, a_timeLastModified = timeLastModified (inodes s (root s)),
                     a_isDirectories = isDirectories (inodes s (root s))\<rparr>)
            else dhmpGetAttr s path) (\<lambda>a.
       case a of
         None \<Rightarrow> Inr (stbuf, -2)
       | Some at \<Rightarrow>
           let st = (if a_isDirectories at then stbuf\<lparr>st_mode := S_IFDIR OR 0x1B6, st_size := 0\<rparr>
                     else stbuf\<lparr>st_size := a_size at, st_mode := S_IFREG OR 0x1FF\<rparr>)
           in Inr (st\<lparr>st_nlink := 1, st_uid := 0, st_gid := 0, st_rdev := 0, st_atime := 0,
                     st_mtime := a_timeLastModified at, st_ctime := 0\<rparr>, 0))"

text \<open>FUSE's \<open>filler\<close> is a parameter: it adds an entry to the caller's buffer and returns a flag.\<close>

fun filler_loop :: "('b \<Rightarrow> string \<Rightarrow> nat \<Rightarrow> int \<times> 'b) \<Rightarrow> 'b \<Rightarrow> (string \<times> bool) list \<Rightarrow> 'b" where
  "filler_loop filler buf [] = buf"
| "filler_loop filler buf ((name, dir) # tmp) =
     (let (full, buf') = filler buf name (if dir then S_IFDIR else S_IFMT)
      in if full \<noteq> 0 then buf' else filler_loop filler buf' tmp)"

definition dhmp_fs_readdir ::
  "'a index_state_scheme \<Rightarrow> string \<Rightarrow> 'b \<Rightarrow> ('b \<Rightarrow> string \<Rightarrow> nat \<Rightarrow> int \<times> 'b) \<Rightarrow> ('b \<times> int) res" where
  "dhmp_fs_readdir s path buf filler =
     rbind (dhmpReadDir s path) (\<lambda>tmp. Inr (filler_loop filler buf tmp, 0))"

definition dhmp_fs_mknod :: "'a index_state_scheme \<Rightarrow> string \<Rightarrow> ('a index_state_scheme \<times> int) res" where
  "dhmp_fs_mknod s path = rbind (dhmpMknod s path) (\<lambda>(s', r). Inr (s', if r < 0 then -1 else 0))"

definition dhmp_fs_mkdir :: "'a index_state_scheme \<Rightarrow> string \<Rightarrow> ('a index_state_scheme \<times> int) res" where
  "dhmp_fs_mkdir s path = rbind (dhmpCreateDirectory s path) (\<lambda>(s', r). Inr (s', if r < 0 then -1 else 0))"

definition dhmp_fs_rmdir :: "'a index_state_scheme \<Rightarrow> string \<Rightarrow> ('a index_state_scheme \<times> int) res" where
  "dhmp_fs_rmdir s path = rbind (dhmpDelete s path) (\<lambda>(s', r). Inr (s', if r < 0 then -2 else 0))"

definition dhmp_fs_unlink :: "'a index_state_scheme \<Rightarrow> string \<Rightarrow> ('a index_state_scheme \<times> int) res" where
  "dhmp_fs_unlink s path = rbind (dhmpDelete s path) (\<lambda>(s', r). Inr (s', if r < 0 then -2 else 0))"

definition dhmp_fs_rename :: "'a index_state_scheme \<Rightarrow> string \<Rightarrow> string \<Rightarrow> ('a index_state_scheme \<times> int) res" where
  "dhmp_fs_rename s from to =
     rbind (deal from) (\<lambda>(dirname, fname).
     rbind (search_d_hash s dirname) (\<lambda>father_opt.
       case father_opt of
         None \<Rightarrow> Inl Null_deref
       | Some father \<Rightarrow>
           (case d_hash (inodes s father) of
              None \<Rightarrow> Inl Wild_deref
            | Some h \<Rightarrow>
                (case defaultGet h fname of
                   None \<Rightarrow> Inr (s, -17)
                 | Some head \<Rightarrow>
                     let s1 = upd_inode s father (\<lambda>d. d\<lparr>d_hash := Some (fst (defaultRemove h fname))\<rparr>)
                     in rbind (deal to) (\<lambda>(dirname', toname).
                       let s2 = upd_inode s1 head (\<lambda>d. d\<lparr>filename := toname\<rparr>);
                           s3 = upd_inode s2 father (\<lambda>d. d\<lparr>d_hash :=
                                  map_option (\<lambda>h. defaultPut h (filename (inodes s2 head)) head) (d_hash d)\<rparr>)
                       in Inr (s3, 0))))))"

definition dhmp_fs_chmod :: "string \<Rightarrow> nat \<Rightarrow> int" where "dhmp_fs_chmod path mode = 0"
definition dhmp_fs_chown :: "string \<Rightarrow> nat \<Rightarrow> nat \<Rightarrow> int" where "dhmp_fs_chown path uid gid = 0"
definition dhmp_fs_truncate :: "string \<Rightarrow> int \<Rightarrow> int" where "dhmp_fs_truncate path len = 0"

text \<open>The handle \<open>fi->fh\<close> is the address of the inode.\<close>

definition dhmp_fs_open :: "'a index_state_scheme \<Rightarrow> string \<Rightarrow> nat \<Rightarrow> (nat \<times> int) res" where
  "dhmp_fs_open s path fh =
     rbind (search_d_hash s path) (\<lambda>open_file_inode.
       case open_file_inode of None \<Rightarrow> Inr (fh, -1) | Some i \<Rightarrow> Inr (i, 0))"

definition dhmp_fs_statfs :: "string \<Rightarrow> nat \<Rightarrow> nat \<times> int" where
  "dhmp_fs_statfs path f_bsize = (BANK_SIZE, 0)"

section \<open>Paths as lists of names\<close>

definition path_of :: "string list \<Rightarrow> string" where
  "path_of ns = concat (map (\<lambda>n. CHR ''/'' # n) ns)"

definition valid_name :: "string \<Rightarrow> bool" where
  "valid_name n \<longleftrightarrow> n \<noteq> [] \<and> CHR ''/'' \<notin> set n \<and> length n < FILE_NAME_LEN"

text \<open>The reference: one table lookup per name, a fault when a name is looked up under a file.\<close>

fun resolve :: "'a index_state_scheme \<Rightarrow> inode_id \<Rightarrow> string list \<Rightarrow> inode_id option res" where
  "resolve s i [] = Inr (Some i)"
| "resolve s i (n # ns) =
     (case d_hash (inodes s i) of
        None \<Rightarrow> Inl Wild_deref
      | Some h \<Rightarrow> (case defaultGet h n of None \<Rightarrow> Inr None | Some j \<Rightarrow> resolve s j ns))"

lemma path_of_simps [simp]:
  "path_of [] = []" "path_of (n # ns) = CHR ''/'' # n @ path_of ns" "path_of (ns @ ms) = path_of ns @ path_of ms"
  by (simp_all add: path_of_def)

lemma search_name:
  assumes "CHR ''/'' \<notin> set n" "length acc + length n < FILE_NAME_LEN"
  shows "search_loop s i acc False (n @ CHR ''/'' # r) =
    (case d_hash (inodes s i) of
       None \<Rightarrow> Inl Wild_deref
     | Some h \<Rightarrow> (case defaultGet h (acc @ n) of None \<Rightarrow> Inr None | Some j \<Rightarrow> search_loop s j [] False r))"
  using assms by (induction n arbitrary: acc) (auto cong: option.case_cong)

lemma search_last:
  assumes "CHR ''/'' \<notin> set n" "n \<noteq> []" "length acc + length n < FILE_NAME_LEN"
  shows "search_loop s i acc False n =
    (case d_hash (inodes s i) of
       None \<Rightarrow> Inl Wild_deref
     | Some h \<Rightarrow> (case defaultGet h (acc @ n) of None \<Rightarrow> Inr None | Some j \<Rightarrow> Inr (Some j)))"
  using assms
proof (induction n arbitrary: acc)
  case Nil
  then show ?case by simp
next
  case (Cons c n)
  then show ?case by (cases n) (auto split: option.splits)
qed

lemma search_names:
  assumes "\<forall>m \<in> set (n # ns). valid_name m"
  shows "search_loop s i [] False (n @ path_of ns) = resolve s i (n # ns)"
    "search_loop s i [] False (n @ path_of ns @ ''/'') = resolve s i (n # ns)"
  using assms
proof (induction ns arbitrary: i n)
  case Nil
  { case 1 then show ?case by (simp add: search_last valid_name_def split: option.splits) }
  { case 2 then show ?case by (simp add: search_name valid_name_def split: option.splits) }
next
  case (Cons m ms)
  { case 1 then show ?case using Cons.IH(1)[of m]
      by (simp add: search_name valid_name_def split: option.splits) }
  { case 2 then show ?case using Cons.IH(2)[of m]
      by (simp add: search_name valid_name_def split: option.splits) }
qed

lemma search_path:
  assumes "\<forall>n \<in> set ns. valid_name n"
  shows "search_d_hash s (path_of ns @ ''/'') = resolve s (root s) ns"
    "ns \<noteq> [] \<Longrightarrow> search_d_hash s (path_of ns) = resolve s (root s) ns"
proof -
  have l: "0 < FILE_NAME_LEN" by (simp add: const_simps)
  show "search_d_hash s (path_of ns @ ''/'') = resolve s (root s) ns"
    using search_names(2) assms l by (cases ns) (simp_all add: search_d_hash_def)
  show "ns \<noteq> [] \<Longrightarrow> search_d_hash s (path_of ns) = resolve s (root s) ns"
    using search_names(1) assms l by (cases ns) (auto simp: search_d_hash_def valid_name_def)
qed

lemma foldl_keep: "\<forall>i \<in> set is. \<not> P i \<Longrightarrow> foldl (\<lambda>j i. if P i then i else j) z is = z"
  by (induction "is") auto

lemma last_slash_eq:
  assumes "CHR ''/'' \<notin> set n" "n \<noteq> []"
  shows "last_slash (a @ CHR ''/'' # n) = length a"
proof -
  let ?p = "a @ CHR ''/'' # n"
  have "[0 ..< length ?p] = [0 ..< length a] @ [length a] @ [Suc (length a) ..< length ?p]"
    using upt_add_eq_append[of 0 "length a" "Suc (length n)"] by (simp add: upt_rec)
  moreover have "\<forall>i \<in> set [Suc (length a) ..< length ?p]. \<not> (?p ! i = CHR ''/'' \<and> i + 1 < length ?p)"
    using assms(1) by (auto simp: nth_append nth_Cons' in_set_conv_nth)
  ultimately show ?thesis unfolding last_slash_def
    using assms(2) by (simp del: upt_Suc add: foldl_keep[of _ "\<lambda>i. ?p ! i = CHR ''/'' \<and> i + 1 < length ?p", simplified])
qed

lemma deal_path:
  assumes "valid_name n" "length (path_of (ns @ [n])) \<le> FILE_NAME_LEN"
  shows "deal (path_of (ns @ [n])) = Inr (path_of ns @ ''/'', n)"
proof -
  have "last_slash (path_of ns @ CHR ''/'' # n) = length (path_of ns)"
    using assms(1) by (intro last_slash_eq) (auto simp: valid_name_def)
  moreover have "last n \<noteq> CHR ''/''" using assms(1) last_in_set by (fastforce simp: valid_name_def)
  ultimately show ?thesis using assms by (simp add: deal_def valid_name_def)
qed

section \<open>The directory tree\<close>

text \<open>
  The shape of the namespace as a tree of inode addresses. A node agrees with the state when the
  chain of sons lists its children, the children's names are exactly the keys of \<open>d_hash\<close>, and
  \<open>son_nums\<close> is at least their number (a recycled inode keeps an old count).
\<close>

datatype inode_tree = INode (iroot: inode_id) (subtrees: "inode_tree list")

fun nodes :: "inode_tree \<Rightarrow> inode_id list" where
  "nodes (INode i ts) = i # concat (map nodes ts)"

fun edges :: "inode_tree \<Rightarrow> (inode_id \<times> inode_id list) list" where
  "edges (INode i ts) = (i, map iroot ts) # concat (map edges ts)"

fun blist :: "(inode_id \<Rightarrow> inode_id option) \<Rightarrow> inode_id option \<Rightarrow> inode_id list \<Rightarrow> bool" where
  "blist nx p [] \<longleftrightarrow> p = None"
| "blist nx p (x # xs) \<longleftrightarrow> p = Some x \<and> blist nx (nx x) xs"

definition node_ok :: "'a index_state_scheme \<Rightarrow> inode_id \<Rightarrow> inode_id list \<Rightarrow> bool" where
  "node_ok s i cs \<longleftrightarrow>
     blist (\<lambda>j. bro (inodes s j)) (son (inodes s i)) cs \<and> int (length cs) \<le> son_nums (inodes s i) \<and>
     (case d_hash (inodes s i) of
        None \<Rightarrow> \<not> isDirectories (inodes s i) \<and> cs = []
      | Some h \<Rightarrow> isDirectories (inodes s i) \<and> hm_wf h \<and>
          (\<forall>n j. defaultGet h n = Some j \<longleftrightarrow> j \<in> set cs \<and> filename (inodes s j) = n))"

definition tree_ok :: "'a index_state_scheme \<Rightarrow> inode_tree \<Rightarrow> bool" where
  "tree_ok s T \<longleftrightarrow> (\<forall>(i, cs) \<in> set (edges T). node_ok s i cs)"

text \<open>What an inode outside the tree looks like: free in the slab, or not allocated yet.\<close>

definition clean :: "inode \<Rightarrow> bool" where
  "clean d \<longleftrightarrow> \<not> isDirectories d \<and> d_hash d = None \<and> son d = None \<and> 0 \<le> son_nums d \<and> ctxs d = [] \<and>
     isize d = 0 \<and> (\<forall>sl. get_slot (cnt_id d) sl = None)"

definition dir_tree :: "'a index_state_scheme \<Rightarrow> inode_tree \<Rightarrow> bool" where
  "dir_tree s T \<longleftrightarrow> iroot T = root s \<and> tree_ok s T \<and> isDirectories (inodes s (root s)) \<and>
     distinct (nodes T @ free_inode_slab s) \<and> (\<forall>i \<in> set (nodes T @ free_inode_slab s). i < next_addr s) \<and>
     (\<forall>i. i \<notin> set (nodes T) \<longrightarrow> clean (inodes s i))"

definition dir_inv :: "'a index_state_scheme \<Rightarrow> bool" where
  "dir_inv s \<longleftrightarrow> ix_inv s \<and> (\<exists>T. dir_tree s T)"

text \<open>The namespace as a map from paths to inodes.\<close>

fun walk :: "'a index_state_scheme \<Rightarrow> inode_id \<Rightarrow> string list \<Rightarrow> inode_id option" where
  "walk s i [] = Some i"
| "walk s i (n # ns) =
     (case d_hash (inodes s i) of
        None \<Rightarrow> None
      | Some h \<Rightarrow> (case defaultGet h n of None \<Rightarrow> None | Some j \<Rightarrow> walk s j ns))"

definition lookup_path :: "'a index_state_scheme \<Rightarrow> string list \<Rightarrow> inode_id option" where
  "lookup_path s p = walk s (root s) p"

text \<open>Grafting a tree as first son of a node, and cutting off the subtrees below a node.\<close>

fun graft :: "inode_id \<Rightarrow> inode_tree \<Rightarrow> inode_tree \<Rightarrow> inode_tree" where
  "graft f c (INode i ts) = INode i ((if i = f then [c] else []) @ map (graft f c) ts)"

fun prune :: "inode_id \<Rightarrow> inode_tree \<Rightarrow> inode_tree" where
  "prune d (INode i ts) = INode i (map (prune d) (filter (\<lambda>t. iroot t \<noteq> d) ts))"

fun subs :: "inode_id \<Rightarrow> inode_tree \<Rightarrow> inode_tree list" where
  "subs d (INode i ts) = concat (map (\<lambda>t. if iroot t = d then [t] else subs d t) ts)"

subsection \<open>Trees\<close>

lemma iroot_in_nodes [simp]: "iroot t \<in> set (nodes t)"
  by (cases t) simp

lemma iroot_graft [simp]: "iroot (graft f c t) = iroot t"
  by (cases t) simp

lemma iroot_prune [simp]: "iroot (prune d t) = iroot t"
  by (cases t) simp

lemma nodes_edges: "set (nodes T) = fst ` set (edges T)"
  by (induction T) (auto simp: image_iff)

lemma edge_child: "(i, cs) \<in> set (edges T) \<Longrightarrow> j \<in> set cs \<Longrightarrow> j \<in> set (nodes T)"
proof (induction T)
  case (INode k ts)
  then show ?case using iroot_in_nodes by (fastforce simp: image_iff)
qed

lemma distinct_concat_nodes:
  assumes "distinct (concat (map nodes ts))" "t \<in> set ts" "u \<in> set ts" "x \<in> set (nodes t)" "x \<in> set (nodes u)"
  shows "t = u"
proof (rule ccontr)
  assume "t \<noteq> u"
  with assms show False by (induction ts) auto
qed

lemma distinct_nodes_sub: "distinct (nodes (INode i ts)) \<Longrightarrow> t \<in> set ts \<Longrightarrow> distinct (nodes t) \<and> i \<notin> set (nodes t)"
  by (induction ts) auto

lemma edge_unique:
  "distinct (nodes T) \<Longrightarrow> (i, cs) \<in> set (edges T) \<Longrightarrow> (i, cs') \<in> set (edges T) \<Longrightarrow> cs = cs'"
proof (induction T)
  case (INode k ts)
  have sub: "i' \<in> set (nodes t) \<and> i' \<noteq> k" if "(i', cs'') \<in> set (edges t)" "t \<in> set ts" for i' cs'' t
    using that distinct_nodes_sub[OF INode.prems(1) that(2)] nodes_edges[of t] by force
  show ?case
  proof (cases "i = k")
    case True
    then show ?thesis using INode.prems(2,3) sub by auto
  next
    case False
    then obtain t u where tu: "t \<in> set ts" "(i, cs) \<in> set (edges t)" "u \<in> set ts" "(i, cs') \<in> set (edges u)"
      using INode.prems(2,3) by auto
    then have "t = u" using distinct_concat_nodes[of ts t u i] sub INode.prems(1) by auto
    then show ?thesis using INode.IH[OF tu(1)] tu distinct_nodes_sub[OF INode.prems(1) tu(1)] by blast
  qed
qed

lemma parent_unique:
  "distinct (nodes T) \<Longrightarrow> (i, cs) \<in> set (edges T) \<Longrightarrow> (i', cs') \<in> set (edges T) \<Longrightarrow> j \<in> set cs \<Longrightarrow> j \<in> set cs' \<Longrightarrow>
    i = i' \<and> j \<noteq> iroot T"
proof (induction T arbitrary: i cs i' cs')
  case (INode k ts)
  have sub: "j \<in> set (nodes t) \<and> j \<noteq> k \<and> j \<noteq> iroot t"
    if "(i'', cs'') \<in> set (edges t)" "t \<in> set ts" "j \<in> set cs''" for i'' cs'' t
    using edge_child[OF that(1,3)] INode.IH[OF that(2) _ that(1) that(1) that(3) that(3)] distinct_nodes_sub[OF INode.prems(1) that(2)] by auto
  have top: "t \<in> set ts \<Longrightarrow> iroot t = j \<Longrightarrow> u \<in> set ts \<Longrightarrow> (i'', cs'') \<in> set (edges u) \<Longrightarrow> j \<in> set cs'' \<Longrightarrow> False"
    for t u i'' cs''
    using sub[of i'' cs'' u] distinct_concat_nodes[of ts t u j] INode.prems(1) iroot_in_nodes[of t] by auto
  have nk: "t \<in> set ts \<Longrightarrow> iroot t \<noteq> k" for t
    using distinct_nodes_sub[OF INode.prems(1), of t] iroot_in_nodes[of t] by metis
  consider "(i, cs) = (k, map iroot ts)" "(i', cs') = (k, map iroot ts)"
    | "(i, cs) = (k, map iroot ts)" "\<exists>u \<in> set ts. (i', cs') \<in> set (edges u)"
    | "(i', cs') = (k, map iroot ts)" "\<exists>u \<in> set ts. (i, cs) \<in> set (edges u)"
    | "\<exists>t \<in> set ts. (i, cs) \<in> set (edges t)" "\<exists>u \<in> set ts. (i', cs') \<in> set (edges u)"
    using INode.prems(2,3) by auto
  then show ?case
  proof cases
    case 1
    then show ?thesis using INode.prems(4) nk by auto
  next
    case 2
    then show ?thesis using INode.prems(4,5) top by auto
  next
    case 3
    then show ?thesis using INode.prems(4,5) top by auto
  next
    case 4
    then obtain t u where tu: "t \<in> set ts" "(i, cs) \<in> set (edges t)" "u \<in> set ts" "(i', cs') \<in> set (edges u)" by auto
    then have "t = u" using distinct_concat_nodes[of ts t u j] sub INode.prems by auto
    then show ?thesis using INode.IH[OF tu(1)] tu distinct_nodes_sub[OF INode.prems(1) tu(1)] INode.prems(4,5)
        sub[OF tu(2,1) INode.prems(4)] by simp
  qed
qed

lemma not_own_child: "distinct (nodes T) \<Longrightarrow> (f, cs) \<in> set (edges T) \<Longrightarrow> f \<notin> set cs"
proof (induction T)
  case (INode k us)
  show ?case
  proof
    assume f: "f \<in> set cs"
    then have "f \<noteq> k" using parent_unique[OF INode.prems(1,2,2) f f] by simp
    then obtain y where "y \<in> set us" "(f, cs) \<in> set (edges y)" using INode.prems(2) by auto
    then show False using INode.IH distinct_nodes_sub[OF INode.prems(1)] f by blast
  qed
qed

lemma mset_nodes_graft:
  "mset (nodes (graft f c T)) = mset (nodes T) + repeat_mset (count (mset (nodes T)) f) (mset (nodes c))"
proof (induction T)
  case (INode i ts)
  then have "mset (concat (map (\<lambda>t. nodes (graft f c t)) ts)) =
      mset (concat (map nodes ts)) + repeat_mset (count (mset (concat (map nodes ts))) f) (mset (nodes c))"
    by (induction ts) (auto simp: left_add_mult_distrib_mset)
  then show ?case by (auto simp: comp_def)
qed

lemma mset_nodes_prune:
  "mset (nodes T) = mset (nodes (prune d T)) + mset (concat (map nodes (subs d T)))"
proof (induction T)
  case (INode i ts)
  then have "mset (concat (map nodes ts)) =
      mset (concat (map (\<lambda>t. nodes (prune d t)) (filter (\<lambda>t. iroot t \<noteq> d) ts))) +
      mset (concat (map nodes (concat (map (\<lambda>t. if iroot t = d then [t] else subs d t) ts))))"
    by (induction ts) auto
  then show ?case by (simp add: comp_def)
qed

lemma edges_graft:
  "(k, cs') \<in> set (edges (graft f c T)) \<Longrightarrow>
     (\<exists>cs. (k, cs) \<in> set (edges T) \<and> cs' = (if k = f then iroot c # cs else cs)) \<or> (k, cs') \<in> set (edges c)"
proof (induction T)
  case (INode i ts)
  have m: "map iroot (map (graft f c) ts) = map iroot ts" by simp
  consider "k = i" "cs' = (if i = f then iroot c # map iroot ts else map iroot ts)"
    | "(k, cs') \<in> set (edges c)" | t where "t \<in> set ts" "(k, cs') \<in> set (edges (graft f c t))"
    using INode.prems m by (auto split: if_splits)
  then show ?case
  proof cases
    case 1
    then show ?thesis by (intro disjI1 exI[of _ "map iroot ts"]) simp
  next
    case 2
    then show ?thesis by blast
  next
    case (3 t)
    then show ?thesis using INode.IH[OF 3] by auto
  qed
qed

lemma edges_prune:
  "set (edges (prune d T)) \<subseteq> (\<lambda>(i, cs). (i, filter (\<lambda>x. x \<noteq> d) cs)) ` set (edges T)"
proof (induction T)
  case (INode i ts)
  have "set (edges (prune d t)) \<subseteq> (\<lambda>(i, cs). (i, filter (\<lambda>x. x \<noteq> d) cs)) ` set (edges (INode i ts))"
    if "t \<in> set ts" for t
    using INode.IH[OF that] that by fastforce
  moreover have "map iroot (map (prune d) (filter (\<lambda>t. iroot t \<noteq> d) ts)) = filter (\<lambda>x. x \<noteq> d) (map iroot ts)"
    by (simp add: filter_map comp_def)
  ultimately show ?case by auto
qed

lemma edges_subs: "t \<in> set (subs d T) \<Longrightarrow> set (edges t) \<subseteq> set (edges T) \<and> iroot t = d"
proof (induction T)
  case (INode i ts)
  then obtain u where "u \<in> set ts" "t = u \<and> iroot u = d \<or> t \<in> set (subs d u)" by (auto split: if_splits)
  then show ?case using INode.IH[of u] by auto
qed

lemma subs_exist: "(i, cs) \<in> set (edges T) \<Longrightarrow> d \<in> set cs \<Longrightarrow> subs d T \<noteq> []"
proof (induction T)
  case (INode k ts)
  then consider "d \<in> set (map iroot ts)" | t where "t \<in> set ts" "(i, cs) \<in> set (edges t)" by auto
  then show ?case
  proof cases
    case 1
    then obtain t where "t \<in> set ts" "iroot t = d" by auto
    then show ?thesis by auto
  next
    case (2 t)
    then have "subs d t \<noteq> []" using INode by blast
    then show ?thesis using 2(1) by (cases "iroot t = d") auto
  qed
qed

lemma subs_single:
  assumes "distinct (nodes T)" "(i, cs) \<in> set (edges T)" "d \<in> set cs"
  shows "\<exists>t. subs d T = [t] \<and> iroot t = d \<and> set (edges t) \<subseteq> set (edges T) \<and>
    mset (nodes T) = mset (nodes (prune d T)) + mset (nodes t)"
proof -
  obtain t us where us: "subs d T = t # us" using subs_exist[OF assms(2,3)] by (cases "subs d T") auto
  have r: "iroot u = d" if "u \<in> set (t # us)" for u using edges_subs[of u d T] us that by simp
  have cnt: "count (mset (nodes T)) d = count (mset (nodes (prune d T))) d + count (mset (concat (map nodes (t # us)))) d"
    using mset_nodes_prune[of T d] us by simp
  have le: "count (mset (nodes T)) d \<le> 1" using assms(1) by (simp add: distinct_count_atmost_1)
  have "us = []"
  proof (rule ccontr)
    assume "us \<noteq> []"
    then obtain u vs where u: "us = u # vs" by (cases us) auto
    have "count (mset (nodes t)) d \<ge> 1" "count (mset (nodes u)) d \<ge> 1"
      using r[of t] r[of u] iroot_in_nodes[of t] iroot_in_nodes[of u] u
      by (simp_all add: Suc_le_eq count_greater_zero_iff del: count_mset)
    moreover have "count (mset (concat (map nodes (t # us)))) d =
        count (mset (nodes t)) d + count (mset (nodes u)) d + count (mset (concat (map nodes vs))) d"
      unfolding u by simp
    ultimately have "2 \<le> count (mset (concat (map nodes (t # us)))) d" by linarith
    then show False using cnt le by linarith
  qed
  then show ?thesis using us edges_subs[of t d T] mset_nodes_prune[of T d] by auto
qed

lemma tree_ok_edge: "tree_ok s T \<Longrightarrow> (i, cs) \<in> set (edges T) \<Longrightarrow> node_ok s i cs"
  by (auto simp: tree_ok_def)

lemma node_edge: "i \<in> set (nodes T) \<Longrightarrow> \<exists>cs. (i, cs) \<in> set (edges T)"
  by (auto simp: nodes_edges)

subsection \<open>Chains of sons\<close>

lemma blist_cong: "(\<And>x. x \<in> set xs \<Longrightarrow> nx' x = nx x) \<Longrightarrow> blist nx' p xs = blist nx p xs"
  by (induction xs arbitrary: p) auto

lemma node_ok_cong:
  assumes "inodes s' i = inodes s i" "\<And>j. j \<in> set cs \<Longrightarrow> bro (inodes s' j) = bro (inodes s j)"
    "\<And>j. j \<in> set cs \<Longrightarrow> filename (inodes s' j) = filename (inodes s j)"
  shows "node_ok s' i cs = node_ok s i cs"
  using assms blist_cong[of cs "\<lambda>j. bro (inodes s' j)" "\<lambda>j. bro (inodes s j)" "son (inodes s i)"]
  unfolding node_ok_def by (auto split: option.splits)

lemma blist_remove:
  assumes "blist nx p (xs @ d # ys)" "distinct (xs @ d # ys)" "xs \<noteq> []"
  shows "blist (nx(last xs := nx d)) p (xs @ ys)"
  using assms
proof (induction xs arbitrary: p)
  case Nil
  then show ?case by simp
next
  case (Cons x xs)
  show ?case
  proof (cases "xs = []")
    case True
    have "blist (nx(x := nx d)) q ys = blist nx q ys" for q
      using Cons.prems(2) by (intro blist_cong) auto
    then show ?thesis using Cons.prems(1) True by (simp add: fun_upd_def)
  next
    case False
    have "blist (nx(last xs := nx d)) (nx x) (xs @ ys)" using Cons.prems False by (intro Cons.IH) simp_all
    moreover have "last xs \<noteq> x" using Cons.prems(2) False last_in_set[of xs] by auto
    ultimately show ?thesis using Cons.prems(1) False by (simp add: fun_upd_def)
  qed
qed

section \<open>Taking an inode\<close>

lemma get_free_inode_spec:
  assumes ix: "ix_inv s" and t: "dir_tree s T" and g: "get_free_inode s = (now, s1)"
  shows "now \<notin> set (nodes T)" "distinct (nodes T @ now # free_inode_slab s1)"
    "\<forall>i \<in> set (nodes T @ now # free_inode_slab s1). i < next_addr s1" "clean (inodes s1 now)"
    "\<forall>i. i \<noteq> now \<longrightarrow> inodes s1 i = inodes s i" "ix_inv s1"
    "root s1 = root s" "bitmap s1 = bitmap s" "context_addr s1 = context_addr s" "clock s1 = clock s"
    "index_state.more s1 = index_state.more s" "isize (inodes s1 now) = 0"
proof -
  have "now \<notin> set (nodes T) \<and> distinct (nodes T @ now # free_inode_slab s1) \<and>
    (\<forall>i \<in> set (nodes T @ now # free_inode_slab s1). i < next_addr s1) \<and> clean (inodes s1 now) \<and>
    (\<forall>i. i \<noteq> now \<longrightarrow> inodes s1 i = inodes s i) \<and> ix_inv s1 \<and>
    root s1 = root s \<and> bitmap s1 = bitmap s \<and> context_addr s1 = context_addr s \<and> clock s1 = clock s \<and>
    index_state.more s1 = index_state.more s"
  proof (cases "free_inode_slab s")
    case (Cons x rest)
    then have s1: "now = x" "s1 = s\<lparr>free_inode_slab := rest\<rparr>" using g by (simp_all add: get_free_inode_def)
    have "ix_inv s1" using ix unfolding s1 by (rule ix_inv_frame) simp_all
    then show ?thesis using t Cons by (auto simp: s1 dir_tree_def)
  next
    case Nil
    let ?n = "next_addr s"
    have now: "now = ?n" and s1: "s1 = snd (malloc_inode s)"
      using g Nil by (auto simp: get_free_inode_def malloc_inode_def Let_def)
    have lt: "\<forall>i \<in> set (nodes T). i < ?n" using t by (simp add: dir_tree_def)
    then have cl: "clean (inodes s ?n)" using t unfolding dir_tree_def by blast
    have ino: "inodes s1 = (inodes s)(?n := (inodes s ?n)\<lparr>isDirectories := False, isize := 0, timeLastModified := clock s,
             cnt_id := \<lparr>addr = (\<lambda>_. None), in1addr = Some init_indirect_class1,
               in2addr = Some init_indirect_class2, in3addr = None\<rparr>,
             ctxs := [], filename := [], son_nums := 0, son := None, bro := None\<rparr>)"
      "next_addr s1 = Suc ?n" "free_inode_slab s1 = []" "bitmap s1 = bitmap s" "context_addr s1 = context_addr s"
      "free_cursor s1 = free_cursor s" "root s1 = root s" "clock s1 = clock s" "index_state.more s1 = index_state.more s"
      using Nil by (simp_all add: s1 malloc_inode_def upd_inode_def Let_def)
    have "ix_inv s1" using ix cl by (rule_tac ix_inv_frame[of s]) (auto simp: ino clean_def)
    moreover have "clean (inodes s1 now)" using cl by (simp add: clean_def ino now)
    moreover have "\<forall>i \<in> set (nodes T @ now # free_inode_slab s1). i < next_addr s1"
      using lt by (auto simp: now ino less_SucI)
    ultimately show ?thesis using t lt by (auto simp: dir_tree_def now ino Nil)
  qed
  then show "now \<notin> set (nodes T)" "distinct (nodes T @ now # free_inode_slab s1)"
    "\<forall>i \<in> set (nodes T @ now # free_inode_slab s1). i < next_addr s1" "clean (inodes s1 now)"
    "\<forall>i. i \<noteq> now \<longrightarrow> inodes s1 i = inodes s i" "ix_inv s1"
    "root s1 = root s" "bitmap s1 = bitmap s" "context_addr s1 = context_addr s" "clock s1 = clock s"
    "index_state.more s1 = index_state.more s" "isize (inodes s1 now) = 0"
    by (simp_all add: clean_def)
qed

section \<open>Walking the tree\<close>

lemma node_ok_child:
  assumes "node_ok s i cs" "d_hash (inodes s i) = Some h"
  shows "defaultGet h n = Some j \<longleftrightarrow> j \<in> set cs \<and> filename (inodes s j) = n" "hm_wf h" "isDirectories (inodes s i)"
  using assms by (simp_all add: node_ok_def)

lemma node_ok_dir: "node_ok s i cs \<Longrightarrow> isDirectories (inodes s i) \<longleftrightarrow> (\<exists>h. d_hash (inodes s i) = Some h)"
  by (auto simp: node_ok_def split: option.splits)

lemma node_ok_distinct: "tree_ok s T \<Longrightarrow> distinct (nodes T) \<Longrightarrow> (i, cs) \<in> set (edges T) \<Longrightarrow> distinct cs"
proof (induction T)
  case (INode k ts)
  have sub: "t \<in> set ts \<Longrightarrow> tree_ok s t \<and> distinct (nodes t)" for t
    using INode.prems(1) distinct_nodes_sub[OF INode.prems(2)] by (auto simp: tree_ok_def)
  have "distinct (map iroot ts)" if "distinct (concat (map nodes ts))" for ts
    using that
  proof (induction ts)
    case (Cons t ts)
    have "iroot t \<noteq> iroot u" if "u \<in> set ts" for u
    proof
      assume "iroot t = iroot u"
      then have "iroot u \<in> set (nodes t)" by (metis iroot_in_nodes)
      moreover have "iroot u \<in> set (concat (map nodes ts))" using that by (auto intro!: bexI[of _ u])
      ultimately show False using Cons.prems by auto
    qed
    then show ?case using Cons by auto
  qed simp
  then show ?case using INode sub by auto
qed

lemma walk_nodes:
  assumes "tree_ok s T" "i \<in> set (nodes T)" "walk s i p = Some j"
  shows "j \<in> set (nodes T)"
  using assms(2,3)
proof (induction p arbitrary: i)
  case (Cons n p)
  obtain cs where e: "(i, cs) \<in> set (edges T)" using node_edge[OF Cons.prems(1)] by blast
  from Cons.prems(2) obtain h k where h: "d_hash (inodes s i) = Some h" "defaultGet h n = Some k" "walk s k p = Some j"
    by (auto split: option.splits)
  then have "k \<in> set cs" using node_ok_child(1)[OF tree_ok_edge[OF assms(1) e] h(1)] by blast
  then show ?case using Cons.IH[OF edge_child[OF e]] h(3) by blast
qed simp

text \<open>No path leads to the root of the tree but the empty one, and every inode has one path.\<close>

lemma walk_last:
  assumes "walk s i (p @ [n]) = Some j"
  shows "\<exists>k h. walk s i p = Some k \<and> d_hash (inodes s k) = Some h \<and> defaultGet h n = Some j"
  using assms by (induction p arbitrary: i) (auto split: option.splits)

lemma walk_append: "walk s i (p @ q) = (case walk s i p of None \<Rightarrow> None | Some j \<Rightarrow> walk s j q)"
  by (induction p arbitrary: i) (auto split: option.splits)

lemma walk_parent:
  assumes "tree_ok s T" "i \<in> set (nodes T)" "walk s i (p @ [n]) = Some j"
  shows "\<exists>k cs. walk s i p = Some k \<and> (k, cs) \<in> set (edges T) \<and> j \<in> set cs \<and> filename (inodes s j) = n"
proof -
  from walk_last[OF assms(3)] obtain k h where k: "walk s i p = Some k" "d_hash (inodes s k) = Some h" "defaultGet h n = Some j"
    by blast
  obtain cs where e: "(k, cs) \<in> set (edges T)" using node_edge[OF walk_nodes[OF assms(1,2) k(1)]] by blast
  show ?thesis using k e node_ok_child(1)[OF tree_ok_edge[OF assms(1) e] k(2)] by blast
qed

lemma walk_unique:
  assumes "tree_ok s T" "distinct (nodes T)" "walk s (iroot T) p = Some j" "walk s (iroot T) q = Some j"
  shows "p = q"
  using assms(3,4)
proof (induction p arbitrary: q j rule: rev_induct)
  case Nil
  show ?case
  proof (cases q rule: rev_cases)
    case (snoc q' n)
    have "walk s (iroot T) (q' @ [n]) = Some (iroot T)" using Nil snoc by simp
    from walk_parent[OF assms(1) iroot_in_nodes this] parent_unique[OF assms(2)] show ?thesis by blast
  qed simp
next
  case (snoc n p)
  from walk_parent[OF assms(1) iroot_in_nodes snoc.prems(1)] obtain k cs where
    k: "walk s (iroot T) p = Some k" "(k, cs) \<in> set (edges T)" "j \<in> set cs" "filename (inodes s j) = n" by blast
  show ?case
  proof (cases q rule: rev_cases)
    case Nil
    then show ?thesis using snoc.prems(2) parent_unique[OF assms(2) k(2) k(2) k(3) k(3)] by auto
  next
    case (snoc q' m)
    from walk_parent[OF assms(1) iroot_in_nodes, of q' m j] snoc.prems(2) snoc obtain k' cs' where
      k': "walk s (iroot T) q' = Some k'" "(k', cs') \<in> set (edges T)" "j \<in> set cs'" "filename (inodes s j) = m" by blast
    have "k = k'" using parent_unique[OF assms(2) k(2) k'(2) k(3) k'(3)] by simp
    then show ?thesis using snoc.IH[OF k(1), of q'] k' k(4) snoc by simp
  qed
qed

lemma resolve_walk: "resolve s i p = Inr (Some j) \<longleftrightarrow> walk s i p = Some j"
  by (induction p arbitrary: i) (auto split: option.splits)

section \<open>Adding a son\<close>

text \<open>The state after a new inode \<open>now\<close> was hung below the directory \<open>f\<close> under the name \<open>n\<close>.\<close>

definition child_added ::
  "'a index_state_scheme \<Rightarrow> 'a index_state_scheme \<Rightarrow> inode_id \<Rightarrow> inode_id \<Rightarrow> string \<Rightarrow> 'a index_state_scheme \<Rightarrow> bool" where
  "child_added s s1 f now n s' \<longleftrightarrow>
     (\<forall>i. i \<noteq> now \<and> i \<noteq> f \<longrightarrow> inodes s' i = inodes s i) \<and>
     inodes s' f = (inodes s f)\<lparr>son := Some now, son_nums := son_nums (inodes s f) + 1,
        d_hash := map_option (\<lambda>h. defaultPut h n now) (d_hash (inodes s f))\<rparr> \<and>
     filename (inodes s' now) = n \<and> bro (inodes s' now) = son (inodes s f) \<and> node_ok s' now [] \<and>
     ctxs (inodes s' now) = [] \<and> isize (inodes s' now) = 0 \<and> (\<forall>sl. get_slot (cnt_id (inodes s' now)) sl = None) \<and>
     (\<forall>h m. d_hash (inodes s' now) = Some h \<longrightarrow> defaultGet h m = None) \<and>
     next_addr s' = next_addr s1 \<and> free_inode_slab s' = free_inode_slab s1 \<and> root s' = root s1 \<and>
     bitmap s' = bitmap s1 \<and> context_addr s' = context_addr s1 \<and> free_cursor s' = free_cursor s1 \<and>
     clock s' = clock s1 \<and> index_state.more s' = index_state.more s1"

lemma child_addedD:
  assumes "child_added s s1 f now n s'"
  shows "i \<noteq> now \<Longrightarrow> i \<noteq> f \<Longrightarrow> inodes s' i = inodes s i" "root s' = root s1" "ctxs (inodes s' f) = ctxs (inodes s f)"
    "cnt_id (inodes s' f) = cnt_id (inodes s f)" "isize (inodes s' f) = isize (inodes s f)" "node_ok s' now []"
    "ctxs (inodes s' now) = []" "isize (inodes s' now) = 0" "get_slot (cnt_id (inodes s' now)) sl = None"
  using assms by (simp_all add: child_added_def)

lemma defaultPut_laws:
  assumes "hm_wf h"
  shows "defaultGet (defaultPut h n j) m = (if m = n then Some j else defaultGet h m)" "hm_wf (defaultPut h n j)"
  using assms by (simp_all add: hm.lookup_update hm.invar_update)

definition adding ::
  "'a index_state_scheme \<Rightarrow> 'a index_state_scheme \<Rightarrow> 'a index_state_scheme \<Rightarrow> inode_tree \<Rightarrow> inode_id \<Rightarrow> inode_id \<Rightarrow>
     string \<Rightarrow> inode_id hashMap \<Rightarrow> bool" where
  "adding s s1 s' T f now n h \<longleftrightarrow> ix_inv s \<and> dir_tree s T \<and> get_free_inode s = (now, s1) \<and>
     f \<in> set (nodes T) \<and> d_hash (inodes s f) = Some h \<and> defaultGet h n = None \<and> child_added s s1 f now n s'"

lemma addingD:
  assumes "adding s s1 s' T f now n h"
  shows "ix_inv s" "dir_tree s T" "get_free_inode s = (now, s1)" "f \<in> set (nodes T)"
    "d_hash (inodes s f) = Some h" "defaultGet h n = None" "child_added s s1 f now n s'"
  using assms by (simp_all add: adding_def)

lemma add_node_ok:
  assumes A: "adding s s1 s' T f now n h" and e: "(k, cs) \<in> set (edges T)"
  shows "node_ok s' k (if k = f then now # cs else cs)"
proof -
  note ix = addingD(1)[OF A] and t = addingD(2)[OF A] and g = addingD(3)[OF A] and f = addingD(4)[OF A]
    and h = addingD(5,6)[OF A] and add = addingD(7)[OF A]
  note fi = get_free_inode_spec[OF ix t g]
  have tok: "tree_ok s T" using t by (simp add: dir_tree_def)
  have ne: "now \<noteq> k" "now \<notin> set cs" "now \<noteq> f"
    using fi(1) f edge_child[OF e] nodes_edges[of T] e by force+
  have same: "bro (inodes s' j) = bro (inodes s j)" "filename (inodes s' j) = filename (inodes s j)" if "j \<in> set cs" for j
    using add ne(2) that unfolding child_added_def by (cases "j = f"; auto)+
  show ?thesis
  proof (cases "k = f")
    case False
    then have "inodes s' k = inodes s k" using add ne(1) by (auto simp: child_added_def)
    then show ?thesis using False node_ok_cong[of s' k s cs] same tree_ok_edge[OF tok e] by simp
  next
    case True
    have ok: "node_ok s f cs" using tree_ok_edge[OF tok e] True by simp
    have b: "blist (\<lambda>j. bro (inodes s' j)) p cs = blist (\<lambda>j. bro (inodes s j)) p cs" for p
      using same(1) by (rule blist_cong)
    have wf: "hm_wf h" using node_ok_child(2)[OF ok h(1)] .
    have look: "defaultGet (defaultPut h n now) m = Some j \<longleftrightarrow> j \<in> set (now # cs) \<and> filename (inodes s' j) = m" for m j
      using node_ok_child(1)[OF ok h(1)] h(2) ne(2) same(2) add
      unfolding defaultPut_laws(1)[OF wf] child_added_def by (cases "j = now") (auto, metis option.distinct(1))
    show ?thesis using ok True b look add h(1) wf defaultPut_laws(2)[OF wf]
      unfolding node_ok_def child_added_def by simp
  qed
qed

lemma add_dir_tree:
  assumes A: "adding s s1 s' T f now n h"
  shows "dir_tree s' (graft f (INode now []) T)"
proof -
  note ix = addingD(1)[OF A] and t = addingD(2)[OF A] and g = addingD(3)[OF A] and f = addingD(4)[OF A]
    and h = addingD(5,6)[OF A] and add = addingD(7)[OF A]
  let ?T = "graft f (INode now []) T"
  note fi = get_free_inode_spec[OF ix t g]
  have d: "distinct (nodes T)" using t by (simp add: dir_tree_def)
  have "count (mset (nodes T)) f = 1" using d f by (simp add: distinct_count_atmost_1 count_eq_zero_iff)
  then have m: "mset (nodes ?T) = mset (nodes T @ [now])" by (simp add: mset_nodes_graft)
  then have set: "set (nodes ?T) = insert now (set (nodes T))"
    by (metis mset_eq_setD set_append list.set(1,2) Un_insert_right sup_bot_right)
  have "mset (nodes ?T @ free_inode_slab s') = mset (nodes T @ now # free_inode_slab s1)"
    using m add by (simp add: child_added_def)
  then have dist: "distinct (nodes ?T @ free_inode_slab s')" using fi(2) mset_eq_imp_distinct_iff by blast
  have "node_ok s' k cs" if e: "(k, cs) \<in> set (edges ?T)" for k cs
  proof -
    have new: "node_ok s' now []" by (rule child_addedD(6)[OF add])
    consider cs0 where "(k, cs0) \<in> set (edges T)" "cs = (if k = f then now # cs0 else cs0)" | "k = now" "cs = []"
      using edges_graft[OF e] by auto
    then show ?thesis
    proof cases
      case (1 cs0)
      show ?thesis unfolding 1(2) by (rule add_node_ok[OF A 1(1)])
    qed (simp add: new)
  qed
  then have "tree_ok s' ?T" by (auto simp: tree_ok_def)
  moreover have "isDirectories (inodes s' (root s'))"
    using t fi(1,7) add iroot_in_nodes[of T] by (cases "root s = f") (auto simp: dir_tree_def child_added_def)
  moreover have "clean (inodes s' i)" if "i \<notin> set (nodes ?T)" for i
    using that t f add by (auto simp: set dir_tree_def child_added_def)
  ultimately show ?thesis using dist fi(3,7) t add set by (auto simp: dir_tree_def child_added_def)
qed

lemma add_ix:
  assumes A: "adding s s1 s' T f now n h"
  shows "ix_inv s'"
proof (rule ix_inv_frame)
  note ix = addingD(1)[OF A] and t = addingD(2)[OF A] and g = addingD(3)[OF A] and f = addingD(4)[OF A]
    and h = addingD(5,6)[OF A] and add = addingD(7)[OF A]
  note fi = get_free_inode_spec[OF ix t g]
  show "ix_inv s1" by (rule fi(6))
  show "bitmap s' = bitmap s1" "context_addr s' = context_addr s1" "free_cursor s' = free_cursor s1"
    using add by (simp_all add: child_added_def)
  have ne: "now \<noteq> f" using fi(1) f by auto
  have o: "inodes s' i = inodes s1 i \<or> i = now \<or> i = f" "i = f \<Longrightarrow> inodes s1 i = inodes s i" for i
    using child_addedD(1)[OF add, of i] fi(5) ne by metis+
  show "get_slot (cnt_id (inodes s' i)) = get_slot (cnt_id (inodes s1 i))"
    "ctxs (inodes s' i) = ctxs (inodes s1 i)" "isize (inodes s' i) = isize (inodes s1 i)" for i
  proof -
    have "get_slot (cnt_id (inodes s' i)) = get_slot (cnt_id (inodes s1 i)) \<and>
      ctxs (inodes s' i) = ctxs (inodes s1 i) \<and> isize (inodes s' i) = isize (inodes s1 i)"
    proof (cases "i = now")
      case True
      then show ?thesis using fi(4,12) child_addedD(7-9)[OF add] by (simp add: clean_def fun_eq_iff)
    next
      case False
      then show ?thesis using o[of i] child_addedD(3-5)[OF add] by (cases "i = f") auto
    qed
    then show "get_slot (cnt_id (inodes s' i)) = get_slot (cnt_id (inodes s1 i))"
      "ctxs (inodes s' i) = ctxs (inodes s1 i)" "isize (inodes s' i) = isize (inodes s1 i)" by simp_all
  qed
qed

lemma add_walk:
  assumes A: "adding s s1 s' T f now n h" and i: "i \<in> set (nodes T)"
  shows "walk s' i p = (case walk s i p of Some j \<Rightarrow> Some j
    | None \<Rightarrow> if \<exists>q. p = q @ [n] \<and> walk s i q = Some f then Some now else None)"
  using i
proof (induction p arbitrary: i)
  case (Cons m p)
  note ix = addingD(1)[OF A] and t = addingD(2)[OF A] and g = addingD(3)[OF A] and f = addingD(4)[OF A]
    and h = addingD(5,6)[OF A] and add = addingD(7)[OF A]
  note fi = get_free_inode_spec[OF ix t g]
  have tok: "tree_ok s T" using t by (simp add: dir_tree_def)
  obtain cs where e: "(i, cs) \<in> set (edges T)" using node_edge[OF Cons.prems] by blast
  note ok = tree_ok_edge[OF tok e]
  have ne: "now \<noteq> i" using fi(1) Cons.prems by auto
  have new: "walk s' now r = (if r = [] then Some now else None)" for r
    using add by (cases r) (auto simp: child_added_def split: option.split)
  show ?case
  proof (cases "i = f \<and> m = n")
    case True
    then have "walk s' i (m # p) = walk s' now p"
      using add h node_ok_child(2)[OF ok] by (auto simp: child_added_def defaultPut_laws)
    moreover have "walk s i (m # p) = None" using True h by simp
    moreover have "(\<exists>q. m # p = q @ [n] \<and> walk s i q = Some f) \<longleftrightarrow> p = []"
      using True h by (auto simp: Cons_eq_append_conv)
    ultimately show ?thesis by (simp add: new)
  next
    case False
    show ?thesis
    proof (cases "d_hash (inodes s i)")
      case None
      then have "i \<noteq> f" using h by auto
      then have "inodes s' i = inodes s i" using add ne by (auto simp: child_added_def)
      moreover have "\<not> (\<exists>q. m # p = q @ [n] \<and> walk s i q = Some f)"
        using None \<open>i \<noteq> f\<close> by (auto simp: Cons_eq_append_conv)
      ultimately show ?thesis using None by simp
    next
      case (Some h')
      obtain h'' where h'': "d_hash (inodes s' i) = Some h''" "defaultGet h'' m = defaultGet h' m"
        using Some False add ne h node_ok_child(2)[OF ok Some]
        by (cases "i = f") (auto simp: child_added_def defaultPut_laws)
      have q: "(\<exists>q. m # p = q @ [n] \<and> walk s i q = Some f) \<longleftrightarrow>
          (\<exists>k q. defaultGet h' m = Some k \<and> p = q @ [n] \<and> walk s k q = Some f)"
        using Some False by (auto simp: Cons_eq_append_conv split: option.splits)
      show ?thesis
      proof (cases "defaultGet h' m")
        case None
        then show ?thesis unfolding q using Some h'' by simp
      next
        case (Some k)
        then have "k \<in> set (nodes T)"
          using node_ok_child(1)[OF ok \<open>d_hash (inodes s i) = Some h'\<close>] edge_child[OF e] by blast
        moreover have "(\<exists>q. m # p = q @ [n] \<and> walk s i q = Some f) \<longleftrightarrow> (\<exists>q. p = q @ [n] \<and> walk s k q = Some f)"
          unfolding q using Some by simp
        ultimately show ?thesis using Cons.IH[of k] Some h'' \<open>d_hash (inodes s i) = Some h'\<close>
          by (simp cong: option.case_cong)
      qed
    qed
  qed
qed simp

lemma add_lookup:
  assumes A: "adding s s1 s' T f now n h" and ns: "lookup_path s ns = Some f"
  shows "lookup_path s' p = (if p = ns @ [n] then Some now else lookup_path s p)"
proof -
  note ix = addingD(1)[OF A] and t = addingD(2)[OF A] and g = addingD(3)[OF A] and f = addingD(4)[OF A]
    and h = addingD(5,6)[OF A] and add = addingD(7)[OF A]
  have r: "iroot T = root s" "root s' = root s" "tree_ok s T" "distinct (nodes T)"
    using t child_addedD(2)[OF add] get_free_inode_spec(7)[OF ix t g] by (simp_all add: dir_tree_def)
  have "q = ns" if "walk s (root s) q = Some f" for q
    using walk_unique[OF r(3,4), of q f ns] that ns r(1) by (simp add: lookup_path_def)
  then have "(\<exists>q. p = q @ [n] \<and> walk s (root s) q = Some f) \<longleftrightarrow> p = ns @ [n]"
    using ns unfolding lookup_path_def by blast
  moreover have "walk s (root s) (ns @ [n]) = None" using ns h by (simp add: walk_append lookup_path_def)
  moreover have "root s \<in> set (nodes T)" using iroot_in_nodes[of T] r(1) by simp
  ultimately have "lookup_path s' p = (case walk s (root s) p of Some j \<Rightarrow> Some j
      | None \<Rightarrow> if p = ns @ [n] then Some now else None)"
    using add_walk[OF A, of "root s" p] r(2) unfolding lookup_path_def by (simp only:)
  then show ?thesis using \<open>walk s (root s) (ns @ [n]) = None\<close>
    by (cases "p = ns @ [n]") (simp_all add: lookup_path_def option.case_eq_if)
qed

text \<open>What a successful creation does to the namespace and to the files.\<close>

definition created :: "'a index_state_scheme \<Rightarrow> 'a index_state_scheme \<Rightarrow> string list \<Rightarrow> inode_id \<Rightarrow> bool \<Rightarrow> bool" where
  "created s s' p c isdir \<longleftrightarrow>
     lookup_path s' = (lookup_path s)(p \<mapsto> c) \<and> (\<forall>q. lookup_path s q \<noteq> Some c) \<and>
     isDirectories (inodes s' c) = isdir \<and> isize (inodes s' c) = 0 \<and> (\<forall>n. file_chunk s' c n = None) \<and>
     (\<forall>i. i \<noteq> c \<longrightarrow> isDirectories (inodes s' i) = isDirectories (inodes s i) \<and> isize (inodes s' i) = isize (inodes s i) \<and>
        file_chunk s' i = file_chunk s i) \<and>
     bitmap s' = bitmap s \<and> context_addr s' = context_addr s \<and> index_state.more s' = index_state.more s"

lemma adding_created:
  assumes A: "adding s s1 s' T f now n h" and ns: "lookup_path s ns = Some f"
  shows "dir_inv s' \<and> created s s' (ns @ [n]) now (isDirectories (inodes s' now))"
proof -
  note fi = get_free_inode_spec[OF addingD(1-3)[OF A]]
  note add = addingD(7)[OF A]
  have r: "iroot T = root s" "tree_ok s T" using addingD(2)[OF A] by (simp_all add: dir_tree_def)
  have ne: "now \<noteq> f" using fi(1) addingD(4)[OF A] by auto
  have fresh: "lookup_path s q \<noteq> Some now" for q
    using walk_nodes[OF r(2) iroot_in_nodes, of q now] r(1) fi(1) by (auto simp: lookup_path_def)
  have oth: "isDirectories (inodes s' i) = isDirectories (inodes s i) \<and> isize (inodes s' i) = isize (inodes s i) \<and>
        file_chunk s' i = file_chunk s i" if "i \<noteq> now" for i
    using add that by (cases "i = f") (simp_all add: child_added_def file_chunk_def fun_eq_iff)
  have "lookup_path s' = (lookup_path s)(ns @ [n] \<mapsto> now)"
    using add_lookup[OF A ns] by (simp add: fun_eq_iff)
  moreover have "bitmap s' = bitmap s" "context_addr s' = context_addr s" "index_state.more s' = index_state.more s"
    using add fi(8,9,11) by (simp_all add: child_added_def)
  moreover have "file_chunk s' now m = None" for m using child_addedD(9)[OF add] by (simp add: file_chunk_def)
  ultimately show ?thesis
    using fresh oth child_addedD(8)[OF add] add_ix[OF A] add_dir_tree[OF A] by (auto simp: created_def dir_inv_def)
qed

lemma lookup_snoc:
  assumes "lookup_path s ns = Some f" "d_hash (inodes s f) = Some h"
  shows "lookup_path s (ns @ [n]) = defaultGet h n"
  using assms by (simp add: lookup_path_def walk_append split: option.split)

lemma lookup_node:
  assumes "dir_tree s T" "lookup_path s ns = Some f"
  shows "f \<in> set (nodes T)" "\<exists>cs. (f, cs) \<in> set (edges T) \<and> node_ok s f cs"
proof -
  show f: "f \<in> set (nodes T)"
    using walk_nodes[OF _ iroot_in_nodes, of s T ns f] assms by (simp add: dir_tree_def lookup_path_def)
  show "\<exists>cs. (f, cs) \<in> set (edges T) \<and> node_ok s f cs"
    using node_edge[OF f] assms(1) by (auto simp: dir_tree_def intro: tree_ok_edge)
qed

lemma resolve_lookup: "resolve s (root s) ns = Inr (Some f) \<longleftrightarrow> lookup_path s ns = Some f"
  by (simp add: lookup_path_def resolve_walk)

section \<open>The creating operations\<close>

lemma mkdir_adding:
  assumes "ix_inv s" "dir_tree s T" "f \<in> set (nodes T)" "d_hash (inodes s f) = Some h" "defaultGet h n = None"
    and g: "get_free_inode s = (now, s1)"
    and s2: "s2 = upd_inode s1 now (\<lambda>d. d\<lparr>isDirectories := True, d_hash := Some (createHashMap (-1)), filename := n\<rparr>)"
    and s3: "s3 = add_to_father s2 f now"
    and s4: "s4 = upd_inode s3 f (\<lambda>d. d\<lparr>d_hash := map_option (\<lambda>h. defaultPut h (filename (inodes s3 now)) now) (d_hash d)\<rparr>)"
  shows "adding s s1 s4 T f now n h \<and> isDirectories (inodes s4 now)"
proof -
  note fi = get_free_inode_spec[OF assms(1,2) g]
  have ne: "now \<noteq> f" using fi(1) assms(3) by auto
  have f1: "inodes s1 f = inodes s f" using fi(5) ne by simp
  have e: "defaultGet (createHashMap (-1) :: inode_id hashMap) m = None" for m :: string
    using createHashMap_ok(1,2) defaultGet_eq[OF hm_wf_ok] by metis
  have n: "inodes s4 now = (inodes s1 now)\<lparr>isDirectories := True, d_hash := Some (createHashMap (-1)), filename := n,
      bro := son (inodes s f)\<rparr>"
    using ne f1 by (simp add: s4 s3 s2 add_to_father_def Let_def)
  have "child_added s s1 f now n s4"
    unfolding child_added_def n
    using ne f1 fi(4,5) e createHashMap_ok(1)
    by (simp add: s4 s3 s2 add_to_father_def Let_def clean_def node_ok_def) (simp add: upd_inode_def)
  then show ?thesis using assms(1-5) g n by (simp add: adding_def)
qed

lemma mknod_adding:
  assumes "ix_inv s" "dir_tree s T" "f \<in> set (nodes T)" "d_hash (inodes s f) = Some h" "defaultGet h n = None"
    and g: "get_free_inode s = (now, s1)"
    and s2: "s2 = upd_inode s1 now (\<lambda>d. d\<lparr>filename := n\<rparr>)"
    and s3: "s3 = upd_inode s2 f (\<lambda>d. d\<lparr>d_hash := map_option (\<lambda>h. defaultPut h (filename (inodes s2 now)) now) (d_hash d)\<rparr>)"
    and s4: "s4 = add_to_father s3 f now"
  shows "adding s s1 s4 T f now n h \<and> \<not> isDirectories (inodes s4 now)"
proof -
  note fi = get_free_inode_spec[OF assms(1,2) g]
  have ne: "now \<noteq> f" using fi(1) assms(3) by auto
  have f1: "inodes s1 f = inodes s f" using fi(5) ne by simp
  have n: "inodes s4 now = (inodes s1 now)\<lparr>filename := n, bro := son (inodes s f)\<rparr>"
    using ne f1 by (simp add: s4 s3 s2 add_to_father_def Let_def)
  have "child_added s s1 f now n s4"
    unfolding child_added_def n
    using ne f1 fi(4,5)
    by (simp add: s4 s3 s2 add_to_father_def Let_def clean_def node_ok_def) (cases "inodes s f"; simp add: upd_inode_def)
  then show ?thesis using assms(1-5) g n fi(4) by (simp add: adding_def clean_def)
qed

text \<open>A name that can be created: every component valid, the whole path within the buffers.\<close>

definition valid_path :: "string list \<Rightarrow> string \<Rightarrow> bool" where
  "valid_path ns n \<longleftrightarrow> (\<forall>m \<in> set ns. valid_name m) \<and> valid_name n \<and> length (path_of (ns @ [n])) \<le> FILE_NAME_LEN"

lemma valid_pathD:
  assumes "valid_path ns n"
  shows "deal (path_of (ns @ [n])) = Inr (path_of ns @ ''/'', n)"
    "search_d_hash s (path_of ns @ ''/'') = resolve s (root s) ns" "length (path_of (ns @ [n])) \<noteq> 1"
    "search_d_hash s (path_of (ns @ [n])) = resolve s (root s) (ns @ [n])"
proof -
  show "deal (path_of (ns @ [n])) = Inr (path_of ns @ ''/'', n)"
    using assms by (intro deal_path) (auto simp: valid_path_def)
  show "search_d_hash s (path_of ns @ ''/'') = resolve s (root s) ns"
    using assms by (intro search_path) (auto simp: valid_path_def)
  show "length (path_of (ns @ [n])) \<noteq> 1" using assms by (simp add: valid_path_def valid_name_def)
  show "search_d_hash s (path_of (ns @ [n])) = resolve s (root s) (ns @ [n])"
    using assms by (intro search_path) (auto simp: valid_path_def)
qed

lemma mkdir_spec:
  assumes inv: "dir_inv s" and v: "valid_path ns n"
  shows "case resolve s (root s) ns of
      Inl e \<Rightarrow> dhmpCreateDirectory s (path_of (ns @ [n])) = Inl e
    | Inr None \<Rightarrow> dhmpCreateDirectory s (path_of (ns @ [n])) = Inr (s, -1)
    | Inr (Some f) \<Rightarrow>
        if \<not> isDirectories (inodes s f) \<or> lookup_path s (ns @ [n]) \<noteq> None
        then dhmpCreateDirectory s (path_of (ns @ [n])) = Inr (s, -1)
        else \<exists>s' c. dhmpCreateDirectory s (path_of (ns @ [n])) = Inr (s', 1) \<and> dir_inv s' \<and> created s s' (ns @ [n]) c True"
proof -
  note vd = valid_pathD[OF v]
  have eq: "dhmpCreateDirectory s (path_of (ns @ [n])) = rbind (resolve s (root s) ns) (\<lambda>father_opt.
          case father_opt of
            None \<Rightarrow> Inr (s, -1)
          | Some father \<Rightarrow>
              if \<not> isDirectories (inodes s father) then Inr (s, -1)
              else
                (case d_hash (inodes s father) of
                   None \<Rightarrow> Inl Wild_deref
                 | Some h \<Rightarrow>
                     if defaultGet h n \<noteq> None then Inr (s, -1)
                     else
                       let (now, s1) = get_free_inode s;
                           s2 = upd_inode s1 now (\<lambda>d. d\<lparr>isDirectories := True, d_hash := Some (createHashMap (-1)),
                                  filename := n\<rparr>);
                           s3 = add_to_father s2 father now;
                           s4 = upd_inode s3 father (\<lambda>d. d\<lparr>d_hash :=
                                  map_option (\<lambda>h. defaultPut h (filename (inodes s3 now)) now) (d_hash d)\<rparr>)
                       in Inr (s4, 1)))"
    by (simp only: dhmpCreateDirectory_def vd(1,2,3) if_False rbind_Inr prod.case)
  show ?thesis
  proof (cases "resolve s (root s) ns")
    case (Inr fo)
    show ?thesis
    proof (cases fo)
      case (Some f)
      then have lf: "lookup_path s ns = Some f" using Inr by (simp add: resolve_lookup[symmetric])
      from inv obtain T where T: "ix_inv s" "dir_tree s T" by (auto simp: dir_inv_def)
      obtain cs where ok: "node_ok s f cs" using lookup_node(2)[OF T(2) lf] by blast
      show ?thesis
      proof (cases "isDirectories (inodes s f)")
        case True
        then obtain h where h: "d_hash (inodes s f) = Some h" using node_ok_dir[OF ok] by blast
        note sn = lookup_snoc[OF lf h, of n]
        obtain now s1 where g: "get_free_inode s = (now, s1)" by fastforce
        show ?thesis
        proof (cases "defaultGet h n")
          case None
          note ma = mkdir_adding[OF T lookup_node(1)[OF T(2) lf] h None g refl refl refl]
          show ?thesis using adding_created[OF conjunct1[OF ma] lf] conjunct2[OF ma] Inr Some True h None sn
            unfolding eq g by (auto simp: Let_def)
        qed (use Inr Some True h sn in \<open>unfold eq, simp\<close>)
      qed (use Inr Some in \<open>unfold eq, simp\<close>)
    qed (use Inr in \<open>unfold eq, simp\<close>)
  qed (unfold eq, simp)
qed

lemma mknod_spec:
  assumes inv: "dir_inv s" and v: "valid_path ns n"
  shows "case resolve s (root s) ns of
      Inl e \<Rightarrow> dhmpMknod s (path_of (ns @ [n])) = Inl e
    | Inr None \<Rightarrow> dhmpMknod s (path_of (ns @ [n])) = Inr (s, -1)
    | Inr (Some f) \<Rightarrow>
        if \<not> isDirectories (inodes s f) then dhmpMknod s (path_of (ns @ [n])) = Inl Wild_deref
        else if lookup_path s (ns @ [n]) \<noteq> None then dhmpMknod s (path_of (ns @ [n])) = Inr (s, -1)
        else \<exists>s' c. dhmpMknod s (path_of (ns @ [n])) = Inr (s', 1) \<and> dir_inv s' \<and> created s s' (ns @ [n]) c False"
proof -
  note vd = valid_pathD[OF v]
  have eq: "dhmpMknod s (path_of (ns @ [n])) = rbind (resolve s (root s) ns) (\<lambda>father_opt.
          case father_opt of
            None \<Rightarrow> Inr (s, -1)
          | Some father \<Rightarrow>
              (case d_hash (inodes s father) of
                 None \<Rightarrow> Inl Wild_deref
               | Some h \<Rightarrow>
                   if defaultGet h n \<noteq> None then Inr (s, -1)
                   else
                     let (now, s1) = get_free_inode s;
                         s2 = upd_inode s1 now (\<lambda>d. d\<lparr>filename := n\<rparr>);
                         s3 = upd_inode s2 father (\<lambda>d. d\<lparr>d_hash :=
                                map_option (\<lambda>h. defaultPut h (filename (inodes s2 now)) now) (d_hash d)\<rparr>);
                         s4 = add_to_father s3 father now
                     in Inr (s4, 1)))"
    by (simp only: dhmpMknod_def vd(1,2,3) if_False rbind_Inr prod.case)
  show ?thesis
  proof (cases "resolve s (root s) ns")
    case (Inr fo)
    show ?thesis
    proof (cases fo)
      case (Some f)
      then have lf: "lookup_path s ns = Some f" using Inr by (simp add: resolve_lookup[symmetric])
      from inv obtain T where T: "ix_inv s" "dir_tree s T" by (auto simp: dir_inv_def)
      obtain cs where ok: "node_ok s f cs" using lookup_node(2)[OF T(2) lf] by blast
      show ?thesis
      proof (cases "isDirectories (inodes s f)")
        case True
        then obtain h where h: "d_hash (inodes s f) = Some h" using node_ok_dir[OF ok] by blast
        note sn = lookup_snoc[OF lf h, of n]
        obtain now s1 where g: "get_free_inode s = (now, s1)" by fastforce
        show ?thesis
        proof (cases "defaultGet h n")
          case None
          note ma = mknod_adding[OF T lookup_node(1)[OF T(2) lf] h None g refl refl refl]
          show ?thesis using adding_created[OF conjunct1[OF ma] lf] conjunct2[OF ma] Inr Some True h None sn
            unfolding eq g by (auto simp: Let_def)
        qed (use Inr Some True h sn in \<open>unfold eq, simp\<close>)
      next
        case False
        then have "d_hash (inodes s f) = None" using node_ok_dir[OF ok] by (cases "d_hash (inodes s f)") auto
        then show ?thesis using Inr Some False by (unfold eq) simp
      qed
    qed (use Inr in \<open>unfold eq, simp\<close>)
  qed (unfold eq, simp)
qed

section \<open>Resetting whole subtrees\<close>

text \<open>The state after exactly the inodes of \<open>ns\<close> were reset.\<close>

definition reset_all :: "'a index_state_scheme \<Rightarrow> 'a index_state_scheme \<Rightarrow> inode_id list \<Rightarrow> bool" where
  "reset_all s s' ns \<longleftrightarrow> ix_inv s' \<and> (\<forall>i. i \<notin> set ns \<longrightarrow> inodes s' i = inodes s i) \<and> (\<forall>i \<in> set ns. clean (inodes s' i)) \<and>
     (\<exists>xs. free_inode_slab s' = free_inode_slab s @ xs \<and> mset xs = mset ns) \<and>
     (\<forall>c. bitmap s' c \<longleftrightarrow> bitmap s c \<and> (\<forall>i \<in> set ns. c \<notin> set (ctxs (inodes s i)))) \<and>
     (\<forall>c. (\<forall>i \<in> set ns. c \<notin> set (ctxs (inodes s i))) \<longrightarrow> context_addr s' c = context_addr s c) \<and>
     next_addr s' = next_addr s \<and> root s' = root s \<and> clock s' = clock s \<and> index_state.more s' = index_state.more s"

lemma reset_all_Nil: "ix_inv s \<Longrightarrow> reset_all s s []"
  by (simp add: reset_all_def)

lemma reset_all_trans:
  assumes "reset_all s s1 xs" "reset_all s1 s2 ys" "set xs \<inter> set ys = {}"
  shows "reset_all s s2 (xs @ ys)"
proof -
  have e: "inodes s1 i = inodes s i" if "i \<in> set ys" for i using assms that by (auto simp: reset_all_def)
  have c: "clean (inodes s2 i)" if "i \<in> set (xs @ ys)" for i
    using assms that unfolding reset_all_def by (cases "i \<in> set ys") auto
  have "\<exists>zs. free_inode_slab s2 = free_inode_slab s @ zs \<and> mset zs = mset (xs @ ys)"
    using assms(1,2) unfolding reset_all_def by (metis append.assoc mset_append)
  then show ?thesis using assms(1,2) e c unfolding reset_all_def by auto
qed

lemma reset_all_one:
  assumes "ix_inv s" "isDirectories (inodes s i) \<longleftrightarrow> d_hash (inodes s i) \<noteq> None" "0 \<le> son_nums (inodes s i)"
  shows "\<exists>s'. reset_indoe s (Some i) = Inr s' \<and> reset_all s s' [i]"
proof -
  have h: "(if isDirectories (inodes s i) then None else d_hash (inodes s i)) = None" using assms(2) by auto
  from reset_indoe_spec[OF assms(1), of i] assms(2) show ?thesis
    unfolding h using assms(3) by (fastforce simp: reset_all_def clean_def)
qed

lemma node_ok_reset:
  "node_ok s i cs \<Longrightarrow> (isDirectories (inodes s i) \<longleftrightarrow> d_hash (inodes s i) \<noteq> None) \<and> 0 \<le> son_nums (inodes s i)"
  by (auto simp: node_ok_def split: option.splits)

lemma tree_ok_reset:
  assumes "reset_all s s' xs" "tree_ok s t" "set (nodes t) \<inter> set xs = {}"
  shows "tree_ok s' t"
  unfolding tree_ok_def
proof (intro ballI, clarify)
  fix k cs assume e: "(k, cs) \<in> set (edges t)"
  have eq: "inodes s' i = inodes s i" if "i \<in> set (nodes t)" for i
    using assms(1,3) that by (auto simp: reset_all_def)
  have "k \<in> set (nodes t)" using e nodes_edges[of t] by force
  then show "node_ok s' k cs"
    using node_ok_cong[of s' k s cs] eq edge_child[OF e] tree_ok_edge[OF assms(2) e] by simp
qed

lemma tree_ok_sub: "tree_ok s (INode i ts) \<Longrightarrow> t \<in> set ts \<Longrightarrow> tree_ok s t"
  by (auto simp: tree_ok_def)

text \<open>The loop of \<open>dhmpDeleteALL\<close> resets the whole forest, with one unit of fuel per inode.\<close>

lemma delete_forest:
  assumes "ix_inv s" "blist (\<lambda>j. bro (inodes s j)) p (map iroot ts)" "\<forall>t \<in> set ts. tree_ok s t"
    "distinct (concat (map nodes ts))" "length (concat (map nodes ts)) < n"
  shows "\<exists>s' ns. delete_loop n s p = Inr s' \<and> reset_all s s' ns \<and> mset ns = mset (concat (map nodes ts))"
  using assms
proof (induction n arbitrary: s p ts)
  case 0
  then show ?case by simp
next
  case (Suc n)
  show ?case
  proof (cases ts)
    case Nil
    then show ?thesis using Suc.prems reset_all_Nil by (intro exI[of _ s] exI[of _ "[]"]) simp
  next
    case (Cons t ts')
    obtain i us where t: "t = INode i us" by (cases t)
    have p: "p = Some i" and chain: "blist (\<lambda>j. bro (inodes s j)) (bro (inodes s i)) (map iroot ts')"
      using Suc.prems(2) by (simp_all add: Cons t)
    have ok: "node_ok s i (map iroot us)" using Suc.prems(3) by (auto simp: Cons t tree_ok_def)
    have tus: "\<forall>u \<in> set us. tree_ok s u" using Suc.prems(3) tree_ok_sub by (auto simp: Cons t)
    have dist: "distinct (concat (map nodes us))" "i \<notin> set (concat (map nodes us))"
      "distinct (concat (map nodes ts'))" "set (nodes t) \<inter> set (concat (map nodes ts')) = {}"
      using Suc.prems(4) by (simp_all add: Cons t)
    have len: "length (concat (map nodes us)) < n" "length (concat (map nodes ts')) < n"
      using Suc.prems(5) by (simp_all add: Cons t)
    let ?sub = "if isDirectories (inodes s i) \<and> son_nums (inodes s i) \<noteq> 0 then delete_loop n s (son (inodes s i)) else Inr s"
    have "\<exists>s1 ms. ?sub = Inr s1 \<and> reset_all s s1 ms \<and> mset ms = mset (concat (map nodes us))"
    proof (cases "isDirectories (inodes s i) \<and> son_nums (inodes s i) \<noteq> 0")
      case True
      have "blist (\<lambda>j. bro (inodes s j)) (son (inodes s i)) (map iroot us)" using ok by (simp add: node_ok_def)
      from Suc.IH[OF Suc.prems(1) this tus dist(1) len(1)] True show ?thesis by simp
    next
      case False
      then have "us = []" using ok by (auto simp: node_ok_def split: option.splits)
      then show ?thesis using False Suc.prems(1) reset_all_Nil by (intro exI[of _ s] exI[of _ "[]"]) auto
    qed
    then obtain s1 ms where s1: "?sub = Inr s1" "reset_all s s1 ms" "mset ms = mset (concat (map nodes us))" by blast
    have sms: "set ms = set (concat (map nodes us))" using s1(3) mset_eq_setD by blast
    have i1: "inodes s1 i = inodes s i" and ix1: "ix_inv s1" using s1(2) dist(2) sms by (auto simp: reset_all_def)
    obtain s2 where s2: "reset_indoe s1 (Some i) = Inr s2" "reset_all s1 s2 [i]"
      using reset_all_one[OF ix1, of i] node_ok_reset[OF ok] unfolding i1 by blast
    have r2: "reset_all s s2 (ms @ [i])"
      using reset_all_trans[OF s1(2) s2(2)] dist(2) sms by auto
    have sms2: "set (ms @ [i]) = set (nodes t)" using sms t by auto
    have keep: "inodes s2 j = inodes s j" if "j \<in> set (concat (map nodes ts'))" for j
    proof -
      have "j \<notin> set (ms @ [i])" using that dist(4) unfolding sms2 by blast
      then show ?thesis using r2 by (simp add: reset_all_def)
    qed
    have "blist (\<lambda>j. bro (inodes s2 j)) (bro (inodes s1 i)) (map iroot ts')"
    proof -
      have "inodes s2 (iroot u) = inodes s (iroot u)" if "u \<in> set ts'" for u
        using that iroot_in_nodes[of u] by (intro keep) (auto simp del: iroot_in_nodes)
      then have "blist (\<lambda>j. bro (inodes s2 j)) (bro (inodes s i)) (map iroot ts') =
          blist (\<lambda>j. bro (inodes s j)) (bro (inodes s i)) (map iroot ts')"
        by (intro blist_cong) auto
      then show ?thesis using chain i1 by simp
    qed
    moreover have "\<forall>u \<in> set ts'. tree_ok s2 u"
    proof
      fix u assume u: "u \<in> set ts'"
      then have "set (nodes u) \<inter> set (ms @ [i]) = {}" using dist(4) unfolding sms2 by auto
      then show "tree_ok s2 u" using tree_ok_reset[OF r2] Suc.prems(3) u unfolding Cons by simp
    qed
    moreover have "ix_inv s2" using r2 by (simp add: reset_all_def)
    ultimately obtain s' ns where s': "delete_loop n s2 (bro (inodes s1 i)) = Inr s'" "reset_all s2 s' ns"
      "mset ns = mset (concat (map nodes ts'))" using Suc.IH[OF _ _ _ dist(3) len(2)] by blast
    have "set ns = set (concat (map nodes ts'))" using s'(3) mset_eq_setD by blast
    then have "reset_all s s' ((ms @ [i]) @ ns)" using reset_all_trans[OF r2 s'(2)] dist(4) sms2 by auto
    moreover have "delete_loop (Suc n) s p = Inr s'"
      using s1(1) s2(1) s'(1) unfolding p delete_loop.simps by (simp add: Let_def)
    moreover have "mset ((ms @ [i]) @ ns) = mset (concat (map nodes ts))" using s1(3) s'(3) by (simp add: Cons t)
    ultimately show ?thesis by blast
  qed
qed

section \<open>Taking a son off its father\<close>

lemma del_scan_spec:
  assumes "blist (\<lambda>j. bro (inodes s j)) p (zs @ d # ys)" "d \<notin> set zs" "length zs < n"
  shows "del_scan n s f d b p = Inr (upd_inode (upd_inode s (last (b # zs)) (\<lambda>x. x\<lparr>bro := bro (inodes s d)\<rparr>)) f
           (\<lambda>x. x\<lparr>son_nums := son_nums x - 1\<rparr>))"
  using assms
proof (induction zs arbitrary: n b p)
  case Nil
  then obtain m where "n = Suc m" by (cases n) auto
  then show ?case using Nil by simp
next
  case (Cons z zs)
  then obtain m where n: "n = Suc m" by (cases n) auto
  have "del_scan m s f d z (bro (inodes s z)) = Inr (upd_inode (upd_inode s (last (z # zs)) (\<lambda>x. x\<lparr>bro := bro (inodes s d)\<rparr>)) f
           (\<lambda>x. x\<lparr>son_nums := son_nums x - 1\<rparr>))"
    using Cons.prems n by (intro Cons.IH) auto
  then show ?case using Cons.prems n by simp
qed

definition detached :: "'a index_state_scheme \<Rightarrow> 'a index_state_scheme \<Rightarrow> inode_id \<Rightarrow> inode_id \<Rightarrow> inode_id list \<Rightarrow> bool" where
  "detached s s1 f d cs \<longleftrightarrow>
     (\<forall>i. inodes s1 i = (inodes s i)\<lparr>bro := bro (inodes s1 i), son := son (inodes s1 i), son_nums := son_nums (inodes s1 i)\<rparr>) \<and>
     (\<forall>i. i \<noteq> f \<longrightarrow> son (inodes s1 i) = son (inodes s i) \<and> son_nums (inodes s1 i) = son_nums (inodes s i)) \<and>
     (\<forall>i. i \<notin> set cs \<longrightarrow> bro (inodes s1 i) = bro (inodes s i)) \<and>
     blist (\<lambda>j. bro (inodes s1 j)) (son (inodes s1 f)) (filter (\<lambda>x. x \<noteq> d) cs) \<and>
     son_nums (inodes s1 f) = son_nums (inodes s f) - 1 \<and> s1 = s\<lparr>inodes := inodes s1\<rparr>"

lemma bounded_distinct_length:
  assumes "distinct xs" "\<forall>x \<in> set xs. x < (b :: nat)"
  shows "length xs \<le> b"
proof -
  have "card (set xs) \<le> card {..< b}" using assms(2) by (intro card_mono) auto
  then show ?thesis using distinct_card[OF assms(1)] by simp
qed

lemma filter_remove: "distinct (xs @ d # ys) \<Longrightarrow> filter (\<lambda>x. x \<noteq> d) (xs @ d # ys) = xs @ ys"
proof -
  have "filter (\<lambda>x. x \<noteq> d) zs = zs" if "d \<notin> set zs" for zs using that by (induction zs) auto
  then show "distinct (xs @ d # ys) \<Longrightarrow> filter (\<lambda>x. x \<noteq> d) (xs @ d # ys) = xs @ ys" by simp
qed

lemma del_from_father_spec:
  assumes c: "blist (\<lambda>j. bro (inodes s j)) (son (inodes s f)) cs" "distinct cs" "d \<in> set cs" "f \<notin> set cs"
    and len: "length cs \<le> next_addr s"
  shows "\<exists>s1. del_from_father s f d = Inr s1 \<and> detached s s1 f d cs"
proof -
  obtain xs ys where cs: "cs = xs @ d # ys" using c(3) by (meson split_list)
  have fil: "filter (\<lambda>x. x \<noteq> d) cs = xs @ ys" using c(2) unfolding cs by (rule filter_remove)
  show ?thesis
  proof (cases xs)
    case Nil
    let ?s1 = "upd_inode s f (\<lambda>x. x\<lparr>son := bro (inodes s d), son_nums := son_nums x - 1\<rparr>)"
    have "del_from_father s f d = Inr ?s1" using c(1) by (simp add: del_from_father_def cs Nil)
    moreover have "blist (\<lambda>j. bro (inodes ?s1 j)) (bro (inodes s d)) ys = blist (\<lambda>j. bro (inodes s j)) (bro (inodes s d)) ys"
      using c(4) by (intro blist_cong) (auto simp: cs)
    moreover have "blist (\<lambda>j. bro (inodes s j)) (bro (inodes s d)) ys" using c(1) by (simp add: cs Nil)
    ultimately show ?thesis by (intro exI[of _ ?s1]) (simp add: detached_def fil Nil upd_inode_def)
  next
    case (Cons x zs)
    let ?b = "last xs"
    let ?s1 = "upd_inode (upd_inode s ?b (\<lambda>x. x\<lparr>bro := bro (inodes s d)\<rparr>)) f (\<lambda>x. x\<lparr>son_nums := son_nums x - 1\<rparr>)"
    have b: "?b \<in> set xs" "?b \<noteq> f" using c(4) last_in_set[of xs] Cons by (auto simp: cs)
    have "x \<noteq> d" "d \<notin> set zs" using c(2) by (auto simp: cs Cons)
    moreover have "blist (\<lambda>j. bro (inodes s j)) (bro (inodes s x)) (zs @ d # ys)" "son (inodes s f) = Some x"
      using c(1) by (simp_all add: cs Cons)
    moreover have "length zs < Suc (next_addr s)" using len by (simp add: cs Cons)
    ultimately have r: "del_from_father s f d = Inr ?s1"
      using del_scan_spec[of s "bro (inodes s x)" zs d ys "Suc (next_addr s)" f x]
      by (simp add: del_from_father_def Cons del: del_scan.simps)
    have fn: "(\<lambda>j. bro (inodes ?s1 j)) = (\<lambda>j. bro (inodes s j))(?b := bro (inodes s d))"
      using b by (auto simp: fun_eq_iff)
    have "blist (\<lambda>j. bro (inodes ?s1 j)) (son (inodes s f)) (xs @ ys)"
      unfolding fn using c(1,2) Cons unfolding cs by (intro blist_remove) auto
    moreover have "son (inodes ?s1 f) = son (inodes s f)" using b(2) by simp
    moreover have "\<forall>i. inodes ?s1 i = (inodes s i)\<lparr>bro := bro (inodes ?s1 i), son := son (inodes ?s1 i), son_nums := son_nums (inodes ?s1 i)\<rparr>"
      using b(2) by simp
    moreover have "i \<notin> set cs \<Longrightarrow> bro (inodes ?s1 i) = bro (inodes s i)" for i using b by (auto simp: cs)
    ultimately have "detached s ?s1 f d cs" unfolding detached_def fil using b(2) by (simp add: upd_inode_def)
    then show ?thesis using r by blast
  qed
qed

lemma node_ok_cong':
  assumes "node_ok s i cs" "son (inodes s' i) = son (inodes s i)" "son_nums (inodes s' i) = son_nums (inodes s i)"
    "d_hash (inodes s' i) = d_hash (inodes s i)" "isDirectories (inodes s' i) = isDirectories (inodes s i)"
    "\<And>j. j \<in> set cs \<Longrightarrow> bro (inodes s' j) = bro (inodes s j)" "\<And>j. j \<in> set cs \<Longrightarrow> filename (inodes s' j) = filename (inodes s j)"
  shows "node_ok s' i cs"
proof -
  have "blist (\<lambda>j. bro (inodes s' j)) p cs = blist (\<lambda>j. bro (inodes s j)) p cs" for p
    using assms(6) by (rule blist_cong)
  moreover have "j \<in> set cs \<and> filename (inodes s' j) = m \<longleftrightarrow> j \<in> set cs \<and> filename (inodes s j) = m" for j m
    using assms(7) by auto
  ultimately show ?thesis using assms(1-5) unfolding node_ok_def by (simp split: option.splits)
qed

text \<open>A state in which \<open>d\<close>, the son of \<open>f\<close> named \<open>n\<close>, was taken off the chain and the table of \<open>f\<close>.\<close>

definition unlinked :: "'a index_state_scheme \<Rightarrow> 'a index_state_scheme \<Rightarrow> inode_tree \<Rightarrow> inode_id \<Rightarrow> inode_id list \<Rightarrow>
    inode_id \<Rightarrow> string \<Rightarrow> inode_id hashMap \<Rightarrow> bool" where
  "unlinked s s2 T f cs d n h \<longleftrightarrow> ix_inv s \<and> dir_tree s T \<and> (f, cs) \<in> set (edges T) \<and> d_hash (inodes s f) = Some h \<and>
     defaultGet h n = Some d \<and>
     (\<exists>s1. detached s s1 f d cs \<and> s2 = upd_inode s1 f (\<lambda>x. x\<lparr>d_hash := Some (fst (defaultRemove h n))\<rparr>))"

lemma unlinkedD:
  assumes "unlinked s s2 T f cs d n h"
  shows "ix_inv s" "dir_tree s T" "(f, cs) \<in> set (edges T)" "d_hash (inodes s f) = Some h" "defaultGet h n = Some d"
    "tree_ok s T" "distinct (nodes T)" "hm_wf h" "node_ok s f cs" "d \<in> set cs" "filename (inodes s d) = n" "distinct cs"
    "f \<notin> set cs"
proof -
  show u: "ix_inv s" "dir_tree s T" "(f, cs) \<in> set (edges T)" "d_hash (inodes s f) = Some h" "defaultGet h n = Some d"
    using assms by (simp_all add: unlinked_def)
  show t: "tree_ok s T" "distinct (nodes T)" using u(2) by (simp_all add: dir_tree_def)
  show ok: "node_ok s f cs" by (rule tree_ok_edge[OF t(1) u(3)])
  show "hm_wf h" "d \<in> set cs" "filename (inodes s d) = n" using node_ok_child[OF ok u(4)] u(5) by blast+
  show "distinct cs" by (rule node_ok_distinct[OF t u(3)])
  show "f \<notin> set cs" by (rule not_own_child[OF t(2) u(3)])
qed

lemma unlinked_inodes:
  assumes "unlinked s s2 T f cs d n h"
  shows "isDirectories (inodes s2 i) = isDirectories (inodes s i)" "filename (inodes s2 i) = filename (inodes s i)"
    "ctxs (inodes s2 i) = ctxs (inodes s i)" "isize (inodes s2 i) = isize (inodes s i)" "cnt_id (inodes s2 i) = cnt_id (inodes s i)"
    "d_hash (inodes s2 i) = (if i = f then Some (fst (defaultRemove h n)) else d_hash (inodes s i))"
    "i \<noteq> f \<Longrightarrow> son (inodes s2 i) = son (inodes s i)" "i \<noteq> f \<Longrightarrow> son_nums (inodes s2 i) = son_nums (inodes s i)"
    "i \<notin> set cs \<Longrightarrow> bro (inodes s2 i) = bro (inodes s i)"
    "blist (\<lambda>j. bro (inodes s2 j)) (son (inodes s2 f)) (filter (\<lambda>x. x \<noteq> d) cs)"
    "son_nums (inodes s2 f) = son_nums (inodes s f) - 1"
    "bitmap s2 = bitmap s" "context_addr s2 = context_addr s" "free_cursor s2 = free_cursor s"
    "free_inode_slab s2 = free_inode_slab s" "next_addr s2 = next_addr s" "root s2 = root s" "clock s2 = clock s"
    "index_state.more s2 = index_state.more s"
proof -
  from assms obtain s1 where det: "detached s s1 f d cs"
    and s2: "s2 = upd_inode s1 f (\<lambda>x. x\<lparr>d_hash := Some (fst (defaultRemove h n))\<rparr>)" by (auto simp: unlinked_def)
  have e: "inodes s1 i = (inodes s i)\<lparr>bro := bro (inodes s1 i), son := son (inodes s1 i), son_nums := son_nums (inodes s1 i)\<rparr>" for i
    using det unfolding detached_def by blast
  have f: "isDirectories (inodes s1 i) = isDirectories (inodes s i)" "filename (inodes s1 i) = filename (inodes s i)"
    "ctxs (inodes s1 i) = ctxs (inodes s i)" "isize (inodes s1 i) = isize (inodes s i)" "cnt_id (inodes s1 i) = cnt_id (inodes s i)"
    "d_hash (inodes s1 i) = d_hash (inodes s i)" for i
    by (subst e; simp)+
  have g: "s1 = s\<lparr>inodes := inodes s1\<rparr>" using det unfolding detached_def by blast
  have more: "index_state.more s1 = index_state.more s" "bitmap s1 = bitmap s" "context_addr s1 = context_addr s"
    "free_cursor s1 = free_cursor s" "free_inode_slab s1 = free_inode_slab s" "next_addr s1 = next_addr s"
    "root s1 = root s" "clock s1 = clock s" by (subst g; simp)+
  show "isDirectories (inodes s2 i) = isDirectories (inodes s i)" "filename (inodes s2 i) = filename (inodes s i)"
    "ctxs (inodes s2 i) = ctxs (inodes s i)" "isize (inodes s2 i) = isize (inodes s i)" "cnt_id (inodes s2 i) = cnt_id (inodes s i)"
    "d_hash (inodes s2 i) = (if i = f then Some (fst (defaultRemove h n)) else d_hash (inodes s i))"
    using f by (simp_all add: s2)
  have b: "bro (inodes s2 j) = bro (inodes s1 j)" "son (inodes s2 j) = son (inodes s1 j)"
    "son_nums (inodes s2 j) = son_nums (inodes s1 j)" for j by (simp_all add: s2)
  show "i \<noteq> f \<Longrightarrow> son (inodes s2 i) = son (inodes s i)" "i \<noteq> f \<Longrightarrow> son_nums (inodes s2 i) = son_nums (inodes s i)"
    "i \<notin> set cs \<Longrightarrow> bro (inodes s2 i) = bro (inodes s i)"
    "blist (\<lambda>j. bro (inodes s2 j)) (son (inodes s2 f)) (filter (\<lambda>x. x \<noteq> d) cs)"
    "son_nums (inodes s2 f) = son_nums (inodes s f) - 1"
    using det unfolding b detached_def by simp_all
  show "bitmap s2 = bitmap s" "context_addr s2 = context_addr s" "free_cursor s2 = free_cursor s"
    "free_inode_slab s2 = free_inode_slab s" "next_addr s2 = next_addr s" "root s2 = root s" "clock s2 = clock s"
    "index_state.more s2 = index_state.more s"
    using more by (simp_all add: s2) (simp add: upd_inode_def)
qed

lemma defaultRemove_laws:
  assumes "hm_wf h"
  shows "defaultGet (fst (defaultRemove h n)) m = (if m = n then None else defaultGet h m)" "hm_wf (fst (defaultRemove h n))"
  using assms by (simp_all add: hm.lookup_delete hm.invar_delete)

lemma unlinked_node_ok:
  assumes U: "unlinked s s2 T f cs d n h" and e: "(k, cs') \<in> set (edges T)"
  shows "node_ok s2 k (filter (\<lambda>x. x \<noteq> d) cs')"
proof -
  note D = unlinkedD[OF U] and I = unlinked_inodes[OF U]
  show ?thesis
  proof (cases "k = f")
    case True
    have cs: "cs' = cs" using edge_unique[OF D(7) e] D(3) True by simp
    have len: "length cs = Suc (length (filter (\<lambda>x. x \<noteq> d) cs))"
    proof -
      obtain xs ys where xy: "cs = xs @ d # ys" using D(10) by (meson split_list)
      have "filter (\<lambda>x. x \<noteq> d) cs = xs @ ys" using D(12) unfolding xy by (rule filter_remove)
      then show ?thesis using xy by simp
    qed
    have g: "defaultGet (fst (defaultRemove h n)) m = Some j \<longleftrightarrow>
        j \<in> set (filter (\<lambda>x. x \<noteq> d) cs) \<and> filename (inodes s2 j) = m" for m j
    proof -
      have "j = d" if "j \<in> set cs" "filename (inodes s j) = n"
        using node_ok_child(1)[OF D(9,4), of n j] D(5) that by simp
      then have "m = n \<Longrightarrow> \<not> (j \<in> set (filter (\<lambda>x. x \<noteq> d) cs) \<and> filename (inodes s j) = m)" by auto
      moreover have "m \<noteq> n \<Longrightarrow> j \<in> set cs \<and> filename (inodes s j) = m \<longleftrightarrow>
          j \<in> set (filter (\<lambda>x. x \<noteq> d) cs) \<and> filename (inodes s j) = m" using D(11) by auto
      ultimately show ?thesis
        unfolding defaultRemove_laws(1)[OF D(8)] I(2) using node_ok_child(1)[OF D(9,4), of m j] by (cases "m = n") simp_all
    qed
    have "isDirectories (inodes s f)" "int (length cs) \<le> son_nums (inodes s f)"
      using D(4,9) by (simp_all add: node_ok_def)
    then show ?thesis using I(10,11) len g defaultRemove_laws(2)[OF D(8)]
      unfolding True cs node_ok_def I(1,6) by simp
  next
    case False
    have nd: "d \<notin> set cs'" using parent_unique[OF D(7) e D(3)] D(10) False by blast
    then have id: "filter (\<lambda>x. x \<noteq> d) cs' = cs'" by (induction cs') auto
    have nc: "j \<notin> set cs" if "j \<in> set cs'" for j using parent_unique[OF D(7) e D(3) that] False by blast
    have "d_hash (inodes s2 k) = d_hash (inodes s k)" using I(6)[of k] False by simp
    from node_ok_cong'[OF tree_ok_edge[OF D(6) e] I(7)[OF False] I(8)[OF False] this I(1) I(9)[OF nc] I(2)]
    show ?thesis unfolding id .
  qed
qed

lemma nodes_reachable:
  assumes "tree_ok s t" "j \<in> set (nodes t)"
  shows "\<exists>r. walk s (iroot t) r = Some j"
  using assms
proof (induction t)
  case (INode i ts)
  show ?case
  proof (cases "j = i")
    case True
    then show ?thesis by (intro exI[of _ "[]"]) simp
  next
    case False
    then obtain u where u: "u \<in> set ts" "j \<in> set (nodes u)" using INode.prems(2) by auto
    then obtain r where r: "walk s (iroot u) r = Some j" using INode.IH tree_ok_sub[OF INode.prems(1)] by blast
    have ok: "node_ok s i (map iroot ts)" using INode.prems(1) by (auto simp: tree_ok_def)
    then have "d_hash (inodes s i) \<noteq> None" using u(1) by (cases ts) (auto simp: node_ok_def split: option.splits)
    then obtain h where h: "d_hash (inodes s i) = Some h" by blast
    then have "defaultGet h (filename (inodes s (iroot u))) = Some (iroot u)"
      using node_ok_child(1)[OF ok h] u(1) by simp
    then have "walk s i (filename (inodes s (iroot u)) # r) = Some j" using h r by simp
    then show ?thesis unfolding inode_tree.sel by blast
  qed
qed

text \<open>Deleting the unlinked subtree, and what becomes of the rest.\<close>

lemma unlinked_delete:
  assumes U: "unlinked s s2 T f cs d n h"
  shows "\<exists>s4 t ns. rbind (if isDirectories (inodes s2 d) then dhmpDeleteALL s2 d else Inr s2) (\<lambda>s3. reset_indoe s3 (Some d)) = Inr s4 \<and>
    reset_all s2 s4 ns \<and> mset ns = mset (nodes t) \<and> iroot t = d \<and> tree_ok s t \<and>
    mset (nodes T) = mset (nodes (prune d T)) + mset (nodes t) \<and> dir_tree s4 (prune d T)"
proof -
  note D = unlinkedD[OF U] and I = unlinked_inodes[OF U]
  from subs_single[OF D(7,3,10)] obtain t where t: "iroot t = d" "set (edges t) \<subseteq> set (edges T)"
    "mset (nodes T) = mset (nodes (prune d T)) + mset (nodes t)" by blast
  have dt: "distinct (nodes t)" and disj: "set (nodes (prune d T)) \<inter> set (nodes t) = {}"
    using D(7) t(3) by (metis mset_append mset_eq_imp_distinct_iff distinct_append)+
  have tok: "tree_ok s t" using D(6) t(2) by (auto simp: tree_ok_def)
  have nd: "d \<notin> set cs'" if "(k, cs') \<in> set (edges t)" for k cs'
    using parent_unique[OF dt that that] t(1) by blast
  have ok2: "node_ok s2 k cs'" if e: "(k, cs') \<in> set (edges t)" for k cs'
  proof -
    have "filter (\<lambda>x. x \<noteq> d) cs' = cs'" using nd[OF e] by (induction cs') auto
    then show ?thesis using unlinked_node_ok[OF U, of k cs'] t(2) e by auto
  qed
  then have t2: "tree_ok s2 t" by (auto simp: tree_ok_def)
  obtain us where tu: "t = INode d us" using t(1) by (cases t) simp
  have okd: "node_ok s2 d (map iroot us)" using ok2 by (simp add: tu)
  have ix2: "ix_inv s2" using D(1) by (rule ix_inv_frame) (simp_all add: I)
  have len: "length (nodes t) \<le> next_addr s2"
  proof -
    have "length (nodes T) \<le> next_addr s" using D(2) by (intro bounded_distinct_length) (auto simp: dir_tree_def)
    moreover have "length (nodes T) = length (nodes (prune d T)) + length (nodes t)"
      using arg_cong[OF t(3), of size] by simp
    ultimately show ?thesis by (simp add: I(16))
  qed
  have "\<exists>s3 ms. (if isDirectories (inodes s2 d) then dhmpDeleteALL s2 d else Inr s2) = Inr s3 \<and> reset_all s2 s3 ms \<and>
      mset ms = mset (concat (map nodes us))"
  proof (cases "isDirectories (inodes s2 d)")
    case True
    have "blist (\<lambda>j. bro (inodes s2 j)) (son (inodes s2 d)) (map iroot us)" using okd by (simp add: node_ok_def)
    moreover have "\<forall>u \<in> set us. tree_ok s2 u" using t2 tree_ok_sub unfolding tu by blast
    moreover have "distinct (concat (map nodes us))" using dt by (simp add: tu)
    moreover have "length (concat (map nodes us)) < Suc (next_addr s2)" using len by (simp add: tu)
    ultimately show ?thesis using delete_forest[OF ix2] True unfolding dhmpDeleteALL_def by simp
  next
    case False
    then have "us = []" using okd by (auto simp: node_ok_def split: option.splits)
    then show ?thesis using False reset_all_Nil[OF ix2] by (intro exI[of _ s2] exI[of _ "[]"]) simp
  qed
  then obtain s3 ms where s3: "(if isDirectories (inodes s2 d) then dhmpDeleteALL s2 d else Inr s2) = Inr s3"
    "reset_all s2 s3 ms" "mset ms = mset (concat (map nodes us))" by blast
  have sms: "set ms = set (concat (map nodes us))" using s3(3) mset_eq_setD by blast
  have "d \<notin> set ms" using dt unfolding sms by (simp add: tu)
  then have "inodes s3 d = inodes s2 d" "ix_inv s3" using s3(2) by (auto simp: reset_all_def)
  then obtain s4 where s4: "reset_indoe s3 (Some d) = Inr s4" "reset_all s3 s4 [d]"
    using reset_all_one[of s3 d] node_ok_reset[OF okd] by auto
  have r: "reset_all s2 s4 (ms @ [d])" using reset_all_trans[OF s3(2) s4(2)] \<open>d \<notin> set ms\<close> by simp
  have m: "mset (ms @ [d]) = mset (nodes t)" using s3(3) by (simp add: tu)
  then have sm: "set (ms @ [d]) = set (nodes t)" using mset_eq_setD by blast
  have "tree_ok s2 (prune d T)" unfolding tree_ok_def using edges_prune[of d T] unlinked_node_ok[OF U] by fastforce
  then have p4: "tree_ok s4 (prune d T)"
    by (rule tree_ok_reset[OF r]) (use disj in \<open>simp only: sm\<close>)
  have root: "iroot T = root s" "root s4 = root s" "isDirectories (inodes s (root s))"
    using D(2) r by (simp_all add: dir_tree_def reset_all_def I)
  have "inodes s4 (root s) = inodes s2 (root s)"
    using r disj sm iroot_in_nodes[of "prune d T"] root(1) unfolding reset_all_def by auto
  then have isd: "isDirectories (inodes s4 (root s4))" using root(2,3) I(1) by simp
  obtain xs where xs: "free_inode_slab s4 = free_inode_slab s @ xs" "mset xs = mset (nodes t)" "next_addr s4 = next_addr s"
    using r m by (auto simp: reset_all_def I)
  have ms: "mset (nodes (prune d T) @ free_inode_slab s4) = mset (nodes T @ free_inode_slab s)"
    using t(3) xs by simp
  have "distinct (nodes (prune d T) @ free_inode_slab s4)" using ms D(2) mset_eq_imp_distinct_iff
    unfolding dir_tree_def by blast
  moreover have "set (nodes (prune d T) @ free_inode_slab s4) = set (nodes T @ free_inode_slab s)"
    using ms mset_eq_setD by blast
  moreover have "clean (inodes s4 i)" if "i \<notin> set (nodes (prune d T))" for i
  proof (cases "i \<in> set (nodes t)")
    case True
    then show ?thesis using r sm unfolding reset_all_def by blast
  next
    case False
    then have nT: "i \<notin> set (nodes T)" using that t(3) by (metis Un_iff mset_append mset_eq_setD set_append)
    then have "i \<noteq> f" using D(3) nodes_edges[of T] by force
    moreover have "clean (inodes s i)" using D(2) nT by (simp add: dir_tree_def)
    moreover have "inodes s4 i = inodes s2 i" using r False unfolding reset_all_def sm by blast
    ultimately show ?thesis using I(1-8) by (simp add: clean_def)
  qed
  ultimately have "dir_tree s4 (prune d T)" using p4 isd root xs(3) D(2) by (simp add: dir_tree_def)
  then show ?thesis using s3(1) s4(1) r m t(1,3) tok by fastforce
qed

section \<open>Lookups after a change below one directory\<close>

lemma walk_frame:
  assumes "\<And>q r x. p = q @ r \<Longrightarrow> r \<noteq> [] \<Longrightarrow> walk s i q = Some x \<Longrightarrow> d_hash (inodes s' x) = d_hash (inodes s x)"
  shows "walk s' i p = walk s i p"
  using assms
proof (induction p arbitrary: i)
  case (Cons m p)
  have e: "d_hash (inodes s' i) = d_hash (inodes s i)" using Cons.prems[of "[]" "m # p" i] by simp
  have "walk s' j p = walk s j p" if "d_hash (inodes s i) = Some h" "defaultGet h m = Some j" for h j
  proof (rule Cons.IH)
    fix q r x assume "p = q @ r" "r \<noteq> []" "walk s j q = Some x"
    then show "d_hash (inodes s' x) = d_hash (inodes s x)" using Cons.prems[of "m # q" r x] that by simp
  qed
  then show ?case using e by (auto split: option.split)
qed simp

text \<open>Only the table of \<open>f\<close>, reached by \<open>ns\<close>, and tables below its entry \<open>n\<close> may differ.\<close>

lemma walk_change:
  assumes T: "tree_ok s T" "distinct (nodes T)" "iroot T = root s" "root s' = root s" and ns: "lookup_path s ns = Some f"
    and H: "\<forall>x q. lookup_path s q = Some x \<and> x \<noteq> f \<and> (\<forall>r. q \<noteq> ns @ n # r) \<longrightarrow> d_hash (inodes s' x) = d_hash (inodes s x)"
    and h: "d_hash (inodes s f) = Some h" "d_hash (inodes s' f) = Some h'"
  shows "(\<And>m r. p \<noteq> ns @ m # r) \<Longrightarrow> lookup_path s' p = lookup_path s p"
    "m \<noteq> n \<Longrightarrow> defaultGet h' m = defaultGet h m \<Longrightarrow> lookup_path s' (ns @ m # r) = lookup_path s (ns @ m # r)"
    "lookup_path s' (ns @ m # r) = (case defaultGet h' m of None \<Rightarrow> None | Some j \<Rightarrow> walk s' j r)"
proof -
  have uniq: "q = ns" if "lookup_path s q = Some f" for q
    using walk_unique[OF T(1,2), of q f ns] that ns T(3) by (simp add: lookup_path_def)
  have A: "lookup_path s' p = lookup_path s p" if p: "\<And>m r. p \<noteq> ns @ m # r" for p
    unfolding lookup_path_def T(4)
  proof (rule walk_frame)
    fix q r x assume q: "p = q @ r" "r \<noteq> []" "walk s (root s) q = Some x"
    have "x \<noteq> f"
    proof
      assume "x = f"
      then have "q = ns" using uniq q(3) by (simp add: lookup_path_def)
      then show False using p[of "hd r" "tl r"] q(1,2) by simp
    qed
    moreover have "q \<noteq> ns @ n # r'" for r' using p[of n "r' @ r"] q(1) by auto
    ultimately show "d_hash (inodes s' x) = d_hash (inodes s x)" using H q(3) unfolding lookup_path_def by blast
  qed
  then show "(\<And>m r. p \<noteq> ns @ m # r) \<Longrightarrow> lookup_path s' p = lookup_path s p" .
  have f': "lookup_path s' ns = Some f" using A[of ns] ns by simp
  show B: "lookup_path s' (ns @ m # r) = (case defaultGet h' m of None \<Rightarrow> None | Some j \<Rightarrow> walk s' j r)"
    using f' h(2) by (simp add: lookup_path_def walk_append)
  show "lookup_path s' (ns @ m # r) = lookup_path s (ns @ m # r)" if m: "m \<noteq> n" "defaultGet h' m = defaultGet h m"
  proof -
    have "walk s' j r = walk s j r" if j: "defaultGet h m = Some j" for j
    proof (rule walk_frame)
      fix q r' x assume "r = q @ r'" "walk s j q = Some x"
      then have x: "lookup_path s (ns @ m # q) = Some x" using ns h(1) j by (simp add: lookup_path_def walk_append)
      then have "x \<noteq> f" using uniq by fastforce
      then show "d_hash (inodes s' x) = d_hash (inodes s x)" using H x m(1) by auto
    qed
    then show ?thesis using B m(2) ns h(1) by (auto simp: lookup_path_def walk_append split: option.split)
  qed
qed

text \<open>What a successful deletion does: the whole subtree is gone and its chunks are free.\<close>

definition removed :: "'a index_state_scheme \<Rightarrow> 'a index_state_scheme \<Rightarrow> string list \<Rightarrow> bool" where
  "removed s s' p \<longleftrightarrow>
     (\<forall>q. lookup_path s' q = (if \<exists>r. q = p @ r then None else lookup_path s q)) \<and>
     (\<forall>q i. lookup_path s' q = Some i \<longrightarrow> isDirectories (inodes s' i) = isDirectories (inodes s i) \<and>
        isize (inodes s' i) = isize (inodes s i) \<and> file_chunk s' i = file_chunk s i) \<and>
     (\<forall>c. bitmap s' c \<longleftrightarrow> bitmap s c \<and> (\<forall>r i. lookup_path s (p @ r) = Some i \<longrightarrow> c \<notin> set (ctxs (inodes s i)))) \<and>
     (\<forall>c. bitmap s' c \<longrightarrow> context_addr s' c = context_addr s c) \<and> index_state.more s' = index_state.more s"

lemma unlinked_removed:
  assumes U: "unlinked s s2 T f cs d n h" and ns: "lookup_path s ns = Some f"
    and r: "reset_all s2 s4 xs" "mset xs = mset (nodes t)" "iroot t = d" "tree_ok s t"
      "mset (nodes T) = mset (nodes (prune d T)) + mset (nodes t)" "dir_tree s4 (prune d T)"
  shows "dir_inv s4 \<and> removed s s4 (ns @ [n])"
proof -
  note D = unlinkedD[OF U] and I = unlinked_inodes[OF U]
  have sx: "set xs = set (nodes t)" using r(2) mset_eq_setD by blast
  have rt: "iroot T = root s" "root s4 = root s" using D(2) r(1) by (simp_all add: dir_tree_def reset_all_def I)
  have disj: "set (nodes (prune d T)) \<inter> set (nodes t) = {}"
    using D(7) r(5) by (metis mset_append mset_eq_imp_distinct_iff distinct_append)
  have ld: "lookup_path s (ns @ n # q) = walk s d q" for q using ns D(4,5) by (simp add: lookup_path_def walk_append)
  have uniq: "q = q'" if "lookup_path s q = Some x" "lookup_path s q' = Some x" for q q' x
    using walk_unique[OF D(6,7), of q x q'] that rt(1) by (simp add: lookup_path_def)
  have sub: "x \<in> set (nodes t) \<longleftrightarrow> (\<exists>q. lookup_path s (ns @ n # q) = Some x)" for x
    unfolding ld using nodes_reachable[OF r(4)] walk_nodes[OF r(4) iroot_in_nodes] r(3) by blast
  have fp: "f \<notin> set (nodes t)"
  proof
    assume "f \<in> set (nodes t)"
    then obtain q where "lookup_path s (ns @ n # q) = Some f" using sub by blast
    from uniq[OF this ns] show False by simp
  qed
  have same: "inodes s4 x = inodes s2 x" if "x \<notin> set (nodes t)" for x using r(1) sx that by (simp add: reset_all_def)
  have H: "\<forall>x q. lookup_path s q = Some x \<and> x \<noteq> f \<and> (\<forall>r. q \<noteq> ns @ n # r) \<longrightarrow> d_hash (inodes s4 x) = d_hash (inodes s x)"
  proof (intro allI impI, elim conjE)
    fix x q assume x: "lookup_path s q = Some x" "x \<noteq> f" "\<forall>r. q \<noteq> ns @ n # r"
    have "x \<notin> set (nodes t)" using sub[of x] uniq[OF x(1)] x(3) by metis
    then show "d_hash (inodes s4 x) = d_hash (inodes s x)" using same I(6)[of x] x(2) by simp
  qed
  have h': "d_hash (inodes s4 f) = Some (fst (defaultRemove h n))" using same[OF fp] I(6)[of f] by simp
  note wc = walk_change[OF D(6,7) rt ns H D(4) h']
  have look: "lookup_path s4 q = (if \<exists>r. q = (ns @ [n]) @ r then None else lookup_path s q)" for q
  proof (cases "\<exists>m r. q = ns @ m # r")
    case False
    then show ?thesis using wc(1)[where p = q] by auto
  next
    case True
    then obtain m r where q: "q = ns @ m # r" by blast
    show ?thesis
    proof (cases "m = n")
      case True
      then show ?thesis using wc(3)[where m = m and r = r] q defaultRemove_laws(1)[OF D(8)] by simp
    next
      case False
      then show ?thesis using wc(2)[where m = m and r = r] q defaultRemove_laws(1)[OF D(8)] by simp
    qed
  qed
  have files: "isDirectories (inodes s4 i) = isDirectories (inodes s i) \<and> isize (inodes s4 i) = isize (inodes s i) \<and>
      file_chunk s4 i = file_chunk s i" if "lookup_path s4 q = Some i" for q i
  proof -
    have q: "lookup_path s q = Some i" "\<And>r. q \<noteq> ns @ n # r" using that look[of q] by (auto split: if_splits)
    then have "i \<notin> set (nodes t)" using sub[of i] uniq[OF q(1)] by metis
    then show ?thesis using same I(1,4,5)[of i] by (simp add: file_chunk_def fun_eq_iff)
  qed
  have bits: "bitmap s4 c \<longleftrightarrow> bitmap s c \<and> (\<forall>r i. lookup_path s ((ns @ [n]) @ r) = Some i \<longrightarrow> c \<notin> set (ctxs (inodes s i)))" for c
  proof -
    have "bitmap s4 c \<longleftrightarrow> bitmap s c \<and> (\<forall>i \<in> set (nodes t). c \<notin> set (ctxs (inodes s i)))"
      using r(1) unfolding reset_all_def I(12) sx I(3) by blast
    then show ?thesis using sub by auto
  qed
  have ctx: "context_addr s4 c = context_addr s c" if "bitmap s4 c" for c
    using r(1) that unfolding reset_all_def I(13) by blast
  have "dir_inv s4" using r(1,6) by (auto simp: dir_inv_def reset_all_def)
  moreover have "index_state.more s4 = index_state.more s" using r(1) by (simp add: reset_all_def I)
  ultimately show ?thesis using look files bits ctx unfolding removed_def by blast
qed

lemma delete_spec:
  assumes inv: "dir_inv s" and v: "valid_path ns n"
  shows "case resolve s (root s) ns of
      Inl e \<Rightarrow> dhmpDelete s (path_of (ns @ [n])) = Inl e
    | Inr None \<Rightarrow> dhmpDelete s (path_of (ns @ [n])) = Inr (s, -1)
    | Inr (Some f) \<Rightarrow>
        if lookup_path s (ns @ [n]) = None then dhmpDelete s (path_of (ns @ [n])) = Inr (s, -1)
        else \<exists>s'. dhmpDelete s (path_of (ns @ [n])) = Inr (s', 1) \<and> dir_inv s' \<and> removed s s' (ns @ [n])"
proof -
  note vd = valid_pathD[OF v]
  have eq: "dhmpDelete s (path_of (ns @ [n])) = rbind (resolve s (root s) ns) (\<lambda>father. dhmpDelFromInode s father n)"
    by (simp only: dhmpDelete_def vd(1,2,3) if_False rbind_Inr prod.case)
  show ?thesis
  proof (cases "resolve s (root s) ns")
    case (Inr fo)
    show ?thesis
    proof (cases fo)
      case None
      then show ?thesis using Inr unfolding eq by (simp add: dhmpDelFromInode_def)
    next
      case (Some f)
      then have lf: "lookup_path s ns = Some f" using Inr by (simp add: resolve_lookup[symmetric])
      from inv obtain T where T: "ix_inv s" "dir_tree s T" by (auto simp: dir_inv_def)
      obtain cs where ok: "(f, cs) \<in> set (edges T)" "node_ok s f cs" using lookup_node(2)[OF T(2) lf] by blast
      show ?thesis
      proof (cases "d_hash (inodes s f)")
        case None
        then have nd: "\<not> isDirectories (inodes s f)" using node_ok_dir[OF ok(2)] by simp
        then have "lookup_path s (ns @ [n]) = None" using lf None by (simp add: lookup_path_def walk_append)
        then show ?thesis using Inr Some nd unfolding eq by (simp add: dhmpDelFromInode_def)
      next
        case h: (Some h)
        then have isd: "isDirectories (inodes s f)" using node_ok_dir[OF ok(2)] by blast
        note sn = lookup_snoc[OF lf h, of n]
        show ?thesis
        proof (cases "defaultGet h n")
          case None
          then show ?thesis using Inr Some isd h sn unfolding eq by (simp add: dhmpDelFromInode_def)
        next
          case d: (Some d)
          have t: "tree_ok s T" "distinct (nodes T)" "\<forall>i \<in> set (nodes T). i < next_addr s"
            using T(2) by (simp_all add: dir_tree_def)
          have dcs: "d \<in> set cs" using node_ok_child(1)[OF ok(2) h] d by blast
          have dist: "distinct cs" by (rule node_ok_distinct[OF t(1,2) ok(1)])
          have "length cs \<le> next_addr s" using bounded_distinct_length[OF dist] edge_child[OF ok(1)] t(3) by blast
          moreover have "blist (\<lambda>j. bro (inodes s j)) (son (inodes s f)) cs" using ok(2) by (simp add: node_ok_def)
          ultimately obtain s1 where s1: "del_from_father s f d = Inr s1" "detached s s1 f d cs"
            using del_from_father_spec dist dcs not_own_child[OF t(2) ok(1)] by blast
          define s2 where "s2 = upd_inode s1 f (\<lambda>x. x\<lparr>d_hash := Some (fst (defaultRemove h n))\<rparr>)"
          have U: "unlinked s s2 T f cs d n h" unfolding unlinked_def s2_def using T ok(1) h d s1(2) by blast
          have wf: "hm_wf h" using node_ok_child(2)[OF ok(2) h] .
          have "hm_map h n \<noteq> None" using d defaultGet_eq[OF hm_wf_ok[OF wf]] by simp
          then obtain h' key where key: "defaultRemove h n = (h', Some key)"
            using defaultRemove_key[OF hm_wf_ok[OF wf], of n] by (cases "defaultRemove h n") auto
          from unlinked_delete[OF U] obtain s4 t' xs where s4:
            "rbind (if isDirectories (inodes s2 d) then dhmpDeleteALL s2 d else Inr s2) (\<lambda>s3. reset_indoe s3 (Some d)) = Inr s4"
            "reset_all s2 s4 xs" "mset xs = mset (nodes t')" "iroot t' = d" "tree_ok s t'"
            "mset (nodes T) = mset (nodes (prune d T)) + mset (nodes t')" "dir_tree s4 (prune d T)" by blast
          from s4(1) obtain s3 where s3: "(if isDirectories (inodes s2 d) then dhmpDeleteALL s2 d else Inr s2) = Inr s3"
            "reset_indoe s3 (Some d) = Inr s4" by (auto simp: rbind_eq_Inr simp del: inodes_upd)
          have "dhmpDelFromInode s (Some f) n = Inr (s4, 1)"
            unfolding dhmpDelFromInode_def using s3
            by (cases "isDirectories (inodes s2 d)")
               (simp_all add: isd h d s1(1) key Let_def s2_def[unfolded key fst_conv, symmetric] del: inodes_upd)
          then show ?thesis using unlinked_removed[OF U lf s4(2-7)] Inr Some d sn unfolding eq by simp
        qed
      qed
    qed
  qed (unfold eq, simp)
qed

section \<open>Listing a directory\<close>

definition entry_of :: "'a index_state_scheme \<Rightarrow> inode_id \<Rightarrow> string \<times> bool" where
  "entry_of s j = (filename (inodes s j), isDirectories (inodes s j))"

lemma readdir_loop_spec:
  assumes "blist (\<lambda>j. bro (inodes s j)) p cs" "length cs < n"
  shows "readdir_loop n s p (h # t) = Inr (h # rev (map (entry_of s) cs) @ t)"
    "readdir_loop n s p [] = Inr (case map (entry_of s) cs of [] \<Rightarrow> [] | e # es \<Rightarrow> e # rev es)"
proof -
  have ht: "readdir_loop n s p (h # t) = Inr (h # rev (map (entry_of s) cs) @ t)"
    if "blist (\<lambda>j. bro (inodes s j)) p cs" "length cs < n" for n p cs h t
    using that
  proof (induction cs arbitrary: n p t)
    case Nil
    then show ?case by (cases n) simp_all
  next
    case (Cons c cs)
    then obtain m where n: "n = Suc m" by (cases n) simp
    show ?case using Cons unfolding n by (simp add: entry_of_def Let_def)
  qed
  then show "readdir_loop n s p (h # t) = Inr (h # rev (map (entry_of s) cs) @ t)" using assms by blast
  show "readdir_loop n s p [] = Inr (case map (entry_of s) cs of [] \<Rightarrow> [] | e # es \<Rightarrow> e # rev es)"
  proof (cases cs)
    case Nil
    then show ?thesis using assms by (cases n) simp_all
  next
    case (Cons c cs')
    then obtain m where n: "n = Suc m" using assms(2) by (cases n) simp
    show ?thesis using assms ht[of "bro (inodes s c)" cs' m "entry_of s c" "[]"] unfolding n Cons
      by (simp add: entry_of_def Let_def)
  qed
qed

definition dir_path :: "string list \<Rightarrow> string" where
  "dir_path ns = (if ns = [] then ''/'' else path_of ns)"

lemma search_dir_path:
  "\<forall>n \<in> set ns. valid_name n \<Longrightarrow> search_d_hash s (dir_path ns) = resolve s (root s) ns"
  using search_path(2)[of ns s] by (cases ns) (simp_all add: dir_path_def search_d_hash_def)

lemma dir_path_length: "\<forall>n \<in> set ns. valid_name n \<Longrightarrow> length (dir_path ns) = 1 \<longleftrightarrow> ns = []"
  by (cases ns) (auto simp: dir_path_def valid_name_def)

lemma readdir_spec:
  assumes inv: "dir_inv s" and v: "\<forall>n \<in> set ns. valid_name n" and ns: "lookup_path s ns = Some f" "isDirectories (inodes s f)"
  shows "\<exists>L. dhmpReadDir s (dir_path ns) = Inr L \<and> distinct (map fst L) \<and>
    (\<forall>n b. (n, b) \<in> set L \<longleftrightarrow> (\<exists>j. lookup_path s (ns @ [n]) = Some j \<and> b = isDirectories (inodes s j)))"
proof -
  from inv obtain T where T: "dir_tree s T" by (auto simp: dir_inv_def)
  obtain cs where e: "(f, cs) \<in> set (edges T)" "node_ok s f cs" using lookup_node(2)[OF T ns(1)] by blast
  then obtain h where h: "d_hash (inodes s f) = Some h" using node_ok_dir ns(2) by blast
  have t: "tree_ok s T" "distinct (nodes T)" "\<forall>i \<in> set (nodes T). i < next_addr s" using T by (simp_all add: dir_tree_def)
  have dist: "distinct cs" by (rule node_ok_distinct[OF t(1,2) e(1)])
  have len: "length cs < Suc (next_addr s)"
    using bounded_distinct_length[OF dist] edge_child[OF e(1)] t(3) unfolding less_Suc_eq_le by blast
  have b: "blist (\<lambda>j. bro (inodes s j)) (son (inodes s f)) cs" using e(2) by (simp add: node_ok_def)
  let ?L = "case map (entry_of s) cs of [] \<Rightarrow> [] | e # es \<Rightarrow> e # rev es"
  have "resolve s (root s) ns = Inr (Some f)" using ns(1) by (simp add: resolve_lookup)
  then have "dhmpReadDir s (dir_path ns) = readdir_loop (Suc (next_addr s)) s (son (inodes s f)) []"
    using search_dir_path[OF v, of s] dir_path_length[OF v] ns unfolding dhmpReadDir_def
    by (cases "ns = []") (simp_all add: lookup_path_def)
  then have r: "dhmpReadDir s (dir_path ns) = Inr ?L" using readdir_loop_spec(2)[OF b len] by simp
  have m: "mset ?L = mset (map (entry_of s) cs)" by (cases cs) simp_all
  have inj: "distinct (map (\<lambda>j. filename (inodes s j)) cs)"
  proof -
    have "x = y" if "x \<in> set cs" "y \<in> set cs" "filename (inodes s x) = filename (inodes s y)" for x y
      using node_ok_child(1)[OF e(2) h, of "filename (inodes s x)" x] node_ok_child(1)[OF e(2) h, of "filename (inodes s x)" y] that
      by simp
    then show ?thesis using dist by (simp add: distinct_map inj_on_def)
  qed
  have "mset (map fst ?L) = mset (map (\<lambda>j. filename (inodes s j)) cs)"
  proof -
    have e: "map (\<lambda>j. filename (inodes s j)) cs = map fst (map (entry_of s) cs)" by (simp add: entry_of_def)
    show ?thesis unfolding e by (simp only: mset_map m)
  qed
  then have "distinct (map fst ?L)" using inj mset_eq_imp_distinct_iff by blast
  moreover have "(n, d) \<in> set ?L \<longleftrightarrow> (\<exists>j. lookup_path s (ns @ [n]) = Some j \<and> d = isDirectories (inodes s j))" for n d
  proof -
    have "set ?L = entry_of s ` set cs" using mset_eq_setD[OF m] by simp
    then show ?thesis using lookup_snoc[OF ns(1) h, of n] node_ok_child(1)[OF e(2) h, of n] by (auto simp: entry_of_def)
  qed
  ultimately show ?thesis using r by blast
qed

section \<open>Renaming\<close>

text \<open>A rename inside one directory: the subtree keeps its inodes and moves to the new name.\<close>

definition renamed :: "'a index_state_scheme \<Rightarrow> 'a index_state_scheme \<Rightarrow> string list \<Rightarrow> string \<Rightarrow> string \<Rightarrow> bool" where
  "renamed s s' ns n n' \<longleftrightarrow>
     (\<forall>r. lookup_path s' (ns @ n' # r) = lookup_path s (ns @ n # r)) \<and>
     (\<forall>r. n' \<noteq> n \<longrightarrow> lookup_path s' (ns @ n # r) = None) \<and>
     (\<forall>q. (\<forall>r. q \<noteq> ns @ n # r \<and> q \<noteq> ns @ n' # r) \<longrightarrow> lookup_path s' q = lookup_path s q) \<and>
     (\<forall>i. isDirectories (inodes s' i) = isDirectories (inodes s i) \<and> isize (inodes s' i) = isize (inodes s i) \<and>
        file_chunk s' i = file_chunk s i) \<and>
     bitmap s' = bitmap s \<and> context_addr s' = context_addr s \<and> index_state.more s' = index_state.more s"

definition rename_state :: "'a index_state_scheme \<Rightarrow> inode_id \<Rightarrow> inode_id hashMap \<Rightarrow> string \<Rightarrow> inode_id \<Rightarrow> string \<Rightarrow> 'a index_state_scheme" where
  "rename_state s f h n d n' =
     upd_inode (upd_inode (upd_inode s f (\<lambda>x. x\<lparr>d_hash := Some (fst (defaultRemove h n))\<rparr>)) d (\<lambda>x. x\<lparr>filename := n'\<rparr>)) f
       (\<lambda>x. x\<lparr>d_hash := Some (defaultPut (fst (defaultRemove h n)) n' d)\<rparr>)"

lemma rename_inodes:
  assumes "f \<noteq> d"
  shows "inodes (rename_state s f h n d n') i =
    (if i = f then (inodes s i)\<lparr>d_hash := Some (defaultPut (fst (defaultRemove h n)) n' d)\<rparr>
     else if i = d then (inodes s i)\<lparr>filename := n'\<rparr> else inodes s i)"
  using assms by (simp add: rename_state_def)

lemma rename_rest:
  "bitmap (rename_state s f h n d n') = bitmap s" "context_addr (rename_state s f h n d n') = context_addr s"
  "free_cursor (rename_state s f h n d n') = free_cursor s" "root (rename_state s f h n d n') = root s"
  "free_inode_slab (rename_state s f h n d n') = free_inode_slab s" "next_addr (rename_state s f h n d n') = next_addr s"
  "clock (rename_state s f h n d n') = clock s" "index_state.more (rename_state s f h n d n') = index_state.more s"
  by (simp_all add: rename_state_def upd_inode_def)

lemma rename_ok:
  assumes inv: "ix_inv s" "dir_tree s T" and ns: "lookup_path s ns = Some f" and h: "d_hash (inodes s f) = Some h"
    and d: "defaultGet h n = Some d" and free: "n' = n \<or> defaultGet h n' = None"
  shows "dir_inv (rename_state s f h n d n') \<and> renamed s (rename_state s f h n d n') ns n n'"
proof -
  let ?s = "rename_state s f h n d n'"
  let ?h = "defaultPut (fst (defaultRemove h n)) n' d"
  obtain cs where e: "(f, cs) \<in> set (edges T)" "node_ok s f cs" using lookup_node(2)[OF inv(2) ns] by blast
  have t: "tree_ok s T" "distinct (nodes T)" "iroot T = root s" using inv(2) by (simp_all add: dir_tree_def)
  have wf: "hm_wf h" and dcs: "d \<in> set cs" and fd: "filename (inodes s d) = n"
    using node_ok_child[OF e(2) h] d by blast+
  have ne: "f \<noteq> d" using not_own_child[OF t(2) e(1)] dcs by blast
  note ri = rename_inodes[OF ne, of s h n n']
  have hw: "hm_wf ?h" "defaultGet ?h m = (if m = n' then Some d else if m = n then None else defaultGet h m)" for m
    using wf by (simp_all add: hm_laws)
  have flds: "isDirectories (inodes ?s i) = isDirectories (inodes s i)" "isize (inodes ?s i) = isize (inodes s i)"
    "cnt_id (inodes ?s i) = cnt_id (inodes s i)" "ctxs (inodes ?s i) = ctxs (inodes s i)" "son (inodes ?s i) = son (inodes s i)"
    "son_nums (inodes ?s i) = son_nums (inodes s i)" "bro (inodes ?s i) = bro (inodes s i)" for i
    by (simp_all add: ri)
  have hash: "i \<noteq> f \<Longrightarrow> d_hash (inodes ?s i) = d_hash (inodes s i)" "d_hash (inodes ?s f) = Some ?h" for i
    by (simp_all add: ri)
  have fil: "filename (inodes ?s i) = (if i = d then n' else filename (inodes s i))" for i using ne by (simp add: ri)
  have okk: "node_ok ?s k cs'" if k: "(k, cs') \<in> set (edges T)" for k cs'
  proof (cases "k = f")
    case True
    have cs: "cs' = cs" using edge_unique[OF t(2) k] e(1) True by simp
    have "defaultGet ?h m = Some j \<longleftrightarrow> j \<in> set cs \<and> filename (inodes ?s j) = m" for m j
    proof (cases "j = d")
      case True
      then show ?thesis unfolding hw(2) fil using node_ok_child(1)[OF e(2) h, of m d] dcs fd by auto
    next
      case False
      have "filename (inodes s j) \<noteq> n" "filename (inodes s j) \<noteq> n'" if "j \<in> set cs"
        using node_ok_child(1)[OF e(2) h, of n j] node_ok_child(1)[OF e(2) h, of n' j] that False d free by auto
      then show ?thesis unfolding hw(2) fil using node_ok_child(1)[OF e(2) h, of m j] False
        by (cases "m = n'"; cases "m = n") simp_all
    qed
    then show ?thesis using e(2) h hw(1) hash(2) unfolding True cs node_ok_def flds by simp
  next
    case False
    have "d \<notin> set cs'" using parent_unique[OF t(2) k e(1)] dcs False by blast
    then have "filename (inodes ?s j) = filename (inodes s j)" if "j \<in> set cs'" for j using that fil[of j] by auto
    from node_ok_cong'[OF tree_ok_edge[OF t(1) k] flds(5,6) hash(1)[OF False] flds(1,7) this] show ?thesis .
  qed
  have tok: "tree_ok ?s T" using okk by (auto simp: tree_ok_def)
  have fT: "f \<in> set (nodes T)" by (rule lookup_node(1)[OF inv(2) ns])
  have "clean (inodes ?s i)" if "i \<notin> set (nodes T)" for i
  proof -
    have "i \<noteq> f" using fT that by blast
    then show ?thesis using inv(2) that hash(1) by (simp add: dir_tree_def clean_def flds)
  qed
  then have "dir_tree ?s T" using inv(2) tok by (simp add: dir_tree_def flds rename_rest)
  moreover have "ix_inv ?s" using inv(1) by (rule ix_inv_frame) (simp_all add: rename_rest flds)
  moreover have "renamed s ?s ns n n'"
  proof -
    have H: "\<forall>x q. lookup_path s q = Some x \<and> x \<noteq> f \<and> (\<forall>r. q \<noteq> ns @ n # r) \<longrightarrow> d_hash (inodes ?s x) = d_hash (inodes s x)"
      using hash(1) by blast
    note wc = walk_change[OF t rename_rest(4) ns H h hash(2)]
    have below: "walk ?s d r = walk s d r" for r
    proof (rule walk_frame)
      fix q r' x assume "walk s d q = Some x"
      then have "lookup_path s (ns @ n # q) = Some x" using ns h d by (simp add: lookup_path_def walk_append)
      then have "x \<noteq> f" using walk_unique[OF t(1,2), of "ns @ n # q" f ns] ns t(3) by (auto simp: lookup_path_def)
      then show "d_hash (inodes ?s x) = d_hash (inodes s x)" by (rule hash(1))
    qed
    have a: "lookup_path ?s (ns @ n' # r) = lookup_path s (ns @ n # r)" for r
      using wc(3)[where m = n' and r = r] below ns h d hw(2) by (simp add: lookup_path_def walk_append)
    have b: "n' \<noteq> n \<Longrightarrow> lookup_path ?s (ns @ n # r) = None" for r
      using wc(3)[where m = n and r = r] hw(2) by simp
    have c: "lookup_path ?s q = lookup_path s q" if q: "\<forall>r. q \<noteq> ns @ n # r \<and> q \<noteq> ns @ n' # r" for q
    proof (cases "\<exists>m r. q = ns @ m # r")
      case False
      then show ?thesis using wc(1)[where p = q] by auto
    next
      case True
      then obtain m r where m: "q = ns @ m # r" by blast
      then have "m \<noteq> n" "m \<noteq> n'" using q by auto
      then show ?thesis using wc(2)[where m = m and r = r] hw(2) m by simp
    qed
    show ?thesis unfolding renamed_def using a b c by (simp add: flds rename_rest file_chunk_def fun_eq_iff)
  qed
  ultimately show ?thesis by (auto simp: dir_inv_def)
qed

lemma rename_spec:
  assumes inv: "dir_inv s" and v: "valid_path ns n" "valid_path ms n'"
  shows "case resolve s (root s) ns of
      Inl e \<Rightarrow> dhmp_fs_rename s (path_of (ns @ [n])) (path_of (ms @ [n'])) = Inl e
    | Inr None \<Rightarrow> dhmp_fs_rename s (path_of (ns @ [n])) (path_of (ms @ [n'])) = Inl Null_deref
    | Inr (Some f) \<Rightarrow>
        if \<not> isDirectories (inodes s f) then dhmp_fs_rename s (path_of (ns @ [n])) (path_of (ms @ [n'])) = Inl Wild_deref
        else if lookup_path s (ns @ [n]) = None then dhmp_fs_rename s (path_of (ns @ [n])) (path_of (ms @ [n'])) = Inr (s, -17)
        else lookup_path s (ns @ [n']) = None \<or> n' = n \<longrightarrow>
          (\<exists>s'. dhmp_fs_rename s (path_of (ns @ [n])) (path_of (ms @ [n'])) = Inr (s', 0) \<and> dir_inv s' \<and> renamed s s' ns n n')"
proof -
  note vd = valid_pathD[OF v(1)] and vt = valid_pathD(1)[OF v(2)]
  show ?thesis
  proof (cases "resolve s (root s) ns")
    case (Inl e)
    then show ?thesis unfolding dhmp_fs_rename_def vd(1) rbind_Inr prod.case vd(2) by simp
  next
    case (Inr fo)
    show ?thesis
    proof (cases fo)
      case None
      then show ?thesis using Inr unfolding dhmp_fs_rename_def vd(1) rbind_Inr prod.case vd(2) by simp
    next
      case (Some f)
      then have lf: "lookup_path s ns = Some f" using Inr by (simp add: resolve_lookup[symmetric])
      from inv obtain T where T: "ix_inv s" "dir_tree s T" by (auto simp: dir_inv_def)
      obtain cs where ok: "(f, cs) \<in> set (edges T)" "node_ok s f cs" using lookup_node(2)[OF T(2) lf] by blast
      show ?thesis
      proof (cases "d_hash (inodes s f)")
        case None
        then have "\<not> isDirectories (inodes s f)" using node_ok_dir[OF ok(2)] by simp
        then show ?thesis using Inr Some None unfolding dhmp_fs_rename_def vd(1) rbind_Inr prod.case vd(2) by simp
      next
        case h: (Some h)
        then have isd: "isDirectories (inodes s f)" using node_ok_dir[OF ok(2)] by blast
        note sn = lookup_snoc[OF lf h]
        show ?thesis
        proof (cases "defaultGet h n")
          case None
          then show ?thesis using Inr Some isd h sn[of n] unfolding dhmp_fs_rename_def vd(1) rbind_Inr prod.case vd(2) by simp
        next
          case d: (Some d)
          have ne: "f \<noteq> d"
            using not_own_child[of T f cs] T(2) ok(1) node_ok_child(1)[OF ok(2) h, of n d] d by (auto simp: dir_tree_def)
          have "dhmp_fs_rename s (path_of (ns @ [n])) (path_of (ms @ [n'])) = Inr (rename_state s f h n d n', 0)"
            unfolding dhmp_fs_rename_def vd(1) vt rbind_Inr prod.case vd(2) Inr Some option.case h d Let_def
            using ne by (simp add: rename_state_def upd_inode_def)
          moreover have "n' = n \<or> defaultGet h n' = None \<Longrightarrow>
              dir_inv (rename_state s f h n d n') \<and> renamed s (rename_state s f h n d n') ns n n'"
            by (rule rename_ok[OF T lf h d])
          ultimately show ?thesis using Inr Some isd sn[of n] sn[of n'] d by auto
        qed
      qed
    qed
  qed
qed

section \<open>Properties\<close>

text \<open>An empty file system, where the witnesses evaluate.\<close>

definition dir_start :: index_state where
  "dir_start = index_start\<lparr>inodes := (\<lambda>_. blank_inode)(0 := blank_inode\<lparr>isDirectories := True, d_hash := Some (createHashMap (-1))\<rparr>)\<rparr>"

lemma empty_table: "defaultGet (createHashMap (-1)) m = None"
  using createHashMap_ok(1,2) defaultGet_eq[OF hm_wf_ok] by metis

lemma dir_start_inv: "dir_inv dir_start"
proof -
  have "ix_inv dir_start"
    by (rule ix_inv_frame[OF index_start_inv]) (simp_all add: dir_start_def index_start_def)
  moreover have "dir_tree dir_start (INode 0 [])"
    by (simp add: dir_tree_def tree_ok_def node_ok_def dir_start_def index_start_def blank_inode_def clean_def
        createHashMap_ok(1) empty_table)
  ultimately show ?thesis by (auto simp: dir_inv_def)
qed

lemma dir_start_lookup: "lookup_path dir_start p = (if p = [] then Some 0 else None)"
  by (cases p) (simp_all add: lookup_path_def dir_start_def index_start_def blank_inode_def empty_table)

lemma dir_start_root [simp]: "root dir_start = 0" "isDirectories (inodes dir_start 0)"
  by (simp_all add: dir_start_def index_start_def)

lemma valid_path_a: "valid_path [] ''a''" "valid_path [] ''b''"
  by (simp_all add: valid_path_def valid_name_def sizes(6))

text \<open>C16: the character loop of \<open>search_d_hash\<close> with its name buffer is one table lookup per path
  component: \<open>/\<close>, \<open>/a/b\<close> and \<open>/a/b/\<close> resolve as their lists of names, for components below the
  buffer's 512 bytes. A component looked up under a regular file follows a wild pointer.\<close>

theorem path_resolution:
  assumes "\<forall>n \<in> set ns. valid_name n"
  shows "search_d_hash s (dir_path ns) = resolve s (root s) ns \<and>
    search_d_hash s (path_of ns @ ''/'') = resolve s (root s) ns"
  by (intro conjI search_dir_path[OF assms] search_path(1)[OF assms])

theorem path_resolution_witness:
  "search_d_hash dir_start ''/a/b'' = resolve dir_start 0 [''a'', ''b''] \<and>
   search_d_hash dir_start ''/a/b/'' = resolve dir_start 0 [''a'', ''b'']"
  using path_resolution[of "[''a'', ''b'']" dir_start] by (simp add: dir_path_def valid_name_def sizes(6))

text \<open>\<open>deal\<close> and \<open>search_d_hash\<close> together: a path within the 512 bytes of the caller's buffers
  splits into the path of the parent, which resolves to the parent, and the last name.\<close>

theorem split_path:
  assumes "valid_path ns n"
  shows "\<exists>dirname. deal (path_of (ns @ [n])) = Inr (dirname, n) \<and> search_d_hash s dirname = resolve s (root s) ns"
  using valid_pathD(1,2)[OF assms] by blast

theorem split_path_witness:
  "\<exists>dirname. deal ''/a/b'' = Inr (dirname, ''b'') \<and> search_d_hash dir_start dirname = resolve dir_start (root dir_start) [''a'']"
  using split_path[of "[''a'']" "''b''" dir_start] by (simp add: valid_path_def valid_name_def sizes(6))

text \<open>C12: \<open>mkdir\<close> refines insertion into the map from paths to inodes. Under the directory invariant
  it returns \<open>-1\<close> and changes nothing when the parent is missing or a file or the name is taken;
  otherwise it returns 0, the path maps to an inode no path led to before, every other path resolves
  as before, no file changes, and the invariant is kept. It faults only when the path goes through a
  regular file.\<close>

theorem mkdir_refines:
  assumes "dir_inv s" "valid_path ns n"
  shows "case resolve s (root s) ns of
      Inl e \<Rightarrow> dhmp_fs_mkdir s (path_of (ns @ [n])) = Inl e
    | Inr None \<Rightarrow> dhmp_fs_mkdir s (path_of (ns @ [n])) = Inr (s, -1)
    | Inr (Some f) \<Rightarrow>
        if \<not> isDirectories (inodes s f) \<or> lookup_path s (ns @ [n]) \<noteq> None
        then dhmp_fs_mkdir s (path_of (ns @ [n])) = Inr (s, -1)
        else \<exists>s' c. dhmp_fs_mkdir s (path_of (ns @ [n])) = Inr (s', 0) \<and> dir_inv s' \<and> created s s' (ns @ [n]) c True"
  using mkdir_spec[OF assms] unfolding dhmp_fs_mkdir_def
  by (auto split: sum.splits option.splits if_splits simp del: path_of_simps)

theorem mkdir_refines_witness:
  "\<exists>s' c. dhmp_fs_mkdir dir_start ''/a'' = Inr (s', 0) \<and> dir_inv s' \<and> created dir_start s' [''a''] c True"
  using mkdir_refines[OF dir_start_inv valid_path_a(1)] by (simp add: dir_start_lookup)

text \<open>C13: \<open>mknod\<close> refines insertion in the same way, with an empty regular file. Unlike \<open>mkdir\<close> it does not check that
  the parent is a directory: with a regular file as parent it goes through that inode's \<open>d_hash\<close>,
  which was never set.\<close>

theorem mknod_refines:
  assumes "dir_inv s" "valid_path ns n"
  shows "case resolve s (root s) ns of
      Inl e \<Rightarrow> dhmp_fs_mknod s (path_of (ns @ [n])) = Inl e
    | Inr None \<Rightarrow> dhmp_fs_mknod s (path_of (ns @ [n])) = Inr (s, -1)
    | Inr (Some f) \<Rightarrow>
        if \<not> isDirectories (inodes s f) then dhmp_fs_mknod s (path_of (ns @ [n])) = Inl Wild_deref
        else if lookup_path s (ns @ [n]) \<noteq> None then dhmp_fs_mknod s (path_of (ns @ [n])) = Inr (s, -1)
        else \<exists>s' c. dhmp_fs_mknod s (path_of (ns @ [n])) = Inr (s', 0) \<and> dir_inv s' \<and> created s s' (ns @ [n]) c False"
  using mknod_spec[OF assms] unfolding dhmp_fs_mknod_def
  by (auto split: sum.splits option.splits if_splits simp del: path_of_simps)

theorem mknod_refines_witness:
  "\<exists>s' c. dhmp_fs_mknod dir_start ''/a'' = Inr (s', 0) \<and> dir_inv s' \<and> created dir_start s' [''a''] c False"
  using mknod_refines[OF dir_start_inv valid_path_a(1)] by (simp add: dir_start_lookup)

text \<open>C3: \<open>unlink\<close> and \<open>rmdir\<close> delete the whole subtree at the path: it returns, no path below the
  deleted one resolves any more, every other path resolves as before to an unchanged file, and
  exactly the chunks of the deleted files become free. A directory need not be empty.\<close>

theorem delete_refines:
  assumes "dir_inv s" "valid_path ns n"
  shows "dhmp_fs_rmdir s (path_of (ns @ [n])) = dhmp_fs_unlink s (path_of (ns @ [n])) \<and>
    (case resolve s (root s) ns of
      Inl e \<Rightarrow> dhmp_fs_unlink s (path_of (ns @ [n])) = Inl e
    | Inr None \<Rightarrow> dhmp_fs_unlink s (path_of (ns @ [n])) = Inr (s, -2)
    | Inr (Some f) \<Rightarrow>
        if lookup_path s (ns @ [n]) = None then dhmp_fs_unlink s (path_of (ns @ [n])) = Inr (s, -2)
        else \<exists>s'. dhmp_fs_unlink s (path_of (ns @ [n])) = Inr (s', 0) \<and> dir_inv s' \<and> removed s s' (ns @ [n]))"
  using delete_spec[OF assms] unfolding dhmp_fs_unlink_def dhmp_fs_rmdir_def
  by (auto split: sum.splits option.splits if_splits simp del: path_of_simps)

theorem delete_refines_witness:
  "\<exists>s1 s2. dhmp_fs_mkdir dir_start ''/a'' = Inr (s1, 0) \<and> dhmp_fs_rmdir s1 ''/a'' = Inr (s2, 0) \<and>
     removed s1 s2 [''a'']"
proof -
  obtain s1 c where s1: "dhmp_fs_mkdir dir_start ''/a'' = Inr (s1, 0)" "dir_inv s1" "created dir_start s1 [''a''] c True"
    using mkdir_spec[OF dir_start_inv valid_path_a(1)] by (auto simp: dir_start_lookup dhmp_fs_mkdir_def)
  have l: "lookup_path s1 [''a''] = Some c" using s1(3) by (simp add: created_def)
  from delete_refines[OF s1(2) valid_path_a(1)] s1(1) l show ?thesis by auto
qed

text \<open>C15: \<open>readdir\<close> of a directory lists every entry exactly once, under its name and with the right
  type, whatever order the chain of sons has.\<close>

theorem readdir_lists:
  assumes "dir_inv s" "\<forall>n \<in> set ns. valid_name n" "lookup_path s ns = Some f" "isDirectories (inodes s f)"
  shows "\<exists>L. dhmpReadDir s (dir_path ns) = Inr L \<and> distinct (map fst L) \<and>
    (\<forall>n b. (n, b) \<in> set L \<longleftrightarrow> (\<exists>j. lookup_path s (ns @ [n]) = Some j \<and> b = isDirectories (inodes s j)))"
  by (rule readdir_spec[OF assms])

theorem readdir_lists_witness:
  "\<exists>s1. dhmp_fs_mkdir dir_start ''/a'' = Inr (s1, 0) \<and> dhmpReadDir s1 ''/'' = Inr [(''a'', True)]"
proof -
  obtain s1 c where s1: "dhmp_fs_mkdir dir_start ''/a'' = Inr (s1, 0)" "dir_inv s1" "created dir_start s1 [''a''] c True"
    using mkdir_spec[OF dir_start_inv valid_path_a(1)] by (auto simp: dir_start_lookup dhmp_fs_mkdir_def)
  have r: "isDirectories (inodes s1 (root s1))" using s1(2) by (auto simp: dir_inv_def dir_tree_def)
  have l: "lookup_path s1 [] = Some (root s1)" "lookup_path s1 [n] = (if n = ''a'' then Some c else None)" for n
  proof -
    show "lookup_path s1 [] = Some (root s1)" by (simp add: lookup_path_def)
    show "lookup_path s1 [n] = (if n = ''a'' then Some c else None)" using s1(3) by (simp add: created_def dir_start_lookup)
  qed
  have n: "\<forall>n \<in> set []. valid_name n" by simp
  from readdir_lists[OF s1(2) n l(1) r] obtain L where
    L: "dhmpReadDir s1 (dir_path []) = Inr L" "distinct (map fst L)"
      "\<And>n b. (n, b) \<in> set L \<longleftrightarrow> (\<exists>j. lookup_path s1 ([] @ [n]) = Some j \<and> b = isDirectories (inodes s1 j))" by blast
  have "isDirectories (inodes s1 c)" using s1(3) by (simp add: created_def)
  then have "set L = {(''a'', True)}" using L(3) by (auto simp: l(2) split: if_splits)
  moreover have "distinct L" using L(2) by (simp add: distinct_map)
  ultimately have "L = [(''a'', True)]" by (cases L; cases "tl L") (auto simp: insert_eq_iff subset_singleton_iff)
  then show ?thesis using s1(1) L(1) by (auto simp: dir_path_def)
qed

text \<open>C14: \<open>rename\<close> with a new name that is free in the directory of the old one moves the subtree to
  that name and changes nothing else. The directory part \<open>ms\<close> of the target does not occur in
  the result: the code ignores it.\<close>

theorem rename_moves:
  assumes "dir_inv s" "valid_path ns n" "valid_path ms n'"
  shows "case resolve s (root s) ns of
      Inl e \<Rightarrow> dhmp_fs_rename s (path_of (ns @ [n])) (path_of (ms @ [n'])) = Inl e
    | Inr None \<Rightarrow> dhmp_fs_rename s (path_of (ns @ [n])) (path_of (ms @ [n'])) = Inl Null_deref
    | Inr (Some f) \<Rightarrow>
        if \<not> isDirectories (inodes s f) then dhmp_fs_rename s (path_of (ns @ [n])) (path_of (ms @ [n'])) = Inl Wild_deref
        else if lookup_path s (ns @ [n]) = None then dhmp_fs_rename s (path_of (ns @ [n])) (path_of (ms @ [n'])) = Inr (s, -17)
        else lookup_path s (ns @ [n']) = None \<or> n' = n \<longrightarrow>
          (\<exists>s'. dhmp_fs_rename s (path_of (ns @ [n])) (path_of (ms @ [n'])) = Inr (s', 0) \<and> dir_inv s' \<and> renamed s s' ns n n')"
  by (rule rename_spec[OF assms])

theorem rename_moves_witness:
  "\<exists>s1 s2. dhmp_fs_mkdir dir_start ''/a'' = Inr (s1, 0) \<and> dhmp_fs_rename s1 ''/a'' ''/b'' = Inr (s2, 0) \<and>
     renamed s1 s2 [] ''a'' ''b''"
proof -
  obtain s1 c where s1: "dhmp_fs_mkdir dir_start ''/a'' = Inr (s1, 0)" "dir_inv s1" "created dir_start s1 [''a''] c True"
    using mkdir_spec[OF dir_start_inv valid_path_a(1)] by (auto simp: dir_start_lookup dhmp_fs_mkdir_def)
  have l: "lookup_path s1 [''a''] = Some c" "lookup_path s1 [''b''] = None" "lookup_path s1 [] = Some 0"
    "isDirectories (inodes s1 (root s1))"
  proof -
    show "lookup_path s1 [''a''] = Some c" "lookup_path s1 [''b''] = None" "lookup_path s1 [] = Some 0"
      using s1(3) by (simp_all add: created_def dir_start_lookup)
    show "isDirectories (inodes s1 (root s1))" using s1(2) by (auto simp: dir_inv_def dir_tree_def)
  qed
  from rename_moves[OF s1(2) valid_path_a] s1(1) l show ?thesis by auto
qed

text \<open>\<open>getattr\<close> on a path that resolves reports the type of the inode and, for a file, its
  size, which is right below 2 GiB and cut to 32 bits beyond; on a path that does not resolve it
  returns \<open>-2\<close> and leaves the caller's buffer alone.\<close>

theorem getattr_reports:
  assumes "dir_inv s" "\<forall>n \<in> set ns. valid_name n"
  shows "case resolve s (root s) ns of
      Inl e \<Rightarrow> dhmp_fs_getattr s (dir_path ns) st = Inl e
    | Inr None \<Rightarrow> dhmp_fs_getattr s (dir_path ns) st = Inr (st, -2)
    | Inr (Some i) \<Rightarrow> \<exists>st'. dhmp_fs_getattr s (dir_path ns) st = Inr (st', 0) \<and>
        (if isDirectories (inodes s i) then st_mode st' = 0x41B6 \<and> st_size st' = 0
         else st_mode st' = 0x81FF \<and> st_size st' = sint32 (int (isize (inodes s i))) \<and>
           (isize (inodes s i) < 2 ^ 31 \<longrightarrow> st_size st' = int (isize (inodes s i)))) \<and>
        st_mtime st' = timeLastModified (inodes s i) \<and> st_nlink st' = 1"
proof -
  have m: "S_IFDIR OR 0x1B6 = 0x41B6" "S_IFREG OR 0x1FF = 0x81FF" by (simp_all add: S_IFDIR_def S_IFREG_def)
  have r: "isDirectories (inodes s (root s))" using assms(1) by (auto simp: dir_inv_def dir_tree_def)
  have l: "length (dir_path []) = 1" by (simp add: dir_path_def)
  note defs = dhmp_fs_getattr_def dhmpGetAttr_def m search_dir_path[OF assms(2), of s]
    dir_path_length[OF assms(2), unfolded One_nat_def] l
  show ?thesis
  proof (cases "resolve s (root s) ns")
    case (Inl e)
    then show ?thesis by (cases "ns = []") (simp_all add: defs)
  next
    case (Inr io)
    show ?thesis
    proof (cases io)
      case None
      then show ?thesis using Inr by (cases "ns = []") (simp_all add: defs)
    next
      case (Some i)
      show ?thesis
      proof (cases "ns = []")
        case True
        then show ?thesis using Inr r Some unfolding True dhmp_fs_getattr_def l by (auto simp: m)
      next
        case False
        then show ?thesis using Inr Some by (cases "isDirectories (inodes s i)") (simp_all add: defs sint32_id)
      qed
    qed
  qed
qed

theorem getattr_reports_witness:
  "\<forall>st. \<exists>st'. dhmp_fs_getattr dir_start ''/'' st = Inr (st', 0) \<and> st_mode st' = 0x41B6"
proof
  fix st show "\<exists>st'. dhmp_fs_getattr dir_start ''/'' st = Inr (st', 0) \<and> st_mode st' = 0x41B6"
    using getattr_reports[OF dir_start_inv, of "[]" st] by (auto simp: dir_path_def)
qed

end
