(* ===== verification/Fs_Cache.thy ===== *)
theory Fs_Cache
  imports Fs_Dir
begin

text \<open>
  Banks, their cache and their replicas: the server table of \<open>src/include/dhmp_fs.h\<close>,
  \<open>find_alive_server\<close> of \<open>src/src/dhmp_fs_recovery.c\<close> and the cache half of \<open>src/src/dhmp_fs_io.c\<close>, in the
  configuration the header selects (\<open>DHMP_ON\<close>, \<open>CACHE_ON\<close>). Banks of 4 MiB live on every server and
  in a direct-mapped cache of 128 entries. The calls of the DHMP client library are an argument
  of the definitions, over the client's state \<open>remote\<close>; \<open>Dhmp_Client\<close> supplies them. The
  data of a cache entry is a function from the offset in the bank; a copy that would leave the bank
  is a \<open>Buffer_overflow\<close>. The writer threads of \<open>dhmp_fs_write_to_remote\<close> go to different servers and
  are joined before the function returns; the model runs them in the order of the servers.
\<close>

section \<open>State\<close>

record 'm dhmp_api =
  dhmp_read_op :: "'m \<Rightarrow> nat \<Rightarrow> byte list \<Rightarrow> nat \<Rightarrow> (int \<times> byte list \<times> 'm) res"
  dhmp_write_op :: "'m \<Rightarrow> nat \<Rightarrow> byte list \<Rightarrow> nat \<Rightarrow> (int \<times> 'm) res"
  dhmp_malloc_op :: "'m \<Rightarrow> nat \<Rightarrow> nat \<Rightarrow> (nat \<times> 'm) res"
  dhmp_free_op :: "'m \<Rightarrow> nat \<Rightarrow> 'm res"
  dhmp_send_op :: "'m \<Rightarrow> nat \<Rightarrow> byte list \<Rightarrow> (int \<times> 'm) res"

record rw_task =
  task_bank_id :: nat
  task_size :: nat
  task_bank_offset :: nat

datatype fuse_server_state = CONNECTED | DISCONNECT | RECOVERING | RECONNECT

record server_node =
  server_id :: nat
  alive :: bool
  bank :: "nat \<Rightarrow> nat"
  test_alive_addr :: nat
  rw_tasks :: "rw_task list"
  rw_tasks_len :: int
  server_state :: fuse_server_state
  server_mutex :: bool

record cache_DRAM =
  cache_data :: buf
  bank_Id :: nat
  dirty :: bool

record dhmp_fs_cahce =
  hash_bank_id :: nat
  cache_ptr :: "nat option"

text \<open>
  \<open>cache_ptr\<close> points into \<open>caches\<close>. \<open>rand_seq\<close> holds the values \<open>rand()\<close> is going to return, and
  \<open>stack_ints\<close> what the stack held before a local array of integers is set up.
\<close>

record 'm io_state = index_state +
  cache_hash :: "nat \<Rightarrow> dhmp_fs_cahce"
  caches :: "nat \<Rightarrow> cache_DRAM"
  fuse_sList :: "server_node list"
  rand_seq :: "nat \<Rightarrow> nat"
  rand_pos :: nat
  stack_ints :: "nat \<Rightarrow> int"
  recovery_in_use :: bool
  fuse_mutex :: bool
  fuse_journal_list :: "rw_task list"
  use_bank_len :: nat
  remote :: 'm

definition SERVERNUM :: "('m, 'z) io_state_scheme \<Rightarrow> nat" where
  "SERVERNUM s = length (fuse_sList s)"

definition upd_server :: "('m, 'z) io_state_scheme \<Rightarrow> nat \<Rightarrow> (server_node \<Rightarrow> server_node) \<Rightarrow> ('m, 'z) io_state_scheme" where
  "upd_server s i f = s\<lparr>fuse_sList := (fuse_sList s)[i := f (fuse_sList s ! i)]\<rparr>"

definition upd_cache :: "('m, 'z) io_state_scheme \<Rightarrow> nat \<Rightarrow> (cache_DRAM \<Rightarrow> cache_DRAM) \<Rightarrow> ('m, 'z) io_state_scheme" where
  "upd_cache s p f = s\<lparr>caches := (caches s)(p := f (caches s p))\<rparr>"

section \<open>Writing a bank to every server\<close>

text \<open>
  \<open>memset(actual_write_servers, -1, SERVERNUM)\<close> sets \<open>SERVERNUM\<close> bytes, not integers: an entry none
  of whose bytes are reached keeps what the stack held.
\<close>

definition actual_write_servers0 :: "('m, 'z) io_state_scheme \<Rightarrow> nat \<Rightarrow> int" where
  "actual_write_servers0 s = (\<lambda>i. if 4 * i < SERVERNUM s then -1 else stack_ints s i)"

text \<open>First loop: start a writer per connected server; \<open>res\<close> collects \<open>Args->re\<close> of the started ones.\<close>

fun start_writers :: "'m dhmp_api \<Rightarrow> nat list \<Rightarrow> ('m, 'z) io_state_scheme \<Rightarrow> nat \<Rightarrow> byte list \<Rightarrow> nat \<Rightarrow>
    (nat \<Rightarrow> int) \<Rightarrow> (nat \<rightharpoonup> int) \<Rightarrow> (('m, 'z) io_state_scheme \<times> (nat \<Rightarrow> int) \<times> (nat \<rightharpoonup> int)) res" where
  "start_writers dm [] s bank_id data offset acts all_args = Inr (s, acts, all_args)"
| "start_writers dm (i # is) s bank_id data offset acts all_args =
     (case server_state (fuse_sList s ! i) of
        DISCONNECT \<Rightarrow> start_writers dm is s bank_id data offset acts all_args
      | RECONNECT \<Rightarrow> start_writers dm is s bank_id data offset acts all_args
      | RECOVERING \<Rightarrow>
          start_writers dm is
            (upd_server s i (\<lambda>n. n\<lparr>rw_tasks := rw_tasks n @ [\<lparr>task_bank_id = bank_id, task_size = length data, task_bank_offset = offset\<rparr>],
               rw_tasks_len := rw_tasks_len n + 1\<rparr>)) bank_id data offset acts all_args
      | CONNECTED \<Rightarrow>
          rbind (dhmp_write_op dm (remote s) (bank (fuse_sList s ! i) bank_id) data offset) (\<lambda>(re, m).
            start_writers dm is (s\<lparr>remote := m\<rparr>) bank_id data offset (acts(i := 1)) (all_args(i \<mapsto> re))))"

text \<open>Second loop: join the writers; an entry of \<open>acts\<close> that is 1 by accident joins garbage.\<close>

fun join_writers :: "nat list \<Rightarrow> ('m, 'z) io_state_scheme \<Rightarrow> (nat \<Rightarrow> int) \<Rightarrow> (nat \<rightharpoonup> int) \<Rightarrow> nat \<Rightarrow>
    (('m, 'z) io_state_scheme \<times> nat) res" where
  "join_writers [] s acts all_args sucess_count = Inr (s, sucess_count)"
| "join_writers (i # is) s acts all_args sucess_count =
     (if acts i = 1 then
        (case all_args i of
           None \<Rightarrow> Inl Bad_join
         | Some re \<Rightarrow>
             if re = -1 then
               join_writers is (upd_server s i (\<lambda>n. n\<lparr>alive := False, server_state := DISCONNECT\<rparr>)) acts all_args sucess_count
             else if re \<noteq> -2 then join_writers is s acts all_args (sucess_count + 1)
             else join_writers is s acts all_args sucess_count)
      else join_writers is s acts all_args sucess_count)"

definition dhmp_fs_write_to_remote ::
  "'m dhmp_api \<Rightarrow> ('m, 'z) io_state_scheme \<Rightarrow> nat \<Rightarrow> byte list \<Rightarrow> nat \<Rightarrow> ('m, 'z) io_state_scheme res" where
  "dhmp_fs_write_to_remote dm s bank_id data offset =
     rbind (start_writers dm [0 ..< SERVERNUM s] s bank_id data offset (actual_write_servers0 s) Map.empty)
       (\<lambda>(s1, acts, all_args).
         rbind (join_writers [0 ..< SERVERNUM s] s1 acts all_args 0) (\<lambda>(s2, n). Inr s2))"

section \<open>Reading a bank from some server\<close>

definition find_alive_server :: "('m, 'z) io_state_scheme \<Rightarrow> nat option" where
  "find_alive_server s = List.find (\<lambda>i. server_state (fuse_sList s ! i) = CONNECTED) [0 ..< SERVERNUM s]"

text \<open>
  The loop of \<open>dhmp_fs_read_from_remote\<close>. The client library gets the buffer with what it held and
  returns what it holds then. A server in state \<open>DISCONNECT\<close> is read all the same.
\<close>

fun read_remote_loop :: "'m dhmp_api \<Rightarrow> nat \<Rightarrow> ('m, 'z) io_state_scheme \<Rightarrow> nat option \<Rightarrow> nat \<Rightarrow> byte list \<Rightarrow> nat \<Rightarrow>
    (('m, 'z) io_state_scheme \<times> byte list) res" where
  "read_remote_loop dm 0 s read_server bank_id buf offset = Inl Out_of_fuel"
| "read_remote_loop dm (Suc n) s None bank_id buf offset = Inr (s, buf)"
| "read_remote_loop dm (Suc n) s (Some i) bank_id buf offset =
     (case (if server_state (fuse_sList s ! i) = RECONNECT \<or> server_state (fuse_sList s ! i) = RECOVERING
            then find_alive_server s else Some i) of
        None \<Rightarrow> Inr (s, buf)
      | Some j \<Rightarrow>
          rbind (dhmp_read_op dm (remote s) (bank (fuse_sList s ! j) bank_id) buf offset) (\<lambda>(re, buf1, m).
            let s1 = s\<lparr>remote := m\<rparr>
            in if re = -1 then
                 let s2 = upd_server s1 j (\<lambda>n. n\<lparr>alive := False, server_state := DISCONNECT\<rparr>)
                 in read_remote_loop dm n s2 (find_alive_server s2) bank_id buf1 offset
               else Inr (s1, buf1)))"

text \<open>With no server at all \<open>rand() % SERVERNUM\<close> divides by zero.\<close>

definition dhmp_fs_read_from_remote ::
  "'m dhmp_api \<Rightarrow> ('m, 'z) io_state_scheme \<Rightarrow> nat \<Rightarrow> byte list \<Rightarrow> nat \<Rightarrow> (('m, 'z) io_state_scheme \<times> byte list) res" where
  "dhmp_fs_read_from_remote dm s bank_id buf offset =
     (if SERVERNUM s = 0 then Inl Process_exit
      else read_remote_loop dm (Suc (Suc (SERVERNUM s))) (s\<lparr>rand_pos := Suc (rand_pos s)\<rparr>)
             (Some (rand_seq s (rand_pos s) mod SERVERNUM s)) bank_id buf offset)"

section \<open>The cache\<close>

definition cache_key :: "nat \<Rightarrow> nat" where
  "cache_key bank_id = bank_id AND (CACHE_SIZE - 1)"

text \<open>Type 1 copies from the cache to the buffer, type 2 from the buffer to the cache; the buffer holds
  as many bytes as are to be copied.\<close>

definition try_visit_cache ::
  "('m, 'z) io_state_scheme \<Rightarrow> nat \<Rightarrow> byte list \<Rightarrow> nat \<Rightarrow> nat \<Rightarrow> (('m, 'z) io_state_scheme \<times> byte list \<times> int) res" where
  "try_visit_cache s bank_id local_buffer offset ty =
     (let h = cache_hash s (cache_key bank_id); sz = length local_buffer
      in if hash_bank_id h \<noteq> bank_id then Inr (s, local_buffer, 0)
         else
           (case cache_ptr h of
              None \<Rightarrow> Inl Null_deref
            | Some p \<Rightarrow>
                if ty = 1 then
                  if BANK_SIZE < offset + sz then Inl Buffer_overflow
                  else Inr (s, buf_read (cache_data (caches s p)) offset sz, 1)
                else if ty = 2 then
                  if BANK_SIZE < offset + sz then Inl Buffer_overflow
                  else Inr (upd_cache s p (\<lambda>c. c\<lparr>cache_data := buf_write (cache_data c) offset local_buffer, dirty := True\<rparr>),
                         local_buffer, 1)
                else Inr (s, local_buffer, 1)))"

definition expel_cache_rewrite :: "'m dhmp_api \<Rightarrow> ('m, 'z) io_state_scheme \<Rightarrow> nat \<Rightarrow> ('m, 'z) io_state_scheme res" where
  "expel_cache_rewrite dm s new_bank_id =
     (case cache_ptr (cache_hash s (cache_key new_bank_id)) of
        None \<Rightarrow> Inl Null_deref
      | Some p \<Rightarrow>
          if bank_Id (caches s p) = new_bank_id then Inr s
          else
            rbind (if dirty (caches s p)
                   then dhmp_fs_write_to_remote dm s (bank_Id (caches s p)) (buf_read (cache_data (caches s p)) 0 BANK_SIZE) 0
                   else Inr s) (\<lambda>s1.
              let k = cache_key (bank_Id (caches s1 p));
                  s2 = s1\<lparr>cache_hash := (cache_hash s1)(k := (cache_hash s1 k)\<lparr>hash_bank_id := new_bank_id\<rparr>)\<rparr>;
                  s3 = upd_cache s2 p (\<lambda>c. c\<lparr>bank_Id := new_bank_id\<rparr>)
              in rbind (dhmp_fs_read_from_remote dm s3 new_bank_id (buf_read (cache_data (caches s3 p)) 0 BANK_SIZE) 0) (\<lambda>(s4, bytes).
                   Inr (upd_cache s4 p (\<lambda>c. c\<lparr>cache_data := buf_write (cache_data c) 0 bytes, dirty := False\<rparr>)))))"

text \<open>One sweep of the background thread; \<open>busy\<close> says for which entries \<open>trylock\<close> fails.\<close>

fun rewrite_sweep :: "'m dhmp_api \<Rightarrow> (nat \<Rightarrow> bool) \<Rightarrow> nat list \<Rightarrow> ('m, 'z) io_state_scheme \<Rightarrow> ('m, 'z) io_state_scheme res" where
  "rewrite_sweep dm busy [] s = Inr s"
| "rewrite_sweep dm busy (i # is) s =
     (case cache_ptr (cache_hash s i) of
        None \<Rightarrow> rewrite_sweep dm busy is s
      | Some p \<Rightarrow>
          if dirty (caches s p) \<and> \<not> busy p then
            rbind (dhmp_fs_write_to_remote dm s (bank_Id (caches s p)) (buf_read (cache_data (caches s p)) 0 BANK_SIZE) 0)
              (\<lambda>s1. rewrite_sweep dm busy is (upd_cache s1 p (\<lambda>c. c\<lparr>dirty := False\<rparr>)))
          else rewrite_sweep dm busy is s)"

definition rewrite_dirty_cache :: "'m dhmp_api \<Rightarrow> (nat \<Rightarrow> bool) \<Rightarrow> ('m, 'z) io_state_scheme \<Rightarrow> ('m, 'z) io_state_scheme res" where
  "rewrite_dirty_cache dm busy s = rewrite_sweep dm busy [0 ..< CACHE_SIZE] s"

definition dhmp_fs_read_from_cache ::
  "'m dhmp_api \<Rightarrow> ('m, 'z) io_state_scheme \<Rightarrow> nat \<Rightarrow> byte list \<Rightarrow> nat \<Rightarrow> (('m, 'z) io_state_scheme \<times> byte list) res" where
  "dhmp_fs_read_from_cache dm s bank_id buff offset =
     rbind (try_visit_cache s bank_id buff offset 1) (\<lambda>(s1, buf1, hit).
       if hit = 1 then Inr (s1, buf1)
       else rbind (expel_cache_rewrite dm s1 bank_id) (\<lambda>s2.
              rbind (try_visit_cache s2 bank_id buf1 offset 1) (\<lambda>(s3, buf3, hit3). Inr (s3, buf3))))"

text \<open>After a miss the code visits the cache a second time with type 1, as in reading.\<close>

definition dhmp_fs_write_to_cache ::
  "'m dhmp_api \<Rightarrow> ('m, 'z) io_state_scheme \<Rightarrow> nat \<Rightarrow> byte list \<Rightarrow> nat \<Rightarrow> (('m, 'z) io_state_scheme \<times> byte list) res" where
  "dhmp_fs_write_to_cache dm s bank_id buff offset =
     rbind (try_visit_cache s bank_id buff offset 2) (\<lambda>(s1, buf1, hit).
       if hit = 1 then Inr (s1, buf1)
       else rbind (expel_cache_rewrite dm s1 bank_id) (\<lambda>s2.
              rbind (try_visit_cache s2 bank_id buf1 offset 1) (\<lambda>(s3, buf3, hit3). Inr (s3, buf3))))"

section \<open>The contents of a bank\<close>

text \<open>
  The abstract view: what bank \<open>b\<close> holds, whether its current copy is in the cache or on the servers.
  \<open>content\<close> and \<open>ok\<close> are the memory the client library gives access to.
\<close>

definition cached :: "('m, 'z) io_state_scheme \<Rightarrow> nat \<Rightarrow> nat option" where
  "cached s b = (if hash_bank_id (cache_hash s (cache_key b)) = b then cache_ptr (cache_hash s (cache_key b)) else None)"

definition bank_view :: "('m \<Rightarrow> nat \<Rightarrow> buf) \<Rightarrow> ('m, 'z) io_state_scheme \<Rightarrow> nat \<Rightarrow> buf" where
  "bank_view content s b =
     (case cached s b of Some p \<Rightarrow> cache_data (caches s p) | None \<Rightarrow> content (remote s) (bank (fuse_sList s ! 0) b))"

definition cache_wf :: "('m, 'z) io_state_scheme \<Rightarrow> bool" where
  "cache_wf s \<longleftrightarrow>
     (\<forall>k < CACHE_SIZE. \<exists>p. cache_ptr (cache_hash s k) = Some p \<and> bank_Id (caches s p) = hash_bank_id (cache_hash s k) \<and>
        cache_key (hash_bank_id (cache_hash s k)) = k \<and> hash_bank_id (cache_hash s k) < BANK_NUM) \<and>
     (\<forall>k < CACHE_SIZE. \<forall>k' < CACHE_SIZE. cache_ptr (cache_hash s k) = cache_ptr (cache_hash s k') \<longrightarrow> k = k')"

text \<open>Every server is connected, and no two banks share an address.\<close>

definition servers_ok :: "('m \<Rightarrow> nat \<Rightarrow> bool) \<Rightarrow> ('m, 'z) io_state_scheme \<Rightarrow> bool" where
  "servers_ok ok s \<longleftrightarrow> fuse_sList s \<noteq> [] \<and>
     (\<forall>i < SERVERNUM s. server_state (fuse_sList s ! i) = CONNECTED \<and> (\<forall>b < BANK_NUM. ok (remote s) (bank (fuse_sList s ! i) b))) \<and>
     (\<forall>i < SERVERNUM s. \<forall>j < SERVERNUM s. \<forall>b < BANK_NUM. \<forall>b' < BANK_NUM.
        bank (fuse_sList s ! i) b = bank (fuse_sList s ! j) b' \<longrightarrow> i = j \<and> b = b')"

text \<open>
  \<open>D\<close> is the set of bytes (bank and offset) whose value is determined. The rest is what the memory
  of each server happened to hold when it was allocated, and may differ from server to server. All
  replicas of a bank without unwritten changes agree with the view on the determined bytes.
\<close>

definition replicas_ok :: "('m \<Rightarrow> nat \<Rightarrow> buf) \<Rightarrow> (nat \<Rightarrow> nat \<Rightarrow> bool) \<Rightarrow> ('m, 'z) io_state_scheme \<Rightarrow> bool" where
  "replicas_ok content D s \<longleftrightarrow>
     (\<forall>b < BANK_NUM. (\<forall>p. cached s b = Some p \<longrightarrow> \<not> dirty (caches s p)) \<longrightarrow>
        (\<forall>i < SERVERNUM s. \<forall>off < BANK_SIZE. D b off \<longrightarrow> content (remote s) (bank (fuse_sList s ! i) b) off = bank_view content s b off))"

definition io_ok :: "('m \<Rightarrow> nat \<Rightarrow> buf) \<Rightarrow> ('m \<Rightarrow> nat \<Rightarrow> bool) \<Rightarrow> (nat \<Rightarrow> nat \<Rightarrow> bool) \<Rightarrow> ('m, 'z) io_state_scheme \<Rightarrow> bool" where
  "io_ok content ok D s \<longleftrightarrow> cache_wf s \<and> servers_ok ok s \<and> replicas_ok content D s"

definition same_view :: "('m \<Rightarrow> nat \<Rightarrow> buf) \<Rightarrow> (nat \<Rightarrow> nat \<Rightarrow> bool) \<Rightarrow> ('m, 'z) io_state_scheme \<Rightarrow> ('m, 'z) io_state_scheme \<Rightarrow> bool" where
  "same_view content D s s' \<longleftrightarrow> (\<forall>b < BANK_NUM. \<forall>off < BANK_SIZE. D b off \<longrightarrow> bank_view content s' b off = bank_view content s b off)"

text \<open>What the cache layer never touches.\<close>

definition fs_same :: "('m, 'z) io_state_scheme \<Rightarrow> ('m, 'z) io_state_scheme \<Rightarrow> bool" where
  "fs_same s s' \<longleftrightarrow> inodes s' = inodes s \<and> bitmap s' = bitmap s \<and> context_addr s' = context_addr s \<and>
     next_addr s' = next_addr s \<and> free_inode_slab s' = free_inode_slab s \<and> free_cursor s' = free_cursor s \<and>
     root s' = root s \<and> clock s' = clock s \<and> fuse_sList s' = fuse_sList s"

lemma bank_nonempty: "buf_read f 0 BANK_SIZE \<noteq> []"
proof -
  have "length (buf_read f 0 BANK_SIZE) \<noteq> 0" by (simp add: sizes(1))
  then show ?thesis by (metis list.size(3))
qed

lemma fs_same_refl [simp]: "fs_same s s"
  by (simp add: fs_same_def)

lemma fs_same_trans: "fs_same s s1 \<Longrightarrow> fs_same s1 s2 \<Longrightarrow> fs_same s s2"
  by (simp add: fs_same_def)

lemma same_view_refl [simp]: "same_view content D s s"
  by (simp add: same_view_def)

lemma same_view_trans: "same_view content D s s1 \<Longrightarrow> same_view content D s1 s2 \<Longrightarrow> same_view content D s s2"
  by (simp add: same_view_def)

lemma upd_cache_simps [simp]:
  "caches (upd_cache s p f) = (caches s)(p := f (caches s p))" "cache_hash (upd_cache s p f) = cache_hash s"
  "remote (upd_cache s p f) = remote s" "fuse_sList (upd_cache s p f) = fuse_sList s" "fs_same s (upd_cache s p f)"
  "SERVERNUM (upd_cache s p f) = SERVERNUM s"
  by (simp_all add: upd_cache_def fs_same_def SERVERNUM_def)

lemma cache_key_less: "cache_key b < CACHE_SIZE"
proof -
  have "CACHE_SIZE - 1 = mask 7" by (simp add: const_simps mask_eq_exp_minus_1)
  then have "cache_key b = take_bit 7 b" by (simp only: cache_key_def take_bit_eq_mask)
  then show ?thesis by (simp only: take_bit_eq_mod) (simp add: const_simps)
qed

text \<open>Two banks share a cache entry exactly when they agree modulo 128.\<close>

lemma cache_key_mod: "cache_key b = b mod 128"
proof -
  have "CACHE_SIZE - 1 = mask 7" by (simp add: const_simps mask_eq_exp_minus_1)
  then have "cache_key b = take_bit 7 b" by (simp only: cache_key_def take_bit_eq_mask)
  then show ?thesis by (simp only: take_bit_eq_mod) simp
qed

lemma cache_wf_slot:
  assumes "cache_wf s"
  obtains p where "cache_ptr (cache_hash s (cache_key b)) = Some p"
    "bank_Id (caches s p) = hash_bank_id (cache_hash s (cache_key b))"
    "cache_key (hash_bank_id (cache_hash s (cache_key b))) = cache_key b"
    "hash_bank_id (cache_hash s (cache_key b)) < BANK_NUM"
  using assms cache_key_less[of b] unfolding cache_wf_def by blast

lemma cached_inj: "cache_wf s \<Longrightarrow> cached s b = Some p \<Longrightarrow> cached s b' = Some p \<Longrightarrow> b = b'"
proof -
  assume wf: "cache_wf s" and c: "cached s b = Some p" "cached s b' = Some p"
  have e: "hash_bank_id (cache_hash s (cache_key b)) = b" "hash_bank_id (cache_hash s (cache_key b')) = b'"
    "cache_ptr (cache_hash s (cache_key b)) = cache_ptr (cache_hash s (cache_key b'))"
    using c by (simp_all add: cached_def split: if_splits)
  have k: "cache_key b = cache_key b'" using wf e(3) cache_key_less unfolding cache_wf_def by blast
  show "b = b'" by (rule e(1)[unfolded k e(2), symmetric])
qed

section \<open>Healthy servers\<close>

context remote_store
begin

lemma start_writers_ok:
  assumes dm: "dhmp_write_op dm = wr" and c: "\<forall>i \<in> set is. server_state (fuse_sList s ! i) = CONNECTED \<and> ok (remote s) (bank (fuse_sList s ! i) b)"
    and len: "data \<noteq> []" "off + length data \<le> region"
  shows "\<exists>m'. start_writers dm is s b data off acts args =
      Inr (s\<lparr>remote := m'\<rparr>, (\<lambda>i. if i \<in> set is then 1 else acts i), (\<lambda>i. if i \<in> set is then Some 0 else args i)) \<and>
    wr_all (remote s) (map (\<lambda>i. bank (fuse_sList s ! i) b) is) data off = Inr m'"
  using c
proof (induction "is" arbitrary: s acts args)
  case Nil
  show ?case by (rule exI[of _ "remote s"]) simp
next
  case (Cons i "is")
  have c: "server_state (fuse_sList s ! i) = CONNECTED" "ok (remote s) (bank (fuse_sList s ! i) b)" using Cons.prems by auto
  from wr_ok[OF c(2) len] obtain m1 where m1: "wr (remote s) (bank (fuse_sList s ! i) b) data off = Inr (0, m1)" "ok m1 = ok (remote s)"
    by blast
  let ?s1 = "s\<lparr>remote := m1\<rparr>"
  have "\<forall>i \<in> set is. server_state (fuse_sList ?s1 ! i) = CONNECTED \<and> ok (remote ?s1) (bank (fuse_sList ?s1 ! i) b)"
    using Cons.prems m1(2) by simp
  moreover have srv: "fuse_sList ?s1 = fuse_sList s" "remote ?s1 = m1" by simp_all
  ultimately obtain m' where
    m': "start_writers dm is ?s1 b data off (acts(i := 1)) (args(i \<mapsto> 0)) =
      Inr (?s1\<lparr>remote := m'\<rparr>, (\<lambda>j. if j \<in> set is then 1 else (acts(i := 1)) j), (\<lambda>j. if j \<in> set is then Some 0 else (args(i \<mapsto> 0)) j))"
    "wr_all m1 (map (\<lambda>i. bank (fuse_sList s ! i) b) is) data off = Inr m'"
    using Cons.IH[of ?s1 "acts(i := 1)" "args(i \<mapsto> 0)"] unfolding srv by blast
  have f: "(\<lambda>j. if j \<in> set is then 1 else (acts(i := 1)) j) = (\<lambda>j. if j \<in> set (i # is) then 1 else acts j)"
    "(\<lambda>j. if j \<in> set is then Some 0 else (args(i \<mapsto> 0)) j) = (\<lambda>j. if j \<in> set (i # is) then Some 0 else args j)"
    by (auto simp: fun_eq_iff)
  show ?case using m' m1(1) c(1) dm unfolding f by (intro exI[of _ m']) simp
qed

lemma join_writers_ok:
  "\<forall>i \<in> set is. acts i = 1 \<and> args i = Some 0 \<Longrightarrow> join_writers is s acts args k = Inr (s, k + length is)"
  by (induction "is" arbitrary: k) auto

lemma write_to_remote_ok:
  assumes dm: "dhmp_write_op dm = wr" and h: "servers_ok ok s" "b < BANK_NUM" and len: "data \<noteq> []" "off + length data \<le> region"
  shows "\<exists>m'. dhmp_fs_write_to_remote dm s b data off = Inr (s\<lparr>remote := m'\<rparr>) \<and> ok m' = ok (remote s) \<and>
    (\<forall>a. ok (remote s) a \<longrightarrow> content m' a =
       (if \<exists>i < SERVERNUM s. a = bank (fuse_sList s ! i) b then buf_write (content (remote s) a) off data else content (remote s) a))"
proof -
  let ?is = "[0 ..< SERVERNUM s]" and ?as = "map (\<lambda>i. bank (fuse_sList s ! i) b) [0 ..< SERVERNUM s]"
  have c: "\<forall>i \<in> set ?is. server_state (fuse_sList s ! i) = CONNECTED \<and> ok (remote s) (bank (fuse_sList s ! i) b)"
    using h by (auto simp: servers_ok_def)
  from start_writers_ok[OF dm c len, of "actual_write_servers0 s" Map.empty] obtain m' where
    m': "start_writers dm ?is s b data off (actual_write_servers0 s) Map.empty =
      Inr (s\<lparr>remote := m'\<rparr>, (\<lambda>i. if i \<in> set ?is then 1 else actual_write_servers0 s i), (\<lambda>i. if i \<in> set ?is then Some 0 else Map.empty i))"
    "wr_all (remote s) ?as data off = Inr m'" by blast
  have "dhmp_fs_write_to_remote dm s b data off = Inr (s\<lparr>remote := m'\<rparr>)"
    unfolding dhmp_fs_write_to_remote_def m'(1) rbind_Inr prod.case by (subst join_writers_ok) simp_all
  moreover have "\<forall>a \<in> set ?as. ok (remote s) a" using c by simp
  from wr_all_ok[OF this len] m'(2) have "ok m' = ok (remote s) \<and>
    (\<forall>a. ok (remote s) a \<longrightarrow> content m' a = (if a \<in> set ?as then buf_write (content (remote s) a) off data else content (remote s) a))"
    by auto
  moreover have "a \<in> set ?as \<longleftrightarrow> (\<exists>i < SERVERNUM s. a = bank (fuse_sList s ! i) b)" for a by auto
  ultimately show ?thesis by (intro exI[of _ m']) auto
qed

lemma read_from_remote_ok:
  assumes dm: "dhmp_read_op dm = rd" and h: "servers_ok ok s" "b < BANK_NUM" and len: "buf \<noteq> []" "off + length buf \<le> region"
  shows "\<exists>m' j. dhmp_fs_read_from_remote dm s b buf off =
      Inr (s\<lparr>rand_pos := Suc (rand_pos s), remote := m'\<rparr>, buf_read (content (remote s) (bank (fuse_sList s ! j) b)) off (length buf)) \<and>
    j < SERVERNUM s \<and> ok m' = ok (remote s) \<and> (\<forall>a. ok (remote s) a \<longrightarrow> content m' a = content (remote s) a)"
proof -
  have n: "SERVERNUM s \<noteq> 0" using h(1) by (simp add: servers_ok_def SERVERNUM_def)
  let ?j = "rand_seq s (rand_pos s) mod SERVERNUM s"
  have j: "?j < SERVERNUM s" using n by simp
  have c: "server_state (fuse_sList s ! ?j) = CONNECTED" "ok (remote s) (bank (fuse_sList s ! ?j) b)"
    using h j by (auto simp: servers_ok_def)
  from rd_ok[OF c(2) len] obtain m' where m': "rd (remote s) (bank (fuse_sList s ! ?j) b) buf off =
      Inr (0, buf_read (content (remote s) (bank (fuse_sList s ! ?j) b)) off (length buf), m')"
    "ok m' = ok (remote s)" "\<forall>a. ok (remote s) a \<longrightarrow> content m' a = content (remote s) a" by blast
  have "dhmp_fs_read_from_remote dm s b buf off =
      Inr (s\<lparr>rand_pos := Suc (rand_pos s), remote := m'\<rparr>, buf_read (content (remote s) (bank (fuse_sList s ! ?j) b)) off (length buf))"
    unfolding dhmp_fs_read_from_remote_def using n c(1) m'(1) dm by simp
  then show ?thesis using m' j by blast
qed

end

lemma cachedD:
  assumes "cached s b = Some p"
  shows "hash_bank_id (cache_hash s (cache_key b)) = b" "cache_ptr (cache_hash s (cache_key b)) = Some p"
  using assms by (simp_all add: cached_def split: if_splits)

text \<open>A cache entry \<open>p\<close> handed over from bank \<open>b0\<close> to bank \<open>new\<close>.\<close>

definition handed_over :: "('m, 'z) io_state_scheme \<Rightarrow> ('m, 'z) io_state_scheme \<Rightarrow> nat \<Rightarrow> nat \<Rightarrow> nat \<Rightarrow> buf \<Rightarrow> bool" where
  "handed_over s s' p b0 new data \<longleftrightarrow>
     cache_hash s' = (cache_hash s)(cache_key new := (cache_hash s (cache_key new))\<lparr>hash_bank_id := new\<rparr>) \<and>
     caches s' = (caches s)(p := \<lparr>cache_data = data, bank_Id = new, dirty = False\<rparr>) \<and> fs_same s s'"

lemma handed_over_cached:
  assumes wf: "cache_wf s" and c: "cached s b0 = Some p" "cache_key b0 = cache_key new" "b0 \<noteq> new" "new < BANK_NUM"
    and ho: "handed_over s s' p b0 new data"
  shows "cache_wf s'" "cached s' b = (if b = new then Some p else if b = b0 then None else cached s b)"
    "b \<noteq> new \<Longrightarrow> cached s' b = Some q \<Longrightarrow> q \<noteq> p"
proof -
  note cd = cachedD[OF c(1)]
  have h: "cache_hash s' = (cache_hash s)(cache_key new := (cache_hash s (cache_key new))\<lparr>hash_bank_id := new\<rparr>)"
    "caches s' = (caches s)(p := \<lparr>cache_data = data, bank_Id = new, dirty = False\<rparr>)"
    using ho by (simp_all add: handed_over_def)
  have ptr: "cache_ptr (cache_hash s' k) = cache_ptr (cache_hash s k)" for k by (simp add: h(1))
  have pk: "cache_ptr (cache_hash s (cache_key new)) = Some p" "hash_bank_id (cache_hash s (cache_key new)) = b0"
    using cd c(2) by simp_all
  have other: "cache_ptr (cache_hash s k) \<noteq> Some p" if "k < CACHE_SIZE" "k \<noteq> cache_key new" for k
    using wf pk(1) that cache_key_less[of new] unfolding cache_wf_def by metis
  show "cache_wf s'"
    unfolding cache_wf_def
  proof (intro conjI allI impI)
    fix k assume k: "k < CACHE_SIZE"
    show "\<exists>p. cache_ptr (cache_hash s' k) = Some p \<and> bank_Id (caches s' p) = hash_bank_id (cache_hash s' k) \<and>
        cache_key (hash_bank_id (cache_hash s' k)) = k \<and> hash_bank_id (cache_hash s' k) < BANK_NUM"
    proof (cases "k = cache_key new")
      case True
      then show ?thesis using pk(1) c(4) by (simp add: h)
    next
      case False
      from wf k obtain q where q: "cache_ptr (cache_hash s k) = Some q" "bank_Id (caches s q) = hash_bank_id (cache_hash s k)"
        "cache_key (hash_bank_id (cache_hash s k)) = k" "hash_bank_id (cache_hash s k) < BANK_NUM" unfolding cache_wf_def by blast
      then have "q \<noteq> p" using other[OF k False] by auto
      then show ?thesis using q False by (simp add: h)
    qed
  next
    fix k k' assume "k < CACHE_SIZE" "k' < CACHE_SIZE" "cache_ptr (cache_hash s' k) = cache_ptr (cache_hash s' k')"
    then show "k = k'" using wf unfolding ptr cache_wf_def by blast
  qed
  show e: "cached s' b = (if b = new then Some p else if b = b0 then None else cached s b)"
  proof (cases "cache_key b = cache_key new")
    case True
    have "cached s' b = (if new = b then Some p else None)" using pk(1) unfolding cached_def h(1) True by auto
    moreover have "cached s b = (if b0 = b then Some p else None)" using pk unfolding cached_def True by simp
    ultimately show ?thesis using c(3) by simp
  next
    case False
    have "cached s' b = cached s b" using False unfolding cached_def h(1) by simp
    moreover have "b \<noteq> new" "b \<noteq> b0" using False c(2) by auto
    ultimately show ?thesis by simp
  qed
  then show "b \<noteq> new \<Longrightarrow> cached s' b = Some q \<Longrightarrow> q \<noteq> p"
    using cached_inj[OF wf c(1), of b] by (auto split: if_splits)
qed

context remote_store
begin

lemma expel_ok:
  assumes dm: "dhmp_read_op dm = rd" "dhmp_write_op dm = wr" "BANK_SIZE \<le> region"
    and io: "io_ok content ok D s" and new: "new < BANK_NUM" "cached s new = None"
  shows "\<exists>s' p. expel_cache_rewrite dm s new = Inr s' \<and> io_ok content ok D s' \<and> same_view content D s s' \<and> fs_same s s' \<and>
    cached s' new = Some p \<and> \<not> dirty (caches s' p)"
proof -
  have wf: "cache_wf s" and srv: "servers_ok ok s" and rep: "replicas_ok content D s" using io by (simp_all add: io_ok_def)
  obtain p where p: "cache_ptr (cache_hash s (cache_key new)) = Some p"
    "bank_Id (caches s p) = hash_bank_id (cache_hash s (cache_key new))"
    "cache_key (hash_bank_id (cache_hash s (cache_key new))) = cache_key new"
    "hash_bank_id (cache_hash s (cache_key new)) < BANK_NUM" using cache_wf_slot[OF wf] by blast
  define b0 where "b0 = bank_Id (caches s p)"
  have b0: "cache_key b0 = cache_key new" "b0 < BANK_NUM" "cached s b0 = Some p" "b0 \<noteq> new"
    using p new(2) by (auto simp: b0_def cached_def split: if_splits)
  let ?bk = "\<lambda>i b. bank (fuse_sList s ! i) b"
  have okb: "ok (remote s) (?bk i b)" if "i < SERVERNUM s" "b < BANK_NUM" for i b using srv that by (simp add: servers_ok_def)
  have n0: "0 < SERVERNUM s" using srv by (simp add: servers_ok_def SERVERNUM_def)
  have dist: "?bk i b = ?bk j b' \<longleftrightarrow> i = j \<and> b = b'" if "i < SERVERNUM s" "j < SERVERNUM s" "b < BANK_NUM" "b' < BANK_NUM" for i j b b'
    using srv that unfolding servers_ok_def by blast
  let ?w = "if dirty (caches s p) then dhmp_fs_write_to_remote dm s b0 (buf_read (cache_data (caches s p)) 0 BANK_SIZE) 0 else Inr s"
  have "\<exists>m1. ?w = Inr (s\<lparr>remote := m1\<rparr>) \<and> ok m1 = ok (remote s) \<and>
      (\<forall>i < SERVERNUM s. \<forall>b < BANK_NUM. b \<noteq> b0 \<longrightarrow> content m1 (?bk i b) = content (remote s) (?bk i b)) \<and>
      (\<forall>i < SERVERNUM s. \<forall>off < BANK_SIZE. D b0 off \<longrightarrow> content m1 (?bk i b0) off = cache_data (caches s p) off)"
  proof (cases "dirty (caches s p)")
    case False
    have "\<forall>i < SERVERNUM s. \<forall>off < BANK_SIZE. D b0 off \<longrightarrow> content (remote s) (?bk i b0) off = bank_view content s b0 off"
      using rep b0(2,3) False unfolding replicas_ok_def by auto
    then show ?thesis using False b0(3) by (intro exI[of _ "remote s"]) (simp add: bank_view_def)
  next
    case True
    have "0 + length (buf_read (cache_data (caches s p)) 0 BANK_SIZE) \<le> region" using dm(3) by simp
    from write_to_remote_ok[OF dm(2) srv b0(2) bank_nonempty this] obtain m1 where
      m1: "dhmp_fs_write_to_remote dm s b0 (buf_read (cache_data (caches s p)) 0 BANK_SIZE) 0 = Inr (s\<lparr>remote := m1\<rparr>)"
      "ok m1 = ok (remote s)" "\<And>a. ok (remote s) a \<Longrightarrow> content m1 a = (if \<exists>i < SERVERNUM s. a = ?bk i b0
         then buf_write (content (remote s) a) 0 (buf_read (cache_data (caches s p)) 0 BANK_SIZE) else content (remote s) a)"
      by blast
    have "content m1 (?bk i b) = content (remote s) (?bk i b)" if "i < SERVERNUM s" "b < BANK_NUM" "b \<noteq> b0" for i b
      using m1(3)[OF okb[OF that(1,2)]] dist[OF that(1) _ that(2) b0(2)] that(3) by auto
    moreover have "content m1 (?bk i b0) off = cache_data (caches s p) off" if "i < SERVERNUM s" "off < BANK_SIZE" for i off
      using m1(3)[OF okb[OF that(1) b0(2)]] that by (auto simp: buf_write_def)
    ultimately show ?thesis using True m1(1,2) by auto
  qed
  then obtain m1 where m1: "?w = Inr (s\<lparr>remote := m1\<rparr>)" "ok m1 = ok (remote s)"
    "\<And>i b. i < SERVERNUM s \<Longrightarrow> b < BANK_NUM \<Longrightarrow> b \<noteq> b0 \<Longrightarrow> content m1 (?bk i b) = content (remote s) (?bk i b)"
    "\<And>i off. i < SERVERNUM s \<Longrightarrow> off < BANK_SIZE \<Longrightarrow> D b0 off \<Longrightarrow> content m1 (?bk i b0) off = cache_data (caches s p) off" by blast
  define s3 where "s3 = upd_cache ((s\<lparr>remote := m1\<rparr>)\<lparr>cache_hash := (cache_hash s)(cache_key b0 :=
      (cache_hash s (cache_key b0))\<lparr>hash_bank_id := new\<rparr>)\<rparr>) p (\<lambda>c. c\<lparr>bank_Id := new\<rparr>)"
  have s3: "fuse_sList s3 = fuse_sList s" "remote s3 = m1" "SERVERNUM s3 = SERVERNUM s" "fs_same s s3"
    by (simp_all add: s3_def SERVERNUM_def upd_cache_def fs_same_def)
  have srv3: "servers_ok ok s3" using srv m1(2) by (simp add: servers_ok_def s3)
  have "0 + length (buf_read (cache_data (caches s3 p)) 0 BANK_SIZE) \<le> region" using dm(3) by simp
  from read_from_remote_ok[OF dm(1) srv3 new(1) bank_nonempty this] obtain m2 j where
    m2: "dhmp_fs_read_from_remote dm s3 new (buf_read (cache_data (caches s3 p)) 0 BANK_SIZE) 0 =
      Inr (s3\<lparr>rand_pos := Suc (rand_pos s3), remote := m2\<rparr>, buf_read (content m1 (?bk j new)) 0 BANK_SIZE)"
    "j < SERVERNUM s" "ok m2 = ok m1" "\<And>a. ok m1 a \<Longrightarrow> content m2 a = content m1 a" unfolding s3(1-3) length_buf_read by blast
  let ?data = "buf_write (cache_data (caches s p)) 0 (buf_read (content m1 (?bk j new)) 0 BANK_SIZE)"
  define s' where "s' = upd_cache (s3\<lparr>rand_pos := Suc (rand_pos s3), remote := m2\<rparr>) p (\<lambda>c. c\<lparr>cache_data := ?data, dirty := False\<rparr>)"
  have ex: "expel_cache_rewrite dm s new = Inr s'"
  proof -
    have "caches s3 p = (caches s p)\<lparr>bank_Id := new\<rparr>" by (simp add: s3_def)
    then have st: "upd_cache (s3\<lparr>rand_pos := Suc (rand_pos s3), remote := m2\<rparr>) p (\<lambda>c. c\<lparr>cache_data :=
        buf_write (cache_data c) 0 (buf_read (content m1 (?bk j new)) 0 BANK_SIZE), dirty := False\<rparr>) = s'"
      by (simp add: s'_def upd_cache_def)
    have r: "cache_hash (s\<lparr>remote := m1\<rparr>) = cache_hash s" "bank_Id (caches (s\<lparr>remote := m1\<rparr>) p) = b0"
      by (simp_all add: b0_def)
    show ?thesis
      unfolding expel_cache_rewrite_def p(1) option.case b0_def[symmetric] if_not_P[OF b0(4)] m1(1) rbind_Inr Let_def r
        s3_def[symmetric] m2(1) prod.case by (simp only: st)
  qed
  have ho: "handed_over s s' p b0 new ?data"
    using b0(1) by (cases "caches s p") (simp add: handed_over_def s'_def s3_def upd_cache_def fs_same_def)
  note hc = handed_over_cached[OF wf b0(3,1,4) new(1) ho]
  have rem: "remote s' = m2" "fuse_sList s' = fuse_sList s" "SERVERNUM s' = SERVERNUM s" "fs_same s s'"
  proof -
    show fs: "fs_same s s'" using ho by (simp add: handed_over_def)
    then show "fuse_sList s' = fuse_sList s" by (simp add: fs_same_def)
    then show "SERVERNUM s' = SERVERNUM s" by (simp add: SERVERNUM_def)
    show "remote s' = m2" by (simp add: s'_def)
  qed
  have cs: "caches s' = (caches s)(p := \<lparr>cache_data = ?data, bank_Id = new, dirty = False\<rparr>)" using ho by (simp add: handed_over_def)
  have okm: "ok m1 (?bk i b)" if "i < SERVERNUM s" "b < BANK_NUM" for i b using okb[OF that] m1(2) by simp
  have con: "content m2 (?bk i b) = content m1 (?bk i b)" if "i < SERVERNUM s" "b < BANK_NUM" for i b
    by (rule m2(4)[OF okm[OF that]])
  have vnew: "content (remote s) (?bk i new) off = bank_view content s new off" if "i < SERVERNUM s" "off < BANK_SIZE" "D new off" for i off
    using rep new that by (simp add: replicas_ok_def)
  have dnew: "?data off = bank_view content s new off" if "off < BANK_SIZE" "D new off" for off
    using that m1(3)[OF m2(2) new(1)] b0(4) vnew[OF m2(2) that] by (simp add: buf_write_def)
  have view: "bank_view content s' b off = bank_view content s b off" if b: "b < BANK_NUM" "off < BANK_SIZE" "D b off" for b off
  proof -
    consider "b = new" | "b = b0" | "b \<noteq> new" "b \<noteq> b0" by blast
    then show ?thesis
    proof cases
      case 1
      then show ?thesis using dnew[OF b(2)] b(3) by (simp add: bank_view_def[of _ s'] hc(2) cs)
    next
      case 2
      then show ?thesis using m1(4)[OF n0 b(2)] b(3) con[OF n0 b0(2)] b0(3,4) by (simp add: bank_view_def hc(2) rem)
    next
      case 3
      show ?thesis
      proof (cases "cached s b")
        case None
        then show ?thesis using 3 m1(3)[OF n0 b(1)] con[OF n0 b(1)] by (simp add: bank_view_def hc(2) rem)
      next
        case (Some q)
        then have "q \<noteq> p" using cached_inj[OF wf Some, of b0] b0(3) 3(2) by auto
        then show ?thesis using 3 Some by (simp add: bank_view_def hc(2) cs)
      qed
    qed
  qed
  have "replicas_ok content D s'"
    unfolding replicas_ok_def rem
  proof (intro allI impI)
    fix b i off assume b: "b < BANK_NUM" "i < SERVERNUM s" "off < BANK_SIZE" "D b off"
      and cl: "\<forall>q. cached s' b = Some q \<longrightarrow> \<not> dirty (caches s' q)"
    have "content m1 (?bk i b) off = bank_view content s b off"
    proof (cases "b = b0")
      case True
      then show ?thesis using m1(4)[OF b(2,3)] b(4) b0(3) by (simp add: bank_view_def)
    next
      case False
      have "\<forall>q. cached s b = Some q \<longrightarrow> \<not> dirty (caches s q)"
      proof (intro allI impI)
        fix q assume q: "cached s b = Some q"
        then have "b \<noteq> new" using new(2) by auto
        then have "cached s' b = Some q" "q \<noteq> p" using q False hc(2,3)[of b] by auto
        then show "\<not> dirty (caches s q)" using cl cs by auto
      qed
      then have "content (remote s) (?bk i b) off = bank_view content s b off" using rep b unfolding replicas_ok_def by blast
      then show ?thesis using m1(3)[OF b(2,1) False] by simp
    qed
    then show "content m2 (?bk i b) off = bank_view content s' b off" using con[OF b(2,1)] view[OF b(1,3,4)] by simp
  qed
  moreover have "servers_ok ok s'" using srv m1(2) m2(3) by (simp add: servers_ok_def rem)
  ultimately have "io_ok content ok D s'" using hc(1) by (simp add: io_ok_def)
  moreover have "same_view content D s s'" using view by (simp add: same_view_def)
  moreover have "cached s' new = Some p" "\<not> dirty (caches s' p)" by (simp_all add: hc(2) cs)
  ultimately show ?thesis using ex rem(4) by blast
qed

end

section \<open>The cache as a view of the banks\<close>

lemma visit_hit:
  assumes "cached s b = Some p" "off + length buf \<le> BANK_SIZE"
  shows "try_visit_cache s b buf off 1 = Inr (s, buf_read (cache_data (caches s p)) off (length buf), 1)"
    "try_visit_cache s b buf off 2 =
       Inr (upd_cache s p (\<lambda>c. c\<lparr>cache_data := buf_write (cache_data c) off buf, dirty := True\<rparr>), buf, 1)"
  using cachedD[OF assms(1)] assms(2) by (simp_all add: try_visit_cache_def Let_def)

lemma visit_miss:
  assumes "cache_wf s" "cached s b = None"
  shows "try_visit_cache s b buf off ty = Inr (s, buf, 0)"
proof -
  obtain p where "cache_ptr (cache_hash s (cache_key b)) = Some p" using cache_wf_slot[OF assms(1)] by blast
  then have "hash_bank_id (cache_hash s (cache_key b)) \<noteq> b" using assms(2) by (auto simp: cached_def split: if_splits)
  then show ?thesis by (simp add: try_visit_cache_def Let_def)
qed

text \<open>Changing the data of a cached bank and marking it dirty.\<close>

lemma dirty_hit_ok:
  fixes content :: "'m \<Rightarrow> nat \<Rightarrow> buf"
  assumes io: "io_ok content ok D s" and c: "cached s b = Some p" and b: "b < BANK_NUM"
    and s': "s' = upd_cache s p (\<lambda>c. c\<lparr>cache_data := f, dirty := True\<rparr>)"
  shows "io_ok content ok (\<lambda>b1 off. b1 = b \<or> D b1 off) s'" "fs_same s s'" "cached s' = cached s" "bank_view content s' b = f"
    "b' \<noteq> b \<Longrightarrow> bank_view content s' b' = bank_view content s b'"
proof -
  have wf: "cache_wf s" and srv: "servers_ok ok s" and rep: "replicas_ok content D s" using io by (simp_all add: io_ok_def)
  have sel: "cache_hash s' = cache_hash s" "fuse_sList s' = fuse_sList s" "remote s' = remote s" "SERVERNUM s' = SERVERNUM s"
    "caches s' = (caches s)(p := (caches s p)\<lparr>cache_data := f, dirty := True\<rparr>)" by (simp_all add: s')
  show fs: "fs_same s s'" by (simp add: s')
  show ce: "cached s' = cached s" by (simp add: fun_eq_iff cached_def sel)
  show v: "bank_view content s' b = f" using c by (simp add: bank_view_def ce sel)
  have ov: "bank_view content s' b' = bank_view content s b'" if "b' \<noteq> b" for b'
    using cached_inj[OF wf c, of b'] that by (auto simp: bank_view_def ce sel split: option.split)
  then show "b' \<noteq> b \<Longrightarrow> bank_view content s' b' = bank_view content s b'" .
  have "bank_Id (caches s' q) = bank_Id (caches s q)" for q by (simp add: sel)
  then have "cache_wf s'" using wf by (simp add: cache_wf_def sel(1))
  moreover have "servers_ok ok s'" using srv by (simp add: servers_ok_def sel)
  moreover have "replicas_ok content (\<lambda>b1 off. b1 = b \<or> D b1 off) s'"
    unfolding replicas_ok_def ce sel(2-4)
  proof (intro allI impI)
    fix b' i off assume h: "b' < BANK_NUM" "\<forall>q. cached s b' = Some q \<longrightarrow> \<not> dirty (caches s' q)" "i < SERVERNUM s" "off < BANK_SIZE"
      "b' = b \<or> D b' off"
    have "b' \<noteq> b" using h(2) c by (auto simp: sel)
    moreover have "\<forall>q. cached s b' = Some q \<longrightarrow> \<not> dirty (caches s q)" using h(2) by (auto simp: sel split: if_splits)
    ultimately show "content (remote s) (bank (fuse_sList s ! i) b') off = bank_view content s' b' off"
      using rep h ov[of b'] by (simp add: replicas_ok_def)
  qed
  ultimately show "io_ok content ok (\<lambda>b1 off. b1 = b \<or> D b1 off) s'" by (simp add: io_ok_def)
qed

lemma cached_slot: "cache_wf s \<Longrightarrow> cache_ptr (cache_hash s k) = Some p \<Longrightarrow> k < CACHE_SIZE \<Longrightarrow>
    cached s (bank_Id (caches s p)) = Some p \<and> bank_Id (caches s p) < BANK_NUM"
  unfolding cache_wf_def cached_def by (metis option.inject)

context remote_store
begin

lemma cache_read_ok:
  assumes dm: "dhmp_read_op dm = rd" "dhmp_write_op dm = wr" "BANK_SIZE \<le> region"
    and io: "io_ok content ok D s" and b: "b < BANK_NUM" "off + length buf \<le> BANK_SIZE"
  shows "\<exists>s'. dhmp_fs_read_from_cache dm s b buf off = Inr (s', buf_read (bank_view content s' b) off (length buf)) \<and>
    io_ok content ok D s' \<and> same_view content D s s' \<and> fs_same s s' \<and> cached s' b \<noteq> None"
proof (cases "cached s b")
  case (Some p)
  have "dhmp_fs_read_from_cache dm s b buf off = Inr (s, buf_read (bank_view content s b) off (length buf))"
    unfolding dhmp_fs_read_from_cache_def visit_hit(1)[OF Some b(2)] rbind_Inr prod.case bank_view_def Some by simp
  then show ?thesis using io Some by (intro exI[of _ s]) simp
next
  case None
  have wf: "cache_wf s" using io by (simp add: io_ok_def)
  from expel_ok[OF dm io b(1) None] obtain s' p where e: "expel_cache_rewrite dm s b = Inr s'" "io_ok content ok D s'"
    "same_view content D s s'" "fs_same s s'" "cached s' b = Some p" by blast
  have "dhmp_fs_read_from_cache dm s b buf off = Inr (s', buf_read (bank_view content s' b) off (length buf))"
    unfolding dhmp_fs_read_from_cache_def visit_miss[OF wf None] rbind_Inr prod.case e(1) visit_hit(1)[OF e(5) b(2)] bank_view_def e(5) by simp
  then show ?thesis using e by auto
qed

lemma cache_write_hit:
  assumes io: "io_ok content ok D s" and b: "b < BANK_NUM" "off + length buf \<le> BANK_SIZE" and c: "cached s b = Some p"
  shows "\<exists>s'. dhmp_fs_write_to_cache dm s b buf off = Inr (s', buf) \<and> io_ok content ok (\<lambda>b1 off. b1 = b \<or> D b1 off) s' \<and> fs_same s s' \<and> cached s' = cached s \<and>
    bank_view content s' b = buf_write (bank_view content s b) off buf \<and>
    (\<forall>b'. b' \<noteq> b \<longrightarrow> bank_view content s' b' = bank_view content s b')"
proof -
  let ?s' = "upd_cache s p (\<lambda>c. c\<lparr>cache_data := buf_write (cache_data c) off buf, dirty := True\<rparr>)"
  have "?s' = upd_cache s p (\<lambda>c. c\<lparr>cache_data := buf_write (bank_view content s b) off buf, dirty := True\<rparr>)"
    using c by (simp add: upd_cache_def bank_view_def)
  note d = dirty_hit_ok[OF io c b(1) this]
  have "dhmp_fs_write_to_cache dm s b buf off = Inr (?s', buf)"
    unfolding dhmp_fs_write_to_cache_def visit_hit(2)[OF c b(2)] rbind_Inr prod.case by simp
  then show ?thesis using d by blast
qed

text \<open>A write that misses the cache is a read: the bank is fetched and the data goes nowhere.\<close>

lemma cache_write_miss:
  assumes dm: "dhmp_read_op dm = rd" "dhmp_write_op dm = wr" "BANK_SIZE \<le> region"
    and io: "io_ok content ok D s" and b: "b < BANK_NUM" "off + length buf \<le> BANK_SIZE" and c: "cached s b = None"
  shows "\<exists>s'. dhmp_fs_write_to_cache dm s b buf off = Inr (s', buf_read (bank_view content s' b) off (length buf)) \<and>
    io_ok content ok D s' \<and> same_view content D s s' \<and> fs_same s s' \<and> cached s' b \<noteq> None"
proof -
  have wf: "cache_wf s" using io by (simp add: io_ok_def)
  have "dhmp_fs_write_to_cache dm s b buf off = dhmp_fs_read_from_cache dm s b buf off"
    by (simp add: dhmp_fs_write_to_cache_def dhmp_fs_read_from_cache_def visit_miss[OF wf c])
  then show ?thesis using cache_read_ok[OF dm io b] by simp
qed

lemma flush_ok:
  assumes dm: "dhmp_write_op dm = wr" "BANK_SIZE \<le> region" and io: "io_ok content ok D s"
    and p: "cached s b0 = Some p" "b0 < BANK_NUM"
  shows "\<exists>m1. dhmp_fs_write_to_remote dm s b0 (buf_read (cache_data (caches s p)) 0 BANK_SIZE) 0 = Inr (s\<lparr>remote := m1\<rparr>) \<and>
    io_ok content ok D (upd_cache (s\<lparr>remote := m1\<rparr>) p (\<lambda>c. c\<lparr>dirty := False\<rparr>)) \<and>
    same_view content D s (upd_cache (s\<lparr>remote := m1\<rparr>) p (\<lambda>c. c\<lparr>dirty := False\<rparr>))"
proof -
  have wf: "cache_wf s" and srv: "servers_ok ok s" and rep: "replicas_ok content D s" using io by (simp_all add: io_ok_def)
  let ?bk = "\<lambda>i b. bank (fuse_sList s ! i) b" and ?data = "buf_read (cache_data (caches s p)) 0 BANK_SIZE"
  have okb: "ok (remote s) (?bk i b)" if "i < SERVERNUM s" "b < BANK_NUM" for i b using srv that by (simp add: servers_ok_def)
  have n0: "0 < SERVERNUM s" using srv by (simp add: servers_ok_def SERVERNUM_def)
  have dist: "?bk i b = ?bk j b' \<longleftrightarrow> i = j \<and> b = b'" if "i < SERVERNUM s" "j < SERVERNUM s" "b < BANK_NUM" "b' < BANK_NUM" for i j b b'
    using srv that unfolding servers_ok_def by blast
  have "0 + length ?data \<le> region" using dm(2) by simp
  from write_to_remote_ok[OF dm(1) srv p(2) bank_nonempty this] obtain m1 where
    m1: "dhmp_fs_write_to_remote dm s b0 ?data 0 = Inr (s\<lparr>remote := m1\<rparr>)" "ok m1 = ok (remote s)"
    "\<And>a. ok (remote s) a \<Longrightarrow> content m1 a = (if \<exists>i < SERVERNUM s. a = ?bk i b0 then buf_write (content (remote s) a) 0 ?data else content (remote s) a)"
    by blast
  have other: "content m1 (?bk i b) = content (remote s) (?bk i b)" if "i < SERVERNUM s" "b < BANK_NUM" "b \<noteq> b0" for i b
    using m1(3)[OF okb[OF that(1,2)]] dist[OF that(1) _ that(2) p(2)] that(3) by auto
  have this_bank: "content m1 (?bk i b0) off = cache_data (caches s p) off" if "i < SERVERNUM s" "off < BANK_SIZE" for i off
    using m1(3)[OF okb[OF that(1) p(2)]] that by (auto simp: buf_write_def)
  define s' where "s' = upd_cache (s\<lparr>remote := m1\<rparr>) p (\<lambda>c. c\<lparr>dirty := False\<rparr>)"
  have sel: "cache_hash s' = cache_hash s" "fuse_sList s' = fuse_sList s" "remote s' = m1" "SERVERNUM s' = SERVERNUM s"
    "caches s' = (caches s)(p := (caches s p)\<lparr>dirty := False\<rparr>)" by (simp_all add: s'_def SERVERNUM_def)
  have ce: "cached s' = cached s" by (simp add: fun_eq_iff cached_def sel)
  have view: "bank_view content s' b = bank_view content s b" if "b < BANK_NUM" for b
  proof (cases "cached s b")
    case None
    then have "b \<noteq> b0" using p(1) by auto
    then show ?thesis using None other[OF n0 that] by (simp add: bank_view_def ce sel)
  next
    case (Some q)
    then show ?thesis by (simp add: bank_view_def ce sel)
  qed
  have "bank_Id (caches s' q) = bank_Id (caches s q)" for q by (simp add: sel)
  then have "cache_wf s'" using wf by (simp add: cache_wf_def sel(1))
  moreover have "servers_ok ok s'" using srv m1(2) by (simp add: servers_ok_def sel)
  moreover have "replicas_ok content D s'"
    unfolding replicas_ok_def ce sel(2-4)
  proof (intro allI impI)
    fix b i off assume h: "b < BANK_NUM" "\<forall>q. cached s b = Some q \<longrightarrow> \<not> dirty (caches s' q)" "i < SERVERNUM s" "off < BANK_SIZE" "D b off"
    show "content m1 (?bk i b) off = bank_view content s' b off"
    proof (cases "b = b0")
      case True
      then show ?thesis using this_bank[OF h(3,4)] p(1) view[OF h(1)] by (simp add: bank_view_def)
    next
      case False
      then have "\<forall>q. cached s b = Some q \<longrightarrow> q \<noteq> p" using cached_inj[OF wf p(1), of b] by auto
      then have "\<forall>q. cached s b = Some q \<longrightarrow> \<not> dirty (caches s q)" using h(2) by (auto simp: sel)
      then have "content (remote s) (?bk i b) off = bank_view content s b off" using rep h unfolding replicas_ok_def by blast
      then show ?thesis using other[OF h(3,1) False] view[OF h(1)] by simp
    qed
  qed
  ultimately have "io_ok content ok D s'" by (simp add: io_ok_def)
  moreover have "same_view content D s s'" using view by (simp add: same_view_def)
  ultimately show ?thesis using m1(1) unfolding s'_def by blast
qed

text \<open>A sweep of the background thread writes back what it can lock and changes no view.\<close>

lemma sweep_ok:
  assumes dm: "dhmp_write_op dm = wr" "BANK_SIZE \<le> region" and io: "io_ok content ok D s" and k: "\<forall>k \<in> set is. k < CACHE_SIZE"
  shows "\<exists>s'. rewrite_sweep dm busy is s = Inr s' \<and> io_ok content ok D s' \<and> same_view content D s s' \<and> fs_same s s' \<and>
    cache_hash s' = cache_hash s \<and>
    (\<forall>q. dirty (caches s' q) \<longleftrightarrow> dirty (caches s q) \<and> (busy q \<or> (\<forall>k \<in> set is. cache_ptr (cache_hash s k) \<noteq> Some q)))"
  using io k
proof (induction "is" arbitrary: s)
  case Nil
  then show ?case by simp
next
  case (Cons i "is")
  have wf: "cache_wf s" using Cons.prems(1) by (simp add: io_ok_def)
  have i: "i < CACHE_SIZE" and k: "\<forall>k \<in> set is. k < CACHE_SIZE" using Cons.prems(2) by auto
  obtain p where p: "cache_ptr (cache_hash s i) = Some p" using wf i unfolding cache_wf_def by blast
  show ?case
  proof (cases "dirty (caches s p) \<and> \<not> busy p")
    case False
    from Cons.IH[OF Cons.prems(1) k] show ?thesis using p False by auto
  next
    case True
    note c = cached_slot[OF wf p i]
    from flush_ok[OF dm Cons.prems(1), of "bank_Id (caches s p)" p] c obtain m1 where m1:
      "dhmp_fs_write_to_remote dm s (bank_Id (caches s p)) (buf_read (cache_data (caches s p)) 0 BANK_SIZE) 0 = Inr (s\<lparr>remote := m1\<rparr>)"
      "io_ok content ok D (upd_cache (s\<lparr>remote := m1\<rparr>) p (\<lambda>c. c\<lparr>dirty := False\<rparr>))"
      "same_view content D s (upd_cache (s\<lparr>remote := m1\<rparr>) p (\<lambda>c. c\<lparr>dirty := False\<rparr>))" by blast
    let ?s1 = "upd_cache (s\<lparr>remote := m1\<rparr>) p (\<lambda>c. c\<lparr>dirty := False\<rparr>)"
    have sel: "cache_hash ?s1 = cache_hash s" "fs_same s ?s1" "dirty (caches ?s1 q) \<longleftrightarrow> dirty (caches s q) \<and> q \<noteq> p" for q
      by (simp_all add: upd_cache_def fs_same_def)
    from Cons.IH[OF m1(2) k] obtain s' where s': "rewrite_sweep dm busy is ?s1 = Inr s'" "io_ok content ok D s'"
      "same_view content D ?s1 s'" "fs_same ?s1 s'" "cache_hash s' = cache_hash s"
      "\<forall>q. dirty (caches s' q) \<longleftrightarrow> (dirty (caches s q) \<and> q \<noteq> p) \<and> (busy q \<or> (\<forall>k \<in> set is. cache_ptr (cache_hash s k) \<noteq> Some q))"
      unfolding sel(1,3) by blast
    have "rewrite_sweep dm busy (i # is) s = Inr s'" using p True m1(1) s'(1) by simp
    moreover have "same_view content D s s'" "fs_same s s'"
      using same_view_trans[OF m1(3) s'(3)] fs_same_trans[OF sel(2) s'(4)] by blast+
    moreover have "\<forall>q. dirty (caches s' q) \<longleftrightarrow> dirty (caches s q) \<and> (busy q \<or> (\<forall>k \<in> set (i # is). cache_ptr (cache_hash s k) \<noteq> Some q))"
      using s'(6) p True by auto
    ultimately show ?thesis using s'(2,5) by blast
  qed
qed

end

section \<open>Failing servers\<close>

text \<open>
  Whatever the client library answers, reading a bank ends: each failed attempt after the first
  disconnects a server that was connected. It gives up only when no server is left connected.
\<close>

definition connected :: "('m, 'z) io_state_scheme \<Rightarrow> nat set" where
  "connected s = {i. i < SERVERNUM s \<and> server_state (fuse_sList s ! i) = CONNECTED}"

lemma find_alive_server_spec:
  "find_alive_server s = None \<longleftrightarrow> connected s = {}"
  "find_alive_server s = Some i \<Longrightarrow> i \<in> connected s"
proof -
  show "find_alive_server s = None \<longleftrightarrow> connected s = {}"
    by (auto simp: find_alive_server_def connected_def find_None_iff)
  show "find_alive_server s = Some i \<Longrightarrow> i \<in> connected s"
    by (auto simp: find_alive_server_def connected_def find_Some_iff)
qed

lemma connected_drop:
  assumes "i < SERVERNUM s"
  shows "connected (upd_server (s\<lparr>remote := m\<rparr>) i (\<lambda>n. n\<lparr>alive := False, server_state := DISCONNECT\<rparr>)) = connected s - {i}"
    "SERVERNUM (upd_server (s\<lparr>remote := m\<rparr>) i (\<lambda>n. n\<lparr>alive := False, server_state := DISCONNECT\<rparr>)) = SERVERNUM s"
  using assms by (auto simp: connected_def upd_server_def SERVERNUM_def nth_list_update)

text \<open>The buffer is what a server's answer left in it, or no server is connected any more.\<close>

definition answered :: "'m dhmp_api \<Rightarrow> ('m, 'z) io_state_scheme \<Rightarrow> nat \<Rightarrow> nat \<Rightarrow> byte list \<Rightarrow> bool" where
  "answered dm s b offset buf' \<longleftrightarrow>
     (\<exists>j < SERVERNUM s. \<exists>m buf re m'. dhmp_read_op dm m (bank (fuse_sList s ! j) b) buf offset = Inr (re, buf', m') \<and> re \<noteq> -1)"

lemma answered_upd: "answered dm (upd_server (s\<lparr>remote := m\<rparr>) i (\<lambda>n. n\<lparr>alive := a, server_state := st\<rparr>)) b offset = answered dm s b offset"
proof -
  have "bank (fuse_sList (upd_server (s\<lparr>remote := m\<rparr>) i (\<lambda>n. n\<lparr>alive := a, server_state := st\<rparr>)) ! j) = bank (fuse_sList s ! j)" for j
    by (cases "i < length (fuse_sList s)") (auto simp: upd_server_def nth_list_update list_update_beyond)
  moreover have "SERVERNUM (upd_server (s\<lparr>remote := m\<rparr>) i (\<lambda>n. n\<lparr>alive := a, server_state := st\<rparr>)) = SERVERNUM s"
    by (simp add: upd_server_def SERVERNUM_def)
  ultimately show ?thesis by (simp add: fun_eq_iff answered_def)
qed

lemma read_remote_loop_returns:
  assumes dm: "\<forall>m a buf. \<exists>r. dhmp_read_op dm m a buf offset = Inr r"
    and fuel: "card (connected s) < fuel" "r = None \<Longrightarrow> connected s = {}" "\<And>i. r = Some i \<Longrightarrow> i \<in> connected s"
  shows "\<exists>s' buf'. read_remote_loop dm fuel s r b buf offset = Inr (s', buf') \<and> connected s' \<subseteq> connected s \<and>
    (connected s' = {} \<or> answered dm s b offset buf')"
  using fuel
proof (induction fuel arbitrary: s r buf)
  case 0
  then show ?case by simp
next
  case (Suc fuel)
  show ?case
  proof (cases r)
    case None
    then show ?thesis using Suc.prems(2) by simp
  next
    case (Some i)
    then have i: "i < SERVERNUM s" "server_state (fuse_sList s ! i) = CONNECTED" using Suc.prems(3)[OF Some] by (simp_all add: connected_def)
    obtain re buf1 m where d: "dhmp_read_op dm (remote s) (bank (fuse_sList s ! i) b) buf offset = Inr (re, buf1, m)"
      using dm by (metis prod_cases3)
    show ?thesis
    proof (cases "re = -1")
      case False
      then have "answered dm s b offset buf1" using i(1) d unfolding answered_def by blast
      then show ?thesis using Some i(2) d False by (auto simp: Let_def connected_def SERVERNUM_def)
    next
      case True
      let ?s2 = "upd_server (s\<lparr>remote := m\<rparr>) i (\<lambda>n. n\<lparr>alive := False, server_state := DISCONNECT\<rparr>)"
      have c: "connected ?s2 = connected s - {i}" by (rule connected_drop(1)[OF i(1)])
      have "finite (connected s)" by (simp add: connected_def)
      then have "card (connected ?s2) < card (connected s)" using Suc.prems(3)[OF Some] unfolding c by (rule card_Diff1_less)
      then have "card (connected ?s2) < fuel" using Suc.prems(1) by simp
      from Suc.IH[OF this, of "find_alive_server ?s2" buf1] obtain s' buf' where
        "read_remote_loop dm fuel ?s2 (find_alive_server ?s2) b buf1 offset = Inr (s', buf')" "connected s' \<subseteq> connected ?s2"
        "connected s' = {} \<or> answered dm s b offset buf'" using find_alive_server_spec[of ?s2] answered_upd[of dm m s i DISCONNECT False b offset] by auto
      then show ?thesis using Some i(2) d True c by (auto simp: Let_def)
    qed
  qed
qed

section \<open>Properties\<close>

text \<open>C31: \<open>dhmp_fs_read_from_remote\<close> returns, whatever the servers do: with at least one server in
  the table, the loop over the servers ends for every behaviour of \<open>dhmp_read\<close>, no server becomes
  connected by it, and the buffer it comes back with is the answer of one of the servers unless every
  server has been disconnected.\<close>

theorem bank_read_returns:
  assumes dm: "\<forall>m a buf. \<exists>r. dhmp_read_op dm m a buf offset = Inr r" and n: "SERVERNUM s \<noteq> 0"
  shows "\<exists>s' buf'. dhmp_fs_read_from_remote dm s b buf offset = Inr (s', buf') \<and> connected s' \<subseteq> connected s \<and>
    (connected s' = {} \<or> answered dm s b offset buf')"
proof -
  let ?s = "s\<lparr>rand_pos := Suc (rand_pos s)\<rparr>" and ?i = "rand_seq s (rand_pos s) mod SERVERNUM s"
  have sn: "SERVERNUM ?s = SERVERNUM s" "connected ?s = connected s" "fuse_sList ?s = fuse_sList s" by (simp_all add: SERVERNUM_def connected_def)
  have i: "?i < SERVERNUM ?s" using n sn by simp
  have card: "card (connected s) \<le> SERVERNUM s" using card_mono[of "{..< SERVERNUM s}" "connected s"] by (auto simp: connected_def)
  have an: "answered dm ?s = answered dm s" by (simp add: fun_eq_iff answered_def sn)
  obtain j where j: "(if server_state (fuse_sList ?s ! ?i) = RECONNECT \<or> server_state (fuse_sList ?s ! ?i) = RECOVERING
            then find_alive_server ?s else Some ?i) = j" by blast
  show ?thesis
  proof (cases j)
    case None
    then have "connected ?s = {}" using j find_alive_server_spec(1)[of ?s] by (auto split: if_splits)
    then show ?thesis using n j None sn by (simp add: dhmp_fs_read_from_remote_def)
  next
    case (Some k)
    then have k: "k < SERVERNUM ?s" using j i find_alive_server_spec(2)[of ?s k] by (auto simp: connected_def split: if_splits)
    obtain re buf1 m where d: "dhmp_read_op dm (remote ?s) (bank (fuse_sList ?s ! k) b) buf offset = Inr (re, buf1, m)"
      using dm by (metis prod_cases3)
    let ?s2 = "upd_server (?s\<lparr>remote := m\<rparr>) k (\<lambda>n. n\<lparr>alive := False, server_state := DISCONNECT\<rparr>)"
    have c: "connected ?s2 = connected s - {k}" using connected_drop(1)[OF k] sn(2) by simp
    then have "card (connected ?s2) < Suc (SERVERNUM s)" using card card_Diff1_le[of "connected s" k] by simp
    from read_remote_loop_returns[OF dm this, of "find_alive_server ?s2" b buf1] obtain s' buf' where r:
      "read_remote_loop dm (Suc (SERVERNUM s)) ?s2 (find_alive_server ?s2) b buf1 offset = Inr (s', buf')" "connected s' \<subseteq> connected ?s2"
      "connected s' = {} \<or> answered dm s b offset buf'"
      using find_alive_server_spec[of ?s2] answered_upd[of dm m ?s k DISCONNECT False b offset] an by auto
    have eq: "dhmp_fs_read_from_remote dm s b buf offset = (if re = -1 then Inr (s', buf') else Inr (?s\<lparr>remote := m\<rparr>, buf1))"
      unfolding dhmp_fs_read_from_remote_def using n r(1) d by (simp only: if_False read_remote_loop.simps(3) j Some option.case rbind_Inr prod.case Let_def if_cancel)
    show ?thesis
    proof (cases "re = -1")
      case True
      then show ?thesis using eq r(2,3) c by auto
    next
      case False
      then have "answered dm ?s b offset buf1" using k d unfolding answered_def by blast
      then have "answered dm s b offset buf1" unfolding an .
      moreover have "connected (?s\<lparr>remote := m\<rparr>) = connected s" by (simp add: connected_def SERVERNUM_def)
      ultimately show ?thesis using eq False by auto
    qed
  qed
qed

text \<open>Three connected servers none of which answers.\<close>

definition down_api :: "unit dhmp_api" where
  "down_api = \<lparr>dhmp_read_op = (\<lambda>m a buf off. Inr (-1, buf, m)), dhmp_write_op = (\<lambda>m a bs off. Inr (-1, m)),
     dhmp_malloc_op = (\<lambda>m n k. Inr (0, m)), dhmp_free_op = (\<lambda>m a. Inr m), dhmp_send_op = (\<lambda>m a bs. Inr (-1, m))\<rparr>"

definition new_server :: "nat \<Rightarrow> (nat \<Rightarrow> nat) \<Rightarrow> server_node" where
  "new_server i banks = \<lparr>server_id = i, alive = True, bank = banks, test_alive_addr = 0, rw_tasks = [], rw_tasks_len = 0,
     server_state = CONNECTED, server_mutex = False\<rparr>"

definition io_start :: "server_node list \<Rightarrow> 'm \<Rightarrow> 'm io_state" where
  "io_start servers m = \<lparr>inodes = (\<lambda>_. blank_inode), next_addr = 1, free_inode_slab = [], bitmap = (\<lambda>_. False),
     free_cursor = 0, context_addr = (\<lambda>_. \<lparr>csize = 0, which_inode_it_is = None\<rparr>), root = 0, clock = 0,
     cache_hash = (\<lambda>k. \<lparr>hash_bank_id = k, cache_ptr = Some k\<rparr>),
     caches = (\<lambda>k. \<lparr>cache_data = (\<lambda>_. 0), bank_Id = k, dirty = False\<rparr>), fuse_sList = servers,
     rand_seq = (\<lambda>_. 0), rand_pos = 0, stack_ints = (\<lambda>_. 0), recovery_in_use = False, fuse_mutex = False,
     fuse_journal_list = [], use_bank_len = 0, remote = m\<rparr>"

theorem bank_read_returns_witness:
  "\<exists>s' buf'. dhmp_fs_read_from_remote down_api (io_start [new_server 0 id, new_server 1 id, new_server 2 id] ()) 5 [7, 8] 0 = Inr (s', buf') \<and>
    connected s' \<subseteq> connected (io_start [new_server 0 id, new_server 1 id, new_server 2 id] ()) \<and>
    (connected s' = {} \<or> answered down_api (io_start [new_server 0 id, new_server 1 id, new_server 2 id] ()) 5 0 buf')"
  by (rule bank_read_returns) (simp_all add: down_api_def io_start_def SERVERNUM_def)

end
