(* ===== verification/Fs_Io.thy ===== *)
theory Fs_Io
  imports Fs_Cache
begin

text \<open>
  Reading and writing files: \<open>dhmp_fs_read\<close> and \<open>dhmp_fs_write\<close> of \<open>src/src/dhmp_fs_io.c\<close>, over the
  index of \<open>Fs_Index\<close> and the cache of \<open>Fs_Cache\<close>.
\<close>

section \<open>Writing and reading a file\<close>

text \<open>Replacing the bytes of the caller's buffer from \<open>pos\<close> on.\<close>

definition put_bytes :: "byte list \<Rightarrow> nat \<Rightarrow> byte list \<Rightarrow> byte list" where
  "put_bytes bs pos new = take pos bs @ new @ drop (pos + length new) bs"

definition chunk_bank :: "chunk_id \<Rightarrow> nat" where
  "chunk_bank c = (c * CHUNK_SIZE) div BANK_SIZE"

definition chunk_pos :: "chunk_id \<Rightarrow> nat" where
  "chunk_pos c = (c * CHUNK_SIZE) mod BANK_SIZE"

text \<open>
  The loops carry the buffer, how much of it is done and how much is left, and the file offset; every
  round that goes on handles at least one byte, so the fuel is the number of bytes plus one.
\<close>

fun write_loop :: "'m dhmp_api \<Rightarrow> nat \<Rightarrow> ('m, 'z) io_state_scheme \<Rightarrow> inode_id \<Rightarrow> byte list \<Rightarrow> nat \<Rightarrow> nat \<Rightarrow> nat \<Rightarrow>
    (('m, 'z) io_state_scheme \<times> byte list) res" where
  "write_loop dm 0 s head buff write_size un_write_size offset = Inl Out_of_fuel"
| "write_loop dm (Suc n) s head buff write_size un_write_size offset =
     (if un_write_size = 0 then Inr (s, buff)
      else
        rbind (level3_local_index s offset head False) (\<lambda>(s1, cnt, chunk_offset).
          case cnt of
            None \<Rightarrow> Inl Null_deref
          | Some c \<Rightarrow>
              if un_write_size \<ge> usub64 CHUNK_SIZE chunk_offset then
                let now_write_size = usub64 CHUNK_SIZE chunk_offset
                in rbind (dhmp_fs_write_to_cache dm s1 (chunk_bank c) (take now_write_size (drop write_size buff))
                           (chunk_pos c + chunk_offset)) (\<lambda>(s2, part).
                     let s3 = upd_inode s2 head (\<lambda>d. d\<lparr>isize := uadd64 (isize d) (usub64 CHUNK_SIZE (csize (context_addr s2 c)))\<rparr>);
                         s4 = upd_context s3 c (\<lambda>x. x\<lparr>csize := CHUNK_SIZE\<rparr>)
                     in write_loop dm n s4 head (put_bytes buff write_size part) (write_size + now_write_size)
                          (un_write_size - now_write_size) (offset + now_write_size))
              else
                rbind (dhmp_fs_write_to_cache dm s1 (chunk_bank c) (take un_write_size (drop write_size buff))
                         (chunk_pos c + chunk_offset)) (\<lambda>(s2, part).
                  let end_offset = un_write_size + chunk_offset;
                      s4 = (if csize (context_addr s2 c) < end_offset then
                              upd_context (upd_inode s2 head (\<lambda>d. d\<lparr>isize :=
                                  uadd64 (isize d) (usub64 end_offset (csize (context_addr s2 c)))\<rparr>)) c (\<lambda>x. x\<lparr>csize := end_offset\<rparr>)
                            else s2)
                  in Inr (s4, put_bytes buff write_size part))))"

text \<open>The result is the state, the caller's buffer and the return value; \<open>fh\<close> is \<open>fi->fh\<close>.\<close>

definition dhmp_fs_write ::
  "'m dhmp_api \<Rightarrow> ('m, 'z) io_state_scheme \<Rightarrow> byte list \<Rightarrow> nat \<Rightarrow> inode_id option \<Rightarrow> (('m, 'z) io_state_scheme \<times> byte list \<times> int) res" where
  "dhmp_fs_write dm s buff offset fh =
     (case fh of
        None \<Rightarrow> Inr (s, buff, -1)
      | Some head \<Rightarrow>
          if isDirectories (inodes s head) then Inr (s, buff, -1)
          else rbind (write_loop dm (Suc (length buff)) s head buff 0 (length buff) offset) (\<lambda>(s', buff').
                 Inr (s', buff', sint32 (int (length buff)))))"

fun read_loop :: "'m dhmp_api \<Rightarrow> nat \<Rightarrow> ('m, 'z) io_state_scheme \<Rightarrow> inode_id \<Rightarrow> byte list \<Rightarrow> nat \<Rightarrow> nat \<Rightarrow> nat \<Rightarrow>
    (('m, 'z) io_state_scheme \<times> byte list \<times> nat) res" where
  "read_loop dm 0 s head buff read_size un_read_size offset = Inl Out_of_fuel"
| "read_loop dm (Suc n) s head buff read_size un_read_size offset =
     (if un_read_size = 0 then Inr (s, buff, read_size)
      else
        rbind (level3_local_index s offset head True) (\<lambda>(s1, cnt, chunk_offset).
          case cnt of
            None \<Rightarrow> Inr (s1, buff, read_size)
          | Some c \<Rightarrow>
              let now_read_size = usub64 (csize (context_addr s1 c)) chunk_offset
              in if un_read_size \<ge> now_read_size then
                   if now_read_size = 0 then Inr (s1, buff, read_size)
                   else
                     rbind (dhmp_fs_read_from_cache dm s1 (chunk_bank c) (take now_read_size (drop read_size buff))
                              (chunk_pos c + chunk_offset)) (\<lambda>(s2, part).
                       read_loop dm n s2 head (put_bytes buff read_size part) (read_size + now_read_size)
                         (un_read_size - now_read_size) (offset + now_read_size))
                 else
                   rbind (dhmp_fs_read_from_cache dm s1 (chunk_bank c) (take un_read_size (drop read_size buff))
                            (chunk_pos c + chunk_offset)) (\<lambda>(s2, part).
                     Inr (s2, put_bytes buff read_size part, read_size + un_read_size))))"

definition dhmp_fs_read ::
  "'m dhmp_api \<Rightarrow> ('m, 'z) io_state_scheme \<Rightarrow> byte list \<Rightarrow> nat \<Rightarrow> inode_id option \<Rightarrow> (('m, 'z) io_state_scheme \<times> byte list \<times> int) res" where
  "dhmp_fs_read dm s buff offset fh =
     (case fh of
        None \<Rightarrow> Inr (s, buff, -1)
      | Some head \<Rightarrow>
          if isDirectories (inodes s head) then Inr (s, buff, -1)
          else rbind (read_loop dm (Suc (length buff)) s head buff 0 (length buff) offset) (\<lambda>(s', buff', n).
                 Inr (s', buff', sint32 (int n))))"

section \<open>The bytes of a file\<close>

text \<open>
  The abstract file: a partial function from offsets to bytes. A byte is there when its chunk is and
  the chunk's size reaches it; its value is the view of the chunk's bank.
\<close>

definition file_byte :: "('m \<Rightarrow> nat \<Rightarrow> buf) \<Rightarrow> ('m, 'z) io_state_scheme \<Rightarrow> inode_id \<Rightarrow> nat \<Rightarrow> byte option" where
  "file_byte content s i n =
     (if n < SIZE_THIRD_DIRECT_END then
        (case file_chunk s i (n div CHUNK_SIZE) of
           None \<Rightarrow> None
         | Some c \<Rightarrow> if n mod CHUNK_SIZE < csize (context_addr s c)
                     then Some (bank_view content s (chunk_bank c) (chunk_pos c + n mod CHUNK_SIZE)) else None)
      else None)"

lemma io_more:
  assumes "index_state.more s' = index_state.more s"
  shows "cache_hash s' = cache_hash s" "caches s' = caches s" "fuse_sList s' = fuse_sList s" "remote s' = remote s"
  using assms by (cases s; cases s'; simp)+

lemma io_cong:
  fixes s s' :: "('m, 'z) io_state_scheme"
  assumes "cache_hash s' = cache_hash s" "caches s' = caches s" "fuse_sList s' = fuse_sList s" "remote s' = remote s"
  shows "cached s' = cached s" "bank_view content s' = bank_view content s" "io_ok content ok D s' = io_ok content ok D s"
    "SERVERNUM s' = SERVERNUM s"
proof -
  show c: "cached s' = cached s" by (simp add: fun_eq_iff cached_def assms)
  show v: "bank_view content s' = bank_view content s" by (simp add: fun_eq_iff bank_view_def c assms split: option.split)
  show n: "SERVERNUM s' = SERVERNUM s" by (simp add: SERVERNUM_def assms)
  show "io_ok content ok D s' = io_ok content ok D s"
    by (simp add: io_ok_def cache_wf_def servers_ok_def replicas_ok_def c v n assms)
qed

lemma upd_io [simp]:
  "cache_hash (upd_inode s i f) = cache_hash s" "caches (upd_inode s i f) = caches s" "remote (upd_inode s i f) = remote s"
  "fuse_sList (upd_inode s i f) = fuse_sList s" "cache_hash (upd_context s c g) = cache_hash s"
  "caches (upd_context s c g) = caches s" "remote (upd_context s c g) = remote s" "fuse_sList (upd_context s c g) = fuse_sList s"
  by (simp_all add: upd_inode_def upd_context_def)

text \<open>A chunk lies inside one bank, and no two chunks overlap.\<close>

lemma chunk_in_bank:
  assumes "c < CHUNK_NUM"
  shows "chunk_bank c < BANK_NUM" "chunk_pos c + CHUNK_SIZE \<le> BANK_SIZE"
proof -
  have b: "BANK_SIZE = 1024 * 4096" by (simp add: const_simps)
  have e: "chunk_bank c = c div 1024" "chunk_pos c = (c mod 1024) * 4096"
    unfolding chunk_bank_def chunk_pos_def b sizes(2) by (rule div_mult_mult2, simp) (rule mult_mod_left[symmetric])
  have "c < 2048 * 1024" using assms by (simp add: sizes(4))
  then show "chunk_bank c < BANK_NUM" unfolding e(1) sizes(3) by (rule less_mult_imp_div_less)
  have "c mod 1024 < 1024" by simp
  then have "c mod 1024 + 1 \<le> 1024" by linarith
  then have "(c mod 1024 + 1) * 4096 \<le> 1024 * 4096" by (rule mult_le_mono1)
  then show "chunk_pos c + CHUNK_SIZE \<le> BANK_SIZE" unfolding e(2) b sizes(2) by linarith
qed

lemma chunks_disjoint:
  assumes "chunk_bank c = chunk_bank c'" "chunk_pos c + o1 = chunk_pos c' + o2" "o1 < CHUNK_SIZE" "o2 < CHUNK_SIZE"
  shows "c = c' \<and> o1 = o2"
proof -
  have e: "chunk_bank x * 4194304 + chunk_pos x = x * 4096" for x
    unfolding chunk_bank_def chunk_pos_def sizes(1,2) by (rule div_mult_mod_eq)
  have "c * 4096 + o1 = c' * 4096 + o2" using e[of c] e[of c'] assms(1,2) by linarith
  moreover have "(x * 4096 + y) div 4096 = x" if "y < 4096" for x y :: nat using that by simp
  ultimately have "c = c'" using assms(3,4) unfolding sizes(2) by metis
  then show ?thesis using assms(2) by simp
qed

lemma isize_bound:
  assumes "ix_inv s"
  shows "isize (inodes s i) \<le> CHUNK_NUM * CHUNK_SIZE"
proof -
  let ?cs = "ctxs (inodes s i)"
  have own: "owns_ok s i" "sizes_ok s i" using ix_invD[OF assms] by blast+
  have "sum_list (map (\<lambda>c. csize (context_addr s c)) ?cs) \<le> sum_list (map (\<lambda>c. CHUNK_SIZE) ?cs)"
    using own(2) by (intro sum_list_mono) (simp add: sizes_ok_def)
  also have "\<dots> = length ?cs * CHUNK_SIZE" by (induction ?cs) (simp_all add: sum_list_triv)
  also have "length ?cs = card (set ?cs)" using own(1) by (simp add: owns_ok_def distinct_card)
  also have "\<dots> \<le> card {..< CHUNK_NUM}" using own(1) by (intro card_mono) (auto simp: owns_ok_def)
  finally show ?thesis using own(2) by (simp add: sizes_ok_def)
qed

text \<open>Enlarging a chunk together with the size of its file.\<close>

lemma ix_inv_grow:
  assumes inv: "ix_inv s" and c: "c \<in> set (ctxs (inodes s i))" and n: "csize (context_addr s c) \<le> n" "n \<le> CHUNK_SIZE"
  shows "ix_inv (upd_context (upd_inode s i (\<lambda>d. d\<lparr>isize := isize d + (n - csize (context_addr s c))\<rparr>)) c (\<lambda>x. x\<lparr>csize := n\<rparr>))"
    (is "ix_inv ?s'")
proof -
  have own: "owns_ok s j" "sizes_ok s j" for j using ix_invD[OF inv] by blast+
  have sz: "csize (context_addr ?s' c') = (if c' = c then n else csize (context_addr s c'))" for c' by simp
  have "sizes_ok ?s' j" for j
  proof (cases "j = i")
    case False
    then have "c \<notin> set (ctxs (inodes s j))" using owner_unique[OF own(1) own(1) c] by blast
    then have "\<forall>a \<in> set (ctxs (inodes s j)). csize (context_addr ?s' a) = csize (context_addr s a)" by auto
    moreover have "inodes ?s' j = inodes s j" using False by simp
    ultimately show ?thesis using own(2)[of j] unfolding sizes_ok_def by (metis (no_types, lifting) map_eq_conv)
  next
    case True
    obtain xs ys where cs: "ctxs (inodes s i) = xs @ c # ys" using split_list[OF c] by blast
    have d: "c \<notin> set xs" "c \<notin> set ys" using own(1)[of i] cs by (auto simp: owns_ok_def)
    have "map (\<lambda>a. if a = c then n else csize (context_addr s a)) zs = map (\<lambda>a. csize (context_addr s a)) zs" if "c \<notin> set zs" for zs
      using that by auto
    note m = this[OF d(1)] this[OF d(2)]
    show ?thesis using True own(2)[of i] n unfolding sizes_ok_def sz by (simp add: cs m del: map_eq_conv)
  qed
  moreover have "owns_ok ?s' j" for j using own(1)[of j] by (auto simp: owns_ok_def)
  moreover have "bitmap s c" using own(1)[of i] c by (simp add: owns_ok_def)
  have "ctxs (inodes ?s' j) = ctxs (inodes s j)" for j by simp
  then have "chunks_ok ?s'" using ix_invD(3)[OF inv] \<open>bitmap s c\<close> unfolding chunks_ok_def by simp
  ultimately show ?thesis by (simp add: ix_inv_def)
qed

lemma file_chunk_owned: "ix_inv s \<Longrightarrow> file_chunk s i n = Some c \<Longrightarrow> c \<in> set (ctxs (inodes s i)) \<and> c < CHUNK_NUM \<and> bitmap s c"
  using ix_invD(1)[of s i] unfolding owns_ok_def file_chunk_def by blast

lemma csize_le: "ix_inv s \<Longrightarrow> file_chunk s i n = Some c \<Longrightarrow> csize (context_addr s c) \<le> CHUNK_SIZE"
  using file_chunk_owned[of s i n c] ix_invD(2)[of s i] by (simp add: sizes_ok_def)

text \<open>
  What a write of \<open>data\<close> at \<open>offset\<close> does to the files; \<open>D\<close> and \<open>D'\<close> are the determined bytes before
  and after. The bytes in the range are there afterwards; bytes outside the range stay, with their value
  if it was determined; only a gap before the range in the same chunk can appear with it; other files do
  not change. When the banks of the chunks were in the cache before, the range holds the data.
\<close>

definition known :: "(nat \<Rightarrow> nat \<Rightarrow> bool) \<Rightarrow> ('m, 'z) io_state_scheme \<Rightarrow> inode_id \<Rightarrow> nat \<Rightarrow> bool" where
  "known D s i n \<longleftrightarrow> n < SIZE_THIRD_DIRECT_END \<and>
     (case file_chunk s i (n div CHUNK_SIZE) of None \<Rightarrow> False | Some c \<Rightarrow> D (chunk_bank c) (chunk_pos c + n mod CHUNK_SIZE))"

definition resident :: "('m, 'z) io_state_scheme \<Rightarrow> ('m, 'z) io_state_scheme \<Rightarrow> inode_id \<Rightarrow> nat \<Rightarrow> nat \<Rightarrow> bool" where
  "resident s s' head offset n \<longleftrightarrow>
     (\<forall>j. offset \<le> j \<and> j < offset + n \<longrightarrow>
        (case file_chunk s' head (j div CHUNK_SIZE) of None \<Rightarrow> True | Some c \<Rightarrow> cached s (chunk_bank c) \<noteq> None))"

text \<open>Byte \<open>n\<close> of file \<open>i\<close> stays there, and keeps a determined value.\<close>

definition kept :: "('m \<Rightarrow> nat \<Rightarrow> buf) \<Rightarrow> (nat \<Rightarrow> nat \<Rightarrow> bool) \<Rightarrow> ('m, 'z) io_state_scheme \<Rightarrow> ('m, 'z) io_state_scheme \<Rightarrow> inode_id \<Rightarrow> nat \<Rightarrow> bool" where
  "kept content D s s' i n \<longleftrightarrow> (file_byte content s i n \<noteq> None \<longrightarrow> file_byte content s' i n \<noteq> None) \<and>
     (known D s i n \<longrightarrow> file_byte content s i n \<noteq> None \<longrightarrow> file_byte content s' i n = file_byte content s i n)"

definition other_files :: "('m \<Rightarrow> nat \<Rightarrow> buf) \<Rightarrow> (nat \<Rightarrow> nat \<Rightarrow> bool) \<Rightarrow> ('m, 'z) io_state_scheme \<Rightarrow> ('m, 'z) io_state_scheme \<Rightarrow> inode_id \<Rightarrow> bool" where
  "other_files content D s s' head \<longleftrightarrow>
     (\<forall>i. i \<noteq> head \<longrightarrow> inodes s' i = inodes s i \<and>
        (\<forall>n. kept content D s s' i n \<and> (file_byte content s' i n \<noteq> None \<longrightarrow> file_byte content s i n \<noteq> None))) \<and>
     inodes s' head = (inodes s head)\<lparr>cnt_id := cnt_id (inodes s' head), ctxs := ctxs (inodes s' head), isize := isize (inodes s' head)\<rparr> \<and>
     next_addr s' = next_addr s \<and> free_inode_slab s' = free_inode_slab s \<and> root s' = root s \<and> clock s' = clock s \<and>
     fuse_sList s' = fuse_sList s"

definition wrote :: "('m \<Rightarrow> nat \<Rightarrow> buf) \<Rightarrow> (nat \<Rightarrow> nat \<Rightarrow> bool) \<Rightarrow> (nat \<Rightarrow> nat \<Rightarrow> bool) \<Rightarrow>
    ('m, 'z) io_state_scheme \<Rightarrow> ('m, 'z) io_state_scheme \<Rightarrow> inode_id \<Rightarrow> nat \<Rightarrow> byte list \<Rightarrow> bool" where
  "wrote content D D' s s' head offset data \<longleftrightarrow>
     other_files content D s s' head \<and> (\<forall>b j. D b j \<longrightarrow> D' b j) \<and>
     (\<forall>n < MAX_CHUNKS. \<forall>c. file_chunk s head n = Some c \<longrightarrow> file_chunk s' head n = Some c) \<and>
     (\<forall>n. n < offset \<or> offset + length data \<le> n \<longrightarrow> kept content D s s' head n) \<and>
     (\<forall>n. n < offset \<or> offset + length data \<le> n \<longrightarrow> file_byte content s head n = None \<longrightarrow> file_byte content s' head n \<noteq> None \<longrightarrow>
        n < offset \<and> n div CHUNK_SIZE = offset div CHUNK_SIZE) \<and>
     (\<forall>n. offset \<le> n \<and> n < offset + length data \<longrightarrow> file_byte content s' head n \<noteq> None) \<and>
     (resident s s' head offset (length data) \<longrightarrow> cached s' = cached s \<and>
        (\<forall>k < length data. known D' s' head (offset + k) \<and> file_byte content s' head (offset + k) = Some (data ! k)))"

lemma wroteD:
  assumes "wrote content D D' s s' head offset data"
  shows "other_files content D s s' head" "D b j \<Longrightarrow> D' b j"
    "n < MAX_CHUNKS \<Longrightarrow> file_chunk s head n = Some c \<Longrightarrow> file_chunk s' head n = Some c"
    "n < offset \<or> offset + length data \<le> n \<Longrightarrow> kept content D s s' head n"
    "n < offset \<or> offset + length data \<le> n \<Longrightarrow> file_byte content s head n = None \<Longrightarrow> file_byte content s' head n \<noteq> None \<Longrightarrow>
       n < offset \<and> n div CHUNK_SIZE = offset div CHUNK_SIZE"
    "offset \<le> n \<Longrightarrow> n < offset + length data \<Longrightarrow> file_byte content s' head n \<noteq> None"
    "resident s s' head offset (length data) \<Longrightarrow> cached s' = cached s"
    "resident s s' head offset (length data) \<Longrightarrow> k < length data \<Longrightarrow> known D' s' head (offset + k)"
    "resident s s' head offset (length data) \<Longrightarrow> k < length data \<Longrightarrow> file_byte content s' head (offset + k) = Some (data ! k)"
  using assms unfolding wrote_def by (blast, blast, blast, blast, blast, blast, blast, blast, blast)

lemma wrote_Nil: "wrote content D D s s head offset []"
  by (auto simp: wrote_def other_files_def kept_def)

text \<open>What is known of the file stays known.\<close>

lemma known_keep:
  assumes "known D s i n" "\<And>b j. D b j \<Longrightarrow> D' b j"
    and "\<And>m c. m < MAX_CHUNKS \<Longrightarrow> file_chunk s i m = Some c \<Longrightarrow> file_chunk s' i m = Some c"
  shows "known D' s' i n"
proof -
  have n: "n < SIZE_THIRD_DIRECT_END" using assms(1) by (simp add: known_def)
  from assms(1) obtain c where c: "file_chunk s i (n div CHUNK_SIZE) = Some c" "D (chunk_bank c) (chunk_pos c + n mod CHUNK_SIZE)"
    by (auto simp: known_def split: option.splits)
  then show ?thesis using n assms(2)[OF c(2)] assms(3)[OF offset_chunk[OF n] c(1)] by (simp add: known_def)
qed

lemma kept_trans:
  assumes "kept content D s s1 i n" "kept content D1 s1 s2 i n" "known D s i n \<Longrightarrow> known D1 s1 i n"
  shows "kept content D s s2 i n"
  using assms unfolding kept_def by simp

lemma wrote_frame:
  assumes "wrote content D D' s s' head offset data"
  shows "isDirectories (inodes s' i) = isDirectories (inodes s i)"
proof (cases "i = head")
  case True
  have "inodes s' head = (inodes s head)\<lparr>cnt_id := cnt_id (inodes s' head), ctxs := ctxs (inodes s' head), isize := isize (inodes s' head)\<rparr>"
    using wroteD(1)[OF assms] by (simp add: other_files_def)
  from arg_cong[OF this, of isDirectories] True show ?thesis by simp
next
  case False
  then show ?thesis using wroteD(1)[OF assms] by (simp add: other_files_def)
qed

lemma file_fields_trans: "d1 = d\<lparr>cnt_id := a, ctxs := b, isize := c\<rparr> \<Longrightarrow> d2 = d1\<lparr>cnt_id := x, ctxs := y, isize := z\<rparr> \<Longrightarrow>
    d2 = d\<lparr>cnt_id := x, ctxs := y, isize := z\<rparr>"
  for d :: inode
  by simp

lemma other_files_trans:
  assumes o: "other_files content D s s1 head" "other_files content D1 s1 s2 head" and D: "\<And>b j. D b j \<Longrightarrow> D1 b j"
  shows "other_files content D s s2 head"
proof -
  have "inodes s2 head = (inodes s head)\<lparr>cnt_id := cnt_id (inodes s2 head), ctxs := ctxs (inodes s2 head), isize := isize (inodes s2 head)\<rparr>"
    using o unfolding other_files_def by (blast intro: file_fields_trans)
  moreover have "kept content D s s2 i n" if "i \<noteq> head" for i n
  proof (rule kept_trans)
    show "kept content D s s1 i n" "kept content D1 s1 s2 i n" using o that by (simp_all add: other_files_def)
    have "file_chunk s1 i m = file_chunk s i m" for m using o(1) that by (simp add: other_files_def file_chunk_def)
    then show "known D s i n \<Longrightarrow> known D1 s1 i n" using D by (auto intro: known_keep)
  qed
  ultimately show ?thesis using o by (simp add: other_files_def)
qed

lemma resident_first:
  assumes "resident s s2 head offset n" "wrote content D D' s1 s2 head o2 d" "m \<le> n" "offset + m \<le> SIZE_THIRD_DIRECT_END"
  shows "resident s s1 head offset m"
  unfolding resident_def
proof (intro allI impI)
  fix j assume j: "offset \<le> j \<and> j < offset + m"
  have jm: "j div CHUNK_SIZE < MAX_CHUNKS" by (rule offset_chunk) (use j assms(4) in linarith)
  have "case file_chunk s2 head (j div CHUNK_SIZE) of None \<Rightarrow> True | Some c \<Rightarrow> cached s (chunk_bank c) \<noteq> None"
    using assms(1,3) j unfolding resident_def by simp
  moreover have "\<And>c. file_chunk s1 head (j div CHUNK_SIZE) = Some c \<Longrightarrow> file_chunk s2 head (j div CHUNK_SIZE) = Some c"
    by (rule wroteD(3)[OF assms(2) jm])
  ultimately show "case file_chunk s1 head (j div CHUNK_SIZE) of None \<Rightarrow> True | Some c \<Rightarrow> cached s (chunk_bank c) \<noteq> None"
    by (cases "file_chunk s1 head (j div CHUNK_SIZE)") auto
qed

lemma resident_rest:
  assumes "resident s s' head offset n" "cached s4 = cached s" "r \<le> n"
  shows "resident s4 s' head (offset + r) (n - r)"
proof -
  have "case file_chunk s' head (j div CHUNK_SIZE) of None \<Rightarrow> True | Some c \<Rightarrow> cached s (chunk_bank c) \<noteq> None"
    if "offset + r \<le> j" "j < offset + r + (n - r)" for j
    using assms(1) that assms(3) unfolding resident_def by simp
  then show ?thesis unfolding resident_def assms(2) by blast
qed

lemma wrote_append:
  assumes w1: "wrote content D D1 s s1 head offset d1" and w2: "wrote content D1 D2 s1 s2 head (offset + length d1) d2"
    and al: "(offset + length d1) mod CHUNK_SIZE = 0" and mx: "offset + length d1 + length d2 \<le> SIZE_THIRD_DIRECT_END"
  shows "wrote content D D2 s s2 head offset (d1 @ d2)"
proof -
  let ?o1 = "offset + length d1"
  have al1: False if "n < ?o1" "n div CHUNK_SIZE = ?o1 div CHUNK_SIZE" for n
  proof -
    have "?o1 = ?o1 div CHUNK_SIZE * CHUNK_SIZE + ?o1 mod CHUNK_SIZE" by simp
    also have "\<dots> = n div CHUNK_SIZE * CHUNK_SIZE" using al that(2) by simp
    also have "\<dots> \<le> n" by (rule div_times_less_eq_dividend)
    finally show False using that(1) by simp
  qed
  note a1 = wroteD[OF w1] and a2 = wroteD[OF w2]
  have "other_files content D s s2 head" by (rule other_files_trans[OF a1(1) a2(1) a1(2)])
  moreover have "\<forall>b j. D b j \<longrightarrow> D2 b j" using a1(2) a2(2) by blast
  moreover have "\<forall>n < MAX_CHUNKS. \<forall>c. file_chunk s head n = Some c \<longrightarrow> file_chunk s2 head n = Some c"
    using a1(3) a2(3) by blast
  moreover have "kept content D s s2 head n" if n: "n < offset \<or> offset + length (d1 @ d2) \<le> n" for n
  proof -
    have r: "n < offset \<or> offset + length d1 \<le> n" "n < ?o1 \<or> ?o1 + length d2 \<le> n" using n(1) by auto
    have "known D s head n \<Longrightarrow> known D1 s1 head n" by (rule known_keep[OF _ a1(2,3)])
    then show ?thesis by (rule kept_trans[OF a1(4)[OF r(1)] a2(4)[OF r(2)]])
  qed
  moreover have "n < offset \<and> n div CHUNK_SIZE = offset div CHUNK_SIZE"
    if n: "n < offset \<or> offset + length (d1 @ d2) \<le> n" "file_byte content s head n = None" "file_byte content s2 head n \<noteq> None" for n
  proof -
    have r: "n < offset \<or> offset + length d1 \<le> n" "n < ?o1 \<or> ?o1 + length d2 \<le> n" using n(1) by auto
    then have "file_byte content s1 head n \<noteq> None" using a2(5)[of n] n(3) al1[of n] by blast
    then show ?thesis using a1(5)[of n] r(1) n(2) by blast
  qed
  moreover have "file_byte content s2 head n \<noteq> None" if n: "offset \<le> n" "n < offset + length (d1 @ d2)" for n
  proof (cases "n < ?o1")
    case True
    then have "file_byte content s1 head n \<noteq> None" by (rule a1(6)[OF n(1)])
    then show ?thesis using a2(4)[of n] True by (simp add: kept_def)
  next
    case False
    then show ?thesis using a2(6)[of n] n(2) by simp
  qed
  moreover have "cached s2 = cached s \<and>
      (\<forall>k < length (d1 @ d2). known D2 s2 head (offset + k) \<and> file_byte content s2 head (offset + k) = Some ((d1 @ d2) ! k))"
    if r: "resident s s2 head offset (length (d1 @ d2))"
  proof -
    have "resident s s1 head offset (length d1)" by (rule resident_first[OF r w2]) (use mx in simp_all)
    then have a: "cached s1 = cached s" "\<And>k. k < length d1 \<Longrightarrow> known D1 s1 head (offset + k)"
      "\<And>k. k < length d1 \<Longrightarrow> file_byte content s1 head (offset + k) = Some (d1 ! k)"
      using a1(7-9) by blast+
    have "resident s1 s2 head ?o1 (length d2)" using r unfolding resident_def a(1) by simp
    then have b: "cached s2 = cached s1" "\<And>k. k < length d2 \<Longrightarrow> known D2 s2 head (?o1 + k)"
      "\<And>k. k < length d2 \<Longrightarrow> file_byte content s2 head (?o1 + k) = Some (d2 ! k)"
      using a2(7-9) by blast+
    have "known D2 s2 head (offset + k) \<and> file_byte content s2 head (offset + k) = Some ((d1 @ d2) ! k)" if k: "k < length (d1 @ d2)" for k
    proof (cases "k < length d1")
      case True
      have "kept content D1 s1 s2 head (offset + k)" using a2(4)[of "offset + k"] True by simp
      then have "file_byte content s2 head (offset + k) = Some (d1 ! k)" using a(2,3)[OF True] by (simp add: kept_def)
      moreover have "known D2 s2 head (offset + k)" by (rule known_keep[OF a(2)[OF True] a2(2,3)])
      ultimately show ?thesis using True by (simp add: nth_append)
    next
      case False
      then show ?thesis using b(2,3)[of "k - length d1"] k by (simp add: nth_append)
    qed
    then show ?thesis using a(1) b(1) by simp
  qed
  ultimately show ?thesis unfolding wrote_def by blast
qed

definition grow_chunk :: "('m, 'z) io_state_scheme \<Rightarrow> inode_id \<Rightarrow> chunk_id \<Rightarrow> nat \<Rightarrow> ('m, 'z) io_state_scheme" where
  "grow_chunk s head c e =
     upd_context (upd_inode s head (\<lambda>d. d\<lparr>isize := isize d + (e - csize (context_addr s c))\<rparr>)) c (\<lambda>x. x\<lparr>csize := e\<rparr>)"

lemma grow_chunk_sel:
  "cache_hash (grow_chunk s head c e) = cache_hash s" "caches (grow_chunk s head c e) = caches s"
  "fuse_sList (grow_chunk s head c e) = fuse_sList s" "remote (grow_chunk s head c e) = remote s"
  "bitmap (grow_chunk s head c e) = bitmap s" "used_chunks (grow_chunk s head c e) = used_chunks s"
  "csize (context_addr (grow_chunk s head c e) c') = (if c' = c then e else csize (context_addr s c'))"
  "file_chunk (grow_chunk s head c e) i n = file_chunk s i n"
  "inodes (grow_chunk s head c e) = (inodes s)(head := (inodes s head)\<lparr>isize := isize (inodes s head) + (e - csize (context_addr s c))\<rparr>)"
  "next_addr (grow_chunk s head c e) = next_addr s" "free_inode_slab (grow_chunk s head c e) = free_inode_slab s"
  "root (grow_chunk s head c e) = root s" "clock (grow_chunk s head c e) = clock s"
  by (simp_all add: grow_chunk_def file_chunk_def used_chunks_def)

lemma grow_chunk_same: "csize (context_addr s c) = e \<Longrightarrow> grow_chunk s head c e = s"
  by (cases "context_addr s c") (auto simp: grow_chunk_def upd_context_def upd_inode_def fun_upd_idem_iff)

lemma same_chunk:
  fixes n offset len :: nat
  assumes "n div CHUNK_SIZE = offset div CHUNK_SIZE"
  shows "offset \<le> n \<longleftrightarrow> offset mod CHUNK_SIZE \<le> n mod CHUNK_SIZE"
    "n < offset + len \<longleftrightarrow> n mod CHUNK_SIZE < offset mod CHUNK_SIZE + len"
proof -
  have "n = offset div CHUNK_SIZE * CHUNK_SIZE + n mod CHUNK_SIZE" "offset = offset div CHUNK_SIZE * CHUNK_SIZE + offset mod CHUNK_SIZE"
    using div_mult_mod_eq[of n CHUNK_SIZE] div_mult_mod_eq[of offset CHUNK_SIZE] assms by simp_all
  then show "offset \<le> n \<longleftrightarrow> offset mod CHUNK_SIZE \<le> n mod CHUNK_SIZE"
    "n < offset + len \<longleftrightarrow> n mod CHUNK_SIZE < offset mod CHUNK_SIZE + len" by linarith+
qed

lemma range_in_chunk:
  fixes n offset len :: nat
  assumes "offset \<le> n" "n < offset + len" "offset mod CHUNK_SIZE + len \<le> CHUNK_SIZE"
  shows "n div CHUNK_SIZE = offset div CHUNK_SIZE"
proof -
  let ?q = "offset div CHUNK_SIZE"
  have o: "offset = ?q * CHUNK_SIZE + offset mod CHUNK_SIZE" by simp
  have "Suc ?q * CHUNK_SIZE = ?q * CHUNK_SIZE + CHUNK_SIZE" by simp
  then have "?q * CHUNK_SIZE \<le> n" "n < Suc ?q * CHUNK_SIZE" using o assms by linarith+
  then show ?thesis by (metis div_nat_eqI mult.commute)
qed

context remote_store
begin

lemma cache_write_ok:
  assumes dm: "dhmp_read_op dm = rd" "dhmp_write_op dm = wr" "BANK_SIZE \<le> region"
    and io: "io_ok content ok D s" and b: "b < BANK_NUM" "off + length buf \<le> BANK_SIZE"
  shows "\<exists>s' part. dhmp_fs_write_to_cache dm s b buf off = Inr (s', part) \<and>
    io_ok content ok (\<lambda>b1 j. b1 = b \<and> cached s b \<noteq> None \<or> D b1 j) s' \<and> fs_same s s' \<and> length part = length buf \<and>
    (\<forall>b' < BANK_NUM. \<forall>j < BANK_SIZE. D b' j \<longrightarrow> \<not> (b' = b \<and> off \<le> j \<and> j < off + length buf) \<longrightarrow>
       bank_view content s' b' j = bank_view content s b' j) \<and>
    (cached s b \<noteq> None \<longrightarrow> part = buf \<and> cached s' = cached s \<and> (\<forall>k < length buf. bank_view content s' b (off + k) = buf ! k))"
proof (cases "cached s b")
  case None
  from cache_write_miss[OF dm io b None] show ?thesis using None by (fastforce simp: same_view_def)
next
  case (Some p)
  from cache_write_hit[OF io b Some, of dm] obtain s' where s': "dhmp_fs_write_to_cache dm s b buf off = Inr (s', buf)"
    "io_ok content ok (\<lambda>b1 j. b1 = b \<or> D b1 j) s'" "fs_same s s'" "cached s' = cached s"
    "bank_view content s' b = buf_write (bank_view content s b) off buf"
    "\<And>b'. b' \<noteq> b \<Longrightarrow> bank_view content s' b' = bank_view content s b'" by blast
  have "bank_view content s' b' j = bank_view content s b' j" if "\<not> (b' = b \<and> off \<le> j \<and> j < off + length buf)" for b' j
    using that s'(5,6) by (cases "b' = b") (auto simp: buf_write_def)
  moreover have "bank_view content s' b (off + k) = buf ! k" if "k < length buf" for k using that s'(5) by (simp add: buf_write_def)
  moreover have "io_ok content ok (\<lambda>b1 j. b1 = b \<and> cached s b \<noteq> None \<or> D b1 j) s'" using s'(2) Some by simp
  ultimately show ?thesis using s'(1,3,4) by blast
qed

end

lemma chunk_offset: "n div CHUNK_SIZE < MAX_CHUNKS \<Longrightarrow> n < SIZE_THIRD_DIRECT_END"
proof -
  assume "n div CHUNK_SIZE < MAX_CHUNKS"
  then have "n div 4096 < 16843108" by (simp add: sizes(2) MAX_CHUNKS_def)
  then have "n < 16843108 * 4096" by linarith
  then show ?thesis by (simp add: index_sizes)
qed

context remote_store
begin

lemma write_piece:
  assumes dm: "dhmp_read_op dm = rd" "dhmp_write_op dm = wr" "BANK_SIZE \<le> region"
    and inv: "ix_inv s" and io: "io_ok content ok D s" and free: "card (used_chunks s) < CHUNK_NUM"
    and off: "offset < SIZE_THIRD_DIRECT_END" "0 < length data" "offset mod CHUNK_SIZE + length data \<le> CHUNK_SIZE"
  shows "\<exists>s1 c s2 part s4 D'. level3_local_index s offset head False = Inr (s1, Some c, offset mod CHUNK_SIZE) \<and>
    dhmp_fs_write_to_cache dm s1 (chunk_bank c) data (chunk_pos c + offset mod CHUNK_SIZE) = Inr (s2, part) \<and>
    s4 = grow_chunk s2 head c (max (csize (context_addr s2 c)) (offset mod CHUNK_SIZE + length data)) \<and>
    csize (context_addr s2 c) \<le> CHUNK_SIZE \<and> isize (inodes s2 head) \<le> CHUNK_NUM * CHUNK_SIZE \<and>
    length part = length data \<and> ix_inv s4 \<and> io_ok content ok D' s4 \<and> card (used_chunks s4) \<le> Suc (card (used_chunks s)) \<and>
    wrote content D D' s s4 head offset data \<and> (resident s s4 head offset (length data) \<longrightarrow> part = data)"
proof -
  let ?N = "offset div CHUNK_SIZE" and ?o = "offset mod CHUNK_SIZE" and ?m = "length data"
  have N: "?N < MAX_CHUNKS" by (rule offset_chunk[OF off(1)])
  obtain s1 co o' where l: "level3_local_index s offset head False = Inr (s1, co, o')"
    using level3_write_total[OF inv off(1) free, of head] by auto
  from level3_write[OF inv off(1) l] obtain c where c: "c < CHUNK_NUM" "co = Some c" "o' = ?o" "ix_inv s1" "index_frame s s1 head"
    "bitmap s1 = (bitmap s)(c := True)" "file_chunk s head ?N = None \<and> \<not> bitmap s c \<or> file_chunk s head ?N = Some c"
    "\<And>n. n < MAX_CHUNKS \<Longrightarrow> file_chunk s1 head n = (if n = ?N then Some c else file_chunk s head n)"
    by (auto split: option.splits)
  note cb = chunk_in_bank[OF c(1)]
  have fr: "\<And>i. i \<noteq> head \<Longrightarrow> inodes s1 i = inodes s i" "\<And>c'. csize (context_addr s1 c') = csize (context_addr s c')"
    "next_addr s1 = next_addr s" "free_inode_slab s1 = free_inode_slab s" "root s1 = root s" "clock s1 = clock s"
    "index_state.more s1 = index_state.more s"
    "inodes s1 head = (inodes s head)\<lparr>cnt_id := cnt_id (inodes s1 head), ctxs := ctxs (inodes s1 head)\<rparr>"
    using c(5) unfolding index_frame_def by presburger+
  note m1 = io_more[OF fr(7)]
  note e1 = io_cong[OF m1]
  have io1: "io_ok content ok D s1" using io e1(3)[of content ok] by simp
  define D' where "D' = (\<lambda>b1 j. b1 = chunk_bank c \<and> cached s1 (chunk_bank c) \<noteq> None \<or> D b1 j)"
  have "chunk_pos c + ?o + ?m \<le> BANK_SIZE" using cb(2) off(3) by linarith
  from cache_write_ok[OF dm io1 cb(1) this] obtain s2 part where
    w: "dhmp_fs_write_to_cache dm s1 (chunk_bank c) data (chunk_pos c + ?o) = Inr (s2, part)" "io_ok content ok D' s2" "fs_same s1 s2"
      "length part = ?m"
    and view: "\<And>b j. b < BANK_NUM \<Longrightarrow> j < BANK_SIZE \<Longrightarrow> D b j \<Longrightarrow>
       \<not> (b = chunk_bank c \<and> chunk_pos c + ?o \<le> j \<and> j < chunk_pos c + ?o + ?m) \<Longrightarrow> bank_view content s2 b j = bank_view content s1 b j"
    and hit: "cached s1 (chunk_bank c) \<noteq> None \<Longrightarrow> part = data \<and> cached s2 = cached s1 \<and>
       (\<forall>k < ?m. bank_view content s2 (chunk_bank c) (chunk_pos c + ?o + k) = data ! k)" unfolding D'_def by blast
  have same: "inodes s2 = inodes s1" "bitmap s2 = bitmap s1" "context_addr s2 = context_addr s1" "next_addr s2 = next_addr s1"
    "free_cursor s2 = free_cursor s1" "free_inode_slab s2 = free_inode_slab s1" "root s2 = root s1" "clock s2 = clock s1"
    "fuse_sList s2 = fuse_sList s1"
    using w(3) by (simp_all add: fs_same_def)
  have inv2: "ix_inv s2" by (rule ix_inv_frame[OF c(4)]) (simp_all add: same)
  have fc2: "file_chunk s2 i n = file_chunk s1 i n" for i n by (simp add: file_chunk_def same)
  have own: "file_chunk s2 head ?N = Some c" using c(8)[OF N] by (simp add: fc2)
  let ?cs = "csize (context_addr s2 c)"
  define e where "e = max ?cs (?o + ?m)"
  define s4 where "s4 = grow_chunk s2 head c e"
  have cs: "?cs \<le> CHUNK_SIZE" by (rule csize_le[OF inv2 own])
  have e: "?cs \<le> e" "e \<le> CHUNK_SIZE" using cs off(3) by (simp_all add: e_def)
  note g = grow_chunk_sel[of s2 head c e, folded s4_def]
  have inv4: "ix_inv s4" using ix_inv_grow[OF inv2 _ e] file_chunk_owned[OF inv2 own] by (simp add: s4_def grow_chunk_def)
  note e4 = io_cong[OF g(1-4)]
  have io4: "io_ok content ok D' s4" using w(2) e4(3)[of content ok] by simp
  have "used_chunks s4 \<subseteq> insert c (used_chunks s)" by (auto simp: used_chunks_def g(5) same(2) c(6))
  moreover have "finite (used_chunks s)" by (simp add: used_chunks_def)
  ultimately have "card (used_chunks s4) \<le> card (insert c (used_chunks s))" by (intro card_mono) simp_all
  moreover have "card (insert c (used_chunks s)) \<le> Suc (card (used_chunks s))" using \<open>finite (used_chunks s)\<close> by (simp add: card_insert_if)
  ultimately have card4: "card (used_chunks s4) \<le> Suc (card (used_chunks s))" by linarith
  have byte_c: "file_byte content s4 i n = (if n < SIZE_THIRD_DIRECT_END then (case file_chunk s1 i (n div CHUNK_SIZE) of None \<Rightarrow> None
      | Some c' \<Rightarrow> if n mod CHUNK_SIZE < (if c' = c then e else csize (context_addr s c'))
          then Some (bank_view content s2 (chunk_bank c') (chunk_pos c' + n mod CHUNK_SIZE)) else None) else None)" for i n
    by (simp add: file_byte_def g(7,8) fc2 e4(2) same(3) fr(2) split: option.split)
  have view_c: "bank_view content s2 (chunk_bank c') (chunk_pos c' + n mod CHUNK_SIZE) =
      bank_view content s (chunk_bank c') (chunk_pos c' + n mod CHUNK_SIZE)"
    if "c' < CHUNK_NUM" "c' = c \<Longrightarrow> n mod CHUNK_SIZE < ?o \<or> ?o + ?m \<le> n mod CHUNK_SIZE"
      "D (chunk_bank c') (chunk_pos c' + n mod CHUNK_SIZE)" for c' n
  proof -
    have n: "n mod CHUNK_SIZE < CHUNK_SIZE" by (simp add: sizes(2))
    have "chunk_pos c' + n mod CHUNK_SIZE < BANK_SIZE" using chunk_in_bank(2)[OF that(1)] n by linarith
    moreover have "\<not> (chunk_bank c' = chunk_bank c \<and> chunk_pos c + ?o \<le> chunk_pos c' + n mod CHUNK_SIZE \<and>
        chunk_pos c' + n mod CHUNK_SIZE < chunk_pos c + ?o + ?m)"
    proof
      assume h: "chunk_bank c' = chunk_bank c \<and> chunk_pos c + ?o \<le> chunk_pos c' + n mod CHUNK_SIZE \<and>
        chunk_pos c' + n mod CHUNK_SIZE < chunk_pos c + ?o + ?m"
      define k where "k = chunk_pos c' + n mod CHUNK_SIZE - chunk_pos c"
      have k: "chunk_pos c' + n mod CHUNK_SIZE = chunk_pos c + k" "k < CHUNK_SIZE" "?o \<le> k" "k < ?o + ?m"
        using h off(3) by (simp_all add: k_def, linarith+)
      from chunks_disjoint[OF _ k(1) n k(2)] h have "c' = c" "n mod CHUNK_SIZE = k" by simp_all
      then show False using that(2) k(3,4) by auto
    qed
    ultimately show ?thesis using view[OF chunk_in_bank(1)[OF that(1)]] that(3) e1(2)[of content] by simp
  qed
  have cs_eq: "?cs = csize (context_addr s c)" by (simp add: same(3) fr(2))
  have byte_N: "file_byte content s4 head n = (if n mod CHUNK_SIZE < e then Some (bank_view content s2 (chunk_bank c) (chunk_pos c + n mod CHUNK_SIZE)) else None)"
    "file_byte content s head n = (if n mod CHUNK_SIZE < ?cs then Some (bank_view content s (chunk_bank c) (chunk_pos c + n mod CHUNK_SIZE)) else None)"
    if n: "n div CHUNK_SIZE = ?N" for n
  proof -
    have lt: "n < SIZE_THIRD_DIRECT_END" using chunk_offset[of n] n N by simp
    show "file_byte content s4 head n = (if n mod CHUNK_SIZE < e then Some (bank_view content s2 (chunk_bank c) (chunk_pos c + n mod CHUNK_SIZE)) else None)"
      using lt c(8)[OF N] by (simp add: byte_c n)
    have "csize (context_addr s c) = 0" if "\<not> bitmap s c" using free_chunk(4)[OF inv that c(1)] .
    then show "file_byte content s head n = (if n mod CHUNK_SIZE < ?cs then Some (bank_view content s (chunk_bank c) (chunk_pos c + n mod CHUNK_SIZE)) else None)"
      using lt c(7) by (auto simp: file_byte_def n cs_eq)
  qed
  have c_own: "c \<in> set (ctxs (inodes s1 head))" using file_chunk_owned[OF c(4), of head ?N c] c(8)[OF N] by simp
  have byte_same: "(file_byte content s4 i n = None) = (file_byte content s i n = None)"
      "known D s i n \<Longrightarrow> file_byte content s4 i n = file_byte content s i n"
    if h: "i \<noteq> head \<or> n div CHUNK_SIZE \<noteq> ?N" for i n
  proof -
    have "(file_byte content s4 i n = None) = (file_byte content s i n = None) \<and>
      (known D s i n \<longrightarrow> file_byte content s4 i n = file_byte content s i n)"
    proof (cases "n < SIZE_THIRD_DIRECT_END")
      case False
      then show ?thesis by (simp add: file_byte_def)
    next
      case True
      have nm: "n div CHUNK_SIZE < MAX_CHUNKS" by (rule offset_chunk[OF True])
      have fc: "file_chunk s1 i (n div CHUNK_SIZE) = file_chunk s i (n div CHUNK_SIZE)"
        using h c(8)[OF nm] fr(1)[of i] by (cases "i = head") (auto simp: file_chunk_def)
      show ?thesis
      proof (cases "file_chunk s i (n div CHUNK_SIZE)")
        case None
        then show ?thesis by (simp add: byte_c fc) (simp add: file_byte_def)
      next
        case (Some c')
        have ne: "c' \<noteq> c" using no_sharing[OF c(4) nm N, of i c' head] c(8)[OF N] h Some fc by auto
        have cn: "c' < CHUNK_NUM" using file_chunk_owned[OF inv Some] by blast
        have b4: "file_byte content s4 i n = (if n mod CHUNK_SIZE < csize (context_addr s c')
            then Some (bank_view content s2 (chunk_bank c') (chunk_pos c' + n mod CHUNK_SIZE)) else None)"
          using ne by (simp add: byte_c fc Some True)
        have b: "file_byte content s i n = (if n mod CHUNK_SIZE < csize (context_addr s c')
            then Some (bank_view content s (chunk_bank c') (chunk_pos c' + n mod CHUNK_SIZE)) else None)"
          by (simp add: file_byte_def Some True)
        have "known D s i n \<Longrightarrow> D (chunk_bank c') (chunk_pos c' + n mod CHUNK_SIZE)" by (simp add: known_def Some)
        then show ?thesis using view_c[OF cn] ne b4 b by auto
      qed
    qed
    then show "(file_byte content s4 i n = None) = (file_byte content s i n = None)"
      "known D s i n \<Longrightarrow> file_byte content s4 i n = file_byte content s i n" by blast+
  qed
  have others: "other_files content D s s4 head"
  proof -
    have "inodes s4 head = (inodes s head)\<lparr>cnt_id := cnt_id (inodes s4 head), ctxs := ctxs (inodes s4 head), isize := isize (inodes s4 head)\<rparr>"
      unfolding g(9) same by (subst fr(8)) (cases "inodes s head"; simp)
    moreover have "inodes s4 i = inodes s i" "kept content D s s4 i n" "file_byte content s4 i n \<noteq> None \<longrightarrow> file_byte content s i n \<noteq> None"
      if "i \<noteq> head" for i n
      using that fr(1)[OF that] byte_same[of i n] by (simp_all add: g(9) same kept_def)
    ultimately show ?thesis using fr(3-6) m1(3) by (simp add: other_files_def g same)
  qed
  have keep: "\<forall>n < MAX_CHUNKS. \<forall>c'. file_chunk s head n = Some c' \<longrightarrow> file_chunk s4 head n = Some c'"
    using c(7,8) by (auto simp: g(8) fc2)
  have outside: "kept content D s s4 head n" if n: "n < offset \<or> offset + ?m \<le> n" for n
  proof (cases "n div CHUNK_SIZE = ?N")
    case True
    have r: "n mod CHUNK_SIZE < ?o \<or> ?o + ?m \<le> n mod CHUNK_SIZE" using n(1) same_chunk[OF True] by (metis not_le)
    have "D (chunk_bank c) (chunk_pos c + n mod CHUNK_SIZE)" if "known D s head n"
      using that c(7) by (auto simp: known_def True split: option.splits)
    then show ?thesis using r view_c[of c n] c(1) e(1) byte_N[OF True] by (auto simp: kept_def split: if_splits)
  next
    case False
    then show ?thesis using byte_same[of head n] by (simp add: kept_def)
  qed
  have gap: "n < offset \<and> n div CHUNK_SIZE = ?N"
    if n: "n < offset \<or> offset + ?m \<le> n" "file_byte content s head n = None" "file_byte content s4 head n \<noteq> None" for n
  proof -
    have N': "n div CHUNK_SIZE = ?N" using byte_same(1)[of head n] n(2,3) by auto
    have "?cs \<le> n mod CHUNK_SIZE" "n mod CHUNK_SIZE < e" using n(2,3) byte_N[OF N'] by (auto split: if_splits)
    then have "n mod CHUNK_SIZE < ?o + ?m" by (simp add: e_def)
    then show ?thesis using n(1) same_chunk(2)[OF N', of ?m] N' by auto
  qed
  have inside: "file_byte content s4 head n = Some (bank_view content s2 (chunk_bank c) (chunk_pos c + n mod CHUNK_SIZE))"
    if n: "offset \<le> n" "n < offset + ?m" for n
  proof -
    have N': "n div CHUNK_SIZE = ?N" by (rule range_in_chunk[OF n off(3)])
    have "n mod CHUNK_SIZE < ?o + ?m" using n(2) same_chunk(2)[OF N', of ?m] by simp
    then show ?thesis by (simp add: byte_N[OF N'] e_def)
  qed
  have res: "part = data \<and> cached s4 = cached s \<and>
      (\<forall>k < ?m. known D' s4 head (offset + k) \<and> file_byte content s4 head (offset + k) = Some (data ! k))"
    if r: "resident s s4 head offset ?m"
  proof -
    have "file_chunk s4 head ?N = Some c" by (simp add: g(8) own)
    then have hitc: "cached s (chunk_bank c) \<noteq> None" using r[unfolded resident_def, rule_format, of offset] off(2) by simp
    then have h: "part = data" "cached s2 = cached s" "\<And>k. k < ?m \<Longrightarrow> bank_view content s2 (chunk_bank c) (chunk_pos c + ?o + k) = data ! k"
      using hit e1(1) by auto
    have "known D' s4 head (offset + k) \<and> file_byte content s4 head (offset + k) = Some (data ! k)" if k: "k < ?m" for k
    proof -
      have N': "(offset + k) div CHUNK_SIZE = ?N" by (rule range_in_chunk[OF _ _ off(3)]) (use k in simp_all)
      have "(offset + k) mod CHUNK_SIZE = ?o + k"
        using div_mult_mod_eq[of "offset + k" CHUNK_SIZE] div_mult_mod_eq[of offset CHUNK_SIZE] unfolding N' by linarith
      then have b: "file_byte content s4 head (offset + k) = Some (data ! k)" using inside[of "offset + k"] h(3)[OF k] k by (simp add: add.assoc)
      then have "offset + k < SIZE_THIRD_DIRECT_END" by (auto simp: file_byte_def split: if_splits)
      then have "known D' s4 head (offset + k)" using hitc e1(1) by (simp add: known_def N' g(8) own D'_def)
      then show ?thesis using b by blast
    qed
    then show ?thesis using h e4(1) by simp
  qed
  have "\<forall>b j. D b j \<longrightarrow> D' b j" by (simp add: D'_def)
  moreover have "\<forall>n. offset \<le> n \<and> n < offset + ?m \<longrightarrow> file_byte content s4 head n \<noteq> None" using inside by auto
  ultimately have "wrote content D D' s s4 head offset data"
    unfolding wrote_def using others keep outside gap res by blast
  moreover have "isize (inodes s2 head) \<le> CHUNK_NUM * CHUNK_SIZE" by (rule isize_bound[OF inv2])
  ultimately show ?thesis
    using l[unfolded c(2,3)] w(1,4) cs inv4 io4 card4 res unfolding s4_def e_def by blast
qed

end

text \<open>The size arithmetic of the code cannot wrap under the invariant.\<close>

lemma grow_code:
  assumes "csize (context_addr s c) \<le> e" "e \<le> CHUNK_SIZE" "isize (inodes s head) \<le> CHUNK_NUM * CHUNK_SIZE"
  shows "upd_context (upd_inode s head (\<lambda>d. d\<lparr>isize := uadd64 (isize d) (usub64 e (csize (context_addr s c)))\<rparr>)) c (\<lambda>x. x\<lparr>csize := e\<rparr>) =
    grow_chunk s head c e"
proof -
  have "e < 2 ^ 64" using assms(2) by (simp add: sizes(2))
  then have "usub64 e (csize (context_addr s c)) = e - csize (context_addr s c)" using assms(1) by (intro usub64_ge)
  moreover have "isize (inodes s head) + (e - csize (context_addr s c)) < 2 ^ 64" using assms(2,3) by (simp add: sizes(2,4))
  ultimately show ?thesis by (simp add: grow_chunk_def upd_inode_def uadd64_id)
qed

lemma chunk_rest: "usub64 CHUNK_SIZE (offset mod CHUNK_SIZE) = CHUNK_SIZE - offset mod CHUNK_SIZE"
  by (rule usub64_ge) (simp_all add: sizes(2) less_imp_le_nat)

text \<open>How many chunks \<open>n\<close> bytes at \<open>offset\<close> touch.\<close>

definition touched :: "nat \<Rightarrow> nat \<Rightarrow> nat" where
  "touched offset n = (offset mod CHUNK_SIZE + n + CHUNK_SIZE - 1) div CHUNK_SIZE"

lemma touched_pos: "0 < n \<Longrightarrow> 0 < touched offset n"
  by (simp add: touched_def div_greater_zero_iff sizes(2))

lemma touched_next:
  assumes "CHUNK_SIZE - offset mod CHUNK_SIZE \<le> n"
  shows "touched offset n = Suc (touched (offset + (CHUNK_SIZE - offset mod CHUNK_SIZE)) (n - (CHUNK_SIZE - offset mod CHUNK_SIZE)))"
    "(offset + (CHUNK_SIZE - offset mod CHUNK_SIZE)) mod CHUNK_SIZE = 0"
proof -
  have lt: "offset mod CHUNK_SIZE < CHUNK_SIZE" by (simp add: sizes(2))
  have "offset + (CHUNK_SIZE - offset mod CHUNK_SIZE) = Suc (offset div CHUNK_SIZE) * CHUNK_SIZE"
    using lt div_mult_mod_eq[of offset CHUNK_SIZE] unfolding mult_Suc by linarith
  then show al: "(offset + (CHUNK_SIZE - offset mod CHUNK_SIZE)) mod CHUNK_SIZE = 0" by (simp del: mult_Suc)
  let ?y = "0 + (n - (CHUNK_SIZE - offset mod CHUNK_SIZE)) + CHUNK_SIZE - 1"
  have "offset mod CHUNK_SIZE + n + CHUNK_SIZE - 1 = ?y + CHUNK_SIZE" using assms lt by linarith
  moreover have "(?y + CHUNK_SIZE) div CHUNK_SIZE = ?y div CHUNK_SIZE + 1" by (rule div_add_self2) (simp add: sizes(2))
  ultimately show "touched offset n = Suc (touched (offset + (CHUNK_SIZE - offset mod CHUNK_SIZE)) (n - (CHUNK_SIZE - offset mod CHUNK_SIZE)))"
    unfolding touched_def al by (simp only: Suc_eq_plus1)
qed

lemma put_bytes_same: "pos + n \<le> length bs \<Longrightarrow> put_bytes bs pos (take n (drop pos bs)) = bs"
  by (simp add: put_bytes_def) (metis append_take_drop_id drop_drop add.commute append.assoc)

lemma length_put_bytes: "pos + length new \<le> length bs \<Longrightarrow> length (put_bytes bs pos new) = length bs"
  by (simp add: put_bytes_def)

lemma drop_put_bytes: "pos + length new \<le> length bs \<Longrightarrow> drop (pos + length new) (put_bytes bs pos new) = drop (pos + length new) bs"
  by (simp add: put_bytes_def)

text \<open>One round of the loop: a piece that reaches the end of its chunk, and the last piece.\<close>

lemma write_loop_full:
  assumes "un \<noteq> 0" "level3_local_index s offset head False = Inr (s1, Some c, p)" "usub64 CHUNK_SIZE p = r" "r \<le> un"
    "dhmp_fs_write_to_cache dm s1 (chunk_bank c) (take r (drop ws buff)) (chunk_pos c + p) = Inr (s2, part)"
    "s4 = upd_context (upd_inode s2 head (\<lambda>d. d\<lparr>isize := uadd64 (isize d) (usub64 CHUNK_SIZE (csize (context_addr s2 c)))\<rparr>)) c
          (\<lambda>x. x\<lparr>csize := CHUNK_SIZE\<rparr>)"
  shows "write_loop dm (Suc n) s head buff ws un offset =
    write_loop dm n s4 head (put_bytes buff ws part) (ws + r) (un - r) (offset + r)"
proof -
  have "context_addr (upd_inode s2 head f) = context_addr s2" for f by simp
  then show ?thesis using assms by (simp add: Let_def)
qed

lemma write_loop_last:
  assumes "un \<noteq> 0" "level3_local_index s offset head False = Inr (s1, Some c, p)" "usub64 CHUNK_SIZE p = r" "\<not> r \<le> un"
    "dhmp_fs_write_to_cache dm s1 (chunk_bank c) (take un (drop ws buff)) (chunk_pos c + p) = Inr (s2, part)"
    "s4 = (if csize (context_addr s2 c) < un + p then
              upd_context (upd_inode s2 head (\<lambda>d. d\<lparr>isize := uadd64 (isize d) (usub64 (un + p) (csize (context_addr s2 c)))\<rparr>)) c
                (\<lambda>x. x\<lparr>csize := un + p\<rparr>)
            else s2)"
  shows "write_loop dm (Suc n) s head buff ws un offset = Inr (s4, put_bytes buff ws part)"
  using assms by (simp add: Let_def)

context remote_store
begin

lemma write_loop_ok:
  assumes dm: "dhmp_read_op dm = rd" "dhmp_write_op dm = wr" "BANK_SIZE \<le> region"
    and inv: "ix_inv s" and io: "io_ok content ok D s" and free: "card (used_chunks s) + touched offset un \<le> CHUNK_NUM"
    and off: "offset + un \<le> SIZE_THIRD_DIRECT_END" "ws + un = length buff" "un < fuel"
  shows "\<exists>s' buff' D'. write_loop dm fuel s head buff ws un offset = Inr (s', buff') \<and> ix_inv s' \<and> io_ok content ok D' s' \<and>
    wrote content D D' s s' head offset (drop ws buff) \<and> length buff' = length buff \<and>
    (resident s s' head offset un \<longrightarrow> buff' = buff)"
  using inv io free off
proof (induction fuel arbitrary: s D buff ws un offset)
  case 0
  then show ?case by simp
next
  case (Suc fuel)
  note inv = Suc.prems(1) and io = Suc.prems(2)
  show ?case
  proof (cases "un = 0")
    case True
    then show ?thesis using Suc.prems by (intro exI[of _ s] exI[of _ buff] exI[of _ D]) (simp add: wrote_Nil)
  next
    case un: False
    let ?o = "offset mod CHUNK_SIZE" and ?r = "CHUNK_SIZE - offset mod CHUNK_SIZE"
    have lt: "?o < CHUNK_SIZE" by (simp add: sizes(2))
    have f: "card (used_chunks s) < CHUNK_NUM" "offset < SIZE_THIRD_DIRECT_END"
      using Suc.prems(3,4) touched_pos[of un offset] un by linarith+
    show ?thesis
    proof (cases "?r \<le> un")
      case True
      let ?d = "take ?r (drop ws buff)"
      have d: "length ?d = ?r" using True Suc.prems(5) by simp
      have "0 < length ?d" "?o + length ?d \<le> CHUNK_SIZE" using lt unfolding d by simp_all
      from write_piece[OF dm inv io f this, of head] obtain s1 c s2 part s4 D1 where
        p: "level3_local_index s offset head False = Inr (s1, Some c, ?o)"
          "dhmp_fs_write_to_cache dm s1 (chunk_bank c) ?d (chunk_pos c + ?o) = Inr (s2, part)"
          "s4 = grow_chunk s2 head c (max (csize (context_addr s2 c)) (?o + length ?d))"
          "csize (context_addr s2 c) \<le> CHUNK_SIZE" "isize (inodes s2 head) \<le> CHUNK_NUM * CHUNK_SIZE"
          "length part = length ?d" "ix_inv s4" "io_ok content ok D1 s4" "card (used_chunks s4) \<le> Suc (card (used_chunks s))"
          "wrote content D D1 s s4 head offset ?d" "resident s s4 head offset (length ?d) \<longrightarrow> part = ?d"
        by blast
      have "max (csize (context_addr s2 c)) (?o + length ?d) = CHUNK_SIZE" using p(4) lt unfolding d by simp
      then have s4: "upd_context (upd_inode s2 head (\<lambda>d. d\<lparr>isize := uadd64 (isize d) (usub64 CHUNK_SIZE (csize (context_addr s2 c)))\<rparr>)) c
          (\<lambda>x. x\<lparr>csize := CHUNK_SIZE\<rparr>) = s4"
        unfolding p(3) by (simp add: grow_code[OF p(4) order_refl p(5)])
      let ?b = "put_bytes buff ws part"
      have len: "ws + length part \<le> length buff" using True Suc.prems(5) unfolding p(6) d by simp
      have b: "length ?b = length buff" "drop (ws + ?r) ?b = drop (ws + ?r) buff"
        using length_put_bytes[OF len] drop_put_bytes[OF len] unfolding p(6) d by simp_all
      note nx = touched_next[OF True]
      have h1: "card (used_chunks s4) + touched (offset + ?r) (un - ?r) \<le> CHUNK_NUM" using Suc.prems(3) p(9) nx(1) by linarith
      have h2: "offset + ?r + (un - ?r) \<le> SIZE_THIRD_DIRECT_END" using Suc.prems(4) True by linarith
      have h3: "ws + ?r + (un - ?r) = length ?b" using Suc.prems(5) True unfolding b(1) by linarith
      have h4: "un - ?r < fuel" using Suc.prems(6) True lt un by linarith
      obtain s' buff' D' where r: "write_loop dm fuel s4 head ?b (ws + ?r) (un - ?r) (offset + ?r) = Inr (s', buff')"
        "ix_inv s'" "io_ok content ok D' s'" "wrote content D1 D' s4 s' head (offset + ?r) (drop (ws + ?r) buff)"
        "length buff' = length buff" "resident s4 s' head (offset + ?r) (un - ?r) \<longrightarrow> buff' = ?b"
        using Suc.IH[OF p(7,8) h1 h2 h3 h4, unfolded b] by blast
      have eq: "write_loop dm (Suc fuel) s head buff ws un offset = Inr (s', buff')"
        using write_loop_full[OF _ p(1) chunk_rest True p(2) s4[symmetric], of fuel] un r(1) by simp
      have dd: "drop ?r (drop ws buff) = drop (ws + ?r) buff" unfolding drop_drop by (rule arg_cong2[where f = drop, OF add.commute refl])
      have app: "drop ws buff = ?d @ drop (ws + ?r) buff" by (rule append_take_drop_id[of ?r "drop ws buff", unfolded dd, symmetric])
      have mx: "offset + length ?d + length (drop (ws + ?r) buff) \<le> SIZE_THIRD_DIRECT_END"
        using Suc.prems(4,5) True unfolding d by simp
      have al: "(offset + length ?d) mod CHUNK_SIZE = 0" unfolding d by (rule nx(2))
      have "wrote content D D' s s' head offset (?d @ drop (ws + ?r) buff)"
        by (rule wrote_append[OF p(10) _ al mx]) (unfold d, rule r(4))
      then have w: "wrote content D D' s s' head offset (drop ws buff)" unfolding app[symmetric] .
      have "buff' = buff" if res: "resident s s' head offset un"
      proof -
        have r1: "resident s s4 head offset ?r"
          by (rule resident_first[OF res r(4) True]) (use Suc.prems(4) True in simp)
        then have pd: "part = ?d" "cached s4 = cached s" using p(11) wroteD(7)[OF p(10)] unfolding d by simp_all
        have "buff' = put_bytes buff ws part" using r(6) resident_rest[OF res pd(2) True] by blast
        also have "\<dots> = buff" unfolding pd(1) by (rule put_bytes_same) (use Suc.prems(5) True in linarith)
        finally show ?thesis .
      qed
      then show ?thesis using eq r(2,3,5) w by blast
    next
      case False
      let ?d = "drop ws buff"
      have d: "length ?d = un" using Suc.prems(5) by simp
      have tk: "take un (drop ws buff) = ?d" using d by simp
      have "0 < length ?d" "?o + length ?d \<le> CHUNK_SIZE" using un False unfolding d by simp_all
      from write_piece[OF dm inv io f this, of head] obtain s1 c s2 part s4 D1 where
        p: "level3_local_index s offset head False = Inr (s1, Some c, ?o)"
          "dhmp_fs_write_to_cache dm s1 (chunk_bank c) ?d (chunk_pos c + ?o) = Inr (s2, part)"
          "s4 = grow_chunk s2 head c (max (csize (context_addr s2 c)) (?o + length ?d))"
          "csize (context_addr s2 c) \<le> CHUNK_SIZE" "isize (inodes s2 head) \<le> CHUNK_NUM * CHUNK_SIZE"
          "length part = length ?d" "ix_inv s4" "io_ok content ok D1 s4"
          "wrote content D D1 s s4 head offset ?d" "resident s s4 head offset (length ?d) \<longrightarrow> part = ?d"
        by blast
      have s4: "(if csize (context_addr s2 c) < un + ?o then
                  upd_context (upd_inode s2 head (\<lambda>d. d\<lparr>isize := uadd64 (isize d) (usub64 (un + ?o) (csize (context_addr s2 c)))\<rparr>)) c
                    (\<lambda>x. x\<lparr>csize := un + ?o\<rparr>)
                else s2) = s4"
      proof (cases "csize (context_addr s2 c) < un + ?o")
        case True
        then have "max (csize (context_addr s2 c)) (?o + length ?d) = un + ?o" unfolding d by simp
        then show ?thesis using True False grow_code[of s2 c "un + ?o" head] p(5) unfolding p(3) by simp
      next
        case False
        then have "max (csize (context_addr s2 c)) (?o + length ?d) = csize (context_addr s2 c)" unfolding d by simp
        then show ?thesis using False grow_chunk_same[of s2 c _ head] unfolding p(3) by simp
      qed
      have nf: "\<not> ?r \<le> un" using False .
      have eq: "write_loop dm (Suc fuel) s head buff ws un offset = Inr (s4, put_bytes buff ws part)"
        by (rule write_loop_last[OF un p(1) chunk_rest nf _ s4[symmetric]]) (unfold tk, rule p(2))
      have len: "ws + length part \<le> length buff" using Suc.prems(5) unfolding p(6) d by simp
      have "put_bytes buff ws part = buff" if "resident s s4 head offset un"
        using p(10) that put_bytes_same[of ws un buff] Suc.prems(5) unfolding d tk by simp
      then show ?thesis using eq p(7,8,9) length_put_bytes[OF len] by blast
    qed
  qed
qed

end

section \<open>Reading a file\<close>

text \<open>Where a read ends early: beyond the index, at a hole, or exactly where the data of a chunk ends.\<close>

definition file_stop :: "('m, 'z) io_state_scheme \<Rightarrow> inode_id \<Rightarrow> nat \<Rightarrow> bool" where
  "file_stop s head n \<longleftrightarrow> SIZE_THIRD_DIRECT_END \<le> n \<or>
     (case file_chunk s head (n div CHUNK_SIZE) of None \<Rightarrow> True | Some c \<Rightarrow> csize (context_addr s c) = n mod CHUNK_SIZE)"

lemma put_bytes_put: "pos + length a + length b \<le> length bs \<Longrightarrow> put_bytes (put_bytes bs pos a) (pos + length a) b = put_bytes bs pos (a @ b)"
  by (simp add: put_bytes_def ac_simps)

lemma file_same:
  fixes s :: "('m, 'z) io_state_scheme"
  assumes inv: "ix_inv s" and fs: "fs_same s s'" and v: "same_view content D s s'"
  shows "ix_inv s'" "(file_byte content s' i n = None) = (file_byte content s i n = None)"
    "known D s i n \<Longrightarrow> file_byte content s' i n = file_byte content s i n" "file_stop s' = file_stop s" "file_chunk s' = file_chunk s"
    "context_addr s' = context_addr s" "known D s' = known D s"
proof -
  have e: "inodes s' = inodes s" "bitmap s' = bitmap s" "context_addr s' = context_addr s" using fs by (simp_all add: fs_same_def)
  have "free_cursor s' = free_cursor s" using fs by (simp add: fs_same_def)
  then show "ix_inv s'" by (intro ix_inv_frame[OF inv]) (simp_all add: e)
  show fc: "file_chunk s' = file_chunk s" by (simp add: fun_eq_iff file_chunk_def e)
  show "context_addr s' = context_addr s" by (rule e(3))
  show "file_stop s' = file_stop s" by (simp add: fun_eq_iff file_stop_def fc e split: option.split)
  show "known D s' = known D s" by (simp add: fun_eq_iff known_def fc)
  show "(file_byte content s' i n = None) = (file_byte content s i n = None)"
    by (simp add: file_byte_def fc e split: option.split)
  assume k: "known D s i n"
  then obtain c where c: "file_chunk s i (n div CHUNK_SIZE) = Some c" "D (chunk_bank c) (chunk_pos c + n mod CHUNK_SIZE)"
    by (auto simp: known_def split: option.splits)
  have "c < CHUNK_NUM" using file_chunk_owned[OF inv c(1)] by blast
  moreover have "n mod CHUNK_SIZE < CHUNK_SIZE" by (simp add: sizes(2))
  ultimately have "chunk_bank c < BANK_NUM" "chunk_pos c + n mod CHUNK_SIZE < BANK_SIZE"
    using chunk_in_bank[of c] by auto
  then have "bank_view content s' (chunk_bank c) (chunk_pos c + n mod CHUNK_SIZE) = bank_view content s (chunk_bank c) (chunk_pos c + n mod CHUNK_SIZE)"
    using v c(2) by (simp add: same_view_def)
  then show "file_byte content s' i n = file_byte content s i n" by (simp add: file_byte_def fc e c(1))
qed

text \<open>The bytes \<open>bs\<close> are the determined bytes of the file from \<open>offset\<close> on.\<close>

definition reads :: "('m \<Rightarrow> nat \<Rightarrow> buf) \<Rightarrow> (nat \<Rightarrow> nat \<Rightarrow> bool) \<Rightarrow> ('m, 'z) io_state_scheme \<Rightarrow> inode_id \<Rightarrow> nat \<Rightarrow> byte list \<Rightarrow> bool" where
  "reads content D s head offset bs \<longleftrightarrow>
     (\<forall>k < length bs. known D s head (offset + k) \<longrightarrow> file_byte content s head (offset + k) = Some (bs ! k))"

lemma reads_append: "reads content D s head offset a \<Longrightarrow> reads content D s head (offset + length a) b \<Longrightarrow> reads content D s head offset (a @ b)"
  unfolding reads_def
proof (intro allI impI)
  fix k assume r: "\<forall>k<length a. known D s head (offset + k) \<longrightarrow> file_byte content s head (offset + k) = Some (a ! k)"
    "\<forall>k<length b. known D s head (offset + length a + k) \<longrightarrow> file_byte content s head (offset + length a + k) = Some (b ! k)"
    and k: "k < length (a @ b)" "known D s head (offset + k)"
  show "file_byte content s head (offset + k) = Some ((a @ b) ! k)"
  proof (cases "k < length a")
    case True
    then show ?thesis using r(1) k(2) by (simp add: nth_append)
  next
    case False
    then show ?thesis using r(2)[rule_format, of "k - length a"] k by (simp add: nth_append)
  qed
qed

text \<open>The bytes from a readable offset to the end of its chunk's data.\<close>

lemma chunk_run:
  assumes c: "file_chunk s head (offset div CHUNK_SIZE) = Some c" and inv: "ix_inv s" and k: "offset mod CHUNK_SIZE + k < csize (context_addr s c)"
    and off: "offset < SIZE_THIRD_DIRECT_END"
  shows "file_byte content s head (offset + k) = Some (bank_view content s (chunk_bank c) (chunk_pos c + offset mod CHUNK_SIZE + k))"
    "\<not> file_stop s head (offset + k)"
proof -
  have le: "offset mod CHUNK_SIZE + Suc k \<le> CHUNK_SIZE" using csize_le[OF inv c] k by simp
  have N: "(offset + k) div CHUNK_SIZE = offset div CHUNK_SIZE" by (rule range_in_chunk[OF _ _ le]) simp_all
  have md: "(offset + k) mod CHUNK_SIZE = offset mod CHUNK_SIZE + k"
    using div_mult_mod_eq[of "offset + k" CHUNK_SIZE] div_mult_mod_eq[of offset CHUNK_SIZE] unfolding N by linarith
  have lt: "offset + k < SIZE_THIRD_DIRECT_END" using chunk_offset[of "offset + k"] N offset_chunk[OF off] by simp
  show "file_byte content s head (offset + k) = Some (bank_view content s (chunk_bank c) (chunk_pos c + offset mod CHUNK_SIZE + k))"
    using lt c k by (simp add: file_byte_def N md add.assoc)
  show "\<not> file_stop s head (offset + k)" using lt c k by (simp add: file_stop_def N md)
qed

lemma reads_run:
  assumes c: "file_chunk s head (offset div CHUNK_SIZE) = Some c" and inv: "ix_inv s" and n: "offset mod CHUNK_SIZE + n \<le> csize (context_addr s c)"
    and off: "offset < SIZE_THIRD_DIRECT_END" and s': "fs_same s s'" "same_view content D s s'"
  shows "reads content D s head offset (buf_read (bank_view content s' (chunk_bank c)) (chunk_pos c + offset mod CHUNK_SIZE) n)"
  unfolding reads_def
proof (intro allI impI)
  fix k assume "k < length (buf_read (bank_view content s' (chunk_bank c)) (chunk_pos c + offset mod CHUNK_SIZE) n)"
    and kn: "known D s head (offset + k)"
  then have k: "k < n" by simp
  note f = file_same[OF inv s']
  have c': "file_chunk s' head (offset div CHUNK_SIZE) = Some c" "offset mod CHUNK_SIZE + k < csize (context_addr s' c)"
    using c n k by (simp_all add: f(5,6))
  show "file_byte content s head (offset + k) = Some (buf_read (bank_view content s' (chunk_bank c)) (chunk_pos c + offset mod CHUNK_SIZE) n ! k)"
    using chunk_run(1)[OF c'(1) f(1) c'(2) off, of content] f(3)[OF kn] k by simp
qed

text \<open>One round of the loop, and the last piece.\<close>

lemma read_loop_full:
  assumes "un \<noteq> 0" "level3_local_index s offset head True = Inr (s1, Some c, p)" "usub64 (csize (context_addr s1 c)) p = r" "r \<le> un" "r \<noteq> 0"
    "dhmp_fs_read_from_cache dm s1 (chunk_bank c) (take r (drop rs buff)) (chunk_pos c + p) = Inr (s2, part)"
  shows "read_loop dm (Suc n) s head buff rs un offset = read_loop dm n s2 head (put_bytes buff rs part) (rs + r) (un - r) (offset + r)"
  using assms by (simp add: Let_def)

lemma read_loop_last:
  assumes "un \<noteq> 0" "level3_local_index s offset head True = Inr (s1, Some c, p)" "usub64 (csize (context_addr s1 c)) p = r" "\<not> r \<le> un"
    "dhmp_fs_read_from_cache dm s1 (chunk_bank c) (take un (drop rs buff)) (chunk_pos c + p) = Inr (s2, part)"
  shows "read_loop dm (Suc n) s head buff rs un offset = Inr (s2, put_bytes buff rs part, rs + un)"
  using assms by (simp add: Let_def)

context remote_store
begin

lemma read_loop_ok:
  assumes dm: "dhmp_read_op dm = rd" "dhmp_write_op dm = wr" "BANK_SIZE \<le> region"
    and inv: "ix_inv s" and io: "io_ok content ok D s"
    and m: "m \<le> un" "\<forall>k < m. file_byte content s head (offset + k) \<noteq> None" "m < un \<longrightarrow> file_stop s head (offset + m)"
    and off: "rs + un = length buff" "un < fuel"
  shows "\<exists>s' bs. read_loop dm fuel s head buff rs un offset = Inr (s', put_bytes buff rs bs, rs + m) \<and> length bs = m \<and>
    reads content D s head offset bs \<and> io_ok content ok D s' \<and> same_view content D s s' \<and> fs_same s s'"
  using inv io m off
proof (induction fuel arbitrary: s buff rs un offset m)
  case 0
  then show ?case by simp
next
  case (Suc fuel)
  note inv = Suc.prems(1) and io = Suc.prems(2) and m = Suc.prems(3-5) and len = Suc.prems(6)
  have nil: "put_bytes buff rs [] = buff" "reads content D s head offset []" by (simp_all add: put_bytes_def reads_def)
  let ?o = "offset mod CHUNK_SIZE"
  consider "un = 0" | "0 < un" "m = 0" | "0 < m" by linarith
  then show ?case
  proof cases
    case 1
    then show ?thesis using m io nil by (intro exI[of _ s] exI[of _ "[]"]) simp
  next
    case 2
    then have st: "file_stop s head offset" using m by simp
    have "read_loop dm (Suc fuel) s head buff rs un offset = Inr (s, buff, rs)"
    proof (cases "offset < SIZE_THIRD_DIRECT_END")
      case False
      then show ?thesis using 2 level3_out_of_range[of offset s head True] by simp
    next
      case True
      show ?thesis
      proof (cases "file_chunk s head (offset div CHUNK_SIZE)")
        case None
        then show ?thesis using 2 level3_read[OF True, of s head] by auto
      next
        case (Some c)
        then have "level3_local_index s offset head True = Inr (s, Some c, ?o)" using level3_read[OF True, of s head] by auto
        moreover have "csize (context_addr s c) = ?o" using st True Some by (simp add: file_stop_def)
        moreover have "usub64 ?o ?o = 0" by (subst usub64_ge) (simp_all add: sizes(2))
        ultimately show ?thesis using 2 by simp
      qed
    qed
    then show ?thesis using 2(2) io nil by (intro exI[of _ s] exI[of _ "[]"]) simp
  next
    case 3
    then have b0: "file_byte content s head offset \<noteq> None" using m(2) by (metis add.right_neutral)
    then have off: "offset < SIZE_THIRD_DIRECT_END" by (auto simp: file_byte_def split: if_splits)
    with b0 obtain c where c: "file_chunk s head (offset div CHUNK_SIZE) = Some c" "?o < csize (context_addr s c)"
      by (auto simp: file_byte_def split: option.splits if_splits)
    have l: "level3_local_index s offset head True = Inr (s, Some c, ?o)" using level3_read[OF off, of s head] c(1) by auto
    let ?n = "csize (context_addr s c) - ?o"
    have cs: "csize (context_addr s c) \<le> CHUNK_SIZE" by (rule csize_le[OF inv c(1)])
    then have n: "usub64 (csize (context_addr s c)) ?o = ?n" using c(2) by (intro usub64_ge) (simp_all add: sizes(2))
    have cn: "c < CHUNK_NUM" using file_chunk_owned[OF inv c(1)] by blast
    have mn: "?n \<le> m \<or> m = un"
    proof (rule ccontr)
      assume "\<not> (?n \<le> m \<or> m = un)"
      then have "?o + m < csize (context_addr s c)" "m < un" using m(1) by linarith+
      then show False using chunk_run(2)[OF c(1) inv _ off, of m] m(3) by blast
    qed
    have rd: "\<exists>s' bs. dhmp_fs_read_from_cache dm s (chunk_bank c) (take k (drop rs buff)) (chunk_pos c + ?o) = Inr (s', bs) \<and> length bs = k \<and>
        reads content D s head offset bs \<and> io_ok content ok D s' \<and> same_view content D s s' \<and> fs_same s s'"
      if "k \<le> un" "k \<le> ?n" for k
    proof -
      have l: "length (take k (drop rs buff)) = k" using len that(1) by simp
      have "chunk_pos c + ?o + length (take k (drop rs buff)) \<le> BANK_SIZE" unfolding l using chunk_in_bank(2)[OF cn] cs c(2) that(2) by linarith
      from cache_read_ok[OF dm io chunk_in_bank(1)[OF cn] this] obtain s' where
        s': "dhmp_fs_read_from_cache dm s (chunk_bank c) (take k (drop rs buff)) (chunk_pos c + ?o) =
          Inr (s', buf_read (bank_view content s' (chunk_bank c)) (chunk_pos c + ?o) k)"
        "io_ok content ok D s'" "same_view content D s s'" "fs_same s s'" unfolding l by blast
      have "?o + k \<le> csize (context_addr s c)" using that(2) c(2) by linarith
      from reads_run[OF c(1) inv this off s'(4,3)] s' show ?thesis by force
    qed
    show ?thesis
    proof (cases "?n \<le> un")
      case True
      have n0: "?n \<noteq> 0" using c(2) by simp
      have nm: "?n \<le> m" using mn True by linarith
      from rd[OF True order_refl] obtain s2 b1 where s2: "dhmp_fs_read_from_cache dm s (chunk_bank c) (take ?n (drop rs buff)) (chunk_pos c + ?o) =
        Inr (s2, b1)" "length b1 = ?n" "reads content D s head offset b1" "io_ok content ok D s2" "same_view content D s s2" "fs_same s s2" by blast
      note f = file_same[OF inv s2(6,5)]
      let ?b = "put_bytes buff rs b1"
      have lb: "length ?b = length buff" by (rule length_put_bytes) (use len True s2(2) in simp)
      have h: "m - ?n \<le> un - ?n" "\<forall>k < m - ?n. file_byte content s2 head (offset + ?n + k) \<noteq> None"
        "m - ?n < un - ?n \<longrightarrow> file_stop s2 head (offset + ?n + (m - ?n))" "rs + ?n + (un - ?n) = length ?b" "un - ?n < fuel"
      proof -
        show "m - ?n \<le> un - ?n" using m(1) by linarith
        show "\<forall>k < m - ?n. file_byte content s2 head (offset + ?n + k) \<noteq> None"
        proof (intro allI impI)
          fix k assume "k < m - ?n"
          then have "?n + k < m" by linarith
          then show "file_byte content s2 head (offset + ?n + k) \<noteq> None" using m(2) unfolding f(2) add.assoc by blast
        qed
        have "offset + ?n + (m - ?n) = offset + m" using nm by linarith
        then show "m - ?n < un - ?n \<longrightarrow> file_stop s2 head (offset + ?n + (m - ?n))" using m(3) unfolding f(4) by simp
        show "rs + ?n + (un - ?n) = length ?b" using len True unfolding lb by linarith
        show "un - ?n < fuel" using Suc.prems(7) True n0 by linarith
      qed
      from Suc.IH[OF f(1) s2(4) h] obtain s' b2 where s': "read_loop dm fuel s2 head ?b (rs + ?n) (un - ?n) (offset + ?n) =
          Inr (s', put_bytes ?b (rs + ?n) b2, rs + ?n + (m - ?n))" "length b2 = m - ?n" "reads content D s2 head (offset + ?n) b2"
        "io_ok content ok D s'" "same_view content D s2 s'" "fs_same s2 s'" by blast
      have "rs + length b1 + length b2 \<le> length buff" using len nm m(1) s2(2) s'(2) by simp
      from put_bytes_put[OF this] have p: "put_bytes ?b (rs + ?n) b2 = put_bytes buff rs (b1 @ b2)" unfolding s2(2) .
      have lm: "rs + ?n + (m - ?n) = rs + m" "length (b1 @ b2) = m" using nm s2(2) s'(2) by simp_all
      have "reads content D s head (offset + length b1) b2"
        using s'(3) f(3)[of head] unfolding reads_def f(7) s2(2) by auto
      then have r: "reads content D s head offset (b1 @ b2)" by (rule reads_append[OF s2(3)])
      have "read_loop dm (Suc fuel) s head buff rs un offset = Inr (s', put_bytes buff rs (b1 @ b2), rs + m)"
        using read_loop_full[OF _ l n True n0 s2(1)] s'(1) 3 m(1) unfolding p lm by simp
      then show ?thesis using lm(2) r s'(4) same_view_trans[OF s2(5) s'(5)] fs_same_trans[OF s2(6) s'(6)] by blast
    next
      case False
      then have mu: "m = un" using mn m(1) by linarith
      have nf: "\<not> ?n \<le> un" using False .
      from rd[of un] False obtain s2 bs where s2: "dhmp_fs_read_from_cache dm s (chunk_bank c) (take un (drop rs buff)) (chunk_pos c + ?o) =
        Inr (s2, bs)" "length bs = un" "reads content D s head offset bs" "io_ok content ok D s2" "same_view content D s s2" "fs_same s s2" by force
      have "un \<noteq> 0" using 3 mu by simp
      from read_loop_last[OF this l n nf s2(1)] show ?thesis using s2(2-6) unfolding mu by blast
    qed
  qed
qed

end

section \<open>The two entry points\<close>

context remote_store
begin

lemma fs_write_ok:
  assumes dm: "dhmp_read_op dm = rd" "dhmp_write_op dm = wr" "BANK_SIZE \<le> region"
    and inv: "ix_inv s" and io: "io_ok content ok D s" and free: "card (used_chunks s) + touched offset (length buff) \<le> CHUNK_NUM"
    and off: "offset + length buff \<le> SIZE_THIRD_DIRECT_END" "length buff < 2 ^ 31" and reg: "\<not> isDirectories (inodes s head)"
  shows "\<exists>s' buff' D'. dhmp_fs_write dm s buff offset (Some head) = Inr (s', buff', int (length buff)) \<and> ix_inv s' \<and> io_ok content ok D' s' \<and>
    wrote content D D' s s' head offset buff \<and> length buff' = length buff \<and> (resident s s' head offset (length buff) \<longrightarrow> buff' = buff)"
proof -
  from write_loop_ok[OF dm inv io free off(1), of 0 buff "Suc (length buff)" head] obtain s' buff' D' where
    r: "write_loop dm (Suc (length buff)) s head buff 0 (length buff) offset = Inr (s', buff')" "ix_inv s'" "io_ok content ok D' s'"
      "wrote content D D' s s' head offset buff" "length buff' = length buff" "resident s s' head offset (length buff) \<longrightarrow> buff' = buff"
    by auto
  have "sint32 (int (length buff)) = int (length buff)" using off(2) by (intro sint32_id) simp_all
  then have "dhmp_fs_write dm s buff offset (Some head) = Inr (s', buff', int (length buff))"
    using reg r(1) by (simp add: dhmp_fs_write_def)
  then show ?thesis using r(2-6) by blast
qed

lemma fs_read_ok:
  assumes dm: "dhmp_read_op dm = rd" "dhmp_write_op dm = wr" "BANK_SIZE \<le> region"
    and inv: "ix_inv s" and io: "io_ok content ok D s"
    and m: "m \<le> length buff" "\<forall>k < m. file_byte content s head (offset + k) \<noteq> None" "m < length buff \<longrightarrow> file_stop s head (offset + m)"
    and off: "length buff < 2 ^ 31" and reg: "\<not> isDirectories (inodes s head)"
  shows "\<exists>s' bs. dhmp_fs_read dm s buff offset (Some head) = Inr (s', bs @ drop m buff, int m) \<and> length bs = m \<and>
    reads content D s head offset bs \<and> ix_inv s' \<and> io_ok content ok D s' \<and> same_view content D s s' \<and> fs_same s s'"
proof -
  have len: "0 + length buff = length buff" "length buff < Suc (length buff)" by simp_all
  from read_loop_ok[OF dm inv io m len] obtain s' bs where
    r: "read_loop dm (Suc (length buff)) s head buff 0 (length buff) offset = Inr (s', put_bytes buff 0 bs, m)" "length bs = m"
      "reads content D s head offset bs" "io_ok content ok D s'" "same_view content D s s'" "fs_same s s'" by auto
  have "sint32 (int m) = int m" using off m(1) by (intro sint32_id) simp_all
  moreover have "put_bytes buff 0 bs = bs @ drop m buff" using r(2) by (simp add: put_bytes_def)
  ultimately have "dhmp_fs_read dm s buff offset (Some head) = Inr (s', bs @ drop m buff, int m)"
    using reg r(1) by (simp add: dhmp_fs_read_def)
  then show ?thesis using r(2-6) file_same(1)[OF inv r(6,5)] by blast
qed

text \<open>What was written to resident banks is read back.\<close>

lemma fs_write_read:
  assumes dm: "dhmp_read_op dm = rd" "dhmp_write_op dm = wr" "BANK_SIZE \<le> region"
    and inv: "ix_inv s" and io: "io_ok content ok D s" and free: "card (used_chunks s) + touched offset (length buff) \<le> CHUNK_NUM"
    and off: "offset + length buff \<le> SIZE_THIRD_DIRECT_END" "length buff < 2 ^ 31" and reg: "\<not> isDirectories (inodes s head)"
    and w: "dhmp_fs_write dm s buff offset (Some head) = Inr (s', buff', n)"
    and res: "resident s s' head offset (length buff)" and b2: "length buff2 = length buff"
  shows "\<exists>s''. dhmp_fs_read dm s' buff2 offset (Some head) = Inr (s'', buff, int (length buff))"
proof -
  from fs_write_ok[OF dm inv io free off reg] w obtain D' where h: "ix_inv s'" "io_ok content ok D' s'" "wrote content D D' s s' head offset buff"
    by auto
  note b = wroteD(8)[OF h(3) res] wroteD(9)[OF h(3) res]
  have reg': "\<not> isDirectories (inodes s' head)" using reg wrote_frame[OF h(3)] by simp
  have "\<forall>k < length buff. file_byte content s' head (offset + k) \<noteq> None" using b(2) by simp
  moreover have "length buff \<le> length buff2" "length buff < length buff2 \<longrightarrow> file_stop s' head (offset + length buff)" "length buff2 < 2 ^ 31"
    using b2 off(2) by simp_all
  ultimately obtain s'' bs where r: "dhmp_fs_read dm s' buff2 offset (Some head) = Inr (s'', bs @ drop (length buff) buff2, int (length buff))"
    "length bs = length buff" "reads content D' s' head offset bs"
    using fs_read_ok[OF dm h(1,2), of "length buff" buff2 head offset] reg' by blast
  have "bs = buff"
  proof (rule nth_equalityI)
    show "bs ! k = buff ! k" if "k < length bs" for k using r(3) b[of k] that r(2) by (simp add: reads_def)
  qed (rule r(2))
  then show ?thesis using r(1) b2 by simp
qed

end

end
