(* ===== verification/Dhmp_Hash.thy ===== *)
theory Dhmp_Hash
  imports Prelude
begin

text \<open>
  \<open>src/dhmp_client/src/murmur3_hash.c\<close> and the two hash functions on addresses built on it,
  \<open>dhmp_hash_in_client\<close> and \<open>dhmp_hash_in_server\<close>. A key is a list of bytes; 32-bit blocks are read
  little-endian as on x86. The loop of the code counts \<open>i\<close> from \<open>-nblocks\<close> up to 0; the model keeps
  that signed index.
\<close>

section \<open>MurmurHash3\<close>

definition rotl32 :: "32 word \<Rightarrow> nat \<Rightarrow> 32 word" where
  "rotl32 x r = push_bit r x OR drop_bit (32 - r) x"

definition fmix32 :: "32 word \<Rightarrow> 32 word" where
  "fmix32 h =
     (let h1 = (h XOR drop_bit 16 h) * 0x85ebca6b;
          h2 = (h1 XOR drop_bit 13 h1) * 0xc2b2ae35
      in h2 XOR drop_bit 16 h2)"

text \<open>Byte \<open>j\<close> of the key as a 32-bit value.\<close>

definition key_byte :: "byte list \<Rightarrow> nat \<Rightarrow> 32 word" where
  "key_byte data j = ucast (data ! j)"

text \<open>\<open>blocks\<close> points behind the last whole block, \<open>i\<close> is negative.\<close>

definition getblock32 :: "byte list \<Rightarrow> nat \<Rightarrow> int \<Rightarrow> 32 word" where
  "getblock32 data nblocks i =
     (let p = nat (4 * int nblocks + 4 * i)
      in key_byte data p OR push_bit 8 (key_byte data (p + 1)) OR push_bit 16 (key_byte data (p + 2)) OR
         push_bit 24 (key_byte data (p + 3)))"

definition mix_k1 :: "32 word \<Rightarrow> 32 word" where
  "mix_k1 k = rotl32 (k * 0xcc9e2d51) 15 * 0x1b873593"

function murmur_body :: "byte list \<Rightarrow> nat \<Rightarrow> int \<Rightarrow> 32 word \<Rightarrow> 32 word" where
  "murmur_body data nblocks i h1 =
     (if i < 0 then murmur_body data nblocks (i + 1) (rotl32 (h1 XOR mix_k1 (getblock32 data nblocks i)) 13 * 5 + 0xe6546b64)
      else h1)"
  by pat_completeness auto
termination
  by (relation "measure (\<lambda>(data, nblocks, i, h1). nat (- i))") auto

declare murmur_body.simps [simp del]

text \<open>The \<open>switch\<close> falls through from 3 to 2 to 1.\<close>

definition murmur_tail :: "byte list \<Rightarrow> nat \<Rightarrow> 32 word \<Rightarrow> 32 word" where
  "murmur_tail data nblocks h1 =
     (let t = 4 * nblocks; r = length data AND 3;
          k3 = (if r = 3 then push_bit 16 (key_byte data (t + 2)) else 0);
          k2 = (if r = 3 \<or> r = 2 then k3 XOR push_bit 8 (key_byte data (t + 1)) else k3)
      in if r = 0 then h1 else h1 XOR mix_k1 (k2 XOR key_byte data t))"

definition MurmurHash3_x86_32 :: "byte list \<Rightarrow> 32 word" where
  "MurmurHash3_x86_32 data =
     (let nblocks = length data div 4;
          h1 = murmur_tail data nblocks (murmur_body data nblocks (- int nblocks) 0)
      in fmix32 (h1 XOR word_of_nat (length data)))"

section \<open>Hashing an address\<close>

text \<open>The eight bytes of a pointer as they lie in memory.\<close>

definition ptr_bytes :: "64 word \<Rightarrow> byte list" where
  "ptr_bytes a = map (\<lambda>j. ucast (drop_bit (8 * j) a)) [0 ..< 8]"

definition DHMP_CLIENT_HT_SIZE :: nat where "DHMP_CLIENT_HT_SIZE = 500000"
definition DHMP_DRAM_HT_SIZE :: nat where "DHMP_DRAM_HT_SIZE = 251"

text \<open>The remainder is computed on \<open>uint32_t\<close>; the sum cannot wrap.\<close>

definition ht_index :: "nat \<Rightarrow> 32 word \<Rightarrow> int" where
  "ht_index n key = sint ((key mod word_of_nat n + word_of_nat n) mod word_of_nat n)"

definition dhmp_hash_in_client :: "64 word \<Rightarrow> int" where
  "dhmp_hash_in_client addr = ht_index DHMP_CLIENT_HT_SIZE (MurmurHash3_x86_32 (ptr_bytes addr))"

definition dhmp_hash_in_server :: "64 word \<Rightarrow> int" where
  "dhmp_hash_in_server nvm_addr = ht_index DHMP_DRAM_HT_SIZE (MurmurHash3_x86_32 (ptr_bytes nvm_addr))"

section \<open>The hash as a fold over the blocks\<close>

text \<open>Reference: the key cut into blocks of four bytes, mixed from left to right.\<close>

fun blocks_of :: "nat \<Rightarrow> byte list \<Rightarrow> 32 word list" where
  "blocks_of (Suc n) (a # b # c # d # bs) =
     (ucast a OR push_bit 8 (ucast b) OR push_bit 16 (ucast c) OR push_bit 24 (ucast d)) # blocks_of n bs"
| "blocks_of _ _ = []"

definition mix_block :: "32 word \<Rightarrow> 32 word \<Rightarrow> 32 word" where
  "mix_block h k = rotl32 (h XOR mix_k1 k) 13 * 5 + 0xe6546b64"

lemma length_blocks_of: "4 * n \<le> length bs \<Longrightarrow> length (blocks_of n bs) = n"
  by (induction n bs rule: blocks_of.induct) (auto simp: Suc_le_eq)

lemma nth_blocks_of: "4 * n \<le> length bs \<Longrightarrow> j < n \<Longrightarrow> blocks_of n bs ! j =
    key_byte bs (4 * j) OR push_bit 8 (key_byte bs (4 * j + 1)) OR push_bit 16 (key_byte bs (4 * j + 2)) OR push_bit 24 (key_byte bs (4 * j + 3))"
proof (induction n bs arbitrary: j rule: blocks_of.induct)
  case (1 n a b c d bs)
  show ?case
  proof (cases j)
    case 0
    then show ?thesis by (simp add: key_byte_def)
  next
    case (Suc i)
    have "4 * Suc i = Suc (Suc (Suc (Suc (4 * i))))" by simp
    then show ?thesis using 1 Suc by (simp add: key_byte_def add.commute)
  qed
qed auto

lemma murmur_body_fold:
  assumes "4 * n \<le> length data" "m \<le> n"
  shows "murmur_body data n (- int m) h = foldl mix_block h (drop (n - m) (blocks_of n data))"
  using assms(2)
proof (induction m arbitrary: h)
  case 0
  then show ?case using length_blocks_of[OF assms(1)] by (simp add: murmur_body.simps)
next
  case (Suc m)
  let ?bs = "blocks_of n data"
  have len: "length ?bs = n" by (rule length_blocks_of[OF assms(1)])
  have p: "nat (4 * int n + 4 * (- int (Suc m))) = 4 * (n - Suc m)" using Suc.prems by simp
  have b: "getblock32 data n (- int (Suc m)) = ?bs ! (n - Suc m)"
    unfolding getblock32_def Let_def p using nth_blocks_of[OF assms(1), of "n - Suc m"] Suc.prems by simp
  have d: "drop (n - Suc m) ?bs = ?bs ! (n - Suc m) # drop (n - m) ?bs"
    using Cons_nth_drop_Suc[of "n - Suc m" ?bs] Suc.prems len by (simp add: Suc_diff_Suc)
  have "murmur_body data n (- int (Suc m)) h = murmur_body data n (- int m) (mix_block h (?bs ! (n - Suc m)))"
    unfolding mix_block_def b[symmetric] by (subst murmur_body.simps) simp
  then show ?case using Suc by (simp add: d)
qed

lemma ht_index_bounds:
  assumes "0 < n" "n < 2 ^ 30"
  shows "ht_index n key = int (unat key mod n)"
proof -
  let ?w = "word_of_nat n :: 32 word"
  have wn: "unat ?w = n" using assms(2) by (simp add: unat_of_nat take_bit_nat_eq_self)
  have a: "unat (key mod ?w) = unat key mod n" by (simp add: unat_mod wn)
  have lt: "unat key mod n < n" using assms(1) by simp
  have s: "unat (key mod ?w + ?w) = unat key mod n + n"
    using lt assms(2) by (simp add: unat_word_ariths a wn)
  have r: "unat ((key mod ?w + ?w) mod ?w) = unat key mod n" by (simp add: unat_mod wn s)
  have "uint ((key mod ?w + ?w) mod ?w) = int (unat ((key mod ?w + ?w) mod ?w))" by simp
  also have "\<dots> < 2 ^ 31" unfolding r using lt assms(2) by simp
  finally have "uint ((key mod ?w + ?w) mod ?w) < 2 ^ 31" .
  moreover have "- (2 ^ 31) \<le> uint ((key mod ?w + ?w) mod ?w)" by (rule order_trans[of _ 0]) simp_all
  ultimately have "sint ((key mod ?w + ?w) mod ?w) = int (unat ((key mod ?w + ?w) mod ?w))"
    by (simp add: sint_uint signed_take_bit_int_eq_self)
  then show ?thesis by (simp add: ht_index_def r)
qed

lemma client_index: "dhmp_hash_in_client a = int (unat (MurmurHash3_x86_32 (ptr_bytes a)) mod DHMP_CLIENT_HT_SIZE)"
  unfolding dhmp_hash_in_client_def by (rule ht_index_bounds) (simp_all add: DHMP_CLIENT_HT_SIZE_def)

section \<open>Properties\<close>

text \<open>The loop over \<open>blocks[i]\<close> with \<open>i\<close> from \<open>-nblocks\<close> to -1 is the left-to-right mixing of the
  32-bit blocks of the key; the tail and the length follow as in the code.\<close>

theorem murmur_is_fold:
  "MurmurHash3_x86_32 data =
     fmix32 (murmur_tail data (length data div 4) (foldl mix_block 0 (blocks_of (length data div 4) data)) XOR word_of_nat (length data))"
  using murmur_body_fold[of "length data div 4" data "length data div 4" 0] by (simp add: MurmurHash3_x86_32_def Let_def)

text \<open>For every address both hash functions return an index inside their table, the hash modulo
  the table's size; the sum in the expression neither wraps nor turns negative.\<close>

theorem hash_index_in_table:
  "0 \<le> dhmp_hash_in_client a \<and> dhmp_hash_in_client a < int DHMP_CLIENT_HT_SIZE \<and>
   dhmp_hash_in_client a = int (unat (MurmurHash3_x86_32 (ptr_bytes a)) mod DHMP_CLIENT_HT_SIZE) \<and>
   0 \<le> dhmp_hash_in_server a \<and> dhmp_hash_in_server a < int DHMP_DRAM_HT_SIZE \<and>
   dhmp_hash_in_server a = int (unat (MurmurHash3_x86_32 (ptr_bytes a)) mod DHMP_DRAM_HT_SIZE)"
proof -
  have "dhmp_hash_in_server a = int (unat (MurmurHash3_x86_32 (ptr_bytes a)) mod DHMP_DRAM_HT_SIZE)"
    unfolding dhmp_hash_in_server_def by (rule ht_index_bounds) (simp_all add: DHMP_DRAM_HT_SIZE_def)
  moreover have "x mod DHMP_CLIENT_HT_SIZE < DHMP_CLIENT_HT_SIZE" "x mod DHMP_DRAM_HT_SIZE < DHMP_DRAM_HT_SIZE" for x
    by (simp_all add: DHMP_CLIENT_HT_SIZE_def DHMP_DRAM_HT_SIZE_def)
  ultimately show ?thesis by (simp only: client_index) simp
qed

text \<open>The published test vectors of the function.\<close>

lemma murmur_vectors:
  "MurmurHash3_x86_32 [] = 0"
  "MurmurHash3_x86_32 [0x74, 0x65, 0x73, 0x74] = 0xba6bd213"
  "MurmurHash3_x86_32 [0x61, 0x62, 0x63] = 0xb3dd93fa"
  by code_simp+

end
