(* ===== verification/Dhmp_Types.thy ===== *)
theory Dhmp_Types
  imports Dhmp_Hash
begin

text \<open>
  The data the client and the server of the DHMP library share: \<open>src/dhmp_client/include/dhmp.h\<close>,
  \<open>dhmp_transport.h\<close>, \<open>dhmp_task.h\<close>, \<open>dhmp_poll.h\<close> and \<open>dhmp_watcher.h\<close>. Pointers into the memory of a server are
  64-bit words, pointers to the library's own objects are numbers, \<open>NULL\<close> is 0 or \<open>None\<close>. A message is a
  constructor per \<open>dhmp_msg_type\<close> with the payload its handlers cast \<open>data\<close> to; \<open>msg_data_size\<close> is the
  \<open>data_size\<close> the sender fills in. The RDMA stack (libibverbs, librdmacm) is an argument, the record
  \<open>verbs\<close>, over a state \<open>'n\<close> of the network and the machines behind it.
\<close>

section \<open>Memory regions and address records\<close>

record ibv_mr =
  mr_addr :: "64 word"
  mr_length :: nat
  lkey :: nat
  rkey :: nat

record dhmp_addr_info =
  read_cnt :: int
  write_cnt :: int
  node_index :: int
  write_flag :: bool
  dram_mr :: ibv_mr
  nvm_mr :: ibv_mr

record dhmp_nvm_info =
  nvm_addr :: "64 word"
  nvm_length :: nat

record dhmp_dram_info =
  dram_nvm_addr :: "64 word"
  dram_info_mr :: ibv_mr

record dhmp_app_mem_info =
  app_dram_used_size :: int
  app_nvm_used_size :: int

section \<open>Messages\<close>

record dhmp_mc_request =
  mc_req_size :: nat
  mc_addr_info :: nat

record dhmp_send_request =
  send_req_size :: nat
  send_server_addr :: "64 word"
  send_task :: nat
  send_is_write :: bool

datatype dhmp_msg =
    DHMP_MSG_MALLOC_REQUEST dhmp_mc_request
  | DHMP_MSG_MALLOC_RESPONSE dhmp_mc_request ibv_mr
  | DHMP_MSG_MALLOC_ERROR dhmp_mc_request
  | DHMP_MSG_FREE_REQUEST nat ibv_mr
  | DHMP_MSG_FREE_RESPONSE nat
  | DHMP_MSG_APPLY_DRAM_REQUEST "dhmp_nvm_info list"
  | DHMP_MSG_APPLY_DRAM_RESPONSE "dhmp_dram_info list"
  | DHMP_MSG_CLEAR_DRAM_REQUEST "dhmp_nvm_info list"
  | DHMP_MSG_CLEAR_DRAM_RESPONSE "dhmp_nvm_info list"
  | DHMP_MSG_MEM_CHANGE "dhmp_app_mem_info list"
  | DHMP_MSG_SERVER_INFO_REQUEST
  | DHMP_MSG_SERVER_INFO_RESPONSE int int
  | DHMP_MSG_CLOSE_CONNECTION
  | DHMP_MSG_SEND_REQUEST dhmp_send_request "byte list"
  | DHMP_MSG_SEND_RESPONSE dhmp_send_request "byte list"

text \<open>
  \<open>sizeof\<close> of the payloads on x86-64: a request is 16 bytes, a memory region 48, a send request 40.
\<close>

fun msg_data_size :: "dhmp_msg \<Rightarrow> nat" where
  "msg_data_size (DHMP_MSG_MALLOC_REQUEST r) = 16"
| "msg_data_size (DHMP_MSG_MALLOC_RESPONSE r mr) = 64"
| "msg_data_size (DHMP_MSG_MALLOC_ERROR r) = 64"
| "msg_data_size (DHMP_MSG_FREE_REQUEST p mr) = 56"
| "msg_data_size (DHMP_MSG_FREE_RESPONSE p) = 8"
| "msg_data_size (DHMP_MSG_APPLY_DRAM_REQUEST xs) = 16 * length xs"
| "msg_data_size (DHMP_MSG_APPLY_DRAM_RESPONSE xs) = 56 * length xs"
| "msg_data_size (DHMP_MSG_CLEAR_DRAM_REQUEST xs) = 16 * length xs"
| "msg_data_size (DHMP_MSG_CLEAR_DRAM_RESPONSE xs) = 16 * length xs"
| "msg_data_size (DHMP_MSG_MEM_CHANGE xs) = 16 * length xs"
| "msg_data_size DHMP_MSG_SERVER_INFO_REQUEST = 0"
| "msg_data_size (DHMP_MSG_SERVER_INFO_RESPONSE d n) = 16"
| "msg_data_size DHMP_MSG_CLOSE_CONNECTION = 4"
| "msg_data_size (DHMP_MSG_SEND_REQUEST r bs) = 40 + length bs"
| "msg_data_size (DHMP_MSG_SEND_RESPONSE r bs) = 40 + length bs"

section \<open>Transports\<close>

datatype dhmp_transport_state =
    DHMP_TRANSPORT_STATE_INIT
  | DHMP_TRANSPORT_STATE_LISTEN
  | DHMP_TRANSPORT_STATE_CONNECTING
  | DHMP_TRANSPORT_STATE_CONNECTED
  | DHMP_TRANSPORT_STATE_DISCONNECTED
  | DHMP_TRANSPORT_STATE_RECONNECT
  | DHMP_TRANSPORT_STATE_CLOSED
  | DHMP_TRANSPORT_STATE_DESTROYED
  | DHMP_TRANSPORT_STATE_ERROR

text \<open>The enumeration's numbers; some tests compare states by them.\<close>

fun state_no :: "dhmp_transport_state \<Rightarrow> nat" where
  "state_no DHMP_TRANSPORT_STATE_INIT = 0"
| "state_no DHMP_TRANSPORT_STATE_LISTEN = 1"
| "state_no DHMP_TRANSPORT_STATE_CONNECTING = 2"
| "state_no DHMP_TRANSPORT_STATE_CONNECTED = 3"
| "state_no DHMP_TRANSPORT_STATE_DISCONNECTED = 4"
| "state_no DHMP_TRANSPORT_STATE_RECONNECT = 5"
| "state_no DHMP_TRANSPORT_STATE_CLOSED = 6"
| "state_no DHMP_TRANSPORT_STATE_DESTROYED = 7"
| "state_no DHMP_TRANSPORT_STATE_ERROR = 8"

instantiation dhmp_transport_state :: linorder
begin

definition less_eq_dhmp_transport_state :: "dhmp_transport_state \<Rightarrow> dhmp_transport_state \<Rightarrow> bool" where
  "s \<le> t \<longleftrightarrow> state_no s \<le> state_no t"

definition less_dhmp_transport_state :: "dhmp_transport_state \<Rightarrow> dhmp_transport_state \<Rightarrow> bool" where
  "s < t \<longleftrightarrow> state_no s < state_no t"

instance
proof
  fix s t :: dhmp_transport_state
  assume "s \<le> t" "t \<le> s"
  then show "s = t" by (cases s; cases t) (simp_all add: less_eq_dhmp_transport_state_def)
qed (auto simp: less_eq_dhmp_transport_state_def less_dhmp_transport_state_def)

end

lemmas state_order = less_eq_dhmp_transport_state_def less_dhmp_transport_state_def

record sockaddr_in =
  sin_addr :: "32 word"
  sin_port :: int

record dhmp_mr =
  cur_pos :: nat
  dmr_addr :: "64 word"
  dmr_lkey :: nat

text \<open>
  \<open>ctx\<close> and \<open>device\<close> are the same for all transports of a process and left out; \<open>qp\<close>, \<open>dcq\<close>,
  \<open>event_channel\<close> and \<open>cm_id\<close> are handles of the RDMA stack. \<open>client_entry\<close> is membership in a list,
  which is kept where the list is.
\<close>

record dhmp_transport =
  peer_addr :: sockaddr_in
  local_addr :: sockaddr_in
  node_id :: int
  trans_state :: dhmp_transport_state
  dcq :: "nat option"
  qp :: "nat option"
  event_channel :: "nat option"
  cm_id :: "nat option"
  send_mr :: "dhmp_mr option"
  recv_mr :: "dhmp_mr option"
  is_poll_qp :: bool
  link_trans :: "nat option"
  dram_used_size :: int
  nvm_used_size :: int

definition DHMP_SERVER_NODE_NUM :: nat where "DHMP_SERVER_NODE_NUM = 3"
definition RECV_REGION_SIZE :: nat where "RECV_REGION_SIZE = 512 * 1024 * 1024"
definition SEND_REGION_SIZE :: nat where "SEND_REGION_SIZE = 512 * 1024 * 1024"
definition SINGLE_POLL_RECV_REGION :: nat where "SINGLE_POLL_RECV_REGION = 64 * 1024 * 1024"
definition SINGLE_NORM_RECV_REGION :: nat where "SINGLE_NORM_RECV_REGION = 64 * 1024"
definition RDMA_SEND_THREASHOLD :: int where "RDMA_SEND_THREASHOLD = 524288"

section \<open>Work requests\<close>

record dhmp_sge =
  sge_addr :: "64 word"
  sge_length :: nat
  sge_lkey :: nat

record dhmp_task =
  done_flag :: bool
  sge :: dhmp_sge
  rdma_trans :: nat

text \<open>
  \<open>dhmp_send_task_create\<close>: messages are built one behind the other in the send region, from its start
  again when the rest is too short. A message longer than the whole region is written past its end.
\<close>

definition msg_length :: "dhmp_msg \<Rightarrow> nat" where
  "msg_length m = 4 + 8 + msg_data_size m"

definition dhmp_send_task_create :: "nat \<Rightarrow> dhmp_transport \<Rightarrow> dhmp_msg \<Rightarrow> (dhmp_transport \<times> dhmp_task) res" where
  "dhmp_send_task_create t rt msg =
     (case send_mr rt of
        None \<Rightarrow> Inl Null_deref
      | Some mr \<Rightarrow>
          let len = msg_length msg;
              pos = (if SEND_REGION_SIZE < cur_pos mr + len then 0 else cur_pos mr);
              task = \<lparr>done_flag = False, sge = \<lparr>sge_addr = dmr_addr mr + word_of_nat pos, sge_length = len, sge_lkey = dmr_lkey mr\<rparr>,
                      rdma_trans = t\<rparr>
          in if SEND_REGION_SIZE < pos + len then Inl Buffer_overflow
             else Inr (rt\<lparr>send_mr := Some (mr\<lparr>cur_pos := pos + len\<rparr>)\<rparr>, task))"

definition dhmp_recv_task_create :: "nat \<Rightarrow> dhmp_transport \<Rightarrow> 64 word \<Rightarrow> dhmp_task res" where
  "dhmp_recv_task_create t rt addr =
     (case recv_mr rt of
        None \<Rightarrow> Inl Null_deref
      | Some mr \<Rightarrow>
          Inr \<lparr>done_flag = False,
               sge = \<lparr>sge_addr = addr, sge_length = (if is_poll_qp rt then SINGLE_POLL_RECV_REGION else SINGLE_NORM_RECV_REGION),
                      sge_lkey = dmr_lkey mr\<rparr>,
               rdma_trans = t\<rparr>)"

section \<open>The RDMA stack\<close>

text \<open>
  What becomes of a work request: posting it fails, it completes with an error status, or it
  completes. \<open>net_reg\<close> says whether \<open>ibv_reg_mr\<close> of that many local bytes succeeds. \<open>net_call\<close> sends a message
  to a node and gives what that node answers before anything else happens, if it answers.
\<close>

datatype wc_result = Post_error | Wc_error | Wc_success

record 'n verbs =
  net_reg :: "'n \<Rightarrow> nat \<Rightarrow> bool"
  net_read :: "'n \<Rightarrow> int \<Rightarrow> 64 word \<Rightarrow> nat \<Rightarrow> nat \<Rightarrow> wc_result \<times> byte list \<times> 'n"
  net_write :: "'n \<Rightarrow> int \<Rightarrow> 64 word \<Rightarrow> nat \<Rightarrow> byte list \<Rightarrow> wc_result \<times> 'n"
  net_call :: "'n \<Rightarrow> int \<Rightarrow> dhmp_msg \<Rightarrow> dhmp_msg option \<times> 'n"

end
