(* ===== verification/Dhmp_Buddy.thy ===== *)
theory Dhmp_Buddy
  imports Dhmp_Types Interfaces "HOL-Library.Multiset"
begin

text \<open>
  One area of the server's allocator: \<open>dhmp_buddy_system_build\<close> of \<open>src/dhmp_client/src/dhmp_server.c\<close> and
  \<open>dhmp_get_free_block\<close>, \<open>dhmp_recycle_free_block\<close> and the loop of \<open>dhmp_free_one_block\<close> of
  \<open>dhmp_transport.c\<close>. Free lists are lists in the order of the code's, block addresses are natural numbers
  (an area does not wrap around the address space), \<open>malloc\<close> of a block header succeeds. The free and the
  handed-out blocks of an area always partition it; \<open>area_part\<close> says this byte by byte.
\<close>

section \<open>Areas\<close>

definition MAX_ORDER :: nat where "MAX_ORDER = 5"
definition SINGLE_AREA_SIZE :: nat where "SINGLE_AREA_SIZE = 2097152"
definition buddy_num :: "nat list" where "buddy_num = [2, 1, 1, 1, 1]"
definition buddy_size :: "nat list" where "buddy_size = [65536, 131072, 262144, 524288, 1048576]"

record dhmp_free_block =
  blk_addr :: nat
  blk_size :: nat
  blk_mr :: ibv_mr

record dhmp_area =
  max_index :: int
  area_mr :: ibv_mr
  free_blocks :: "nat \<Rightarrow> dhmp_free_block list"
  nr_free :: "nat \<Rightarrow> int"

definition area_base :: "dhmp_area \<Rightarrow> nat" where
  "area_base a = unat (mr_addr (area_mr a))"

section \<open>Building\<close>

fun buddy_build_loop :: "nat list \<Rightarrow> nat \<Rightarrow> nat \<Rightarrow> dhmp_area \<Rightarrow> dhmp_area" where
  "buddy_build_loop [] tot sz a = a"
| "buddy_build_loop (i # is) tot sz a =
     (let n = buddy_num ! i;
          blks = map (\<lambda>j. \<lparr>blk_addr = area_base a + tot + j * sz, blk_size = sz, blk_mr = area_mr a\<rparr>) [0 ..< n]
      in buddy_build_loop is (tot + n * sz) (sz * 2)
           (a\<lparr>free_blocks := (free_blocks a)(i := blks), nr_free := (nr_free a)(i := int n)\<rparr>))"

definition dhmp_buddy_system_build :: "dhmp_area \<Rightarrow> dhmp_area" where
  "dhmp_buddy_system_build a = buddy_build_loop [0 ..< MAX_ORDER] 0 (buddy_size ! 0) a"

section \<open>Taking a block\<close>

definition first_order :: "dhmp_area \<Rightarrow> nat \<Rightarrow> nat option" where
  "first_order a index = List.find (\<lambda>i. free_blocks a i \<noteq> []) [index ..< MAX_ORDER]"

text \<open>The first block of list \<open>i\<close> is halved, both halves go to the front of list \<open>i - 1\<close>.\<close>

definition split_block :: "dhmp_area \<Rightarrow> nat \<Rightarrow> dhmp_area" where
  "split_block a i =
     (case free_blocks a i of
        [] \<Rightarrow> a
      | b # bs \<Rightarrow>
          let left = b\<lparr>blk_size := blk_size b div 2\<rparr>;
              right = \<lparr>blk_addr = blk_addr b + blk_size b div 2, blk_size = blk_size b div 2, blk_mr = blk_mr b\<rparr>
          in a\<lparr>free_blocks := (free_blocks a)(i := bs, i - 1 := left # right # free_blocks a (i - 1)),
               nr_free := (nr_free a)(i := nr_free a i - 1, i - 1 := nr_free a (i - 1) + 2)\<rparr>)"

text \<open>The largest order below \<open>n\<close> with a free block, or -1.\<close>

fun top_order :: "dhmp_area \<Rightarrow> nat \<Rightarrow> int" where
  "top_order a 0 = -1"
| "top_order a (Suc i) = (if free_blocks a i \<noteq> [] then int i else top_order a i)"

definition set_max_index :: "dhmp_area \<Rightarrow> dhmp_area" where
  "set_max_index a = a\<lparr>max_index := (if max_index a < 0 then max_index a else top_order a (nat (max_index a) + 1))\<rparr>"

definition pop_block :: "dhmp_area \<Rightarrow> nat \<Rightarrow> dhmp_free_block \<times> dhmp_area" where
  "pop_block a i =
     (hd (free_blocks a i),
      a\<lparr>free_blocks := (free_blocks a)(i := tl (free_blocks a i)), nr_free := (nr_free a)(i := nr_free a i - 1)\<rparr>)"

lemma first_order_Some: "first_order a index = Some i \<Longrightarrow> index \<le> i \<and> i < MAX_ORDER \<and> free_blocks a i \<noteq> []"
  by (auto simp: first_order_def find_Some_iff)

lemma first_order_least:
  assumes "index \<le> j" "j < MAX_ORDER" "free_blocks a j \<noteq> []"
  shows "\<exists>i. first_order a index = Some i \<and> i \<le> j"
proof (cases "first_order a index")
  case None
  then show ?thesis using assms by (auto simp: first_order_def find_None_iff)
next
  case (Some i)
  have "i \<le> j"
  proof (rule ccontr)
    assume n: "\<not> i \<le> j"
    from Some obtain k where k: "k < length [index ..< MAX_ORDER]" "[index ..< MAX_ORDER] ! k = i"
      "\<forall>m < k. free_blocks a ([index ..< MAX_ORDER] ! m) = []"
      by (auto simp: first_order_def find_Some_iff)
    then have "i = index + k" by auto
    then have "j - index < k" "[index ..< MAX_ORDER] ! (j - index) = j" using assms n by auto
    then show False using k(3) assms(3) by auto
  qed
  then show ?thesis using Some by blast
qed

lemma split_block_lists:
  assumes "free_blocks a i = b # bs" "0 < i"
  shows "free_blocks (split_block a i) = (free_blocks a)(i := bs, i - 1 :=
      b\<lparr>blk_size := blk_size b div 2\<rparr> # \<lparr>blk_addr = blk_addr b + blk_size b div 2, blk_size = blk_size b div 2, blk_mr = blk_mr b\<rparr> # free_blocks a (i - 1))"
    "area_mr (split_block a i) = area_mr a" "max_index (split_block a i) = max_index a"
  using assms by (simp_all add: split_block_def Let_def)

function dhmp_get_free_block :: "dhmp_area \<Rightarrow> nat \<Rightarrow> dhmp_free_block option \<times> dhmp_area" where
  "dhmp_get_free_block a index =
     (case first_order a index of
        None \<Rightarrow> (None, a)
      | Some i \<Rightarrow>
          if i \<noteq> index then dhmp_get_free_block (split_block a i) index
          else (case pop_block a i of (b, a1) \<Rightarrow> (Some b, set_max_index a1)))"
  by pat_completeness auto
termination
proof (relation "measure (\<lambda>(a, index). case first_order a index of None \<Rightarrow> 0 | Some i \<Rightarrow> i)")
  fix a index i
  assume f: "first_order a index = Some i" "i \<noteq> index"
  from first_order_Some[OF f(1)] obtain b bs where h: "index \<le> i" "i < MAX_ORDER" "free_blocks a i = b # bs"
    by (cases "free_blocks a i") auto
  have "free_blocks (split_block a i) (i - 1) \<noteq> []"
    using split_block_lists(1)[OF h(3)] h(1) f(2) by auto
  moreover have "index \<le> i - 1" "i - 1 < MAX_ORDER" using h(1,2) f(2) by auto
  ultimately obtain j where "first_order (split_block a i) index = Some j" "j \<le> i - 1"
    using first_order_least by blast
  then show "((split_block a i, index), a, index) \<in> measure (\<lambda>(a, index). case first_order a index of None \<Rightarrow> 0 | Some i \<Rightarrow> i)"
    using f h by simp
qed simp

declare dhmp_get_free_block.simps [simp del]

section \<open>Giving a block back\<close>

fun insert_block :: "dhmp_free_block \<Rightarrow> dhmp_free_block list \<Rightarrow> dhmp_free_block list" where
  "insert_block b [] = [b]"
| "insert_block b (x # xs) = (if blk_addr b < blk_addr x then b # x # xs else x # insert_block b xs)"

fun remove_first :: "('a \<Rightarrow> bool) \<Rightarrow> 'a list \<Rightarrow> ('a \<times> 'a list) option" where
  "remove_first P [] = None"
| "remove_first P (x # xs) = (if P x then Some (x, xs) else map_option (\<lambda>(y, ys). (y, x # ys)) (remove_first P xs))"

text \<open>The result says whether a merge happened and at which address; the neighbour merged with is gone.\<close>

definition dhmp_recycle_free_block :: "dhmp_area \<Rightarrow> nat \<Rightarrow> nat \<Rightarrow> (bool \<times> nat \<times> dhmp_area) res" where
  "dhmp_recycle_free_block a addr index =
     (if MAX_ORDER \<le> index then Inl Out_of_bounds
      else
        let free_list = free_blocks a index; size = buddy_size ! index;
            new_blk = \<lparr>blk_addr = addr, blk_size = size, blk_mr = area_mr a\<rparr>
        in if free_list = [] then Inr (False, addr, a\<lparr>free_blocks := (free_blocks a)(index := [new_blk])\<rparr>)
           else if index = MAX_ORDER - 1 then Inr (False, addr, a\<lparr>free_blocks := (free_blocks a)(index := insert_block new_blk free_list)\<rparr>)
           else
             let left_dir = (addr - area_base a) mod (buddy_size ! (index + 1)) = 0
             in case remove_first (\<lambda>t. left_dir \<and> addr + size = blk_addr t \<or> \<not> left_dir \<and> blk_addr t + size = addr) free_list of
                  Some (tmp, rest) \<Rightarrow> Inr (True, min addr (blk_addr tmp), a\<lparr>free_blocks := (free_blocks a)(index := rest)\<rparr>)
                | None \<Rightarrow> Inr (False, addr, a\<lparr>free_blocks := (free_blocks a)(index := insert_block new_blk free_list)\<rparr>))"

function recycle_loop :: "dhmp_area \<Rightarrow> nat \<Rightarrow> nat \<Rightarrow> dhmp_area res" where
  "recycle_loop a addr index =
     (case dhmp_recycle_free_block a addr index of
        Inl e \<Rightarrow> Inl e
      | Inr (res, addr1, a1) \<Rightarrow> if res \<and> index \<noteq> MAX_ORDER - 1 then recycle_loop a1 addr1 (index + 1) else Inr a1)"
  by pat_completeness auto
termination
proof (relation "measure (\<lambda>(a, addr, index). MAX_ORDER - index)")
  fix a addr index r x res y addr1 a1
  assume "dhmp_recycle_free_block a addr index = Inr r"
  then have "index < MAX_ORDER" by (auto simp: dhmp_recycle_free_block_def split: if_splits)
  then show "((a1, addr1, index + 1), a, addr, index) \<in> measure (\<lambda>(a, addr, index). MAX_ORDER - index)" by simp
qed simp

declare recycle_loop.simps [simp del]

definition buddy_index :: "nat \<Rightarrow> nat \<Rightarrow> nat" where
  "buddy_index n dflt = (case List.find (\<lambda>i. n = buddy_size ! i) [0 ..< MAX_ORDER] of Some i \<Rightarrow> i | None \<Rightarrow> dflt)"

text \<open>The part of \<open>dhmp_free_one_block\<close> that works on the area found.\<close>

definition area_free_block :: "dhmp_area \<Rightarrow> nat \<Rightarrow> nat \<Rightarrow> dhmp_area res" where
  "area_free_block a addr len =
     rbind (recycle_loop a addr (buddy_index len MAX_ORDER)) (\<lambda>a1.
       let i = top_order a1 MAX_ORDER in Inr (if 0 \<le> i then a1\<lparr>max_index := i\<rparr> else a1))"


section \<open>The bytes of the free blocks\<close>

definition lsum :: "dhmp_free_block list \<Rightarrow> nat \<Rightarrow> nat" where
  "lsum bs x = sum_list (map (\<lambda>b. span (blk_addr b) (blk_size b) x) bs)"

text \<open>In how many free blocks byte \<open>x\<close> lies.\<close>

definition occ :: "dhmp_area \<Rightarrow> nat \<Rightarrow> nat" where
  "occ a x = (\<Sum>i < MAX_ORDER. lsum (free_blocks a i) x)"

definition place_ok :: "dhmp_area \<Rightarrow> nat \<Rightarrow> nat \<Rightarrow> bool" where
  "place_ok a i p \<longleftrightarrow> i < MAX_ORDER \<and> (\<exists>k. p = area_base a + k * buddy_size ! i \<and> (k + 1) * buddy_size ! i \<le> SINGLE_AREA_SIZE)"

definition block_ok :: "dhmp_area \<Rightarrow> nat \<Rightarrow> dhmp_free_block \<Rightarrow> bool" where
  "block_ok a i b \<longleftrightarrow> blk_size b = buddy_size ! i \<and> blk_mr b = area_mr a \<and> place_ok a i (blk_addr b)"

definition blocks_ok :: "dhmp_area \<Rightarrow> bool" where
  "blocks_ok a \<longleftrightarrow> (\<forall>i < MAX_ORDER. \<forall>b \<in> set (free_blocks a i). block_ok a i b)"

definition max_ok :: "dhmp_area \<Rightarrow> bool" where
  "max_ok a \<longleftrightarrow> max_index a = top_order a MAX_ORDER"

lemma less_MAX_ORDER: "i < MAX_ORDER \<longleftrightarrow> i = 0 \<or> i = 1 \<or> i = 2 \<or> i = 3 \<or> i = 4"
  unfolding MAX_ORDER_def by presburger

lemma MAX_ORDER_Suc: "MAX_ORDER = Suc (Suc (Suc (Suc (Suc 0))))"
  by (simp add: MAX_ORDER_def)

lemma buddy_size_pow: "i < MAX_ORDER \<Longrightarrow> buddy_size ! i = 65536 * 2 ^ i"
  unfolding less_MAX_ORDER by (elim disjE) (simp_all add: buddy_size_def)

lemma buddy_size_pos: "i < MAX_ORDER \<Longrightarrow> 0 < buddy_size ! i"
  by (simp add: buddy_size_pow)

lemma buddy_size_Suc: "Suc i < MAX_ORDER \<Longrightarrow> buddy_size ! Suc i = 2 * buddy_size ! i"
  by (simp add: buddy_size_pow)

lemma buddy_index_size: "i < MAX_ORDER \<Longrightarrow> buddy_index (buddy_size ! i) d = i"
  unfolding less_MAX_ORDER by (elim disjE) (simp_all add: buddy_index_def buddy_size_def MAX_ORDER_def upt_rec)

lemma lsum_simps [simp]: "lsum [] x = 0" "lsum (b # bs) x = span (blk_addr b) (blk_size b) x + lsum bs x"
  by (simp_all add: lsum_def)

lemma occ_upd:
  assumes "i < MAX_ORDER" "free_blocks a' = (free_blocks a)(i := l)"
  shows "occ a' x + lsum (free_blocks a i) x = occ a x + lsum l x"
proof -
  have f: "finite {..< MAX_ORDER}" "i \<in> {..< MAX_ORDER}" using assms(1) by auto
  have "(\<Sum>j \<in> {..< MAX_ORDER} - {i}. lsum (free_blocks a' j) x) = (\<Sum>j \<in> {..< MAX_ORDER} - {i}. lsum (free_blocks a j) x)"
    by (rule sum.cong) (auto simp: assms(2))
  then show ?thesis by (simp add: occ_def sum.remove[OF f] assms(2))
qed

lemma blocks_ok_upd:
  assumes "blocks_ok a" "area_mr a' = area_mr a" "free_blocks a' = (free_blocks a)(i := l)" "i < MAX_ORDER \<Longrightarrow> \<forall>b \<in> set l. block_ok a i b"
  shows "blocks_ok a'"
  using assms by (auto simp: blocks_ok_def block_ok_def place_ok_def area_base_def)

lemma place_ok_cong: "area_mr a' = area_mr a \<Longrightarrow> place_ok a' i p = place_ok a i p"
  by (simp add: place_ok_def area_base_def)

lemma block_ok_cong: "area_mr a' = area_mr a \<Longrightarrow> block_ok a' i b = block_ok a i b"
  by (simp add: block_ok_def place_ok_cong[of a' a])

text \<open>A block of order \<open>i\<close> is two blocks of order \<open>i - 1\<close>.\<close>

lemma place_ok_halves:
  assumes "place_ok a (Suc i) p"
  shows "place_ok a i p" "place_ok a i (p + buddy_size ! i)"
proof -
  from assms obtain k where i: "Suc i < MAX_ORDER" and k: "p = area_base a + k * buddy_size ! Suc i" "(k + 1) * buddy_size ! Suc i \<le> SINGLE_AREA_SIZE"
    by (auto simp: place_ok_def)
  have e: "p = area_base a + (2 * k) * buddy_size ! i" "p + buddy_size ! i = area_base a + (2 * k + 1) * buddy_size ! i"
    "(2 * k + 1) * buddy_size ! i \<le> SINGLE_AREA_SIZE" "(2 * k + 1 + 1) * buddy_size ! i \<le> SINGLE_AREA_SIZE"
    using k buddy_size_Suc[OF i] by simp_all
  have i': "i < MAX_ORDER" using i by simp
  show "place_ok a i p" unfolding place_ok_def using i' e(1,3) by blast
  show "place_ok a i (p + buddy_size ! i)" unfolding place_ok_def using i' e(2,4) by blast
qed

text \<open>Two neighbours of order \<open>i\<close>, the left one aligned for order \<open>i + 1\<close>, are a block of that order.\<close>

lemma place_ok_merge:
  assumes "place_ok a i p" "Suc i < MAX_ORDER" "(p - area_base a) mod (buddy_size ! Suc i) = 0" "place_ok a i (p + buddy_size ! i)"
  shows "place_ok a (Suc i) p"
proof -
  from assms(1) obtain k where k: "p = area_base a + k * buddy_size ! i" by (auto simp: place_ok_def)
  from assms(4) obtain k' where
    k': "p + buddy_size ! i = area_base a + k' * buddy_size ! i" "(k' + 1) * buddy_size ! i \<le> SINGLE_AREA_SIZE"
    unfolding place_ok_def by blast
  have pos: "0 < buddy_size ! i" using assms(2) by (simp add: buddy_size_pos)
  have "(k + 1) * buddy_size ! i = k' * buddy_size ! i" using k k' by simp
  then have kk: "k' = k + 1" using pos by (metis mult_cancel2 less_nat_zero_code)
  have "k * buddy_size ! i mod (buddy_size ! i * 2) = 0" using assms(3) k by (simp add: buddy_size_Suc[OF assms(2)] mult.commute)
  then have "k mod 2 = 0" using pos by (simp add: mult.commute)
  then obtain q where q: "k = 2 * q" by (auto elim: evenE simp: even_iff_mod_2_eq_zero)
  have "p = area_base a + q * buddy_size ! Suc i" "(q + 1) * buddy_size ! Suc i \<le> SINGLE_AREA_SIZE"
    using k k'(2) kk q by (simp_all add: buddy_size_Suc[OF assms(2)])
  then show ?thesis using assms(2) unfolding place_ok_def by blast
qed

lemma place_ok_left:
  assumes "place_ok a i p" "Suc i < MAX_ORDER" "(p - area_base a) mod (buddy_size ! Suc i) \<noteq> 0"
  shows "(p - buddy_size ! i - area_base a) mod (buddy_size ! Suc i) = 0" "area_base a + buddy_size ! i \<le> p"
proof -
  from assms(1) obtain k where k: "p = area_base a + k * buddy_size ! i" by (auto simp: place_ok_def)
  have pos: "0 < buddy_size ! i" using assms(2) by (simp add: buddy_size_pos)
  have "k mod 2 \<noteq> 0" using assms(3) k by (auto simp: buddy_size_Suc[OF assms(2)])
  then obtain q where q: "k = 2 * q + 1" by (metis oddE even_iff_mod_2_eq_zero)
  show "(p - buddy_size ! i - area_base a) mod (buddy_size ! Suc i) = 0"
    using k q by (simp add: buddy_size_Suc[OF assms(2)] algebra_simps)
  show "area_base a + buddy_size ! i \<le> p" using k q by simp
qed


section \<open>Taking a block\<close>

lemma split_block_ok:
  assumes "blocks_ok a" "free_blocks a i = b # bs" "0 < i" "i < MAX_ORDER"
  shows "blocks_ok (split_block a i)" "occ (split_block a i) x = occ a x"
proof -
  obtain j where i: "i = Suc j" using assms(3) by (cases i) auto
  have j: "j < MAX_ORDER" "Suc j < MAX_ORDER" using assms(4) i by auto
  have b: "block_ok a (Suc j) b" using assms(1,2,4) i by (auto simp: blocks_ok_def)
  then have sz: "blk_size b = 2 * buddy_size ! j" "blk_mr b = area_mr a" by (simp_all add: block_ok_def buddy_size_Suc[OF j(2)])
  let ?l = "b\<lparr>blk_size := blk_size b div 2\<rparr>" and ?r = "\<lparr>blk_addr = blk_addr b + blk_size b div 2, blk_size = blk_size b div 2, blk_mr = blk_mr b\<rparr>"
  define a1 where "a1 = a\<lparr>free_blocks := (free_blocks a)(i := bs)\<rparr>"
  have s: "free_blocks (split_block a i) = (free_blocks a1)(j := ?l # ?r # free_blocks a1 j)" "area_mr (split_block a i) = area_mr a"
    using split_block_lists[OF assms(2,3)] i by (simp_all add: a1_def)
  have a1: "blocks_ok a1" by (rule blocks_ok_upd[OF assms(1), of _ i bs]) (use assms(1,2) in \<open>auto simp: a1_def blocks_ok_def\<close>)
  have half: "blk_size b div 2 = buddy_size ! j" using sz(1) by simp
  have "place_ok a (Suc j) (blk_addr b)" using b by (simp add: block_ok_def)
  then have "block_ok a j ?l" "block_ok a j ?r" using sz(2) place_ok_halves[of a j "blk_addr b"] by (simp_all add: block_ok_def half)
  then have new: "\<forall>c \<in> set (?l # ?r # free_blocks a1 j). block_ok a1 j c"
    using a1 j(1) block_ok_cong[of a1 a] by (auto simp: blocks_ok_def a1_def)
  show "blocks_ok (split_block a i)" by (rule blocks_ok_upd[OF a1 _ s(1)]) (use s(2) new in \<open>auto simp: a1_def\<close>)
  have "occ a1 x + (span (blk_addr b) (blk_size b) x + lsum bs x) = occ a x + lsum bs x"
    using occ_upd[OF assms(4), of a1 a bs x] by (simp add: a1_def assms(2))
  moreover have "occ (split_block a i) x + lsum (free_blocks a1 j) x = occ a1 x + lsum (?l # ?r # free_blocks a1 j) x"
    by (rule occ_upd[OF j(1) s(1)])
  moreover have "span (blk_addr b) (blk_size b) x = span (blk_addr b) (buddy_size ! j) x + span (blk_addr b + buddy_size ! j) (buddy_size ! j) x"
    by (simp add: sz span_halves)
  ultimately show "occ (split_block a i) x = occ a x" by (simp add: sz)
qed

lemma top_order_bounds: "- 1 \<le> top_order a n \<and> top_order a n < int n"
  by (induction n) auto

lemma top_order_above: "\<forall>i. n \<le> i \<and> i < m \<longrightarrow> free_blocks a i = [] \<Longrightarrow> n \<le> m \<Longrightarrow> top_order a m = top_order a n"
proof (induction m)
  case (Suc m)
  show ?case
  proof (cases "n = Suc m")
    case False
    then have "n \<le> m" using Suc.prems(2) by simp
    then show ?thesis using Suc by simp
  qed simp
qed simp

lemma top_order_empty: "i < n \<Longrightarrow> top_order a n < int i \<Longrightarrow> free_blocks a i = []"
  by (induction n) (auto simp: less_Suc_eq split: if_splits)

lemma top_order_nonempty: "i < n \<Longrightarrow> free_blocks a i \<noteq> [] \<Longrightarrow> int i \<le> top_order a n"
  using top_order_empty[of i n a] by linarith

lemma top_order_list: "0 \<le> top_order a n \<Longrightarrow> free_blocks a (nat (top_order a n)) \<noteq> []"
  by (induction n) (auto split: if_splits)

text \<open>While a block is being split \<open>max_index\<close> is only an upper bound.\<close>

definition max_above :: "dhmp_area \<Rightarrow> bool" where
  "max_above a \<longleftrightarrow> max_index a < int MAX_ORDER \<and> (\<forall>i < MAX_ORDER. max_index a < int i \<longrightarrow> free_blocks a i = [])"

lemma max_ok_above: "max_ok a \<Longrightarrow> max_above a"
  using top_order_empty top_order_bounds by (auto simp: max_ok_def max_above_def)

lemma split_block_max:
  assumes "max_above a" "free_blocks a i = b # bs" "0 < i" "i < MAX_ORDER"
  shows "max_above (split_block a i)"
proof -
  have "int i \<le> max_index a" using assms by (force simp: max_above_def)
  then show ?thesis using assms split_block_lists[OF assms(2,3)] by (auto simp: max_above_def)
qed

lemma set_max_index_ok:
  assumes "max_above a" "0 \<le> max_index a"
  shows "max_ok (set_max_index a)" "free_blocks (set_max_index a) = free_blocks a" "area_mr (set_max_index a) = area_mr a"
proof -
  let ?n = "nat (max_index a) + 1"
  have "?n \<le> MAX_ORDER" "\<forall>i. ?n \<le> i \<and> i < MAX_ORDER \<longrightarrow> free_blocks a i = []"
    using assms unfolding max_above_def by (auto simp: nat_less_iff)
  then have e: "top_order a MAX_ORDER = top_order a ?n" using top_order_above by blast
  have "top_order (a\<lparr>max_index := m\<rparr>) n = top_order a n" for m n by (induction n) auto
  then show "max_ok (set_max_index a)" using assms(2) e by (simp add: max_ok_def set_max_index_def)
qed (simp_all add: set_max_index_def)

lemma occ_cong: "free_blocks a' = free_blocks a \<Longrightarrow> occ a' x = occ a x"
  by (simp add: occ_def)

lemma pop_block_ok:
  assumes "blocks_ok a" "free_blocks a i \<noteq> []" "i < MAX_ORDER" "pop_block a i = (b, a1)"
  shows "block_ok a i b" "blocks_ok a1" "occ a x = occ a1 x + span (blk_addr b) (blk_size b) x" "area_mr a1 = area_mr a"
    "max_index a1 = max_index a" "free_blocks a1 = (free_blocks a)(i := tl (free_blocks a i))"
proof -
  obtain bs where bs: "free_blocks a i = b # bs" using assms(2,4) by (cases "free_blocks a i") (auto simp: pop_block_def)
  have h: "free_blocks a1 = (free_blocks a)(i := bs)" "area_mr a1 = area_mr a" "max_index a1 = max_index a"
    using assms(4) bs by (auto simp: pop_block_def)
  show "block_ok a i b" using assms(1,3) bs by (auto simp: blocks_ok_def)
  show "blocks_ok a1" by (rule blocks_ok_upd[OF assms(1) h(2,1)]) (use assms(1) bs in \<open>auto simp: blocks_ok_def\<close>)
  show "occ a x = occ a1 x + span (blk_addr b) (blk_size b) x" using occ_upd[OF assms(3) h(1), of x] bs by simp
qed (use assms(4) in \<open>auto simp: pop_block_def\<close>)

lemma get_free_block_ok:
  assumes "blocks_ok a" "max_above a" "index < MAX_ORDER" "dhmp_get_free_block a index = (r, a')"
  shows "area_mr a' = area_mr a \<and> blocks_ok a' \<and>
    (case r of
       None \<Rightarrow> a' = a \<and> (\<forall>i. index \<le> i \<and> i < MAX_ORDER \<longrightarrow> free_blocks a i = [])
     | Some b \<Rightarrow> block_ok a index b \<and> max_ok a' \<and> (\<forall>x. occ a x = occ a' x + span (blk_addr b) (blk_size b) x))"
  using assms
proof (induction a index arbitrary: r a' rule: dhmp_get_free_block.induct)
  case (1 a index)
  show ?case
  proof (cases "first_order a index")
    case None
    then have "(r, a') = (None, a)" using 1(5) by (subst (asm) dhmp_get_free_block.simps) auto
    moreover have "\<forall>i. index \<le> i \<and> i < MAX_ORDER \<longrightarrow> free_blocks a i = []"
      using None first_order_least by force
    ultimately show ?thesis using 1(2) by simp
  next
    case (Some i)
    from first_order_Some[OF Some] have i: "index \<le> i" "i < MAX_ORDER" "free_blocks a i \<noteq> []" by auto
    then obtain b bs where bs: "free_blocks a i = b # bs" by (cases "free_blocks a i") auto
    show ?thesis
    proof (cases "i = index")
      case True
      obtain b1 a1 where p: "pop_block a i = (b1, a1)" by fastforce
      note pop = pop_block_ok[OF 1(2) i(3,2) p]
      have e: "r = Some b1" "a' = set_max_index a1" using 1(5) Some True p by (subst (asm) dhmp_get_free_block.simps, simp)+
      have "int i \<le> max_index a" using 1(3) i by (auto simp: max_above_def)
      then have m: "max_above a1" "0 \<le> max_index a1" using 1(3) pop(5,6) i by (auto simp: max_above_def)
      note sm = set_max_index_ok[OF m]
      have "blocks_ok a'" by (rule blocks_ok_upd[OF pop(2), of _ i "free_blocks a1 i"]) (use pop(2) sm e in \<open>auto simp: blocks_ok_def\<close>)
      then show ?thesis using e True sm pop(1,3,4) occ_cong[OF sm(2)] by simp
    next
      case False
      then have pos: "0 < i" using i by simp
      note sp = split_block_ok[OF 1(2) bs pos i(2)] and lists = split_block_lists[OF bs pos]
      have "dhmp_get_free_block (split_block a i) index = (r, a')"
        using 1(5) Some False by (subst (asm) dhmp_get_free_block.simps) simp
      from 1(1)[OF Some _ sp(1) split_block_max[OF 1(3) bs pos i(2)] 1(4) this] False have
        ih: "area_mr a' = area_mr (split_block a i) \<and> blocks_ok a' \<and>
          (case r of None \<Rightarrow> a' = split_block a i \<and> (\<forall>k. index \<le> k \<and> k < MAX_ORDER \<longrightarrow> free_blocks (split_block a i) k = [])
           | Some b \<Rightarrow> block_ok (split_block a i) index b \<and> max_ok a' \<and> (\<forall>x. occ (split_block a i) x = occ a' x + span (blk_addr b) (blk_size b) x))"
        by simp
      have "\<not> (\<forall>k. index \<le> k \<and> k < MAX_ORDER \<longrightarrow> free_blocks (split_block a i) k = [])"
      proof
        assume all: "\<forall>k. index \<le> k \<and> k < MAX_ORDER \<longrightarrow> free_blocks (split_block a i) k = []"
        have "index \<le> i - 1" "i - 1 < MAX_ORDER" using i False by auto
        then have "free_blocks (split_block a i) (i - 1) = []" using all by blast
        then show False using lists(1) pos by simp
      qed
      then show ?thesis using ih lists(2) sp(2) block_ok_cong[OF lists(2), of index] by (auto split: option.splits)
    qed
  qed
qed


section \<open>Giving a block back\<close>

lemma lsum_insert [simp]: "lsum (insert_block b bs) x = span (blk_addr b) (blk_size b) x + lsum bs x"
  by (induction bs) auto

lemma set_insert_block [simp]: "set (insert_block b bs) = insert b (set bs)"
  by (induction bs) auto

lemma remove_first_Some:
  "remove_first P xs = Some (y, ys) \<Longrightarrow> P y \<and> y \<in> set xs \<and> set ys \<subseteq> set xs \<and> mset xs = add_mset y (mset ys)"
  by (induction xs arbitrary: ys) (auto split: if_splits)

lemma lsum_mset: "mset xs = add_mset y (mset ys) \<Longrightarrow> lsum xs x = span (blk_addr y) (blk_size y) x + lsum ys x"
proof -
  assume m: "mset xs = add_mset y (mset ys)"
  have e: "lsum bs x = sum_mset (image_mset (\<lambda>b. span (blk_addr b) (blk_size b) x) (mset bs))" for bs
    by (simp only: lsum_def mset_map[symmetric] sum_mset_sum_list)
  show ?thesis by (simp only: e m) simp
qed

lemma place_index: "place_ok a i p \<Longrightarrow> i < MAX_ORDER"
  by (simp add: place_ok_def)

text \<open>Putting a block of order \<open>i\<close> into its list.\<close>

lemma put_block_ok:
  assumes "blocks_ok a" "place_ok a i p" "set l = insert \<lparr>blk_addr = p, blk_size = buddy_size ! i, blk_mr = area_mr a\<rparr> (set (free_blocks a i))"
    and "\<And>x. lsum l x = span p (buddy_size ! i) x + lsum (free_blocks a i) x" "a' = a\<lparr>free_blocks := (free_blocks a)(i := l)\<rparr>"
  shows "blocks_ok a' \<and> area_mr a' = area_mr a \<and> (\<forall>x. occ a' x = occ a x + span p (buddy_size ! i) x)"
proof -
  have i: "i < MAX_ORDER" by (rule place_index[OF assms(2)])
  have h: "free_blocks a' = (free_blocks a)(i := l)" "area_mr a' = area_mr a" using assms(5) by simp_all
  have "blocks_ok a'" by (rule blocks_ok_upd[OF assms(1) h(2,1)]) (use assms(1-3) in \<open>auto simp: blocks_ok_def block_ok_def\<close>)
  moreover have "occ a' x = occ a x + span p (buddy_size ! i) x" for x using occ_upd[OF i h(1), of x] assms(4)[of x] by simp
  ultimately show ?thesis using h(2) by simp
qed

text \<open>Either the block is in its list now, or its buddy was taken out and both make a block of the next order.\<close>

lemma recycle_ok:
  assumes "blocks_ok a" "place_ok a i p"
  shows "\<exists>res q a'. dhmp_recycle_free_block a p i = Inr (res, q, a') \<and> blocks_ok a' \<and> area_mr a' = area_mr a \<and>
    (if res then Suc i < MAX_ORDER \<and> place_ok a (Suc i) q \<and>
       (\<forall>x. occ a x + span p (buddy_size ! i) x = occ a' x + span q (buddy_size ! Suc i) x)
     else \<forall>x. occ a' x = occ a x + span p (buddy_size ! i) x)"
proof -
  have i: "i < MAX_ORDER" by (rule place_index[OF assms(2)])
  let ?new = "\<lparr>blk_addr = p, blk_size = buddy_size ! i, blk_mr = area_mr a\<rparr>"
  let ?left = "(p - area_base a) mod (buddy_size ! (i + 1)) = 0"
  let ?P = "\<lambda>t. ?left \<and> p + buddy_size ! i = blk_addr t \<or> \<not> ?left \<and> blk_addr t + buddy_size ! i = p"
  have put: ?thesis
    if "dhmp_recycle_free_block a p i = Inr (False, p, a\<lparr>free_blocks := (free_blocks a)(i := l)\<rparr>)"
      "set l = insert ?new (set (free_blocks a i))" "\<And>x. lsum l x = span p (buddy_size ! i) x + lsum (free_blocks a i) x" for l
    using that(1) put_block_ok[OF assms that(2,3) refl] by (intro exI[of _ False]) auto
  consider "free_blocks a i = []" | "free_blocks a i \<noteq> []" "i = MAX_ORDER - 1"
    | "free_blocks a i \<noteq> []" "i \<noteq> MAX_ORDER - 1" "remove_first ?P (free_blocks a i) = None"
    | y ys where "free_blocks a i \<noteq> []" "i \<noteq> MAX_ORDER - 1" "remove_first ?P (free_blocks a i) = Some (y, ys)"
    by (cases "remove_first ?P (free_blocks a i)") auto
  then show ?thesis
  proof cases
    case 1
    then show ?thesis using i by (intro put[of "[?new]"]) (simp_all add: dhmp_recycle_free_block_def)
  next
    case 2
    then show ?thesis using i by (intro put[of "insert_block ?new (free_blocks a i)"]) (simp_all add: dhmp_recycle_free_block_def)
  next
    case 3
    then show ?thesis using i by (intro put[of "insert_block ?new (free_blocks a i)"]) (simp_all add: dhmp_recycle_free_block_def Let_def)
  next
    case (4 y ys)
    note rf = remove_first_Some[OF 4(3)]
    have Si: "Suc i < MAX_ORDER" using i 4(2) by (simp add: MAX_ORDER_def)
    define a' where "a' = a\<lparr>free_blocks := (free_blocks a)(i := ys)\<rparr>"
    have h: "free_blocks a' = (free_blocks a)(i := ys)" "area_mr a' = area_mr a" by (simp_all add: a'_def)
    have y: "block_ok a i y" using rf assms(1) i by (auto simp: blocks_ok_def)
    have ok': "blocks_ok a'" by (rule blocks_ok_upd[OF assms(1) h(2,1)]) (use rf assms(1) in \<open>auto simp: blocks_ok_def\<close>)
    have "occ a x = occ a' x + span (blk_addr y) (buddy_size ! i) x" for x
      using occ_upd[OF i h(1), of x] lsum_mset[of "free_blocks a i" y ys x] rf y by (simp add: block_ok_def)
    moreover have "place_ok a (Suc i) (min p (blk_addr y)) \<and>
      (\<forall>x. span p (buddy_size ! i) x + span (blk_addr y) (buddy_size ! i) x = span (min p (blk_addr y)) (buddy_size ! Suc i) x)"
    proof (cases ?left)
      case True
      then have e: "blk_addr y = p + buddy_size ! i" using rf by simp
      have "place_ok a (Suc i) p" by (rule place_ok_merge[OF assms(2) Si]) (use True y e in \<open>simp_all add: block_ok_def\<close>)
      then show ?thesis using e by (simp add: span_halves buddy_size_Suc[OF Si])
    next
      case False
      then have e: "p = blk_addr y + buddy_size ! i" using rf by simp
      have "(p - buddy_size ! i - area_base a) mod (buddy_size ! Suc i) = 0" using place_ok_left(1)[OF assms(2) Si] False by simp
      then have "(blk_addr y - area_base a) mod (buddy_size ! Suc i) = 0" using e by simp
      then have "place_ok a (Suc i) (blk_addr y)" by (intro place_ok_merge[OF _ Si]) (use y e assms(2) in \<open>simp_all add: block_ok_def\<close>)
      then show ?thesis using e by (simp add: span_halves buddy_size_Suc[OF Si])
    qed
    ultimately have "place_ok a (Suc i) (min p (blk_addr y))"
      "\<forall>x. occ a x + span p (buddy_size ! i) x = occ a' x + span (min p (blk_addr y)) (buddy_size ! Suc i) x" by (simp_all add: add.assoc add.commute)
    moreover have "dhmp_recycle_free_block a p i = Inr (True, min p (blk_addr y), a')"
      using 4 i by (simp add: dhmp_recycle_free_block_def Let_def a'_def)
    ultimately show ?thesis using ok' h(2) Si by auto
  qed
qed

lemma recycle_loop_ok:
  assumes "blocks_ok a" "place_ok a i p"
  shows "\<exists>a'. recycle_loop a p i = Inr a' \<and> blocks_ok a' \<and> area_mr a' = area_mr a \<and> (\<forall>x. occ a' x = occ a x + span p (buddy_size ! i) x)"
  using assms
proof (induction a p i rule: recycle_loop.induct)
  case (1 a p i)
  from recycle_ok[OF 1(2,3)] obtain res q a1 where
    r: "dhmp_recycle_free_block a p i = Inr (res, q, a1)" "blocks_ok a1" "area_mr a1 = area_mr a"
      "if res then Suc i < MAX_ORDER \<and> place_ok a (Suc i) q \<and>
         (\<forall>x. occ a x + span p (buddy_size ! i) x = occ a1 x + span q (buddy_size ! Suc i) x)
       else \<forall>x. occ a1 x = occ a x + span p (buddy_size ! i) x" by blast
  show ?case
  proof (cases res)
    case False
    then show ?thesis using r by (subst recycle_loop.simps) simp
  next
    case True
    then have c: "res \<and> i \<noteq> MAX_ORDER - 1" using r(4) by auto
    have "place_ok a1 (i + 1) q" using True r(4) place_ok_cong[OF r(3)] by simp
    from 1(1)[OF r(1) refl refl c r(2) this] obtain a' where
      "recycle_loop a1 q (i + 1) = Inr a'" "blocks_ok a'" "area_mr a' = area_mr a1" "\<forall>x. occ a' x = occ a1 x + span q (buddy_size ! (i + 1)) x" by blast
    then show ?thesis using r c True by (subst recycle_loop.simps) simp
  qed
qed

lemma area_free_block_ok:
  assumes "blocks_ok a" "place_ok a i p" "max_index a < int MAX_ORDER"
  shows "\<exists>a'. area_free_block a p (buddy_size ! i) = Inr a' \<and> blocks_ok a' \<and> area_mr a' = area_mr a \<and> max_ok a' \<and>
    (\<forall>x. occ a' x = occ a x + span p (buddy_size ! i) x)"
proof -
  have i: "i < MAX_ORDER" by (rule place_index[OF assms(2)])
  from recycle_loop_ok[OF assms(1,2)] obtain a1 where a1: "recycle_loop a p i = Inr a1" "blocks_ok a1" "area_mr a1 = area_mr a"
    "\<forall>x. occ a1 x = occ a x + span p (buddy_size ! i) x" by blast
  have "0 \<le> top_order a1 MAX_ORDER"
  proof (rule ccontr)
    assume n: "\<not> 0 \<le> top_order a1 MAX_ORDER"
    have "\<forall>j < MAX_ORDER. free_blocks a1 j = []" using n top_order_nonempty[of _ MAX_ORDER a1] by force
    then have "occ a1 p = 0" by (simp add: occ_def)
    moreover have "span p (buddy_size ! i) p = 1" using buddy_size_pos[OF i] by (simp add: span_def)
    ultimately show False using a1(4) by (metis add_is_0 zero_neq_one)
  qed
  moreover have "top_order (a1\<lparr>max_index := m\<rparr>) n = top_order a1 n" for m n by (induction n) auto
  moreover have "occ (a1\<lparr>max_index := m\<rparr>) x = occ a1 x" for m x by (simp add: occ_def)
  ultimately show ?thesis using a1
    by (auto simp: area_free_block_def buddy_index_size[OF i] Let_def max_ok_def blocks_ok_def block_ok_def place_ok_def area_base_def)
qed

section \<open>A fresh area\<close>

lemma build_lists:
  "free_blocks (dhmp_buddy_system_build a) = (\<lambda>i.
     if i < MAX_ORDER then map (\<lambda>o'. \<lparr>blk_addr = area_base a + o', blk_size = buddy_size ! i, blk_mr = area_mr a\<rparr>)
       (if i = 0 then [0, 65536] else [buddy_size ! i])
     else free_blocks a i)"
  "area_mr (dhmp_buddy_system_build a) = area_mr a" "max_index (dhmp_buddy_system_build a) = max_index a"
proof -
  have u: "[0 ..< MAX_ORDER] = [0, 1, 2, 3, 4]" by (simp add: MAX_ORDER_def upt_rec)
  have "free_blocks (dhmp_buddy_system_build a) i =
     (if i < MAX_ORDER then map (\<lambda>o'. \<lparr>blk_addr = area_base a + o', blk_size = buddy_size ! i, blk_mr = area_mr a\<rparr>)
       (if i = 0 then [0, 65536] else [buddy_size ! i])
     else free_blocks a i)" for i
    unfolding dhmp_buddy_system_build_def u less_MAX_ORDER
    by (simp add: buddy_num_def buddy_size_def area_base_def upt_rec)
  then show "free_blocks (dhmp_buddy_system_build a) = (\<lambda>i.
     if i < MAX_ORDER then map (\<lambda>o'. \<lparr>blk_addr = area_base a + o', blk_size = buddy_size ! i, blk_mr = area_mr a\<rparr>)
       (if i = 0 then [0, 65536] else [buddy_size ! i])
     else free_blocks a i)" by blast
  show "area_mr (dhmp_buddy_system_build a) = area_mr a" "max_index (dhmp_buddy_system_build a) = max_index a"
    unfolding dhmp_buddy_system_build_def u by (simp_all add: Let_def)
qed

text \<open>The blocks of a fresh area cover it exactly once.\<close>

lemma build_ok:
  "blocks_ok (dhmp_buddy_system_build a)" "top_order (dhmp_buddy_system_build a) MAX_ORDER = int MAX_ORDER - 1"
  "occ (dhmp_buddy_system_build a) x = span (area_base a) SINGLE_AREA_SIZE x"
proof -
  let ?b = "dhmp_buddy_system_build a"
  have base: "area_base ?b = area_base a" by (simp add: area_base_def build_lists)
  have pl: "place_ok ?b i (area_base a + k * buddy_size ! i)" if "i < MAX_ORDER" "(k + 1) * buddy_size ! i \<le> SINGLE_AREA_SIZE" for i k
    using that unfolding place_ok_def base by blast
  have p: "place_ok ?b i (area_base a + buddy_size ! i)" if "i < MAX_ORDER" for i
    using pl[OF that, of 1] that by (auto simp: less_MAX_ORDER buddy_size_def SINGLE_AREA_SIZE_def)
  have p0: "place_ok ?b 0 (area_base a)" "place_ok ?b 0 (area_base a + 65536)"
    using pl[of 0 0] pl[of 0 1] by (simp_all add: buddy_size_def SINGLE_AREA_SIZE_def MAX_ORDER_def)
  show "blocks_ok ?b" unfolding blocks_ok_def block_ok_def
    using p p0 by (auto simp: build_lists split: if_splits)
  show "top_order ?b MAX_ORDER = int MAX_ORDER - 1" by (simp add: MAX_ORDER_Suc build_lists)
  have l: "lsum (free_blocks ?b i) x = (if i = 0 then span (area_base a) 65536 x + span (area_base a + 65536) 65536 x
      else span (area_base a + buddy_size ! i) (buddy_size ! i) x)" if "i < MAX_ORDER" for i
    using that by (simp add: build_lists buddy_size_def)
  have set5: "{..< MAX_ORDER} = {0, 1, 2, 3, 4}" by (auto simp: less_MAX_ORDER)
  have "occ ?b x = (\<Sum>i < MAX_ORDER. if i = 0 then span (area_base a) 65536 x + span (area_base a + 65536) 65536 x
      else span (area_base a + buddy_size ! i) (buddy_size ! i) x)"
    unfolding occ_def by (rule sum.cong) (use l in auto)
  also have "\<dots> = span (area_base a) SINGLE_AREA_SIZE x"
    unfolding set5 by (simp add: buddy_size_def) (auto simp: span_def SINGLE_AREA_SIZE_def)
  finally show "occ ?b x = span (area_base a) SINGLE_AREA_SIZE x" .
qed


section \<open>An area as a heap of regions\<close>

definition area_inv :: "dhmp_area \<Rightarrow> bool" where
  "area_inv a \<longleftrightarrow> blocks_ok a \<and> max_ok a \<and> (\<forall>x. occ a x \<le> span (area_base a) SINGLE_AREA_SIZE x)"

definition area_busy :: "dhmp_area \<Rightarrow> nat \<Rightarrow> nat" where
  "area_busy a x = span (area_base a) SINGLE_AREA_SIZE x - occ a x"

definition area_take :: "dhmp_area \<Rightarrow> nat \<Rightarrow> ((nat \<times> nat) option \<times> dhmp_area) res" where
  "area_take a index = (case dhmp_get_free_block a index of (r, a') \<Rightarrow> Inr (map_option (\<lambda>b. (blk_addr b, index)) r, a'))"

definition area_give :: "dhmp_area \<Rightarrow> nat \<times> nat \<Rightarrow> dhmp_area res" where
  "area_give a r = area_free_block a (fst r) (buddy_size ! snd r)"

lemma area_inv_build:
  assumes "max_index a = int MAX_ORDER - 1"
  shows "area_inv (dhmp_buddy_system_build a)" "area_busy (dhmp_buddy_system_build a) x = 0"
  using build_ok[of a] assms by (simp_all add: area_inv_def max_ok_def build_lists area_busy_def area_base_def)

lemma area_inv_max: "area_inv a \<Longrightarrow> max_index a < int MAX_ORDER"
  using top_order_bounds by (simp add: area_inv_def max_ok_def)

lemma area_take_ok:
  assumes "area_inv a" "index < MAX_ORDER"
  shows "\<exists>r a'. area_take a index = Inr (r, a') \<and> area_inv a' \<and> area_mr a' = area_mr a \<and>
    (case r of None \<Rightarrow> a' = a \<and> max_index a < int index
     | Some r \<Rightarrow> snd r = index \<and> place_ok a' index (fst r) \<and> (\<forall>x. area_busy a' x = area_busy a x + span (fst r) (buddy_size ! index) x))"
proof -
  obtain r a' where g: "dhmp_get_free_block a index = (r, a')" by fastforce
  have h: "blocks_ok a" "max_above a" using assms(1) max_ok_above by (auto simp: area_inv_def)
  note ok = get_free_block_ok[OF h assms(2) g]
  have base: "area_base a' = area_base a" using ok by (simp add: area_base_def)
  show ?thesis
  proof (cases r)
    case None
    have "max_index a < int index"
    proof (rule ccontr)
      assume n: "\<not> max_index a < int index"
      have m: "max_index a = top_order a MAX_ORDER" using assms(1) by (simp add: area_inv_def max_ok_def)
      then have "free_blocks a (nat (max_index a)) \<noteq> []" using n top_order_list[of a MAX_ORDER] by simp
      moreover have "index \<le> nat (max_index a)" "nat (max_index a) < MAX_ORDER" using n area_inv_max[OF assms(1)] by simp_all
      ultimately show False using ok None by auto
    qed
    then show ?thesis using ok None assms(1) g by (simp add: area_take_def)
  next
    case (Some b)
    have b: "block_ok a index b" "blocks_ok a'" "max_ok a'" "\<forall>x. occ a x = occ a' x + span (blk_addr b) (blk_size b) x"
      using ok Some by simp_all
    have sz: "blk_size b = buddy_size ! index" "place_ok a' index (blk_addr b)"
      using b(1) ok place_ok_cong[of a' a] by (simp_all add: block_ok_def)
    have le: "occ a x \<le> span (area_base a) SINGLE_AREA_SIZE x" for x using assms(1) by (simp add: area_inv_def)
    have "area_inv a'" using b(2,3,4) le base by (simp add: area_inv_def) (metis le_add1 order_trans)
    moreover have "area_busy a' x = area_busy a x + span (blk_addr b) (buddy_size ! index) x" for x
      using b(4) le[of x] sz(1) by (simp add: area_busy_def base)
    ultimately show ?thesis using ok Some sz g by (simp add: area_take_def)
  qed
qed

lemma area_give_ok:
  assumes "area_inv a" "place_ok a (snd r) (fst r)" "\<forall>x. span (fst r) (buddy_size ! snd r) x \<le> area_busy a x"
  shows "\<exists>a'. area_give a r = Inr a' \<and> area_inv a' \<and> area_mr a' = area_mr a \<and>
    (\<forall>x. area_busy a' x + span (fst r) (buddy_size ! snd r) x = area_busy a x)"
proof -
  from area_free_block_ok[OF _ assms(2) area_inv_max[OF assms(1)]] assms(1) obtain a' where
    a': "area_free_block a (fst r) (buddy_size ! snd r) = Inr a'" "blocks_ok a'" "area_mr a' = area_mr a" "max_ok a'"
      "\<forall>x. occ a' x = occ a x + span (fst r) (buddy_size ! snd r) x" by (auto simp: area_inv_def)
  have base: "area_base a' = area_base a" using a'(3) by (simp add: area_base_def)
  have le: "occ a x + span (fst r) (buddy_size ! snd r) x \<le> span (area_base a) SINGLE_AREA_SIZE x" for x
  proof -
    have "occ a x \<le> span (area_base a) SINGLE_AREA_SIZE x" using assms(1) by (simp add: area_inv_def)
    moreover have "span (fst r) (buddy_size ! snd r) x \<le> span (area_base a) SINGLE_AREA_SIZE x - occ a x"
      using assms(3) by (simp add: area_busy_def)
    ultimately show ?thesis by linarith
  qed
  have "area_inv a'" using a'(2,4,5) le by (simp add: area_inv_def base)
  moreover have "area_busy a' x + span (fst r) (buddy_size ! snd r) x = area_busy a x" for x
    using le[of x] a'(5) by (simp add: area_busy_def base)
  ultimately show ?thesis using a'(1,3) by (simp add: area_give_def)
qed

interpretation buddy: region_heap area_take area_give "\<lambda>i. i < MAX_ORDER" fst "\<lambda>r. buddy_size ! snd r" area_busy
  "\<lambda>a r. place_ok a (snd r) (fst r)" "\<lambda>a. area_inv a \<and> area_mr a = mr" for mr
proof
  fix s :: dhmp_area and x
  show "area_busy s x \<le> 1" using span_le[of "area_base s" SINGLE_AREA_SIZE x] by (simp add: area_busy_def)
next
  fix s :: dhmp_area and r
  assume "place_ok s (snd r) (fst r)"
  then show "0 < buddy_size ! snd r" using place_index buddy_size_pos by blast
next
  fix s :: dhmp_area and q
  assume a: "area_inv s \<and> area_mr s = mr" "q < MAX_ORDER"
  then have i: "area_inv s" by simp
  from area_take_ok[OF i a(2)] obtain r s' where
    t: "area_take s q = Inr (r, s')" "area_inv s'" "area_mr s' = area_mr s"
      "case r of None \<Rightarrow> s' = s \<and> max_index s < int q
       | Some r \<Rightarrow> snd r = q \<and> place_ok s' q (fst r) \<and> (\<forall>x. area_busy s' x = area_busy s x + span (fst r) (buddy_size ! q) x)" by blast
  have c: "\<forall>r'. place_ok s (snd r') (fst r') \<longrightarrow> place_ok s' (snd r') (fst r')" using place_ok_cong[OF t(3)] by simp
  have d: "case r of None \<Rightarrow> area_busy s' = area_busy s
     | Some r \<Rightarrow> place_ok s' (snd r) (fst r) \<and> (\<forall>x. area_busy s' x = area_busy s x + span (fst r) (buddy_size ! snd r) x)"
    using t(4) by (auto split: option.splits)
  show "\<exists>r s'. area_take s q = Inr (r, s') \<and> (area_inv s' \<and> area_mr s' = mr) \<and>
     (\<forall>r'. place_ok s (snd r') (fst r') \<longrightarrow> place_ok s' (snd r') (fst r')) \<and>
     (case r of None \<Rightarrow> area_busy s' = area_busy s
      | Some r \<Rightarrow> place_ok s' (snd r) (fst r) \<and> (\<forall>x. area_busy s' x = area_busy s x + span (fst r) (buddy_size ! snd r) x))"
    using a(1) t(1-3) c d by (intro exI[of _ r] exI[of _ s']) simp
next
  fix s :: dhmp_area and r
  assume a: "area_inv s \<and> area_mr s = mr" "place_ok s (snd r) (fst r)" "\<forall>x. span (fst r) (buddy_size ! snd r) x \<le> area_busy s x"
  then have i: "area_inv s" by simp
  from area_give_ok[OF i a(2,3)] obtain s' where g: "area_give s r = Inr s'" "area_inv s'" "area_mr s' = area_mr s"
    "\<forall>x. area_busy s' x + span (fst r) (buddy_size ! snd r) x = area_busy s x" by blast
  show "\<exists>s'. area_give s r = Inr s' \<and> (area_inv s' \<and> area_mr s' = mr) \<and>
      (\<forall>x. area_busy s' x + span (fst r) (buddy_size ! snd r) x = area_busy s x) \<and>
      (\<forall>r'. place_ok s (snd r') (fst r') \<longrightarrow> (\<forall>x. span (fst r) (buddy_size ! snd r) x + span (fst r') (buddy_size ! snd r') x \<le> 1) \<longrightarrow>
        place_ok s' (snd r') (fst r'))"
    using a(1) g place_ok_cong[OF g(3)] by (intro exI[of _ s']) simp
qed

section \<open>Properties\<close>

text \<open>A concrete area, freshly built.\<close>

definition sample_area :: dhmp_area where
  "sample_area = \<lparr>max_index = int MAX_ORDER - 1, area_mr = \<lparr>mr_addr = 0x200000, mr_length = SINGLE_AREA_SIZE, lkey = 1, rkey = 1\<rparr>,
     free_blocks = (\<lambda>i. []), nr_free = (\<lambda>i. 0)\<rparr>"

text \<open>C5: any history of block requests and returns on a freshly built area runs without a fault; after
  it the blocks handed out are aligned, lie in the area and are pairwise disjoint, and every byte of
  the area is in exactly one free block or in exactly one block handed out: none is lost or doubled
  by splitting and merging.\<close>

theorem buddy_history:
  assumes "max_index a = int MAX_ORDER - 1" "\<forall>q. Inl q \<in> set evs \<longrightarrow> q < MAX_ORDER"
  shows "\<exists>a' rs. buddy.history (dhmp_buddy_system_build a, []) evs = Inr (a', rs) \<and>
    (\<forall>i < length rs. \<forall>j < length rs. i \<noteq> j \<longrightarrow>
       fst (rs ! i) + buddy_size ! snd (rs ! i) \<le> fst (rs ! j) \<or> fst (rs ! j) + buddy_size ! snd (rs ! j) \<le> fst (rs ! i)) \<and>
    (\<forall>r \<in> set rs. \<exists>k. fst r = area_base a + k * buddy_size ! snd r \<and> (k + 1) * buddy_size ! snd r \<le> SINGLE_AREA_SIZE) \<and>
    (\<forall>x. occ a' x + (\<Sum>r \<leftarrow> rs. span (fst r) (buddy_size ! snd r) x) = span (area_base a) SINGLE_AREA_SIZE x)"
proof -
  let ?b = "dhmp_buddy_system_build a"
  have h0: "buddy.holds (area_mr a) ?b []" using area_inv_build[OF assms(1)] by (simp add: buddy.holds_def build_lists)
  from buddy.history_ok[OF h0, of evs] assms(2) obtain a' rs where
    run: "buddy.history (?b, []) evs = Inr (a', rs)" and h: "buddy.holds (area_mr a) a' rs" by auto
  have inv: "area_inv a'" "area_mr a' = area_mr a" "\<forall>x. area_busy a' x = buddy.cover rs x" "\<forall>r \<in> set rs. place_ok a' (snd r) (fst r)"
    using h by (simp_all add: buddy.holds_def)
  have base: "area_base a' = area_base a" using inv(2) by (simp add: area_base_def)
  have "occ a' x + (\<Sum>r \<leftarrow> rs. span (fst r) (buddy_size ! snd r) x) = span (area_base a) SINGLE_AREA_SIZE x" for x
  proof -
    have "occ a' x \<le> span (area_base a) SINGLE_AREA_SIZE x" using inv(1) base by (simp add: area_inv_def)
    then show ?thesis using spec[OF inv(3), of x] by (simp add: area_busy_def base buddy.cover_def)
  qed
  then show ?thesis using run buddy.holds_disjoint[OF h] inv(4) base by (auto simp: place_ok_def)
qed

theorem buddy_history_witness:
  "\<exists>a' rs. buddy.history (dhmp_buddy_system_build sample_area, []) [Inl 0, Inl 3, Inr 1, Inl 4, Inl 4] = Inr (a', rs) \<and>
    (\<forall>i < length rs. \<forall>j < length rs. i \<noteq> j \<longrightarrow>
       fst (rs ! i) + buddy_size ! snd (rs ! i) \<le> fst (rs ! j) \<or> fst (rs ! j) + buddy_size ! snd (rs ! j) \<le> fst (rs ! i)) \<and>
    (\<forall>r \<in> set rs. \<exists>k. fst r = area_base sample_area + k * buddy_size ! snd r \<and> (k + 1) * buddy_size ! snd r \<le> SINGLE_AREA_SIZE) \<and>
    (\<forall>x. occ a' x + (\<Sum>r \<leftarrow> rs. span (fst r) (buddy_size ! snd r) x) = span (area_base sample_area) SINGLE_AREA_SIZE x)"
  by (rule buddy_history) (auto simp: sample_area_def MAX_ORDER_def)

text \<open>A request of order \<open>index\<close> succeeds exactly when \<open>max_index\<close> is at least \<open>index\<close>. It returns a
  block of exactly that size, aligned to it and inside the area; its bytes were free and are the only
  ones that stop being free. A failed request changes nothing.\<close>

theorem block_request:
  assumes "area_inv a" "index < MAX_ORDER"
  shows "case dhmp_get_free_block a index of
      (None, a') \<Rightarrow> a' = a \<and> max_index a < int index
    | (Some b, a') \<Rightarrow> int index \<le> max_index a \<and> area_inv a' \<and> blk_size b = buddy_size ! index \<and>
        (blk_addr b - area_base a) mod buddy_size ! index = 0 \<and> area_base a \<le> blk_addr b \<and>
        blk_addr b + blk_size b \<le> area_base a + SINGLE_AREA_SIZE \<and>
        (\<forall>x. occ a x = occ a' x + span (blk_addr b) (blk_size b) x)"
proof -
  obtain r a' where g: "dhmp_get_free_block a index = (r, a')" by fastforce
  have h: "blocks_ok a" "max_above a" using assms(1) max_ok_above by (auto simp: area_inv_def)
  note ok = get_free_block_ok[OF h assms(2) g]
  from area_take_ok[OF assms] g have t: "area_inv a'"
    "case r of None \<Rightarrow> a' = a \<and> max_index a < int index | Some b \<Rightarrow> True" by (auto simp: area_take_def split: option.splits)
  show ?thesis
  proof (cases r)
    case None
    then show ?thesis using g t by simp
  next
    case (Some b)
    have b: "block_ok a index b" "\<forall>x. occ a x = occ a' x + span (blk_addr b) (blk_size b) x" using ok Some by simp_all
    from b(1) obtain k where k: "blk_addr b = area_base a + k * buddy_size ! index" "(k + 1) * buddy_size ! index \<le> SINGLE_AREA_SIZE"
      "blk_size b = buddy_size ! index" by (auto simp: block_ok_def place_ok_def)
    have "int index \<le> max_index a"
    proof (rule ccontr)
      assume n: "\<not> int index \<le> max_index a"
      have "free_blocks a i = []" if "index \<le> i" "i < MAX_ORDER" for i using h(2) n that by (auto simp: max_above_def)
      then have "first_order a index = None" by (auto simp: first_order_def find_None_iff)
      then show False using g Some by (subst (asm) dhmp_get_free_block.simps) simp
    qed
    then show ?thesis using g Some t b(2) k by simp
  qed
qed

theorem block_request_witness:
  "case dhmp_get_free_block (dhmp_buddy_system_build sample_area) 2 of
      (None, a') \<Rightarrow> a' = dhmp_buddy_system_build sample_area \<and> max_index (dhmp_buddy_system_build sample_area) < int 2
    | (Some b, a') \<Rightarrow> int 2 \<le> max_index (dhmp_buddy_system_build sample_area) \<and> area_inv a' \<and> blk_size b = buddy_size ! 2 \<and>
        (blk_addr b - area_base (dhmp_buddy_system_build sample_area)) mod buddy_size ! 2 = 0 \<and> area_base (dhmp_buddy_system_build sample_area) \<le> blk_addr b \<and>
        blk_addr b + blk_size b \<le> area_base (dhmp_buddy_system_build sample_area) + SINGLE_AREA_SIZE \<and>
        (\<forall>x. occ (dhmp_buddy_system_build sample_area) x = occ a' x + span (blk_addr b) (blk_size b) x)"
  by (rule block_request[OF area_inv_build(1)]) (simp_all add: sample_area_def MAX_ORDER_def)

text \<open>C32: giving a block back right after it was taken, whatever splitting the request caused, makes
  exactly the bytes free that were free before.\<close>

theorem take_then_give:
  assumes "area_inv a" "index < MAX_ORDER" "dhmp_get_free_block a index = (Some b, a')"
  shows "\<exists>a''. area_free_block a' (blk_addr b) (blk_size b) = Inr a'' \<and> area_inv a'' \<and> (\<forall>x. occ a'' x = occ a x)"
proof -
  have h: "blocks_ok a" "max_above a" using assms(1) max_ok_above by (auto simp: area_inv_def)
  note ok = get_free_block_ok[OF h assms(2,3)]
  have b: "blk_size b = buddy_size ! index" "place_ok a' index (blk_addr b)" "area_mr a' = area_mr a" "blocks_ok a'" "max_ok a'"
    "\<forall>x. occ a x = occ a' x + span (blk_addr b) (blk_size b) x"
    using ok place_ok_cong[of a' a] by (simp_all add: block_ok_def)
  have "max_index a' < int MAX_ORDER" using b(5) top_order_bounds by (simp add: max_ok_def)
  from area_free_block_ok[OF b(4,2) this] obtain a'' where a'': "area_free_block a' (blk_addr b) (buddy_size ! index) = Inr a''"
    "blocks_ok a''" "area_mr a'' = area_mr a'" "max_ok a''" "\<forall>x. occ a'' x = occ a' x + span (blk_addr b) (buddy_size ! index) x" by blast
  have "occ a'' x = occ a x" for x using b(1,6) a''(5) by simp
  moreover have "area_base a'' = area_base a" using a''(3) b(3) by (simp add: area_base_def)
  ultimately have "area_inv a''" using assms(1) a''(2,4) by (simp add: area_inv_def)
  then show ?thesis using a''(1) b(1) \<open>\<And>x. occ a'' x = occ a x\<close> by auto
qed

lemma sample_take: "\<exists>b a'. dhmp_get_free_block (dhmp_buddy_system_build sample_area) 0 = (Some b, a')"
proof -
  have i: "area_inv (dhmp_buddy_system_build sample_area)" by (rule area_inv_build(1)) (simp add: sample_area_def)
  have "max_index (dhmp_buddy_system_build sample_area) = 4" by (simp add: build_lists(3)) (simp add: sample_area_def MAX_ORDER_def)
  with area_take_ok[OF i, of 0] show ?thesis
    by (cases "dhmp_get_free_block (dhmp_buddy_system_build sample_area) 0") (auto simp: MAX_ORDER_def area_take_def split: option.splits)
qed

theorem take_then_give_witness:
  "\<exists>b a' a''. dhmp_get_free_block (dhmp_buddy_system_build sample_area) 0 = (Some b, a') \<and>
    area_free_block a' (blk_addr b) (blk_size b) = Inr a'' \<and> area_inv a'' \<and> (\<forall>x. occ a'' x = occ (dhmp_buddy_system_build sample_area) x)"
proof -
  have i: "area_inv (dhmp_buddy_system_build sample_area)" by (rule area_inv_build(1)) (simp add: sample_area_def)
  from sample_take obtain b a' where g: "dhmp_get_free_block (dhmp_buddy_system_build sample_area) 0 = (Some b, a')" by blast
  from take_then_give[OF i _ g] show ?thesis using g by (auto simp: MAX_ORDER_def)
qed

end
