(* ===== verification/Dhmp_Server.thy ===== *)
theory Dhmp_Server
  imports Dhmp_Buddy
begin

text \<open>
  The memory server: \<open>dhmp_area_create\<close> of \<open>src/dhmp_client/src/dhmp_server.c\<close> and the handlers of
  requests in \<open>dhmp_transport.c\<close>. Areas and their list entries are objects in a map from their pointers. Memory
  of the machine is one function from addresses to bytes. The calls of libnuma and of the verbs library that
  allocate and register memory are the argument record \<open>numa_os\<close>; small \<open>malloc\<close>s succeed. A handler gives
  the message it posts, which is sent when the transport is connected.
\<close>

section \<open>State\<close>

record 'o numa_os =
  numa_alloc_onnode :: "'o \<Rightarrow> nat \<Rightarrow> 64 word \<times> 'o"
  numa_free :: "'o \<Rightarrow> 64 word \<Rightarrow> nat \<Rightarrow> 'o"
  ibv_reg_mr :: "'o \<Rightarrow> 64 word \<Rightarrow> nat \<Rightarrow> ibv_mr option \<times> 'o"
  ibv_dereg_mr :: "'o \<Rightarrow> ibv_mr \<Rightarrow> 'o"

record dhmp_dram_entry =
  entry_ptr :: "64 word"
  entry_nvm_addr :: "64 word"
  entry_length :: nat
  entry_dram_mr :: ibv_mr

text \<open>\<open>fmt_ptr\<close> is the text the next \<open>%p\<close> will print, which names a pointer of the server process.\<close>

record 'o dhmp_server =
  areas :: "nat \<Rightarrow> dhmp_area option"
  cur_area :: "nat option"
  area_list :: "nat list"
  more_area_list :: "nat list"
  dram_ht :: "nat \<Rightarrow> dhmp_dram_entry list"
  srv_transports :: "nat \<Rightarrow> dhmp_transport"
  watcher_trans :: "nat option"
  client_list :: "nat list"
  cur_connections :: int
  srv_dram_used_size :: int
  dram_total_size :: int
  nvm_total_size :: int
  memory :: buf
  fmt_ptr :: "nat \<Rightarrow> byte list"
  fmt_pos :: nat
  os :: 'o

definition sizeof_dhmp_area :: nat where "sizeof_dhmp_area = 152"
definition sizeof_dhmp_dram_entry :: nat where "sizeof_dhmp_dram_entry = 40"
definition DHMP_SERVER_DRAM_TH :: nat where "DHMP_SERVER_DRAM_TH = 1024 * 1024 * 1024 * 1"
definition DHMP_MAX_OBJ_NUM :: nat where "DHMP_MAX_OBJ_NUM = 40000"

definition upd_trans :: "'o dhmp_server \<Rightarrow> nat \<Rightarrow> (dhmp_transport \<Rightarrow> dhmp_transport) \<Rightarrow> 'o dhmp_server" where
  "upd_trans s t f = s\<lparr>srv_transports := (srv_transports s)(t := f (srv_transports s t))\<rparr>"

section \<open>Areas\<close>

text \<open>A new area; the free lists of an area without buddy system are not initialised, nor are they read.\<close>

definition dhmp_area_create :: "'o numa_os \<Rightarrow> 'o dhmp_server \<Rightarrow> bool \<Rightarrow> nat \<Rightarrow> nat option \<times> 'o dhmp_server" where
  "dhmp_area_create N s has_buddy_sys len =
     (case numa_alloc_onnode N (os s) len of (addr, o1) \<Rightarrow>
        if addr = 0 then (None, s\<lparr>os := o1\<rparr>)
        else (case ibv_reg_mr N o1 addr len of
          (None, o2) \<Rightarrow> (None, s\<lparr>os := numa_free N o2 addr len\<rparr>)
        | (Some mr, o2) \<Rightarrow>
            (case numa_alloc_onnode N o2 sizeof_dhmp_area of (area, o3) \<Rightarrow>
               if area = 0 then (None, s\<lparr>os := numa_free N (ibv_dereg_mr N o3 mr) addr len\<rparr>)
               else
                 let p = unat area; a = \<lparr>max_index = int MAX_ORDER - 1, area_mr = mr, free_blocks = (\<lambda>i. []), nr_free = (\<lambda>i. 0)\<rparr>
                 in if has_buddy_sys
                    then (Some p, s\<lparr>os := o3, areas := (areas s)(p \<mapsto> dhmp_buddy_system_build a), area_list := p # area_list s\<rparr>)
                    else (Some p, s\<lparr>os := o3, areas := (areas s)(p \<mapsto> a\<lparr>max_index := -2\<rparr>), more_area_list := p # more_area_list s\<rparr>))))"

text \<open>The first area of a list with enough room, and the one with a given key.\<close>

fun find_room :: "'o dhmp_server \<Rightarrow> nat list \<Rightarrow> nat \<Rightarrow> nat option res" where
  "find_room s [] index = Inr None"
| "find_room s (p # ps) index =
     (case areas s p of
        None \<Rightarrow> Inl Use_after_free
      | Some a \<Rightarrow> if int index \<le> max_index a then Inr (Some p) else find_room s ps index)"

fun find_lkey :: "'o dhmp_server \<Rightarrow> nat list \<Rightarrow> nat \<Rightarrow> nat option res" where
  "find_lkey s [] key = Inr None"
| "find_lkey s (p # ps) key =
     (case areas s p of
        None \<Rightarrow> Inl Use_after_free
      | Some a \<Rightarrow> if key = lkey (area_mr a) then Inr (Some p) else find_lkey s ps key)"

section \<open>Allocation\<close>

definition ascii :: "string \<Rightarrow> byte list" where
  "ascii cs = map of_char cs"

text \<open>\<open>snprintf(addr, n, ...)\<close> with the text it would print: at most \<open>n\<close> bytes, the last one 0.\<close>

definition snprintf :: "buf \<Rightarrow> nat \<Rightarrow> nat \<Rightarrow> byte list \<Rightarrow> buf" where
  "snprintf m addr n text = (if n = 0 then m else buf_write m addr (take (n - 1) text @ [0]))"

definition print_at :: "'o dhmp_server \<Rightarrow> nat \<Rightarrow> nat \<Rightarrow> string \<Rightarrow> 'o dhmp_server" where
  "print_at s addr n prefix =
     s\<lparr>memory := snprintf (memory s) addr n (ascii prefix @ fmt_ptr s (fmt_pos s)), fmt_pos := Suc (fmt_pos s)\<rparr>"

definition size_index :: "nat \<Rightarrow> nat" where
  "size_index n = (case List.find (\<lambda>i. n \<le> buddy_size ! i) [0 ..< MAX_ORDER] of Some i \<Rightarrow> i | None \<Rightarrow> MAX_ORDER)"

text \<open>Which area serves the request: the current one, another one with room, or a new one.\<close>

definition choose_area :: "'o numa_os \<Rightarrow> 'o dhmp_server \<Rightarrow> nat \<Rightarrow> (nat option \<times> 'o dhmp_server) res" where
  "choose_area N s index =
     (case cur_area s of
        None \<Rightarrow> Inl Null_deref
      | Some c \<Rightarrow>
          (case areas s c of
             None \<Rightarrow> Inl Use_after_free
           | Some a \<Rightarrow>
               if int index \<le> max_index a then Inr (Some c, s)
               else rbind (find_room s (area_list s) index) (\<lambda>r.
                      case r of
                        Some p \<Rightarrow> Inr (Some p, s\<lparr>cur_area := Some p\<rparr>)
                      | None \<Rightarrow>
                          (case dhmp_area_create N s True SINGLE_AREA_SIZE of
                             (None, s1) \<Rightarrow> Inr (None, s1)
                           | (Some p, s1) \<Rightarrow> Inr (Some p, s1\<lparr>cur_area := Some p\<rparr>)))))"

definition dhmp_malloc_one_block :: "'o numa_os \<Rightarrow> 'o dhmp_server \<Rightarrow> nat \<Rightarrow> (ibv_mr option \<times> 'o dhmp_server) res" where
  "dhmp_malloc_one_block N s req_size =
     (let index = size_index req_size
      in rbind (choose_area N s index) (\<lambda>(r, s1).
           case r of
             None \<Rightarrow> Inr (None, s1)
           | Some p \<Rightarrow>
               (case areas s1 p of
                  None \<Rightarrow> Inl Use_after_free
                | Some a \<Rightarrow>
                    (case dhmp_get_free_block a index of
                       (None, a1) \<Rightarrow> Inr (None, s1\<lparr>areas := (areas s1)(p \<mapsto> a1)\<rparr>)
                     | (Some b, a1) \<Rightarrow>
                         Inr (Some ((blk_mr b)\<lparr>mr_addr := word_of_nat (blk_addr b), mr_length := blk_size b\<rparr>),
                              print_at (s1\<lparr>areas := (areas s1)(p \<mapsto> a1)\<rparr>) (blk_addr b) req_size ''nvmhhhhhhhh'')))))"

definition dhmp_malloc_more_area :: "'o numa_os \<Rightarrow> 'o dhmp_server \<Rightarrow> nat \<Rightarrow> nat \<Rightarrow> (ibv_mr option \<times> 'o dhmp_server) res" where
  "dhmp_malloc_more_area N s req_size len =
     (case dhmp_area_create N s False len of
        (None, s1) \<Rightarrow> Inr (None, s1)
      | (Some p, s1) \<Rightarrow>
          (case areas s1 p of
             None \<Rightarrow> Inl Use_after_free
           | Some a \<Rightarrow> Inr (Some (area_mr a), print_at s1 (unat (mr_addr (area_mr a))) req_size ''welcomebj'')))"

text \<open>The allocation a request of \<open>req_size\<close> bytes leads to.\<close>

definition server_malloc :: "'o numa_os \<Rightarrow> 'o dhmp_server \<Rightarrow> nat \<Rightarrow> (ibv_mr option \<times> 'o dhmp_server) res" where
  "server_malloc N s req_size =
     (if req_size \<le> buddy_size ! (MAX_ORDER - 1) then dhmp_malloc_one_block N s req_size
      else if req_size \<le> SINGLE_AREA_SIZE then dhmp_malloc_more_area N s req_size SINGLE_AREA_SIZE
      else dhmp_malloc_more_area N s req_size req_size)"

section \<open>Posting a message\<close>

definition server_post_send :: "'o dhmp_server \<Rightarrow> nat \<Rightarrow> dhmp_msg \<Rightarrow> (dhmp_msg option \<times> 'o dhmp_server) res" where
  "server_post_send s t msg =
     (if trans_state (srv_transports s t) \<noteq> DHMP_TRANSPORT_STATE_CONNECTED then Inr (None, s)
      else rbind (dhmp_send_task_create t (srv_transports s t) msg) (\<lambda>(rt, task).
             Inr (Some msg, upd_trans s t (\<lambda>_. rt))))"

definition dhmp_malloc_request_handler :: "'o numa_os \<Rightarrow> 'o dhmp_server \<Rightarrow> nat \<Rightarrow> dhmp_mc_request \<Rightarrow> (dhmp_msg option \<times> 'o dhmp_server) res" where
  "dhmp_malloc_request_handler N s t req =
     rbind (server_malloc N s (mc_req_size req)) (\<lambda>(r, s1).
       case r of
         None \<Rightarrow> server_post_send s1 t (DHMP_MSG_MALLOC_ERROR req)
       | Some mr \<Rightarrow>
           rbind (server_post_send s1 t (DHMP_MSG_MALLOC_RESPONSE req mr)) (\<lambda>(m, s2).
             Inr (m, upd_trans s2 t (\<lambda>rt. rt\<lparr>nvm_used_size := nvm_used_size rt + int (mr_length mr)\<rparr>))))"

section \<open>The DRAM cache\<close>

definition dhmp_create_new_dram_entry :: "'o numa_os \<Rightarrow> 'o dhmp_server \<Rightarrow> 64 word \<Rightarrow> nat \<Rightarrow> dhmp_dram_entry option \<times> 'o dhmp_server" where
  "dhmp_create_new_dram_entry N s addr len =
     (case numa_alloc_onnode N (os s) sizeof_dhmp_dram_entry of (entry, o1) \<Rightarrow>
        if entry = 0 then (None, s\<lparr>os := o1\<rparr>)
        else (case numa_alloc_onnode N o1 len of (dram_addr, o2) \<Rightarrow>
          if dram_addr = 0 then (None, s\<lparr>os := numa_free N o2 entry sizeof_dhmp_dram_entry\<rparr>)
          else (case ibv_reg_mr N o2 dram_addr len of
            (None, o3) \<Rightarrow> (None, s\<lparr>os := numa_free N (numa_free N o3 dram_addr len) entry sizeof_dhmp_dram_entry\<rparr>)
          | (Some mr, o3) \<Rightarrow>
              let e = \<lparr>entry_ptr = entry, entry_nvm_addr = addr, entry_length = len, entry_dram_mr = mr\<rparr>; i = nat (dhmp_hash_in_server addr)
              in (Some e, s\<lparr>os := o3, dram_ht := (dram_ht s)(i := e # dram_ht s i)\<rparr>))))"

text \<open>The cached copy goes back to its place before the entry is dropped.\<close>

definition dhmp_destroy_dram_entry :: "'o numa_os \<Rightarrow> 'o dhmp_server \<Rightarrow> 64 word \<Rightarrow> bool \<times> 'o dhmp_server" where
  "dhmp_destroy_dram_entry N s addr =
     (let i = nat (dhmp_hash_in_server addr)
      in case remove_first (\<lambda>e. entry_nvm_addr e = addr) (dram_ht s i) of
           None \<Rightarrow> (False, s)
         | Some (e, es) \<Rightarrow>
             let dram = unat (mr_addr (entry_dram_mr e));
                 m = (if 0 < entry_length e then buf_write (memory s) (unat addr) (buf_read (memory s) dram (entry_length e)) else memory s)
             in (True, s\<lparr>memory := m, dram_ht := (dram_ht s)(i := es),
                         os := numa_free N (numa_free N (ibv_dereg_mr N (os s) (entry_dram_mr e)) (mr_addr (entry_dram_mr e)) (entry_length e))
                                 (entry_ptr e) sizeof_dhmp_dram_entry\<rparr>))"

section \<open>Freeing\<close>

definition dhmp_free_one_block :: "'o dhmp_server \<Rightarrow> ibv_mr \<Rightarrow> 'o dhmp_server res" where
  "dhmp_free_one_block s mr =
     rbind (find_lkey s (area_list s) (lkey mr)) (\<lambda>r.
       case r of
         None \<Rightarrow> Inr s
       | Some p \<Rightarrow>
           (case areas s p of
              None \<Rightarrow> Inl Use_after_free
            | Some a \<Rightarrow> rbind (area_free_block a (unat (mr_addr mr)) (mr_length mr)) (\<lambda>a1. Inr (s\<lparr>areas := (areas s)(p \<mapsto> a1)\<rparr>))))"

text \<open>
  In the two functions on whole areas the search goes through \<open>more_area_list\<close>, but the test whether it
  ended without a hit compares with \<open>area_list\<close>: without a hit the list head is used as an area.
\<close>

definition dhmp_free_one_area :: "'o dhmp_server \<Rightarrow> ibv_mr \<Rightarrow> 'o dhmp_server res" where
  "dhmp_free_one_area s mr =
     rbind (find_lkey s (more_area_list s) (lkey mr)) (\<lambda>r.
       case r of
         None \<Rightarrow> Inl Wild_deref
       | Some p \<Rightarrow>
           (case areas s p of
              None \<Rightarrow> Inl Use_after_free
            | Some a \<Rightarrow>
                Inr (s\<lparr>areas := (areas s)(p \<mapsto> (dhmp_buddy_system_build a)\<lparr>max_index := int MAX_ORDER - 1\<rparr>),
                       more_area_list := remove1 p (more_area_list s), area_list := p # area_list s\<rparr>)))"

definition dhmp_free_more_area :: "'o numa_os \<Rightarrow> 'o dhmp_server \<Rightarrow> ibv_mr \<Rightarrow> 'o dhmp_server res" where
  "dhmp_free_more_area N s mr =
     rbind (find_lkey s (more_area_list s) (lkey mr)) (\<lambda>r.
       case r of
         None \<Rightarrow> Inl Wild_deref
       | Some p \<Rightarrow>
           (case areas s p of
              None \<Rightarrow> Inl Use_after_free
            | Some a \<Rightarrow>
                let o1 = ibv_dereg_mr N (os s) (area_mr a);
                    o2 = numa_free N o1 (mr_addr (area_mr a)) (mr_length mr);
                    o3 = numa_free N o2 (word_of_nat p) sizeof_dhmp_area
                in Inr (s\<lparr>os := o3, areas := (areas s)(p := None), more_area_list := remove1 p (more_area_list s)\<rparr>)))"

definition server_free :: "'o numa_os \<Rightarrow> 'o dhmp_server \<Rightarrow> ibv_mr \<Rightarrow> 'o dhmp_server res" where
  "server_free N s mr =
     (if mr_length mr \<le> buddy_size ! (MAX_ORDER - 1) then dhmp_free_one_block s mr
      else if mr_length mr \<le> SINGLE_AREA_SIZE then dhmp_free_one_area s mr
      else dhmp_free_more_area N s mr)"

definition dhmp_free_request_handler :: "'o numa_os \<Rightarrow> 'o dhmp_server \<Rightarrow> nat \<Rightarrow> nat \<Rightarrow> ibv_mr \<Rightarrow> (dhmp_msg option \<times> 'o dhmp_server) res" where
  "dhmp_free_request_handler N s t addr_info mr =
     (let s1 = upd_trans s t (\<lambda>rt. rt\<lparr>nvm_used_size := nvm_used_size rt - int (mr_length mr)\<rparr>)
      in case dhmp_destroy_dram_entry N s1 (mr_addr mr) of (hit, s2) \<Rightarrow>
           let s3 = (if hit
                     then upd_trans (s2\<lparr>srv_dram_used_size := srv_dram_used_size s2 - int (mr_length mr)\<rparr>) t
                            (\<lambda>rt. rt\<lparr>dram_used_size := dram_used_size rt - int (mr_length mr)\<rparr>)
                     else s2)
           in rbind (server_free N s3 mr) (\<lambda>s4. server_post_send s4 t (DHMP_MSG_FREE_RESPONSE addr_info)))"

section \<open>Two-sided reads and writes\<close>

definition dhmp_send_request_handler :: "'o dhmp_server \<Rightarrow> nat \<Rightarrow> dhmp_send_request \<Rightarrow> byte list \<Rightarrow> (dhmp_msg option \<times> 'o dhmp_server) res" where
  "dhmp_send_request_handler s t req payload =
     (let n = send_req_size req; a = unat (send_server_addr req)
      in if send_is_write req then
           if length payload < n then Inl Out_of_bounds
           else server_post_send (s\<lparr>memory := buf_write (memory s) a (take n payload)\<rparr>) t (DHMP_MSG_SEND_RESPONSE req [])
         else server_post_send s t (DHMP_MSG_SEND_RESPONSE req (buf_read (memory s) a n)))"

section \<open>Requests for DRAM\<close>

text \<open>
  With \<open>DHMP_CACHE_POLICY\<close> off no object is cached: each request below the threshold is answered with an
  empty region. The sum in the test is computed on \<open>size_t\<close>.
\<close>

fun apply_request_loop :: "'o dhmp_server \<Rightarrow> nat \<Rightarrow> nat \<Rightarrow> dhmp_nvm_info list \<Rightarrow> dhmp_dram_info list res" where
  "apply_request_loop s t i [] = Inr []"
| "apply_request_loop s t i (x # xs) =
     (if cur_connections s = 0 then Inl Process_exit
      else
        let threshold = int DHMP_SERVER_DRAM_TH * 2 div cur_connections s;
            used = (dram_used_size (srv_transports s t) + int (nvm_length x)) mod 2 ^ 64
        in if threshold mod 2 ^ 64 < used then Inr []
           else if DHMP_MAX_OBJ_NUM \<le> i then Inl Buffer_overflow
           else rbind (apply_request_loop s t (Suc i) xs) (\<lambda>ds.
                  Inr (\<lparr>dram_nvm_addr = nvm_addr x, dram_info_mr = \<lparr>mr_addr = 0, mr_length = 0, lkey = 0, rkey = 0\<rparr>\<rparr> # ds)))"

definition dhmp_apply_dram_request_handler :: "'o dhmp_server \<Rightarrow> nat \<Rightarrow> dhmp_nvm_info list \<Rightarrow> (dhmp_msg option \<times> 'o dhmp_server) res" where
  "dhmp_apply_dram_request_handler s t xs =
     rbind (apply_request_loop s t 0 xs) (\<lambda>ds. server_post_send s t (DHMP_MSG_APPLY_DRAM_RESPONSE ds))"

fun clear_request_loop :: "'o numa_os \<Rightarrow> 'o dhmp_server \<Rightarrow> nat \<Rightarrow> nat \<Rightarrow> dhmp_nvm_info list \<Rightarrow> 'o dhmp_server res" where
  "clear_request_loop N s t i [] = Inr s"
| "clear_request_loop N s t i (x # xs) =
     (if DHMP_MAX_OBJ_NUM \<le> i then Inl Buffer_overflow
      else
        let s1 = snd (dhmp_destroy_dram_entry N s (nvm_addr x));
            s2 = upd_trans (s1\<lparr>srv_dram_used_size := srv_dram_used_size s1 - int (nvm_length x)\<rparr>) t
                   (\<lambda>rt. rt\<lparr>dram_used_size := dram_used_size rt - int (nvm_length x)\<rparr>)
        in clear_request_loop N s2 t (Suc i) xs)"

definition dhmp_clear_dram_request_handler :: "'o numa_os \<Rightarrow> 'o dhmp_server \<Rightarrow> nat \<Rightarrow> dhmp_nvm_info list \<Rightarrow> (dhmp_msg option \<times> 'o dhmp_server) res" where
  "dhmp_clear_dram_request_handler N s t xs =
     rbind (clear_request_loop N s t 0 xs) (\<lambda>s1. server_post_send s1 t (DHMP_MSG_CLEAR_DRAM_RESPONSE xs))"

definition dhmp_server_info_request_handler :: "'o dhmp_server \<Rightarrow> nat \<Rightarrow> (dhmp_msg option \<times> 'o dhmp_server) res" where
  "dhmp_server_info_request_handler s t =
     server_post_send s t (DHMP_MSG_SERVER_INFO_RESPONSE (dram_total_size s) (nvm_total_size s))"

section \<open>Dispatch\<close>

text \<open>
  In a server process \<open>client\<close> and \<open>watcher\<close> are \<open>NULL\<close>; the handlers of the other responses write
  through pointers taken from the message.
\<close>

definition server_recv_handler :: "'o numa_os \<Rightarrow> 'o dhmp_server \<Rightarrow> nat \<Rightarrow> dhmp_msg \<Rightarrow> (dhmp_msg option \<times> 'o dhmp_server) res" where
  "server_recv_handler N s t msg =
     (case msg of
        DHMP_MSG_MALLOC_REQUEST req \<Rightarrow> dhmp_malloc_request_handler N s t req
      | DHMP_MSG_FREE_REQUEST addr_info mr \<Rightarrow> dhmp_free_request_handler N s t addr_info mr
      | DHMP_MSG_SEND_REQUEST req payload \<Rightarrow> dhmp_send_request_handler s t req payload
      | DHMP_MSG_APPLY_DRAM_REQUEST xs \<Rightarrow> dhmp_apply_dram_request_handler s t xs
      | DHMP_MSG_CLEAR_DRAM_REQUEST xs \<Rightarrow> dhmp_clear_dram_request_handler N s t xs
      | DHMP_MSG_SERVER_INFO_REQUEST \<Rightarrow> dhmp_server_info_request_handler s t
      | DHMP_MSG_CLOSE_CONNECTION \<Rightarrow> Inr (None, s)
      | DHMP_MSG_MALLOC_RESPONSE req mr \<Rightarrow> Inl Wild_deref
      | DHMP_MSG_MALLOC_ERROR req \<Rightarrow> Inl Wild_deref
      | DHMP_MSG_FREE_RESPONSE p \<Rightarrow> Inl Wild_deref
      | DHMP_MSG_SEND_RESPONSE req payload \<Rightarrow> Inl Wild_deref
      | _ \<Rightarrow> Inl Null_deref)"


section \<open>What the operating system promises\<close>

text \<open>
  \<open>allocd\<close> are the address ranges handed out by \<open>numa_alloc_onnode\<close> and not freed, \<open>regs\<close> the registered
  regions; \<open>up\<close> holds of every state the machine reaches. An allocation is a range of user space apart
  from all others, a registration has keys no other region has.
\<close>

definition os_alloc_ok :: "'o numa_os \<Rightarrow> ('o \<Rightarrow> (nat \<times> nat) set) \<Rightarrow> ('o \<Rightarrow> ibv_mr set) \<Rightarrow> ('o \<Rightarrow> bool) \<Rightarrow> bool" where
  "os_alloc_ok N allocd regs up \<longleftrightarrow>
     (\<forall>o0 n a o1. up o0 \<longrightarrow> 0 < n \<longrightarrow> numa_alloc_onnode N o0 n = (a, o1) \<longrightarrow> up o1 \<and> regs o1 = regs o0 \<and>
        (if a = 0 then allocd o1 = allocd o0
         else unat a + n < 2 ^ 48 \<and> (\<forall>(p, m) \<in> allocd o0. unat a + n \<le> p \<or> p + m \<le> unat a) \<and> allocd o1 = insert (unat a, n) (allocd o0)))"

definition os_reg_ok :: "'o numa_os \<Rightarrow> ('o \<Rightarrow> (nat \<times> nat) set) \<Rightarrow> ('o \<Rightarrow> ibv_mr set) \<Rightarrow> ('o \<Rightarrow> bool) \<Rightarrow> bool" where
  "os_reg_ok N allocd regs up \<longleftrightarrow>
     (\<forall>o0 a n r o1. up o0 \<longrightarrow> ibv_reg_mr N o0 a n = (r, o1) \<longrightarrow> up o1 \<and> allocd o1 = allocd o0 \<and>
        (case r of None \<Rightarrow> regs o1 = regs o0
         | Some mr \<Rightarrow> mr_addr mr = a \<and> mr_length mr = n \<and> lkey mr \<notin> lkey ` regs o0 \<and> rkey mr \<notin> rkey ` regs o0 \<and> regs o1 = insert mr (regs o0)))"

definition os_ok :: "'o numa_os \<Rightarrow> ('o \<Rightarrow> (nat \<times> nat) set) \<Rightarrow> ('o \<Rightarrow> ibv_mr set) \<Rightarrow> ('o \<Rightarrow> bool) \<Rightarrow> bool" where
  "os_ok N allocd regs up \<longleftrightarrow> os_alloc_ok N allocd regs up \<and> os_reg_ok N allocd regs up \<and>
     (\<forall>o0 a n. up o0 \<longrightarrow> up (numa_free N o0 a n) \<and> regs (numa_free N o0 a n) = regs o0 \<and>
        allocd (numa_free N o0 a n) = allocd o0 - {(unat a, n)}) \<and>
     (\<forall>o0 mr. up o0 \<longrightarrow> up (ibv_dereg_mr N o0 mr) \<and> allocd (ibv_dereg_mr N o0 mr) = allocd o0 \<and> regs (ibv_dereg_mr N o0 mr) = regs o0 - {mr})"

lemma os_alloc:
  assumes "os_ok N allocd regs up" "up o0" "0 < n" "numa_alloc_onnode N o0 n = (a, o1)"
  shows "up o1 \<and> regs o1 = regs o0 \<and>
    (if a = 0 then allocd o1 = allocd o0
     else unat a + n < 2 ^ 48 \<and> (\<forall>(p, m) \<in> allocd o0. unat a + n \<le> p \<or> p + m \<le> unat a) \<and> allocd o1 = insert (unat a, n) (allocd o0))"
proof -
  have "os_alloc_ok N allocd regs up" using assms(1) by (simp add: os_ok_def)
  from this[unfolded os_alloc_ok_def, rule_format, OF assms(2-4)] show ?thesis .
qed

lemma os_reg:
  assumes "os_ok N allocd regs up" "up o0" "ibv_reg_mr N o0 a n = (r, o1)"
  shows "up o1 \<and> allocd o1 = allocd o0 \<and>
    (case r of None \<Rightarrow> regs o1 = regs o0
     | Some mr \<Rightarrow> mr_addr mr = a \<and> mr_length mr = n \<and> lkey mr \<notin> lkey ` regs o0 \<and> rkey mr \<notin> rkey ` regs o0 \<and> regs o1 = insert mr (regs o0))"
proof -
  have "os_reg_ok N allocd regs up" using assms(1) by (simp add: os_ok_def)
  from this[unfolded os_reg_ok_def, rule_format, OF assms(2,3)] show ?thesis .
qed

lemma os_free:
  assumes "os_ok N allocd regs up" "up o0"
  shows "up (numa_free N o0 a n)" "regs (numa_free N o0 a n) = regs o0" "allocd (numa_free N o0 a n) = allocd o0 - {(unat a, n)}"
  using assms by (simp_all add: os_ok_def)

lemma os_dereg:
  assumes "os_ok N allocd regs up" "up o0"
  shows "up (ibv_dereg_mr N o0 mr)" "allocd (ibv_dereg_mr N o0 mr) = allocd o0" "regs (ibv_dereg_mr N o0 mr) = regs o0 - {mr}"
  using assms by (simp_all add: os_ok_def)

section \<open>The invariant of the server\<close>

definition all_areas :: "'o dhmp_server \<Rightarrow> nat list" where
  "all_areas s = area_list s @ more_area_list s"

definition area_len :: "dhmp_area \<Rightarrow> nat" where
  "area_len a = mr_length (area_mr a)"

definition area_fine :: "('o \<Rightarrow> (nat \<times> nat) set) \<Rightarrow> ('o \<Rightarrow> ibv_mr set) \<Rightarrow> 'o dhmp_server \<Rightarrow> nat \<Rightarrow> dhmp_area \<Rightarrow> bool" where
  "area_fine allocd regs s p a \<longleftrightarrow> area_mr a \<in> regs (os s) \<and> (area_base a, area_len a) \<in> allocd (os s) \<and>
     (p, sizeof_dhmp_area) \<in> allocd (os s) \<and> p < 2 ^ 48 \<and> SINGLE_AREA_SIZE \<le> area_len a \<and> area_base a + area_len a < 2 ^ 48 \<and> 0 < area_base a \<and>
     (p \<in> set (area_list s) \<longrightarrow> area_len a = SINGLE_AREA_SIZE \<and> area_inv a)"

definition apart :: "dhmp_area \<Rightarrow> dhmp_area \<Rightarrow> bool" where
  "apart a b \<longleftrightarrow> lkey (area_mr a) \<noteq> lkey (area_mr b) \<and> (area_base a + area_len a \<le> area_base b \<or> area_base b + area_len b \<le> area_base a)"

text \<open>\<open>srv_core\<close> holds from the moment the lists are set up, \<open>srv_inv\<close> once there is a current area.\<close>

definition srv_core :: "('o \<Rightarrow> (nat \<times> nat) set) \<Rightarrow> ('o \<Rightarrow> ibv_mr set) \<Rightarrow> ('o \<Rightarrow> bool) \<Rightarrow> 'o dhmp_server \<Rightarrow> bool" where
  "srv_core allocd regs up s \<longleftrightarrow> up (os s) \<and> distinct (all_areas s) \<and>
     (\<forall>p \<in> set (all_areas s). \<exists>a. areas s p = Some a \<and> area_fine allocd regs s p a) \<and>
     (\<forall>p \<in> set (all_areas s). \<forall>q \<in> set (all_areas s). p \<noteq> q \<longrightarrow> apart (the (areas s p)) (the (areas s q)))"

definition srv_inv :: "('o \<Rightarrow> (nat \<times> nat) set) \<Rightarrow> ('o \<Rightarrow> ibv_mr set) \<Rightarrow> ('o \<Rightarrow> bool) \<Rightarrow> 'o dhmp_server \<Rightarrow> bool" where
  "srv_inv allocd regs up s \<longleftrightarrow> up (os s) \<and> distinct (all_areas s) \<and>
     (\<forall>p \<in> set (all_areas s). \<exists>a. areas s p = Some a \<and> area_fine allocd regs s p a) \<and>
     (\<forall>p \<in> set (all_areas s). \<forall>q \<in> set (all_areas s). p \<noteq> q \<longrightarrow> apart (the (areas s p)) (the (areas s q))) \<and>
     (\<exists>c. cur_area s = Some c \<and> c \<in> set (area_list s))"

definition srv_busy :: "'o dhmp_server \<Rightarrow> nat \<Rightarrow> nat" where
  "srv_busy s x = (\<Sum>p \<in> set (area_list s). area_busy (the (areas s p)) x) +
     (\<Sum>p \<in> set (more_area_list s). span (area_base (the (areas s p))) (area_len (the (areas s p))) x)"

text \<open>A region the server may have handed out: a block of an area with buddy system, or a whole other area.\<close>

definition block_of :: "'o dhmp_server \<Rightarrow> nat \<Rightarrow> ibv_mr \<Rightarrow> bool" where
  "block_of s p mr \<longleftrightarrow> (\<exists>a. areas s p = Some a \<and> lkey mr = lkey (area_mr a) \<and> rkey mr = rkey (area_mr a) \<and>
     (\<exists>i < MAX_ORDER. mr_length mr = buddy_size ! i \<and> place_ok a i (unat (mr_addr mr))))"

definition area_of :: "'o dhmp_server \<Rightarrow> nat \<Rightarrow> ibv_mr \<Rightarrow> bool" where
  "area_of s p mr \<longleftrightarrow> (\<exists>a. areas s p = Some a \<and> mr = area_mr a)"

definition srv_legal :: "'o dhmp_server \<Rightarrow> ibv_mr \<Rightarrow> bool" where
  "srv_legal s mr \<longleftrightarrow> (\<exists>p \<in> set (area_list s). block_of s p mr) \<or> (\<exists>p \<in> set (more_area_list s). area_of s p mr)"

lemma srv_inv_core: "srv_inv allocd regs up s \<Longrightarrow> srv_core allocd regs up s"
  by (simp add: srv_inv_def srv_core_def)

lemma srv_core_area:
  assumes "srv_core allocd regs up s" "p \<in> set (all_areas s)"
  obtains a where "areas s p = Some a" "area_fine allocd regs s p a"
  using assms unfolding srv_core_def by blast

lemmas srv_area = srv_core_area[OF srv_inv_core]

lemma srv_buddy_area:
  assumes "srv_inv allocd regs up s" "p \<in> set (area_list s)"
  obtains a where "areas s p = Some a" "area_fine allocd regs s p a" "area_len a = SINGLE_AREA_SIZE" "area_inv a" "p \<in> set (all_areas s)"
proof -
  have p: "p \<in> set (all_areas s)" using assms(2) by (simp add: all_areas_def)
  from srv_area[OF assms(1) p] obtain a where a: "areas s p = Some a" "area_fine allocd regs s p a" by blast
  then have "area_len a = SINGLE_AREA_SIZE" "area_inv a" using assms(2) by (simp_all add: area_fine_def)
  then show ?thesis using that a p by blast
qed

lemma area_pos: "area_fine allocd regs s p a \<Longrightarrow> 0 < area_len a"
  by (simp add: area_fine_def SINGLE_AREA_SIZE_def)

lemma find_room_ok:
  assumes "\<forall>p \<in> set ps. \<exists>a. areas s p = Some a"
  shows "\<exists>r. find_room s ps index = Inr r \<and>
    (case r of None \<Rightarrow> \<forall>p \<in> set ps. max_index (the (areas s p)) < int index
     | Some p \<Rightarrow> p \<in> set ps \<and> int index \<le> max_index (the (areas s p)))"
  using assms by (induction ps) (auto split: option.splits)

lemma find_lkey_ok:
  assumes "\<forall>p \<in> set ps. \<exists>a. areas s p = Some a" "p \<in> set ps" "areas s p = Some a" "lkey (area_mr a) = key"
    and "\<forall>q \<in> set ps. q \<noteq> p \<longrightarrow> lkey (area_mr (the (areas s q))) \<noteq> key"
  shows "find_lkey s ps key = Inr (Some p)"
  using assms by (induction ps) (auto split: option.splits)

text \<open>Replacing an area of \<open>area_list\<close> by one over the same region.\<close>

lemma srv_inv_upd:
  assumes inv: "srv_inv allocd regs up s" and p: "p \<in> set (area_list s)" "areas s p = Some a"
    and a': "area_mr a' = area_mr a" "area_inv a'"
    and s': "areas s' = (areas s)(p \<mapsto> a')" "area_list s' = area_list s" "more_area_list s' = more_area_list s" "cur_area s' = cur_area s" "os s' = os s"
  shows "srv_inv allocd regs up s'" "srv_busy s' x + area_busy a x = srv_busy s x + area_busy a' x" "srv_legal s' mr = srv_legal s mr"
proof -
  have b: "area_base a' = area_base a" "area_len a' = area_len a" using a'(1) by (simp_all add: area_base_def area_len_def)
  have l: "all_areas s' = all_areas s" by (simp add: all_areas_def s')
  have fine: "\<exists>b. areas s' q = Some b \<and> area_fine allocd regs s' q b" if "q \<in> set (all_areas s)" for q
  proof -
    from srv_area[OF inv that] obtain b where "areas s q = Some b" "area_fine allocd regs s q b" by blast
    then show ?thesis using p a' b by (cases "q = p") (auto simp: area_fine_def s')
  qed
  have ap: "apart (the (areas s' q)) (the (areas s' r)) = apart (the (areas s q)) (the (areas s r))" for q r
    using p(2) a'(1) b by (auto simp: apart_def s')
  show "srv_inv allocd regs up s'" using inv fine by (simp add: srv_inv_def l ap) (simp add: s')
  have d: "p \<notin> set (more_area_list s)" using inv p(1) by (auto simp: srv_inv_def all_areas_def)
  have f: "finite (set (area_list s))" by simp
  have "(\<Sum>q \<in> set (area_list s) - {p}. area_busy (the (areas s' q)) x) = (\<Sum>q \<in> set (area_list s) - {p}. area_busy (the (areas s q)) x)"
    by (rule sum.cong) (auto simp: s')
  moreover have "(\<Sum>q \<in> set (more_area_list s). span (area_base (the (areas s' q))) (area_len (the (areas s' q))) x) =
      (\<Sum>q \<in> set (more_area_list s). span (area_base (the (areas s q))) (area_len (the (areas s q))) x)"
    by (rule sum.cong) (use d in \<open>auto simp: s'\<close>)
  ultimately show "srv_busy s' x + area_busy a x = srv_busy s x + area_busy a' x"
    unfolding srv_busy_def s'(2,3) using p by (simp add: sum.remove[OF f p(1)] s')
  have pl: "place_ok a' i q = place_ok a i q" for i q by (rule place_ok_cong[OF a'(1)])
  have "block_of s' q mr = block_of s q mr" for q using p(2) a'(1) pl by (cases "q = p") (simp_all add: block_of_def s')
  moreover have "area_of s' q mr = area_of s q mr" if "q \<in> set (more_area_list s)" for q using that d by (auto simp: area_of_def s')
  ultimately show "srv_legal s' mr = srv_legal s mr" by (simp add: srv_legal_def s'(2,3))
qed


text \<open>The machine's tables may grow, or go back to what they were.\<close>

lemma srv_inv_os:
  assumes "srv_inv allocd regs up s" "up o1" "regs o1 = regs (os s)" "allocd o1 = allocd (os s)"
  shows "srv_inv allocd regs up (s\<lparr>os := o1\<rparr>)" "srv_busy (s\<lparr>os := o1\<rparr>) = srv_busy s" "srv_legal (s\<lparr>os := o1\<rparr>) = srv_legal s"
proof -
  have f: "area_fine allocd regs (s\<lparr>os := o1\<rparr>) p a = area_fine allocd regs s p a" for p a
    using assms(3,4) by (simp add: area_fine_def)
  show "srv_inv allocd regs up (s\<lparr>os := o1\<rparr>)" using assms(1,2) by (simp add: srv_inv_def all_areas_def f)
qed (simp_all add: srv_busy_def srv_legal_def block_of_def area_of_def fun_eq_iff)

definition new_area :: "('o \<Rightarrow> (nat \<times> nat) set) \<Rightarrow> ('o \<Rightarrow> ibv_mr set) \<Rightarrow> ('o \<Rightarrow> bool) \<Rightarrow> 'o dhmp_server \<Rightarrow> bool \<Rightarrow> nat \<Rightarrow> nat \<Rightarrow> dhmp_area \<Rightarrow> 'o dhmp_server \<Rightarrow> bool" where
  "new_area allocd regs up s b len p a s' \<longleftrightarrow>
     areas s' = (areas s)(p \<mapsto> a) \<and> cur_area s' = cur_area s \<and> up (os s') \<and>
     regs (os s) \<subseteq> regs (os s') \<and> allocd (os s) \<subseteq> allocd (os s') \<and> p \<notin> set (all_areas s) \<and>
     area_len a = len \<and> area_fine allocd regs s' p a \<and> (\<forall>q \<in> set (all_areas s). apart a (the (areas s q))) \<and>
     (if b then area_list s' = p # area_list s \<and> more_area_list s' = more_area_list s \<and> max_index a = int MAX_ORDER - 1 \<and> (\<forall>x. area_busy a x = 0)
      else area_list s' = area_list s \<and> more_area_list s' = p # more_area_list s)"

lemma area_create_ok:
  assumes N: "os_ok N allocd regs up" and inv: "srv_core allocd regs up s" and len: "SINGLE_AREA_SIZE \<le> len" "b \<Longrightarrow> len = SINGLE_AREA_SIZE"
    and c: "dhmp_area_create N s b len = (r, s')"
  shows "case r of
      None \<Rightarrow> \<exists>o1. s' = s\<lparr>os := o1\<rparr> \<and> up o1 \<and> regs o1 = regs (os s) \<and> allocd o1 = allocd (os s)
    | Some p \<Rightarrow> \<exists>a. new_area allocd regs up s b len p a s'"
proof -
  have up0: "up (os s)" using inv by (simp add: srv_core_def)
  have pos: "0 < len" "0 < sizeof_dhmp_area" using len(1) by (simp_all add: SINGLE_AREA_SIZE_def sizeof_dhmp_area_def)
  obtain addr o1 where 1: "numa_alloc_onnode N (os s) len = (addr, o1)" by fastforce
  note al = os_alloc[OF N up0 pos(1) 1]
  show ?thesis
  proof (cases "addr = 0")
    case True
    then show ?thesis using c al by (auto simp: dhmp_area_create_def 1)
  next
    case False
    obtain m o2 where 2: "ibv_reg_mr N o1 addr len = (m, o2)" by fastforce
    have up1: "up o1" using al by simp
    note rg = os_reg[OF N up1 2]
    have up2: "up o2" using rg by simp
    have no_self: "(unat addr, len) \<notin> allocd (os s)" using al False pos by auto
    show ?thesis
    proof (cases m)
      case None
      have "r = None" "s' = s\<lparr>os := numa_free N o2 addr len\<rparr>" using c False None by (simp_all add: dhmp_area_create_def 1 2)
      moreover have "allocd o2 - {(unat addr, len)} = allocd (os s)" using rg al False None no_self by auto
      ultimately show ?thesis using os_free[OF N up2, of addr len] rg al None by auto
    next
      case (Some mr)
      obtain ar o3 where 3: "numa_alloc_onnode N o2 sizeof_dhmp_area = (ar, o3)" by fastforce
      note al2 = os_alloc[OF N up2 pos(2) 3]
      have up3: "up o3" using al2 by simp
      have mr: "mr_addr mr = addr" "mr_length mr = len" "lkey mr \<notin> lkey ` regs (os s)" "regs o2 = insert mr (regs (os s))"
        "allocd o2 = insert (unat addr, len) (allocd (os s))" using rg al Some False by auto
      show ?thesis
      proof (cases "ar = 0")
        case True
        let ?o = "numa_free N (ibv_dereg_mr N o3 mr) addr len"
        have "r = None" "s' = s\<lparr>os := ?o\<rparr>" using c False Some True by (simp_all add: dhmp_area_create_def 1 2 3)
        moreover have "mr \<notin> regs (os s)" using mr(3) by auto
        moreover have "regs ?o = regs o3 - {mr}" "allocd ?o = allocd o3 - {(unat addr, len)}" "up ?o"
          using os_dereg[OF N up3, of mr] os_free[OF N os_dereg(1)[OF N up3, of mr], of addr len] by simp_all
        ultimately show ?thesis using al2 True mr(4,5) no_self by auto
      next
        case False2: False
        define a0 where "a0 = \<lparr>max_index = int MAX_ORDER - 1, area_mr = mr, free_blocks = (\<lambda>i. []), nr_free = (\<lambda>i. 0)\<rparr>"
        define a where "a = (if b then dhmp_buddy_system_build a0 else a0\<lparr>max_index := -2\<rparr>)"
        define p where "p = unat ar"
        have s': "r = Some p" "s' = (if b then s\<lparr>os := o3, areas := (areas s)(p \<mapsto> a), area_list := p # area_list s\<rparr>
            else s\<lparr>os := o3, areas := (areas s)(p \<mapsto> a), more_area_list := p # more_area_list s\<rparr>)"
          using c False Some False2 by (cases b, auto simp: dhmp_area_create_def 1 2 3 Let_def a_def a0_def p_def)+
        have o3: "regs o3 = insert mr (regs (os s))" "allocd o3 = insert (p, sizeof_dhmp_area) (insert (unat addr, len) (allocd (os s)))"
          using al2 False2 mr(4,5) by (simp_all add: p_def)
        have a: "area_mr a = mr" "area_base a = unat addr" "area_len a = len"
          by (simp_all add: a_def a0_def build_lists area_base_def area_len_def mr)
        have ainv: "area_inv a \<and> max_index a = int MAX_ORDER - 1 \<and> (\<forall>x. area_busy a x = 0)" if b
          using that area_inv_build[of a0] by (simp add: a_def a0_def build_lists)
        have addr: "0 < unat addr" "unat addr + len < 2 ^ 48" "p < 2 ^ 48" using False False2 al al2 by (simp_all add: unat_gt_0 p_def)
        have old: "area_fine allocd regs s q x" "apart a x" "q \<noteq> p" if q: "q \<in> set (all_areas s)" "areas s q = Some x" for q x
        proof -
          from srv_core_area[OF inv q(1)] q(2) show f: "area_fine allocd regs s q x" by auto
          have "area_mr x \<in> regs (os s)" "(area_base x, area_len x) \<in> allocd (os s)" "(q, sizeof_dhmp_area) \<in> allocd (os s)"
            using f by (simp_all add: area_fine_def)
          moreover have "lkey mr \<noteq> lkey (area_mr x)" using mr(3) calculation(1) by auto
          ultimately show "apart a x" "q \<noteq> p" using al al2 False False2 a mr(5) pos(2) by (auto simp: apart_def p_def)
        qed
        have fresh: "p \<notin> set (all_areas s)" using old(3) srv_core_area[OF inv] by metis
        have fine: "area_fine allocd regs s' p a"
          using len s' o3 a addr ainv fresh by (auto simp: area_fine_def all_areas_def)
        have ap: "\<forall>q \<in> set (all_areas s). apart a (the (areas s q))" using old(2) srv_core_area[OF inv] by (metis option.sel)
        have "new_area allocd regs up s b len p a s'" unfolding new_area_def
          using fine fresh ap a up3 o3 ainv by (simp add: s'(2)) auto
        then show ?thesis using s'(1) by auto
      qed
    qed
  qed
qed

lemma new_area_inv:
  assumes inv: "srv_inv allocd regs up s" and n: "new_area allocd regs up s b len p a s'"
  shows "srv_inv allocd regs up s'" "\<forall>mr. srv_legal s mr \<longrightarrow> srv_legal s' mr"
    "srv_busy s' x = srv_busy s x + (if b then 0 else span (area_base a) (area_len a) x)"
proof -
  have n1: "areas s' = (areas s)(p \<mapsto> a)" "cur_area s' = cur_area s" "p \<notin> set (all_areas s)"
    "area_fine allocd regs s' p a" "up (os s')" "regs (os s) \<subseteq> regs (os s')" "allocd (os s) \<subseteq> allocd (os s')"
    "\<forall>q \<in> set (all_areas s). apart a (the (areas s q))" using n by (simp_all add: new_area_def)
  have l: "set (all_areas s') = insert p (set (all_areas s))" "set (area_list s') \<supseteq> set (area_list s)" "set (more_area_list s') \<supseteq> set (more_area_list s)"
    "set (area_list s') \<subseteq> insert p (set (area_list s))"
    using n by (auto simp: new_area_def all_areas_def split: if_splits)
  have d: "distinct (all_areas s')" using inv n by (auto simp: srv_inv_def new_area_def all_areas_def split: if_splits)
  have old: "area_fine allocd regs s' q x" if q: "q \<in> set (all_areas s)" "areas s q = Some x" for q x
  proof -
    have "area_fine allocd regs s q x" "q \<noteq> p" using srv_area[OF inv q(1)] q n1(3) by auto
    then show ?thesis using n1(6,7) l(4) by (auto simp: area_fine_def)
  qed
  have sym: "apart x y = apart y x" for x y by (auto simp: apart_def)
  have fine: "\<exists>x. areas s' q = Some x \<and> area_fine allocd regs s' q x" if q: "q \<in> set (all_areas s')" for q
  proof (cases "q = p")
    case True
    then show ?thesis using n1(1,4) by simp
  next
    case False
    then have q': "q \<in> set (all_areas s)" using q l(1) by simp
    from srv_area[OF inv q'] obtain x where x: "areas s q = Some x" by blast
    then show ?thesis using old[OF q' x] False n1(1) by simp
  qed
  have ap: "apart (the (areas s' q)) (the (areas s' r))" if "q \<in> set (all_areas s')" "r \<in> set (all_areas s')" "q \<noteq> r" for q r
  proof -
    consider "q = p" | "r = p" | "q \<noteq> p" "r \<noteq> p" by blast
    then show ?thesis
    proof cases
      case 1
      then show ?thesis using that l(1) n1(1,8) by auto
    next
      case 2
      then show ?thesis using that l(1) n1(1,8) sym by auto
    next
      case 3
      then have "q \<in> set (all_areas s)" "r \<in> set (all_areas s)" using that l(1) by auto
      then show ?thesis using inv that(3) 3 n1(1) by (simp add: srv_inv_def)
    qed
  qed
  have "\<exists>c. cur_area s' = Some c \<and> c \<in> set (area_list s')" using inv l(2) n1(2) by (auto simp: srv_inv_def)
  then show "srv_inv allocd regs up s'" using d fine ap n1(5) by (simp add: srv_inv_def)
  have "block_of s' q mr" if "q \<in> set (area_list s)" "block_of s q mr" for q mr
    using that n1(1,3) by (auto simp: block_of_def all_areas_def)
  moreover have "area_of s' q mr" if "q \<in> set (more_area_list s)" "area_of s q mr" for q mr
    using that n1(1,3) by (auto simp: area_of_def all_areas_def)
  ultimately show "\<forall>mr. srv_legal s mr \<longrightarrow> srv_legal s' mr" using l(2,3) by (fastforce simp: srv_legal_def)
  have np: "p \<notin> set (area_list s)" "p \<notin> set (more_area_list s)" using n1(3) by (simp_all add: all_areas_def)
  have c1: "(\<Sum>q \<in> set (area_list s). area_busy (the (areas s' q)) x) = (\<Sum>q \<in> set (area_list s). area_busy (the (areas s q)) x)"
    by (rule sum.cong) (use np n1(1) in auto)
  have c2: "(\<Sum>q \<in> set (more_area_list s). span (area_base (the (areas s' q))) (area_len (the (areas s' q))) x) =
      (\<Sum>q \<in> set (more_area_list s). span (area_base (the (areas s q))) (area_len (the (areas s q))) x)"
    by (rule sum.cong) (use np n1(1) in auto)
  show "srv_busy s' x = srv_busy s x + (if b then 0 else span (area_base a) (area_len a) x)"
  proof (cases b)
    case True
    then have "area_list s' = p # area_list s" "more_area_list s' = more_area_list s" "area_busy a x = 0" using n by (simp_all add: new_area_def)
    then show ?thesis using np c1 c2 True n1(1) by (simp add: srv_busy_def)
  next
    case False
    then have "area_list s' = area_list s" "more_area_list s' = p # more_area_list s" using n by (simp_all add: new_area_def)
    then show ?thesis using np c1 c2 False n1(1) by (simp add: srv_busy_def)
  qed
qed


section \<open>Allocating\<close>

lemma srv_same:
  assumes "areas s' = areas s" "area_list s' = area_list s" "more_area_list s' = more_area_list s" "os s' = os s"
    and "cur_area s' = cur_area s \<or> (\<exists>p \<in> set (area_list s). cur_area s' = Some p)"
  shows "srv_inv allocd regs up s \<Longrightarrow> srv_inv allocd regs up s'" "srv_busy s' = srv_busy s" "srv_legal s' = srv_legal s"
proof -
  have f: "area_fine allocd regs s' = area_fine allocd regs s" by (simp add: area_fine_def fun_eq_iff assms(2,4))
  show "srv_inv allocd regs up s \<Longrightarrow> srv_inv allocd regs up s'" using assms by (auto simp: srv_inv_def all_areas_def f)
qed (simp_all add: srv_busy_def srv_legal_def block_of_def area_of_def fun_eq_iff assms)

lemma print_at_sel [simp]:
  "areas (print_at s a n t) = areas s" "area_list (print_at s a n t) = area_list s" "more_area_list (print_at s a n t) = more_area_list s"
  "os (print_at s a n t) = os s" "cur_area (print_at s a n t) = cur_area s" "srv_transports (print_at s a n t) = srv_transports s"
  "dram_ht (print_at s a n t) = dram_ht s"
  by (simp_all add: print_at_def)

lemma print_at_memory:
  assumes "x < a \<or> a + n \<le> x"
  shows "memory (print_at s a n t) x = memory s x"
proof -
  have "length (take (n - 1) (ascii t @ fmt_ptr s (fmt_pos s)) @ [0]) \<le> n" if "n \<noteq> 0" using that by simp
  then show ?thesis using assms by (auto simp: print_at_def snprintf_def intro!: buf_write_out)
qed

text \<open>The region \<open>mr\<close> lies in a registered region with the same remote key.\<close>

definition inside_reg :: "ibv_mr set \<Rightarrow> ibv_mr \<Rightarrow> bool" where
  "inside_reg R mr \<longleftrightarrow> (\<exists>reg \<in> R. rkey reg = rkey mr \<and> unat (mr_addr reg) \<le> unat (mr_addr mr) \<and>
     unat (mr_addr mr) + mr_length mr \<le> unat (mr_addr reg) + mr_length reg \<and> unat (mr_addr reg) + mr_length reg < 2 ^ 48)"

lemma legal_inside:
  assumes "srv_inv allocd regs up s" "srv_legal s mr"
  shows "inside_reg (regs (os s)) mr \<and> 0 < mr_length mr \<and> 0 < unat (mr_addr mr)"
proof -
  consider (block) p a i where "p \<in> set (area_list s)" "areas s p = Some a" "rkey mr = rkey (area_mr a)" "i < MAX_ORDER"
      "mr_length mr = buddy_size ! i" "place_ok a i (unat (mr_addr mr))"
    | (whole) p a where "p \<in> set (more_area_list s)" "areas s p = Some a" "mr = area_mr a"
    using assms(2) by (auto simp: srv_legal_def block_of_def area_of_def)
  then show ?thesis
  proof cases
    case block
    have "area_fine allocd regs s p a" "p \<in> set (area_list s)" using srv_area[OF assms(1), of p] block(1,2) by (auto simp: all_areas_def)
    then have f: "area_mr a \<in> regs (os s)" "area_len a = SINGLE_AREA_SIZE" "area_base a + area_len a < 2 ^ 48" "0 < area_base a"
      by (auto simp: area_fine_def)
    from block(6) obtain k where "unat (mr_addr mr) = area_base a + k * buddy_size ! i" "(k + 1) * buddy_size ! i \<le> SINGLE_AREA_SIZE"
      by (auto simp: place_ok_def)
    then have "area_base a \<le> unat (mr_addr mr)" "unat (mr_addr mr) + mr_length mr \<le> area_base a + area_len a" using f(2) block(5) by simp_all
    then show ?thesis using f block(3,4,5) buddy_size_pos unfolding inside_reg_def
      by (auto simp: area_base_def area_len_def intro!: bexI[of _ "area_mr a"])
  next
    case whole
    have "area_fine allocd regs s p a" using srv_area[OF assms(1), of p] whole(1,2) by (auto simp: all_areas_def)
    then show ?thesis using whole(3) unfolding inside_reg_def
      by (auto simp: area_fine_def area_base_def area_len_def SINGLE_AREA_SIZE_def intro!: bexI[of _ "area_mr a"])
  qed
qed

lemma size_index_ok: "n \<le> buddy_size ! (MAX_ORDER - 1) \<Longrightarrow> size_index n < MAX_ORDER \<and> n \<le> buddy_size ! size_index n"
proof -
  assume n: "n \<le> buddy_size ! (MAX_ORDER - 1)"
  have "MAX_ORDER - 1 \<in> set [0 ..< MAX_ORDER]" by (simp add: MAX_ORDER_def)
  then have "List.find (\<lambda>i. n \<le> buddy_size ! i) [0 ..< MAX_ORDER] \<noteq> None"
    unfolding find_None_iff using n by blast
  then obtain i where i: "List.find (\<lambda>i. n \<le> buddy_size ! i) [0 ..< MAX_ORDER] = Some i" by auto
  then have "i < MAX_ORDER \<and> n \<le> buddy_size ! i" by (auto simp: find_Some_iff)
  then show ?thesis by (simp add: size_index_def i)
qed

lemma choose_area_ok:
  assumes N: "os_ok N allocd regs up" and inv: "srv_inv allocd regs up s" and i: "index < MAX_ORDER"
  shows "\<exists>r s'. choose_area N s index = Inr (r, s') \<and> srv_inv allocd regs up s' \<and> (\<forall>mr. srv_legal s mr \<longrightarrow> srv_legal s' mr) \<and>
    srv_busy s' = srv_busy s \<and> memory s' = memory s \<and> srv_transports s' = srv_transports s \<and> dram_ht s' = dram_ht s \<and>
    (case r of None \<Rightarrow> True | Some p \<Rightarrow> p \<in> set (area_list s') \<and> int index \<le> max_index (the (areas s' p)))"
proof -
  from inv obtain c where c: "cur_area s = Some c" "c \<in> set (area_list s)" by (auto simp: srv_inv_def)
  from srv_area[OF inv, of c] c(2) obtain a where a: "areas s c = Some a" by (auto simp: all_areas_def)
  show ?thesis
  proof (cases "int index \<le> max_index a")
    case True
    then show ?thesis using inv c a by (simp add: choose_area_def)
  next
    case False
    have "\<forall>p \<in> set (area_list s). \<exists>a. areas s p = Some a" using srv_area[OF inv] by (metis all_areas_def UnCI set_append)
    from find_room_ok[OF this, of index] obtain r where r: "find_room s (area_list s) index = Inr r"
      "case r of None \<Rightarrow> \<forall>p \<in> set (area_list s). max_index (the (areas s p)) < int index
       | Some p \<Rightarrow> p \<in> set (area_list s) \<and> int index \<le> max_index (the (areas s p))" by blast
    show ?thesis
    proof (cases r)
      case (Some p)
      define s1 where "s1 = s\<lparr>cur_area := Some p\<rparr>"
      have "srv_inv allocd regs up s1" "srv_busy s1 = srv_busy s" "srv_legal s1 = srv_legal s"
        using srv_same[of s1 s] inv r(2) Some by (simp_all add: s1_def)
      moreover have "choose_area N s index = Inr (Some p, s1)" using c a False r(1) Some by (simp add: choose_area_def s1_def)
      ultimately show ?thesis using r(2) Some by (auto simp: s1_def)
    next
      case None
      obtain q s1 where ac: "dhmp_area_create N s True SINGLE_AREA_SIZE = (q, s1)" by fastforce
      note ok = area_create_ok[OF N srv_inv_core[OF inv] order.refl refl ac]
      show ?thesis
      proof (cases q)
        case None2: None
        then obtain o1 where o1: "s1 = s\<lparr>os := o1\<rparr>" "up o1" "regs o1 = regs (os s)" "allocd o1 = allocd (os s)" using ok by auto
        have "choose_area N s index = Inr (None, s1)" using c a False r(1) None ac None2 by (simp add: choose_area_def)
        then show ?thesis using srv_inv_os[OF inv o1(2-4)] o1(1) by auto
      next
        case (Some p)
        then obtain b where b: "new_area allocd regs up s True SINGLE_AREA_SIZE p b s1" using ok by auto
        define s2 where "s2 = s1\<lparr>cur_area := Some p\<rparr>"
        have p: "p \<in> set (area_list s1)" "the (areas s1 p) = b" "max_index b = int MAX_ORDER - 1" using b by (simp_all add: new_area_def)
        have same: "srv_inv allocd regs up s2" "srv_busy s2 = srv_busy s1" "srv_legal s2 = srv_legal s1"
          using srv_same[of s2 s1] new_area_inv(1)[OF inv b] p(1) by (simp_all add: s2_def)
        have mem: "memory s2 = memory s" "srv_transports s2 = srv_transports s" "dram_ht s2 = dram_ht s"
          using ac by (auto simp: s2_def dhmp_area_create_def Let_def split: prod.splits option.splits if_splits)
        have "srv_busy s2 = srv_busy s" using new_area_inv(3)[OF inv b] same(2) by (simp add: fun_eq_iff)
        moreover have "choose_area N s index = Inr (Some p, s2)" using c a False r(1) None ac Some by (simp add: choose_area_def s2_def)
        moreover have "int index \<le> max_index (the (areas s2 p))" using p i by (simp add: s2_def)
        moreover have "p \<in> set (area_list s2)" using p by (simp add: s2_def)
        ultimately show ?thesis using same new_area_inv(2)[OF inv b] mem by auto
      qed
    qed
  qed
qed


text \<open>What a successful or failed allocation does.\<close>

definition malloc_post :: "('o \<Rightarrow> (nat \<times> nat) set) \<Rightarrow> ('o \<Rightarrow> ibv_mr set) \<Rightarrow> ('o \<Rightarrow> bool) \<Rightarrow> 'o dhmp_server \<Rightarrow> nat \<Rightarrow>
    ibv_mr option \<Rightarrow> 'o dhmp_server \<Rightarrow> bool" where
  "malloc_post allocd regs up s n r s' \<longleftrightarrow> srv_inv allocd regs up s' \<and> (\<forall>mr. srv_legal s mr \<longrightarrow> srv_legal s' mr) \<and>
     srv_transports s' = srv_transports s \<and> dram_ht s' = dram_ht s \<and>
     (case r of
        None \<Rightarrow> srv_busy s' = srv_busy s \<and> memory s' = memory s
      | Some mr \<Rightarrow> srv_legal s' mr \<and> n \<le> mr_length mr \<and>
          (\<forall>x. srv_busy s' x = srv_busy s x + span (unat (mr_addr mr)) (mr_length mr) x) \<and>
          (\<forall>x. x < unat (mr_addr mr) \<or> unat (mr_addr mr) + mr_length mr \<le> x \<longrightarrow> memory s' x = memory s x))"

lemma malloc_one_block_ok:
  assumes N: "os_ok N allocd regs up" and inv: "srv_inv allocd regs up s" and n: "n \<le> buddy_size ! (MAX_ORDER - 1)"
  shows "\<exists>r s'. dhmp_malloc_one_block N s n = Inr (r, s') \<and> malloc_post allocd regs up s n r s'"
proof -
  let ?i = "size_index n"
  note si = size_index_ok[OF n]
  from choose_area_ok[OF N inv, of ?i] si obtain r s1 where ch: "choose_area N s ?i = Inr (r, s1)" "srv_inv allocd regs up s1"
    "\<forall>mr. srv_legal s mr \<longrightarrow> srv_legal s1 mr" "srv_busy s1 = srv_busy s" "memory s1 = memory s"
    "srv_transports s1 = srv_transports s" "dram_ht s1 = dram_ht s"
    "case r of None \<Rightarrow> True | Some p \<Rightarrow> p \<in> set (area_list s1) \<and> int ?i \<le> max_index (the (areas s1 p))" by blast
  show ?thesis
  proof (cases r)
    case None
    then have "dhmp_malloc_one_block N s n = Inr (None, s1)" by (simp add: dhmp_malloc_one_block_def ch(1))
    then show ?thesis using ch(2-7) by (simp add: malloc_post_def)
  next
    case (Some p)
    then have p: "p \<in> set (area_list s1)" "int ?i \<le> max_index (the (areas s1 p))" using ch(8) by simp_all
    from srv_area[OF ch(2), of p] p(1) obtain a where a: "areas s1 p = Some a" "area_fine allocd regs s1 p a" by (auto simp: all_areas_def)
    have ai: "area_inv a" "area_base a + area_len a < 2 ^ 48" "area_len a = SINGLE_AREA_SIZE" using a(2) p(1) by (auto simp: area_fine_def)
    from area_take_ok[OF ai(1), of ?i] si obtain q a' where t: "area_take a ?i = Inr (q, a')" "area_inv a'" "area_mr a' = area_mr a"
      "case q of None \<Rightarrow> a' = a \<and> max_index a < int ?i
       | Some r \<Rightarrow> snd r = ?i \<and> place_ok a' ?i (fst r) \<and> (\<forall>x. area_busy a' x = area_busy a x + span (fst r) (buddy_size ! ?i) x)" by blast
    obtain b where g: "dhmp_get_free_block a ?i = (Some b, a')" and q: "q = Some (blk_addr b, ?i)"
      using t(1,4) p(2) a(1) by (cases "dhmp_get_free_block a ?i") (auto simp: area_take_def split: option.splits)
    have b: "block_ok a ?i b"
      using get_free_block_ok[OF _ _ _ g] ai(1) si by (simp add: area_inv_def max_ok_above)
    have len: "blk_size b = buddy_size ! ?i" "blk_mr b = area_mr a" using b by (simp_all add: block_ok_def)
    from b obtain k where k: "blk_addr b = area_base a + k * buddy_size ! ?i" "(k + 1) * buddy_size ! ?i \<le> SINGLE_AREA_SIZE"
      by (auto simp: block_ok_def place_ok_def)
    then have "blk_addr b < 2 ^ 48" using ai(2,3) by simp
    then have "blk_addr b < 2 ^ 64" by (rule less_trans) simp
    then have u: "unat (word_of_nat (blk_addr b) :: 64 word) = blk_addr b" by (simp add: unat_of_nat take_bit_nat_eq_self)
    define mr where "mr = (blk_mr b)\<lparr>mr_addr := word_of_nat (blk_addr b), mr_length := blk_size b\<rparr>"
    define s2 where "s2 = s1\<lparr>areas := (areas s1)(p \<mapsto> a')\<rparr>"
    define s3 where "s3 = print_at s2 (blk_addr b) n ''nvmhhhhhhhh''"
    have m: "unat (mr_addr mr) = blk_addr b" "mr_length mr = buddy_size ! ?i" "lkey mr = lkey (area_mr a')" "rkey mr = rkey (area_mr a')"
      by (simp_all add: mr_def u len t(3))
    have run: "dhmp_malloc_one_block N s n = Inr (Some mr, s3)"
      using ch(1) Some a(1) g by (simp add: dhmp_malloc_one_block_def mr_def s2_def s3_def)
    have s2: "areas s2 = (areas s1)(p \<mapsto> a')" "area_list s2 = area_list s1" "more_area_list s2 = more_area_list s1"
      "cur_area s2 = cur_area s1" "os s2 = os s1" by (simp_all add: s2_def)
    note up2 = srv_inv_upd[OF ch(2) p(1) a(1) t(3,2) s2]
    have same3: "srv_inv allocd regs up s3" "srv_busy s3 = srv_busy s2" "srv_legal s3 = srv_legal s2"
      using srv_same[of s3 s2] up2(1) by (simp_all add: s3_def)
    have "srv_busy s3 x = srv_busy s x + span (unat (mr_addr mr)) (mr_length mr) x" for x
    proof -
      have "area_busy a' x = area_busy a x + span (blk_addr b) (buddy_size ! ?i) x" using t(4) q by simp
      then show ?thesis using up2(2)[of x] same3(2) ch(4) m(1,2) by simp
    qed
    moreover have "srv_legal s3 mr"
    proof -
      have "block_of s2 p mr" using m t(4) q si by (auto simp: block_of_def s2(1) intro!: exI[of _ ?i])
      then show ?thesis using p(1) s2(2) same3(3) by (auto simp: srv_legal_def)
    qed
    moreover have "memory s3 x = memory s x" if "x < blk_addr b \<or> blk_addr b + buddy_size ! ?i \<le> x" for x
      using print_at_memory[of x "blk_addr b" n s2] that si ch(5) by (auto simp: s3_def s2_def)
    moreover have "srv_transports s3 = srv_transports s" "dram_ht s3 = dram_ht s" using ch(6,7) by (simp_all add: s3_def s2_def)
    moreover have "\<forall>mr. srv_legal s mr \<longrightarrow> srv_legal s3 mr" using ch(3) up2(3) same3(3) by simp
    ultimately have "malloc_post allocd regs up s n (Some mr) s3" using same3(1) m si by (simp add: malloc_post_def)
    then show ?thesis using run by blast
  qed
qed

lemma malloc_more_area_ok:
  assumes N: "os_ok N allocd regs up" and inv: "srv_inv allocd regs up s" and n: "n \<le> len" "SINGLE_AREA_SIZE \<le> len"
  shows "\<exists>r s'. dhmp_malloc_more_area N s n len = Inr (r, s') \<and> malloc_post allocd regs up s n r s'"
proof -
  obtain q s1 where ac: "dhmp_area_create N s False len = (q, s1)" by fastforce
  note ok = area_create_ok[OF N srv_inv_core[OF inv] n(2) _ ac]
  have mem: "memory s1 = memory s" "srv_transports s1 = srv_transports s" "dram_ht s1 = dram_ht s"
    using ac by (auto simp: dhmp_area_create_def Let_def split: prod.splits option.splits if_splits)
  show ?thesis
  proof (cases q)
    case None
    then obtain o1 where o1: "s1 = s\<lparr>os := o1\<rparr>" "up o1" "regs o1 = regs (os s)" "allocd o1 = allocd (os s)" using ok by auto
    have "dhmp_malloc_more_area N s n len = Inr (None, s1)" using ac None by (simp add: dhmp_malloc_more_area_def)
    moreover have "malloc_post allocd regs up s n None s1" using srv_inv_os[OF inv o1(2-4)] o1(1) by (simp add: malloc_post_def)
    ultimately show ?thesis by blast
  next
    case (Some p)
    then obtain a where a: "new_area allocd regs up s False len p a s1" using ok by auto
    have ap: "areas s1 p = Some a" "more_area_list s1 = p # more_area_list s" "area_len a = len" using a by (simp_all add: new_area_def)
    define s2 where "s2 = print_at s1 (area_base a) n ''welcomebj''"
    have run: "dhmp_malloc_more_area N s n len = Inr (Some (area_mr a), s2)"
      using ac Some ap(1) by (simp add: dhmp_malloc_more_area_def s2_def area_base_def)
    have same: "srv_inv allocd regs up s2" "srv_busy s2 = srv_busy s1" "srv_legal s2 = srv_legal s1"
      using srv_same[of s2 s1] new_area_inv(1)[OF inv a] by (simp_all add: s2_def)
    have "srv_legal s2 (area_mr a)" using same(3) ap by (auto simp: srv_legal_def area_of_def)
    moreover have "memory s2 x = memory s x" if "x < area_base a \<or> area_base a + len \<le> x" for x
      using print_at_memory[of x "area_base a" n s1] that n(1) mem(1) by (auto simp: s2_def)
    moreover have "srv_transports s2 = srv_transports s" "dram_ht s2 = dram_ht s" using mem by (simp_all add: s2_def)
    ultimately have "malloc_post allocd regs up s n (Some (area_mr a)) s2"
      using same new_area_inv(2,3)[OF inv a] ap(3) n(1) by (simp add: malloc_post_def area_base_def area_len_def)
    then show ?thesis using run by blast
  qed
qed

lemma server_malloc_ok:
  assumes "os_ok N allocd regs up" "srv_inv allocd regs up s"
  shows "\<exists>r s'. server_malloc N s n = Inr (r, s') \<and> malloc_post allocd regs up s n r s'"
  using malloc_one_block_ok[OF assms, of n] malloc_more_area_ok[OF assms, of n SINGLE_AREA_SIZE] malloc_more_area_ok[OF assms, of n n]
  by (auto simp: server_malloc_def)

section \<open>Freeing\<close>

lemma distinct_lkeys:
  assumes "srv_inv allocd regs up s" "p \<in> set (all_areas s)" "q \<in> set (all_areas s)" "p \<noteq> q"
  shows "lkey (area_mr (the (areas s q))) \<noteq> lkey (area_mr (the (areas s p)))"
  using assms by (fastforce simp: srv_inv_def apart_def)

lemma find_lkey_srv:
  assumes inv: "srv_inv allocd regs up s" and p: "p \<in> set ps" "set ps \<subseteq> set (all_areas s)" "areas s p = Some a"
  shows "find_lkey s ps (lkey (area_mr a)) = Inr (Some p)"
proof (rule find_lkey_ok[OF _ p(1,3) refl])
  show "\<forall>p \<in> set ps. \<exists>a. areas s p = Some a" using srv_area[OF inv] p(2) by (metis subsetD)
  show "\<forall>q \<in> set ps. q \<noteq> p \<longrightarrow> lkey (area_mr (the (areas s q))) \<noteq> lkey (area_mr a)"
    using distinct_lkeys[OF inv, of p] p by fastforce
qed


text \<open>Inside the region of one area only that area counts.\<close>

lemma area_busy_out: "area_busy a x \<le> span (area_base a) SINGLE_AREA_SIZE x"
  by (simp add: area_busy_def)

lemma busy_other:
  assumes inv: "srv_inv allocd regs up s" and p: "p \<in> set (all_areas s)" "areas s p = Some a" "span (area_base a) (area_len a) x = 1"
    and q: "q \<in> set (all_areas s)" "q \<noteq> p"
  shows "span (area_base (the (areas s q))) (area_len (the (areas s q))) x = 0" "q \<in> set (area_list s) \<Longrightarrow> area_busy (the (areas s q)) x = 0"
proof -
  have "apart a (the (areas s q))" using inv p q by (fastforce simp: srv_inv_def)
  then show z: "span (area_base (the (areas s q))) (area_len (the (areas s q))) x = 0"
    using p(3) by (auto simp: apart_def span_def split: if_splits)
  assume "q \<in> set (area_list s)"
  then obtain b where "areas s q = Some b" "area_len b = SINGLE_AREA_SIZE" using srv_buddy_area[OF inv] by blast
  then show "area_busy (the (areas s q)) x = 0" using z area_busy_out[of b x] by simp
qed

lemma sum_only:
  assumes "finite A" "p \<in> A" "\<And>q. q \<in> A \<Longrightarrow> q \<noteq> p \<Longrightarrow> f q = (0 :: nat)"
  shows "sum f A = f p"
proof -
  have "sum f (A - {p}) = 0" using assms(3) by (intro sum.neutral) auto
  then show ?thesis by (simp add: sum.remove[OF assms(1,2)])
qed

lemma busy_at:
  assumes inv: "srv_inv allocd regs up s" and p: "p \<in> set (all_areas s)" "areas s p = Some a" "span (area_base a) (area_len a) x = 1"
  shows "srv_busy s x = (if p \<in> set (area_list s) then area_busy a x else 1)"
proof -
  have d: "set (area_list s) \<inter> set (more_area_list s) = {}" using inv by (auto simp: srv_inv_def all_areas_def)
  note other = busy_other[OF inv p]
  show ?thesis
  proof (cases "p \<in> set (area_list s)")
    case True
    have "(\<Sum>q \<in> set (area_list s). area_busy (the (areas s q)) x) = area_busy (the (areas s p)) x"
      by (rule sum_only) (use True other in \<open>auto simp: all_areas_def\<close>)
    moreover have "(\<Sum>q \<in> set (more_area_list s). span (area_base (the (areas s q))) (area_len (the (areas s q))) x) = 0"
      by (rule sum.neutral) (use True d other in \<open>auto simp: all_areas_def\<close>)
    ultimately show ?thesis using True p(2) by (simp add: srv_busy_def)
  next
    case False
    then have m: "p \<in> set (more_area_list s)" using p(1) by (simp add: all_areas_def)
    have "area_busy (the (areas s q)) x = 0" if "q \<in> set (area_list s)" for q
      using other(2)[of q] that False by (cases "q = p") (auto simp: all_areas_def)
    then have "(\<Sum>q \<in> set (area_list s). area_busy (the (areas s q)) x) = 0" by (intro sum.neutral) blast
    moreover have "(\<Sum>q \<in> set (more_area_list s). span (area_base (the (areas s q))) (area_len (the (areas s q))) x)
        = span (area_base (the (areas s p))) (area_len (the (areas s p))) x"
      by (rule sum_only) (use m other in \<open>auto simp: all_areas_def\<close>)
    ultimately show ?thesis using False p(2,3) by (simp add: srv_busy_def)
  qed
qed

lemma srv_busy_le:
  assumes inv: "srv_inv allocd regs up s"
  shows "srv_busy s x \<le> 1"
proof (cases "\<exists>p \<in> set (all_areas s). span (area_base (the (areas s p))) (area_len (the (areas s p))) x = 1")
  case True
  then obtain p where p: "p \<in> set (all_areas s)" "span (area_base (the (areas s p))) (area_len (the (areas s p))) x = 1" by blast
  from srv_area[OF inv p(1)] obtain a where a: "areas s p = Some a" by blast
  have "area_busy a x \<le> 1" using order_trans[OF area_busy_out[of a x] span_le] .
  then show ?thesis using busy_at[OF inv p(1) a, of x] p(2) a by simp
next
  case False
  then have z: "span (area_base (the (areas s p))) (area_len (the (areas s p))) x = 0" if "p \<in> set (all_areas s)" for p
    using that span_le[of "area_base (the (areas s p))" "area_len (the (areas s p))" x] by fastforce
  have "area_busy (the (areas s p)) x = 0" if "p \<in> set (area_list s)" for p
  proof -
    have p: "p \<in> set (all_areas s)" using that by (simp add: all_areas_def)
    from srv_buddy_area[OF inv that] obtain b where "areas s p = Some b" "area_len b = SINGLE_AREA_SIZE" by blast
    then show ?thesis using z[OF p] area_busy_out[of b x] by simp
  qed
  then have "(\<Sum>q \<in> set (area_list s). area_busy (the (areas s q)) x) = 0" by (intro sum.neutral) auto
  moreover have "(\<Sum>q \<in> set (more_area_list s). span (area_base (the (areas s q))) (area_len (the (areas s q))) x) = 0"
    by (rule sum.neutral) (use z in \<open>auto simp: all_areas_def\<close>)
  ultimately show ?thesis by (simp add: srv_busy_def)
qed

definition free_post :: "('o \<Rightarrow> (nat \<times> nat) set) \<Rightarrow> ('o \<Rightarrow> ibv_mr set) \<Rightarrow> ('o \<Rightarrow> bool) \<Rightarrow> 'o dhmp_server \<Rightarrow> ibv_mr \<Rightarrow> 'o dhmp_server \<Rightarrow> bool" where
  "free_post allocd regs up s mr s' \<longleftrightarrow> srv_inv allocd regs up s' \<and>
     (\<forall>x. srv_busy s' x + span (unat (mr_addr mr)) (mr_length mr) x = srv_busy s x) \<and>
     (\<forall>mr'. srv_legal s mr' \<longrightarrow> (\<forall>x. span (unat (mr_addr mr)) (mr_length mr) x + span (unat (mr_addr mr')) (mr_length mr') x \<le> 1) \<longrightarrow> srv_legal s' mr') \<and>
     memory s' = memory s \<and> srv_transports s' = srv_transports s \<and> dram_ht s' = dram_ht s"

lemma buddy_size_le: "i < MAX_ORDER \<Longrightarrow> buddy_size ! i \<le> buddy_size ! (MAX_ORDER - 1)"
  unfolding less_MAX_ORDER by (elim disjE) (simp_all add: buddy_size_def MAX_ORDER_def)

lemma free_block_ok:
  assumes inv: "srv_inv allocd regs up s" and p: "p \<in> set (area_list s)" "block_of s p mr"
    and out: "\<forall>x. span (unat (mr_addr mr)) (mr_length mr) x \<le> srv_busy s x"
  shows "\<exists>s'. server_free N s mr = Inr s' \<and> free_post allocd regs up s mr s'"
proof -
  from p(2) obtain a i where a: "areas s p = Some a" "lkey mr = lkey (area_mr a)" "i < MAX_ORDER" "mr_length mr = buddy_size ! i"
    "place_ok a i (unat (mr_addr mr))" by (auto simp: block_of_def)
  have pa: "p \<in> set (all_areas s)" using p(1) by (simp add: all_areas_def)
  from srv_buddy_area[OF inv p(1)] a(1) have f: "area_inv a" "area_len a = SINGLE_AREA_SIZE" by auto
  from a(5) obtain k where k: "unat (mr_addr mr) = area_base a + k * buddy_size ! i" "(k + 1) * buddy_size ! i \<le> SINGLE_AREA_SIZE"
    by (auto simp: place_ok_def)
  have "span (unat (mr_addr mr)) (buddy_size ! i) x \<le> area_busy a x" for x
  proof (cases "span (unat (mr_addr mr)) (buddy_size ! i) x = 0")
    case False
    then have "span (area_base a) (area_len a) x = 1" using k f(2) by (auto simp: span_def split: if_splits)
    then show ?thesis using busy_at[OF inv pa a(1), of x] p(1) out a(4) by (metis)
  qed simp
  then have "\<forall>x. span (fst (unat (mr_addr mr), i)) (buddy_size ! snd (unat (mr_addr mr), i)) x \<le> area_busy a x" by simp
  from area_give_ok[OF f(1) _ this] a(5) obtain a' where g: "area_give a (unat (mr_addr mr), i) = Inr a'" "area_inv a'" "area_mr a' = area_mr a"
    "\<forall>x. area_busy a' x + span (unat (mr_addr mr)) (buddy_size ! i) x = area_busy a x" by auto
  have fk: "find_lkey s (area_list s) (lkey mr) = Inr (Some p)"
    using find_lkey_srv[OF inv p(1) _ a(1)] a(2) by (simp add: all_areas_def)
  define s' where "s' = s\<lparr>areas := (areas s)(p \<mapsto> a')\<rparr>"
  have s': "areas s' = (areas s)(p \<mapsto> a')" "area_list s' = area_list s" "more_area_list s' = more_area_list s" "cur_area s' = cur_area s" "os s' = os s"
    by (simp_all add: s'_def)
  have run: "server_free N s mr = Inr s'"
    using g(1) a(1,4) buddy_size_le[OF a(3)] fk by (simp add: server_free_def dhmp_free_one_block_def area_give_def s'_def)
  note u = srv_inv_upd[OF inv p(1) a(1) g(3,2) s']
  have "srv_busy s' x + span (unat (mr_addr mr)) (mr_length mr) x = srv_busy s x" for x
    using u(2)[of x] spec[OF g(4), of x] a(4) by simp
  then show ?thesis using run u(1,3) by (auto simp: free_post_def s'_def)
qed


lemma legal_more:
  assumes "p \<in> set (more_area_list s)" "areas s p = Some a" "distinct (more_area_list s)"
    and "\<And>q. q \<noteq> p \<Longrightarrow> areas s' q = areas s q" "set (area_list s) \<subseteq> set (area_list s')" "more_area_list s' = remove1 p (more_area_list s)"
    and "p \<notin> set (area_list s)" "0 < area_len a" "srv_legal s mr'" "\<forall>x. span (area_base a) (area_len a) x + span (unat (mr_addr mr')) (mr_length mr') x \<le> 1"
  shows "srv_legal s' mr'"
proof -
  have "\<not> area_of s p mr'"
  proof
    assume "area_of s p mr'"
    then have "span (area_base a) (area_len a) (area_base a) + span (area_base a) (area_len a) (area_base a) \<le> 1"
      using assms(2,10) by (auto simp: area_of_def area_base_def area_len_def)
    then show False using assms(8) by (simp add: span_def)
  qed
  then consider q where "q \<in> set (area_list s)" "block_of s q mr'" | q where "q \<in> set (more_area_list s)" "q \<noteq> p" "area_of s q mr'"
    using assms(9) by (auto simp: srv_legal_def)
  then show ?thesis
  proof cases
    case 1
    then have "q \<noteq> p" using assms(7) by blast
    then have "block_of s' q mr'" using 1(2) assms(4)[of q] by (simp add: block_of_def)
    then show ?thesis using 1 assms(5) by (auto simp: srv_legal_def)
  next
    case 2
    then have "area_of s' q mr'" using assms(4)[of q] by (simp add: area_of_def)
    then show ?thesis using 2 assms(3,6) by (auto simp: srv_legal_def)
  qed
qed

lemma busy_more:
  assumes "p \<in> set (more_area_list s)" "areas s p = Some a" "distinct (all_areas s)"
    and "\<And>q. q \<noteq> p \<Longrightarrow> areas s' q = areas s q" "more_area_list s' = remove1 p (more_area_list s)"
    and "area_list s' = area_list s \<or> area_list s' = p # area_list s \<and> area_busy (the (areas s' p)) x = 0"
  shows "srv_busy s' x + span (area_base a) (area_len a) x = srv_busy s x"
proof -
  have d: "distinct (more_area_list s)" "p \<notin> set (area_list s)" using assms(1,3) by (auto simp: all_areas_def)
  have "(\<Sum>q \<in> set (area_list s). area_busy (the (areas s' q)) x) = (\<Sum>q \<in> set (area_list s). area_busy (the (areas s q)) x)"
  proof (rule sum.cong)
    fix q assume "q \<in> set (area_list s)"
    then have "q \<noteq> p" using d(2) by blast
    then show "area_busy (the (areas s' q)) x = area_busy (the (areas s q)) x" using assms(4) by simp
  qed simp
  then have 1: "(\<Sum>q \<in> set (area_list s'). area_busy (the (areas s' q)) x) = (\<Sum>q \<in> set (area_list s). area_busy (the (areas s q)) x)"
    using assms(6) d by auto
  have "set (remove1 p (more_area_list s)) = set (more_area_list s) - {p}" using d by simp
  moreover have "(\<Sum>q \<in> set (more_area_list s) - {p}. span (area_base (the (areas s' q))) (area_len (the (areas s' q))) x) =
      (\<Sum>q \<in> set (more_area_list s) - {p}. span (area_base (the (areas s q))) (area_len (the (areas s q))) x)"
    by (rule sum.cong) (use assms(4) in auto)
  moreover have "finite (set (more_area_list s))" by simp
  ultimately show ?thesis using assms(1,2) 1 by (simp add: srv_busy_def assms(5) sum.remove[of "set (more_area_list s)" p])
qed

lemma free_one_area_ok:
  assumes inv: "srv_inv allocd regs up s" and p: "p \<in> set (more_area_list s)" "areas s p = Some a" and len: "area_len a = SINGLE_AREA_SIZE"
  shows "\<exists>s'. server_free N s (area_mr a) = Inr s' \<and> free_post allocd regs up s (area_mr a) s'"
proof -
  have dist: "distinct (all_areas s)" using inv by (simp add: srv_inv_def)
  have pa: "p \<in> set (all_areas s)" "p \<notin> set (area_list s)" "distinct (more_area_list s)" using p(1) dist by (auto simp: all_areas_def)
  from srv_area[OF inv pa(1)] p(2) have f: "area_fine allocd regs s p a" by auto
  define a' where "a' = (dhmp_buddy_system_build a)\<lparr>max_index := int MAX_ORDER - 1\<rparr>"
  define s' where "s' = s\<lparr>areas := (areas s)(p \<mapsto> a'), more_area_list := remove1 p (more_area_list s), area_list := p # area_list s\<rparr>"
  have build: "a' = dhmp_buddy_system_build (a\<lparr>max_index := int MAX_ORDER - 1\<rparr>)"
    by (simp add: a'_def dhmp_buddy_system_build_def MAX_ORDER_Suc area_base_def upt_rec Let_def)
  have a': "area_mr a' = area_mr a" "area_inv a'" "area_busy a' x = 0" for x
    using area_inv_build[of "a\<lparr>max_index := int MAX_ORDER - 1\<rparr>"] by (simp_all add: build build_lists)
  have bl: "area_base a' = area_base a" "area_len a' = area_len a" using a'(1) by (simp_all add: area_base_def area_len_def)
  have fk: "find_lkey s (more_area_list s) (lkey (area_mr a)) = Inr (Some p)"
    by (rule find_lkey_srv[OF inv p(1) _ p(2)]) (simp add: all_areas_def)
  have ml: "mr_length (area_mr a) = SINGLE_AREA_SIZE" using len by (simp add: area_len_def)
  have run: "server_free N s (area_mr a) = Inr s'"
    using p(2) fk ml by (simp add: server_free_def dhmp_free_one_area_def s'_def a'_def buddy_size_def MAX_ORDER_def SINGLE_AREA_SIZE_def)
  have sel: "areas s' = (areas s)(p \<mapsto> a')" "more_area_list s' = remove1 p (more_area_list s)" "area_list s' = p # area_list s" "os s' = os s"
    by (simp_all add: s'_def)
  have set': "set (all_areas s') = set (all_areas s)" "distinct (all_areas s')"
    using dist p(1) pa(2,3) by (auto simp: all_areas_def sel)
  have ap: "apart (the (areas s' q)) (the (areas s' r)) = apart (the (areas s q)) (the (areas s r))" for q r
    using p(2) a'(1) bl by (auto simp: apart_def sel)
  have "\<exists>b. areas s' q = Some b \<and> area_fine allocd regs s' q b" if "q \<in> set (all_areas s)" for q
  proof (cases "q = p")
    case True
    then show ?thesis using f a' bl len by (auto simp: area_fine_def sel)
  next
    case False
    from srv_area[OF inv that] obtain b where "areas s q = Some b" "area_fine allocd regs s q b" by blast
    then show ?thesis using False by (auto simp: area_fine_def sel)
  qed
  moreover have "\<exists>c. cur_area s' = Some c \<and> c \<in> set (area_list s')" using inv by (auto simp: srv_inv_def s'_def)
  ultimately have "srv_inv allocd regs up s'" using inv set' by (simp add: srv_inv_def ap) (simp add: sel)
  moreover have "srv_busy s' x + span (area_base a) (area_len a) x = srv_busy s x" for x
    by (rule busy_more[OF p dist]) (use a'(3) in \<open>simp_all add: sel\<close>)
  moreover have "srv_legal s' mr'" if "srv_legal s mr'" "\<forall>x. span (area_base a) (area_len a) x + span (unat (mr_addr mr')) (mr_length mr') x \<le> 1" for mr'
    by (rule legal_more[OF p pa(3) _ _ _ pa(2) area_pos[OF f] that]) (auto simp: sel)
  ultimately have "free_post allocd regs up s (area_mr a) s'" by (simp add: free_post_def area_base_def area_len_def s'_def)
  then show ?thesis using run by blast
qed

lemma free_more_area_ok:
  assumes N: "os_ok N allocd regs up" and inv: "srv_inv allocd regs up s" and p: "p \<in> set (more_area_list s)" "areas s p = Some a"
    and len: "SINGLE_AREA_SIZE < area_len a"
  shows "\<exists>s'. server_free N s (area_mr a) = Inr s' \<and> free_post allocd regs up s (area_mr a) s'"
proof -
  have dist: "distinct (all_areas s)" and up0: "up (os s)" using inv by (simp_all add: srv_inv_def)
  have pa: "p \<in> set (all_areas s)" "p \<notin> set (area_list s)" "distinct (more_area_list s)" using p(1) dist by (auto simp: all_areas_def)
  from srv_area[OF inv pa(1)] p(2) have f: "area_fine allocd regs s p a" by auto
  define o1 where "o1 = ibv_dereg_mr N (os s) (area_mr a)"
  define o2 where "o2 = numa_free N o1 (mr_addr (area_mr a)) (area_len a)"
  define o3 where "o3 = numa_free N o2 (word_of_nat p) sizeof_dhmp_area"
  have "p < 2 ^ 64" by (rule less_trans[of _ "2 ^ 48"]) (use f in \<open>simp_all add: area_fine_def\<close>)
  then have u: "unat (word_of_nat p :: 64 word) = p" by (simp add: unat_of_nat take_bit_nat_eq_self)
  have o1: "up o1" "allocd o1 = allocd (os s)" "regs o1 = regs (os s) - {area_mr a}" using os_dereg[OF N up0] by (simp_all add: o1_def)
  have o2: "up o2" "allocd o2 = allocd (os s) - {(area_base a, area_len a)}" "regs o2 = regs (os s) - {area_mr a}"
    using os_free[OF N o1(1)] o1 by (simp_all add: o2_def area_base_def)
  have o3: "up o3" "allocd o3 = allocd (os s) - {(area_base a, area_len a), (p, sizeof_dhmp_area)}" "regs o3 = regs (os s) - {area_mr a}"
    using os_free[OF N o2(1)] o2 u by (auto simp add: o3_def)
  define s' where "s' = s\<lparr>os := o3, areas := (areas s)(p := None), more_area_list := remove1 p (more_area_list s)\<rparr>"
  have fk: "find_lkey s (more_area_list s) (lkey (area_mr a)) = Inr (Some p)"
    by (rule find_lkey_srv[OF inv p(1) _ p(2)]) (simp add: all_areas_def)
  have big: "\<not> mr_length (area_mr a) \<le> buddy_size ! (MAX_ORDER - 1)" "\<not> mr_length (area_mr a) \<le> SINGLE_AREA_SIZE"
    using len by (simp_all add: area_len_def buddy_size_def MAX_ORDER_def SINGLE_AREA_SIZE_def)
  have run: "server_free N s (area_mr a) = Inr s'"
    using p(2) fk big by (simp add: server_free_def dhmp_free_more_area_def s'_def o3_def o2_def o1_def Let_def area_len_def)
  have sel: "areas s' = (areas s)(p := None)" "more_area_list s' = remove1 p (more_area_list s)" "area_list s' = area_list s" "os s' = o3"
    by (simp_all add: s'_def)
  have set': "set (all_areas s') = set (all_areas s) - {p}" "distinct (all_areas s')"
    using dist p(1) pa(2,3) by (auto simp: all_areas_def sel)
  have "\<exists>b. areas s' q = Some b \<and> area_fine allocd regs s' q b" if q: "q \<in> set (all_areas s)" "q \<noteq> p" for q
  proof -
    from srv_area[OF inv q(1)] obtain b where b: "areas s q = Some b" "area_fine allocd regs s q b" by blast
    have "apart a b" using inv pa(1) q p(2) b(1) by (fastforce simp: srv_inv_def)
    then have "area_mr b \<noteq> area_mr a" "area_base b \<noteq> area_base a" using area_pos[OF b(2)] area_pos[OF f] by (auto simp: apart_def)
    moreover have "area_len b \<noteq> sizeof_dhmp_area" "area_len a \<noteq> sizeof_dhmp_area"
      using b(2) len by (auto simp: area_fine_def SINGLE_AREA_SIZE_def sizeof_dhmp_area_def)
    ultimately show ?thesis using b q(2) o3 by (auto simp: area_fine_def sel)
  qed
  moreover have "apart (the (areas s' q)) (the (areas s' r))" if "q \<in> set (all_areas s) - {p}" "r \<in> set (all_areas s) - {p}" "q \<noteq> r" for q r
    using that inv by (auto simp: srv_inv_def sel)
  moreover have "\<exists>c. cur_area s' = Some c \<and> c \<in> set (area_list s')" using inv by (auto simp: srv_inv_def s'_def)
  ultimately have "srv_inv allocd regs up s'" using o3(1) set' by (simp add: srv_inv_def sel(4))
  moreover have "srv_busy s' x + span (area_base a) (area_len a) x = srv_busy s x" for x
    by (rule busy_more[OF p dist]) (simp_all add: sel)
  moreover have "srv_legal s' mr'" if "srv_legal s mr'" "\<forall>x. span (area_base a) (area_len a) x + span (unat (mr_addr mr')) (mr_length mr') x \<le> 1" for mr'
    by (rule legal_more[OF p pa(3) _ _ _ pa(2) area_pos[OF f] that]) (auto simp: sel)
  ultimately have "free_post allocd regs up s (area_mr a) s'" by (simp add: free_post_def area_base_def area_len_def s'_def)
  then show ?thesis using run by blast
qed

lemma server_free_ok:
  assumes N: "os_ok N allocd regs up" and inv: "srv_inv allocd regs up s" and l: "srv_legal s mr"
    and out: "\<forall>x. span (unat (mr_addr mr)) (mr_length mr) x \<le> srv_busy s x"
  shows "\<exists>s'. server_free N s mr = Inr s' \<and> free_post allocd regs up s mr s'"
proof -
  consider p where "p \<in> set (area_list s)" "block_of s p mr" | p a where "p \<in> set (more_area_list s)" "areas s p = Some a" "mr = area_mr a"
    using l by (auto simp: srv_legal_def area_of_def)
  then show ?thesis
  proof cases
    case 1
    then show ?thesis using free_block_ok[OF inv _ _ out] by blast
  next
    case 2
    have "p \<in> set (all_areas s)" using 2(1) by (simp add: all_areas_def)
    then have "SINGLE_AREA_SIZE \<le> area_len a" using srv_area[OF inv] 2(2) by (metis area_fine_def option.inject)
    then show ?thesis using free_one_area_ok[OF inv 2(1,2)] free_more_area_ok[OF N inv 2(1,2)] 2(3) by (cases "area_len a = SINGLE_AREA_SIZE") auto
  qed
qed


section \<open>The server's allocator as a heap of regions\<close>

definition handed_out :: "'o dhmp_server \<Rightarrow> ibv_mr \<Rightarrow> bool" where
  "handed_out s mr \<longleftrightarrow> srv_legal s mr \<and> 0 < mr_length mr"

lemma server_heap:
  assumes N: "os_ok N allocd regs up"
  shows "region_heap (server_malloc N) (server_free N) (\<lambda>n. True) (\<lambda>mr. unat (mr_addr mr)) mr_length srv_busy handed_out (srv_inv allocd regs up)"
proof
  fix s :: "'a dhmp_server" and x
  assume "srv_inv allocd regs up s"
  then show "srv_busy s x \<le> 1" by (rule srv_busy_le)
next
  fix s :: "'a dhmp_server" and r
  assume "handed_out s r"
  then show "0 < mr_length r" by (simp add: handed_out_def)
next
  fix s :: "'a dhmp_server" and q :: nat
  assume inv: "srv_inv allocd regs up s"
  from server_malloc_ok[OF N inv, of q] obtain r s' where m: "server_malloc N s q = Inr (r, s')" "malloc_post allocd regs up s q r s'" by blast
  have "case r of None \<Rightarrow> srv_busy s' = srv_busy s
     | Some r \<Rightarrow> handed_out s' r \<and> (\<forall>x. srv_busy s' x = srv_busy s x + span (unat (mr_addr r)) (mr_length r) x)"
    using m(2) legal_inside[of allocd regs up s'] by (auto simp: malloc_post_def handed_out_def split: option.splits)
  then show "\<exists>r s'. server_malloc N s q = Inr (r, s') \<and> srv_inv allocd regs up s' \<and> (\<forall>r'. handed_out s r' \<longrightarrow> handed_out s' r') \<and>
     (case r of None \<Rightarrow> srv_busy s' = srv_busy s
      | Some r \<Rightarrow> handed_out s' r \<and> (\<forall>x. srv_busy s' x = srv_busy s x + span (unat (mr_addr r)) (mr_length r) x))"
    using m by (auto simp: malloc_post_def handed_out_def)
next
  fix s :: "'a dhmp_server" and r
  assume "srv_inv allocd regs up s" "handed_out s r" "\<forall>x. span (unat (mr_addr r)) (mr_length r) x \<le> srv_busy s x"
  then obtain s' where "server_free N s r = Inr s'" "free_post allocd regs up s r s'"
    using server_free_ok[OF N] by (metis handed_out_def)
  then show "\<exists>s'. server_free N s r = Inr s' \<and> srv_inv allocd regs up s' \<and>
      (\<forall>x. srv_busy s' x + span (unat (mr_addr r)) (mr_length r) x = srv_busy s x) \<and>
      (\<forall>r'. handed_out s r' \<longrightarrow> (\<forall>x. span (unat (mr_addr r)) (mr_length r) x + span (unat (mr_addr r')) (mr_length r') x \<le> 1) \<longrightarrow> handed_out s' r')"
    by (auto simp: free_post_def handed_out_def)
qed

section \<open>Starting a server\<close>

text \<open>
  \<open>dhmp_server_init\<close> after the configuration is read: \<open>listen\<close> says whether the listening transport could
  be set up; the first area becomes the current one, \<open>NULL\<close> when it cannot be had.
\<close>

definition empty_server :: "'o \<Rightarrow> buf \<Rightarrow> (nat \<Rightarrow> dhmp_transport) \<Rightarrow> (nat \<Rightarrow> byte list) \<Rightarrow> int \<Rightarrow> int \<Rightarrow> 'o dhmp_server" where
  "empty_server o0 m ts fmt dram nvm =
     \<lparr>areas = (\<lambda>p. None), cur_area = None, area_list = [], more_area_list = [], dram_ht = (\<lambda>i. []), srv_transports = ts,
      watcher_trans = None, client_list = [], cur_connections = 0, srv_dram_used_size = 0, dram_total_size = dram,
      nvm_total_size = nvm, memory = m, fmt_ptr = fmt, fmt_pos = 0, os = o0\<rparr>"

definition dhmp_server_init :: "'o numa_os \<Rightarrow> bool \<Rightarrow> 'o \<Rightarrow> buf \<Rightarrow> (nat \<Rightarrow> dhmp_transport) \<Rightarrow> (nat \<Rightarrow> byte list) \<Rightarrow> int \<Rightarrow> int \<Rightarrow> 'o dhmp_server res" where
  "dhmp_server_init N listen o0 m ts fmt dram nvm =
     (if \<not> listen then Inl Process_exit
      else case dhmp_area_create N (empty_server o0 m ts fmt dram nvm) True SINGLE_AREA_SIZE of
             (r, s) \<Rightarrow> Inr (s\<lparr>cur_area := r\<rparr>))"

lemma server_init_ok:
  assumes N: "os_ok N allocd regs up" and up: "up o0" and i: "dhmp_server_init N listen o0 m ts fmt dram nvm = Inr s" "cur_area s \<noteq> None"
  shows "srv_inv allocd regs up s" "srv_busy s x = 0" "srv_transports s = ts" "memory s = m" "dram_ht s = (\<lambda>i. [])"
proof -
  let ?e = "empty_server o0 m ts fmt dram nvm"
  have core: "srv_core allocd regs up ?e" using up by (simp add: srv_core_def empty_server_def all_areas_def)
  obtain r s1 where c: "dhmp_area_create N ?e True SINGLE_AREA_SIZE = (r, s1)" by fastforce
  have s: "s = s1\<lparr>cur_area := r\<rparr>" using i(1) c by (simp add: dhmp_server_init_def split: if_splits)
  then obtain p where p: "r = Some p" using i(2) by auto
  from area_create_ok[OF N core order.refl refl c] p obtain a where a: "new_area allocd regs up ?e True SINGLE_AREA_SIZE p a s1" by auto
  have sel: "areas s p = Some a" "area_list s = [p]" "more_area_list s = []" "os s = os s1" "area_busy a y = 0" "area_fine allocd regs s1 p a"
    "up (os s1)" for y
    using a by (simp_all add: new_area_def s empty_server_def)
  have "area_list s1 = [p]" using a by (simp add: new_area_def empty_server_def)
  then have "area_fine allocd regs s p a = area_fine allocd regs s1 p a" using sel(2,4) by (simp add: area_fine_def)
  then have "area_fine allocd regs s p a" using sel(6) by simp
  then show "srv_inv allocd regs up s" using sel by (simp add: srv_inv_def all_areas_def) (simp add: s p)
  show "srv_busy s x = 0" using sel by (simp add: srv_busy_def)
  show "srv_transports s = ts" "memory s = m" "dram_ht s = (\<lambda>i. [])"
    using c s p by (auto simp: dhmp_area_create_def Let_def empty_server_def split: prod.splits option.splits if_splits)
qed

section \<open>A machine\<close>

text \<open>
  A machine that keeps the promises: it hands out ever higher addresses and ever new keys. The laws are
  satisfiable, and the server can be run on it.
\<close>

record machine =
  brk :: nat
  next_key :: nat
  ranges :: "(nat \<times> nat) list"
  mrs :: "ibv_mr list"

definition machine_os :: "machine numa_os" where
  "machine_os =
     \<lparr>numa_alloc_onnode = (\<lambda>h n. if brk h + n < 2 ^ 47 then (word_of_nat (brk h), h\<lparr>brk := brk h + n, ranges := (brk h, n) # ranges h\<rparr>) else (0, h)),
      numa_free = (\<lambda>h a n. h\<lparr>ranges := removeAll (unat a, n) (ranges h)\<rparr>),
      ibv_reg_mr = (\<lambda>h a n. let mr = \<lparr>mr_addr = a, mr_length = n, lkey = next_key h, rkey = next_key h\<rparr>
                            in (Some mr, h\<lparr>next_key := Suc (next_key h), mrs := mr # mrs h\<rparr>)),
      ibv_dereg_mr = (\<lambda>h mr. h\<lparr>mrs := removeAll mr (mrs h)\<rparr>)\<rparr>"

definition machine_up :: "machine \<Rightarrow> bool" where
  "machine_up h \<longleftrightarrow> 0 < brk h \<and> (\<forall>(p, n) \<in> set (ranges h). p + n \<le> brk h) \<and> (\<forall>mr \<in> set (mrs h). lkey mr < next_key h \<and> rkey mr < next_key h)"

lemma machine_os_ok: "os_ok machine_os (\<lambda>h. set (ranges h)) (\<lambda>h. set (mrs h)) machine_up"
proof -
  have "os_alloc_ok machine_os (\<lambda>h. set (ranges h)) (\<lambda>h. set (mrs h)) machine_up"
    unfolding os_alloc_ok_def
  proof (intro allI impI)
    fix h n a h1
    assume h: "machine_up h" "(0 :: nat) < n" "numa_alloc_onnode machine_os h n = (a, h1)"
    show "machine_up h1 \<and> set (mrs h1) = set (mrs h) \<and>
      (if a = 0 then set (ranges h1) = set (ranges h)
       else unat a + n < 2 ^ 48 \<and> (\<forall>(p, m) \<in> set (ranges h). unat a + n \<le> p \<or> p + m \<le> unat a) \<and> set (ranges h1) = insert (unat a, n) (set (ranges h)))"
    proof (cases "brk h + n < 2 ^ 47")
      case False
      then show ?thesis using h by (simp add: machine_os_def)
    next
      case True
      then have u: "unat (word_of_nat (brk h) :: 64 word) = brk h" by (simp add: unat_of_nat take_bit_nat_eq_self)
      have e: "a = word_of_nat (brk h)" "h1 = h\<lparr>brk := brk h + n, ranges := (brk h, n) # ranges h\<rparr>" using h(3) True by (simp_all add: machine_os_def)
      have "a \<noteq> 0" using u e(1) h(1) by (metis machine_up_def less_numeral_extra(3) unat_0)
      moreover have "machine_up h1" using h(1) e(2) by (auto simp: machine_up_def)
      ultimately show ?thesis using u e True h(1) by (auto simp: machine_up_def)
    qed
  qed
  moreover have "os_reg_ok machine_os (\<lambda>h. set (ranges h)) (\<lambda>h. set (mrs h)) machine_up"
    unfolding os_reg_ok_def machine_os_def by (auto simp: machine_up_def Let_def less_Suc_eq)
  ultimately show ?thesis by (auto simp: os_ok_def machine_os_def machine_up_def)
qed

interpretation server: region_heap "server_malloc machine_os" "server_free machine_os" "\<lambda>n. True" "\<lambda>mr. unat (mr_addr mr)" mr_length
  srv_busy handed_out "srv_inv (\<lambda>h. set (ranges h)) (\<lambda>h. set (mrs h)) machine_up"
  by (rule server_heap[OF machine_os_ok])


section \<open>Properties\<close>

text \<open>C19: from the start of a server on, any history of allocations of any size and of frees of regions
  handed out and not yet freed runs without a fault. After it the regions handed out are pairwise
  disjoint, and each is non-empty and lies in a region the server has registered under the same remote
  key, below \<open>2 ^ 48\<close>, so that an address fits into the low bits of a cluster address.\<close>

theorem server_history:
  assumes "os_ok N allocd regs up" "up o0" "dhmp_server_init N listen o0 m ts fmt dram nvm = Inr s" "cur_area s \<noteq> None"
  shows "\<exists>s' rs. region_heap.history (server_malloc N) (server_free N) (s, []) evs = Inr (s', rs) \<and>
    (\<forall>i < length rs. \<forall>j < length rs. i \<noteq> j \<longrightarrow>
       unat (mr_addr (rs ! i)) + mr_length (rs ! i) \<le> unat (mr_addr (rs ! j)) \<or>
       unat (mr_addr (rs ! j)) + mr_length (rs ! j) \<le> unat (mr_addr (rs ! i))) \<and>
    (\<forall>mr \<in> set rs. 0 < mr_length mr \<and> 0 < unat (mr_addr mr) \<and> inside_reg (regs (os s')) mr)"
proof -
  note heap = server_heap[OF assms(1)]
  note init = server_init_ok[OF assms(1,2,3,4)]
  have h0: "region_heap.holds (\<lambda>mr. unat (mr_addr mr)) mr_length srv_busy handed_out (srv_inv allocd regs up) s []"
    using init(1,2) by (simp add: region_heap.holds_def[OF heap] region_heap.cover_simps(1)[OF heap])
  from region_heap.history_ok[OF heap h0, of evs] obtain s' rs where
    run: "region_heap.history (server_malloc N) (server_free N) (s, []) evs = Inr (s', rs)" and
    h: "region_heap.holds (\<lambda>mr. unat (mr_addr mr)) mr_length srv_busy handed_out (srv_inv allocd regs up) s' rs" by auto
  have inv: "srv_inv allocd regs up s'" "\<forall>r \<in> set rs. handed_out s' r" using h by (simp_all add: region_heap.holds_def[OF heap])
  then have "\<forall>mr \<in> set rs. 0 < mr_length mr \<and> 0 < unat (mr_addr mr) \<and> inside_reg (regs (os s')) mr"
    using legal_inside[OF inv(1)] by (auto simp: handed_out_def)
  then show ?thesis using run region_heap.holds_disjoint[OF heap h] by blast
qed

text \<open>A server on the machine above.\<close>

definition idle_transport :: dhmp_transport where
  "idle_transport = \<lparr>peer_addr = \<lparr>sin_addr = 0, sin_port = 0\<rparr>, local_addr = \<lparr>sin_addr = 0, sin_port = 0\<rparr>, node_id = 0,
     trans_state = DHMP_TRANSPORT_STATE_CONNECTED, dcq = None, qp = None, event_channel = None, cm_id = None,
     send_mr = Some \<lparr>cur_pos = 0, dmr_addr = 0, dmr_lkey = 0\<rparr>, recv_mr = None, is_poll_qp = False, link_trans = None,
     dram_used_size = 0, nvm_used_size = 0\<rparr>"

definition fresh_machine :: machine where
  "fresh_machine = \<lparr>brk = 4096, next_key = 1, ranges = [], mrs = []\<rparr>"

definition sample_server :: "machine dhmp_server" where
  "sample_server = (case dhmp_server_init machine_os True fresh_machine (\<lambda>x. 0) (\<lambda>t. idle_transport) (\<lambda>i. []) 0 0 of Inr s \<Rightarrow> s)"

lemma sample_server_init:
  "dhmp_server_init machine_os True fresh_machine (\<lambda>x. 0) (\<lambda>t. idle_transport) (\<lambda>i. []) 0 0 = Inr sample_server"
  "cur_area sample_server \<noteq> None" "machine_up fresh_machine"
proof -
  have "word_of_nat 4096 \<noteq> (0 :: 64 word)" "word_of_nat (4096 + SINGLE_AREA_SIZE) \<noteq> (0 :: 64 word)" by (simp_all add: SINGLE_AREA_SIZE_def)
  then show "dhmp_server_init machine_os True fresh_machine (\<lambda>x. 0) (\<lambda>t. idle_transport) (\<lambda>i. []) 0 0 = Inr sample_server"
    "cur_area sample_server \<noteq> None"
    by (simp_all add: sample_server_def dhmp_server_init_def dhmp_area_create_def machine_os_def fresh_machine_def empty_server_def
        SINGLE_AREA_SIZE_def sizeof_dhmp_area_def Let_def)
qed (simp add: machine_up_def fresh_machine_def)

theorem server_history_witness:
  "\<exists>s' rs. region_heap.history (server_malloc machine_os) (server_free machine_os) (sample_server, []) [Inl 100, Inl 4194304, Inl 2000000, Inr 1, Inl 100] = Inr (s', rs) \<and>
    (\<forall>i < length rs. \<forall>j < length rs. i \<noteq> j \<longrightarrow>
       unat (mr_addr (rs ! i)) + mr_length (rs ! i) \<le> unat (mr_addr (rs ! j)) \<or>
       unat (mr_addr (rs ! j)) + mr_length (rs ! j) \<le> unat (mr_addr (rs ! i))) \<and>
    (\<forall>mr \<in> set rs. 0 < mr_length mr \<and> 0 < unat (mr_addr mr) \<and> inside_reg (set (mrs (os s'))) mr)"
  by (rule server_history[OF machine_os_ok sample_server_init(3,1,2)])

text \<open>An allocation returns; on success the region is at least as long as requested, overlaps no
  region handed out before, and memory outside it is untouched (inside it a text is printed).\<close>

theorem malloc_gives:
  assumes "os_ok N allocd regs up" "srv_inv allocd regs up s"
  shows "\<exists>r s'. server_malloc N s n = Inr (r, s') \<and> srv_inv allocd regs up s' \<and>
    (case r of
       None \<Rightarrow> srv_busy s' = srv_busy s \<and> memory s' = memory s
     | Some mr \<Rightarrow> n \<le> mr_length mr \<and> inside_reg (regs (os s')) mr \<and>
         (\<forall>x. unat (mr_addr mr) \<le> x \<and> x < unat (mr_addr mr) + mr_length mr \<longrightarrow> srv_busy s x = 0 \<and> srv_busy s' x = 1) \<and>
         (\<forall>x. x < unat (mr_addr mr) \<or> unat (mr_addr mr) + mr_length mr \<le> x \<longrightarrow> srv_busy s' x = srv_busy s x \<and> memory s' x = memory s x))"
proof -
  from server_malloc_ok[OF assms, of n] obtain r s' where m: "server_malloc N s n = Inr (r, s')" "malloc_post allocd regs up s n r s'" by blast
  have inv: "srv_inv allocd regs up s'" using m(2) by (simp add: malloc_post_def)
  have "case r of
       None \<Rightarrow> srv_busy s' = srv_busy s \<and> memory s' = memory s
     | Some mr \<Rightarrow> n \<le> mr_length mr \<and> inside_reg (regs (os s')) mr \<and>
         (\<forall>x. unat (mr_addr mr) \<le> x \<and> x < unat (mr_addr mr) + mr_length mr \<longrightarrow> srv_busy s x = 0 \<and> srv_busy s' x = 1) \<and>
         (\<forall>x. x < unat (mr_addr mr) \<or> unat (mr_addr mr) + mr_length mr \<le> x \<longrightarrow> srv_busy s' x = srv_busy s x \<and> memory s' x = memory s x)"
  proof (cases r)
    case None
    then show ?thesis using m(2) by (simp add: malloc_post_def)
  next
    case (Some mr)
    then have p: "srv_legal s' mr" "n \<le> mr_length mr" "\<forall>x. srv_busy s' x = srv_busy s x + span (unat (mr_addr mr)) (mr_length mr) x"
      "\<forall>x. x < unat (mr_addr mr) \<or> unat (mr_addr mr) + mr_length mr \<le> x \<longrightarrow> memory s' x = memory s x"
      using m(2) by (simp_all add: malloc_post_def)
    have "srv_busy s x = 0 \<and> srv_busy s' x = 1" if "unat (mr_addr mr) \<le> x \<and> x < unat (mr_addr mr) + mr_length mr" for x
      using spec[OF p(3), of x] srv_busy_le[OF inv, of x] that by (simp add: span_def)
    moreover have "srv_busy s' x = srv_busy s x" if "x < unat (mr_addr mr) \<or> unat (mr_addr mr) + mr_length mr \<le> x" for x
      using spec[OF p(3), of x] that by (auto simp: span_def)
    ultimately show ?thesis using p(2,4) Some legal_inside[OF inv p(1)] by simp
  qed
  then show ?thesis using m(1) inv by blast
qed

theorem malloc_gives_witness:
  "\<exists>r s'. server_malloc machine_os sample_server 4194304 = Inr (r, s') \<and> srv_inv (\<lambda>h. set (ranges h)) (\<lambda>h. set (mrs h)) machine_up s' \<and>
    (case r of
       None \<Rightarrow> srv_busy s' = srv_busy sample_server \<and> memory s' = memory sample_server
     | Some mr \<Rightarrow> 4194304 \<le> mr_length mr \<and> inside_reg (set (mrs (os s'))) mr \<and>
         (\<forall>x. unat (mr_addr mr) \<le> x \<and> x < unat (mr_addr mr) + mr_length mr \<longrightarrow> srv_busy sample_server x = 0 \<and> srv_busy s' x = 1) \<and>
         (\<forall>x. x < unat (mr_addr mr) \<or> unat (mr_addr mr) + mr_length mr \<le> x \<longrightarrow> srv_busy s' x = srv_busy sample_server x \<and> memory s' x = memory sample_server x))"
  by (rule malloc_gives[OF machine_os_ok server_init_ok(1)[OF machine_os_ok sample_server_init(3,1,2)]])


lemma find_lkey_none:
  assumes "\<forall>p \<in> set ps. \<exists>a. areas s p = Some a \<and> lkey (area_mr a) \<noteq> key"
  shows "find_lkey s ps key = Inr None"
  using assms by (induction ps) auto

text \<open>C40: a region longer than the largest block can be freed once. Freeing it again runs into the list
  head of \<open>more_area_list\<close> taken for an area, because the end of the search is tested against the head
  of the other list.\<close>

theorem double_free_faults:
  assumes "os_ok N allocd regs up" "srv_inv allocd regs up s" "p \<in> set (more_area_list s)" "areas s p = Some a"
  shows "\<exists>s'. server_free N s (area_mr a) = Inr s' \<and> server_free N s' (area_mr a) = Inl Wild_deref"
proof -
  have dist: "distinct (all_areas s)" using assms(2) by (simp add: srv_inv_def)
  have pa: "p \<in> set (all_areas s)" "p \<notin> set (area_list s)" "distinct (more_area_list s)" using assms(3) dist by (auto simp: all_areas_def)
  from srv_area[OF assms(2) pa(1)] assms(4) have len: "SINGLE_AREA_SIZE \<le> area_len a" by (auto simp: area_fine_def)
  have fk: "find_lkey s (more_area_list s) (lkey (area_mr a)) = Inr (Some p)"
    by (rule find_lkey_srv[OF assms(2,3) _ assms(4)]) (simp add: all_areas_def)
  have big: "\<not> mr_length (area_mr a) \<le> buddy_size ! (MAX_ORDER - 1)"
    using len by (simp add: area_len_def buddy_size_def MAX_ORDER_def SINGLE_AREA_SIZE_def)
  define s' where "s' = (case server_free N s (area_mr a) of Inr x \<Rightarrow> x)"
  have free: "server_free N s (area_mr a) = Inr s'" "more_area_list s' = remove1 p (more_area_list s)" "\<forall>q. q \<noteq> p \<longrightarrow> areas s' q = areas s q"
    using assms(4) fk big by (auto simp: s'_def server_free_def dhmp_free_one_area_def dhmp_free_more_area_def Let_def)
  have "\<exists>b. areas s' q = Some b \<and> lkey (area_mr b) \<noteq> lkey (area_mr a)" if q: "q \<in> set (more_area_list s')" for q
  proof -
    have n: "q \<noteq> p" "q \<in> set (all_areas s)" using q pa(3) by (auto simp: free(2) all_areas_def)
    from srv_area[OF assms(2) n(2)] obtain b where b: "areas s q = Some b" by blast
    then show ?thesis using distinct_lkeys[OF assms(2) pa(1) n(2)] n(1) assms(4) free(3) by auto
  qed
  then have "find_lkey s' (more_area_list s') (lkey (area_mr a)) = Inr None" by (intro find_lkey_none) blast
  then have "server_free N s' (area_mr a) = Inl Wild_deref"
    using big by (simp add: server_free_def dhmp_free_one_area_def dhmp_free_more_area_def)
  then show ?thesis using free(1) by blast
qed

text \<open>A server with one large region handed out.\<close>

definition sample_server_large :: "machine dhmp_server" where
  "sample_server_large = (case server_malloc machine_os sample_server 4194304 of Inr (r, s) \<Rightarrow> s)"

lemma sample_server_fields:
  "brk (os sample_server) = 4096 + 2097152 + 152" "more_area_list sample_server = []" "memory sample_server = (\<lambda>x. 0)"
  by (simp_all add: sample_server_def dhmp_server_init_def dhmp_area_create_def machine_os_def fresh_machine_def empty_server_def
      SINGLE_AREA_SIZE_def sizeof_dhmp_area_def Let_def)

lemma sample_large_malloc:
  "\<exists>mr. server_malloc machine_os sample_server 4194304 = Inr (Some mr, sample_server_large) \<and>
     (\<exists>p a. more_area_list sample_server_large = [p] \<and> areas sample_server_large p = Some a \<and> area_mr a = mr)"
proof -
  have "word_of_nat (4096 + 2097152 + 152) \<noteq> (0 :: 64 word)" "word_of_nat (4096 + 2097152 + 152 + 4194304) \<noteq> (0 :: 64 word)" by simp_all
  then show ?thesis
    by (simp add: sample_server_large_def server_malloc_def buddy_size_def MAX_ORDER_def SINGLE_AREA_SIZE_def dhmp_malloc_more_area_def
        dhmp_area_create_def sample_server_fields machine_os_def sizeof_dhmp_area_def Let_def)
qed

lemma sample_large_inv: "srv_inv (\<lambda>h. set (ranges h)) (\<lambda>h. set (mrs h)) machine_up sample_server_large"
proof -
  have i: "srv_inv (\<lambda>h. set (ranges h)) (\<lambda>h. set (mrs h)) machine_up sample_server"
    by (rule server_init_ok(1)[OF machine_os_ok sample_server_init(3,1,2)])
  from sample_large_malloc obtain mr where "server_malloc machine_os sample_server 4194304 = Inr (Some mr, sample_server_large)" by blast
  then show ?thesis using server_malloc_ok[OF machine_os_ok i, of 4194304] by (auto simp: malloc_post_def)
qed

theorem double_free_faults_witness:
  "\<exists>p a s'. areas sample_server_large p = Some a \<and> server_free machine_os sample_server_large (area_mr a) = Inr s' \<and>
    server_free machine_os s' (area_mr a) = Inl Wild_deref"
proof -
  from sample_large_malloc obtain p a where p: "more_area_list sample_server_large = [p]" "areas sample_server_large p = Some a" by blast
  have "p \<in> set (more_area_list sample_server_large)" using p(1) by simp
  from double_free_faults[OF machine_os_ok sample_large_inv this p(2)] p(2) show ?thesis by blast
qed

lemma handed_out_upd_trans: "handed_out (upd_trans s t f) mr = handed_out s mr"
  by (simp add: handed_out_def srv_legal_def block_of_def area_of_def upd_trans_def)

lemma malloc_request_answered_core:
  assumes "os_ok N allocd regs up" "srv_inv allocd regs up s" "trans_state (srv_transports s t) = DHMP_TRANSPORT_STATE_CONNECTED"
    and "send_mr (srv_transports s t) = Some sm"
  shows "\<exists>answer s'. server_recv_handler N s t (DHMP_MSG_MALLOC_REQUEST req) = Inr (Some answer, s') \<and> srv_inv allocd regs up s' \<and>
    dram_ht s' = dram_ht s \<and> trans_state (srv_transports s' t) = DHMP_TRANSPORT_STATE_CONNECTED \<and> send_mr (srv_transports s' t) \<noteq> None \<and>
    (\<forall>mr. handed_out s mr \<longrightarrow> handed_out s' mr) \<and>
    (answer = DHMP_MSG_MALLOC_ERROR req \<and> srv_busy s' = srv_busy s \<and> memory s' = memory s \<and>
       (\<exists>s1. server_malloc N s (mc_req_size req) = Inr (None, s1)) \<and> nvm_used_size (srv_transports s' t) = nvm_used_size (srv_transports s t) \<or>
     (\<exists>mr. answer = DHMP_MSG_MALLOC_RESPONSE req mr \<and> mc_req_size req \<le> mr_length mr \<and> 0 < mr_length mr \<and> 0 < unat (mr_addr mr) \<and>
        inside_reg (regs (os s')) mr \<and> handed_out s' mr \<and>
        (\<forall>x. srv_busy s' x = srv_busy s x + span (unat (mr_addr mr)) (mr_length mr) x) \<and>
        (\<forall>x. x < unat (mr_addr mr) \<or> unat (mr_addr mr) + mr_length mr \<le> x \<longrightarrow> memory s' x = memory s x) \<and>
        nvm_used_size (srv_transports s' t) = nvm_used_size (srv_transports s t) + int (mr_length mr)))"
proof -
  from server_malloc_ok[OF assms(1,2), of "mc_req_size req"] obtain r s1 where
    m: "server_malloc N s (mc_req_size req) = Inr (r, s1)" "malloc_post allocd regs up s (mc_req_size req) r s1" by blast
  have tr: "srv_transports s1 = srv_transports s" and inv: "srv_inv allocd regs up s1" and dr: "dram_ht s1 = dram_ht s" using m(2) by (simp_all add: malloc_post_def)
  have post: "\<exists>rt. server_post_send s1 t msg = Inr (Some msg, upd_trans s1 t (\<lambda>_. rt)) \<and> nvm_used_size rt = nvm_used_size (srv_transports s t) \<and>
      trans_state rt = DHMP_TRANSPORT_STATE_CONNECTED \<and> send_mr rt \<noteq> None"
    if "msg_data_size msg \<le> 64" for msg
    using that assms(3,4) by (auto simp: server_post_send_def tr dhmp_send_task_create_def Let_def msg_length_def SEND_REGION_SIZE_def)
  have same: "srv_inv allocd regs up (upd_trans (upd_trans s1 t f) t g) \<and> srv_busy (upd_trans (upd_trans s1 t f) t g) = srv_busy s1 \<and>
      os (upd_trans (upd_trans s1 t f) t g) = os s1" "srv_inv allocd regs up (upd_trans s1 t f) \<and> srv_busy (upd_trans s1 t f) = srv_busy s1" for f g
    using srv_same(1)[where s' = "upd_trans (upd_trans s1 t f) t g" and s = s1 and allocd = allocd and regs = regs and up = up]
      srv_same(2)[where s' = "upd_trans (upd_trans s1 t f) t g" and s = s1]
      srv_same(1)[where s' = "upd_trans s1 t f" and s = s1 and allocd = allocd and regs = regs and up = up]
      srv_same(2)[where s' = "upd_trans s1 t f" and s = s1] inv
    by (simp_all add: upd_trans_def)
  show ?thesis
  proof (cases r)
    case None
    from post[of "DHMP_MSG_MALLOC_ERROR req"] obtain rt where
      p: "server_post_send s1 t (DHMP_MSG_MALLOC_ERROR req) = Inr (Some (DHMP_MSG_MALLOC_ERROR req), upd_trans s1 t (\<lambda>_. rt))"
        "nvm_used_size rt = nvm_used_size (srv_transports s t)" "trans_state rt = DHMP_TRANSPORT_STATE_CONNECTED" "send_mr rt \<noteq> None" by auto
    have "server_recv_handler N s t (DHMP_MSG_MALLOC_REQUEST req) = Inr (Some (DHMP_MSG_MALLOC_ERROR req), upd_trans s1 t (\<lambda>_. rt))"
      by (simp add: server_recv_handler_def dhmp_malloc_request_handler_def m(1) None p(1))
    moreover have "srv_busy s1 = srv_busy s" "memory (upd_trans s1 t (\<lambda>_. rt)) = memory s" using m(2) None by (simp_all add: malloc_post_def upd_trans_def)
    moreover have "\<forall>mr. handed_out s mr \<longrightarrow> handed_out (upd_trans s1 t (\<lambda>_. rt)) mr"
      using m(2) by (simp add: handed_out_upd_trans) (simp add: malloc_post_def handed_out_def)
    moreover have "nvm_used_size (srv_transports (upd_trans s1 t (\<lambda>_. rt)) t) = nvm_used_size (srv_transports s t)"
      using p(2) by (simp add: upd_trans_def)
    moreover have "dram_ht (upd_trans s1 t (\<lambda>_. rt)) = dram_ht s" "srv_transports (upd_trans s1 t (\<lambda>_. rt)) t = rt" by (simp_all add: upd_trans_def dr)
    moreover have "\<exists>s1. server_malloc N s (mc_req_size req) = Inr (None, s1)" using m(1) None by blast
    ultimately show ?thesis using same(2)[of "\<lambda>_. rt"] p(3,4)
      by (intro exI[of _ "DHMP_MSG_MALLOC_ERROR req"] exI[of _ "upd_trans s1 t (\<lambda>_. rt)"]) simp
  next
    case (Some mr)
    from post[of "DHMP_MSG_MALLOC_RESPONSE req mr"] obtain rt where
      p: "server_post_send s1 t (DHMP_MSG_MALLOC_RESPONSE req mr) = Inr (Some (DHMP_MSG_MALLOC_RESPONSE req mr), upd_trans s1 t (\<lambda>_. rt))"
        "nvm_used_size rt = nvm_used_size (srv_transports s t)" "trans_state rt = DHMP_TRANSPORT_STATE_CONNECTED" "send_mr rt \<noteq> None" by auto
    let ?s' = "upd_trans (upd_trans s1 t (\<lambda>_. rt)) t (\<lambda>rt. rt\<lparr>nvm_used_size := nvm_used_size rt + int (mr_length mr)\<rparr>)"
    have "server_recv_handler N s t (DHMP_MSG_MALLOC_REQUEST req) = Inr (Some (DHMP_MSG_MALLOC_RESPONSE req mr), ?s')"
      by (simp add: server_recv_handler_def dhmp_malloc_request_handler_def m(1) Some p(1))
    moreover have "srv_legal s1 mr" "mc_req_size req \<le> mr_length mr" "\<forall>x. srv_busy s1 x = srv_busy s x + span (unat (mr_addr mr)) (mr_length mr) x"
      using m(2) Some by (simp_all add: malloc_post_def)
    moreover have "nvm_used_size (srv_transports ?s' t) = nvm_used_size (srv_transports s t) + int (mr_length mr)" using p(2) by (simp add: upd_trans_def)
    moreover have "handed_out ?s' mr" using calculation(2-3) legal_inside[OF inv, of mr]
      by (simp add: handed_out_upd_trans) (simp add: handed_out_def)
    moreover have "\<forall>x. x < unat (mr_addr mr) \<or> unat (mr_addr mr) + mr_length mr \<le> x \<longrightarrow> memory ?s' x = memory s x"
      using m(2) Some by (simp add: malloc_post_def upd_trans_def)
    moreover have "\<forall>mr. handed_out s mr \<longrightarrow> handed_out ?s' mr"
      using m(2) by (simp add: handed_out_upd_trans) (simp add: malloc_post_def handed_out_def)
    moreover have "dram_ht ?s' = dram_ht s" "trans_state (srv_transports ?s' t) = DHMP_TRANSPORT_STATE_CONNECTED" "send_mr (srv_transports ?s' t) \<noteq> None"
      using p(3,4) by (simp_all add: upd_trans_def dr)
    ultimately show ?thesis using same(1) legal_inside[OF inv, of mr] by (intro exI[of _ "DHMP_MSG_MALLOC_RESPONSE req mr"] exI[of _ ?s']) simp
  qed
qed

text \<open>A free request for a region handed out is answered, and the region is free again.\<close>

lemma free_request_answered:
  assumes N: "os_ok N allocd regs up" and inv: "srv_inv allocd regs up s"
    and t: "trans_state (srv_transports s t) = DHMP_TRANSPORT_STATE_CONNECTED" "send_mr (srv_transports s t) = Some sm"
    and mr: "handed_out s mr" "\<forall>x. span (unat (mr_addr mr)) (mr_length mr) x \<le> srv_busy s x" and d: "dram_ht s = (\<lambda>i. [])"
  shows "\<exists>s'. server_recv_handler N s t (DHMP_MSG_FREE_REQUEST p mr) = Inr (Some (DHMP_MSG_FREE_RESPONSE p), s') \<and> srv_inv allocd regs up s' \<and>
    (\<forall>x. srv_busy s' x + span (unat (mr_addr mr)) (mr_length mr) x = srv_busy s x) \<and>
    nvm_used_size (srv_transports s' t) = nvm_used_size (srv_transports s t) - int (mr_length mr)"
proof -
  let ?s1 = "upd_trans s t (\<lambda>rt. rt\<lparr>nvm_used_size := nvm_used_size rt - int (mr_length mr)\<rparr>)"
  have same: "srv_inv allocd regs up ?s1" "srv_busy ?s1 = srv_busy s" "srv_legal ?s1 = srv_legal s"
    using srv_same[of ?s1 s] inv by (simp_all add: upd_trans_def)
  have dd: "dhmp_destroy_dram_entry N ?s1 (mr_addr mr) = (False, ?s1)" using d by (simp add: dhmp_destroy_dram_entry_def upd_trans_def)
  have "srv_legal ?s1 mr" "\<forall>x. span (unat (mr_addr mr)) (mr_length mr) x \<le> srv_busy ?s1 x" using mr same by (simp_all add: handed_out_def)
  from server_free_ok[OF N same(1) this] obtain s2 where f: "server_free N ?s1 mr = Inr s2" "free_post allocd regs up ?s1 mr s2" by blast
  have tr: "srv_transports s2 = srv_transports ?s1" "srv_inv allocd regs up s2"
    "\<forall>x. srv_busy s2 x + span (unat (mr_addr mr)) (mr_length mr) x = srv_busy s x" using f(2) same(2) by (simp_all add: free_post_def)
  have "trans_state (srv_transports s2 t) = DHMP_TRANSPORT_STATE_CONNECTED" "send_mr (srv_transports s2 t) = Some sm"
    "nvm_used_size (srv_transports s2 t) = nvm_used_size (srv_transports s t) - int (mr_length mr)" using t by (simp_all add: tr(1) upd_trans_def)
  then have "\<exists>rt. server_post_send s2 t (DHMP_MSG_FREE_RESPONSE p) = Inr (Some (DHMP_MSG_FREE_RESPONSE p), upd_trans s2 t (\<lambda>_. rt)) \<and>
      nvm_used_size rt = nvm_used_size (srv_transports s t) - int (mr_length mr)"
    by (auto simp: server_post_send_def dhmp_send_task_create_def Let_def msg_length_def SEND_REGION_SIZE_def)
  then obtain rt where rt: "server_post_send s2 t (DHMP_MSG_FREE_RESPONSE p) = Inr (Some (DHMP_MSG_FREE_RESPONSE p), upd_trans s2 t (\<lambda>_. rt))"
    "nvm_used_size rt = nvm_used_size (srv_transports s t) - int (mr_length mr)" by blast
  let ?s' = "upd_trans s2 t (\<lambda>_. rt)"
  have "server_recv_handler N s t (DHMP_MSG_FREE_REQUEST p mr) = Inr (Some (DHMP_MSG_FREE_RESPONSE p), ?s')"
    by (simp add: server_recv_handler_def dhmp_free_request_handler_def dd f(1) rt(1) Let_def)
  moreover have "srv_inv allocd regs up ?s'" "srv_busy ?s' = srv_busy s2" using srv_same[of ?s' s2] tr(2) by (simp_all add: upd_trans_def)
  moreover have "nvm_used_size (srv_transports ?s' t) = nvm_used_size (srv_transports s t) - int (mr_length mr)" using rt(2) by (simp add: upd_trans_def)
  ultimately show ?thesis using tr(3) by auto
qed

text \<open>C33: a request for memory over a connected transport is answered at once, by the region or by an
  error that carries the request back, and the transport's account grows by the length of the region.\<close>

theorem malloc_request_answered:
  assumes "os_ok N allocd regs up" "srv_inv allocd regs up s" "trans_state (srv_transports s t) = DHMP_TRANSPORT_STATE_CONNECTED"
    and "send_mr (srv_transports s t) = Some sm"
  shows "\<exists>answer s'. server_recv_handler N s t (DHMP_MSG_MALLOC_REQUEST req) = Inr (Some answer, s') \<and> srv_inv allocd regs up s' \<and>
    (answer = DHMP_MSG_MALLOC_ERROR req \<and> srv_busy s' = srv_busy s \<and> nvm_used_size (srv_transports s' t) = nvm_used_size (srv_transports s t) \<or>
     (\<exists>mr. answer = DHMP_MSG_MALLOC_RESPONSE req mr \<and> mc_req_size req \<le> mr_length mr \<and> 0 < mr_length mr \<and> 0 < unat (mr_addr mr) \<and>
        inside_reg (regs (os s')) mr \<and>
        (\<forall>x. srv_busy s' x = srv_busy s x + span (unat (mr_addr mr)) (mr_length mr) x) \<and>
        nvm_used_size (srv_transports s' t) = nvm_used_size (srv_transports s t) + int (mr_length mr)))"
  using malloc_request_answered_core[OF assms] by blast

lemma sample_server_transports: "srv_transports sample_server = (\<lambda>t. idle_transport)"
  by (rule server_init_ok(3)[OF machine_os_ok sample_server_init(3,1,2)])

theorem malloc_request_answered_witness:
  "\<exists>answer s'. server_recv_handler machine_os sample_server 0 (DHMP_MSG_MALLOC_REQUEST \<lparr>mc_req_size = 100, mc_addr_info = 7\<rparr>) = Inr (Some answer, s') \<and>
    srv_inv (\<lambda>h. set (ranges h)) (\<lambda>h. set (mrs h)) machine_up s'"
  using malloc_request_answered[OF machine_os_ok server_init_ok(1)[OF machine_os_ok sample_server_init(3,1,2)],
      where t = 0 and sm = "\<lparr>cur_pos = 0, dmr_addr = 0, dmr_lkey = 0\<rparr>" and req = "\<lparr>mc_req_size = 100, mc_addr_info = 7\<rparr>"]
  by (auto simp: sample_server_transports idle_transport_def)

end
