(* ===== verification/Dhmp_Client.thy ===== *)
theory Dhmp_Client
  imports Dhmp_Types Interfaces
begin

text \<open>
  The client side of the DHMP library: \<open>src/dhmp_client/src/dhmp_client.c\<close>, \<open>dhmp_work.c\<close> and the one-sided
  operations and response handlers of \<open>dhmp_transport.c\<close>, with \<open>DHMP_MR_REUSE_POLICY\<close> on and \<open>DHMP_CACHE_POLICY\<close>
  off as \<open>dhmp.h\<close> sets them. Every call puts one work item on \<open>work_list\<close> and spins until the work thread
  has handled it; a spin that nothing ends is \<open>Hang\<close>. Address records and send works are objects in maps
  from their pointers; \<open>raw_info\<close> is what \<open>malloc\<close> returns uninitialised. \<open>malloc\<close> itself does not fail; the
  registration of local memory may. A registered send buffer is represented by its length, since its
  contents never outlive one operation.
\<close>

section \<open>State\<close>

record dhmp_send_work =
  sw_local :: "byte list"
  sw_recv_flag :: bool

record 'n dhmp_client =
  transports :: "nat \<Rightarrow> dhmp_transport"
  connect_trans :: "nat \<Rightarrow> nat option"
  poll_trans :: "nat \<Rightarrow> nat option"
  addr_info_ht :: "nat \<Rightarrow> nat list"
  infos :: "nat \<Rightarrow> dhmp_addr_info option"
  raw_info :: "nat \<Rightarrow> dhmp_addr_info"
  next_info :: nat
  send_works :: "nat \<Rightarrow> dhmp_send_work option"
  next_work :: nat
  send_mr_list :: "nat list"
  read_mr :: "nat \<Rightarrow> nat option"
  fifo_node_index :: int
  poll_num :: int
  res_dram_size :: "nat \<Rightarrow> nat"
  in_recovery :: bool
  prepare_destroy :: bool
  net :: 'n

definition upd_info :: "'n dhmp_client \<Rightarrow> nat \<Rightarrow> (dhmp_addr_info \<Rightarrow> dhmp_addr_info) \<Rightarrow> 'n dhmp_client res" where
  "upd_info c p f =
     (case infos c p of None \<Rightarrow> Inl Use_after_free | Some a \<Rightarrow> Inr (c\<lparr>infos := (infos c)(p \<mapsto> f a)\<rparr>))"

section \<open>Nodes and addresses\<close>

definition node_connected :: "'n dhmp_client \<Rightarrow> nat option \<Rightarrow> bool" where
  "node_connected c t = (case t of None \<Rightarrow> False | Some p \<Rightarrow> trans_state (transports c p) = DHMP_TRANSPORT_STATE_CONNECTED)"

definition dhmp_get_trans_count :: "'n dhmp_client \<Rightarrow> nat" where
  "dhmp_get_trans_count c = length (filter (\<lambda>i. node_connected c (connect_trans c i)) [0 ..< DHMP_SERVER_NODE_NUM])"

text \<open>With a wrong length the caller's array stays as it is.\<close>

definition dhmp_test_trans_state :: "'n dhmp_client \<Rightarrow> int list \<Rightarrow> int list" where
  "dhmp_test_trans_state c state =
     (if length state \<noteq> DHMP_SERVER_NODE_NUM then state
      else map (\<lambda>i. if node_connected c (connect_trans c i) then 1 else -1) [0 ..< length state])"

definition trans_at :: "'n dhmp_client \<Rightarrow> int \<Rightarrow> nat option res" where
  "trans_at c i = (if 0 \<le> i \<and> i < int DHMP_SERVER_NODE_NUM then Inr (connect_trans c (nat i)) else Inl Out_of_bounds)"

definition dhmp_node_select_by_id :: "'n dhmp_client \<Rightarrow> int \<Rightarrow> nat option res" where
  "dhmp_node_select_by_id c id0 =
     rbind (trans_at c id0) (\<lambda>t. Inr (if node_connected c t then t else None))"

text \<open>The loop of \<open>dhmp_node_select\<close>, which starts at \<open>fifo_node_index\<close> and tries three nodes.\<close>

fun node_select_loop :: "nat \<Rightarrow> 'n dhmp_client \<Rightarrow> (nat option \<times> 'n dhmp_client) res" where
  "node_select_loop 0 c = Inr (None, c)"
| "node_select_loop (Suc n) c =
     (let i = (if int DHMP_SERVER_NODE_NUM \<le> fifo_node_index c then 0 else fifo_node_index c);
          c1 = c\<lparr>fifo_node_index := i + 1\<rparr>
      in rbind (trans_at c i) (\<lambda>t. if node_connected c t then Inr (t, c1) else node_select_loop n c1))"

definition dhmp_node_select :: "'n dhmp_client \<Rightarrow> (nat option \<times> 'n dhmp_client) res" where
  "dhmp_node_select c = node_select_loop DHMP_SERVER_NODE_NUM c"

text \<open>The top 16 bits of an address, sign included.\<close>

definition addr_node :: "64 word \<Rightarrow> int" where
  "addr_node dhmp_addr = sint dhmp_addr div 2 ^ 48"

definition dhmp_get_trans_from_addr :: "'n dhmp_client \<Rightarrow> 64 word \<Rightarrow> nat option res" where
  "dhmp_get_trans_from_addr c dhmp_addr = trans_at c (addr_node dhmp_addr)"

definition dhmp_get_node_index_from_addr :: "64 word \<Rightarrow> int" where
  "dhmp_get_node_index_from_addr dhmp_addr = sint32 (addr_node dhmp_addr)"

text \<open>The loop ends with index 3 when the transport is none of the three.\<close>

definition trans_index :: "'n dhmp_client \<Rightarrow> nat option \<Rightarrow> nat" where
  "trans_index c t =
     (case List.find (\<lambda>i. connect_trans c i = t) [0 ..< DHMP_SERVER_NODE_NUM] of
        Some i \<Rightarrow> i | None \<Rightarrow> DHMP_SERVER_NODE_NUM)"

definition dhmp_transfer_dhmp_addr :: "'n dhmp_client \<Rightarrow> nat option \<Rightarrow> 64 word \<Rightarrow> 64 word" where
  "dhmp_transfer_dhmp_addr c t normal_addr =
     (let index = trans_index c t
      in if index = 0 then normal_addr else normal_addr + push_bit 48 (word_of_nat index))"

definition dhmp_transfer_normal_addr :: "64 word \<Rightarrow> 64 word" where
  "dhmp_transfer_normal_addr dhmp_addr = dhmp_addr - word_of_int (addr_node dhmp_addr * 2 ^ 48)"

section \<open>The address table\<close>

definition dhmp_addr_info_insert_ht :: "'n dhmp_client \<Rightarrow> 64 word \<Rightarrow> nat \<Rightarrow> 'n dhmp_client res" where
  "dhmp_addr_info_insert_ht c dhmp_addr p =
     rbind (upd_info c p (\<lambda>a. a\<lparr>dram_mr := (dram_mr a)\<lparr>mr_addr := 0\<rparr>\<rparr>)) (\<lambda>c1.
       let i = nat (dhmp_hash_in_client dhmp_addr)
       in Inr (c1\<lparr>addr_info_ht := (addr_info_ht c1)(i := p # addr_info_ht c1 i)\<rparr>))"

fun bucket_find :: "'n dhmp_client \<Rightarrow> nat list \<Rightarrow> 64 word \<Rightarrow> nat option res" where
  "bucket_find c [] normal_addr = Inr None"
| "bucket_find c (p # ps) normal_addr =
     (case infos c p of
        None \<Rightarrow> Inl Use_after_free
      | Some a \<Rightarrow> if mr_addr (nvm_mr a) = normal_addr then Inr (Some p) else bucket_find c ps normal_addr)"

definition dhmp_get_addr_info_from_ht :: "'n dhmp_client \<Rightarrow> int \<Rightarrow> 64 word \<Rightarrow> nat option res" where
  "dhmp_get_addr_info_from_ht c index dhmp_addr =
     bucket_find c (addr_info_ht c (nat index)) (dhmp_transfer_normal_addr dhmp_addr)"

text \<open>Records in the table are older than the next one.\<close>

definition table_fresh :: "'n dhmp_client \<Rightarrow> bool" where
  "table_fresh c \<longleftrightarrow> (\<forall>k. \<forall>q \<in> set (addr_info_ht c k). q < next_info c)"

section \<open>Responses of a server\<close>

definition dhmp_malloc_response_handler :: "'n dhmp_client \<Rightarrow> dhmp_mc_request \<Rightarrow> ibv_mr \<Rightarrow> 'n dhmp_client res" where
  "dhmp_malloc_response_handler c req mr =
     upd_info c (mc_addr_info req) (\<lambda>a. a\<lparr>nvm_mr := mr, read_cnt := 0, write_cnt := 0\<rparr>)"

definition dhmp_malloc_error_handler :: "'n dhmp_client \<Rightarrow> dhmp_mc_request \<Rightarrow> 'n dhmp_client res" where
  "dhmp_malloc_error_handler c req =
     upd_info c (mc_addr_info req) (\<lambda>a. a\<lparr>nvm_mr := (nvm_mr a)\<lparr>mr_length := mc_req_size req, mr_addr := 0\<rparr>\<rparr>)"

definition dhmp_free_response_handler :: "'n dhmp_client \<Rightarrow> nat \<Rightarrow> 'n dhmp_client res" where
  "dhmp_free_response_handler c p = upd_info c p (\<lambda>a. a\<lparr>nvm_mr := (nvm_mr a)\<lparr>mr_addr := 0\<rparr>\<rparr>)"

text \<open>For a read the data goes to the caller's buffer, \<open>req_size\<close> bytes of it.\<close>

definition dhmp_send_response_handler :: "'n dhmp_client \<Rightarrow> dhmp_send_request \<Rightarrow> byte list \<Rightarrow> 'n dhmp_client res" where
  "dhmp_send_response_handler c req payload =
     (case send_works c (send_task req) of
        None \<Rightarrow> Inl Use_after_free
      | Some w \<Rightarrow>
          let n = send_req_size req
          in if send_is_write req then Inr (c\<lparr>send_works := (send_works c)(send_task req \<mapsto> w\<lparr>sw_recv_flag := True\<rparr>)\<rparr>)
             else if length (sw_local w) < n then Inl Buffer_overflow
             else if length payload < n then Inl Out_of_bounds
             else Inr (c\<lparr>send_works := (send_works c)(send_task req \<mapsto>
                          w\<lparr>sw_local := take n payload @ drop n (sw_local w), sw_recv_flag := True\<rparr>)\<rparr>))"

definition dhmp_get_connect_trans :: "'n dhmp_client \<Rightarrow> nat \<Rightarrow> nat option res" where
  "dhmp_get_connect_trans c t =
     (case List.find (\<lambda>i. poll_trans c i = Some t) [0 ..< DHMP_SERVER_NODE_NUM] of
        Some i \<Rightarrow> Inr (connect_trans c i) | None \<Rightarrow> Inl Out_of_bounds)"

text \<open>
  The DRAM responses. A transport pointer that is \<open>NULL\<close> is only compared. The size of a cached object is
  added to \<open>res_dram_size[3]\<close>, outside the array, when the message did not come over one of
  \<open>connect_trans\<close>.
\<close>

fun apply_dram_loop :: "'n dhmp_client \<Rightarrow> nat \<Rightarrow> nat option \<Rightarrow> dhmp_dram_info list \<Rightarrow> 'n dhmp_client res" where
  "apply_dram_loop c ni connect [] = Inr c"
| "apply_dram_loop c ni connect (d # ds) =
     (let dhmp_addr = dhmp_transfer_dhmp_addr c connect (dram_nvm_addr d)
      in rbind (dhmp_get_addr_info_from_ht c (dhmp_hash_in_client dhmp_addr) dhmp_addr) (\<lambda>r.
           rbind (case r of
                    None \<Rightarrow> Inr c
                  | Some p \<Rightarrow>
                      if mr_addr (dram_info_mr d) = 0
                      then upd_info c p (\<lambda>a. a\<lparr>dram_mr := (dram_mr a)\<lparr>mr_addr := 0, mr_length := 0\<rparr>\<rparr>)
                      else if DHMP_SERVER_NODE_NUM \<le> ni then Inl Out_of_bounds
                      else rbind (upd_info c p (\<lambda>a. a\<lparr>dram_mr := dram_info_mr d\<rparr>)) (\<lambda>c1.
                             case infos c1 p of
                               None \<Rightarrow> Inl Use_after_free
                             | Some a \<Rightarrow> Inr (c1\<lparr>res_dram_size := (res_dram_size c1)(ni := res_dram_size c1 ni + mr_length (nvm_mr a))\<rparr>)))
             (\<lambda>c1. apply_dram_loop c1 ni connect ds)))"

definition dhmp_apply_dram_response_handler :: "'n dhmp_client \<Rightarrow> nat \<Rightarrow> dhmp_dram_info list \<Rightarrow> 'n dhmp_client res" where
  "dhmp_apply_dram_response_handler c t ds =
     rbind (dhmp_get_connect_trans c t) (\<lambda>connect.
       rbind (apply_dram_loop c (trans_index c (Some t)) connect ds) (\<lambda>c1. Inr (c1\<lparr>poll_num := poll_num c1 - 1\<rparr>)))"

fun clear_dram_loop :: "'n dhmp_client \<Rightarrow> nat option \<Rightarrow> dhmp_nvm_info list \<Rightarrow> 'n dhmp_client res" where
  "clear_dram_loop c connect [] = Inr c"
| "clear_dram_loop c connect (d # ds) =
     (let dhmp_addr = dhmp_transfer_dhmp_addr c connect (nvm_addr d)
      in rbind (dhmp_get_addr_info_from_ht c (dhmp_hash_in_client dhmp_addr) dhmp_addr) (\<lambda>r.
           rbind (case r of
                    None \<Rightarrow> Inr c
                  | Some p \<Rightarrow> upd_info c p (\<lambda>a. a\<lparr>dram_mr := (dram_mr a)\<lparr>mr_addr := 0, mr_length := 0\<rparr>\<rparr>))
             (\<lambda>c1. clear_dram_loop c1 connect ds)))"

definition dhmp_clear_dram_response_handler :: "'n dhmp_client \<Rightarrow> nat \<Rightarrow> dhmp_nvm_info list \<Rightarrow> 'n dhmp_client res" where
  "dhmp_clear_dram_response_handler c t ds =
     rbind (dhmp_get_connect_trans c t) (\<lambda>connect.
       rbind (clear_dram_loop c connect ds) (\<lambda>c1. Inr (c1\<lparr>poll_num := poll_num c1 - 1\<rparr>)))"

text \<open>
  The dispatch. In a client process \<open>server\<close> and \<open>watcher\<close> are \<open>NULL\<close>, which every handler of a request
  dereferences, except that of a send request, which copies from or to an address the sender names.
\<close>

definition client_recv_handler :: "'n dhmp_client \<Rightarrow> nat \<Rightarrow> dhmp_msg \<Rightarrow> 'n dhmp_client res" where
  "client_recv_handler c t msg =
     (case msg of
        DHMP_MSG_MALLOC_RESPONSE req mr \<Rightarrow> dhmp_malloc_response_handler c req mr
      | DHMP_MSG_MALLOC_ERROR req \<Rightarrow> dhmp_malloc_error_handler c req
      | DHMP_MSG_FREE_RESPONSE p \<Rightarrow> dhmp_free_response_handler c p
      | DHMP_MSG_SEND_RESPONSE req payload \<Rightarrow> dhmp_send_response_handler c req payload
      | DHMP_MSG_APPLY_DRAM_RESPONSE ds \<Rightarrow> dhmp_apply_dram_response_handler c t ds
      | DHMP_MSG_CLEAR_DRAM_RESPONSE ds \<Rightarrow> dhmp_clear_dram_response_handler c t ds
      | DHMP_MSG_SEND_REQUEST req payload \<Rightarrow> Inl Wild_deref
      | DHMP_MSG_CLOSE_CONNECTION \<Rightarrow> Inr c
      | _ \<Rightarrow> Inl Null_deref)"

text \<open>
  Sending a message and handling what comes back while the caller spins. On a transport that is not
  connected nothing is sent and nothing is reported.
\<close>

definition dhmp_post_send :: "'n verbs \<Rightarrow> 'n dhmp_client \<Rightarrow> nat \<Rightarrow> dhmp_msg \<Rightarrow> 'n dhmp_client res" where
  "dhmp_post_send V c t msg =
     (if trans_state (transports c t) \<noteq> DHMP_TRANSPORT_STATE_CONNECTED then Inr c
      else rbind (dhmp_send_task_create t (transports c t) msg) (\<lambda>(rt, task).
             case net_call V (net c) (node_id rt) msg of
               (answer, n) \<Rightarrow>
                 let c1 = c\<lparr>transports := (transports c)(t := rt), net := n\<rparr>
                 in case answer of None \<Rightarrow> Inr c1 | Some m \<Rightarrow> client_recv_handler c1 t m))"

section \<open>One-sided operations\<close>

text \<open>
  \<open>dhmp_get_mr_from_send_list\<close>: long transfers register the caller's buffer, short ones take the first
  registered buffer of the list that is long enough, or a new one. A negative \<open>int\<close> length compares as
  a huge \<open>size_t\<close>, and no allocation of that size succeeds. The result is \<open>None\<close> for \<open>NULL\<close>.
\<close>

fun take_first :: "('a \<Rightarrow> bool) \<Rightarrow> 'a list \<Rightarrow> ('a \<times> 'a list) option" where
  "take_first P [] = None"
| "take_first P (x # xs) = (if P x then Some (x, xs) else map_option (\<lambda>(y, ys). (y, x # ys)) (take_first P xs))"

definition dhmp_get_mr_from_send_list :: "'n verbs \<Rightarrow> 'n dhmp_client \<Rightarrow> int \<Rightarrow> 'n dhmp_client \<times> nat option" where
  "dhmp_get_mr_from_send_list V c len =
     (if RDMA_SEND_THREASHOLD < len then (c, if net_reg V (net c) (nat len) then Some (nat len) else None)
      else if len < 0 then (c, None)
      else (case take_first (\<lambda>l. nat len \<le> l) (send_mr_list c) of
              Some (l, ls) \<Rightarrow> (c\<lparr>send_mr_list := ls\<rparr>, Some l)
            | None \<Rightarrow> (c, if net_reg V (net c) (nat len) then Some (nat len) else None)))"

definition dhmp_rdma_read ::
  "'n verbs \<Rightarrow> 'n dhmp_client \<Rightarrow> nat \<Rightarrow> ibv_mr \<Rightarrow> byte list \<Rightarrow> int \<Rightarrow> int \<Rightarrow> (int \<times> byte list \<times> 'n dhmp_client) res" where
  "dhmp_rdma_read V c t mr local_buf len offset =
     (case dhmp_get_mr_from_send_list V c len of
        (c1, None) \<Rightarrow> Inl Null_deref
      | (c1, Some smr) \<Rightarrow>
          (case net_read V (net c1) (node_id (transports c1 t)) (mr_addr mr + word_of_int offset) (rkey mr) (nat len) of
             (Post_error, bytes, n) \<Rightarrow> Inr (-1, local_buf, c1\<lparr>net := n\<rparr>)
           | (Wc_error, bytes, n) \<Rightarrow> Inl Hang
           | (Wc_success, bytes, n) \<Rightarrow>
               let buf = bytes @ drop (length bytes) local_buf; c2 = c1\<lparr>net := n\<rparr>
               in Inr (0, buf, if RDMA_SEND_THREASHOLD < len then c2 else c2\<lparr>send_mr_list := smr # send_mr_list c2\<rparr>)))"

text \<open>
  The write is followed by a read of one byte, at \<open>addr + length - 1\<close> whatever the offset, into
  \<open>read_mr\<close>. The completion of the write puts the buffer back and clears \<open>write_flag\<close>.
\<close>

definition dhmp_rdma_write ::
  "'n verbs \<Rightarrow> 'n dhmp_client \<Rightarrow> nat \<Rightarrow> nat \<Rightarrow> ibv_mr \<Rightarrow> byte list \<Rightarrow> int \<Rightarrow> int \<Rightarrow> (int \<times> 'n dhmp_client) res" where
  "dhmp_rdma_write V c t p mr local_buf len offset =
     (case dhmp_get_mr_from_send_list V c len of
        (c1, None) \<Rightarrow> Inl Null_deref
      | (c1, Some smr) \<Rightarrow>
          let node = node_id (transports c1 t)
          in if node < 0 \<or> int DHMP_SERVER_NODE_NUM \<le> node then Inl Out_of_bounds
             else if read_mr c1 (nat node) = None then Inl Null_deref
             else (case net_write V (net c1) node (mr_addr mr + word_of_int offset) (rkey mr) (take (nat len) local_buf) of
                (Post_error, n) \<Rightarrow> Inl Process_exit
              | (wc, n) \<Rightarrow>
                  (case net_read V n node (mr_addr mr + word_of_int len - 1) (rkey mr) 1 of
                     (Post_error, bytes, n2) \<Rightarrow> Inl Process_exit
                   | (wc2, bytes, n2) \<Rightarrow>
                       if wc = Wc_error \<or> wc2 = Wc_error then Inl Hang
                       else
                         let c2 = c1\<lparr>net := n2\<rparr>;
                             c3 = (if RDMA_SEND_THREASHOLD < len then c2 else c2\<lparr>send_mr_list := smr # send_mr_list c2\<rparr>)
                         in rbind (upd_info c3 p (\<lambda>a. a\<lparr>write_flag := False\<rparr>)) (\<lambda>c4. Inr (0, c4)))))"

text \<open>\<open>dhmp_rdma_send\<close> returns when the response has set \<open>recv_flag\<close>.\<close>

definition dhmp_rdma_send :: "'n verbs \<Rightarrow> 'n dhmp_client \<Rightarrow> nat \<Rightarrow> nat \<Rightarrow> bool \<Rightarrow> 64 word \<Rightarrow> 'n dhmp_client res" where
  "dhmp_rdma_send V c t w is_write server_addr =
     (case send_works c w of
        None \<Rightarrow> Inl Use_after_free
      | Some sw \<Rightarrow>
          let req = \<lparr>send_req_size = length (sw_local sw), send_server_addr = server_addr, send_task = w, send_is_write = is_write\<rparr>
          in rbind (dhmp_post_send V c t (DHMP_MSG_SEND_REQUEST req (if is_write then sw_local sw else []))) (\<lambda>c1.
               case send_works c1 w of
                 None \<Rightarrow> Inl Use_after_free
               | Some sw1 \<Rightarrow> if sw_recv_flag sw1 then Inr c1 else Inl Hang))"

section \<open>The work thread\<close>

text \<open>
  \<open>dhmp_malloc_work_handler\<close>: the address record is registered under the full address; when the server
  reports an error it is freed and the result is \<open>NULL\<close>.
\<close>

definition dhmp_malloc_work_handler :: "'n verbs \<Rightarrow> 'n dhmp_client \<Rightarrow> nat \<Rightarrow> nat \<Rightarrow> nat \<Rightarrow> (64 word \<times> 'n dhmp_client) res" where
  "dhmp_malloc_work_handler V c t p len =
     rbind (dhmp_post_send V c t (DHMP_MSG_MALLOC_REQUEST \<lparr>mc_req_size = len, mc_addr_info = p\<rparr>)) (\<lambda>c1.
       case infos c1 p of
         None \<Rightarrow> Inl Use_after_free
       | Some a \<Rightarrow>
           if mr_length (nvm_mr a) = 0 then Inl Hang
           else if mr_addr (nvm_mr a) = 0 then Inr (0, c1\<lparr>infos := (infos c1)(p := None)\<rparr>)
           else
             let res_addr = dhmp_transfer_dhmp_addr c1 (Some t) (mr_addr (nvm_mr a))
             in rbind (upd_info c1 p (\<lambda>a. a\<lparr>node_index := dhmp_get_node_index_from_addr res_addr, write_flag := False\<rparr>)) (\<lambda>c2.
                  rbind (dhmp_addr_info_insert_ht c2 res_addr p) (\<lambda>c3. Inr (res_addr, c3))))"

definition dhmp_free_work_handler :: "'n verbs \<Rightarrow> 'n dhmp_client \<Rightarrow> nat \<Rightarrow> 64 word \<Rightarrow> 'n dhmp_client res" where
  "dhmp_free_work_handler V c t dhmp_addr =
     (let index = dhmp_hash_in_client dhmp_addr
      in rbind (dhmp_get_addr_info_from_ht c index dhmp_addr) (\<lambda>r.
           case r of
             None \<Rightarrow> Inr c
           | Some p \<Rightarrow>
               let c1 = c\<lparr>addr_info_ht := (addr_info_ht c)(nat index := remove1 p (addr_info_ht c (nat index)))\<rparr>
               in rbind (if in_recovery c1 then Inr c1
                         else (case infos c1 p of
                                 None \<Rightarrow> Inl Use_after_free
                               | Some a \<Rightarrow>
                                   rbind (dhmp_post_send V c1 t (DHMP_MSG_FREE_REQUEST p (nvm_mr a))) (\<lambda>c2.
                                     case infos c2 p of
                                       None \<Rightarrow> Inl Use_after_free
                                     | Some a2 \<Rightarrow> if mr_addr (nvm_mr a2) = 0 then Inr c2 else Inl Hang)))
                    (\<lambda>c2. Inr (c2\<lparr>infos := (infos c2)(p := None)\<rparr>))))"

text \<open>The results of \<open>dhmp_rdma_read\<close> and \<open>dhmp_rdma_write\<close> are dropped, a failed lookup is only logged.\<close>

definition dhmp_read_work_handler ::
  "'n verbs \<Rightarrow> 'n dhmp_client \<Rightarrow> nat \<Rightarrow> 64 word \<Rightarrow> byte list \<Rightarrow> int \<Rightarrow> (byte list \<times> 'n dhmp_client) res" where
  "dhmp_read_work_handler V c t dhmp_addr local_buf offset =
     rbind (dhmp_get_addr_info_from_ht c (dhmp_hash_in_client dhmp_addr) dhmp_addr) (\<lambda>r.
       case r of
         None \<Rightarrow> Inr (local_buf, c)
       | Some p \<Rightarrow>
           (case infos c p of
              None \<Rightarrow> Inl Use_after_free
            | Some a \<Rightarrow>
                if write_flag a then Inl Hang
                else rbind (upd_info c p (\<lambda>a. a\<lparr>read_cnt := sint32 (read_cnt a + 1)\<rparr>)) (\<lambda>c1.
                       rbind (dhmp_rdma_read V c1 t (nvm_mr a) local_buf (sint32 (int (length local_buf))) offset)
                         (\<lambda>(re, buf, c2). Inr (buf, c2)))))"

definition dhmp_write_work_handler ::
  "'n verbs \<Rightarrow> 'n dhmp_client \<Rightarrow> nat \<Rightarrow> 64 word \<Rightarrow> byte list \<Rightarrow> int \<Rightarrow> 'n dhmp_client res" where
  "dhmp_write_work_handler V c t dhmp_addr local_buf offset =
     rbind (dhmp_get_addr_info_from_ht c (dhmp_hash_in_client dhmp_addr) dhmp_addr) (\<lambda>r.
       case r of
         None \<Rightarrow> Inr c
       | Some p \<Rightarrow>
           (case infos c p of
              None \<Rightarrow> Inl Use_after_free
            | Some a \<Rightarrow>
                if write_flag a then Inl Hang
                else rbind (upd_info c p (\<lambda>a. a\<lparr>write_flag := True, write_cnt := sint32 (write_cnt a + 1)\<rparr>)) (\<lambda>c1.
                       rbind (dhmp_rdma_write V c1 t p (nvm_mr a) local_buf (sint32 (int (length local_buf))) offset)
                         (\<lambda>(re, c2). Inr c2))))"

text \<open>After a failed lookup the label \<open>out\<close> writes through the null pointer.\<close>

definition dhmp_send_work_handler :: "'n verbs \<Rightarrow> 'n dhmp_client \<Rightarrow> nat \<Rightarrow> nat \<Rightarrow> bool \<Rightarrow> 64 word \<Rightarrow> 'n dhmp_client res" where
  "dhmp_send_work_handler V c t w is_write dhmp_addr =
     rbind (dhmp_get_addr_info_from_ht c (dhmp_hash_in_client dhmp_addr) dhmp_addr) (\<lambda>r.
       case r of
         None \<Rightarrow> Inl Null_deref
       | Some p \<Rightarrow>
           (case infos c p of
              None \<Rightarrow> Inl Use_after_free
            | Some a \<Rightarrow>
                if write_flag a then Inl Hang
                else rbind (upd_info c p (\<lambda>a. if is_write then a\<lparr>write_flag := True, write_cnt := sint32 (write_cnt a + 1)\<rparr>
                                              else a\<lparr>write_flag := True, read_cnt := sint32 (read_cnt a + 1)\<rparr>)) (\<lambda>c1.
                       rbind (dhmp_rdma_send V c1 t w is_write (mr_addr (nvm_mr a))) (\<lambda>c2.
                         upd_info c2 p (\<lambda>a. a\<lparr>write_flag := False\<rparr>)))))"

definition dhmp_close_work_handler :: "'n verbs \<Rightarrow> 'n dhmp_client \<Rightarrow> nat \<Rightarrow> 'n dhmp_client res" where
  "dhmp_close_work_handler V c t = dhmp_post_send V c t DHMP_MSG_CLOSE_CONNECTION"

section \<open>The interface\<close>

definition dhmp_malloc :: "'n verbs \<Rightarrow> 'n dhmp_client \<Rightarrow> nat \<Rightarrow> int \<Rightarrow> (64 word \<times> 'n dhmp_client) res" where
  "dhmp_malloc V c len nodeid =
     (if len = 0 then Inr (0, c)
      else rbind (dhmp_node_select_by_id c nodeid) (\<lambda>r.
             case r of
               None \<Rightarrow> Inr (0, c)
             | Some t \<Rightarrow>
                 let p = next_info c; raw = raw_info c p;
                     a = raw\<lparr>nvm_mr := (nvm_mr raw)\<lparr>mr_length := 0\<rparr>, dram_mr := (dram_mr raw)\<lparr>mr_addr := 0\<rparr>\<rparr>
                 in dhmp_malloc_work_handler V (c\<lparr>next_info := Suc p, infos := (infos c)(p \<mapsto> a)\<rparr>) t p len))"

definition dhmp_free :: "'n verbs \<Rightarrow> 'n dhmp_client \<Rightarrow> 64 word \<Rightarrow> 'n dhmp_client res" where
  "dhmp_free V c dhmp_addr =
     (if dhmp_addr = 0 then Inr c
      else rbind (dhmp_get_trans_from_addr c dhmp_addr) (\<lambda>r.
             case r of
               None \<Rightarrow> Inr c
             | Some t \<Rightarrow> if node_connected c r then dhmp_free_work_handler V c t dhmp_addr else Inr c))"

definition dhmp_read :: "'n verbs \<Rightarrow> 'n dhmp_client \<Rightarrow> 64 word \<Rightarrow> byte list \<Rightarrow> int \<Rightarrow> (int \<times> byte list \<times> 'n dhmp_client) res" where
  "dhmp_read V c dhmp_addr local_buf offset =
     rbind (dhmp_get_trans_from_addr c dhmp_addr) (\<lambda>r.
       case r of
         None \<Rightarrow> Inr (-1, local_buf, c)
       | Some t \<Rightarrow>
           if node_connected c r
           then rbind (dhmp_read_work_handler V c t dhmp_addr local_buf offset) (\<lambda>(buf, c1). Inr (0, buf, c1))
           else Inr (-1, local_buf, c))"

definition dhmp_write :: "'n verbs \<Rightarrow> 'n dhmp_client \<Rightarrow> 64 word \<Rightarrow> byte list \<Rightarrow> int \<Rightarrow> (int \<times> 'n dhmp_client) res" where
  "dhmp_write V c dhmp_addr local_buf offset =
     rbind (dhmp_get_trans_from_addr c dhmp_addr) (\<lambda>r.
       case r of
         None \<Rightarrow> Inr (-1, c)
       | Some t \<Rightarrow>
           if node_connected c r
           then rbind (dhmp_write_work_handler V c t dhmp_addr local_buf offset) (\<lambda>c1. Inr (0, c1))
           else Inr (-1, c))"

definition dhmp_send :: "'n verbs \<Rightarrow> 'n dhmp_client \<Rightarrow> 64 word \<Rightarrow> byte list \<Rightarrow> bool \<Rightarrow> (int \<times> byte list \<times> 'n dhmp_client) res" where
  "dhmp_send V c dhmp_addr local_buf is_write =
     rbind (dhmp_get_trans_from_addr c dhmp_addr) (\<lambda>r.
       case r of
         None \<Rightarrow> Inr (-1, local_buf, c)
       | Some t \<Rightarrow>
           if node_connected c r
           then
             let w = next_work c
             in rbind (dhmp_send_work_handler V (c\<lparr>next_work := Suc w, send_works := (send_works c)(w \<mapsto> \<lparr>sw_local = local_buf, sw_recv_flag = False\<rparr>)\<rparr>)
                        t w is_write dhmp_addr) (\<lambda>c1.
                  case send_works c1 w of
                    None \<Rightarrow> Inl Use_after_free
                  | Some sw \<Rightarrow> Inr (0, sw_local sw, c1\<lparr>send_works := (send_works c1)(w := None)\<rparr>))
           else Inr (-1, local_buf, c))"

definition dhmp_close_connection :: "'n verbs \<Rightarrow> 'n dhmp_client \<Rightarrow> nat option \<Rightarrow> 'n dhmp_client res" where
  "dhmp_close_connection V c t =
     (case t of None \<Rightarrow> Inr c | Some p \<Rightarrow> if node_connected c t then dhmp_close_work_handler V c p else Inr c)"


section \<open>Addresses\<close>

text \<open>An address below \<open>2 ^ 63\<close> is its own signed value, and its top 16 bits are the quotient by \<open>2 ^ 48\<close>.\<close>

lemma sint_small:
  assumes "unat (a :: 64 word) < 2 ^ 63"
  shows "sint a = int (unat a)"
proof -
  have "uint a < 2 ^ 63" using assms by (metis of_nat_less_iff of_nat_numeral of_nat_power uint_nat)
  moreover have "- (2 ^ 63) \<le> uint a" by (rule order_trans[of _ 0]) simp_all
  ultimately have "signed_take_bit 63 (uint a) = uint a" by (intro signed_take_bit_int_eq_self) simp_all
  then show ?thesis by (simp add: sint_uint)
qed

lemma addr_node_small: "unat a < 2 ^ 63 \<Longrightarrow> addr_node a = int (unat a div 2 ^ 48)"
  by (simp add: addr_node_def sint_small zdiv_int)

lemma normal_small:
  assumes "unat a < 2 ^ 63"
  shows "unat (dhmp_transfer_normal_addr a) = unat a mod 2 ^ 48"
proof -
  have "word_of_int (addr_node a * 2 ^ 48) = (word_of_nat (unat a div 2 ^ 48 * 2 ^ 48) :: 64 word)"
    by (simp add: addr_node_small[OF assms])
  then have "dhmp_transfer_normal_addr a = word_of_nat (unat a) - word_of_nat (unat a div 2 ^ 48 * 2 ^ 48)"
    by (simp add: dhmp_transfer_normal_addr_def)
  also have "\<dots> = word_of_nat (unat a - unat a div 2 ^ 48 * 2 ^ 48)"
    by (rule of_nat_diff[symmetric]) simp
  also have "unat a - unat a div 2 ^ 48 * 2 ^ 48 = unat a mod 2 ^ 48"
    by (simp add: minus_div_mult_eq_mod)
  finally have e: "dhmp_transfer_normal_addr a = word_of_nat (unat a mod 2 ^ 48)" .
  have "unat a mod 2 ^ 48 < 2 ^ 64" by (rule less_trans[of _ "2 ^ 48"]) simp_all
  then show ?thesis unfolding e by (simp add: unat_of_nat take_bit_nat_eq_self)
qed

lemma transfer_unat:
  assumes "unat a < 2 ^ 48" "trans_index c t \<le> 3"
  shows "unat (dhmp_transfer_dhmp_addr c t a) = unat a + trans_index c t * 2 ^ 48"
proof -
  let ?i = "trans_index c t"
  have b: "unat a + ?i * 2 ^ 48 < 2 ^ 63"
  proof -
    have "?i * 2 ^ 48 \<le> 3 * 2 ^ 48" using assms(2) by simp
    then have "unat a + ?i * 2 ^ 48 < 2 ^ 48 + 3 * 2 ^ 48" using assms(1) by linarith
    then show ?thesis by simp
  qed
  have "dhmp_transfer_dhmp_addr c t a = word_of_nat (unat a + ?i * 2 ^ 48)"
    by (simp add: dhmp_transfer_dhmp_addr_def Let_def push_bit_eq_mult)
  moreover have "unat a + ?i * 2 ^ 48 < 2 ^ 64" by (rule less_trans[OF b]) simp
  ultimately show ?thesis by (simp only: unat_of_nat) (simp add: take_bit_nat_eq_self)
qed

lemma find_upt_Some: "List.find P [0 ..< n] = Some i \<Longrightarrow> i < n \<and> P i"
  by (auto simp: find_Some_iff)

lemma trans_index_le: "trans_index c t \<le> DHMP_SERVER_NODE_NUM"
  unfolding trans_index_def by (auto split: option.splits dest: find_upt_Some)

lemma trans_index_conn:
  assumes "connect_trans c i = t" "i < DHMP_SERVER_NODE_NUM"
  shows "trans_index c t < DHMP_SERVER_NODE_NUM \<and> connect_trans c (trans_index c t) = t"
proof -
  have "List.find (\<lambda>i. connect_trans c i = t) [0 ..< DHMP_SERVER_NODE_NUM] \<noteq> None"
    using assms by (auto simp: find_None_iff)
  then obtain j where j: "List.find (\<lambda>i. connect_trans c i = t) [0 ..< DHMP_SERVER_NODE_NUM] = Some j" by auto
  from find_upt_Some[OF j] show ?thesis by (simp add: trans_index_def j)
qed

text \<open>Node and address of a server go into a cluster address and come out again.\<close>

lemma addr_split:
  assumes "unat a < 2 ^ 48" "connect_trans c i = t" "i < DHMP_SERVER_NODE_NUM"
  shows "dhmp_transfer_normal_addr (dhmp_transfer_dhmp_addr c t a) = a"
    "addr_node (dhmp_transfer_dhmp_addr c t a) = int (trans_index c t)"
    "dhmp_get_trans_from_addr c (dhmp_transfer_dhmp_addr c t a) = Inr t"
proof -
  let ?i = "trans_index c t" and ?d = "dhmp_transfer_dhmp_addr c t a"
  have i: "?i < DHMP_SERVER_NODE_NUM" "connect_trans c ?i = t" using trans_index_conn[OF assms(2,3)] by auto
  have u: "unat ?d = unat a + ?i * 2 ^ 48" by (rule transfer_unat[OF assms(1)]) (use i in \<open>simp add: DHMP_SERVER_NODE_NUM_def\<close>)
  have "?i * 2 ^ 48 \<le> 2 * 2 ^ 48" using i by (simp add: DHMP_SERVER_NODE_NUM_def)
  then have "unat ?d < 2 ^ 48 + 2 * 2 ^ 48" using u assms(1) by linarith
  then have s: "unat ?d < 2 ^ 63" by simp
  have "unat (dhmp_transfer_normal_addr ?d) = (unat a + ?i * 2 ^ 48) mod 2 ^ 48" by (simp only: normal_small[OF s] u)
  also have "\<dots> = unat a" using assms(1) by simp
  finally show "dhmp_transfer_normal_addr ?d = a" by (rule word_unat_eq_iff[THEN iffD2])
  have "(unat a + ?i * 2 ^ 48) div 2 ^ 48 = ?i" using assms(1) by simp
  then show n: "addr_node ?d = int ?i" by (simp only: addr_node_small[OF s] u)
  show "dhmp_get_trans_from_addr c ?d = Inr t"
    using i by (simp add: dhmp_get_trans_from_addr_def trans_at_def n)
qed


section \<open>What the RDMA stack promises\<close>

text \<open>
  \<open>mem\<close> is the memory of the nodes, \<open>grant n node key base len\<close> says that the node has registered that region
  under that remote key with read and write access. Registering local memory succeeds; a read or a
  write inside a granted region completes, a write changes exactly the bytes it names, and neither
  revokes a region.
\<close>

definition verbs_ok :: "'n verbs \<Rightarrow> ('n \<Rightarrow> int \<Rightarrow> buf) \<Rightarrow> ('n \<Rightarrow> int \<Rightarrow> nat \<Rightarrow> nat \<Rightarrow> nat \<Rightarrow> bool) \<Rightarrow> bool" where
  "verbs_ok V mem grant \<longleftrightarrow>
     (\<forall>n k. 0 < k \<longrightarrow> net_reg V n k) \<and>
     (\<forall>n node key base len a k. grant n node key base len \<longrightarrow> base \<le> unat a \<longrightarrow> unat a + k \<le> base + len \<longrightarrow> 0 < k \<longrightarrow>
        (\<exists>n'. net_read V n node a key k = (Wc_success, buf_read (mem n node) (unat a) k, n') \<and> mem n' = mem n \<and> grant n' = grant n)) \<and>
     (\<forall>n node key base len a bs. grant n node key base len \<longrightarrow> base \<le> unat a \<longrightarrow> unat a + length bs \<le> base + len \<longrightarrow> bs \<noteq> [] \<longrightarrow>
        (\<exists>n'. net_write V n node a key bs = (Wc_success, n') \<and> mem n' = (mem n)(node := buf_write (mem n node) (unat a) bs) \<and> grant n' = grant n))"

lemma verbs_reg: "verbs_ok V mem grant \<Longrightarrow> 0 < k \<Longrightarrow> net_reg V n k"
  by (simp add: verbs_ok_def)

lemma verbs_read:
  assumes "verbs_ok V mem grant" "grant n node key base len" "base \<le> unat a" "unat a + k \<le> base + len" "0 < k"
  obtains n' where "net_read V n node a key k = (Wc_success, buf_read (mem n node) (unat a) k, n')" "mem n' = mem n" "grant n' = grant n"
  using assms unfolding verbs_ok_def by blast

lemma verbs_write:
  assumes "verbs_ok V mem grant" "grant n node key base len" "base \<le> unat a" "unat a + length bs \<le> base + len" "bs \<noteq> []"
  obtains n' where "net_write V n node a key bs = (Wc_success, n')" "mem n' = (mem n)(node := buf_write (mem n node) (unat a) bs)" "grant n' = grant n"
  using assms unfolding verbs_ok_def by blast

section \<open>Usable addresses\<close>

text \<open>Transport, record pointer and record an address leads to.\<close>

definition cl_target :: "'n dhmp_client \<Rightarrow> nat \<Rightarrow> (nat \<times> nat \<times> dhmp_addr_info) option" where
  "cl_target c a =
     (let w = word_of_nat a
      in case dhmp_get_trans_from_addr c w of
           Inr (Some t) \<Rightarrow>
             (case dhmp_get_addr_info_from_ht c (dhmp_hash_in_client w) w of
                Inr (Some p) \<Rightarrow> (case infos c p of Some info \<Rightarrow> Some (t, p, info) | None \<Rightarrow> None)
              | _ \<Rightarrow> None)
         | _ \<Rightarrow> None)"

definition cl_node :: "'n dhmp_client \<Rightarrow> nat \<Rightarrow> int" where
  "cl_node c a = (case cl_target c a of Some (t, p, info) \<Rightarrow> node_id (transports c t) | None \<Rightarrow> 0)"

definition cl_base :: "'n dhmp_client \<Rightarrow> nat \<Rightarrow> nat" where
  "cl_base c a = (case cl_target c a of Some (t, p, info) \<Rightarrow> unat (mr_addr (nvm_mr info)) | None \<Rightarrow> 0)"

text \<open>A usable address: its node is connected and has granted the region its record names.\<close>

definition cl_usable :: "('n \<Rightarrow> int \<Rightarrow> nat \<Rightarrow> nat \<Rightarrow> nat \<Rightarrow> bool) \<Rightarrow> nat \<Rightarrow> 'n dhmp_client \<Rightarrow> nat \<Rightarrow> bool" where
  "cl_usable grant region c a \<longleftrightarrow> a < 2 ^ 64 \<and>
     (case cl_target c a of
        None \<Rightarrow> False
      | Some (t, p, info) \<Rightarrow>
          let node = node_id (transports c t); mr = nvm_mr info
          in trans_state (transports c t) = DHMP_TRANSPORT_STATE_CONNECTED \<and> \<not> write_flag info \<and>
             0 \<le> node \<and> node < int DHMP_SERVER_NODE_NUM \<and> read_mr c (nat node) \<noteq> None \<and>
             grant (net c) node (rkey mr) (unat (mr_addr mr)) (mr_length mr) \<and>
             region \<le> mr_length mr \<and> unat (mr_addr mr) + mr_length mr < 2 ^ 64)"

definition cl_apart :: "nat \<Rightarrow> 'n dhmp_client \<Rightarrow> nat \<Rightarrow> nat \<Rightarrow> bool" where
  "cl_apart region c a b \<longleftrightarrow> cl_node c a \<noteq> cl_node c b \<or> cl_base c a + region \<le> cl_base c b \<or> cl_base c b + region \<le> cl_base c a"

definition cl_ok :: "('n \<Rightarrow> int \<Rightarrow> nat \<Rightarrow> nat \<Rightarrow> nat \<Rightarrow> bool) \<Rightarrow> nat \<Rightarrow> 'n dhmp_client \<Rightarrow> nat \<Rightarrow> bool" where
  "cl_ok grant region c a \<longleftrightarrow> cl_usable grant region c a \<and>
     (\<forall>b. b \<noteq> a \<longrightarrow> cl_usable grant region c b \<longrightarrow> cl_apart region c a b)"

definition cl_content :: "('n \<Rightarrow> int \<Rightarrow> buf) \<Rightarrow> nat \<Rightarrow> 'n dhmp_client \<Rightarrow> nat \<Rightarrow> buf" where
  "cl_content mem region c a = (\<lambda>j. if j < region then mem (net c) (cl_node c a) (cl_base c a + j) else 0)"

text \<open>What a read or write leaves of the tables.\<close>

definition same_table :: "'n dhmp_client \<Rightarrow> 'n dhmp_client \<Rightarrow> bool" where
  "same_table c c' \<longleftrightarrow> connect_trans c' = connect_trans c \<and> transports c' = transports c \<and> addr_info_ht c' = addr_info_ht c \<and>
     read_mr c' = read_mr c \<and>
     (\<forall>p. map_option (\<lambda>a. (nvm_mr a, write_flag a)) (infos c' p) = map_option (\<lambda>a. (nvm_mr a, write_flag a)) (infos c p))"

lemma same_table_info:
  assumes "same_table c c'"
  shows "infos c p = None \<Longrightarrow> infos c' p = None"
    "infos c p = Some a \<Longrightarrow> \<exists>a'. infos c' p = Some a' \<and> nvm_mr a' = nvm_mr a \<and> write_flag a' = write_flag a"
proof -
  have e: "map_option (\<lambda>a. (nvm_mr a, write_flag a)) (infos c' p) = map_option (\<lambda>a. (nvm_mr a, write_flag a)) (infos c p)"
    using assms by (simp add: same_table_def)
  show "infos c p = None \<Longrightarrow> infos c' p = None" using e by simp
  show "infos c p = Some a \<Longrightarrow> \<exists>a'. infos c' p = Some a' \<and> nvm_mr a' = nvm_mr a \<and> write_flag a' = write_flag a" using e by auto
qed

lemma same_table_find: "same_table c c' \<Longrightarrow> bucket_find c' ps w = bucket_find c ps w"
proof (induction ps)
  case (Cons p ps)
  show ?case
  proof (cases "infos c p")
    case None
    then show ?thesis using same_table_info(1)[OF Cons.prems None] by simp
  next
    case (Some a)
    then show ?thesis using same_table_info(2)[OF Cons.prems Some] Cons by auto
  qed
qed simp

lemma same_table_lookup:
  assumes "same_table c c'"
  shows "dhmp_get_addr_info_from_ht c' i w = dhmp_get_addr_info_from_ht c i w" "dhmp_get_trans_from_addr c' w = dhmp_get_trans_from_addr c w"
  using assms by (simp_all add: dhmp_get_addr_info_from_ht_def same_table_find) (simp_all add: same_table_def dhmp_get_trans_from_addr_def trans_at_def)

lemma same_table_target:
  assumes "same_table c c'"
  shows "cl_target c a = None \<Longrightarrow> cl_target c' a = None"
    "cl_target c a = Some (t, p, info) \<Longrightarrow> \<exists>info'. cl_target c' a = Some (t, p, info') \<and> nvm_mr info' = nvm_mr info \<and> write_flag info' = write_flag info"
  using same_table_info(1)[OF assms] same_table_info(2)[OF assms, of p info]
  by (auto simp: cl_target_def Let_def same_table_lookup[OF assms] split: sum.splits option.splits)

lemma same_table_place:
  assumes "same_table c c'"
  shows "cl_node c' a = cl_node c a" "cl_base c' a = cl_base c a"
proof -
  have t: "transports c' = transports c" using assms by (simp add: same_table_def)
  have "cl_node c' a = cl_node c a \<and> cl_base c' a = cl_base c a"
  proof (cases "cl_target c a")
    case None
    then show ?thesis using same_table_target(1)[OF assms None] by (simp add: cl_node_def cl_base_def)
  next
    case (Some x)
    obtain tt p info where x: "x = (tt, p, info)" by (cases x)
    from same_table_target(2)[OF assms Some[unfolded x]] obtain info' where
      "cl_target c' a = Some (tt, p, info')" "nvm_mr info' = nvm_mr info" by auto
    then show ?thesis using Some x t by (simp add: cl_node_def cl_base_def)
  qed
  then show "cl_node c' a = cl_node c a" "cl_base c' a = cl_base c a" by auto
qed

lemma same_table_usable:
  assumes "same_table c c'" "grant (net c') = grant (net c)"
  shows "cl_usable grant region c' a = cl_usable grant region c a"
proof -
  have t: "transports c' = transports c" "read_mr c' = read_mr c" using assms by (simp_all add: same_table_def)
  show ?thesis
  proof (cases "cl_target c a")
    case None
    then show ?thesis using same_table_target(1)[OF assms(1) None] by (simp add: cl_usable_def)
  next
    case (Some x)
    obtain tt p info where x: "x = (tt, p, info)" by (cases x)
    from same_table_target(2)[OF assms(1) Some[unfolded x]] obtain info' where
      "cl_target c' a = Some (tt, p, info')" "nvm_mr info' = nvm_mr info" "write_flag info' = write_flag info" by auto
    then show ?thesis using Some x t assms(2) by (simp add: cl_usable_def)
  qed
qed

lemma same_table_ok:
  assumes "same_table c c'" "grant (net c') = grant (net c)"
  shows "cl_ok grant region c' = cl_ok grant region c"
  by (rule ext) (simp add: cl_ok_def same_table_usable[OF assms] cl_apart_def same_table_place[OF assms(1)])


section \<open>Reading and writing a usable address\<close>

lemma word_offset:
  assumes "unat (a :: 64 word) + off < 2 ^ 64"
  shows "unat (a + word_of_int (int off)) = unat a + off"
proof -
  have "unat (word_of_int (int off) :: 64 word) = off" using assms by (simp add: unat_of_nat take_bit_nat_eq_self)
  then show ?thesis using assms by (simp add: unat_word_ariths)
qed

lemma get_mr_ok:
  assumes "verbs_ok V mem grant" "0 < len"
  obtains ls l where "dhmp_get_mr_from_send_list V c len = (c\<lparr>send_mr_list := ls\<rparr>, Some l)"
proof -
  have r: "net_reg V (net c) (nat len)" using verbs_reg[OF assms(1)] assms(2) by simp
  show ?thesis
  proof (cases "take_first (\<lambda>l. nat len \<le> l) (send_mr_list c)")
    case None
    then have "dhmp_get_mr_from_send_list V c len = (c\<lparr>send_mr_list := send_mr_list c\<rparr>, Some (nat len))"
      using r assms(2) by (simp add: dhmp_get_mr_from_send_list_def)
    then show ?thesis by (rule that)
  next
    case (Some x)
    obtain l ls where x: "x = (l, ls)" by fastforce
    show ?thesis
    proof (cases "RDMA_SEND_THREASHOLD < len")
      case True
      then have "dhmp_get_mr_from_send_list V c len = (c\<lparr>send_mr_list := send_mr_list c\<rparr>, Some (nat len))"
        using r by (simp add: dhmp_get_mr_from_send_list_def)
      then show ?thesis by (rule that)
    next
      case False
      then have "dhmp_get_mr_from_send_list V c len = (c\<lparr>send_mr_list := ls\<rparr>, Some l)"
        using Some x assms(2) by (simp add: dhmp_get_mr_from_send_list_def)
      then show ?thesis by (rule that)
    qed
  qed
qed

text \<open>What \<open>cl_usable\<close> says, taken apart for the proofs.\<close>

lemma usableE:
  assumes "cl_usable grant region c a"
  obtains t p info where
    "dhmp_get_trans_from_addr c (word_of_nat a) = Inr (Some t)"
    "dhmp_get_addr_info_from_ht c (dhmp_hash_in_client (word_of_nat a)) (word_of_nat a) = Inr (Some p)" "infos c p = Some info"
    "node_connected c (Some t)" "\<not> write_flag info" "cl_node c a = node_id (transports c t)" "cl_base c a = unat (mr_addr (nvm_mr info))"
    "0 \<le> cl_node c a" "cl_node c a < int DHMP_SERVER_NODE_NUM" "read_mr c (nat (cl_node c a)) \<noteq> None"
    "grant (net c) (cl_node c a) (rkey (nvm_mr info)) (cl_base c a) (mr_length (nvm_mr info))"
    "region \<le> mr_length (nvm_mr info)" "cl_base c a + mr_length (nvm_mr info) < 2 ^ 64"
proof -
  from assms obtain t p info where tg: "cl_target c a = Some (t, p, info)"
    by (auto simp: cl_usable_def split: option.splits)
  then have 1: "dhmp_get_trans_from_addr c (word_of_nat a) = Inr (Some t)"
    "dhmp_get_addr_info_from_ht c (dhmp_hash_in_client (word_of_nat a)) (word_of_nat a) = Inr (Some p)" "infos c p = Some info"
    by (auto simp: cl_target_def Let_def split: sum.splits option.splits)
  have 2: "cl_node c a = node_id (transports c t)" "cl_base c a = unat (mr_addr (nvm_mr info))"
    using tg by (simp_all add: cl_node_def cl_base_def)
  show ?thesis using assms tg 2 by (intro that[OF 1]) (simp_all add: cl_usable_def Let_def node_connected_def)
qed

lemma cl_read_ok:
  assumes V: "verbs_ok V mem grant" and u: "cl_usable grant region c a"
    and b: "buff \<noteq> []" "off + length buff \<le> region" "region < 2 ^ 31"
  shows "\<exists>c'. dhmp_read V c (word_of_nat a) buff (int off) = Inr (0, buf_read (cl_content mem region c a) off (length buff), c') \<and>
    same_table c c' \<and> mem (net c') = mem (net c) \<and> grant (net c') = grant (net c)"
proof -
  from u obtain t p info where h: "dhmp_get_trans_from_addr c (word_of_nat a) = Inr (Some t)"
    "dhmp_get_addr_info_from_ht c (dhmp_hash_in_client (word_of_nat a)) (word_of_nat a) = Inr (Some p)" "infos c p = Some info"
    "node_connected c (Some t)" "\<not> write_flag info" "cl_node c a = node_id (transports c t)" "cl_base c a = unat (mr_addr (nvm_mr info))"
    "grant (net c) (cl_node c a) (rkey (nvm_mr info)) (cl_base c a) (mr_length (nvm_mr info))"
    "region \<le> mr_length (nvm_mr info)" "cl_base c a + mr_length (nvm_mr info) < 2 ^ 64" by (rule usableE)
  define c1 where "c1 = c\<lparr>infos := (infos c)(p \<mapsto> info\<lparr>read_cnt := sint32 (read_cnt info + 1)\<rparr>)\<rparr>"
  have c1: "net c1 = net c" "transports c1 = transports c" by (simp_all add: c1_def)
  have up: "upd_info c p (\<lambda>a. a\<lparr>read_cnt := sint32 (read_cnt a + 1)\<rparr>) = Inr c1" by (simp add: upd_info_def h(3) c1_def)
  have len: "sint32 (int (length buff)) = int (length buff)" by (rule sint32_id) (use b in auto)
  have pos: "0 < length buff" using b(1) by simp
  from get_mr_ok[OF V, of "int (length buff)" c1] pos obtain ls l where
    mr: "dhmp_get_mr_from_send_list V c1 (int (length buff)) = (c1\<lparr>send_mr_list := ls\<rparr>, Some l)" by auto
  have ad: "unat (mr_addr (nvm_mr info) + word_of_int (int off)) = cl_base c a + off"
    unfolding h(7) by (rule word_offset) (use b h(7,9,10) pos in linarith)
  from verbs_read[OF V h(8), of "mr_addr (nvm_mr info) + word_of_int (int off)" "length buff"] ad b h(9) pos obtain n' where
    n': "net_read V (net c) (cl_node c a) (mr_addr (nvm_mr info) + word_of_int (int off)) (rkey (nvm_mr info)) (length buff) =
      (Wc_success, buf_read (mem (net c) (cl_node c a)) (cl_base c a + off) (length buff), n')" "mem n' = mem (net c)" "grant n' = grant (net c)"
    by auto
  have bytes: "buf_read (mem (net c) (cl_node c a)) (cl_base c a + off) (length buff) = buf_read (cl_content mem region c a) off (length buff)"
    by (rule nth_equalityI) (use b(2) in \<open>auto simp: cl_content_def ac_simps\<close>)
  define c2 where "c2 = (if RDMA_SEND_THREASHOLD < int (length buff) then c1\<lparr>send_mr_list := ls, net := n'\<rparr>
      else c1\<lparr>send_mr_list := l # ls, net := n'\<rparr>)"
  have rd: "dhmp_rdma_read V c1 t (nvm_mr info) buff (int (length buff)) (int off) =
      Inr (0, buf_read (cl_content mem region c a) off (length buff), c2)"
    using n'(1) by (simp add: dhmp_rdma_read_def mr c1 h(6)[symmetric] c2_def bytes)
  have "dhmp_read V c (word_of_nat a) buff (int off) = Inr (0, buf_read (cl_content mem region c a) off (length buff), c2)"
    by (simp add: dhmp_read_def h(1,2,3,4,5) dhmp_read_work_handler_def up len rd)
  moreover have "same_table c c2" by (simp add: c2_def c1_def same_table_def h(3))
  moreover have "mem (net c2) = mem (net c)" "grant (net c2) = grant (net c)" by (simp_all add: c2_def n')
  ultimately show ?thesis by blast
qed

lemma cl_write_ok:
  assumes V: "verbs_ok V mem grant" and u: "cl_usable grant region c a"
    and b: "bs \<noteq> []" "off + length bs \<le> region" "region < 2 ^ 31"
  shows "\<exists>c'. dhmp_write V c (word_of_nat a) bs (int off) = Inr (0, c') \<and> same_table c c' \<and>
    mem (net c') = (mem (net c))(cl_node c a := buf_write (mem (net c) (cl_node c a)) (cl_base c a + off) bs) \<and> grant (net c') = grant (net c)"
proof -
  from u obtain t p info where h: "dhmp_get_trans_from_addr c (word_of_nat a) = Inr (Some t)"
    "dhmp_get_addr_info_from_ht c (dhmp_hash_in_client (word_of_nat a)) (word_of_nat a) = Inr (Some p)" "infos c p = Some info"
    "node_connected c (Some t)" "\<not> write_flag info" "cl_node c a = node_id (transports c t)" "cl_base c a = unat (mr_addr (nvm_mr info))"
    "0 \<le> cl_node c a" "cl_node c a < int DHMP_SERVER_NODE_NUM" "read_mr c (nat (cl_node c a)) \<noteq> None"
    "grant (net c) (cl_node c a) (rkey (nvm_mr info)) (cl_base c a) (mr_length (nvm_mr info))"
    "region \<le> mr_length (nvm_mr info)" "cl_base c a + mr_length (nvm_mr info) < 2 ^ 64" by (rule usableE)
  define c1 where "c1 = c\<lparr>infos := (infos c)(p \<mapsto> info\<lparr>write_flag := True, write_cnt := sint32 (write_cnt info + 1)\<rparr>)\<rparr>"
  have c1: "net c1 = net c" "transports c1 = transports c" "read_mr c1 = read_mr c" by (simp_all add: c1_def)
  have up: "upd_info c p (\<lambda>a. a\<lparr>write_flag := True, write_cnt := sint32 (write_cnt a + 1)\<rparr>) = Inr c1" by (simp add: upd_info_def h(3) c1_def)
  have len: "sint32 (int (length bs)) = int (length bs)" by (rule sint32_id) (use b in auto)
  have pos: "0 < length bs" using b(1) by simp
  from get_mr_ok[OF V, of "int (length bs)" c1] pos obtain ls l where
    mr: "dhmp_get_mr_from_send_list V c1 (int (length bs)) = (c1\<lparr>send_mr_list := ls\<rparr>, Some l)" by auto
  have ad: "unat (mr_addr (nvm_mr info) + word_of_int (int off)) = cl_base c a + off"
    unfolding h(7) by (rule word_offset) (use b h(7,12,13) pos in linarith)
  from verbs_write[OF V h(11), of "mr_addr (nvm_mr info) + word_of_int (int off)" bs] ad b h(12) obtain n1 where
    n1: "net_write V (net c) (cl_node c a) (mr_addr (nvm_mr info) + word_of_int (int off)) (rkey (nvm_mr info)) bs = (Wc_success, n1)"
      "mem n1 = (mem (net c))(cl_node c a := buf_write (mem (net c) (cl_node c a)) (cl_base c a + off) bs)" "grant n1 = grant (net c)"
    by auto
  have "word_of_int (int (length bs)) - 1 = (word_of_int (int (length bs - 1)) :: 64 word)" using pos by (simp add: of_nat_diff[of 1 "length bs"] Suc_le_eq)
  then have v: "mr_addr (nvm_mr info) + word_of_int (int (length bs)) - 1 = mr_addr (nvm_mr info) + word_of_int (int (length bs - 1))"
    by (metis add_diff_eq)
  have ad2: "unat (mr_addr (nvm_mr info) + word_of_int (int (length bs)) - 1) = cl_base c a + (length bs - 1)"
    unfolding h(7) v by (rule word_offset) (use b h(7,12,13) pos in linarith)
  have g1: "grant n1 (cl_node c a) (rkey (nvm_mr info)) (cl_base c a) (mr_length (nvm_mr info))" using h(11) n1(3) by simp
  have in2: "cl_base c a \<le> unat (mr_addr (nvm_mr info) + word_of_int (int (length bs)) - 1)"
    "unat (mr_addr (nvm_mr info) + word_of_int (int (length bs)) - 1) + 1 \<le> cl_base c a + mr_length (nvm_mr info)"
    unfolding ad2 using b(2) h(12) pos by linarith+
  obtain n2 x where
    n2: "net_read V n1 (cl_node c a) (mr_addr (nvm_mr info) + word_of_int (int (length bs)) - 1) (rkey (nvm_mr info)) 1 = (Wc_success, x, n2)"
      "mem n2 = mem n1" "grant n2 = grant n1"
    by (rule verbs_read[OF V g1 in2]) auto
  define c2 where "c2 = (if RDMA_SEND_THREASHOLD < int (length bs) then c1\<lparr>send_mr_list := ls, net := n2\<rparr>
      else c1\<lparr>send_mr_list := l # ls, net := n2\<rparr>)"
  define c3 where "c3 = c2\<lparr>infos := (infos c)(p \<mapsto> info\<lparr>write_cnt := sint32 (write_cnt info + 1), write_flag := False\<rparr>)\<rparr>"
  have fin: "upd_info c2 p (\<lambda>a. a\<lparr>write_flag := False\<rparr>) = Inr c3"
    by (simp add: upd_info_def c3_def c2_def c1_def)
  have nd: "\<not> (cl_node c a < 0 \<or> int DHMP_SERVER_NODE_NUM \<le> cl_node c a)" using h(8,9) by simp
  have c2': "c2 = (let c2 = c1\<lparr>send_mr_list := ls, net := n2\<rparr> in if RDMA_SEND_THREASHOLD < int (length bs) then c2 else c2\<lparr>send_mr_list := l # send_mr_list c2\<rparr>)"
    by (simp add: c2_def)
  have wr: "dhmp_rdma_write V c1 t p (nvm_mr info) bs (int (length bs)) (int off) = Inr (0, c3)"
    using n1(1) n2(1) nd h(10) fin unfolding c2' by (simp add: dhmp_rdma_write_def mr c1 h(6)[symmetric] Let_def)
  have "dhmp_write V c (word_of_nat a) bs (int off) = Inr (0, c3)"
    by (simp add: dhmp_write_def h(1,2,3,4,5) dhmp_write_work_handler_def up len wr)
  moreover have "same_table c c3" using h(3,5) by (simp add: c3_def c2_def c1_def same_table_def)
  moreover have "mem (net c3) = (mem (net c))(cl_node c a := buf_write (mem (net c) (cl_node c a)) (cl_base c a + off) bs)"
    "grant (net c3) = grant (net c)" by (simp_all add: c3_def c2_def n1 n2)
  ultimately show ?thesis by blast
qed


section \<open>The client as a remote store\<close>

lemma bucket_find_works: "bucket_find (c\<lparr>next_work := w, send_works := f\<rparr>) ps a = bucket_find c ps a"
  by (induction ps) (auto split: option.splits)

text \<open>The calls obey the contract the file system relies on, for usable addresses whose regions are apart.\<close>

lemma client_store:
  assumes V: "verbs_ok V mem grant" and r: "region < 2 ^ 31"
  shows "remote_store (\<lambda>c a buf off. dhmp_read V c (word_of_nat a) buf (int off)) (\<lambda>c a bs off. dhmp_write V c (word_of_nat a) bs (int off))
    (cl_content mem region) (cl_ok grant region) region"
proof
  fix c :: "'a dhmp_client" and a and buff :: "byte list" and off
  assume h: "cl_ok grant region c a" "buff \<noteq> []" "off + length buff \<le> region"
  have u: "cl_usable grant region c a" using h(1) by (simp add: cl_ok_def)
  from cl_read_ok[OF V u h(2,3) r] obtain c' where
    c': "dhmp_read V c (word_of_nat a) buff (int off) = Inr (0, buf_read (cl_content mem region c a) off (length buff), c')"
      "same_table c c'" "mem (net c') = mem (net c)" "grant (net c') = grant (net c)" by blast
  have "cl_content mem region c' b = cl_content mem region c b" for b
    using same_table_place[OF c'(2), of b] c'(3) by (simp add: cl_content_def fun_eq_iff)
  then show "\<exists>m'. dhmp_read V c (word_of_nat a) buff (int off) = Inr (0, buf_read (cl_content mem region c a) off (length buff), m') \<and>
      cl_ok grant region m' = cl_ok grant region c \<and> (\<forall>b. cl_ok grant region c b \<longrightarrow> cl_content mem region m' b = cl_content mem region c b)"
    using c'(1) same_table_ok[OF c'(2,4)] by blast
next
  fix c :: "'a dhmp_client" and a and bs :: "byte list" and off
  assume h: "cl_ok grant region c a" "bs \<noteq> []" "off + length bs \<le> region"
  have u: "cl_usable grant region c a" using h(1) by (simp add: cl_ok_def)
  from cl_write_ok[OF V u h(2,3) r] obtain c' where
    c': "dhmp_write V c (word_of_nat a) bs (int off) = Inr (0, c')" "same_table c c'"
      "mem (net c') = (mem (net c))(cl_node c a := buf_write (mem (net c) (cl_node c a)) (cl_base c a + off) bs)" "grant (net c') = grant (net c)" by blast
  have "cl_content mem region c' b = (if b = a then buf_write (cl_content mem region c a) off bs else cl_content mem region c b)"
    if b: "cl_ok grant region c b" for b
  proof (cases "b = a")
    case True
    then show ?thesis using h(3)
      using same_table_place[OF c'(2), of b] c'(3) by (auto simp: cl_content_def buf_write_def fun_eq_iff)
  next
    case False
    have "cl_apart region c a b" using h(1) b False by (simp add: cl_ok_def)
    then show ?thesis using h(3) False
      using same_table_place[OF c'(2), of b] c'(3) by (auto simp: cl_content_def buf_write_def fun_eq_iff cl_apart_def)
  qed
  then show "\<exists>m'. dhmp_write V c (word_of_nat a) bs (int off) = Inr (0, m') \<and> cl_ok grant region m' = cl_ok grant region c \<and>
      (\<forall>b. cl_ok grant region c b \<longrightarrow> cl_content mem region m' b = (if b = a then buf_write (cl_content mem region c a) off bs else cl_content mem region c b))"
    using c'(1) same_table_ok[OF c'(2,4)] by blast
qed

section \<open>Properties\<close>

text \<open>A server address below \<open>2 ^ 48\<close> and a node go into a cluster address and come out again: the
  node's transport is found from the address, and the server address is its low 48 bits.\<close>

theorem addr_roundtrip:
  assumes "unat a < 2 ^ 48" "i < DHMP_SERVER_NODE_NUM" "connect_trans c i = Some t" "\<forall>j < i. connect_trans c j \<noteq> Some t"
  shows "dhmp_transfer_normal_addr (dhmp_transfer_dhmp_addr c (Some t) a) = a \<and>
    dhmp_get_trans_from_addr c (dhmp_transfer_dhmp_addr c (Some t) a) = Inr (Some t) \<and>
    dhmp_get_node_index_from_addr (dhmp_transfer_dhmp_addr c (Some t) a) = int i \<and>
    unat (dhmp_transfer_dhmp_addr c (Some t) a) = unat a + i * 2 ^ 48"
proof -
  have le: "trans_index c (Some t) \<le> 3" using trans_index_conn[OF assms(3,2)] by (simp add: DHMP_SERVER_NODE_NUM_def)
  have "trans_index c (Some t) = i"
  proof -
    have "List.find (\<lambda>i. connect_trans c i = Some t) [0 ..< DHMP_SERVER_NODE_NUM] = Some i"
      using assms(2-4) by (auto simp: find_Some_iff intro!: exI[of _ i])
    then show ?thesis by (simp add: trans_index_def)
  qed
  then show ?thesis using addr_split[OF assms(1,3,2)] transfer_unat[OF assms(1) le] assms(2)
    by (simp add: dhmp_get_node_index_from_addr_def sint32_id DHMP_SERVER_NODE_NUM_def)
qed

text \<open>A client with two nodes.\<close>

definition blank_transport :: dhmp_transport where
  "blank_transport = \<lparr>peer_addr = \<lparr>sin_addr = 0, sin_port = 0\<rparr>, local_addr = \<lparr>sin_addr = 0, sin_port = 0\<rparr>, node_id = 0,
     trans_state = DHMP_TRANSPORT_STATE_CONNECTED, dcq = None, qp = None, event_channel = None, cm_id = None,
     send_mr = Some \<lparr>cur_pos = 0, dmr_addr = 0, dmr_lkey = 0\<rparr>, recv_mr = None, is_poll_qp = False, link_trans = None,
     dram_used_size = 0, nvm_used_size = 0\<rparr>"

definition blank_info :: dhmp_addr_info where
  "blank_info = \<lparr>read_cnt = 0, write_cnt = 0, node_index = 0, write_flag = False,
     dram_mr = \<lparr>mr_addr = 0, mr_length = 0, lkey = 0, rkey = 0\<rparr>, nvm_mr = \<lparr>mr_addr = 0, mr_length = 0, lkey = 0, rkey = 0\<rparr>\<rparr>"

definition sample_client :: "'n \<Rightarrow> 'n dhmp_client" where
  "sample_client n0 = \<lparr>transports = (\<lambda>t. blank_transport\<lparr>node_id := int t\<rparr>), connect_trans = (\<lambda>i. if i < 2 then Some i else None),
     poll_trans = (\<lambda>i. None), addr_info_ht = (\<lambda>i. []), infos = (\<lambda>p. None), raw_info = (\<lambda>p. blank_info), next_info = 0,
     send_works = (\<lambda>w. None), next_work = 0, send_mr_list = [], read_mr = (\<lambda>i. Some 64), fifo_node_index = 0, poll_num = 0,
     res_dram_size = (\<lambda>i. 0), in_recovery = False, prepare_destroy = False, net = n0\<rparr>"

text \<open>Nodes that are nothing but memory, of which key 7 opens everything, and a client with one region of it.\<close>

definition flat_memory :: "int \<Rightarrow> buf" where
  "flat_memory = (\<lambda>node a. 0)"

definition flat_verbs :: "(int \<Rightarrow> buf) verbs" where
  "flat_verbs = \<lparr>net_reg = (\<lambda>m n. True), net_read = (\<lambda>m node a key k. (Wc_success, buf_read (m node) (unat a) k, m)),
     net_write = (\<lambda>m node a key bs. (Wc_success, m(node := buf_write (m node) (unat a) bs))), net_call = (\<lambda>m node msg. (None, m))\<rparr>"

definition flat_grant :: "(int \<Rightarrow> buf) \<Rightarrow> int \<Rightarrow> nat \<Rightarrow> nat \<Rightarrow> nat \<Rightarrow> bool" where
  "flat_grant m node key base len = (key = 7)"

definition region_client :: "(int \<Rightarrow> buf) dhmp_client" where
  "region_client = (sample_client flat_memory)\<lparr>connect_trans := (\<lambda>i. if i = 0 then Some 0 else None),
     addr_info_ht := (\<lambda>i. if i = nat (dhmp_hash_in_client 0x1000) then [0] else []),
     infos := [0 \<mapsto> blank_info\<lparr>nvm_mr := \<lparr>mr_addr = 0x1000, mr_length = 256, lkey = 7, rkey = 7\<rparr>\<rparr>]\<rparr>"

lemma flat_verbs_ok: "verbs_ok flat_verbs id flat_grant"
  by (simp add: verbs_ok_def flat_verbs_def flat_grant_def[abs_def])

lemma region_client_target:
  "a < 2 ^ 64 \<Longrightarrow> cl_target region_client a = Some x \<Longrightarrow> a = 0x1000"
  "cl_target region_client 0x1000 = Some (0, 0, blank_info\<lparr>nvm_mr := \<lparr>mr_addr = 0x1000, mr_length = 256, lkey = 7, rkey = 7\<rparr>\<rparr>)"
proof -
  have t: "dhmp_get_trans_from_addr region_client w = Inr (Some t) \<Longrightarrow> addr_node w = 0" for w t
    by (auto simp: dhmp_get_trans_from_addr_def trans_at_def region_client_def sample_client_def split: if_splits)
  assume a: "a < 2 ^ 64" and "cl_target region_client a = Some x"
  then have "addr_node (word_of_nat a) = 0" "\<exists>i p. dhmp_get_addr_info_from_ht region_client i (word_of_nat a) = Inr (Some p)"
    by (auto simp: cl_target_def Let_def split: sum.splits option.splits dest: t)
  then have "word_of_nat a = (0x1000 :: 64 word)"
    by (auto simp: dhmp_get_addr_info_from_ht_def dhmp_transfer_normal_addr_def region_client_def split: if_splits)
  then have "unat (word_of_nat a :: 64 word) = unat (0x1000 :: 64 word)" by simp
  then show "a = 0x1000" using a by (simp add: unat_of_nat take_bit_nat_eq_self)
next
  have n: "addr_node 0x1000 = 0" by (subst addr_node_small) simp_all
  then have m: "dhmp_transfer_normal_addr 0x1000 = 0x1000" by (simp add: dhmp_transfer_normal_addr_def)
  have t: "dhmp_get_trans_from_addr region_client 0x1000 = Inr (Some 0)"
    by (simp add: dhmp_get_trans_from_addr_def n trans_at_def DHMP_SERVER_NODE_NUM_def region_client_def)
  have i: "infos region_client 0 = Some (blank_info\<lparr>nvm_mr := \<lparr>mr_addr = 0x1000, mr_length = 256, lkey = 7, rkey = 7\<rparr>\<rparr>)"
    by (simp add: region_client_def)
  have b: "addr_info_ht region_client (nat (dhmp_hash_in_client 0x1000)) = [0]" by (simp add: region_client_def)
  have "dhmp_get_addr_info_from_ht region_client (dhmp_hash_in_client 0x1000) 0x1000 = Inr (Some 0)"
    by (simp add: dhmp_get_addr_info_from_ht_def m b i)
  then show "cl_target region_client 0x1000 = Some (0, 0, blank_info\<lparr>nvm_mr := \<lparr>mr_addr = 0x1000, mr_length = 256, lkey = 7, rkey = 7\<rparr>\<rparr>)"
    by (simp add: cl_target_def t i)
qed

lemma region_client_ok: "cl_ok flat_grant 256 region_client 0x1000"
proof -
  have "b = 0x1000" if "cl_usable flat_grant 256 region_client b" for b
    using that region_client_target(1)[of b] by (auto simp: cl_usable_def split: option.splits)
  moreover have "cl_usable flat_grant 256 region_client 0x1000"
  proof -
    have t: "trans_state (transports region_client 0) = DHMP_TRANSPORT_STATE_CONNECTED" "node_id (transports region_client 0) = 0"
      by (simp_all add: region_client_def sample_client_def blank_transport_def)
    have r: "read_mr region_client 0 = Some 64" by (simp add: region_client_def sample_client_def)
    show ?thesis unfolding cl_usable_def region_client_target(2)
      by (simp add: t r flat_grant_def blank_info_def DHMP_SERVER_NODE_NUM_def)
  qed
  ultimately show ?thesis unfolding cl_ok_def by blast
qed

theorem addr_roundtrip_witness:
  "dhmp_transfer_normal_addr (dhmp_transfer_dhmp_addr (sample_client ()) (Some 1) 0x7fcec9d7a000) = 0x7fcec9d7a000 \<and>
    dhmp_get_trans_from_addr (sample_client ()) (dhmp_transfer_dhmp_addr (sample_client ()) (Some 1) 0x7fcec9d7a000) = Inr (Some 1) \<and>
    dhmp_get_node_index_from_addr (dhmp_transfer_dhmp_addr (sample_client ()) (Some 1) 0x7fcec9d7a000) = int 1 \<and>
    unat (dhmp_transfer_dhmp_addr (sample_client ()) (Some 1) 0x7fcec9d7a000) = unat (0x7fcec9d7a000 :: 64 word) + 1 * 2 ^ 48"
  by (rule addr_roundtrip) (simp_all add: sample_client_def DHMP_SERVER_NODE_NUM_def)

text \<open>A call that names a node which is not connected reports the error and changes nothing; nothing
  is sent.\<close>

theorem not_connected:
  assumes "dhmp_get_trans_from_addr c a = Inr r" "\<not> node_connected c r"
  shows "dhmp_read V c a buf off = Inr (-1, buf, c) \<and> dhmp_write V c a buf off = Inr (-1, c) \<and>
    dhmp_send V c a buf w = Inr (-1, buf, c) \<and> dhmp_free V c a = Inr c \<and>
    dhmp_malloc V c n (addr_node a) = Inr (0, c)"
proof -
  have t: "trans_at c (addr_node a) = Inr r" using assms(1) by (simp add: dhmp_get_trans_from_addr_def)
  show ?thesis using assms by (cases r)
    (simp_all add: dhmp_read_def dhmp_write_def dhmp_send_def dhmp_free_def dhmp_malloc_def dhmp_node_select_by_id_def t node_connected_def)
qed

theorem not_connected_witness:
  "dhmp_read flat_verbs (sample_client flat_memory) 0x2000000001000 [1, 2] 0 = Inr (-1, [1, 2], sample_client flat_memory) \<and>
    dhmp_write flat_verbs (sample_client flat_memory) 0x2000000001000 [1, 2] 0 = Inr (-1, sample_client flat_memory) \<and>
    dhmp_send flat_verbs (sample_client flat_memory) 0x2000000001000 [1, 2] True = Inr (-1, [1, 2], sample_client flat_memory) \<and>
    dhmp_free flat_verbs (sample_client flat_memory) 0x2000000001000 = Inr (sample_client flat_memory) \<and>
    dhmp_malloc flat_verbs (sample_client flat_memory) 64 (addr_node 0x2000000001000) = Inr (0, sample_client flat_memory)"
proof -
  have "addr_node 0x2000000001000 = 2" by (subst addr_node_small) simp_all
  then have "dhmp_get_trans_from_addr (sample_client flat_memory) 0x2000000001000 = Inr None"
    by (simp add: dhmp_get_trans_from_addr_def trans_at_def sample_client_def DHMP_SERVER_NODE_NUM_def)
  then show ?thesis by (rule not_connected) (simp add: node_connected_def)
qed

text \<open>Reading an address whose region is unknown, for example after it was freed, returns 0, the
  value for success, and leaves the caller's buffer as it was; a write is dropped in the same way.\<close>

theorem unknown_address_succeeds:
  assumes "dhmp_get_trans_from_addr c a = Inr (Some t)" "node_connected c (Some t)"
    and "dhmp_get_addr_info_from_ht c (dhmp_hash_in_client a) a = Inr None"
  shows "dhmp_read V c a buf off = Inr (0, buf, c) \<and> dhmp_write V c a buf off = Inr (0, c) \<and>
    dhmp_send V c a buf w = Inl Null_deref"
  using assms by (simp add: dhmp_read_def dhmp_read_work_handler_def dhmp_write_def dhmp_write_work_handler_def dhmp_send_def
      dhmp_send_work_handler_def dhmp_get_addr_info_from_ht_def bucket_find_works)

theorem unknown_address_succeeds_witness:
  "dhmp_read flat_verbs (sample_client flat_memory) 0x1000 [1, 2] 0 = Inr (0, [1, 2], sample_client flat_memory) \<and>
    dhmp_write flat_verbs (sample_client flat_memory) 0x1000 [1, 2] 0 = Inr (0, sample_client flat_memory) \<and>
    dhmp_send flat_verbs (sample_client flat_memory) 0x1000 [1, 2] True = Inl Null_deref"
proof -
  have "addr_node 0x1000 = 0" by (subst addr_node_small) simp_all
  then have "dhmp_get_trans_from_addr (sample_client flat_memory) 0x1000 = Inr (Some 0)"
    by (simp add: dhmp_get_trans_from_addr_def trans_at_def sample_client_def DHMP_SERVER_NODE_NUM_def)
  then show ?thesis by (rule unknown_address_succeeds)
      (simp_all add: node_connected_def sample_client_def blank_transport_def dhmp_get_addr_info_from_ht_def)
qed

text \<open>C24: Records are looked up by hash index and server address alone. When two addresses of different nodes agree
  in both, the one entered last answers for both, so the older region is no longer reached.\<close>

theorem lookup_ignores_node:
  assumes "dhmp_addr_info_insert_ht c d p = Inr c'" "infos c p = Some info" "dhmp_transfer_normal_addr d' = mr_addr (nvm_mr info)"
    and "dhmp_hash_in_client d' = dhmp_hash_in_client d"
  shows "dhmp_get_addr_info_from_ht c' (dhmp_hash_in_client d') d' = Inr (Some p)"
proof -
  have "c' = (c\<lparr>infos := (infos c)(p \<mapsto> info\<lparr>dram_mr := (dram_mr info)\<lparr>mr_addr := 0\<rparr>\<rparr>)\<rparr>)
    \<lparr>addr_info_ht := (addr_info_ht c)(nat (dhmp_hash_in_client d) := p # addr_info_ht c (nat (dhmp_hash_in_client d)))\<rparr>"
    using assms(1,2) by (simp add: dhmp_addr_info_insert_ht_def upd_info_def Let_def)
  then show ?thesis using assms(3,4) by (simp add: dhmp_get_addr_info_from_ht_def)
qed

text \<open>Two servers have handed out the same address; the hash indices of the two cluster addresses agree.\<close>

definition twin_client :: "(int \<Rightarrow> buf) dhmp_client" where
  "twin_client = (sample_client flat_memory)\<lparr>addr_info_ht := (\<lambda>i. if i = nat (dhmp_hash_in_client 0x7f0071cec000) then [0] else []),
     infos := (\<lambda>p. if p < 2 then Some (blank_info\<lparr>nvm_mr := \<lparr>mr_addr = 0x7f0071cec000, mr_length = 256, lkey = 7, rkey = 7\<rparr>\<rparr>) else None)\<rparr>"

lemma twin_hash: "dhmp_hash_in_client 0x7f0071cec000 = 63519" "dhmp_hash_in_client 0x17f0071cec000 = 63519"
proof -
  have b: "ptr_bytes 0x7f0071cec000 = [0, 0xc0, 0xce, 0x71, 0, 0x7f, 0, 0]" "ptr_bytes 0x17f0071cec000 = [0, 0xc0, 0xce, 0x71, 0, 0x7f, 1, 0]"
    by code_simp+
  have h: "MurmurHash3_x86_32 [0, 0xc0, 0xce, 0x71, 0, 0x7f, 0, 0] = 892563519" "MurmurHash3_x86_32 [0, 0xc0, 0xce, 0x71, 0, 0x7f, 1, 0] = 1698563519"
    by code_simp+
  show "dhmp_hash_in_client 0x7f0071cec000 = 63519" "dhmp_hash_in_client 0x17f0071cec000 = 63519"
    unfolding client_index b h by (simp_all add: DHMP_CLIENT_HT_SIZE_def)
qed

theorem lookup_ignores_node_witness:
  "dhmp_get_addr_info_from_ht twin_client (dhmp_hash_in_client 0x7f0071cec000) 0x7f0071cec000 = Inr (Some 0) \<and>
    (\<exists>c'. dhmp_addr_info_insert_ht twin_client 0x17f0071cec000 1 = Inr c' \<and>
       dhmp_get_addr_info_from_ht c' (dhmp_hash_in_client 0x7f0071cec000) 0x7f0071cec000 = Inr (Some 1))"
proof -
  have "addr_node 0x7f0071cec000 = 0" by (subst addr_node_small) simp_all
  then have n: "dhmp_transfer_normal_addr 0x7f0071cec000 = 0x7f0071cec000" by (simp add: dhmp_transfer_normal_addr_def)
  have i: "infos twin_client 0 = Some (blank_info\<lparr>nvm_mr := \<lparr>mr_addr = 0x7f0071cec000, mr_length = 256, lkey = 7, rkey = 7\<rparr>\<rparr>)"
    "infos twin_client 1 = Some (blank_info\<lparr>nvm_mr := \<lparr>mr_addr = 0x7f0071cec000, mr_length = 256, lkey = 7, rkey = 7\<rparr>\<rparr>)"
    by (simp_all add: twin_client_def)
  have "addr_info_ht twin_client (nat (dhmp_hash_in_client 0x7f0071cec000)) = [0]" by (simp add: twin_client_def)
  then have "dhmp_get_addr_info_from_ht twin_client (dhmp_hash_in_client 0x7f0071cec000) 0x7f0071cec000 = Inr (Some 0)"
    by (simp add: dhmp_get_addr_info_from_ht_def n i(1))
  moreover obtain c' where c': "dhmp_addr_info_insert_ht twin_client 0x17f0071cec000 1 = Inr c'"
    by (simp only: dhmp_addr_info_insert_ht_def upd_info_def i(2) option.case rbind_Inr Let_def)
  have "dhmp_hash_in_client 0x7f0071cec000 = dhmp_hash_in_client 0x17f0071cec000" by (simp only: twin_hash)
  from lookup_ignores_node[OF c' i(2) _ this] have "dhmp_get_addr_info_from_ht c' (dhmp_hash_in_client 0x7f0071cec000) 0x7f0071cec000 = Inr (Some 1)"
    by (simp add: n)
  ultimately show ?thesis using c' by blast
qed

text \<open>C22: writing to a usable address and reading it back gives the bytes written. Every other address
  stays usable, and the contents of regions apart from it stay.\<close>

theorem write_read_back:
  assumes "verbs_ok V mem grant" "cl_ok grant region c a" "bs \<noteq> []" "off + length bs \<le> region" "region < 2 ^ 31" "length buf = length bs"
  shows "\<exists>c1 c2. dhmp_write V c (word_of_nat a) bs (int off) = Inr (0, c1) \<and> dhmp_read V c1 (word_of_nat a) buf (int off) = Inr (0, bs, c2) \<and>
    cl_ok grant region c1 = cl_ok grant region c \<and> cl_ok grant region c2 = cl_ok grant region c \<and>
    (\<forall>b. cl_ok grant region c b \<longrightarrow> b \<noteq> a \<longrightarrow> cl_content mem region c2 b = cl_content mem region c b)"
proof -
  note store = client_store[OF assms(1,5)]
  from remote_store.wr_ok[OF store assms(2,3,4)] obtain c1 where
    c1: "dhmp_write V c (word_of_nat a) bs (int off) = Inr (0, c1)" "cl_ok grant region c1 = cl_ok grant region c"
      "\<forall>b. cl_ok grant region c b \<longrightarrow> cl_content mem region c1 b =
         (if b = a then buf_write (cl_content mem region c a) off bs else cl_content mem region c b)" by blast
  have ok1: "cl_ok grant region c1 a" "buf \<noteq> []" "off + length buf \<le> region" using c1(2) assms(2,3,4,6) by auto
  from remote_store.rd_ok[OF store ok1] obtain c2 where
    "dhmp_read V c1 (word_of_nat a) buf (int off) = Inr (0, buf_read (cl_content mem region c1 a) off (length buf), c2)"
      "cl_ok grant region c2 = cl_ok grant region c1" "\<forall>b. cl_ok grant region c1 b \<longrightarrow> cl_content mem region c2 b = cl_content mem region c1 b" by blast
  then show ?thesis using c1 assms(2,6) by auto
qed

theorem write_read_back_witness:
  "\<exists>c1 c2. dhmp_write flat_verbs region_client (word_of_nat 0x1000) [1, 2, 3] (int 253) = Inr (0, c1) \<and>
    dhmp_read flat_verbs c1 (word_of_nat 0x1000) [0, 0, 0] (int 253) = Inr (0, [1, 2, 3], c2) \<and>
    cl_ok flat_grant 256 c1 = cl_ok flat_grant 256 region_client \<and> cl_ok flat_grant 256 c2 = cl_ok flat_grant 256 region_client \<and>
    (\<forall>b. cl_ok flat_grant 256 region_client b \<longrightarrow> b \<noteq> 0x1000 \<longrightarrow> cl_content id 256 c2 b = cl_content id 256 region_client b)"
  by (rule write_read_back[OF flat_verbs_ok region_client_ok]) simp_all

end
