(* ===== verification/Dhmp_Cluster.thy ===== *)
theory Dhmp_Cluster
  imports Dhmp_Client Dhmp_Server
begin

text \<open>
  Client and servers together. A cluster is a function from node numbers to servers. The messages of the
  client go through the dispatch of the server they are sent to, one-sided operations go to its memory
  when the remote key and the range belong to a region the server has registered. \<open>peer\<close> gives, for a node, the
  transport under which the server knows the client.
\<close>

section \<open>The network between them\<close>

definition covers :: "ibv_mr set \<Rightarrow> nat \<Rightarrow> nat \<Rightarrow> nat \<Rightarrow> bool" where
  "covers R key base len \<longleftrightarrow> (\<exists>mr \<in> R. rkey mr = key \<and> unat (mr_addr mr) \<le> base \<and> base + len \<le> unat (mr_addr mr) + mr_length mr)"

definition cluster_call :: "'o numa_os \<Rightarrow> (int \<Rightarrow> nat) \<Rightarrow> (int \<Rightarrow> 'o dhmp_server) \<Rightarrow> int \<Rightarrow> dhmp_msg \<Rightarrow>
    dhmp_msg option \<times> (int \<Rightarrow> 'o dhmp_server)" where
  "cluster_call N peer C node msg =
     (case server_recv_handler N (C node) (peer node) msg of
        Inl e \<Rightarrow> (None, C)
      | Inr (answer, s) \<Rightarrow> (answer, C(node := s)))"

definition cluster_verbs :: "'o numa_os \<Rightarrow> ('o \<Rightarrow> ibv_mr set) \<Rightarrow> (int \<Rightarrow> nat) \<Rightarrow> (int \<Rightarrow> 'o dhmp_server) verbs" where
  "cluster_verbs N regs peer =
     \<lparr>net_reg = (\<lambda>C n. True),
      net_read = (\<lambda>C node a key k. if covers (regs (os (C node))) key (unat a) k
                    then (Wc_success, buf_read (memory (C node)) (unat a) k, C) else (Wc_error, [], C)),
      net_write = (\<lambda>C node a key bs. if covers (regs (os (C node))) key (unat a) (length bs)
                    then (Wc_success, C(node := (C node)\<lparr>memory := buf_write (memory (C node)) (unat a) bs\<rparr>)) else (Wc_error, C)),
      net_call = cluster_call N peer\<rparr>"

definition cluster_mem :: "(int \<Rightarrow> 'o dhmp_server) \<Rightarrow> int \<Rightarrow> buf" where
  "cluster_mem C node = memory (C node)"

definition cluster_grant :: "('o \<Rightarrow> ibv_mr set) \<Rightarrow> (int \<Rightarrow> 'o dhmp_server) \<Rightarrow> int \<Rightarrow> nat \<Rightarrow> nat \<Rightarrow> nat \<Rightarrow> bool" where
  "cluster_grant regs C node = covers (regs (os (C node)))"

lemma covers_sub: "covers R key base len \<Longrightarrow> base \<le> a \<Longrightarrow> a + k \<le> base + len \<Longrightarrow> covers R key a k"
  unfolding covers_def by (metis le_trans)

lemma cluster_verbs_ok: "verbs_ok (cluster_verbs N regs peer) cluster_mem (cluster_grant regs)"
proof -
  have g: "cluster_grant regs (C(node := (C node)\<lparr>memory := m\<rparr>)) = cluster_grant regs C" for C :: "int \<Rightarrow> 'a dhmp_server" and node m
    by (rule ext)+ (simp add: cluster_grant_def)
  have m: "cluster_mem (C(node := (C node)\<lparr>memory := m\<rparr>)) = (cluster_mem C)(node := m)" for C :: "int \<Rightarrow> 'a dhmp_server" and node m
    by (rule ext)+ (simp add: cluster_mem_def)
  show ?thesis unfolding verbs_ok_def
  proof (intro conjI allI impI)
    fix C :: "int \<Rightarrow> 'a dhmp_server" and node key base len and a :: "64 word" and k
    assume h: "cluster_grant regs C node key base len" "base \<le> unat a" "unat a + k \<le> base + len" "0 < k"
    then have "covers (regs (os (C node))) key (unat a) k" using covers_sub[of _ key base len] by (simp add: cluster_grant_def)
    then show "\<exists>n'. net_read (cluster_verbs N regs peer) C node a key k = (Wc_success, buf_read (cluster_mem C node) (unat a) k, n') \<and>
        cluster_mem n' = cluster_mem C \<and> cluster_grant regs n' = cluster_grant regs C"
      by (simp add: cluster_verbs_def cluster_mem_def)
  next
    fix C :: "int \<Rightarrow> 'a dhmp_server" and node key base len and a :: "64 word" and bs :: "byte list"
    assume h: "cluster_grant regs C node key base len" "base \<le> unat a" "unat a + length bs \<le> base + len" "bs \<noteq> []"
    then have "covers (regs (os (C node))) key (unat a) (length bs)" using covers_sub[of _ key base len] by (simp add: cluster_grant_def)
    then show "\<exists>n'. net_write (cluster_verbs N regs peer) C node a key bs = (Wc_success, n') \<and>
        cluster_mem n' = (cluster_mem C)(node := buf_write (cluster_mem C node) (unat a) bs) \<and> cluster_grant regs n' = cluster_grant regs C"
      by (intro exI[of _ "C(node := (C node)\<lparr>memory := buf_write (memory (C node)) (unat a) bs\<rparr>)"] conjI g)
        (simp_all add: cluster_verbs_def m, simp add: cluster_mem_def)
  qed (simp add: cluster_verbs_def)
qed

text \<open>The client over servers that run on the machine model keeps the contract of a remote store.\<close>

interpretation cluster_store: remote_store
  "\<lambda>c a buf off. dhmp_read (cluster_verbs machine_os (\<lambda>h. set (mrs h)) peer) c (word_of_nat a) buf (int off)"
  "\<lambda>c a bs off. dhmp_write (cluster_verbs machine_os (\<lambda>h. set (mrs h)) peer) c (word_of_nat a) bs (int off)"
  "cl_content cluster_mem 4194304" "cl_ok (cluster_grant (\<lambda>h. set (mrs h))) 4194304" 4194304 for peer
  by (rule client_store[OF cluster_verbs_ok]) simp


section \<open>Allocating over the network\<close>

text \<open>Node \<open>i\<close> is connected through transport \<open>t\<close>, on both sides, and set up for messages.\<close>

definition linked :: "(int \<Rightarrow> nat) \<Rightarrow> (int \<Rightarrow> 'o dhmp_server) dhmp_client \<Rightarrow> nat \<Rightarrow> nat \<Rightarrow> bool" where
  "linked peer c i t \<longleftrightarrow> i < DHMP_SERVER_NODE_NUM \<and> connect_trans c i = Some t \<and> (\<forall>j < i. connect_trans c j \<noteq> Some t) \<and>
     trans_state (transports c t) = DHMP_TRANSPORT_STATE_CONNECTED \<and> node_id (transports c t) = int i \<and>
     send_mr (transports c t) \<noteq> None \<and> read_mr c i \<noteq> None \<and>
     trans_state (srv_transports (net c (int i)) (peer (int i))) = DHMP_TRANSPORT_STATE_CONNECTED \<and>
     send_mr (srv_transports (net c (int i)) (peer (int i))) \<noteq> None"

lemma linked_index: "linked peer c i t \<Longrightarrow> trans_index c (Some t) = i"
proof -
  assume l: "linked peer c i t"
  have "List.find (\<lambda>i. connect_trans c i = Some t) [0 ..< DHMP_SERVER_NODE_NUM] = Some i"
    using l by (auto simp: linked_def find_Some_iff intro!: exI[of _ i])
  then show ?thesis by (simp add: trans_index_def)
qed

lemma linked_select: "linked peer c i t \<Longrightarrow> dhmp_node_select_by_id c (int i) = Inr (Some t)"
  by (simp add: linked_def dhmp_node_select_by_id_def trans_at_def node_connected_def)

text \<open>A short message over a linked transport is answered by the server's handler.\<close>

lemma post_linked:
  assumes l: "trans_state (transports c t) = DHMP_TRANSPORT_STATE_CONNECTED" "send_mr (transports c t) \<noteq> None" "node_id (transports c t) = node"
    and m: "msg_data_size msg \<le> 64" and r: "server_recv_handler N (net c node) (peer node) msg = Inr (Some answer, s)"
  shows "\<exists>sm. dhmp_post_send (cluster_verbs N regs peer) c t msg =
    client_recv_handler (c\<lparr>transports := (transports c)(t := (transports c t)\<lparr>send_mr := Some sm\<rparr>), net := (net c)(node := s)\<rparr>) t answer"
proof -
  have "\<exists>sm task. dhmp_send_task_create t (transports c t) msg = Inr ((transports c t)\<lparr>send_mr := Some sm\<rparr>, task)"
    using l(2) m by (auto simp: dhmp_send_task_create_def Let_def msg_length_def SEND_REGION_SIZE_def)
  then obtain sm task where "dhmp_send_task_create t (transports c t) msg = Inr ((transports c t)\<lparr>send_mr := Some sm\<rparr>, task)" by blast
  then show ?thesis using l(1,3) r by (simp add: dhmp_post_send_def cluster_verbs_def cluster_call_def Let_def) blast
qed

text \<open>What a served request leaves: the new record, the address table and the region.\<close>

definition new_region :: "('o \<Rightarrow> ibv_mr set) \<Rightarrow> (int \<Rightarrow> 'o dhmp_server) dhmp_client \<Rightarrow> (int \<Rightarrow> 'o dhmp_server) dhmp_client \<Rightarrow> nat \<Rightarrow> nat \<Rightarrow>
    64 word \<Rightarrow> ibv_mr \<Rightarrow> bool" where
  "new_region regs c c' i n a mr \<longleftrightarrow> n \<le> mr_length mr \<and> handed_out (net c' (int i)) mr \<and> inside_reg (regs (os (net c' (int i)))) mr \<and> 0 < unat (mr_addr mr) \<and>
     a = dhmp_transfer_dhmp_addr c (connect_trans c i) (mr_addr mr) \<and>
     (\<forall>x. srv_busy (net c' (int i)) x = srv_busy (net c (int i)) x + span (unat (mr_addr mr)) (mr_length mr) x) \<and>
     (\<forall>x. x < unat (mr_addr mr) \<or> unat (mr_addr mr) + mr_length mr \<le> x \<longrightarrow> memory (net c' (int i)) x = memory (net c (int i)) x) \<and>
     (\<exists>info. infos c' = (infos c)(next_info c \<mapsto> info) \<and> nvm_mr info = mr \<and> \<not> write_flag info) \<and>
     addr_info_ht c' = (let k = nat (dhmp_hash_in_client a) in (addr_info_ht c)(k := next_info c # addr_info_ht c k))"

lemma cluster_malloc:
  assumes N: "os_ok N allocd regs up" and inv: "srv_inv allocd regs up (net c (int i))" and l: "linked peer c i t" and n: "0 < n"
  shows "\<exists>a c'. dhmp_malloc (cluster_verbs N regs peer) c n (int i) = Inr (a, c') \<and> srv_inv allocd regs up (net c' (int i)) \<and>
    connect_trans c' = connect_trans c \<and> read_mr c' = read_mr c \<and> next_info c' = Suc (next_info c) \<and> in_recovery c' = in_recovery c \<and>
    dram_ht (net c' (int i)) = dram_ht (net c (int i)) \<and> linked peer c' i t \<and>
    (\<forall>mr. handed_out (net c (int i)) mr \<longrightarrow> handed_out (net c' (int i)) mr) \<and>
    (\<forall>node. node \<noteq> int i \<longrightarrow> net c' node = net c node) \<and>
    (\<exists>sm. transports c' = (transports c)(t := (transports c t)\<lparr>send_mr := Some sm\<rparr>)) \<and>
    (a = 0 \<and> infos c' = (infos c)(next_info c := None) \<and> addr_info_ht c' = addr_info_ht c \<and> srv_busy (net c' (int i)) = srv_busy (net c (int i)) \<and>
       memory (net c' (int i)) = memory (net c (int i)) \<and> (\<exists>s1. server_malloc N (net c (int i)) n = Inr (None, s1)) \<or>
     (\<exists>mr. new_region regs c c' i n a mr))"
proof -
  let ?V = "cluster_verbs N regs peer"
  define p where "p = next_info c"
  define a0 where "a0 = (raw_info c p)\<lparr>nvm_mr := (nvm_mr (raw_info c p))\<lparr>mr_length := 0\<rparr>, dram_mr := (dram_mr (raw_info c p))\<lparr>mr_addr := 0\<rparr>\<rparr>"
  define c0 where "c0 = c\<lparr>next_info := Suc p, infos := (infos c)(p \<mapsto> a0)\<rparr>"
  define req where "req = \<lparr>mc_req_size = n, mc_addr_info = p\<rparr>"
  have lk: "i < DHMP_SERVER_NODE_NUM" "connect_trans c i = Some t" "trans_state (transports c t) = DHMP_TRANSPORT_STATE_CONNECTED"
    "node_id (transports c t) = int i" "send_mr (transports c t) \<noteq> None"
    "trans_state (srv_transports (net c (int i)) (peer (int i))) = DHMP_TRANSPORT_STATE_CONNECTED"
    "send_mr (srv_transports (net c (int i)) (peer (int i))) \<noteq> None" using l by (simp_all add: linked_def)
  have start: "dhmp_malloc ?V c n (int i) = dhmp_malloc_work_handler ?V c0 t p n"
    using n by (simp add: dhmp_malloc_def linked_select[OF l] c0_def a0_def p_def Let_def)
  obtain ssm where "send_mr (srv_transports (net c (int i)) (peer (int i))) = Some ssm" using lk(7) by blast
  from malloc_request_answered_core[OF N inv lk(6) this, of req] obtain answer s' where
    srv: "server_recv_handler N (net c (int i)) (peer (int i)) (DHMP_MSG_MALLOC_REQUEST req) = Inr (Some answer, s')" "srv_inv allocd regs up s'"
    "dram_ht s' = dram_ht (net c (int i))" "trans_state (srv_transports s' (peer (int i))) = DHMP_TRANSPORT_STATE_CONNECTED"
    "send_mr (srv_transports s' (peer (int i))) \<noteq> None"
    "\<forall>mr. handed_out (net c (int i)) mr \<longrightarrow> handed_out s' mr"
    "answer = DHMP_MSG_MALLOC_ERROR req \<and> srv_busy s' = srv_busy (net c (int i)) \<and> memory s' = memory (net c (int i)) \<and>
       (\<exists>s1. server_malloc N (net c (int i)) (mc_req_size req) = Inr (None, s1)) \<or>
     (\<exists>mr. answer = DHMP_MSG_MALLOC_RESPONSE req mr \<and> mc_req_size req \<le> mr_length mr \<and> 0 < mr_length mr \<and> 0 < unat (mr_addr mr) \<and>
        inside_reg (regs (os s')) mr \<and> handed_out s' mr \<and> (\<forall>x. srv_busy s' x = srv_busy (net c (int i)) x + span (unat (mr_addr mr)) (mr_length mr) x) \<and>
        (\<forall>x. x < unat (mr_addr mr) \<or> unat (mr_addr mr) + mr_length mr \<le> x \<longrightarrow> memory s' x = memory (net c (int i)) x))" by blast
  have "\<exists>sm. dhmp_post_send ?V c0 t (DHMP_MSG_MALLOC_REQUEST req) =
      client_recv_handler (c0\<lparr>transports := (transports c)(t := (transports c t)\<lparr>send_mr := Some sm\<rparr>), net := (net c)(int i := s')\<rparr>) t answer"
    using post_linked[of c0 t "int i" "DHMP_MSG_MALLOC_REQUEST req" N peer answer s' regs] lk srv(1) by (simp add: c0_def)
  then obtain sm where post: "dhmp_post_send ?V c0 t (DHMP_MSG_MALLOC_REQUEST req) =
      client_recv_handler (c0\<lparr>transports := (transports c)(t := (transports c t)\<lparr>send_mr := Some sm\<rparr>), net := (net c)(int i := s')\<rparr>) t answer" by blast
  define c1 where "c1 = c0\<lparr>transports := (transports c)(t := (transports c t)\<lparr>send_mr := Some sm\<rparr>), net := (net c)(int i := s')\<rparr>"
  note run = start[unfolded dhmp_malloc_work_handler_def req_def[symmetric] post c1_def[symmetric]]
  have lnk: "linked peer d i t" if "connect_trans d = connect_trans c" "read_mr d = read_mr c" "transports d = transports c1" "net d (int i) = s'"
    for d :: "(int \<Rightarrow> 'a dhmp_server) dhmp_client" using l srv(4,5) that by (simp add: linked_def c1_def c0_def)
  from srv(7) show ?thesis
  proof (elim disjE exE conjE)
    fix s1
    assume e: "answer = DHMP_MSG_MALLOC_ERROR req" "srv_busy s' = srv_busy (net c (int i))" "memory s' = memory (net c (int i))"
      "server_malloc N (net c (int i)) (mc_req_size req) = Inr (None, s1)"
    have "dhmp_malloc ?V c n (int i) = Inr (0, c1\<lparr>infos := (infos c)(p := None)\<rparr>)"
      using n by (simp add: run e(1) client_recv_handler_def dhmp_malloc_error_handler_def upd_info_def c1_def c0_def req_def)
    moreover have "linked peer (c1\<lparr>infos := (infos c)(p := None)\<rparr>) i t" by (rule lnk) (simp_all add: c1_def c0_def)
    ultimately show ?thesis using srv(2,3,6) e(2,3) e(4)[unfolded req_def]
      by (intro exI[of _ 0] exI[of _ "c1\<lparr>infos := (infos c)(p := None)\<rparr>"]) (simp add: c1_def c0_def p_def, blast)
  next
    fix mr
    assume e: "answer = DHMP_MSG_MALLOC_RESPONSE req mr" "mc_req_size req \<le> mr_length mr" "0 < mr_length mr" "0 < unat (mr_addr mr)"
      "inside_reg (regs (os s')) mr" "handed_out s' mr" "\<forall>x. srv_busy s' x = srv_busy (net c (int i)) x + span (unat (mr_addr mr)) (mr_length mr) x"
      "\<forall>x. x < unat (mr_addr mr) \<or> unat (mr_addr mr) + mr_length mr \<le> x \<longrightarrow> memory s' x = memory (net c (int i)) x"
    have z: "mr_addr mr \<noteq> 0" using e(4) by auto
    have conn: "connect_trans c1 = connect_trans c" by (simp add: c1_def c0_def)
    define a where "a = dhmp_transfer_dhmp_addr c (Some t) (mr_addr mr)"
    define c2 where "c2 = c1\<lparr>infos := (infos c)(p \<mapsto> a0\<lparr>nvm_mr := mr, read_cnt := 0, write_cnt := 0\<rparr>)\<rparr>"
    have tr: "dhmp_transfer_dhmp_addr c2 (Some t) (mr_addr mr) = a"
      by (simp add: a_def dhmp_transfer_dhmp_addr_def trans_index_def c2_def conn)
    have i2: "infos c2 p = Some (a0\<lparr>nvm_mr := mr, read_cnt := 0, write_cnt := 0\<rparr>)" by (simp add: c2_def)
    have rcv: "client_recv_handler c1 t answer = Inr c2"
      by (simp add: e(1) client_recv_handler_def dhmp_malloc_response_handler_def upd_info_def req_def c2_def c1_def c0_def)
    define info where "info = a0\<lparr>nvm_mr := mr, read_cnt := 0, write_cnt := 0, node_index := dhmp_get_node_index_from_addr a, write_flag := False,
      dram_mr := (dram_mr a0)\<lparr>mr_addr := 0\<rparr>\<rparr>"
    define c' where "c' = c1\<lparr>infos := (infos c)(p \<mapsto> info),
      addr_info_ht := (let k = nat (dhmp_hash_in_client a) in (addr_info_ht c)(k := p # addr_info_ht c k))\<rparr>"
    have "dhmp_malloc ?V c n (int i) = Inr (a, c')"
      using e(3) z i2 by (simp add: run rcv tr Let_def)
        (simp add: c2_def c'_def c1_def c0_def info_def dhmp_addr_info_insert_ht_def upd_info_def Let_def)
    moreover have "new_region regs c c' i n a mr"
    proof -
      have "infos c' = (infos c)(next_info c \<mapsto> info) \<and> nvm_mr info = mr \<and> \<not> write_flag info"
        by (simp add: c'_def p_def) (simp add: info_def)
      then have "\<exists>info. infos c' = (infos c)(next_info c \<mapsto> info) \<and> nvm_mr info = mr \<and> \<not> write_flag info" by blast
      moreover have "net c' (int i) = s'" by (simp add: c'_def c1_def)
      moreover have "addr_info_ht c' = (let k = nat (dhmp_hash_in_client a) in (addr_info_ht c)(k := next_info c # addr_info_ht c k))"
        by (simp add: c'_def p_def)
      ultimately show ?thesis using e lk(2) unfolding new_region_def by (simp add: a_def req_def)
    qed
    moreover have "srv_inv allocd regs up (net c' (int i))" "connect_trans c' = connect_trans c" "read_mr c' = read_mr c" "next_info c' = Suc (next_info c)"
      "\<forall>mr. handed_out (net c (int i)) mr \<longrightarrow> handed_out (net c' (int i)) mr"
      "in_recovery c' = in_recovery c" "dram_ht (net c' (int i)) = dram_ht (net c (int i))"
      "\<forall>node. node \<noteq> int i \<longrightarrow> net c' node = net c node" "transports c' = (transports c)(t := (transports c t)\<lparr>send_mr := Some sm\<rparr>)"
      using srv(2,3,6) by (simp_all add: c'_def c1_def c0_def p_def)
    moreover have "linked peer c' i t" by (rule lnk) (simp_all add: c'_def c1_def c0_def)
    ultimately show ?thesis by blast
  qed
qed


text \<open>The address of a new region leads to it.\<close>

lemma new_region_target:
  assumes l: "linked peer c i t" and r: "new_region regs c c' i n a mr" and c': "connect_trans c' = connect_trans c"
  shows "dhmp_get_trans_from_addr c' a = Inr (Some t)" "dhmp_get_addr_info_from_ht c' (dhmp_hash_in_client a) a = Inr (Some (next_info c))"
    "unat a = unat (mr_addr mr) + i * 2 ^ 48"
proof -
  have lk: "i < DHMP_SERVER_NODE_NUM" "connect_trans c i = Some t" using l by (simp_all add: linked_def)
  from r obtain info where i: "infos c' = (infos c)(next_info c \<mapsto> info)" "nvm_mr info = mr" by (auto simp: new_region_def)
  have "inside_reg (regs (os (net c' (int i)))) mr" using r by (simp add: new_region_def)
  then have b: "unat (mr_addr mr) + mr_length mr < 2 ^ 48" by (auto simp: inside_reg_def)
  then have u48: "unat (mr_addr mr) < 2 ^ 48" by linarith
  have ta: "dhmp_transfer_dhmp_addr c' (Some t) (mr_addr mr) = a"
    using r lk(2) by (simp add: new_region_def dhmp_transfer_dhmp_addr_def trans_index_def c')
  have conn: "connect_trans c' i = Some t" using lk(2) c' by simp
  note sp = addr_split[OF u48 conn lk(1), unfolded ta]
  show "dhmp_get_trans_from_addr c' a = Inr (Some t)" by (rule sp(3))
  have bucket: "addr_info_ht c' (nat (dhmp_hash_in_client a)) = next_info c # addr_info_ht c (nat (dhmp_hash_in_client a))"
    using r by (simp add: new_region_def Let_def)
  show "dhmp_get_addr_info_from_ht c' (dhmp_hash_in_client a) a = Inr (Some (next_info c))"
    by (simp add: dhmp_get_addr_info_from_ht_def bucket sp(1) i)
  show "unat a = unat (mr_addr mr) + i * 2 ^ 48"
    using transfer_unat[OF u48, of c' "Some t"] ta linked_index[OF l] lk(1) by (simp add: trans_index_def c' DHMP_SERVER_NODE_NUM_def)
qed

lemma new_region_usable:
  assumes l: "linked peer c i t" and r: "new_region regs c c' i n a mr" and n: "0 < n"
    and c': "connect_trans c' = connect_trans c" "read_mr c' = read_mr c" "transports c' = (transports c)(t := (transports c t)\<lparr>send_mr := Some sm\<rparr>)"
  shows "a \<noteq> 0" "cl_usable (cluster_grant regs) n c' (unat a)" "cl_node c' (unat a) = int i" "cl_base c' (unat a) = unat (mr_addr mr)"
proof -
  have lk: "i < DHMP_SERVER_NODE_NUM" "trans_state (transports c t) = DHMP_TRANSPORT_STATE_CONNECTED"
    "node_id (transports c t) = int i" "read_mr c i \<noteq> None" using l by (simp_all add: linked_def)
  from r obtain info where i: "infos c' = (infos c)(next_info c \<mapsto> info)" "nvm_mr info = mr" "\<not> write_flag info"
    by (auto simp: new_region_def)
  have mr: "n \<le> mr_length mr" "0 < unat (mr_addr mr)" "inside_reg (regs (os (net c' (int i)))) mr" using r by (simp_all add: new_region_def)
  have b: "unat (mr_addr mr) + mr_length mr < 2 ^ 48" using mr(3) by (auto simp: inside_reg_def)
  note look = new_region_target[OF l r c'(1)]
  have tgt: "cl_target c' (unat a) = Some (t, next_info c, info)"
    by (simp add: cl_target_def look(1,2) i(1))
  show "cl_node c' (unat a) = int i" "cl_base c' (unat a) = unat (mr_addr mr)"
    using lk(3) i(2) by (simp_all add: cl_node_def cl_base_def tgt c'(3))
  have a64: "unat a < 2 ^ 64" using unsigned_less[where w = a and 'a = nat] by simp
  have mb: "unat (mr_addr mr) + mr_length mr < 2 ^ 64" by (rule less_trans[OF b]) simp
  have g: "cluster_grant regs (net c') (int i) (rkey mr) (unat (mr_addr mr)) (mr_length mr)"
    using mr(3) by (auto simp: cluster_grant_def covers_def inside_reg_def)
  have tt: "node_id (transports c' t) = int i" "trans_state (transports c' t) = DHMP_TRANSPORT_STATE_CONNECTED"
    "read_mr c' (nat (int i)) \<noteq> None" using lk c' by simp_all
  show "cl_usable (cluster_grant regs) n c' (unat a)"
    unfolding cl_usable_def tgt using tt lk(1) g mr(1) mb a64 i by simp
  show "a \<noteq> 0" using mr(2) look(3) by auto
qed

text \<open>Writing and reading one usable address, whatever the others are.\<close>

lemma usable_write_read:
  assumes V: "verbs_ok V mem grant" and u: "cl_usable grant region c a" and b: "bs \<noteq> []" "off + length bs \<le> region" "region < 2 ^ 31" "length buf = length bs"
  shows "\<exists>c1 c2. dhmp_write V c (word_of_nat a) bs (int off) = Inr (0, c1) \<and> dhmp_read V c1 (word_of_nat a) buf (int off) = Inr (0, bs, c2)"
proof -
  from cl_write_ok[OF V u b(1,2,3)] obtain c1 where w: "dhmp_write V c (word_of_nat a) bs (int off) = Inr (0, c1)" "same_table c c1"
    "mem (net c1) = (mem (net c))(cl_node c a := buf_write (mem (net c) (cl_node c a)) (cl_base c a + off) bs)" "grant (net c1) = grant (net c)" by blast
  have u1: "cl_usable grant region c1 a" using same_table_usable[OF w(2,4)] u by simp
  have bf: "buf \<noteq> []" "off + length buf \<le> region" using b by auto
  from cl_read_ok[OF V u1 bf b(3)] obtain c2 where
    rd: "dhmp_read V c1 (word_of_nat a) buf (int off) = Inr (0, buf_read (cl_content mem region c1 a) off (length buf), c2)" by blast
  have "buf_read (cl_content mem region c1 a) off (length buf) = bs"
    by (rule nth_equalityI) (use b w(3) in \<open>auto simp: cl_content_def same_table_place[OF w(2)] buf_write_def\<close>)
  then show ?thesis using w(1) rd by auto
qed


section \<open>What is known of other addresses\<close>

text \<open>The region an address leads to was handed out by its node and is in use.\<close>

definition held :: "(int \<Rightarrow> 'o dhmp_server) dhmp_client \<Rightarrow> nat \<Rightarrow> bool" where
  "held c b \<longleftrightarrow>
     (case cl_target c b of
        None \<Rightarrow> False
      | Some (t, p, info) \<Rightarrow>
          handed_out (net c (node_id (transports c t))) (nvm_mr info) \<and>
          (\<forall>x. span (unat (mr_addr (nvm_mr info))) (mr_length (nvm_mr info)) x \<le> srv_busy (net c (node_id (transports c t))) x))"

lemma bucket_find_fresh:
  "p \<notin> set ps \<Longrightarrow> infos c' = (infos c)(p := x) \<Longrightarrow> bucket_find c' ps w = bucket_find c ps w"
  by (induction ps) (auto split: option.splits)

lemma bucket_find_match: "bucket_find c ps w = Inr (Some p) \<Longrightarrow> p \<in> set ps \<and> (\<exists>a. infos c p = Some a \<and> mr_addr (nvm_mr a) = w)"
  by (induction ps) (auto split: option.splits if_splits)

text \<open>An allocation on node \<open>i\<close> leaves the lookup of an address held on the same node as it is.\<close>

lemma new_region_lookup:
  assumes fr: "table_fresh c" and r: "new_region regs c c' i n a mr" and c': "connect_trans c' = connect_trans c"
    and b: "cl_target c b = Some (tb, p, info)" "node_id (transports c tb) = int i" "held c b" and inv: "srv_inv allocd regs up (net c' (int i))"
  shows "cl_target c' b = Some (tb, p, info)" "mr_addr (nvm_mr info) \<noteq> mr_addr mr"
    "unat (mr_addr (nvm_mr info)) + mr_length (nvm_mr info) \<le> unat (mr_addr mr) \<or> unat (mr_addr mr) + mr_length mr \<le> unat (mr_addr (nvm_mr info))"
proof -
  from r obtain ni where i: "infos c' = (infos c)(next_info c \<mapsto> ni)" "nvm_mr ni = mr" by (auto simp: new_region_def)
  have mr: "handed_out (net c' (int i)) mr" "\<forall>x. srv_busy (net c' (int i)) x = srv_busy (net c (int i)) x + span (unat (mr_addr mr)) (mr_length mr) x"
    using r by (simp_all add: new_region_def)
  have hb: "handed_out (net c (int i)) (nvm_mr info)" "\<forall>x. span (unat (mr_addr (nvm_mr info))) (mr_length (nvm_mr info)) x \<le> srv_busy (net c (int i)) x"
    using b by (simp_all add: held_def)
  have "span (unat (mr_addr (nvm_mr info))) (mr_length (nvm_mr info)) x + span (unat (mr_addr mr)) (mr_length mr) x \<le> 1" for x
    using spec[OF mr(2), of x] spec[OF hb(2), of x] srv_busy_le[OF inv, of x] by linarith
  then show dis: "unat (mr_addr (nvm_mr info)) + mr_length (nvm_mr info) \<le> unat (mr_addr mr) \<or> unat (mr_addr mr) + mr_length mr \<le> unat (mr_addr (nvm_mr info))"
    using mr(1) hb(1) by (intro span_disjoint) (simp_all add: handed_out_def)
  then show ne: "mr_addr (nvm_mr info) \<noteq> mr_addr mr" using mr(1) hb(1) by (auto simp: handed_out_def)
  let ?w = "word_of_nat b :: 64 word" and ?k = "nat (dhmp_hash_in_client (word_of_nat b))"
  have look: "dhmp_get_trans_from_addr c ?w = Inr (Some tb)" "bucket_find c (addr_info_ht c ?k) (dhmp_transfer_normal_addr ?w) = Inr (Some p)" "infos c p = Some info"
    using b(1) by (auto simp: cl_target_def Let_def dhmp_get_addr_info_from_ht_def split: sum.splits option.splits)
  from bucket_find_match[OF look(2)] look(3) have m: "p \<in> set (addr_info_ht c ?k)" "dhmp_transfer_normal_addr ?w = mr_addr (nvm_mr info)" by auto
  have nf: "next_info c \<notin> set (addr_info_ht c ?k)" using fr by (auto simp: table_fresh_def)
  then have pn: "p \<noteq> next_info c" using m(1) by auto
  have "bucket_find c' (addr_info_ht c' ?k) (mr_addr (nvm_mr info)) = Inr (Some p)"
  proof -
    have old: "bucket_find c' (addr_info_ht c ?k) (mr_addr (nvm_mr info)) = Inr (Some p)"
      using look(2) bucket_find_fresh[OF nf i(1)] by (simp add: m(2))
    have "addr_info_ht c' ?k = addr_info_ht c ?k \<or> addr_info_ht c' ?k = next_info c # addr_info_ht c ?k"
      using r by (auto simp: new_region_def Let_def)
    then show ?thesis using old ne i by auto
  qed
  then have "dhmp_get_addr_info_from_ht c' (dhmp_hash_in_client ?w) ?w = Inr (Some p)"
    by (simp add: dhmp_get_addr_info_from_ht_def m(2))
  moreover have "dhmp_get_trans_from_addr c' ?w = Inr (Some tb)"
    using look(1) by (metis dhmp_get_trans_from_addr_def trans_at_def c')
  moreover have "infos c' p = Some info" using look(3) pn i(1) by simp
  ultimately show "cl_target c' b = Some (tb, p, info)" by (simp add: cl_target_def Let_def)
qed

lemma held_grant:
  assumes "srv_inv allocd regs up (net c node)" "handed_out (net c node) mr"
  shows "cluster_grant regs (net c) node (rkey mr) (unat (mr_addr mr)) (mr_length mr)" "unat (mr_addr mr) + mr_length mr < 2 ^ 64"
proof -
  have r: "inside_reg (regs (os (net c node))) mr" using legal_inside[OF assms(1)] assms(2) by (simp add: handed_out_def)
  then show "cluster_grant regs (net c) node (rkey mr) (unat (mr_addr mr)) (mr_length mr)"
    by (auto simp: cluster_grant_def covers_def inside_reg_def)
  have "unat (mr_addr mr) + mr_length mr < 2 ^ 48" using r by (auto simp: inside_reg_def)
  then show "unat (mr_addr mr) + mr_length mr < 2 ^ 64" by (rule less_trans) simp
qed


text \<open>After an allocation the table is fresh again, and the new address is held.\<close>

lemma new_region_fresh:
  "new_region regs c c' i n a mr \<Longrightarrow> table_fresh c \<Longrightarrow> next_info c' = Suc (next_info c) \<Longrightarrow> table_fresh c'"
  by (auto simp: new_region_def table_fresh_def Let_def less_Suc_eq)

lemma new_region_held:
  assumes l: "linked peer c i t" and r: "new_region regs c c' i n a mr" and c': "connect_trans c' = connect_trans c"
    and sm: "transports c' = (transports c)(t := (transports c t)\<lparr>send_mr := Some sm\<rparr>)"
  shows "held c' (unat a)"
proof -
  note look = new_region_target[OF l r c']
  from r obtain info where i: "infos c' = (infos c)(next_info c \<mapsto> info)" "nvm_mr info = mr" by (auto simp: new_region_def)
  have tgt: "cl_target c' (unat a) = Some (t, next_info c, info)" by (simp add: cl_target_def look(1,2) i(1))
  have "node_id (transports c' t) = int i" using l by (simp add: sm linked_def)
  moreover have "handed_out (net c' (int i)) mr" "\<forall>x. span (unat (mr_addr mr)) (mr_length mr) x \<le> srv_busy (net c' (int i)) x"
    using r by (simp_all add: new_region_def)
  ultimately show ?thesis by (simp add: held_def tgt i(2))
qed

section \<open>Properties\<close>

text \<open>C20: allocating on a node that is connected and set up returns. Either the result is \<open>NULL\<close> and nothing is
  taken, or it is an address of at least the requested number of bytes that were free before; whatever is
  written anywhere inside them is read back.\<close>

theorem malloc_write_read:
  assumes "os_ok N allocd regs up" "srv_inv allocd regs up (net c (int i))" "linked peer c i t" "0 < n" "n < 2 ^ 31"
  shows "\<exists>a c'. dhmp_malloc (cluster_verbs N regs peer) c n (int i) = Inr (a, c') \<and> srv_inv allocd regs up (net c' (int i)) \<and>
    (a = 0 \<and> srv_busy (net c' (int i)) = srv_busy (net c (int i)) \<and> (\<exists>s1. server_malloc N (net c (int i)) n = Inr (None, s1)) \<or>
     a \<noteq> 0 \<and>
     (\<forall>x. cl_base c' (unat a) \<le> x \<and> x < cl_base c' (unat a) + n \<longrightarrow> srv_busy (net c (int i)) x = 0 \<and> srv_busy (net c' (int i)) x = 1) \<and>
     (\<forall>bs off buf. bs \<noteq> [] \<longrightarrow> off + length bs \<le> n \<longrightarrow> length buf = length bs \<longrightarrow>
        (\<exists>c1 c2. dhmp_write (cluster_verbs N regs peer) c' a bs (int off) = Inr (0, c1) \<and>
           dhmp_read (cluster_verbs N regs peer) c1 a buf (int off) = Inr (0, bs, c2))))"
proof -
  let ?V = "cluster_verbs N regs peer"
  from cluster_malloc[OF assms(1-4)] obtain a c' where
    m: "dhmp_malloc ?V c n (int i) = Inr (a, c')" "srv_inv allocd regs up (net c' (int i))" "connect_trans c' = connect_trans c" "read_mr c' = read_mr c" and
    ex: "\<exists>sm. transports c' = (transports c)(t := (transports c t)\<lparr>send_mr := Some sm\<rparr>)" and
    r: "a = 0 \<and> srv_busy (net c' (int i)) = srv_busy (net c (int i)) \<and> (\<exists>s1. server_malloc N (net c (int i)) n = Inr (None, s1)) \<or>
      (\<exists>mr. new_region regs c c' i n a mr)" by blast
  from ex obtain sm where sm: "transports c' = (transports c)(t := (transports c t)\<lparr>send_mr := Some sm\<rparr>)" by blast
  from r show ?thesis
  proof
    assume "a = 0 \<and> srv_busy (net c' (int i)) = srv_busy (net c (int i)) \<and> (\<exists>s1. server_malloc N (net c (int i)) n = Inr (None, s1))"
    then show ?thesis using m(1,2) by blast
  next
    assume "\<exists>mr. new_region regs c c' i n a mr"
    then obtain mr where nr: "new_region regs c c' i n a mr" by blast
    note u = new_region_usable[OF assms(3) nr assms(4) m(3,4) sm]
    have busy: "\<forall>x. srv_busy (net c' (int i)) x = srv_busy (net c (int i)) x + span (unat (mr_addr mr)) (mr_length mr) x" "n \<le> mr_length mr"
      using nr by (simp_all add: new_region_def)
    have "srv_busy (net c (int i)) x = 0 \<and> srv_busy (net c' (int i)) x = 1" if "cl_base c' (unat a) \<le> x \<and> x < cl_base c' (unat a) + n" for x
      using spec[OF busy(1), of x] srv_busy_le[OF m(2), of x] that busy(2) by (simp add: u(4) span_def)
    moreover have "\<exists>c1 c2. dhmp_write ?V c' a bs (int off) = Inr (0, c1) \<and> dhmp_read ?V c1 a buf (int off) = Inr (0, bs, c2)"
      if "bs \<noteq> []" "off + length bs \<le> n" "length buf = length bs" for bs off buf
      using usable_write_read[OF cluster_verbs_ok u(2) that(1,2) assms(5) that(3)] by simp
    ultimately show ?thesis using m(1,2) u(1) by blast
  qed
qed


text \<open>A client of two servers that have just started.\<close>

abbreviation machine_verbs :: "(int \<Rightarrow> machine dhmp_server) verbs" where
  "machine_verbs \<equiv> cluster_verbs machine_os (\<lambda>h. set (mrs h)) (\<lambda>node. 0)"

definition cluster_client :: "(int \<Rightarrow> machine dhmp_server) dhmp_client" where
  "cluster_client = sample_client (\<lambda>node. sample_server)"

lemma cluster_client_ok:
  "srv_inv (\<lambda>h. set (ranges h)) (\<lambda>h. set (mrs h)) machine_up (net cluster_client (int 1))"
  "linked (\<lambda>node. 0) cluster_client 1 1" "table_fresh cluster_client" "dram_ht (net cluster_client (int 1)) = (\<lambda>i. [])"
  "\<not> in_recovery cluster_client"
  using server_init_ok(1)[OF machine_os_ok sample_server_init(3,1,2)] server_init_ok(5)[OF machine_os_ok sample_server_init(3,1,2)]
  by (simp_all add: cluster_client_def sample_client_def linked_def table_fresh_def DHMP_SERVER_NODE_NUM_def blank_transport_def
      sample_server_transports idle_transport_def)

lemma cluster_client_malloc: "\<nexists>s1. server_malloc machine_os (net cluster_client (int 1)) 4194304 = Inr (None, s1)"
  using sample_large_malloc by (auto simp: cluster_client_def sample_client_def)

theorem malloc_write_read_witness:
  "\<exists>a c'. dhmp_malloc machine_verbs cluster_client 4194304 (int 1) = Inr (a, c') \<and> a \<noteq> 0 \<and>
    (\<exists>c1 c2. dhmp_write machine_verbs c' a [1, 2, 3] (int 97) = Inr (0, c1) \<and> dhmp_read machine_verbs c1 a [0, 0, 0] (int 97) = Inr (0, [1, 2, 3], c2))"
proof -
  have "(0 :: nat) < 4194304" "(4194304 :: nat) < 2 ^ 31" by simp_all
  from malloc_write_read[OF machine_os_ok cluster_client_ok(1,2) this] cluster_client_malloc obtain a c' where
    m: "dhmp_malloc machine_verbs cluster_client 4194304 (int 1) = Inr (a, c')" "a \<noteq> 0" and
    r: "\<forall>bs off buf. bs \<noteq> [] \<longrightarrow> off + length bs \<le> 4194304 \<longrightarrow> length buf = length bs \<longrightarrow>
        (\<exists>c1 c2. dhmp_write machine_verbs c' a bs (int off) = Inr (0, c1) \<and> dhmp_read machine_verbs c1 a buf (int off) = Inr (0, bs, c2))" by blast
  have "([1, 2, 3] :: byte list) \<noteq> []" "97 + length ([1, 2, 3] :: byte list) \<le> 4194304" "length ([0, 0, 0] :: byte list) = length ([1, 2, 3] :: byte list)" by simp_all
  then show ?thesis using m r by blast
qed

lemma cluster_free:
  assumes N: "os_ok N allocd regs up" and inv: "srv_inv allocd regs up (net c (int i))" and lk: "linked peer c i t"
    and d: "dram_ht (net c (int i)) = (\<lambda>i. [])" and rec: "\<not> in_recovery c" and a: "a \<noteq> 0"
    and tgt: "dhmp_get_trans_from_addr c a = Inr (Some t)" "dhmp_get_addr_info_from_ht c (dhmp_hash_in_client a) a = Inr (Some q)" "infos c q = Some info"
    and mr: "handed_out (net c (int i)) (nvm_mr info)" "\<forall>x. span (unat (mr_addr (nvm_mr info))) (mr_length (nvm_mr info)) x \<le> srv_busy (net c (int i)) x"
  shows "\<exists>c2. dhmp_free (cluster_verbs N regs peer) c a = Inr c2 \<and> srv_inv allocd regs up (net c2 (int i)) \<and>
    (\<forall>x. srv_busy (net c2 (int i)) x + span (unat (mr_addr (nvm_mr info))) (mr_length (nvm_mr info)) x = srv_busy (net c (int i)) x) \<and>
    addr_info_ht c2 = (let k = nat (dhmp_hash_in_client a) in (addr_info_ht c)(k := remove1 q (addr_info_ht c k))) \<and> infos c2 = (infos c)(q := None)"
proof -
  let ?V = "cluster_verbs N regs peer" and ?s = "net c (int i)" and ?mr = "nvm_mr info" and ?k = "nat (dhmp_hash_in_client a)"
  have l: "trans_state (transports c t) = DHMP_TRANSPORT_STATE_CONNECTED" "node_id (transports c t) = int i" "send_mr (transports c t) \<noteq> None"
    "trans_state (srv_transports ?s (peer (int i))) = DHMP_TRANSPORT_STATE_CONNECTED" "send_mr (srv_transports ?s (peer (int i))) \<noteq> None"
    using lk by (simp_all add: linked_def)
  then obtain ssm where ssm: "send_mr (srv_transports ?s (peer (int i))) = Some ssm" by blast
  from free_request_answered[OF N inv l(4) ssm mr d, of q] obtain s' where
    srv: "server_recv_handler N ?s (peer (int i)) (DHMP_MSG_FREE_REQUEST q ?mr) = Inr (Some (DHMP_MSG_FREE_RESPONSE q), s')"
      "srv_inv allocd regs up s'" "\<forall>x. srv_busy s' x + span (unat (mr_addr ?mr)) (mr_length ?mr) x = srv_busy ?s x" by blast
  define c0 where "c0 = c\<lparr>addr_info_ht := (addr_info_ht c)(?k := remove1 q (addr_info_ht c ?k))\<rparr>"
  have "\<exists>sm. dhmp_post_send ?V c0 t (DHMP_MSG_FREE_REQUEST q ?mr) =
      client_recv_handler (c0\<lparr>transports := (transports c0)(t := (transports c0 t)\<lparr>send_mr := Some sm\<rparr>), net := (net c0)(int i := s')\<rparr>) t
        (DHMP_MSG_FREE_RESPONSE q)"
    by (rule post_linked[where N = N and peer = peer]) (use l srv(1) in \<open>simp_all add: c0_def\<close>)
  then obtain sm where post: "dhmp_post_send ?V c0 t (DHMP_MSG_FREE_REQUEST q ?mr) =
      client_recv_handler (c0\<lparr>transports := (transports c0)(t := (transports c0 t)\<lparr>send_mr := Some sm\<rparr>), net := (net c0)(int i := s')\<rparr>) t
        (DHMP_MSG_FREE_RESPONSE q)" by blast
  define c1 where "c1 = c0\<lparr>transports := (transports c0)(t := (transports c0 t)\<lparr>send_mr := Some sm\<rparr>), net := (net c0)(int i := s'),
    infos := (infos c)(q \<mapsto> info\<lparr>nvm_mr := ?mr\<lparr>mr_addr := 0\<rparr>\<rparr>)\<rparr>"
  have post2: "dhmp_post_send ?V c0 t (DHMP_MSG_FREE_REQUEST q ?mr) = Inr c1"
    unfolding post by (simp add: client_recv_handler_def dhmp_free_response_handler_def upd_info_def c0_def tgt(3) c1_def)
  have i0: "infos c0 q = Some info" "\<not> in_recovery c0" using rec by (simp_all add: c0_def tgt(3))
  have i1: "infos c1 q = Some (info\<lparr>nvm_mr := ?mr\<lparr>mr_addr := 0\<rparr>\<rparr>)" by (simp add: c1_def)
  have "dhmp_free_work_handler ?V c t a = Inr (c1\<lparr>infos := (infos c1)(q := None)\<rparr>)"
    unfolding dhmp_free_work_handler_def by (simp only: Let_def tgt(2) rbind_Inr option.case c0_def[symmetric] i0 post2 if_False i1) simp
  then have "dhmp_free ?V c a = Inr (c1\<lparr>infos := (infos c1)(q := None)\<rparr>)"
    using a l(1) by (simp add: dhmp_free_def tgt(1) node_connected_def)
  then show ?thesis using srv(2,3) by (intro exI[of _ "c1\<lparr>infos := (infos c1)(q := None)\<rparr>"]) (simp add: c1_def c0_def Let_def)
qed

text \<open>C28: freeing an address just allocated gives everything back: the server's memory is as free as before, and the
  client's table is what it was.\<close>

theorem malloc_then_free:
  assumes "os_ok N allocd regs up" "srv_inv allocd regs up (net c (int i))" "linked peer c i t" "0 < n"
    and "dram_ht (net c (int i)) = (\<lambda>i. [])" "\<not> in_recovery c" "dhmp_malloc (cluster_verbs N regs peer) c n (int i) = Inr (a, c')" "a \<noteq> 0"
  shows "\<exists>c2. dhmp_free (cluster_verbs N regs peer) c' a = Inr c2 \<and> srv_inv allocd regs up (net c2 (int i)) \<and>
    srv_busy (net c2 (int i)) = srv_busy (net c (int i)) \<and> addr_info_ht c2 = addr_info_ht c \<and> infos c2 = (infos c)(next_info c := None)"
proof -
  from cluster_malloc[OF assms(1-4)] assms(7,8) obtain mr where
    m: "srv_inv allocd regs up (net c' (int i))" "linked peer c' i t" "dram_ht (net c' (int i)) = (\<lambda>i. [])" "\<not> in_recovery c'"
      "connect_trans c' = connect_trans c" and nr: "new_region regs c c' i n a mr" using assms(5,6) by auto
  from nr obtain info where info: "infos c' = (infos c)(next_info c \<mapsto> info)" "nvm_mr info = mr" by (auto simp: new_region_def)
  have busy: "\<forall>x. srv_busy (net c' (int i)) x = srv_busy (net c (int i)) x + span (unat (mr_addr mr)) (mr_length mr) x" "handed_out (net c' (int i)) mr"
    using nr by (simp_all add: new_region_def)
  then have h: "infos c' (next_info c) = Some info" "handed_out (net c' (int i)) (nvm_mr info)"
    "\<forall>x. span (unat (mr_addr (nvm_mr info))) (mr_length (nvm_mr info)) x \<le> srv_busy (net c' (int i)) x" by (simp_all add: info)
  from cluster_free[OF assms(1) m(1-4) assms(8) new_region_target(1,2)[OF assms(3) nr m(5)] h] obtain c2 where
    c2: "dhmp_free (cluster_verbs N regs peer) c' a = Inr c2" "srv_inv allocd regs up (net c2 (int i))"
      "\<forall>x. srv_busy (net c2 (int i)) x + span (unat (mr_addr mr)) (mr_length mr) x = srv_busy (net c' (int i)) x"
      "addr_info_ht c2 = addr_info_ht c" "infos c2 = (infos c)(next_info c := None)"
    using nr by (auto simp: info new_region_def Let_def)
  have "srv_busy (net c2 (int i)) x = srv_busy (net c (int i)) x" for x using spec[OF c2(3), of x] spec[OF busy(1), of x] by simp
  then have "srv_busy (net c2 (int i)) = srv_busy (net c (int i))" by (rule ext)
  then show ?thesis using c2(1,2,4,5) by blast
qed

theorem malloc_then_free_witness:
  "\<exists>a c' c2. dhmp_malloc machine_verbs cluster_client 4194304 (int 1) = Inr (a, c') \<and> a \<noteq> 0 \<and> dhmp_free machine_verbs c' a = Inr c2 \<and>
    srv_busy (net c2 (int 1)) = srv_busy (net cluster_client (int 1)) \<and> addr_info_ht c2 = addr_info_ht cluster_client"
proof -
  have n: "(0 :: nat) < 4194304" by simp
  from cluster_malloc[OF machine_os_ok cluster_client_ok(1,2) n] cluster_client_malloc new_region_usable(1)[OF cluster_client_ok(2) _ n] obtain a c' where
    m: "dhmp_malloc machine_verbs cluster_client 4194304 (int 1) = Inr (a, c')" "a \<noteq> 0" by metis
  from malloc_then_free[OF machine_os_ok cluster_client_ok(1,2) n cluster_client_ok(4,5) m] m show ?thesis by blast
qed


text \<open>A lookup that does not meet the next record goes on as before.\<close>

lemma old_lookup:
  assumes "table_fresh c" "infos c' = (infos c)(next_info c := x)" "addr_info_ht c' = addr_info_ht c" "connect_trans c' = connect_trans c"
    and "cl_target c b = Some (tb, p, info)"
  shows "cl_target c' b = Some (tb, p, info)"
proof -
  let ?w = "word_of_nat b :: 64 word" and ?k = "nat (dhmp_hash_in_client (word_of_nat b))"
  have look: "dhmp_get_trans_from_addr c ?w = Inr (Some tb)" "bucket_find c (addr_info_ht c ?k) (dhmp_transfer_normal_addr ?w) = Inr (Some p)" "infos c p = Some info"
    using assms(5) by (auto simp: cl_target_def Let_def dhmp_get_addr_info_from_ht_def split: sum.splits option.splits)
  have nf: "next_info c \<notin> set (addr_info_ht c ?k)" using assms(1) by (auto simp: table_fresh_def)
  then have pn: "p \<noteq> next_info c" using bucket_find_match[OF look(2)] by auto
  have "dhmp_get_addr_info_from_ht c' (dhmp_hash_in_client ?w) ?w = Inr (Some p)"
    using look(2) bucket_find_fresh[OF nf assms(2)] by (simp add: dhmp_get_addr_info_from_ht_def assms(3))
  moreover have "dhmp_get_trans_from_addr c' ?w = Inr (Some tb)"
    using look(1) by (metis dhmp_get_trans_from_addr_def trans_at_def assms(4))
  moreover have "infos c' p = Some info" using look(3) pn assms(2) by simp
  ultimately show ?thesis by (simp add: cl_target_def Let_def)
qed

text \<open>What allocating leaves of the target of another address.\<close>

lemma malloc_frame:
  assumes "table_fresh c" "connect_trans c' = connect_trans c" "srv_inv allocd regs up (net c' (int i))"
    and tb: "cl_target c b = Some (tb, p, info)" "node_id (transports c tb) = int i" "held c b"
    and r: "a = 0 \<and> infos c' = (infos c)(next_info c := None) \<and> addr_info_ht c' = addr_info_ht c \<and> srv_busy (net c' (int i)) = srv_busy (net c (int i)) \<and>
        memory (net c' (int i)) = memory (net c (int i)) \<or> (\<exists>mr. new_region regs c c' i n a mr)"
  shows "cl_target c' b = Some (tb, p, info)" "srv_busy (net c (int i)) x \<le> srv_busy (net c' (int i)) x"
    "unat (mr_addr (nvm_mr info)) \<le> x \<Longrightarrow> x < unat (mr_addr (nvm_mr info)) + mr_length (nvm_mr info) \<Longrightarrow> memory (net c' (int i)) x = memory (net c (int i)) x"
    "a \<noteq> 0 \<Longrightarrow> \<exists>mr. new_region regs c c' i n a mr \<and>
      (unat (mr_addr (nvm_mr info)) + mr_length (nvm_mr info) \<le> unat (mr_addr mr) \<or> unat (mr_addr mr) + mr_length mr \<le> unat (mr_addr (nvm_mr info)))"
proof -
  let ?mb = "nvm_mr info"
  have "cl_target c' b = Some (tb, p, info) \<and> (\<forall>x. srv_busy (net c (int i)) x \<le> srv_busy (net c' (int i)) x) \<and>
      (\<forall>x. unat (mr_addr ?mb) \<le> x \<and> x < unat (mr_addr ?mb) + mr_length ?mb \<longrightarrow> memory (net c' (int i)) x = memory (net c (int i)) x) \<and>
      (a \<noteq> 0 \<longrightarrow> (\<exists>mr. new_region regs c c' i n a mr \<and>
         (unat (mr_addr ?mb) + mr_length ?mb \<le> unat (mr_addr mr) \<or> unat (mr_addr mr) + mr_length mr \<le> unat (mr_addr ?mb))))"
    using r
  proof
    assume z: "a = 0 \<and> infos c' = (infos c)(next_info c := None) \<and> addr_info_ht c' = addr_info_ht c \<and> srv_busy (net c' (int i)) = srv_busy (net c (int i)) \<and>
        memory (net c' (int i)) = memory (net c (int i))"
    have "cl_target c' b = Some (tb, p, info)" by (rule old_lookup[OF assms(1) _ _ assms(2) tb(1)]) (use z in auto)
    then show ?thesis using z by simp
  next
    assume "\<exists>mr. new_region regs c c' i n a mr"
    then obtain mr where nr: "new_region regs c c' i n a mr" by blast
    note lk = new_region_lookup[OF assms(1) nr assms(2) tb assms(3)]
    have "srv_busy (net c (int i)) x \<le> srv_busy (net c' (int i)) x" for x using nr by (simp add: new_region_def)
    moreover have "memory (net c' (int i)) x = memory (net c (int i)) x"
      if "unat (mr_addr ?mb) \<le> x \<and> x < unat (mr_addr ?mb) + mr_length ?mb" for x
    proof -
      have "x < unat (mr_addr mr) \<or> unat (mr_addr mr) + mr_length mr \<le> x" using that lk(3) by linarith
      then show ?thesis using nr unfolding new_region_def by blast
    qed
    ultimately show ?thesis using lk(1,3) nr by blast
  qed
  then show "cl_target c' b = Some (tb, p, info)" "srv_busy (net c (int i)) x \<le> srv_busy (net c' (int i)) x"
    "unat (mr_addr ?mb) \<le> x \<Longrightarrow> x < unat (mr_addr ?mb) + mr_length ?mb \<Longrightarrow> memory (net c' (int i)) x = memory (net c (int i)) x"
    "a \<noteq> 0 \<Longrightarrow> \<exists>mr. new_region regs c c' i n a mr \<and>
      (unat (mr_addr ?mb) + mr_length ?mb \<le> unat (mr_addr mr) \<or> unat (mr_addr mr) + mr_length mr \<le> unat (mr_addr ?mb))" by blast+
qed

text \<open>C29: an allocation on a node leaves every other address held on that node as it is: it stays
  usable, leads to the same place with the same contents, and lies apart from the new region.\<close>

theorem malloc_keeps_addresses:
  assumes "os_ok N allocd regs up" "srv_inv allocd regs up (net c (int i))" "linked peer c i t" "0 < n" "table_fresh c"
    and "dhmp_malloc (cluster_verbs N regs peer) c n (int i) = Inr (a, c')"
    and "cl_usable (cluster_grant regs) r c b" "cl_node c b = int i" "held c b"
  shows "table_fresh c' \<and> cl_usable (cluster_grant regs) r c' b \<and> held c' b \<and> cl_node c' b = int i \<and> cl_base c' b = cl_base c b \<and>
    cl_content cluster_mem r c' b = cl_content cluster_mem r c b \<and>
    (a \<noteq> 0 \<longrightarrow> cl_base c' b + r \<le> cl_base c' (unat a) \<or> cl_base c' (unat a) + n \<le> cl_base c' b)"
proof -
  from cluster_malloc[OF assms(1-4)] assms(6) have
    m: "srv_inv allocd regs up (net c' (int i))" "connect_trans c' = connect_trans c" "read_mr c' = read_mr c"
      "\<forall>mr. handed_out (net c (int i)) mr \<longrightarrow> handed_out (net c' (int i)) mr" "next_info c' = Suc (next_info c)" and
    ex: "\<exists>sm. transports c' = (transports c)(t := (transports c t)\<lparr>send_mr := Some sm\<rparr>)" and
    r: "a = 0 \<and> infos c' = (infos c)(next_info c := None) \<and> addr_info_ht c' = addr_info_ht c \<and> srv_busy (net c' (int i)) = srv_busy (net c (int i)) \<and>
        memory (net c' (int i)) = memory (net c (int i)) \<or> (\<exists>mr. new_region regs c c' i n a mr)" by auto
  from ex obtain sm where sm: "transports c' = (transports c)(t := (transports c t)\<lparr>send_mr := Some sm\<rparr>)" by blast
  from assms(9) obtain tb p info where tb: "cl_target c b = Some (tb, p, info)" by (auto simp: held_def split: option.splits)
  have nb: "node_id (transports c tb) = int i" using assms(8) by (simp add: cl_node_def tb)
  have nb': "node_id (transports c' tb) = int i" "trans_state (transports c' tb) = trans_state (transports c tb)" using nb sm by auto
  let ?mb = "nvm_mr info"
  have h: "handed_out (net c (int i)) ?mb" "\<forall>x. span (unat (mr_addr ?mb)) (mr_length ?mb) x \<le> srv_busy (net c (int i)) x"
    using assms(9) by (simp_all add: held_def tb nb)
  have us: "r \<le> mr_length ?mb" "\<not> write_flag info" "trans_state (transports c tb) = DHMP_TRANSPORT_STATE_CONNECTED" "b < 2 ^ 64"
    "i < DHMP_SERVER_NODE_NUM" "read_mr c i \<noteq> None" using assms(7) by (simp_all add: cl_usable_def tb nb Let_def)
  note frame = malloc_frame[OF assms(5) m(2,1) tb nb assms(9) r]
  note tb' = frame(1)
  have h': "handed_out (net c' (int i)) ?mb" using h(1) m(4) by blast
  have hold: "held c' b" using h(2) frame(2) h' by (auto simp: held_def tb' nb' intro: le_trans)
  have place: "cl_node c' b = int i" "cl_base c' b = unat (mr_addr ?mb)" "cl_base c b = unat (mr_addr ?mb)"
    by (simp_all add: cl_node_def cl_base_def tb' tb nb')
  have usable: "cl_usable (cluster_grant regs) r c' b"
    unfolding cl_usable_def tb' using us held_grant[OF m(1) h'] nb' m(3) by simp
  have content: "cl_content cluster_mem r c' b = cl_content cluster_mem r c b"
    using frame(3) us(1) by (auto simp: cl_content_def cluster_mem_def place assms(8) fun_eq_iff)
  have "cl_base c' b + r \<le> cl_base c' (unat a) \<or> cl_base c' (unat a) + n \<le> cl_base c' b" if "a \<noteq> 0"
  proof -
    from frame(4)[OF that] obtain mr where nr: "new_region regs c c' i n a mr"
      "unat (mr_addr ?mb) + mr_length ?mb \<le> unat (mr_addr mr) \<or> unat (mr_addr mr) + mr_length mr \<le> unat (mr_addr ?mb)" by blast
    have "n \<le> mr_length mr" using nr(1) by (simp add: new_region_def)
    then show ?thesis using nr(2) us(1) unfolding new_region_usable(4)[OF assms(3) nr(1) assms(4) m(2,3) sm] place by linarith
  qed
  moreover have "table_fresh c'"
    using r
  proof
    assume "a = 0 \<and> infos c' = (infos c)(next_info c := None) \<and> addr_info_ht c' = addr_info_ht c \<and> srv_busy (net c' (int i)) = srv_busy (net c (int i)) \<and>
        memory (net c' (int i)) = memory (net c (int i))"
    then show ?thesis using assms(5) m(5) by (auto simp: table_fresh_def less_Suc_eq)
  qed (use new_region_fresh[OF _ assms(5) m(5)] in blast)
  ultimately show ?thesis using usable hold place content by simp
qed

theorem malloc_keeps_addresses_witness:
  "\<exists>a1 c1 a2 c2. dhmp_malloc machine_verbs cluster_client 4194304 (int 1) = Inr (a1, c1) \<and> a1 \<noteq> 0 \<and>
    dhmp_malloc machine_verbs c1 64 (int 1) = Inr (a2, c2) \<and> cl_usable (cluster_grant (\<lambda>h. set (mrs h))) 4194304 c2 (unat a1) \<and>
    cl_content cluster_mem 4194304 c2 (unat a1) = cl_content cluster_mem 4194304 c1 (unat a1)"
proof -
  have n: "(0 :: nat) < 4194304" "(0 :: nat) < 64" by simp_all
  from cluster_malloc[OF machine_os_ok cluster_client_ok(1,2) n(1)] cluster_client_malloc obtain a1 c1 mr sm where
    m: "dhmp_malloc machine_verbs cluster_client 4194304 (int 1) = Inr (a1, c1)"
      "srv_inv (\<lambda>h. set (ranges h)) (\<lambda>h. set (mrs h)) machine_up (net c1 (int 1))" "connect_trans c1 = connect_trans cluster_client"
      "read_mr c1 = read_mr cluster_client" "next_info c1 = Suc (next_info cluster_client)" "linked (\<lambda>node. 0) c1 1 1"
      "transports c1 = (transports cluster_client)(1 := (transports cluster_client 1)\<lparr>send_mr := Some sm\<rparr>)"
      "new_region (\<lambda>h. set (mrs h)) cluster_client c1 1 4194304 a1 mr" by blast
  note u = new_region_usable[OF cluster_client_ok(2) m(8) n(1) m(3,4,7)]
  note fresh = new_region_fresh[OF m(8) cluster_client_ok(3) m(5)]
  note hd = new_region_held[OF cluster_client_ok(2) m(8) m(3,7)]
  from cluster_malloc[OF machine_os_ok m(2,6) n(2)] obtain a2 c2 where m2: "dhmp_malloc machine_verbs c1 64 (int 1) = Inr (a2, c2)" by blast
  from malloc_keeps_addresses[OF machine_os_ok m(2,6) n(2) fresh m2 u(2,3) hd] m(1) m2 u(1) show ?thesis by blast
qed

end
