(* ===== verification/Fs_Store.thy ===== *)
theory Fs_Store
  imports Fs_Io Dhmp_Client
begin

text \<open>
  The file system over the client library: \<open>client_api\<close> gives the cache layer of \<open>Fs_Cache\<close> the calls of
  \<open>Dhmp_Client\<close> as \<open>src/src/dhmp_fs_io.c\<close> makes them, \<open>client_store\<close> discharges the laws of a remote store, and the
  lemmas on reads and writes hold of the composition. An address the file system keeps is a number.
\<close>

section \<open>The calls\<close>

definition client_api :: "'n verbs \<Rightarrow> 'n dhmp_client dhmp_api" where
  "client_api V =
     \<lparr>dhmp_read_op = (\<lambda>c a buf off. dhmp_read V c (word_of_nat a) buf (int off)),
      dhmp_write_op = (\<lambda>c a bs off. dhmp_write V c (word_of_nat a) bs (int off)),
      dhmp_malloc_op = (\<lambda>c n node. rbind (dhmp_malloc V c n (int node)) (\<lambda>(a, c1). Inr (unat a, c1))),
      dhmp_free_op = (\<lambda>c a. dhmp_free V c (word_of_nat a)),
      dhmp_send_op = (\<lambda>c a bs. rbind (dhmp_send V c (word_of_nat a) bs True) (\<lambda>(re, buf, c1). Inr (re, c1)))\<rparr>"

lemma client_api_simps:
  "dhmp_read_op (client_api V) = (\<lambda>c a buf off. dhmp_read V c (word_of_nat a) buf (int off))"
  "dhmp_write_op (client_api V) = (\<lambda>c a bs off. dhmp_write V c (word_of_nat a) bs (int off))"
  by (simp_all add: client_api_def)

lemma bank_store:
  assumes "verbs_ok V mem grant"
  shows "remote_store (\<lambda>c a buf off. dhmp_read V c (word_of_nat a) buf (int off)) (\<lambda>c a bs off. dhmp_write V c (word_of_nat a) bs (int off))
    (cl_content mem BANK_SIZE) (cl_ok grant BANK_SIZE) BANK_SIZE"
  by (rule client_store[OF assms]) (simp add: BANK_SIZE_def)

text \<open>Server tables, banks and cache of a file system on a client.\<close>

definition store_ok :: "('n \<Rightarrow> int \<Rightarrow> buf) \<Rightarrow> ('n \<Rightarrow> int \<Rightarrow> nat \<Rightarrow> nat \<Rightarrow> nat \<Rightarrow> bool) \<Rightarrow> (nat \<Rightarrow> nat \<Rightarrow> bool) \<Rightarrow>
    ('n dhmp_client, 'z) io_state_scheme \<Rightarrow> bool" where
  "store_ok mem grant D s \<longleftrightarrow> ix_inv s \<and> io_ok (cl_content mem BANK_SIZE) (cl_ok grant BANK_SIZE) D s"

section \<open>A file system with its banks on one node\<close>

text \<open>Node 0 is nothing but memory, with room for the banks of three servers; region \<open>b\<close> lies at \<open>BANK_SIZE * (b + 1)\<close>.\<close>

definition bank_addr :: "nat \<Rightarrow> nat" where
  "bank_addr b = BANK_SIZE * (b + 1)"

definition REGIONS :: nat where
  "REGIONS = 3 * BANK_NUM"

definition bank_mr :: "nat \<Rightarrow> ibv_mr" where
  "bank_mr b = \<lparr>mr_addr = word_of_nat (bank_addr b), mr_length = BANK_SIZE, lkey = 7, rkey = 7\<rparr>"

definition bank_client :: "(int \<Rightarrow> buf) dhmp_client" where
  "bank_client = (sample_client flat_memory)\<lparr>connect_trans := (\<lambda>i. if i = 0 then Some 0 else None),
     addr_info_ht := (\<lambda>k. filter (\<lambda>b. nat (dhmp_hash_in_client (word_of_nat (bank_addr b))) = k) [0 ..< REGIONS]),
     infos := (\<lambda>p. if p < REGIONS then Some (blank_info\<lparr>nvm_mr := bank_mr p\<rparr>) else None)\<rparr>"

definition bank_fs :: "(int \<Rightarrow> buf) dhmp_client io_state" where
  "bank_fs = io_start [new_server 0 bank_addr] bank_client"

lemma bank_addr_small: "b < REGIONS \<Longrightarrow> bank_addr b + BANK_SIZE < 2 ^ 48"
  by (simp add: bank_addr_def BANK_SIZE_def REGIONS_def BANK_NUM_def TOTOL_SIZE_def)

lemma bank_addr_unat: "b < REGIONS \<Longrightarrow> unat (word_of_nat (bank_addr b) :: 64 word) = bank_addr b"
  using bank_addr_small[of b] by (simp add: unat_of_nat take_bit_nat_eq_self)

lemma bank_addr_apart: "b \<noteq> b' \<Longrightarrow> bank_addr b + BANK_SIZE \<le> bank_addr b' \<or> bank_addr b' + BANK_SIZE \<le> bank_addr b"
proof -
  assume "b \<noteq> b'"
  then consider "b + 1 \<le> b'" | "b' + 1 \<le> b" by linarith
  then show ?thesis
  proof cases
    case 1
    then have "BANK_SIZE * (b + 1) \<le> BANK_SIZE * b'" by (rule mult_le_mono2)
    then show ?thesis by (simp add: bank_addr_def)
  next
    case 2
    then have "BANK_SIZE * (b' + 1) \<le> BANK_SIZE * b" by (rule mult_le_mono2)
    then show ?thesis by (simp add: bank_addr_def)
  qed
qed

lemma bank_addr_inj: "bank_addr b = bank_addr b' \<longleftrightarrow> b = b'"
  by (simp add: bank_addr_def BANK_SIZE_def)

text \<open>Every bank address leads to its record, and nothing else leads anywhere.\<close>

lemma bank_find:
  assumes "b < REGIONS" "b \<in> set ps" "\<forall>p \<in> set ps. p < REGIONS"
  shows "bucket_find bank_client ps (word_of_nat (bank_addr b)) = Inr (Some b)"
  using assms
proof (induction ps)
  case (Cons p ps)
  have p: "infos bank_client p = Some (blank_info\<lparr>nvm_mr := bank_mr p\<rparr>)" using Cons.prems by (simp add: bank_client_def)
  have "(word_of_nat (bank_addr p) :: 64 word) = word_of_nat (bank_addr b) \<longleftrightarrow> p = b"
    using Cons.prems bank_addr_unat[of p] bank_addr_unat[of b] bank_addr_inj by (metis list.set_intros(1))
  then show ?case using Cons p by (auto simp: bank_mr_def)
qed simp

lemma bank_node: "unat w < 2 ^ 48 \<Longrightarrow> addr_node w = 0"
  by (subst addr_node_small) (simp_all add: less_trans)

lemma bank_trans: "dhmp_get_trans_from_addr bank_client w = Inr (Some t) \<longleftrightarrow> addr_node w = 0 \<and> t = 0"
  by (auto simp: dhmp_get_trans_from_addr_def trans_at_def bank_client_def DHMP_SERVER_NODE_NUM_def split: if_splits)

lemma bank_target: "b < REGIONS \<Longrightarrow> cl_target bank_client (bank_addr b) = Some (0, b, blank_info\<lparr>nvm_mr := bank_mr b\<rparr>)"
proof -
  assume b: "b < REGIONS"
  let ?w = "word_of_nat (bank_addr b) :: 64 word"
  have "unat ?w < 2 ^ 48" unfolding bank_addr_unat[OF b] using bank_addr_small[OF b] by linarith
  then have n: "addr_node ?w = 0" by (rule bank_node)
  then have w: "dhmp_transfer_normal_addr ?w = ?w" by (simp add: dhmp_transfer_normal_addr_def)
  have "b \<in> set (addr_info_ht bank_client (nat (dhmp_hash_in_client ?w)))" "\<forall>p \<in> set (addr_info_ht bank_client (nat (dhmp_hash_in_client ?w))). p < REGIONS"
    using b by (simp_all add: bank_client_def)
  then have "dhmp_get_addr_info_from_ht bank_client (dhmp_hash_in_client ?w) ?w = Inr (Some b)"
    using bank_find[OF b] by (simp add: dhmp_get_addr_info_from_ht_def w)
  moreover have "dhmp_get_trans_from_addr bank_client ?w = Inr (Some 0)" using n by (simp add: bank_trans)
  moreover have "infos bank_client b = Some (blank_info\<lparr>nvm_mr := bank_mr b\<rparr>)" using b by (simp add: bank_client_def)
  ultimately show ?thesis unfolding cl_target_def Let_def by simp
qed

lemma bank_target_only:
  assumes "a < 2 ^ 64" "cl_target bank_client a = Some x"
  shows "\<exists>b < REGIONS. a = bank_addr b"
proof -
  let ?w = "word_of_nat a :: 64 word"
  from assms(2) obtain t p info where t: "dhmp_get_trans_from_addr bank_client ?w = Inr (Some t)"
    "dhmp_get_addr_info_from_ht bank_client (dhmp_hash_in_client ?w) ?w = Inr (Some p)" "infos bank_client p = Some info"
    by (auto simp: cl_target_def Let_def split: sum.splits option.splits)
  then have p: "p < REGIONS" "info = blank_info\<lparr>nvm_mr := bank_mr p\<rparr>" by (auto simp: bank_client_def split: if_splits)
  have "addr_node ?w = 0" using t(1) by (simp add: bank_trans)
  then have w: "dhmp_transfer_normal_addr ?w = ?w" by (simp add: dhmp_transfer_normal_addr_def)
  have m: "\<exists>a. infos c p = Some a \<and> mr_addr (nvm_mr a) = w" if "bucket_find c ps w = Inr (Some p)" for c :: "(int \<Rightarrow> buf) dhmp_client" and ps w
    using that by (induction ps) (auto split: option.splits if_splits)
  from t(2,3) m[of bank_client _ ?w] have "mr_addr (nvm_mr info) = ?w" by (auto simp: dhmp_get_addr_info_from_ht_def w)
  then have "?w = word_of_nat (bank_addr p)" using p(2) by (simp add: bank_mr_def)
  then have "unat ?w = bank_addr p" using bank_addr_unat[OF p(1)] by metis
  moreover have "unat ?w = a" using assms(1) by (simp add: unat_of_nat take_bit_nat_eq_self)
  ultimately show ?thesis using p(1) by auto
qed


lemma bank_usable: "b < REGIONS \<Longrightarrow> cl_usable flat_grant BANK_SIZE bank_client (bank_addr b)"
proof -
  assume b: "b < REGIONS"
  have t: "trans_state (transports bank_client 0) = DHMP_TRANSPORT_STATE_CONNECTED" "node_id (transports bank_client 0) = 0" "read_mr bank_client 0 = Some 64"
    by (simp_all add: bank_client_def sample_client_def blank_transport_def)
  have m: "unat (mr_addr (bank_mr b)) = bank_addr b" "mr_length (bank_mr b) = BANK_SIZE" "rkey (bank_mr b) = 7"
    using bank_addr_unat[OF b] by (simp_all add: bank_mr_def)
  have "bank_addr b + BANK_SIZE < 2 ^ 64" "bank_addr b < 2 ^ 64" using bank_addr_small[OF b] by simp_all
  then show ?thesis unfolding cl_usable_def bank_target[OF b]
    by (simp add: t m flat_grant_def blank_info_def DHMP_SERVER_NODE_NUM_def)
qed

lemma bank_ok: "b < REGIONS \<Longrightarrow> cl_ok flat_grant BANK_SIZE bank_client (bank_addr b)"
  unfolding cl_ok_def
proof (intro conjI allI impI)
  fix a assume b: "b < REGIONS" and a: "a \<noteq> bank_addr b" "cl_usable flat_grant BANK_SIZE bank_client a"
  then obtain x where "a < 2 ^ 64" "cl_target bank_client a = Some x" by (auto simp: cl_usable_def split: option.splits)
  from bank_target_only[OF this] obtain b' where b': "b' < REGIONS" "a = bank_addr b'" by blast
  have "cl_base bank_client (bank_addr d) = bank_addr d" if "d < REGIONS" for d
    using bank_addr_unat[OF that] by (simp add: cl_base_def bank_target[OF that] bank_mr_def)
  then show "cl_apart BANK_SIZE bank_client (bank_addr b) a"
    using b b' a(1) bank_addr_apart[of b b'] by (auto simp: cl_apart_def)
qed (rule bank_usable)

text \<open>The file system whose root is inode 0, nothing is determined yet.\<close>

lemma bank_fs_ok: "store_ok id flat_grant (\<lambda>b off. False) bank_fs"
proof -
  have "ix_inv bank_fs"
    by (simp add: ix_inv_def owns_ok_def sizes_ok_def chunks_ok_def bank_fs_def io_start_def blank_inode_def sizes(4))
  moreover have "cache_wf bank_fs"
    by (auto simp: cache_wf_def bank_fs_def io_start_def cache_key_mod CACHE_SIZE_def CACHE_SIZE_BYTE_def BANK_SIZE_def BANK_NUM_def TOTOL_SIZE_def)
  moreover have "servers_ok (cl_ok flat_grant BANK_SIZE) bank_fs"
    by (simp add: servers_ok_def bank_fs_def io_start_def new_server_def SERVERNUM_def REGIONS_def bank_ok bank_addr_inj)
  moreover have "replicas_ok (cl_content id BANK_SIZE) (\<lambda>b off. False) bank_fs" by (simp add: replicas_ok_def)
  ultimately show ?thesis by (simp add: store_ok_def io_ok_def)
qed

lemma store_write:
  assumes "verbs_ok V mem grant" "store_ok mem grant D s" "card (used_chunks s) + touched offset (length buff) \<le> CHUNK_NUM"
    and "offset + length buff \<le> SIZE_THIRD_DIRECT_END" "length buff < 2 ^ 31" "\<not> isDirectories (inodes s head)"
  shows "\<exists>s' buff' D'. dhmp_fs_write (client_api V) s buff offset (Some head) = Inr (s', buff', int (length buff)) \<and>
    store_ok mem grant D' s' \<and> wrote (cl_content mem BANK_SIZE) D D' s s' head offset buff \<and>
    (resident s s' head offset (length buff) \<longrightarrow> buff' = buff)"
  using remote_store.fs_write_ok[OF bank_store[OF assms(1)] client_api_simps order_refl _ _ assms(3-6)] assms(2)
  unfolding store_ok_def by blast

lemma store_read:
  assumes "verbs_ok V mem grant" "store_ok mem grant D s" "length buff < 2 ^ 31" "\<not> isDirectories (inodes s head)"
    and "m \<le> length buff" "\<forall>k < m. file_byte (cl_content mem BANK_SIZE) s head (offset + k) \<noteq> None"
    and "m < length buff \<longrightarrow> file_stop s head (offset + m)"
  shows "\<exists>s' bs. dhmp_fs_read (client_api V) s buff offset (Some head) = Inr (s', bs @ drop m buff, int m) \<and> length bs = m \<and>
    reads (cl_content mem BANK_SIZE) D s head offset bs \<and> store_ok mem grant D s' \<and> same_view (cl_content mem BANK_SIZE) D s s' \<and> fs_same s s'"
  using remote_store.fs_read_ok[OF bank_store[OF assms(1)] client_api_simps order_refl _ _ assms(5,6,7,3,4)] assms(2)
  unfolding store_ok_def by blast

lemma store_sweep:
  assumes "verbs_ok V mem grant" "store_ok mem grant D s"
  shows "\<exists>s'. rewrite_dirty_cache (client_api V) busy s = Inr s' \<and> store_ok mem grant D s' \<and> same_view (cl_content mem BANK_SIZE) D s s' \<and>
    fs_same s s' \<and> (\<forall>k < CACHE_SIZE. \<forall>p. cache_ptr (cache_hash s k) = Some p \<longrightarrow> dirty (caches s' p) \<longrightarrow> busy p)"
proof -
  have io: "io_ok (cl_content mem BANK_SIZE) (cl_ok grant BANK_SIZE) D s" "ix_inv s" using assms(2) by (simp_all add: store_ok_def)
  have k: "\<forall>k \<in> set [0 ..< CACHE_SIZE]. k < CACHE_SIZE" by simp
  from remote_store.sweep_ok[OF bank_store[OF assms(1)] client_api_simps(2) order_refl io(1) k, of busy] obtain s' where
    s': "rewrite_sweep (client_api V) busy [0 ..< CACHE_SIZE] s = Inr s'" "io_ok (cl_content mem BANK_SIZE) (cl_ok grant BANK_SIZE) D s'"
      "same_view (cl_content mem BANK_SIZE) D s s'" "fs_same s s'" "cache_hash s' = cache_hash s"
      "\<forall>q. dirty (caches s' q) \<longleftrightarrow> dirty (caches s q) \<and> (busy q \<or> (\<forall>k \<in> set [0 ..< CACHE_SIZE]. cache_ptr (cache_hash s k) \<noteq> Some q))" by blast
  have "store_ok mem grant D s'" using s'(2) file_same(1)[OF io(2) s'(4,3)] by (simp add: store_ok_def)
  moreover have "\<forall>k < CACHE_SIZE. \<forall>p. cache_ptr (cache_hash s k) = Some p \<longrightarrow> dirty (caches s' p) \<longrightarrow> busy p" using s'(6) by auto
  ultimately show ?thesis using s'(1,3,4) by (auto simp: rewrite_dirty_cache_def)
qed

text \<open>The first write to a fresh file system goes to chunk 0.\<close>

lemma first_chunk: "dhmp_fs_write dm (io_start S m) [1,2,3] 0 (Some 7) = Inr (s, b, n) \<Longrightarrow> file_chunk s 7 0 = Some 0"
proof -
  assume w: "dhmp_fs_write dm (io_start S m) [1,2,3] 0 (Some 7) = Inr (s, b, n)"
  have u: "usub64 4096 0 = 4096" by (subst usub64_ge) simp_all
  define s1 where "s1 = upd_context (upd_inode ((io_start S m)\<lparr>free_cursor := 0, bitmap := (\<lambda>_. False)(0 := True)\<rparr>) 7
     (\<lambda>d. d\<lparr>cnt_id := set_slot (cnt_id d) (Direct 0) (Some 0)\<rparr>)) 0 (\<lambda>x. x\<lparr>which_inode_it_is := Some (7, Direct 0)\<rparr>)"
  have l: "level3_local_index (io_start S m) 0 7 False = Inr (insert_list s1 7 0, Some 0, 0)"
    by (simp add: level3_local_index_def const_simps visit_slot_def fill_slot_def get_free_context_def getFreeChunk_def s1_def io_start_def blank_inode_def chunk_scan.simps insert_list_def)
  have d: "\<not> isDirectories (inodes (io_start S m) 7)" by (simp add: io_start_def blank_inode_def)
  have c: "cnt_id (inodes (insert_list s1 7 0) 7) = set_slot (cnt_id blank_inode) (Direct 0) (Some 0)"
    by (simp add: insert_list_def s1_def io_start_def)
  have t: "cache_hash (insert_list s1 7 0) = (\<lambda>k. \<lparr>hash_bank_id = k, cache_ptr = Some k\<rparr>)"
    by (simp add: insert_list_def s1_def io_start_def)
  have b: "chunk_bank 0 = 0" "chunk_pos 0 = 0" by (simp_all add: chunk_bank_def chunk_pos_def)
  have wc: "\<exists>s2. dhmp_fs_write_to_cache dm (insert_list s1 7 0) 0 [1,2,3] 0 = Inr (s2, [1,2,3]) \<and> inodes s2 = inodes (insert_list s1 7 0)"
    by (simp add: dhmp_fs_write_to_cache_def try_visit_cache_def t cache_key_mod BANK_SIZE_def upd_cache_def)
  then obtain s2 where s2: "dhmp_fs_write_to_cache dm (insert_list s1 7 0) 0 [1,2,3] 0 = Inr (s2, [1,2,3])" "inodes s2 = inodes (insert_list s1 7 0)" by blast
  have "cnt_id (inodes s 7) = cnt_id (inodes s2 7)"
    using w d by (auto simp: dhmp_fs_write_def l b u s2(1) sizes(2) Let_def split: if_splits)
  then show ?thesis by (simp add: s2(2) c file_chunk_def chunk_slot_def const_simps)
qed

text \<open>
  A position behind the bytes of an allocated chunk, and the number of bytes of a file that are there from an offset on, at most \<open>n\<close>.
  A read stops where it arrives by reading on; where it starts behind the bytes of a chunk it does not.
\<close>

definition past_bytes :: "('m, 'z) io_state_scheme \<Rightarrow> inode_id \<Rightarrow> nat \<Rightarrow> bool" where
  "past_bytes s head n \<longleftrightarrow> n < SIZE_THIRD_DIRECT_END \<and>
     (case file_chunk s head (n div CHUNK_SIZE) of None \<Rightarrow> False | Some c \<Rightarrow> csize (context_addr s c) < n mod CHUNK_SIZE)"

definition readable :: "('m \<Rightarrow> nat \<Rightarrow> buf) \<Rightarrow> ('m, 'z) io_state_scheme \<Rightarrow> inode_id \<Rightarrow> nat \<Rightarrow> nat \<Rightarrow> nat" where
  "readable content s head offset n = length (takeWhile (\<lambda>k. file_byte content s head (offset + k) \<noteq> None) [0 ..< n])"

lemma past_bytes_cases:
  assumes "file_byte content s head n = None"
  shows "file_stop s head n \<or> past_bytes s head n"
  using assms by (auto simp: file_stop_def past_bytes_def file_byte_def split: option.splits if_splits)

lemma past_bytes_next:
  assumes "file_byte content s head n \<noteq> None" "n < SIZE_THIRD_DIRECT_END"
  shows "\<not> past_bytes s head (Suc n)"
proof (cases "Suc (n mod CHUNK_SIZE) = CHUNK_SIZE")
  case True
  then have "Suc n mod CHUNK_SIZE = 0" by (simp add: mod_Suc)
  then show ?thesis by (simp add: past_bytes_def split: option.splits)
next
  case False
  then have "Suc n mod CHUNK_SIZE = Suc (n mod CHUNK_SIZE)" "Suc n div CHUNK_SIZE = n div CHUNK_SIZE"
    by (simp_all add: mod_Suc div_Suc)
  then show ?thesis using assms by (auto simp: past_bytes_def file_byte_def split: option.splits if_splits)
qed

lemma readable_spec:
  assumes "\<not> past_bytes s head offset"
  shows "readable content s head offset n \<le> n" "\<forall>k < readable content s head offset n. file_byte content s head (offset + k) \<noteq> None"
    "readable content s head offset n < n \<longrightarrow> file_stop s head (offset + readable content s head offset n)"
proof -
  let ?P = "\<lambda>k. file_byte content s head (offset + k) \<noteq> None" and ?m = "readable content s head offset n"
  show le: "?m \<le> n" unfolding readable_def using length_takeWhile_le[of ?P "[0 ..< n]"] by simp
  have "?P ([0 ..< n] ! k)" if "k < ?m" for k
    using nth_mem[of k "takeWhile ?P [0 ..< n]"] that unfolding readable_def by (metis set_takeWhileD takeWhile_nth)
  then show ex: "\<forall>k < ?m. ?P k" using le by simp
  show "?m < n \<longrightarrow> file_stop s head (offset + ?m)"
  proof
    assume m: "?m < n"
    then have "\<not> ?P ([0 ..< n] ! ?m)" unfolding readable_def by (intro nth_length_takeWhile) simp
    then have none: "file_byte content s head (offset + ?m) = None" using m by simp
    have "\<not> past_bytes s head (offset + ?m)"
    proof (cases ?m)
      case 0
      then show ?thesis using assms by simp
    next
      case (Suc k)
      then have "?P k" using ex by simp
      then have "offset + k < SIZE_THIRD_DIRECT_END" by (auto simp: file_byte_def split: if_splits)
      then show ?thesis using past_bytes_next[of content s head "offset + k"] \<open>?P k\<close> Suc by simp
    qed
    then show "file_stop s head (offset + ?m)" using past_bytes_cases[OF none] by blast
  qed
qed

text \<open>The first write, on the sample file system: its bank is in the cache.\<close>

lemma first_write:
  "\<exists>s D'. dhmp_fs_write (client_api flat_verbs) bank_fs [1, 2, 3] 0 (Some 7) = Inr (s, [1, 2, 3], 3) \<and> store_ok id flat_grant D' s \<and>
    wrote (cl_content id BANK_SIZE) (\<lambda>b off. False) D' bank_fs s 7 0 [1, 2, 3] \<and> resident bank_fs s 7 0 (length [1 :: byte, 2, 3]) \<and>
    \<not> isDirectories (inodes s 7)"
proof -
  have h: "card (used_chunks bank_fs) + touched 0 (length [1 :: byte, 2, 3]) \<le> CHUNK_NUM" "0 + length [1 :: byte, 2, 3] \<le> SIZE_THIRD_DIRECT_END"
    "length [1 :: byte, 2, 3] < 2 ^ 31" "\<not> isDirectories (inodes bank_fs 7)"
    by (simp_all add: used_chunks_def bank_fs_def io_start_def blank_inode_def touched_def const_simps)
  from store_write[OF flat_verbs_ok bank_fs_ok h] obtain s' buff' D' where
    w: "dhmp_fs_write (client_api flat_verbs) bank_fs [1, 2, 3] 0 (Some 7) = Inr (s', buff', int (length [1 :: byte, 2, 3]))"
      "store_ok id flat_grant D' s'" "wrote (cl_content id BANK_SIZE) (\<lambda>b off. False) D' bank_fs s' 7 0 [1, 2, 3]"
      "resident bank_fs s' 7 0 (length [1 :: byte, 2, 3]) \<longrightarrow> buff' = [1, 2, 3]" by blast
  have "file_chunk s' 7 0 = Some 0" using w(1) unfolding bank_fs_def by (rule first_chunk)
  moreover have "cached bank_fs (chunk_bank 0) = Some 0" by (simp add: cached_def bank_fs_def io_start_def chunk_bank_def cache_key_mod)
  ultimately have r: "resident bank_fs s' 7 0 (length [1 :: byte, 2, 3])" by (simp add: resident_def const_simps)
  have "inodes s' 7 = (inodes bank_fs 7)\<lparr>cnt_id := cnt_id (inodes s' 7), ctxs := ctxs (inodes s' 7), isize := isize (inodes s' 7)\<rparr>"
    using wroteD(1)[OF w(3)] by (simp add: other_files_def)
  then have "isDirectories (inodes s' 7) = isDirectories (inodes bank_fs 7)" by (rule ssubst) simp
  then show ?thesis using w r h(4) by (intro exI[of _ s'] exI[of _ D']) simp
qed

section \<open>Properties\<close>

text \<open>C6: writing to a regular file with enough free chunks returns the number of bytes, whatever the offset. Afterwards all
  positions of the range are bytes of the file, everything else in this and the other files stays, and the chunk and
  cache invariants go on to hold. The range holds the data, and the caller's buffer is left alone, when the banks of
  its chunks were in the cache. On a miss nothing is claimed of their values (a property below says what becomes of them).\<close>

theorem file_write:
  assumes "verbs_ok V mem grant" "store_ok mem grant D s" "card (used_chunks s) + touched offset (length buff) \<le> CHUNK_NUM"
    and "offset + length buff \<le> SIZE_THIRD_DIRECT_END" "length buff < 2 ^ 31" "\<not> isDirectories (inodes s head)"
  shows "\<exists>s' buff' D'. dhmp_fs_write (client_api V) s buff offset (Some head) = Inr (s', buff', int (length buff)) \<and>
    store_ok mem grant D' s' \<and> wrote (cl_content mem BANK_SIZE) D D' s s' head offset buff \<and>
    (resident s s' head offset (length buff) \<longrightarrow> buff' = buff)"
  by (rule store_write[OF assms])

theorem file_write_witness:
  "\<exists>s' D'. dhmp_fs_write (client_api flat_verbs) bank_fs [1, 2, 3] 0 (Some 7) = Inr (s', [1, 2, 3], 3) \<and> store_ok id flat_grant D' s' \<and>
    file_byte (cl_content id BANK_SIZE) s' 7 2 = Some 3"
proof -
  have h: "card (used_chunks bank_fs) + touched 0 (length [1 :: byte, 2, 3]) \<le> CHUNK_NUM" "0 + length [1 :: byte, 2, 3] \<le> SIZE_THIRD_DIRECT_END"
    "length [1 :: byte, 2, 3] < 2 ^ 31" "\<not> isDirectories (inodes bank_fs 7)"
    by (simp_all add: used_chunks_def bank_fs_def io_start_def blank_inode_def touched_def const_simps)
  from file_write[OF flat_verbs_ok bank_fs_ok h] obtain s' buff' D' where
    w: "dhmp_fs_write (client_api flat_verbs) bank_fs [1, 2, 3] 0 (Some 7) = Inr (s', buff', int (length [1 :: byte, 2, 3]))"
      "store_ok id flat_grant D' s'" "wrote (cl_content id BANK_SIZE) (\<lambda>b off. False) D' bank_fs s' 7 0 [1, 2, 3]" by blast
  from first_write w(1) have r: "resident bank_fs s' 7 0 (length [1 :: byte, 2, 3])" "buff' = [1, 2, 3]" by auto
  have "file_byte (cl_content id BANK_SIZE) s' 7 (0 + 2) = Some ([1, 2, 3] ! 2)" by (rule wroteD(9)[OF w(3) r(1)]) simp
  then show ?thesis using w(1,2) r(2) by (auto simp: numeral_2_eq_2)
qed

text \<open>C7: a read of a regular file that does not start behind the bytes of an allocated chunk returns the bytes that are
  there from the offset on, up to the first position that has none or the end of the buffer. The determined ones have their
  values, the rest of the buffer is left alone, and no byte of any file changes. (A read that starts behind the bytes of a
  chunk is not covered: there the unsigned difference of chunk size and offset wraps.)\<close>

theorem file_read:
  assumes "verbs_ok V mem grant" "store_ok mem grant D s" "length buff < 2 ^ 31" "\<not> isDirectories (inodes s head)" "\<not> past_bytes s head offset"
    and "m = readable (cl_content mem BANK_SIZE) s head offset (length buff)"
  shows "\<exists>s' bs. dhmp_fs_read (client_api V) s buff offset (Some head) = Inr (s', bs @ drop m buff, int m) \<and> length bs = m \<and>
    reads (cl_content mem BANK_SIZE) D s head offset bs \<and> store_ok mem grant D s' \<and> same_view (cl_content mem BANK_SIZE) D s s' \<and> fs_same s s'"
  unfolding assms(6) by (rule store_read[OF assms(1-4) readable_spec[OF assms(5)]])

theorem file_read_witness:
  "\<exists>s s'. dhmp_fs_write (client_api flat_verbs) bank_fs [1, 2, 3] 0 (Some 7) = Inr (s, [1, 2, 3], 3) \<and>
    dhmp_fs_read (client_api flat_verbs) s [9, 9, 9, 9, 9] 1 (Some 7) = Inr (s', [2, 3, 9, 9, 9], 2)"
proof -
  let ?C = "cl_content id BANK_SIZE" and ?b = "[9, 9, 9, 9, 9] :: byte list"
  from first_write obtain s D' where
    w: "dhmp_fs_write (client_api flat_verbs) bank_fs [1, 2, 3] 0 (Some 7) = Inr (s, [1, 2, 3], 3)" "store_ok id flat_grant D' s"
      "wrote ?C (\<lambda>b off. False) D' bank_fs s 7 0 [1, 2, 3]" "resident bank_fs s 7 0 (length [1 :: byte, 2, 3])" "\<not> isDirectories (inodes s 7)" by blast
  have v: "file_byte ?C s 7 (0 + k) = Some ([1, 2, 3] ! k)" "known D' s 7 (0 + k)" if "k < 3" for k
    using wroteD(8,9)[OF w(3,4), of k] that by simp_all
  have b: "file_byte ?C s 7 1 = Some 2" "file_byte ?C s 7 2 = Some 3" "known D' s 7 1" "known D' s 7 2"
    using v(1)[of 1] v(1)[of 2] v(2)[of 1] v(2)[of 2] by (simp_all add: numeral_2_eq_2)
  have "file_byte ?C bank_fs 7 3 = None" by (simp add: file_byte_def file_chunk_def bank_fs_def io_start_def blank_inode_def)
  then have n: "file_byte ?C s 7 3 = None" using wroteD(5)[OF w(3), of 3] by (cases "file_byte ?C s 7 3") simp_all
  have p: "\<not> past_bytes s 7 1" using b(1) by (auto simp: past_bytes_def file_byte_def split: option.splits if_splits)
  have m: "2 = readable ?C s 7 1 (length ?b)" using b(1,2) n by (simp add: readable_def upt_rec numeral_2_eq_2[symmetric])
  have "length ?b < 2 ^ 31" by simp
  from file_read[OF flat_verbs_ok w(2) this w(5) p m] obtain s' bs where
    r: "dhmp_fs_read (client_api flat_verbs) s ?b 1 (Some 7) = Inr (s', bs @ drop 2 ?b, int 2)" "length bs = 2" "reads ?C D' s 7 1 bs" by blast
  have "known D' s 7 (1 + k) \<longrightarrow> file_byte ?C s 7 (1 + k) = Some (bs ! k)" if "k < 2" for k using r(2,3) that by (simp add: reads_def)
  from this[of 0] this[of 1] have "bs ! 0 = 2" "bs ! 1 = 3" using b by (simp_all add: numeral_2_eq_2)
  then have "bs = [2, 3]" using r(2) by (intro nth_equalityI) (auto simp: less_Suc_eq numeral_2_eq_2)
  then show ?thesis using w(1) r(1) by auto
qed

text \<open>C8: what was written to banks that were in the cache is read back.\<close>

theorem file_write_read:
  assumes "verbs_ok V mem grant" "store_ok mem grant D s" "card (used_chunks s) + touched offset (length buff) \<le> CHUNK_NUM"
    and "offset + length buff \<le> SIZE_THIRD_DIRECT_END" "length buff < 2 ^ 31" "\<not> isDirectories (inodes s head)"
    and "dhmp_fs_write (client_api V) s buff offset (Some head) = Inr (s', buff', n)"
    and "resident s s' head offset (length buff)" "length buff2 = length buff"
  shows "\<exists>s''. dhmp_fs_read (client_api V) s' buff2 offset (Some head) = Inr (s'', buff, int (length buff))"
  using remote_store.fs_write_read[OF bank_store[OF assms(1)] client_api_simps order_refl _ _ assms(3-9)] assms(2)
  unfolding store_ok_def by blast

theorem file_write_read_witness:
  "\<exists>s' buff' n s''. dhmp_fs_write (client_api flat_verbs) bank_fs [1, 2, 3] 0 (Some 7) = Inr (s', buff', n) \<and>
    dhmp_fs_read (client_api flat_verbs) s' [0, 0, 0] 0 (Some 7) = Inr (s'', [1, 2, 3], 3)"
proof -
  have h: "card (used_chunks bank_fs) + touched 0 (length [1 :: byte, 2, 3]) \<le> CHUNK_NUM" "0 + length [1 :: byte, 2, 3] \<le> SIZE_THIRD_DIRECT_END"
    "length [1 :: byte, 2, 3] < 2 ^ 31" "\<not> isDirectories (inodes bank_fs 7)"
    by (simp_all add: used_chunks_def bank_fs_def io_start_def blank_inode_def touched_def const_simps)
  from store_write[OF flat_verbs_ok bank_fs_ok h] obtain s' buff' where
    w: "dhmp_fs_write (client_api flat_verbs) bank_fs [1, 2, 3] 0 (Some 7) = Inr (s', buff', int (length [1 :: byte, 2, 3]))" by blast
  have "file_chunk s' 7 0 = Some 0" using w unfolding bank_fs_def by (rule first_chunk)
  moreover have "cached bank_fs (chunk_bank 0) = Some 0" by (simp add: cached_def bank_fs_def io_start_def chunk_bank_def cache_key_mod)
  ultimately have r: "resident bank_fs s' 7 0 (length [1 :: byte, 2, 3])" by (simp add: resident_def const_simps)
  have "length [0 :: byte, 0, 0] = length [1 :: byte, 2, 3]" by simp
  from file_write_read[OF flat_verbs_ok bank_fs_ok h w r this] w show ?thesis by auto
qed

text \<open>C38: a write to a bank that is not in the cache is lost: the bank is fetched and read instead, the caller's buffer
  is overwritten with what was there, and no determined byte of any bank changes. Still it reports nothing.\<close>

theorem write_miss_lost:
  assumes "verbs_ok V mem grant" "store_ok mem grant D s" "b < BANK_NUM" "off + length buf \<le> BANK_SIZE" "cached s b = None"
  shows "\<exists>s'. dhmp_fs_write_to_cache (client_api V) s b buf off = Inr (s', buf_read (bank_view (cl_content mem BANK_SIZE) s' b) off (length buf)) \<and>
    same_view (cl_content mem BANK_SIZE) D s s' \<and> cached s' b \<noteq> None"
  using remote_store.cache_write_miss[OF bank_store[OF assms(1)] client_api_simps order_refl _ assms(3-5)] assms(2)
  unfolding store_ok_def by blast

theorem write_miss_lost_witness:
  "\<exists>s'. dhmp_fs_write_to_cache (client_api flat_verbs) bank_fs 200 [1, 2] 10 =
      Inr (s', buf_read (bank_view (cl_content id BANK_SIZE) s' 200) 10 (length [1 :: byte, 2])) \<and>
    same_view (cl_content id BANK_SIZE) (\<lambda>b off. False) bank_fs s' \<and> cached s' 200 \<noteq> None"
  by (rule write_miss_lost[OF flat_verbs_ok bank_fs_ok])
    (simp_all add: cached_def cache_key_mod bank_fs_def io_start_def BANK_NUM_def BANK_SIZE_def TOTOL_SIZE_def)

text \<open>C30: a sweep of the background thread writes every dirty bank it can lock back to all servers and marks it clean;
  no bank's view changes and the invariants stay, so that no sweep between two calls is noticed by any file.\<close>

theorem sweep_unnoticed:
  assumes "verbs_ok V mem grant" "store_ok mem grant D s"
  shows "\<exists>s'. rewrite_dirty_cache (client_api V) busy s = Inr s' \<and> store_ok mem grant D s' \<and> same_view (cl_content mem BANK_SIZE) D s s' \<and>
    fs_same s s' \<and> (\<forall>k < CACHE_SIZE. \<forall>p. cache_ptr (cache_hash s k) = Some p \<longrightarrow> dirty (caches s' p) \<longrightarrow> busy p)"
  by (rule store_sweep[OF assms])

theorem sweep_unnoticed_witness:
  "\<exists>s s'. dhmp_fs_write (client_api flat_verbs) bank_fs [1, 2, 3] 0 (Some 7) = Inr (s, [1, 2, 3], 3) \<and>
    rewrite_dirty_cache (client_api flat_verbs) (\<lambda>p. p = 3) s = Inr s' \<and> \<not> dirty (caches s' 0) \<and>
    file_byte (cl_content id BANK_SIZE) s' 7 2 = Some 3"
proof -
  let ?C = "cl_content id BANK_SIZE"
  from first_write obtain s D where
    w: "dhmp_fs_write (client_api flat_verbs) bank_fs [1, 2, 3] 0 (Some 7) = Inr (s, [1, 2, 3], 3)" "store_ok id flat_grant D s"
      "wrote ?C (\<lambda>b off. False) D bank_fs s 7 0 [1, 2, 3]" "resident bank_fs s 7 0 (length [1 :: byte, 2, 3])" by blast
  have v: "known D s 7 (0 + 2)" "file_byte ?C s 7 (0 + 2) = Some ([1, 2, 3] ! 2)" using wroteD(8,9)[OF w(3,4), of 2] by simp_all
  from sweep_unnoticed[OF flat_verbs_ok w(2)] obtain s' where
    s': "rewrite_dirty_cache (client_api flat_verbs) (\<lambda>p. p = 3) s = Inr s'" "same_view ?C D s s'" "fs_same s s'"
      "\<forall>k < CACHE_SIZE. \<forall>p. cache_ptr (cache_hash s k) = Some p \<longrightarrow> dirty (caches s' p) \<longrightarrow> p = 3" by blast
  have "cached s 0 = cached bank_fs 0" using wroteD(7)[OF w(3,4)] by simp
  also have "\<dots> = Some 0" by (simp add: cached_def bank_fs_def io_start_def cache_key_mod)
  finally have "cache_ptr (cache_hash s 0) = Some 0" by (auto simp: cached_def cache_key_mod split: if_splits)
  moreover have "0 < CACHE_SIZE" by (simp add: const_simps)
  ultimately have "\<not> dirty (caches s' 0)" using s'(4) by fastforce
  moreover have "file_byte ?C s' 7 (0 + 2) = file_byte ?C s 7 (0 + 2)"
    by (rule file_same(3)[OF _ s'(3,2) v(1)]) (use w(2) in \<open>simp add: store_ok_def\<close>)
  ultimately show ?thesis using w(1) s'(1) v(2) by (intro exI[of _ s] exI[of _ s']) (simp add: numeral_2_eq_2)
qed

end
