(* ===== verification/Fs_Init.thy ===== *)
theory Fs_Init
  imports Fs_Store Dhmp_Cluster
begin

text \<open>
  Starting the file system: \<open>dhmp_init\<close> of \<open>src/src/dhmp_fs.c\<close> with \<open>DHMP_ON\<close> and \<open>CACHE_ON\<close>. The number of
  servers is what \<open>dhmp_get_trans_count\<close> gave after \<open>dhmp_client_init\<close>; server \<open>i\<close> of the table asks
  node \<open>i\<close> for its banks. The state before holds what \<open>malloc\<close> returns uninitialised, in \<open>inodes\<close> and in
  \<open>raw\<close>, and the values of the static variables; nothing is assumed of it. The result of \<open>dhmp_malloc\<close> is not tested.
  The property runs start-up on the client of \<open>Dhmp_Client\<close> over the servers of \<open>Dhmp_Server\<close>.
\<close>

section \<open>Servers and banks\<close>




section \<open>Cache and root\<close>

definition init_cache :: "'m io_state \<Rightarrow> 'm io_state" where
  "init_cache s =
     s\<lparr>cache_hash := (\<lambda>k. if k < CACHE_SIZE then \<lparr>hash_bank_id = k, cache_ptr = Some k\<rparr> else cache_hash s k),
       caches := (\<lambda>p. if p < CACHE_SIZE then \<lparr>cache_data = (\<lambda>_. 0), bank_Id = p, dirty = False\<rparr> else caches s p)\<rparr>"

definition init_root :: "'a index_state_scheme \<Rightarrow> 'a index_state_scheme" where
  "init_root s =
     (let i = next_addr s
      in (upd_inode s i (\<lambda>d. d\<lparr>bro := None, son := None, isDirectories := True, isize := 0, timeLastModified := clock s,
             filename := ''/'', d_hash := Some (createHashMap (-1)), ctxs := [], son_nums := 0\<rparr>))
         \<lparr>next_addr := Suc i, root := i, bitmap := (\<lambda>_. False)\<rparr>)"


section \<open>Asking connected nodes for memory\<close>












section \<open>The table of servers\<close>






section \<open>The slab and the other structures\<close>

text \<open>What \<open>malloc_inode\<close> sets. It leaves \<open>d_hash\<close> as \<open>malloc\<close> returned it.\<close>

definition blank_file :: "inode \<Rightarrow> bool" where
  "blank_file d \<longleftrightarrow> \<not> isDirectories d \<and> isize d = 0 \<and> filename d = [] \<and> son d = None \<and> bro d = None \<and> son_nums d = 0 \<and> ctxs d = [] \<and>
     (\<forall>sl. get_slot (cnt_id d) sl = None)"

lemma malloc_inode_blank: "blank_file (inodes (snd (malloc_inode s)) (next_addr s))"
  "d_hash (inodes (snd (malloc_inode s)) (next_addr s)) = d_hash (inodes s (next_addr s))"
  by (simp_all add: malloc_inode_def upd_inode_def Let_def blank_file_def)

lemma slab_loop_blank:
  fixes s :: "'a index_state_scheme"
  shows "next_addr (slab_loop n s) = next_addr s + n \<and>
    free_inode_slab (slab_loop n s) = free_inode_slab s @ [next_addr s ..< next_addr s + n] \<and>
    (\<forall>j. j < next_addr s \<or> next_addr s + n \<le> j \<longrightarrow> inodes (slab_loop n s) j = inodes s j) \<and>
    (\<forall>j. next_addr s \<le> j \<and> j < next_addr s + n \<longrightarrow> blank_file (inodes (slab_loop n s) j) \<and> d_hash (inodes (slab_loop n s) j) = d_hash (inodes s j)) \<and>
    slab_loop n s = s\<lparr>inodes := inodes (slab_loop n s), next_addr := next_addr s + n,
       free_inode_slab := free_inode_slab (slab_loop n s)\<rparr>"
proof (induction n arbitrary: s)
  case 0
  then show ?case by auto
next
  case (Suc n)
  let ?i = "next_addr s"
  let ?s = "(snd (malloc_inode s))\<lparr>free_inode_slab := free_inode_slab s @ [?i]\<rparr>"
  have e: "slab_loop (Suc n) s = slab_loop n ?s"
    by (simp add: malloc_inode_def upd_inode_def Let_def)
  have i: "inodes ?s j = inodes s j" if "j \<noteq> ?i" for j using that by (simp add: malloc_inode_def upd_inode_def Let_def)
  have c: "blank_file (inodes ?s ?i)" "d_hash (inodes ?s ?i) = d_hash (inodes s ?i)" using malloc_inode_blank[of s] by simp_all
  have a: "next_addr ?s = Suc ?i" "free_inode_slab ?s = free_inode_slab s @ [?i]"
    "?s = s\<lparr>inodes := inodes ?s, next_addr := Suc ?i, free_inode_slab := free_inode_slab ?s\<rparr>"
    by (simp_all add: malloc_inode_def upd_inode_def Let_def)
  note IH = Suc.IH[of ?s]
  have "inodes (slab_loop n ?s) ?i = inodes ?s ?i" using IH a(1) by simp
  then have "blank_file (inodes (slab_loop n ?s) j) \<and> d_hash (inodes (slab_loop n ?s) j) = d_hash (inodes s j)" if "?i \<le> j \<and> j < ?i + Suc n" for j
    using IH a(1) c i that by (cases "j = ?i") auto
  moreover have "\<forall>j. j < ?i \<or> ?i + Suc n \<le> j \<longrightarrow> inodes (slab_loop n ?s) j = inodes s j" using IH a(1) i by simp
  moreover have "free_inode_slab (slab_loop n ?s) = free_inode_slab s @ [?i ..< ?i + Suc n]"
    using IH a(1,2) by (simp add: upt_rec[of ?i])
  moreover have "slab_loop n ?s = s\<lparr>inodes := inodes (slab_loop n ?s), next_addr := ?i + Suc n, free_inode_slab := free_inode_slab (slab_loop n ?s)\<rparr>"
  proof -
    have k: "A\<lparr>inodes := x, next_addr := y, free_inode_slab := z\<rparr> = s\<lparr>inodes := x, next_addr := y, free_inode_slab := z\<rparr>"
      if "A = s\<lparr>inodes := i, next_addr := n, free_inode_slab := l\<rparr>" for A i n l x y z
      unfolding that by simp
    have "slab_loop n ?s = ?s\<lparr>inodes := inodes (slab_loop n ?s), next_addr := next_addr ?s + n, free_inode_slab := free_inode_slab (slab_loop n ?s)\<rparr>"
      using IH by blast
    also have "\<dots> = s\<lparr>inodes := inodes (slab_loop n ?s), next_addr := next_addr ?s + n, free_inode_slab := free_inode_slab (slab_loop n ?s)\<rparr>"
      by (rule k[OF a(3)])
    finally show ?thesis by (simp add: a(1))
  qed
  ultimately show ?case using IH a(1) unfolding e by simp
qed

section \<open>The state start-up leaves\<close>

definition root_inode :: "nat \<Rightarrow> inode \<Rightarrow> inode" where
  "root_inode t d = d\<lparr>bro := None, son := None, isDirectories := True, isize := 0, timeLastModified := t, filename := ''/'',
     d_hash := Some (createHashMap (-1)), ctxs := [], son_nums := 0\<rparr>"

lemma init_fields:
  fixes s :: "'m io_state"
  assumes s': "s' = init_inode_slab (init_context (init_root (init_cache s)))"
  shows "root s' = next_addr s" "bitmap s' = (\<lambda>_. False)" "free_cursor s' = free_cursor s"
    "\<forall>c < CHUNK_NUM. context_addr s' c = \<lparr>csize = 0, which_inode_it_is = None\<rparr>" "fuse_sList s' = fuse_sList s" "remote s' = remote s"
    "recovery_in_use s' = recovery_in_use s" "fuse_mutex s' = fuse_mutex s"
    "\<forall>k < CACHE_SIZE. cache_hash s' k = \<lparr>hash_bank_id = k, cache_ptr = Some k\<rparr> \<and> caches s' k = \<lparr>cache_data = (\<lambda>_. 0), bank_Id = k, dirty = False\<rparr>"
    "inodes s' (next_addr s) = root_inode (clock s) (inodes s (next_addr s))" "next_addr s' = Suc (Suc (next_addr s)) + SLAB_NUMS"
    "free_inode_slab s' = [Suc (Suc (next_addr s)) ..< Suc (Suc (next_addr s)) + SLAB_NUMS]"
    "\<forall>j \<in> set (free_inode_slab s'). blank_file (inodes s' j) \<and> d_hash (inodes s' j) = d_hash (inodes s j)"
    "\<forall>j. j \<noteq> next_addr s \<longrightarrow> j \<notin> set (free_inode_slab s') \<longrightarrow> inodes s' j = inodes s j"
proof -
  let ?r = "next_addr s"
  let ?s1 = "init_context (init_root (init_cache s))"
  let ?s2 = "?s1\<lparr>next_addr := Suc (next_addr ?s1), free_inode_slab := []\<rparr>"
  have s2: "s' = slab_loop SLAB_NUMS ?s2" by (simp add: s' init_inode_slab_def)
  have a: "next_addr ?s2 = Suc (Suc ?r)" "root ?s2 = ?r" "inodes ?s2 = (inodes s)(?r := root_inode (clock s) (inodes s ?r))"
    "bitmap ?s2 = (\<lambda>_. False)" "free_cursor ?s2 = free_cursor s" "\<forall>c < CHUNK_NUM. context_addr ?s2 c = \<lparr>csize = 0, which_inode_it_is = None\<rparr>"
    "fuse_sList ?s2 = fuse_sList s" "remote ?s2 = remote s" "recovery_in_use ?s2 = recovery_in_use s" "fuse_mutex ?s2 = fuse_mutex s"
    "\<forall>k < CACHE_SIZE. cache_hash ?s2 k = \<lparr>hash_bank_id = k, cache_ptr = Some k\<rparr> \<and> caches ?s2 k = \<lparr>cache_data = (\<lambda>_. 0), bank_Id = k, dirty = False\<rparr>"
    "free_inode_slab ?s2 = []"
    by (simp_all add: init_context_def init_root_def init_cache_def upd_inode_def root_inode_def Let_def)
  note L = slab_loop_blank[of SLAB_NUMS ?s2, folded s2]
  then have e: "s' = ?s2\<lparr>inodes := inodes s', next_addr := next_addr ?s2 + SLAB_NUMS, free_inode_slab := free_inode_slab s'\<rparr>" by blast
  have k: "root A = root B" "bitmap A = bitmap B" "free_cursor A = free_cursor B" "context_addr A = context_addr B"
    "fuse_sList A = fuse_sList B" "remote A = remote B" "cache_hash A = cache_hash B" "caches A = caches B"
    "recovery_in_use A = recovery_in_use B" "fuse_mutex A = fuse_mutex B"
    if "A = B\<lparr>inodes := x, next_addr := y, free_inode_slab := z\<rparr>" for A B :: "'m io_state" and x y z
    unfolding that by simp_all
  show "root s' = next_addr s" "bitmap s' = (\<lambda>_. False)" "free_cursor s' = free_cursor s"
    "\<forall>c < CHUNK_NUM. context_addr s' c = \<lparr>csize = 0, which_inode_it_is = None\<rparr>" "fuse_sList s' = fuse_sList s" "remote s' = remote s"
    "recovery_in_use s' = recovery_in_use s" "fuse_mutex s' = fuse_mutex s"
    "\<forall>k < CACHE_SIZE. cache_hash s' k = \<lparr>hash_bank_id = k, cache_ptr = Some k\<rparr> \<and> caches s' k = \<lparr>cache_data = (\<lambda>_. 0), bank_Id = k, dirty = False\<rparr>"
    unfolding k[OF e] using a by blast+
  show n: "next_addr s' = Suc (Suc ?r) + SLAB_NUMS" and sl: "free_inode_slab s' = [Suc (Suc ?r) ..< Suc (Suc ?r) + SLAB_NUMS]"
    using L a(1,12) by simp_all
  have "inodes s' ?r = inodes ?s2 ?r" using L a(1) by simp
  then show "inodes s' ?r = root_inode (clock s) (inodes s ?r)" by (simp add: a(3))
  show "\<forall>j \<in> set (free_inode_slab s'). blank_file (inodes s' j) \<and> d_hash (inodes s' j) = d_hash (inodes s j)"
  proof
    fix j assume "j \<in> set (free_inode_slab s')"
    then have j: "Suc (Suc ?r) \<le> j" "j < Suc (Suc ?r) + SLAB_NUMS" unfolding sl set_upt by simp_all
    then have jr: "j \<noteq> ?r" by simp
    have "blank_file (inodes s' j) \<and> d_hash (inodes s' j) = d_hash (inodes ?s2 j)" using L j unfolding a(1) by blast
    then show "blank_file (inodes s' j) \<and> d_hash (inodes s' j) = d_hash (inodes s j)" using jr by (simp add: a(3))
  qed
  show "\<forall>j. j \<noteq> ?r \<longrightarrow> j \<notin> set (free_inode_slab s') \<longrightarrow> inodes s' j = inodes s j"
  proof (intro allI impI)
    fix j assume j: "j \<noteq> ?r" "j \<notin> set (free_inode_slab s')"
    then have "j < Suc (Suc ?r) \<or> Suc (Suc ?r) + SLAB_NUMS \<le> j" unfolding sl by auto
    then have "inodes s' j = inodes ?s2 j" using L unfolding a(1) by blast
    then show "inodes s' j = inodes s j" using j(1) by (simp add: a(3))
  qed
qed


text \<open>
  The invariant of \<open>Fs_Dir\<close> asks for more than the code sets: no chunk in the index of the root, and no table of names in a
  regular inode. It holds after start-up where the memory \<open>malloc\<close> returned happened to be cleared, which \<open>malloc\<close> does not promise.
\<close>

lemma init_dir_cleared:
  fixes s :: "'m io_state"
  assumes s': "s' = init_inode_slab (init_context (init_root (init_cache s)))" and cl: "\<forall>j. clean (inodes s j)" and fc: "free_cursor s < CHUNK_NUM"
  shows "dir_inv s'"
proof -
  let ?r = "next_addr s"
  note f = init_fields[OF s']
  have cl': "clean (inodes s' j)" if "j \<noteq> ?r" for j
  proof (cases "j \<in> set (free_inode_slab s')")
    case True
    then have "blank_file (inodes s' j)" "d_hash (inodes s' j) = d_hash (inodes s j)" using f(13) by blast+
    then show ?thesis using cl by (simp add: clean_def blank_file_def)
  next
    case False
    then have "inodes s' j = inodes s j" using f(14) that by blast
    then show ?thesis using cl by simp
  qed
  have "ctxs (inodes s' j) = [] \<and> isize (inodes s' j) = 0 \<and> (\<forall>sl. get_slot (cnt_id (inodes s' j)) sl = None)" for j
  proof (cases "j = ?r")
    case True
    then show ?thesis using spec[OF cl, of ?r] by (simp add: f(10) root_inode_def clean_def)
  next
    case False
    then show ?thesis using cl' by (simp add: clean_def)
  qed
  then have ix: "ix_inv s'" using f(2-4) fc by (simp add: ix_inv_def owns_ok_def sizes_ok_def chunks_ok_def)
  have d: "son (inodes s' ?r) = None" "isDirectories (inodes s' ?r)" "d_hash (inodes s' ?r) = Some (createHashMap (-1))" "son_nums (inodes s' ?r) = 0"
    unfolding f(10) by (simp_all add: root_inode_def)
  then have "node_ok s' ?r []" by (simp add: node_ok_def createHashMap_ok(1) empty_table)
  then have "dir_tree s' (INode ?r [])" using cl' d(2) by (simp add: dir_tree_def tree_ok_def f(1,11,12))
  then show "dir_inv s'" using ix unfolding dir_inv_def by blast
qed


section \<open>Property\<close>



end
