(* ===== verification/Fs_Recovery.thy ===== *)
theory Fs_Recovery
  imports Fs_Store
begin

text \<open>
  Bringing a server back: \<open>judege_alive\<close> and \<open>fuse_recover\<close> of \<open>src/src/dhmp_fs_recovery.c\<close>. \<open>fuse_recover\<close> runs in a
  thread of its own beside the file system; it is modelled in the phases between which the source
  lets writes go on: the preparation, the copying of the banks one by one, and the replay of the writes
  that were queued meanwhile. A run without other threads is \<open>fuse_recover\<close>; \<open>copying\<close> interleaves the
  copying with writes, and copies no bank unless \<open>use_bank_len\<close> is \<open>BANK_NUM\<close>, which the program never makes it.
  The mutexes are taken nowhere else (their uses in \<open>dhmp_fs_io.c\<close> are
  commented out).
\<close>

section \<open>Liveness probe\<close>

fun judege_alive_loop :: "'m dhmp_api \<Rightarrow> byte list \<Rightarrow> nat list \<Rightarrow> ('m, 'z) io_state_scheme \<Rightarrow> ('m, 'z) io_state_scheme res" where
  "judege_alive_loop dm alive_context [] s = Inr s"
| "judege_alive_loop dm alive_context (i # is) s =
     (if alive (fuse_sList s ! i) then
        rbind (dhmp_send_op dm (remote s) (test_alive_addr (fuse_sList s ! i)) alive_context) (\<lambda>(re, m).
          let s1 = s\<lparr>remote := m\<rparr>
          in judege_alive_loop dm alive_context is (if re = -1 then upd_server s1 i (\<lambda>n. n\<lparr>alive := False\<rparr>) else s1))
      else judege_alive_loop dm alive_context is s)"

definition judege_alive :: "'m dhmp_api \<Rightarrow> byte list \<Rightarrow> ('m, 'z) io_state_scheme \<Rightarrow> ('m, 'z) io_state_scheme res" where
  "judege_alive dm alive_context s = judege_alive_loop dm alive_context [0 ..< SERVERNUM s] s"

section \<open>The recovery of a server\<close>

text \<open>
  The queue of a server is freed at the end of its use without being unlinked: of the nodes of \<open>rw_tasks\<close>
  the first \<open>freed_tasks\<close> are gone.
\<close>

record 'm rec_state = "'m io_state" +
  freed_tasks :: "nat \<Rightarrow> nat"

definition set_state :: "nat \<Rightarrow> fuse_server_state \<Rightarrow> ('m, 'z) io_state_scheme \<Rightarrow> ('m, 'z) io_state_scheme" where
  "set_state i st s = upd_server s i (\<lambda>n. n\<lparr>server_state := st\<rparr>)"

definition lock_server :: "nat \<Rightarrow> ('m, 'z) io_state_scheme \<Rightarrow> ('m, 'z) io_state_scheme res" where
  "lock_server i s = (if server_mutex (fuse_sList s ! i) then Inl Hang else Inr (upd_server s i (\<lambda>n. n\<lparr>server_mutex := True\<rparr>)))"

definition lock_fuse :: "('m, 'z) io_state_scheme \<Rightarrow> ('m, 'z) io_state_scheme res" where
  "lock_fuse s = (if fuse_mutex s then Inl Hang else Inr (s\<lparr>fuse_mutex := True\<rparr>))"

fun free_banks :: "'m dhmp_api \<Rightarrow> nat \<Rightarrow> nat list \<Rightarrow> ('m, 'z) io_state_scheme \<Rightarrow> ('m, 'z) io_state_scheme res" where
  "free_banks dm r [] s = Inr s"
| "free_banks dm r (b # bs) s =
     rbind (dhmp_free_op dm (remote s) (bank (fuse_sList s ! r) b)) (\<lambda>m. free_banks dm r bs (s\<lparr>remote := m\<rparr>))"

fun new_banks :: "'m dhmp_api \<Rightarrow> nat \<Rightarrow> nat list \<Rightarrow> ('m, 'z) io_state_scheme \<Rightarrow> ('m, 'z) io_state_scheme res" where
  "new_banks dm r [] s = Inr s"
| "new_banks dm r (b # bs) s =
     rbind (dhmp_malloc_op dm (remote s) BANK_SIZE (server_id (fuse_sList s ! r))) (\<lambda>(a, m).
       new_banks dm r bs (upd_server (s\<lparr>remote := m\<rparr>) r (\<lambda>n. n\<lparr>bank := (bank n)(b := a)\<rparr>)))"

text \<open>
  Up to the start of the copying: \<open>None\<close> when the function returned early, otherwise the server that is
  copied from and whether it is the only one. The early return without a server leaves \<open>recovery_in_use\<close> set.
\<close>

definition connected_servers :: "('m, 'z) io_state_scheme \<Rightarrow> nat list" where
  "connected_servers s = filter (\<lambda>i. server_state (fuse_sList s ! i) = CONNECTED) [0 ..< SERVERNUM s]"

definition recover_prepare :: "'m dhmp_api \<Rightarrow> nat \<Rightarrow> ('m, 'z) io_state_scheme \<Rightarrow> (('m, 'z) io_state_scheme \<times> (nat \<times> bool) option) res" where
  "recover_prepare dm r s =
     (if recovery_in_use s then Inr (s, None)
      else if SERVERNUM s \<le> r then Inl Wild_deref
      else
        let s1 = set_state r RECONNECT (s\<lparr>recovery_in_use := True\<rparr>);
            alive_num = length (connected_servers s1)
        in if alive_num = 0 then Inr (s1, None)
           else
             rbind (free_banks dm r [0 ..< BANK_NUM] s1) (\<lambda>s2.
             rbind (new_banks dm r [0 ..< BANK_NUM] s2) (\<lambda>s3.
             case find_alive_server s3 of
               None \<Rightarrow> Inl Null_deref
             | Some a \<Rightarrow>
                 rbind (if alive_num = 1 then lock_fuse s3 else lock_server a s3) (\<lambda>s4.
                   Inr (set_state a RECOVERING s4, Some (a, alive_num = 1))))))"

text \<open>One round of the copying loop; the flag tells whether the loop goes on.\<close>

definition copy_bank :: "'m dhmp_api \<Rightarrow> nat \<Rightarrow> nat \<Rightarrow> nat \<Rightarrow> ('m, 'z) io_state_scheme \<Rightarrow> byte list \<Rightarrow>
    (('m, 'z) io_state_scheme \<times> byte list \<times> bool) res" where
  "copy_bank dm a r b s buf =
     rbind (dhmp_read_op dm (remote s) (bank (fuse_sList s ! a) b) buf 0) (\<lambda>(re, buf1, m).
       if re = -1 then Inr (set_state a DISCONNECT (s\<lparr>remote := m\<rparr>), buf1, False)
       else
         rbind (dhmp_write_op dm m (bank (fuse_sList s ! r) b) buf1 0) (\<lambda>(re2, m2).
           if re2 = -1 then Inr (set_state r DISCONNECT (s\<lparr>remote := m2\<rparr>), buf1, False)
           else Inr (s\<lparr>remote := m2\<rparr>, buf1, True)))"

fun copy_banks :: "'m dhmp_api \<Rightarrow> nat \<Rightarrow> nat \<Rightarrow> nat list \<Rightarrow> ('m, 'z) io_state_scheme \<Rightarrow> byte list \<Rightarrow>
    (('m, 'z) io_state_scheme \<times> byte list \<times> bool) res" where
  "copy_banks dm a r [] s buf = Inr (s, buf, True)"
| "copy_banks dm a r (b # bs) s buf =
     rbind (copy_bank dm a r b s buf) (\<lambda>(s1, buf1, go).
       if go then copy_banks dm a r bs s1 buf1 else Inr (s1, buf1, False))"

text \<open>With a journal only the banks it names are copied, and the outcome of the calls is ignored.\<close>

fun copy_journal :: "'m dhmp_api \<Rightarrow> nat \<Rightarrow> nat \<Rightarrow> rw_task list \<Rightarrow> (nat \<Rightarrow> bool) \<Rightarrow> ('m, 'z) io_state_scheme \<Rightarrow> byte list \<Rightarrow>
    (('m, 'z) io_state_scheme \<times> byte list) res" where
  "copy_journal dm a r [] bank_flag s buf = Inr (s, buf)"
| "copy_journal dm a r (t # ts) bank_flag s buf =
     (let b = task_bank_id t
      in if BANK_NUM \<le> b then Inl Out_of_bounds
         else if bank_flag b then copy_journal dm a r ts bank_flag s buf
         else
           rbind (dhmp_read_op dm (remote s) (bank (fuse_sList s ! a) b) buf 0) (\<lambda>(re, buf1, m).
             rbind (dhmp_write_op dm m (bank (fuse_sList s ! r) b) buf1 0) (\<lambda>(re2, m2).
               copy_journal dm a r ts (bank_flag(b := True)) (s\<lparr>remote := m2\<rparr>) buf1)))"

definition recover_copy :: "'m dhmp_api \<Rightarrow> nat \<Rightarrow> nat \<Rightarrow> ('m, 'z) io_state_scheme \<Rightarrow> byte list \<Rightarrow>
    (('m, 'z) io_state_scheme \<times> byte list \<times> bool) res" where
  "recover_copy dm a r s buf =
     (if use_bank_len s = BANK_NUM then copy_banks dm a r [0 ..< BANK_NUM] s buf
      else rbind (copy_journal dm a r (fuse_journal_list s) (\<lambda>_. False) s buf) (\<lambda>(s1, buf1). Inr (s1, buf1, True)))"

text \<open>Replaying the queued writes: the newest contents come from a third server.\<close>

fun rewrite_tasks :: "'m dhmp_api \<Rightarrow> nat \<Rightarrow> nat \<Rightarrow> rw_task list \<Rightarrow> ('m, 'z) io_state_scheme \<Rightarrow> byte list \<Rightarrow>
    (('m, 'z) io_state_scheme \<times> bool) res" where
  "rewrite_tasks dm a r [] s buf = Inr (s, True)"
| "rewrite_tasks dm a r (t # ts) s buf =
     (let b = task_bank_id t
      in case find_alive_server s of
           None \<Rightarrow> Inl Null_deref
         | Some l \<Rightarrow>
             if BANK_NUM \<le> b then Inl Out_of_bounds
             else
               rbind (dhmp_read_op dm (remote s) (bank (fuse_sList s ! l) b) buf 0) (\<lambda>(re, buf1, m).
                 if re = -1 then Inr (set_state l DISCONNECT (s\<lparr>remote := m\<rparr>), False)
                 else if length buf1 < task_size t then Inl Buffer_overflow
                 else
                   rbind (dhmp_write_op dm m (bank (fuse_sList s ! a) b) (take (task_size t) buf1) (task_bank_offset t)) (\<lambda>(re2, m2).
                     if re2 = -1 then Inr (set_state a DISCONNECT (s\<lparr>remote := m2\<rparr>), False)
                     else
                       rbind (dhmp_write_op dm m2 (bank (fuse_sList s ! r) b) (take (task_size t) buf1) (task_bank_offset t)) (\<lambda>(re3, m3).
                         if re3 = -1 then Inr (set_state r DISCONNECT (s\<lparr>remote := m3\<rparr>), False)
                         else rewrite_tasks dm a r ts (s\<lparr>remote := m3\<rparr>) buf1))))"

text \<open>The labels \<open>cleanRecover1\<close> and \<open>cleanRecover\<close>.\<close>

definition clean_recover1 :: "bool \<Rightarrow> nat \<Rightarrow> ('m, 'z) io_state_scheme \<Rightarrow> ('m, 'z) io_state_scheme" where
  "clean_recover1 single a s =
     (if single then s else upd_server s a (\<lambda>n. n\<lparr>server_mutex := False\<rparr>))\<lparr>recovery_in_use := False\<rparr>"

definition clean_recover :: "bool \<Rightarrow> nat \<Rightarrow> ('m, 'z) io_state_scheme \<Rightarrow> ('m, 'z) io_state_scheme" where
  "clean_recover single a s = clean_recover1 single a (s\<lparr>fuse_mutex := False\<rparr>)"

definition recover_rewrite :: "'m dhmp_api \<Rightarrow> nat \<Rightarrow> nat \<Rightarrow> 'm rec_state \<Rightarrow> byte list \<Rightarrow> 'm rec_state res" where
  "recover_rewrite dm a r s buf =
     rbind (lock_fuse s) (\<lambda>s1.
       if 0 < freed_tasks s1 a then Inl Use_after_free
       else
         let ts = rw_tasks (fuse_sList s1 ! a)
         in rbind (rewrite_tasks dm a r ts s1 buf) (\<lambda>(s2, go).
              if \<not> go then Inr (clean_recover False a s2)
              else
                let s3 = upd_server s2 a (\<lambda>n. n\<lparr>rw_tasks_len := rw_tasks_len n - int (length ts)\<rparr>);
                    s4 = s3\<lparr>freed_tasks := (freed_tasks s3)(a := length ts)\<rparr>
                in Inr (clean_recover False a (set_state r CONNECTED (set_state a CONNECTED s4)))))"

text \<open>\<open>buf\<close> is the bank buffer as \<open>malloc\<close> returns it.\<close>

definition fuse_recover :: "'m dhmp_api \<Rightarrow> byte list \<Rightarrow> nat \<Rightarrow> 'm rec_state \<Rightarrow> 'm rec_state res" where
  "fuse_recover dm buf r s =
     rbind (recover_prepare dm r s) (\<lambda>(s1, pt).
       case pt of
         None \<Rightarrow> Inr s1
       | Some (a, single) \<Rightarrow>
           rbind (recover_copy dm a r s1 buf) (\<lambda>(s2, buf2, go).
             if \<not> go then Inr (if single then clean_recover single a s2 else clean_recover1 single a s2)
             else if single then Inr (clean_recover single a (set_state r CONNECTED (set_state a CONNECTED s2)))
             else recover_rewrite dm a r s2 buf2))"

section \<open>Copying while the file system goes on writing\<close>



text \<open>The contents of the banks and the determined bytes after the writes \<open>ws\<close>.\<close>

definition after_writes :: "(nat \<times> byte list) list \<Rightarrow> (nat \<Rightarrow> buf) \<Rightarrow> nat \<Rightarrow> buf" where
  "after_writes ws v = foldl (\<lambda>v (b, data). v(b := buf_write (v b) 0 data)) v ws"

definition after_known :: "(nat \<times> byte list) list \<Rightarrow> (nat \<Rightarrow> nat \<Rightarrow> bool) \<Rightarrow> nat \<Rightarrow> nat \<Rightarrow> bool" where
  "after_known ws D = (\<lambda>b off. b \<in> fst ` set ws \<or> D b off)"

lemma after_snoc [simp]:
  "after_writes [] v = v" "after_known [] D = D"
  "after_writes (ws @ [(b, data)]) v = (after_writes ws v)(b := buf_write (after_writes ws v b) 0 data)"
  "after_known (ws @ [(b, data)]) D = (\<lambda>b' off. b' = b \<or> after_known ws D b' off)"
  by (auto simp: after_writes_def after_known_def fun_eq_iff)

text \<open>No two banks share an address; a server that holds the view on a bank.\<close>

definition banks_apart :: "('m \<Rightarrow> nat \<Rightarrow> bool) \<Rightarrow> ('m, 'z) io_state_scheme \<Rightarrow> bool" where
  "banks_apart ok s \<longleftrightarrow>
     (\<forall>i < SERVERNUM s. \<forall>b < BANK_NUM. ok (remote s) (bank (fuse_sList s ! i) b)) \<and>
     (\<forall>i < SERVERNUM s. \<forall>j < SERVERNUM s. \<forall>b < BANK_NUM. \<forall>b' < BANK_NUM.
        bank (fuse_sList s ! i) b = bank (fuse_sList s ! j) b' \<longrightarrow> i = j \<and> b = b')"

definition shows_view :: "('m \<Rightarrow> nat \<Rightarrow> buf) \<Rightarrow> (nat \<Rightarrow> buf) \<Rightarrow> (nat \<Rightarrow> nat \<Rightarrow> bool) \<Rightarrow> ('m, 'z) io_state_scheme \<Rightarrow> nat \<Rightarrow> nat \<Rightarrow> bool" where
  "shows_view content v D s i b \<longleftrightarrow> (\<forall>off < BANK_SIZE. D b off \<longrightarrow> content (remote s) (bank (fuse_sList s ! i) b) off = v b off)"

definition queued :: "('m, 'z) io_state_scheme \<Rightarrow> nat \<Rightarrow> nat set" where
  "queued s a = task_bank_id ` set (rw_tasks (fuse_sList s ! a))"

definition whole_bank :: "rw_task \<Rightarrow> bool" where
  "whole_bank t \<longleftrightarrow> task_bank_id t < BANK_NUM \<and> task_size t = BANK_SIZE \<and> task_bank_offset t = 0"

definition recovering :: "nat \<Rightarrow> nat \<Rightarrow> ('m, 'z) io_state_scheme \<Rightarrow> bool" where
  "recovering a r s \<longleftrightarrow> a < SERVERNUM s \<and> r < SERVERNUM s \<and> a \<noteq> r \<and> server_state (fuse_sList s ! a) = RECOVERING \<and>
     server_state (fuse_sList s ! r) = RECONNECT \<and> (\<forall>t \<in> set (rw_tasks (fuse_sList s ! a)). whole_bank t) \<and>
     (\<forall>i. stack_ints s i \<noteq> 1)"

definition in_sync :: "('m \<Rightarrow> nat \<Rightarrow> buf) \<Rightarrow> ('m \<Rightarrow> nat \<Rightarrow> bool) \<Rightarrow> (nat \<Rightarrow> buf) \<Rightarrow> (nat \<Rightarrow> nat \<Rightarrow> bool) \<Rightarrow> nat \<Rightarrow> nat \<Rightarrow> nat \<Rightarrow>
    ('m, 'z) io_state_scheme \<Rightarrow> bool" where
  "in_sync content ok v D a r k s \<longleftrightarrow> banks_apart ok s \<and> recovering a r s \<and>
     (\<forall>j < SERVERNUM s. server_state (fuse_sList s ! j) = CONNECTED \<longrightarrow> (\<forall>b < BANK_NUM. shows_view content v D s j b)) \<and>
     (\<forall>b < BANK_NUM. b \<notin> queued s a \<longrightarrow> shows_view content v D s a b \<and> (b < k \<longrightarrow> shows_view content v D s r b))"

lemma banks_apartD:
  assumes "banks_apart ok s"
  shows "i < SERVERNUM s \<Longrightarrow> b < BANK_NUM \<Longrightarrow> ok (remote s) (bank (fuse_sList s ! i) b)"
    "i < SERVERNUM s \<Longrightarrow> j < SERVERNUM s \<Longrightarrow> b < BANK_NUM \<Longrightarrow> b' < BANK_NUM \<Longrightarrow>
      bank (fuse_sList s ! i) b = bank (fuse_sList s ! j) b' \<longleftrightarrow> i = j \<and> b = b'"
  using assms unfolding banks_apart_def by (blast, blast)

text \<open>A queue entry for every server that is recovering.\<close>

definition enqueue :: "rw_task \<Rightarrow> server_node \<Rightarrow> server_node" where
  "enqueue t n = (if server_state n = RECOVERING then n\<lparr>rw_tasks := rw_tasks n @ [t], rw_tasks_len := rw_tasks_len n + 1\<rparr> else n)"

lemma enqueue_simps [simp]: "bank (enqueue t n) = bank n" "server_state (enqueue t n) = server_state n" "server_id (enqueue t n) = server_id n"
  "server_mutex (enqueue t n) = server_mutex n"
  by (simp_all add: enqueue_def)




section \<open>A whole recovery without other threads\<close>

text \<open>
  What the recovery relies on when it gives the old banks back and asks for new ones: \<open>used\<close> are the addresses
  handed out, \<open>room\<close> a number of further banks there is room for.
\<close>

definition bank_heap :: "'m dhmp_api \<Rightarrow> ('m \<Rightarrow> nat \<Rightarrow> buf) \<Rightarrow> ('m \<Rightarrow> nat \<Rightarrow> bool) \<Rightarrow> ('m \<Rightarrow> nat set) \<Rightarrow> ('m \<Rightarrow> nat) \<Rightarrow> bool" where
  "bank_heap dm content ok used room \<longleftrightarrow>
     (\<forall>m i. 0 < room m \<longrightarrow> (\<exists>a m'. dhmp_malloc_op dm m BANK_SIZE i = Inr (a, m') \<and> room m \<le> Suc (room m') \<and> a \<notin> used m \<and>
        used m' = insert a (used m) \<and> ok m' a \<and> (\<forall>b \<in> used m. ok m b \<longrightarrow> ok m' b \<and> content m' b = content m b))) \<and>
     (\<forall>m a. a \<in> used m \<longrightarrow> (\<exists>m'. dhmp_free_op dm m a = Inr m' \<and> room m \<le> room m' \<and> used m' = used m - {a} \<and>
        (\<forall>b \<in> used m'. ok m b \<longrightarrow> ok m' b \<and> content m' b = content m b)))"

lemma free_banks_ok:
  assumes h: "bank_heap dm content ok used room" and "distinct bs" "inj_on (bank (fuse_sList s ! r)) (set bs)"
    and "\<forall>b \<in> set bs. bank (fuse_sList s ! r) b \<in> used (remote s)"
  shows "\<exists>m. free_banks dm r bs s = Inr (s\<lparr>remote := m\<rparr>) \<and> room (remote s) \<le> room m \<and>
    used m = used (remote s) - bank (fuse_sList s ! r) ` set bs \<and>
    (\<forall>b \<in> used m. ok (remote s) b \<longrightarrow> ok m b \<and> content m b = content (remote s) b)"
  using assms(2-)
proof (induction bs arbitrary: s)
  case Nil
  then show ?case by (intro exI[of _ "remote s"]) simp
next
  case (Cons b bs)
  let ?A = "bank (fuse_sList s ! r)"
  have "?A b \<in> used (remote s)" using Cons.prems by simp
  then obtain m1 where m1: "dhmp_free_op dm (remote s) (?A b) = Inr m1" "room (remote s) \<le> room m1" "used m1 = used (remote s) - {?A b}"
    "\<forall>c \<in> used m1. ok (remote s) c \<longrightarrow> ok m1 c \<and> content m1 c = content (remote s) c" using h unfolding bank_heap_def by blast
  let ?s1 = "s\<lparr>remote := m1\<rparr>"
  have "?A c \<noteq> ?A b" if "c \<in> set bs" for c using Cons.prems(1,2) that by (auto simp: inj_on_def)
  then have p: "distinct bs" "inj_on (bank (fuse_sList ?s1 ! r)) (set bs)" "\<forall>c \<in> set bs. bank (fuse_sList ?s1 ! r) c \<in> used (remote ?s1)"
    using Cons.prems m1(3) by auto
  from Cons.IH[OF p] obtain m where
    m: "free_banks dm r bs ?s1 = Inr (s\<lparr>remote := m\<rparr>)" "room m1 \<le> room m" "used m = used m1 - ?A ` set bs"
      "\<forall>c \<in> used m. ok m1 c \<longrightarrow> ok m c \<and> content m c = content m1 c" by auto
  have "used m = used (remote s) - ?A ` set (b # bs)" using m(3) m1(3) by auto
  moreover have "\<forall>c \<in> used m. ok (remote s) c \<longrightarrow> ok m c \<and> content m c = content (remote s) c" using m(3,4) m1(4) by auto
  ultimately show ?case using m(1,2) m1(1,2) by (intro exI[of _ m]) simp
qed

lemma new_banks_ok:
  assumes h: "bank_heap dm content ok used room" and "distinct bs" "length bs \<le> room (remote s)" "r < SERVERNUM s"
  shows "\<exists>m banks. new_banks dm r bs s = Inr (s\<lparr>remote := m, fuse_sList := (fuse_sList s)[r := (fuse_sList s ! r)\<lparr>bank := banks\<rparr>]\<rparr>) \<and>
    used (remote s) \<subseteq> used m \<and> (\<forall>b \<in> set bs. banks b \<notin> used (remote s) \<and> banks b \<in> used m \<and> ok m (banks b)) \<and> inj_on banks (set bs) \<and>
    (\<forall>b. b \<notin> set bs \<longrightarrow> banks b = bank (fuse_sList s ! r) b) \<and>
    (\<forall>b \<in> used (remote s). ok (remote s) b \<longrightarrow> ok m b \<and> content m b = content (remote s) b)"
  using assms(2-)
proof (induction bs arbitrary: s)
  case Nil
  show ?case by (intro exI[of _ "remote s"] exI[of _ "bank (fuse_sList s ! r)"]) simp
next
  case (Cons b bs)
  have "0 < room (remote s)" using Cons.prems by simp
  then have "\<exists>a m'. dhmp_malloc_op dm (remote s) BANK_SIZE (server_id (fuse_sList s ! r)) = Inr (a, m') \<and> room (remote s) \<le> Suc (room m') \<and>
      a \<notin> used (remote s) \<and> used m' = insert a (used (remote s)) \<and> ok m' a \<and>
      (\<forall>b \<in> used (remote s). ok (remote s) b \<longrightarrow> ok m' b \<and> content m' b = content (remote s) b)"
    using h unfolding bank_heap_def by blast
  then obtain a m1 where m1: "dhmp_malloc_op dm (remote s) BANK_SIZE (server_id (fuse_sList s ! r)) = Inr (a, m1)"
      "room (remote s) \<le> Suc (room m1)" "a \<notin> used (remote s)" "used m1 = insert a (used (remote s))" "ok m1 a"
      "\<forall>b \<in> used (remote s). ok (remote s) b \<longrightarrow> ok m1 b \<and> content m1 b = content (remote s) b" by blast
  let ?s1 = "upd_server (s\<lparr>remote := m1\<rparr>) r (\<lambda>n. n\<lparr>bank := (bank n)(b := a)\<rparr>)"
  have r: "r < length (fuse_sList s)" using Cons.prems(3) by (simp add: SERVERNUM_def)
  have f: "remote ?s1 = m1" "fuse_sList ?s1 = (fuse_sList s)[r := (fuse_sList s ! r)\<lparr>bank := (bank (fuse_sList s ! r))(b := a)\<rparr>]"
    by (simp_all add: upd_server_def)
  have p: "distinct bs" "length bs \<le> room (remote ?s1)" "r < SERVERNUM ?s1" using Cons.prems m1(2) by (simp_all add: f SERVERNUM_def)
  from Cons.IH[OF p] obtain m banks where
    m: "new_banks dm r bs ?s1 = Inr (?s1\<lparr>remote := m, fuse_sList := (fuse_sList ?s1)[r := (fuse_sList ?s1 ! r)\<lparr>bank := banks\<rparr>]\<rparr>)"
      "used m1 \<subseteq> used m" "\<forall>c \<in> set bs. banks c \<notin> used m1 \<and> banks c \<in> used m \<and> ok m (banks c)" "inj_on banks (set bs)"
      "\<forall>c. c \<notin> set bs \<longrightarrow> banks c = bank (fuse_sList ?s1 ! r) c" "\<forall>c \<in> used m1. ok m1 c \<longrightarrow> ok m c \<and> content m c = content m1 c"
    unfolding f(1) by blast
  have e: "?s1\<lparr>remote := m, fuse_sList := (fuse_sList ?s1)[r := (fuse_sList ?s1 ! r)\<lparr>bank := banks\<rparr>]\<rparr> =
      s\<lparr>remote := m, fuse_sList := (fuse_sList s)[r := (fuse_sList s ! r)\<lparr>bank := banks\<rparr>]\<rparr>"
    using r by (simp add: upd_server_def)
  have b: "banks b = a" "b \<notin> set bs" using m(5) r Cons.prems(1) by (simp_all add: f(2))
  have "\<forall>c \<in> set (b # bs). banks c \<notin> used (remote s) \<and> banks c \<in> used m \<and> ok m (banks c)"
    using m(2,3,6) m1(3-5) b by auto
  moreover have "inj_on banks (set (b # bs))" using m(3,4) m1(4) b by auto
  moreover have "\<forall>c. c \<notin> set (b # bs) \<longrightarrow> banks c = bank (fuse_sList s ! r) c" using m(5) r by (simp add: f(2))
  moreover have "\<forall>c \<in> used (remote s). ok (remote s) c \<longrightarrow> ok m c \<and> content m c = content (remote s) c" using m(6) m1(4,6) by auto
  ultimately show ?case using m(1,2) m1(1,4) unfolding e by (intro exI[of _ m] exI[of _ banks]) auto
qed

lemma find_first: "List.find P xs = (case filter P xs of [] \<Rightarrow> None | x # ys \<Rightarrow> Some x)"
  by (induction xs) simp_all

lemma find_alive_first: "find_alive_server s = (case connected_servers s of [] \<Rightarrow> None | x # ys \<Rightarrow> Some x)"
  unfolding find_alive_server_def connected_servers_def by (rule find_first)

text \<open>A server table whose banks are all handed out and apart, without queued writes.\<close>

definition tables_ready :: "('m \<Rightarrow> nat \<Rightarrow> bool) \<Rightarrow> ('m \<Rightarrow> nat set) \<Rightarrow> 'm rec_state \<Rightarrow> bool" where
  "tables_ready ok used s \<longleftrightarrow> \<not> recovery_in_use s \<and> \<not> fuse_mutex s \<and> (\<forall>i. stack_ints s i \<noteq> 1) \<and>
     banks_apart ok s \<and> (\<forall>i < SERVERNUM s. \<not> server_mutex (fuse_sList s ! i) \<and> rw_tasks (fuse_sList s ! i) = [] \<and>
       (\<forall>b < BANK_NUM. bank (fuse_sList s ! i) b \<in> used (remote s))) \<and> (\<forall>i. freed_tasks s i = 0)"

text \<open>The last step of the preparation.\<close>

lemma mark_recovering:
  fixes S :: "'m rec_state" and single :: bool
  assumes "a < SERVERNUM S"
  defines "T \<equiv> set_state a RECOVERING (if single then S\<lparr>fuse_mutex := True\<rparr> else upd_server S a (\<lambda>n. n\<lparr>server_mutex := True\<rparr>))"
  shows "SERVERNUM T = SERVERNUM S" "remote T = remote S" "bank (fuse_sList T ! i) = bank (fuse_sList S ! i)"
    "server_state (fuse_sList T ! i) = (if i = a then RECOVERING else server_state (fuse_sList S ! i))"
    "rw_tasks (fuse_sList T ! i) = rw_tasks (fuse_sList S ! i)" "stack_ints T = stack_ints S" "freed_tasks T = freed_tasks S"
    "use_bank_len T = use_bank_len S" "fuse_mutex T = (single \<or> fuse_mutex S)" "fuse_journal_list T = fuse_journal_list S"
  using assms(1) by (cases "i = a", simp_all add: T_def set_state_def upd_server_def SERVERNUM_def)+

text \<open>The preparation when another server is connected.\<close>

lemma recover_prepare_ok:
  assumes heap: "bank_heap dm content ok used room" and rdy: "tables_ready ok used s" and room: "BANK_NUM \<le> room (remote s)"
    and r: "r < SERVERNUM s" and j: "j < SERVERNUM s" "j \<noteq> r" "server_state (fuse_sList s ! j) = CONNECTED"
    and view: "\<forall>j < SERVERNUM s. j \<noteq> r \<longrightarrow> server_state (fuse_sList s ! j) = CONNECTED \<longrightarrow> (\<forall>b < BANK_NUM. shows_view content v D s j b)"
  shows "\<exists>s' a single. recover_prepare dm r s = Inr (s', Some (a, single)) \<and> in_sync content ok v D a r 0 s' \<and>
    (single \<longleftrightarrow> connected_servers s' = []) \<and> fuse_mutex s' = single \<and> freed_tasks s' = freed_tasks s \<and> use_bank_len s' = use_bank_len s \<and>
    fuse_journal_list s' = fuse_journal_list s \<and>
    SERVERNUM s' = SERVERNUM s \<and> server_state (fuse_sList s ! a) = CONNECTED \<and> rw_tasks (fuse_sList s' ! a) = [] \<and>
    (\<forall>i < SERVERNUM s. i \<noteq> a \<longrightarrow> i \<noteq> r \<longrightarrow> server_state (fuse_sList s' ! i) = server_state (fuse_sList s ! i))"
proof -
  let ?A = "\<lambda>i. bank (fuse_sList s ! i)" and ?n = "SERVERNUM s"
  let ?s1 = "set_state r RECONNECT (s\<lparr>recovery_in_use := True\<rparr>)"
  have rl: "r < length (fuse_sList s)" using r by (simp add: SERVERNUM_def)
  have ap: "banks_apart ok s" and ready: "\<not> recovery_in_use s" "\<not> fuse_mutex s" "\<forall>i. stack_ints s i \<noteq> 1"
    "\<forall>i < ?n. \<not> server_mutex (fuse_sList s ! i) \<and> rw_tasks (fuse_sList s ! i) = [] \<and> (\<forall>b < BANK_NUM. ?A i b \<in> used (remote s))"
    using rdy by (simp_all add: tables_ready_def)
  note apd = banks_apartD[OF ap]
  have s1: "SERVERNUM ?s1 = ?n" "remote ?s1 = remote s" "fuse_sList ?s1 ! r = (fuse_sList s ! r)\<lparr>server_state := RECONNECT\<rparr>"
    "i \<noteq> r \<Longrightarrow> fuse_sList ?s1 ! i = fuse_sList s ! i" for i
    using rl by (simp_all add: set_state_def upd_server_def SERVERNUM_def)
  have A1: "bank (fuse_sList ?s1 ! i) = ?A i" for i by (cases "i = r") (simp_all add: s1)
  have "inj_on (bank (fuse_sList ?s1 ! r)) (set [0 ..< BANK_NUM])"
    unfolding A1 using apd(2)[OF r r] by (auto simp: inj_on_def)
  moreover have "\<forall>b \<in> set [0 ..< BANK_NUM]. bank (fuse_sList ?s1 ! r) b \<in> used (remote ?s1)" unfolding A1 s1 using ready(4) r by auto
  ultimately obtain m1 where m1: "free_banks dm r [0 ..< BANK_NUM] ?s1 = Inr (?s1\<lparr>remote := m1\<rparr>)" "room (remote s) \<le> room m1"
    "used m1 = used (remote s) - ?A r ` {..< BANK_NUM}" "\<forall>b \<in> used m1. ok (remote s) b \<longrightarrow> ok m1 b \<and> content m1 b = content (remote s) b"
    using free_banks_ok[OF heap distinct_upt, of ?s1 r 0 BANK_NUM] unfolding A1 s1 by (auto simp: atLeast0LessThan)
  let ?s2 = "?s1\<lparr>remote := m1\<rparr>"
  have s2: "fuse_sList ?s2 = fuse_sList ?s1" "remote ?s2 = m1" "SERVERNUM ?s2 = ?n" using s1(1) by (simp_all add: SERVERNUM_def)
  have "length [0 ..< BANK_NUM] \<le> room (remote ?s2)" "r < SERVERNUM ?s2" using room m1(2) r by (simp_all only: s2) simp
  from new_banks_ok[OF heap distinct_upt this] obtain m banks where
    m: "new_banks dm r [0 ..< BANK_NUM] ?s2 = Inr (?s2\<lparr>remote := m, fuse_sList := (fuse_sList ?s1)[r := (fuse_sList ?s1 ! r)\<lparr>bank := banks\<rparr>]\<rparr>)"
      "\<forall>b \<in> set [0 ..< BANK_NUM]. banks b \<notin> used m1 \<and> banks b \<in> used m \<and> ok m (banks b)" "inj_on banks (set [0 ..< BANK_NUM])"
      "\<forall>b \<in> used m1. ok m1 b \<longrightarrow> ok m b \<and> content m b = content m1 b" unfolding s2 by blast
  let ?s3 = "?s2\<lparr>remote := m, fuse_sList := (fuse_sList ?s1)[r := (fuse_sList ?s1 ! r)\<lparr>bank := banks\<rparr>]\<rparr>"
  have s3: "SERVERNUM ?s3 = ?n" "fuse_sList ?s3 ! r = (fuse_sList s ! r)\<lparr>server_state := RECONNECT, bank := banks\<rparr>"
    "i \<noteq> r \<Longrightarrow> fuse_sList ?s3 ! i = fuse_sList s ! i" for i
    using rl s1 by (simp_all add: set_state_def upd_server_def SERVERNUM_def)
  have old: "?A i b \<in> used m1" if "i < ?n" "b < BANK_NUM" "i \<noteq> r" for i b
    using ready(4) that apd(2)[OF that(1) r that(2)] m1(3) by auto
  have keep: "ok m (?A i b)" "content m (?A i b) = content (remote s) (?A i b)" if "i < ?n" "b < BANK_NUM" "i \<noteq> r" for i b
    using old[OF that] m1(4) m(4) apd(1)[OF that(1,2)] by auto
  have new: "banks b \<notin> used m1" "ok m (banks b)" "banks b = banks b' \<longleftrightarrow> b = b'" if "b < BANK_NUM" "b' < BANK_NUM" for b b'
    using m(2,3) that by (auto simp: inj_on_def)
  have r3: "remote ?s3 = m" by simp
  have ap3: "banks_apart ok ?s3"
    unfolding banks_apart_def s3(1) r3
  proof (intro conjI allI impI)
    fix i b assume "i < ?n" "b < BANK_NUM"
    then show "ok m (bank (fuse_sList ?s3 ! i) b)" by (cases "i = r") (use new(2) keep(1) s3(2,3) in simp_all)
  next
    fix i i' b b' assume h: "i < ?n" "i' < ?n" "b < BANK_NUM" "b' < BANK_NUM" "bank (fuse_sList ?s3 ! i) b = bank (fuse_sList ?s3 ! i') b'"
    have "i = i' \<and> b = b'"
      using h apd(2)[OF h(1-4)] old[OF h(1,3)] old[OF h(2,4)] new(1)[OF h(3,3)] new(1)[OF h(4,4)] new(3)[OF h(3,4)] s3(2,3)
      by (cases "i = r"; cases "i' = r") auto
    then show "i = i'" "b = b'" by blast+
  qed
  have stt: "server_state (fuse_sList ?s3 ! i) = (if i = r then RECONNECT else server_state (fuse_sList s ! i))" for i
    using s3(2,3) by simp
  have stt1: "server_state (fuse_sList ?s1 ! i) = (if i = r then RECONNECT else server_state (fuse_sList s ! i))" for i
    using s1(3,4) by simp
  have c31: "connected_servers ?s3 = connected_servers ?s1"
    unfolding connected_servers_def s3(1) s1(1) stt stt1 ..
  have "j \<in> set (connected_servers ?s3)" using j unfolding connected_servers_def s3(1) stt by simp
  then have ne: "connected_servers ?s1 \<noteq> []" unfolding c31[symmetric] by auto
  define a where "a = hd (connected_servers ?s3)"
  have ain: "a \<in> set (connected_servers ?s3)" using ne unfolding a_def c31 by simp
  have fa: "find_alive_server ?s3 = Some a"
    using ne unfolding a_def c31[symmetric] find_alive_first by (cases "connected_servers ?s3") simp_all
  have a: "a < ?n" "a \<noteq> r" "server_state (fuse_sList s ! a) = CONNECTED"
    using ain unfolding connected_servers_def s3(1) stt by (auto split: if_splits)
  define single where "single \<longleftrightarrow> length (connected_servers ?s1) = 1"
  have fm: "\<not> fuse_mutex ?s3" "\<not> server_mutex (fuse_sList ?s3 ! a)" using ready(2,4) a s3(3) by (simp_all add: set_state_def upd_server_def)
  define s4 where "s4 = (if single then ?s3\<lparr>fuse_mutex := True\<rparr> else upd_server ?s3 a (\<lambda>n. n\<lparr>server_mutex := True\<rparr>))"
  have l4: "(if length (connected_servers ?s1) = 1 then lock_fuse ?s3 else lock_server a ?s3) = Inr s4"
    using fm by (simp add: s4_def single_def lock_fuse_def lock_server_def)
  let ?s5 = "set_state a RECOVERING s4"
  have p: "recover_prepare dm r s = Inr (?s5, Some (a, single))"
  proof -
    have nl: "\<not> SERVERNUM s \<le> r" "length (connected_servers ?s1) \<noteq> 0" using r ne by simp_all
    show ?thesis
      unfolding recover_prepare_def Let_def if_not_P[OF ready(1)] if_not_P[OF nl(1)] if_not_P[OF nl(2)] m1(1) rbind_Inr m(1) fa option.case l4
        single_def ..
  qed
  have al: "a < SERVERNUM ?s3" using a(1) s3(1) by simp
  note k = mark_recovering[OF al, of single, folded s4_def]
  have bk: "bank (fuse_sList ?s5 ! i) = bank (fuse_sList ?s3 ! i)" for i by (rule k(3))
  have n5: "SERVERNUM ?s5 = ?n" "remote ?s5 = m" unfolding k(1,2) using s3(1) by simp_all
  have st5: "server_state (fuse_sList ?s5 ! i) = (if i = a then RECOVERING else if i = r then RECONNECT else server_state (fuse_sList s ! i))" for i
    unfolding k(4) stt ..
  have rw5: "rw_tasks (fuse_sList ?s5 ! a) = []" unfolding k(5) s3(3)[OF a(2)] using ready(4) a(1) by simp
  have ap5: "banks_apart ok ?s5" using ap3 unfolding banks_apart_def n5 bk s3(1) r3 .
  have si: "stack_ints ?s5 = stack_ints s" "freed_tasks ?s5 = freed_tasks s" "use_bank_len ?s5 = use_bank_len s" "fuse_mutex ?s5 = (single \<or> fuse_mutex s)"
    "fuse_journal_list ?s5 = fuse_journal_list s" unfolding k(6-10) by (simp_all add: set_state_def upd_server_def)
  have rec: "recovering a r ?s5" unfolding recovering_def n5 st5 rw5 si using a r ready(3) by simp
  have sv: "shows_view content v D ?s5 i b" if "i < ?n" "i \<noteq> r" "server_state (fuse_sList s ! i) = CONNECTED" "b < BANK_NUM" for i b
  proof -
    have "shows_view content v D s i b" using view that by blast
    then show ?thesis unfolding shows_view_def n5 bk s3(3)[OF that(2)] keep(2)[OF that(1,4,2)] .
  qed
  have "in_sync content ok v D a r 0 ?s5"
    unfolding in_sync_def n5 st5
  proof (intro conjI allI impI ap5 rec)
    fix i b assume i: "i < ?n" "(if i = a then RECOVERING else if i = r then RECONNECT else server_state (fuse_sList s ! i)) = CONNECTED" "b < BANK_NUM"
    then show "shows_view content v D ?s5 i b" by (intro sv) (auto split: if_splits)
  next
    fix b assume "b < BANK_NUM"
    then show "shows_view content v D ?s5 a b" by (intro sv a)
  qed simp
  moreover have "single \<longleftrightarrow> connected_servers ?s5 = []"
  proof -
    have "connected_servers ?s5 = filter (\<lambda>i. i \<noteq> a) (connected_servers ?s1)"
      unfolding connected_servers_def n5 st5 s1(1) stt1 filter_filter by (rule filter_cong[OF refl]) auto
    moreover have "distinct (connected_servers ?s1)" by (simp add: connected_servers_def)
    moreover have "connected_servers ?s1 = a # tl (connected_servers ?s1)" using ne unfolding a_def c31 by simp
    ultimately show ?thesis unfolding single_def
      by (cases "tl (connected_servers ?s1)") (auto simp: filter_empty_conv dest: sym)
  qed
  moreover have "fuse_mutex ?s5 = single" using si(4) ready(2) by simp
  moreover have "\<forall>i < ?n. i \<noteq> a \<longrightarrow> i \<noteq> r \<longrightarrow> server_state (fuse_sList ?s5 ! i) = server_state (fuse_sList s ! i)" unfolding st5 by simp
  ultimately show ?thesis using p si(2,3,5) n5(1) a(3) rw5 by (intro exI[of _ ?s5] exI[of _ a] exI[of _ single]) simp
qed

section \<open>Properties\<close>





text \<open>Memory that hands out region after region, and three servers the second of which was lost.\<close>

record memory =
  regions :: "nat \<Rightarrow> buf"
  given :: "nat set"
  next_region :: nat

definition memory_api :: "memory dhmp_api" where
  "memory_api = \<lparr>dhmp_read_op = (\<lambda>m a buf off. Inr (0, buf_read (regions m a) off (length buf), m)),
     dhmp_write_op = (\<lambda>m a bs off. Inr (0, m\<lparr>regions := (regions m)(a := buf_write (regions m a) off bs)\<rparr>)),
     dhmp_malloc_op = (\<lambda>m n k. Inr (next_region m, m\<lparr>given := insert (next_region m) (given m), next_region := Suc (next_region m)\<rparr>)),
     dhmp_free_op = (\<lambda>m a. Inr (m\<lparr>given := given m - {a}\<rparr>)), dhmp_send_op = (\<lambda>m a bs. Inr (0, m))\<rparr>"

definition lost_server :: "memory rec_state" where
  "lost_server = io_state.extend ((io_start [new_server 0 id, (new_server 1 (\<lambda>b. BANK_NUM + b))\<lparr>server_state := DISCONNECT\<rparr>,
     new_server 2 (\<lambda>b. 2 * BANK_NUM + b)] \<lparr>regions = (\<lambda>a off. if a < BANK_NUM \<or> 2 * BANK_NUM \<le> a then 7 else 0), given = {..< 3 * BANK_NUM},
     next_region = 3 * BANK_NUM\<rparr>)\<lparr>use_bank_len := BANK_NUM\<rparr>) \<lparr>freed_tasks = (\<lambda>_. 0)\<rparr>"

lemma memory_heap: "bank_heap memory_api regions (\<lambda>_ _. True) given (\<lambda>m. if given m \<subseteq> {..< next_region m} then BANK_NUM else 0)"
  by (auto simp: bank_heap_def memory_api_def split: if_splits)

lemma lost_server_simps:
  "SERVERNUM lost_server = 3" "fuse_sList lost_server = [new_server 0 id, (new_server 1 (\<lambda>b. BANK_NUM + b))\<lparr>server_state := DISCONNECT\<rparr>,
     new_server 2 (\<lambda>b. 2 * BANK_NUM + b)]"
  "remote lost_server = \<lparr>regions = (\<lambda>a off. if a < BANK_NUM \<or> 2 * BANK_NUM \<le> a then 7 else 0), given = {..< 3 * BANK_NUM},
     next_region = 3 * BANK_NUM\<rparr>" "use_bank_len lost_server = BANK_NUM" "fuse_journal_list lost_server = []"
  by (simp_all add: lost_server_def io_state.defs io_start_def SERVERNUM_def)

lemma all_below_3: "(\<forall>i < 3. P i) \<longleftrightarrow> P 0 \<and> P 1 \<and> P 2" for P :: "nat \<Rightarrow> bool"
  by (auto simp: less_Suc_eq numeral_3_eq_3 numeral_2_eq_2)

lemma lost_server_ready: "tables_ready (\<lambda>_ _. True) given lost_server"
  unfolding tables_ready_def banks_apart_def lost_server_simps all_below_3
  by (simp add: new_server_def lost_server_def io_state.defs io_start_def)

text \<open>When no other server is connected the recovery gives up but leaves the flag set that says one is running, so
  that no later recovery, of any server and in any later state that keeps the flag, does anything.\<close>

theorem recovery_blocked:
  assumes "\<not> recovery_in_use s" "r < SERVERNUM s" "\<forall>j < SERVERNUM s. j \<noteq> r \<longrightarrow> server_state (fuse_sList s ! j) \<noteq> CONNECTED"
  shows "\<exists>s'. fuse_recover dm buf r s = Inr s' \<and> recovery_in_use s' \<and> server_state (fuse_sList s' ! r) = RECONNECT \<and> remote s' = remote s \<and>
    (\<forall>t r' buf'. recovery_in_use t = recovery_in_use s' \<longrightarrow> fuse_recover dm buf' r' t = Inr t)"
proof -
  let ?s' = "set_state r RECONNECT (s\<lparr>recovery_in_use := True\<rparr>)"
  have r: "r < length (fuse_sList s)" using assms(2) by (simp add: SERVERNUM_def)
  have n: "SERVERNUM ?s' = SERVERNUM s" "recovery_in_use ?s'" "remote ?s' = remote s" "server_state (fuse_sList ?s' ! r) = RECONNECT"
    using r by (simp_all add: set_state_def upd_server_def SERVERNUM_def)
  have "server_state (fuse_sList ?s' ! j) \<noteq> CONNECTED" if "j < SERVERNUM s" for j
    using assms(3) that r by (cases "j = r") (simp_all add: set_state_def upd_server_def)
  then have e: "length (connected_servers ?s') = 0" by (simp add: connected_servers_def n(1))
  have nl: "\<not> SERVERNUM s \<le> r" using assms(2) by simp
  have "recover_prepare dm r s = Inr (?s', None)"
    unfolding recover_prepare_def Let_def if_not_P[OF assms(1)] if_not_P[OF nl] if_P[OF e] ..
  then have "fuse_recover dm buf r s = Inr ?s'" by (simp add: fuse_recover_def)
  moreover have "fuse_recover dm buf' r' t = Inr t" if "recovery_in_use t" for t r' buf' using that by (simp add: fuse_recover_def recover_prepare_def)
  ultimately show ?thesis using n by (intro exI[of _ ?s']) blast
qed

theorem recovery_blocked_witness:
  "\<exists>s'. fuse_recover memory_api [] 1 (lost_server\<lparr>fuse_sList := [(new_server 0 id)\<lparr>server_state := DISCONNECT\<rparr>, new_server 1 id]\<rparr>) = Inr s' \<and>
    fuse_recover memory_api [] 0 s' = Inr s'"
proof -
  let ?s = "lost_server\<lparr>fuse_sList := [(new_server 0 id)\<lparr>server_state := DISCONNECT\<rparr>, new_server 1 id]\<rparr>"
  have "\<not> recovery_in_use ?s" "1 < SERVERNUM ?s"
    "\<forall>j < SERVERNUM ?s. j \<noteq> 1 \<longrightarrow> server_state (fuse_sList ?s ! j) \<noteq> CONNECTED"
    by (simp_all add: lost_server_def io_state.defs io_start_def SERVERNUM_def less_Suc_eq numeral_2_eq_2)
  from recovery_blocked[OF this, of memory_api "[]"] show ?thesis by blast
qed

text \<open>C39: nothing in the program sets \<open>use_bank_len\<close> or fills the journal, and without that a recovery copies no bank at
  all: after the new banks are allocated it makes no further call, and reports the server connected.\<close>

theorem recovery_copies_nothing:
  assumes heap: "bank_heap dm content ok used room" and rdy: "tables_ready ok used s" and room: "BANK_NUM \<le> room (remote s)"
    and r: "r < SERVERNUM s" and j: "j < SERVERNUM s" "j \<noteq> r" "server_state (fuse_sList s ! j) = CONNECTED"
    and unset: "use_bank_len s \<noteq> BANK_NUM" "fuse_journal_list s = []"
  shows "\<exists>s1 a single s'. recover_prepare dm r s = Inr (s1, Some (a, single)) \<and> fuse_recover dm buf r s = Inr s' \<and>
    remote s' = remote s1 \<and> bank (fuse_sList s' ! r) = bank (fuse_sList s1 ! r) \<and> server_state (fuse_sList s' ! r) = CONNECTED"
proof -
  have "\<forall>j < SERVERNUM s. j \<noteq> r \<longrightarrow> server_state (fuse_sList s ! j) = CONNECTED \<longrightarrow> (\<forall>b < BANK_NUM. shows_view content v (\<lambda>_ _. False) s j b)" for v
    by (simp add: shows_view_def)
  from recover_prepare_ok[OF heap rdy room r j this] obtain s1 a single where
    p: "recover_prepare dm r s = Inr (s1, Some (a, single))" "in_sync content ok (\<lambda>_ _. 0) (\<lambda>_ _. False) a r 0 s1" and
    f: "fuse_mutex s1 = single" "freed_tasks s1 = freed_tasks s" "use_bank_len s1 = use_bank_len s" "fuse_journal_list s1 = fuse_journal_list s"
      "rw_tasks (fuse_sList s1 ! a) = []" by blast
  have c: "recover_copy dm a r s1 buf = Inr (s1, buf, True)" using unset f(3,4) by (simp add: recover_copy_def)
  have ar: "a < length (fuse_sList s1)" "r < length (fuse_sList s1)" "a \<noteq> r" using p(2) by (simp_all add: in_sync_def recovering_def SERVERNUM_def)
  have "freed_tasks s1 a = 0" using rdy f(2) by (simp add: tables_ready_def)
  then have "\<exists>s'. fuse_recover dm buf r s = Inr s' \<and> remote s' = remote s1 \<and> bank (fuse_sList s' ! r) = bank (fuse_sList s1 ! r) \<and>
      server_state (fuse_sList s' ! r) = CONNECTED"
    using p(1) c f(1,5) ar
    by (cases single) (auto simp: fuse_recover_def recover_rewrite_def lock_fuse_def clean_recover_def clean_recover1_def set_state_def upd_server_def)
  then show ?thesis using p(1) by blast
qed

theorem recovery_copies_nothing_witness:
  "\<exists>s1 a single s'. recover_prepare memory_api 1 (lost_server\<lparr>use_bank_len := 0\<rparr>) = Inr (s1, Some (a, single)) \<and>
    fuse_recover memory_api (replicate BANK_SIZE 0) 1 (lost_server\<lparr>use_bank_len := 0\<rparr>) = Inr s' \<and> remote s' = remote s1 \<and>
    bank (fuse_sList s' ! 1) = bank (fuse_sList s1 ! 1) \<and> server_state (fuse_sList s' ! 1) = CONNECTED"
proof (rule recovery_copies_nothing[OF memory_heap, where j = 0])
  let ?s = "lost_server\<lparr>use_bank_len := 0\<rparr>"
  show "tables_ready (\<lambda>_ _. True) given ?s" using lost_server_ready by (simp add: tables_ready_def banks_apart_def SERVERNUM_def)
qed (simp_all add: lost_server_def io_state.defs io_start_def SERVERNUM_def new_server_def sizes(3))

end
