(* ===== verification/Dhmp_Transport.thy ===== *)
theory Dhmp_Transport
  imports Dhmp_Types
begin

text \<open>
  Connections: the event descriptors of \<open>src/dhmp_client/src/dhmp_context.c\<close> and the connection management of
  \<open>src/dhmp_client/src/dhmp_transport.c\<close>, from creating a transport to the handlers of connection events, the
  receive buffers and the thread that reconnects. A process holds the globals \<open>server\<close> and \<open>client\<close>, either of
  which may be null. What the RDMA libraries and the system return to the calls made during one step
  is an argument (\<open>cm_lib\<close>). \<open>malloc\<close> of a small structure succeeds and leaves its old contents.
\<close>

section \<open>State\<close>

record cm_lib =
  lib_event_channel :: bool
  lib_fcntl :: bool
  lib_epoll_add :: int
  lib_malloc :: "nat \<Rightarrow> bool"
  lib_reg_mr :: "nat \<Rightarrow> bool"
  lib_comp_channel :: bool
  lib_cq_fcntl :: bool
  lib_create_cq :: bool
  lib_req_notify :: int
  lib_create_qp :: int
  lib_create_id :: int
  lib_bind_addr :: int
  lib_listen :: int
  lib_resolve_addr :: int
  lib_resolve_route :: int
  lib_connect :: int
  lib_accept :: int
  lib_pton :: "string \<Rightarrow> int \<times> 32 word"
  lib_region :: "64 word \<times> nat"

text \<open>
  A descriptor in the \<open>epoll\<close> set carries what its handler gets: an event channel, or a completion queue.
  Handles are numbers given out in ascending order; a channel's descriptor is its handle.
\<close>

datatype ev_data = Cm_channel nat | Cq_channel nat

text \<open>
  The parts of \<open>server\<close> and \<open>client\<close> that the handlers of this file touch. \<open>cm_threads\<close> are the transports recovery
  threads run for, and \<open>cm_recovered\<close> the nodes \<open>client->recovery\<close> was called for, the last one first.
\<close>

record cm_server =
  cm_watcher :: "nat option"
  cm_connections :: int
  cm_clients :: "nat list"

record cm_client =
  cm_prepare_destroy :: bool
  cm_in_recovery :: bool
  cm_threads :: "nat list"
  cm_recovered :: "int list"
  cm_nets :: "int \<Rightarrow> string option \<times> int"

text \<open>
  Of a \<open>cm_id\<close> the code uses the transport it belongs to, its channel and its addresses. \<open>cqs\<close> maps an allocated
  \<open>dhmp_cq\<close> to the descriptor of its channel, \<open>posted\<close> a queue pair to the receive buffers on it (offsets
  in the receive region), and \<open>released\<close> are the transports whose regions were freed.
\<close>

record rdma_proc =
  cm_trans :: "nat \<Rightarrow> dhmp_transport"
  next_trans :: nat
  next_handle :: nat
  fds :: "nat \<Rightarrow> ev_data option"
  id_ctx :: "nat \<Rightarrow> nat"
  id_chan :: "nat \<Rightarrow> nat"
  id_src :: "nat \<Rightarrow> sockaddr_in"
  id_dst :: "nat \<Rightarrow> sockaddr_in"
  cqs :: "nat \<Rightarrow> nat option"
  posted :: "nat \<Rightarrow> nat list"
  released :: "nat set"
  ctx_stop :: bool
  cm_srv :: "cm_server option"
  cm_cli :: "cm_client option"

definition upd_cm :: "rdma_proc \<Rightarrow> nat \<Rightarrow> (dhmp_transport \<Rightarrow> dhmp_transport) \<Rightarrow> rdma_proc" where
  "upd_cm p t f = p\<lparr>cm_trans := (cm_trans p)(t := f (cm_trans p t))\<rparr>"

section \<open>Event descriptors\<close>

definition dhmp_context_add_event_fd :: "cm_lib \<Rightarrow> rdma_proc \<Rightarrow> nat \<Rightarrow> ev_data \<Rightarrow> rdma_proc \<times> int" where
  "dhmp_context_add_event_fd L p fd data =
     (if lib_epoll_add L = 0 then (p\<lparr>fds := (fds p)(fd \<mapsto> data)\<rparr>, 0) else (p, lib_epoll_add L))"

definition dhmp_context_del_event_fd :: "rdma_proc \<Rightarrow> nat \<Rightarrow> rdma_proc" where
  "dhmp_context_del_event_fd p fd = p\<lparr>fds := (fds p)(fd := None)\<rparr>"

section \<open>Creating a transport\<close>

text \<open>The result of adding the channel to the \<open>epoll\<close> set is not looked at.\<close>

definition dhmp_event_channel_create :: "cm_lib \<Rightarrow> nat \<Rightarrow> rdma_proc \<Rightarrow> rdma_proc \<times> int" where
  "dhmp_event_channel_create L t p =
     (if \<not> lib_event_channel L then (upd_cm p t (\<lambda>r. r\<lparr>event_channel := None\<rparr>), -1)
      else
        let c = next_handle p;
            p1 = (upd_cm p t (\<lambda>r. r\<lparr>event_channel := Some c\<rparr>))\<lparr>next_handle := Suc c\<rparr>
        in if \<not> lib_fcntl L then (p1, -1) else (fst (dhmp_context_add_event_fd L p1 c (Cm_channel c)), 0))"

definition dhmp_memory_register :: "cm_lib \<Rightarrow> nat \<Rightarrow> dhmp_mr option" where
  "dhmp_memory_register L len =
     (if \<not> lib_malloc L len \<or> \<not> lib_reg_mr L len then None
      else Some \<lparr>cur_pos = 0, dmr_addr = fst (lib_region L), dmr_lkey = snd (lib_region L)\<rparr>)"

definition dhmp_transport_create :: "cm_lib \<Rightarrow> rdma_proc \<Rightarrow> bool \<Rightarrow> bool \<Rightarrow> rdma_proc \<times> nat option" where
  "dhmp_transport_create L p is_listen is_poll =
     (let t = next_trans p;
          p1 = (upd_cm p t (\<lambda>r. r\<lparr>trans_state := DHMP_TRANSPORT_STATE_INIT, dram_used_size := 0, nvm_used_size := 0\<rparr>))\<lparr>next_trans := Suc t\<rparr>;
          (p2, err) = dhmp_event_channel_create L t p1
      in if err \<noteq> 0 then (p2, None)
         else if is_listen then (p2, Some t)
         else
           (case (dhmp_memory_register L SEND_REGION_SIZE, dhmp_memory_register L RECV_REGION_SIZE) of
              (Some sm, Some rm) \<Rightarrow> (upd_cm p2 t (\<lambda>r. r\<lparr>send_mr := Some sm, recv_mr := Some rm, is_poll_qp := is_poll\<rparr>), Some t)
            | _ \<Rightarrow> (case event_channel (cm_trans p2 t) of
                      None \<Rightarrow> (p2, None)
                    | Some c \<Rightarrow> (dhmp_context_del_event_fd p2 c, None))))"

section \<open>Queue pairs\<close>

definition dhmp_cq_get :: "cm_lib \<Rightarrow> rdma_proc \<Rightarrow> rdma_proc \<times> nat option" where
  "dhmp_cq_get L p =
     (if \<not> lib_comp_channel L \<or> \<not> lib_cq_fcntl L then (p, None)
      else
        let d = next_handle p; fd = Suc d;
            (p1, r) = dhmp_context_add_event_fd L (p\<lparr>next_handle := Suc fd\<rparr>) fd (Cq_channel d)
        in if r \<noteq> 0 then (p1, None)
           else if \<not> lib_create_cq L \<or> lib_req_notify L \<noteq> 0 then (dhmp_context_del_event_fd p1 fd, None)
           else (p1\<lparr>cqs := (cqs p1)(d \<mapsto> fd)\<rparr>, Some d))"

text \<open>When \<open>rdma_create_qp\<close> fails the queue is freed but its descriptor stays in the \<open>epoll\<close> set.\<close>

definition dhmp_qp_create :: "cm_lib \<Rightarrow> nat \<Rightarrow> rdma_proc \<Rightarrow> (rdma_proc \<times> int) res" where
  "dhmp_qp_create L t p =
     (case dhmp_cq_get L p of
        (p1, None) \<Rightarrow> Inr (p1, -1)
      | (p1, Some d) \<Rightarrow>
          if cm_id (cm_trans p1 t) = None then Inl Null_deref
          else if lib_create_qp L \<noteq> 0 then Inr (p1\<lparr>cqs := (cqs p1)(d := None)\<rparr>, lib_create_qp L)
          else
            let q = next_handle p1
            in Inr ((upd_cm p1 t (\<lambda>r. r\<lparr>qp := Some q, dcq := Some d\<rparr>))\<lparr>next_handle := Suc q, posted := (posted p1)(q := [])\<rparr>, 0))"

text \<open>The completion queue of a transport with the descriptor of its channel.\<close>

definition trans_cq :: "rdma_proc \<Rightarrow> nat \<Rightarrow> (nat \<times> nat) res" where
  "trans_cq p t =
     (case dcq (cm_trans p t) of
        None \<Rightarrow> Inl Null_deref
      | Some d \<Rightarrow> (case cqs p d of None \<Rightarrow> Inl Use_after_free | Some fd \<Rightarrow> Inr (d, fd)))"

definition dhmp_qp_release :: "nat \<Rightarrow> rdma_proc \<Rightarrow> rdma_proc res" where
  "dhmp_qp_release t p =
     (case qp (cm_trans p t) of
        None \<Rightarrow> Inr p
      | Some q \<Rightarrow>
          rbind (trans_cq p t) (\<lambda>(d, fd).
            let p1 = dhmp_context_del_event_fd p fd
            in Inr ((upd_cm p1 t (\<lambda>r. r\<lparr>dcq := None\<rparr>))\<lparr>cqs := (cqs p1)(d := None), posted := (posted p1)(q := [])\<rparr>)))"

section \<open>Receive buffers\<close>

definition recv_slot_size :: "dhmp_transport \<Rightarrow> nat" where
  "recv_slot_size r = (if is_poll_qp r then SINGLE_POLL_RECV_REGION else SINGLE_NORM_RECV_REGION)"

text \<open>\<open>off\<close> is the place of the buffer in the receive region.\<close>

definition dhmp_post_recv :: "nat \<Rightarrow> nat \<Rightarrow> rdma_proc \<Rightarrow> rdma_proc res" where
  "dhmp_post_recv t off p =
     (let r = cm_trans p t
      in if trans_state r > DHMP_TRANSPORT_STATE_CONNECTED then Inr p
         else if t \<in> released p then Inl Use_after_free
         else
           rbind (dhmp_recv_task_create t r (case recv_mr r of None \<Rightarrow> 0 | Some mr \<Rightarrow> dmr_addr mr + word_of_nat off)) (\<lambda>task.
             case qp r of
               None \<Rightarrow> Inl Null_deref
             | Some q \<Rightarrow> Inr (p\<lparr>posted := (posted p)(q := posted p q @ [off])\<rparr>)))"

fun post_recvs :: "nat \<Rightarrow> nat list \<Rightarrow> rdma_proc \<Rightarrow> rdma_proc res" where
  "post_recvs t [] p = Inr p"
| "post_recvs t (off # offs) p = rbind (dhmp_post_recv t off p) (post_recvs t offs)"

definition dhmp_post_all_recv :: "nat \<Rightarrow> rdma_proc \<Rightarrow> rdma_proc res" where
  "dhmp_post_all_recv t p =
     (let sz = recv_slot_size (cm_trans p t)
      in post_recvs t (map (\<lambda>i. i * sz) [0 ..< RECV_REGION_SIZE div sz]) p)"

text \<open>
  A receive that completes: the buffer has left the queue, the message is handled by \<open>h\<close>, and the buffer is put
  back. Other completions change nothing here, nor does one with an error status.
\<close>

datatype wc = Wc_recv nat nat | Wc_send | Wc_flushed

definition dhmp_wc_success_handler :: "(nat \<Rightarrow> rdma_proc \<Rightarrow> rdma_proc res) \<Rightarrow> wc \<Rightarrow> rdma_proc \<Rightarrow> rdma_proc res" where
  "dhmp_wc_success_handler h w p =
     (case w of Wc_recv t off \<Rightarrow> rbind (h t p) (dhmp_post_recv t off) | _ \<Rightarrow> Inr p)"

definition dhmp_wc_error_handler :: "wc \<Rightarrow> rdma_proc \<Rightarrow> rdma_proc" where
  "dhmp_wc_error_handler w p = p"

fun poll_cq_loop :: "(nat \<Rightarrow> rdma_proc \<Rightarrow> rdma_proc res) \<Rightarrow> (wc \<times> bool) list \<Rightarrow> rdma_proc \<Rightarrow> rdma_proc res" where
  "poll_cq_loop h [] p = Inr p"
| "poll_cq_loop h ((w, success) # ws) p =
     rbind (if success then dhmp_wc_success_handler h w p else Inr (dhmp_wc_error_handler w p)) (poll_cq_loop h ws)"

text \<open>\<open>err\<close> tells whether getting the event or asking for the next one failed; \<open>ws\<close> is what the queue holds.\<close>

definition dhmp_comp_channel_handler :: "(nat \<Rightarrow> rdma_proc \<Rightarrow> rdma_proc res) \<Rightarrow> bool \<Rightarrow> (wc \<times> bool) list \<Rightarrow> rdma_proc \<Rightarrow> rdma_proc res" where
  "dhmp_comp_channel_handler h err ws p = (if err then Inr p else poll_cq_loop h ws p)"

section \<open>Listening and connecting\<close>

text \<open>\<open>rdma_create_id\<close>: a new id that belongs to \<open>t\<close> and reports on its channel.\<close>

definition new_cm_id :: "nat \<Rightarrow> rdma_proc \<Rightarrow> rdma_proc" where
  "new_cm_id t p =
     (let h = next_handle p
      in (upd_cm p t (\<lambda>r. r\<lparr>cm_id := Some h\<rparr>))
           \<lparr>next_handle := Suc h, id_ctx := (id_ctx p)(h := t),
            id_chan := (id_chan p)(h := (case event_channel (cm_trans p t) of None \<Rightarrow> 0 | Some c \<Rightarrow> c))\<rparr>)"

definition dhmp_transport_listen :: "cm_lib \<Rightarrow> nat \<Rightarrow> rdma_proc \<Rightarrow> rdma_proc \<times> int" where
  "dhmp_transport_listen L t p =
     (if lib_create_id L \<noteq> 0 then (p, lib_create_id L)
      else
        let p1 = new_cm_id t p
        in if lib_bind_addr L \<noteq> 0 then (upd_cm p1 t (\<lambda>r. r\<lparr>cm_id := None\<rparr>), lib_bind_addr L)
           else if lib_listen L \<noteq> 0 then (upd_cm p1 t (\<lambda>r. r\<lparr>cm_id := None\<rparr>), lib_listen L)
           else (upd_cm p1 t (\<lambda>r. r\<lparr>trans_state := DHMP_TRANSPORT_STATE_LISTEN\<rparr>), 0))"

text \<open>\<open>inet_pton\<close> gives 0 for text that is no address, which the caller takes for success.\<close>

definition dhmp_port_uri_transfer :: "cm_lib \<Rightarrow> nat \<Rightarrow> string \<Rightarrow> int \<Rightarrow> rdma_proc \<Rightarrow> rdma_proc \<times> int" where
  "dhmp_port_uri_transfer L t url port p =
     (let (r, a) = lib_pton L url
      in if r \<le> 0 then (p, r) else (upd_cm p t (\<lambda>x. x\<lparr>peer_addr := \<lparr>sin_addr = a, sin_port = port\<rparr>\<rparr>), r))"

definition dhmp_transport_connect :: "cm_lib \<Rightarrow> nat \<Rightarrow> string option \<Rightarrow> int \<Rightarrow> rdma_proc \<Rightarrow> rdma_proc \<times> int" where
  "dhmp_transport_connect L t url port p =
     (case url of
        None \<Rightarrow> (p, -1)
      | Some u \<Rightarrow>
          if port \<le> 0 then (p, -1)
          else
            let (p1, r) = dhmp_port_uri_transfer L t u port p
            in if r < 0 then (p1, r)
               else if lib_create_id L \<noteq> 0 then (upd_cm p1 t (\<lambda>x. x\<lparr>cm_id := None\<rparr>), lib_create_id L)
               else
                 let p2 = new_cm_id t p1
                 in if lib_resolve_addr L \<noteq> 0 then (upd_cm p2 t (\<lambda>x. x\<lparr>cm_id := None\<rparr>), lib_resolve_addr L)
                    else (upd_cm p2 t (\<lambda>x. x\<lparr>trans_state := DHMP_TRANSPORT_STATE_CONNECTING\<rparr>), 0))"

section \<open>Handlers of connection events\<close>

definition on_cm_addr_resolved :: "cm_lib \<Rightarrow> nat \<Rightarrow> rdma_proc \<Rightarrow> (rdma_proc \<times> int) res" where
  "on_cm_addr_resolved L t p = (if cm_id (cm_trans p t) = None then Inl Null_deref else Inr (p, lib_resolve_route L))"

definition on_cm_route_resolved :: "cm_lib \<Rightarrow> nat \<Rightarrow> rdma_proc \<Rightarrow> (rdma_proc \<times> int) res" where
  "on_cm_route_resolved L t p =
     rbind (dhmp_qp_create L t p) (\<lambda>(p1, r).
        if r \<noteq> 0 then Inr (p1, r)
        else if lib_connect L \<noteq> 0 then
          rbind (dhmp_qp_release t p1) (\<lambda>p2.
            Inr ((upd_cm p2 t (\<lambda>x. x\<lparr>trans_state := DHMP_TRANSPORT_STATE_ERROR\<rparr>))\<lparr>ctx_stop := True\<rparr>, lib_connect L))
        else rbind (dhmp_post_all_recv t p1) (\<lambda>p2. Inr (p2, 0)))"

text \<open>Comparing the texts of two addresses compares the addresses.\<close>

definition dhmp_is_exist_connection :: "rdma_proc \<Rightarrow> sockaddr_in \<Rightarrow> nat option res" where
  "dhmp_is_exist_connection p sock =
     (case cm_srv p of
        None \<Rightarrow> Inl Null_deref
      | Some s \<Rightarrow> Inr (List.find (\<lambda>t. sin_addr (peer_addr (cm_trans p t)) = sin_addr sock) (cm_clients s)))"

text \<open>\<open>h\<close> is the id of the event, which comes with the addresses of the connection.\<close>

definition enlist_connection :: "nat \<Rightarrow> cm_server \<Rightarrow> cm_server" where
  "enlist_connection n s =
     (if cm_watcher s = None then s\<lparr>cm_watcher := Some n\<rparr>
      else s\<lparr>cm_connections := cm_connections s + 1, cm_clients := cm_clients s @ [n]\<rparr>)"

definition link_connections :: "nat option \<Rightarrow> nat \<Rightarrow> rdma_proc \<Rightarrow> rdma_proc" where
  "link_connections normal n p =
     (case normal of
        None \<Rightarrow> p
      | Some m \<Rightarrow> upd_cm (upd_cm p m (\<lambda>x. x\<lparr>link_trans := Some n\<rparr>)) n (\<lambda>x. x\<lparr>link_trans := Some m\<rparr>))"

definition on_cm_connect_request :: "cm_lib \<Rightarrow> nat \<Rightarrow> rdma_proc \<Rightarrow> (rdma_proc \<times> int) res" where
  "on_cm_connect_request L h p =
     rbind (dhmp_is_exist_connection p (id_dst p h)) (\<lambda>normal.
       case dhmp_transport_create L p False (normal \<noteq> None) of
         (p1, None) \<Rightarrow> Inr (p1, -1)
       | (p1, Some n) \<Rightarrow>
           let p2 = (upd_cm p1 n (\<lambda>x. x\<lparr>link_trans := None, cm_id := Some h\<rparr>))\<lparr>id_ctx := (id_ctx p1)(h := n)\<rparr>
           in rbind (dhmp_qp_create L n p2) (\<lambda>(p3, r).
                if r \<noteq> 0 then Inr (p3, r)
                else
                  let p4 = link_connections normal n (p3\<lparr>cm_srv := map_option (enlist_connection n) (cm_srv p3)\<rparr>)
                  in if lib_accept L \<noteq> 0 then Inr (p4, -1)
                     else
                       rbind (dhmp_post_all_recv n (upd_cm p4 n (\<lambda>x. x\<lparr>trans_state := DHMP_TRANSPORT_STATE_CONNECTING\<rparr>)))
                         (\<lambda>p5. Inr (p5, 0))))"

definition on_cm_established :: "nat \<Rightarrow> rdma_proc \<Rightarrow> (rdma_proc \<times> int) res" where
  "on_cm_established t p =
     (case cm_id (cm_trans p t) of
        None \<Rightarrow> Inl Null_deref
      | Some h \<Rightarrow> Inr (upd_cm p t (\<lambda>x. x\<lparr>local_addr := id_src p h, peer_addr := id_dst p h, trans_state := DHMP_TRANSPORT_STATE_CONNECTED\<rparr>), 0))"

text \<open>The pointers of the transport keep their values, so that a second release works on freed memory.\<close>

definition dhmp_destroy_source :: "nat \<Rightarrow> rdma_proc \<Rightarrow> rdma_proc res" where
  "dhmp_destroy_source t p =
     (let r = cm_trans p t
      in if t \<in> released p \<and> (send_mr r \<noteq> None \<or> recv_mr r \<noteq> None) then Inl Use_after_free
         else if cm_id r = None then Inl Null_deref
         else
           rbind (trans_cq p t) (\<lambda>(d, fd).
             case event_channel r of
               None \<Rightarrow> Inl Null_deref
             | Some c \<Rightarrow>
                 let p1 = dhmp_context_del_event_fd (dhmp_context_del_event_fd p fd) c
                 in Inr (p1\<lparr>released := insert t (released p1), posted := (case qp r of None \<Rightarrow> posted p1 | Some q \<Rightarrow> (posted p1)(q := []))\<rparr>)))"

text \<open>The function returns at once.\<close>

definition dhmp_inform_watcher_func :: "nat option \<Rightarrow> rdma_proc \<Rightarrow> rdma_proc" where
  "dhmp_inform_watcher_func w p = p"

definition drop_connection :: "nat \<Rightarrow> cm_server \<Rightarrow> cm_server" where
  "drop_connection t s = s\<lparr>cm_connections := cm_connections s - 1, cm_clients := remove1 t (cm_clients s)\<rparr>"

definition on_cm_disconnected :: "nat \<Rightarrow> rdma_proc \<Rightarrow> (rdma_proc \<times> int) res" where
  "on_cm_disconnected t p0 =
     (let p = upd_cm p0 t (\<lambda>x. x\<lparr>trans_state := DHMP_TRANSPORT_STATE_DISCONNECTED\<rparr>)
      in rbind (case cm_srv p of
                  None \<Rightarrow> Inr p
                | Some s \<Rightarrow>
                    if cm_watcher s = Some t then Inr p
                    else
                      rbind (dhmp_destroy_source t p) (\<lambda>p1.
                        if t \<notin> set (cm_clients s) then Inl Wild_deref
                        else Inr (dhmp_inform_watcher_func (cm_watcher s) (p1\<lparr>cm_srv := Some (drop_connection t s)\<rparr>))))
           (\<lambda>p1. case cm_cli p1 of
                    None \<Rightarrow> Inr (p1, 0)
                  | Some c \<Rightarrow>
                      if cm_prepare_destroy c then rbind (dhmp_destroy_source t p1) (\<lambda>p2. Inr (p2, 0))
                      else if cm_in_recovery c then Inr (p1, 0)
                      else Inr (p1\<lparr>cm_cli := Some (c\<lparr>cm_in_recovery := True, cm_threads := cm_threads c @ [t]\<rparr>)\<rparr>, 0)))"

definition on_cm_error :: "nat \<Rightarrow> rdma_proc \<Rightarrow> (rdma_proc \<times> int) res" where
  "on_cm_error t p =
     rbind (dhmp_destroy_source t p) (\<lambda>p1.
       let p2 = upd_cm p1 t (\<lambda>x. x\<lparr>trans_state := DHMP_TRANSPORT_STATE_ERROR\<rparr>)
       in case cm_srv p2 of
            None \<Rightarrow> Inr (p2, 0)
          | Some s \<Rightarrow>
              if cm_watcher s = Some t then Inr (p2, 0)
              else if t \<notin> set (cm_clients s) then Inl Wild_deref
              else Inr (dhmp_inform_watcher_func (cm_watcher s) (p2\<lparr>cm_srv := Some (drop_connection t s)\<rparr>), 0))"

datatype cm_event_type =
    RDMA_CM_EVENT_ADDR_RESOLVED
  | RDMA_CM_EVENT_ROUTE_RESOLVED
  | RDMA_CM_EVENT_CONNECT_REQUEST
  | RDMA_CM_EVENT_ESTABLISHED
  | RDMA_CM_EVENT_DISCONNECTED
  | RDMA_CM_EVENT_CONNECT_ERROR
  | RDMA_CM_EVENT_REJECTED
  | RDMA_CM_EVENT_OTHER

text \<open>An event names an id; its transport is the context of the id.\<close>

definition dhmp_handle_ec_event :: "cm_lib \<Rightarrow> cm_event_type \<Rightarrow> nat \<Rightarrow> rdma_proc \<Rightarrow> (rdma_proc \<times> int) res" where
  "dhmp_handle_ec_event L e h p =
     (let t = id_ctx p h
      in case e of
           RDMA_CM_EVENT_ADDR_RESOLVED \<Rightarrow> on_cm_addr_resolved L t p
         | RDMA_CM_EVENT_ROUTE_RESOLVED \<Rightarrow> on_cm_route_resolved L t p
         | RDMA_CM_EVENT_CONNECT_REQUEST \<Rightarrow> on_cm_connect_request L h p
         | RDMA_CM_EVENT_ESTABLISHED \<Rightarrow> on_cm_established t p
         | RDMA_CM_EVENT_DISCONNECTED \<Rightarrow> on_cm_disconnected t p
         | RDMA_CM_EVENT_CONNECT_ERROR \<Rightarrow> on_cm_error t p
         | RDMA_CM_EVENT_REJECTED \<Rightarrow> Inr (p, 0)
         | RDMA_CM_EVENT_OTHER \<Rightarrow> Inr (p, -1))"

text \<open>The events waiting in a channel, up to the first whose handler fails; the rest stays in the channel.\<close>

fun dhmp_event_channel_handler :: "(cm_lib \<times> cm_event_type \<times> nat) list \<Rightarrow> rdma_proc \<Rightarrow>
    (rdma_proc \<times> (cm_lib \<times> cm_event_type \<times> nat) list) res" where
  "dhmp_event_channel_handler [] p = Inr (p, [])"
| "dhmp_event_channel_handler ((L, e, h) # es) p =
     rbind (dhmp_handle_ec_event L e h p) (\<lambda>(p1, r). if r \<noteq> 0 then Inr (p1, es) else dhmp_event_channel_handler es p1)"

section \<open>Reconnecting\<close>

definition reconnect :: "cm_lib \<Rightarrow> nat \<Rightarrow> rdma_proc \<Rightarrow> rdma_proc res" where
  "reconnect L t p =
     (case cm_cli p of
        None \<Rightarrow> Inl Null_deref
      | Some c \<Rightarrow>
          let p1 = upd_cm p t (\<lambda>x. x\<lparr>nvm_used_size := 0, dram_used_size := 0\<rparr>);
              (url, port) = cm_nets c (node_id (cm_trans p1 t))
          in Inr (fst (dhmp_transport_connect L t url port p1)))"

text \<open>One round of \<open>recovery_thread\<close>: another attempt, or the call of \<open>client->recovery\<close> and the end.\<close>

definition recovery_thread :: "cm_lib \<Rightarrow> nat \<Rightarrow> rdma_proc \<Rightarrow> rdma_proc res" where
  "recovery_thread L t p =
     (if trans_state (cm_trans p t) \<noteq> DHMP_TRANSPORT_STATE_CONNECTED then reconnect L t p
      else
        case cm_cli p of
          None \<Rightarrow> Inl Null_deref
        | Some c \<Rightarrow> Inr (p\<lparr>cm_cli := Some (c\<lparr>cm_recovered := node_id (cm_trans p t) # cm_recovered c, cm_in_recovery := False,
             cm_threads := remove1 t (cm_threads c)\<rparr>)\<rparr>))"

section \<open>A client's connections\<close>

text \<open>One round of the loops of \<open>dhmp_client_init\<close> that open the connections to node \<open>i\<close>.\<close>

definition create_connection :: "cm_lib \<Rightarrow> int \<Rightarrow> bool \<Rightarrow> rdma_proc \<Rightarrow> rdma_proc" where
  "create_connection L i poll p =
     (case dhmp_transport_create L p False poll of
        (p1, None) \<Rightarrow> p1
      | (p1, Some t) \<Rightarrow>
          (case cm_cli p1 of
             None \<Rightarrow> p1
           | Some c \<Rightarrow>
               let p2 = upd_cm p1 t (\<lambda>x. x\<lparr>node_id := i\<rparr>); (url, port) = cm_nets c i
               in fst (dhmp_transport_connect L t url port p2)))"

section \<open>Steps of a process\<close>

text \<open>
  Which events the RDMA stack reports for an id, by how far the connection has come: an id resolves its
  address, then its route, connects, is up, and is closed. \<open>ph\<close> is this phase of every id.
\<close>

datatype cm_phase = Ph_idle | Ph_listening | Ph_addr | Ph_route | Ph_connecting | Ph_up | Ph_closed

fun event_allowed :: "cm_event_type \<Rightarrow> cm_phase \<Rightarrow> bool" where
  "event_allowed RDMA_CM_EVENT_ADDR_RESOLVED ph = (ph = Ph_addr)"
| "event_allowed RDMA_CM_EVENT_ROUTE_RESOLVED ph = (ph = Ph_route)"
| "event_allowed RDMA_CM_EVENT_CONNECT_REQUEST ph = False"
| "event_allowed RDMA_CM_EVENT_ESTABLISHED ph = (ph = Ph_connecting)"
| "event_allowed RDMA_CM_EVENT_DISCONNECTED ph = (ph = Ph_up)"
| "event_allowed RDMA_CM_EVENT_CONNECT_ERROR ph = (ph = Ph_connecting)"
| "event_allowed RDMA_CM_EVENT_REJECTED ph = (ph = Ph_connecting)"
| "event_allowed RDMA_CM_EVENT_OTHER ph = (ph = Ph_addr \<or> ph = Ph_route \<or> ph = Ph_connecting)"

fun next_phase :: "cm_event_type \<Rightarrow> int \<Rightarrow> cm_phase" where
  "next_phase RDMA_CM_EVENT_ADDR_RESOLVED r = (if r = 0 then Ph_route else Ph_closed)"
| "next_phase RDMA_CM_EVENT_ROUTE_RESOLVED r = (if r = 0 then Ph_connecting else Ph_closed)"
| "next_phase RDMA_CM_EVENT_ESTABLISHED r = Ph_up"
| "next_phase _ r = Ph_closed"

text \<open>
  The handlers of the two resolution events go on with the transport's current id; the stack refuses that when
  it is not the one the event is for.
\<close>

definition current_id :: "rdma_proc \<Rightarrow> cm_event_type \<Rightarrow> nat \<Rightarrow> bool" where
  "current_id p e h \<longleftrightarrow> (e = RDMA_CM_EVENT_ADDR_RESOLVED \<or> e = RDMA_CM_EVENT_ROUTE_RESOLVED) \<longrightarrow>
     cm_id (cm_trans p (id_ctx p h)) = Some h"

text \<open>A new id for a connection request: it comes with its addresses and the listener's context and channel.\<close>

definition request_id :: "nat \<Rightarrow> sockaddr_in \<Rightarrow> rdma_proc \<Rightarrow> rdma_proc" where
  "request_id l peer p =
     (let h = next_handle p
      in p\<lparr>next_handle := Suc h, id_ctx := (id_ctx p)(h := id_ctx p l), id_chan := (id_chan p)(h := id_chan p l), id_dst := (id_dst p)(h := peer)\<rparr>)"

text \<open>The phase of the id that a connection attempt of \<open>t\<close> from \<open>p\<close> to \<open>p'\<close> has made, if it made one.\<close>

definition attempt_phase :: "rdma_proc \<Rightarrow> rdma_proc \<Rightarrow> nat \<Rightarrow> (nat \<Rightarrow> cm_phase) \<Rightarrow> nat \<Rightarrow> cm_phase" where
  "attempt_phase p p' t ph =
     (case cm_id (cm_trans p' t) of
        None \<Rightarrow> ph
      | Some h \<Rightarrow>
          if next_handle p \<le> h \<and> h < next_handle p' \<and> id_ctx p' h = t \<and> event_channel (cm_trans p' t) = Some (id_chan p' h) \<and>
             trans_state (cm_trans p' t) = DHMP_TRANSPORT_STATE_CONNECTING
          then ph(h := Ph_addr) else ph)"

text \<open>
  An event is handled one step after the other. The channel of the id need not be in the \<open>epoll\<close> set any more: a run of
  \<open>dhmp_event_channel_handler\<close> goes on reading the events of its channel after one of them has taken the channel out, and the
  thread goes on with the other channels \<open>epoll_wait\<close> has reported.
\<close>

inductive cm_step :: "rdma_proc \<times> (nat \<Rightarrow> cm_phase) \<Rightarrow> rdma_proc \<times> (nat \<Rightarrow> cm_phase) \<Rightarrow> bool" where
  step_event: "event_allowed e (ph h) \<Longrightarrow> dhmp_handle_ec_event L e h p = Inr (p', r) \<Longrightarrow> r \<noteq> 0 \<or> current_id p e h \<Longrightarrow>
    cm_step (p, ph) (p', ph(h := next_phase e r))"
| step_request: "ph l = Ph_listening \<Longrightarrow>
    dhmp_handle_ec_event L RDMA_CM_EVENT_CONNECT_REQUEST (next_handle p) (request_id l peer p) = Inr (p', r) \<Longrightarrow>
    cm_step (p, ph) (p', ph(next_handle p := if r = 0 then Ph_connecting else Ph_closed))"
| step_recovery: "cm_cli p = Some c \<Longrightarrow> t \<in> set (cm_threads c) \<Longrightarrow> recovery_thread L t p = Inr p' \<Longrightarrow>
    cm_step (p, ph) (p', attempt_phase p p' t ph)"
| step_connect: "cm_cli p = Some c \<Longrightarrow> create_connection L i poll p = p' \<Longrightarrow>
    cm_step (p, ph) (p', attempt_phase p p' (next_trans p) ph)"
| step_destroy: "cm_cli p = Some c \<Longrightarrow> cm_step (p, ph) (p\<lparr>cm_cli := Some (c\<lparr>cm_prepare_destroy := True\<rparr>)\<rparr>, ph)"

inductive_cases cm_step_elim: "cm_step (p, ph) (p', ph')"

lemmas cm_stepE = cm_step_elim [consumes 1, case_names event request recovery connect destroy]

section \<open>What a step leaves alone\<close>

text \<open>
  \<open>grows T X p p'\<close>: handles and transports are only added, an existing channel that is not in the \<open>epoll\<close> set does
  not come back, existing ids other than \<open>X\<close> keep context and channel, and transports outside \<open>T\<close> keep their state.
\<close>

definition grows :: "nat set \<Rightarrow> nat set \<Rightarrow> rdma_proc \<Rightarrow> rdma_proc \<Rightarrow> bool" where
  "grows T X p p' \<longleftrightarrow> next_handle p \<le> next_handle p' \<and> next_trans p \<le> next_trans p' \<and>
     (\<forall>t < next_trans p. event_channel (cm_trans p' t) = event_channel (cm_trans p t) \<and>
        (t \<notin> T \<longrightarrow> trans_state (cm_trans p' t) = trans_state (cm_trans p t))) \<and>
     (\<forall>c < next_handle p. fds p c = None \<longrightarrow> fds p' c = None) \<and>
     (\<forall>h < next_handle p. id_chan p' h = id_chan p h \<and> (h \<notin> X \<longrightarrow> id_ctx p' h = id_ctx p h))"

lemma grows_refl: "grows T X p p"
  by (simp add: grows_def)

lemma grows_trans: "grows T X p p1 \<Longrightarrow> grows T X p1 p2 \<Longrightarrow> grows T X p p2"
  unfolding grows_def by (auto dest: order_less_le_trans)

lemma grows_mono: "grows T X p p' \<Longrightarrow> T \<subseteq> T' \<Longrightarrow> X \<subseteq> X' \<Longrightarrow> grows T' X' p p'"
  unfolding grows_def by blast

lemma grows_upd:
  "(\<And>x. event_channel (f x) = event_channel x) \<Longrightarrow> (\<And>x. t \<notin> T \<Longrightarrow> trans_state (f x) = trans_state x) \<Longrightarrow> grows T X p (upd_cm p t f)"
  by (auto simp: grows_def upd_cm_def)

lemma grows_fields:
  "next_handle p' = next_handle p \<Longrightarrow> next_trans p' = next_trans p \<Longrightarrow> cm_trans p' = cm_trans p \<Longrightarrow> fds p' = fds p \<Longrightarrow>
    id_chan p' = id_chan p \<Longrightarrow> id_ctx p' = id_ctx p \<Longrightarrow> grows T X p p'"
  by (simp add: grows_def)

lemma grows_del: "grows T X p (dhmp_context_del_event_fd p fd)"
  by (simp add: grows_def dhmp_context_del_event_fd_def)

lemma grows_create: "dhmp_transport_create L p is_listen poll = (p', r) \<Longrightarrow> grows T X p p' \<and> next_trans p' = Suc (next_trans p) \<and>
    (r = None \<or> r = Some (next_trans p))"
  by (auto simp: dhmp_transport_create_def dhmp_event_channel_create_def dhmp_context_add_event_fd_def dhmp_context_del_event_fd_def
      grows_def upd_cm_def Let_def split: if_splits option.splits)

lemma grows_qp: "dhmp_qp_create L t p = Inr (p', r) \<Longrightarrow> grows T X p p'"
  by (auto simp: dhmp_qp_create_def dhmp_cq_get_def dhmp_context_add_event_fd_def dhmp_context_del_event_fd_def grows_def upd_cm_def Let_def
      split: if_splits)

lemma grows_release: "dhmp_qp_release t p = Inr p' \<Longrightarrow> grows T X p p'"
  by (auto simp: dhmp_qp_release_def trans_cq_def dhmp_context_del_event_fd_def grows_def upd_cm_def Let_def res_simps
      split: option.splits)

lemma grows_post: "dhmp_post_recv t off p = Inr p' \<Longrightarrow> grows T X p p'"
  by (auto simp: dhmp_post_recv_def Let_def res_simps grows_def split: if_splits option.splits)

lemma grows_posts: "post_recvs t offs p = Inr p' \<Longrightarrow> grows T X p p'"
  by (induction offs arbitrary: p) (auto simp: res_simps intro: grows_refl grows_trans grows_post)

lemma grows_post_all: "dhmp_post_all_recv t p = Inr p' \<Longrightarrow> grows T X p p'"
  unfolding dhmp_post_all_recv_def Let_def by (rule grows_posts)

lemma destroy_cases:
  assumes "dhmp_destroy_source t p = Inr p'"
  obtains d fd c where "trans_cq p t = Inr (d, fd)" "event_channel (cm_trans p t) = Some c" "cm_id (cm_trans p t) \<noteq> None"
    "t \<notin> released p \<or> send_mr (cm_trans p t) = None \<and> recv_mr (cm_trans p t) = None"
    "p' = p\<lparr>fds := (fds p)(fd := None, c := None), released := insert t (released p),
       posted := (case qp (cm_trans p t) of None \<Rightarrow> posted p | Some q \<Rightarrow> (posted p)(q := []))\<rparr>"
  using assms
  by (cases "event_channel (cm_trans p t)"; cases "qp (cm_trans p t)")
    (auto simp: dhmp_destroy_source_def Let_def res_simps dhmp_context_del_event_fd_def split: if_splits)

lemma grows_destroy: "dhmp_destroy_source t p = Inr p' \<Longrightarrow> grows T X p p'"
  by (erule destroy_cases) (auto simp: grows_def)

lemma grows_connect: "t \<in> T \<Longrightarrow> dhmp_transport_connect L t url port p = (p', r) \<Longrightarrow> grows T X p p'"
  by (auto simp: dhmp_transport_connect_def dhmp_port_uri_transfer_def new_cm_id_def grows_def upd_cm_def Let_def split: if_splits option.splits prod.splits)

text \<open>The globals \<open>server\<close> and \<open>client\<close> are touched by the handlers themselves only.\<close>

definition same_globals :: "rdma_proc \<Rightarrow> rdma_proc \<Rightarrow> bool" where
  "same_globals p p' \<longleftrightarrow> cm_cli p' = cm_cli p \<and> cm_srv p' = cm_srv p"

lemma globals_trans: "same_globals p p1 \<Longrightarrow> same_globals p1 p2 \<Longrightarrow> same_globals p p2"
  by (simp add: same_globals_def)

lemma globals_create: "dhmp_transport_create L p is_listen poll = (p', r) \<Longrightarrow> same_globals p p'"
  by (auto simp: dhmp_transport_create_def dhmp_event_channel_create_def dhmp_context_add_event_fd_def dhmp_context_del_event_fd_def
      same_globals_def upd_cm_def Let_def split: if_splits option.splits)

lemma globals_qp: "dhmp_qp_create L t p = Inr (p', r) \<Longrightarrow> same_globals p p'"
  by (auto simp: dhmp_qp_create_def dhmp_cq_get_def dhmp_context_add_event_fd_def dhmp_context_del_event_fd_def same_globals_def upd_cm_def Let_def
      split: if_splits)

lemma globals_release: "dhmp_qp_release t p = Inr p' \<Longrightarrow> same_globals p p'"
  by (auto simp: dhmp_qp_release_def trans_cq_def dhmp_context_del_event_fd_def same_globals_def upd_cm_def Let_def res_simps
      split: option.splits)

lemma globals_posts: "post_recvs t offs p = Inr p' \<Longrightarrow> same_globals p p'"
  by (induction offs arbitrary: p) (fastforce simp: dhmp_post_recv_def Let_def res_simps same_globals_def split: if_splits option.splits)+

lemma globals_post_all: "dhmp_post_all_recv t p = Inr p' \<Longrightarrow> same_globals p p'"
  unfolding dhmp_post_all_recv_def Let_def by (rule globals_posts)

lemma globals_destroy: "dhmp_destroy_source t p = Inr p' \<Longrightarrow> same_globals p p'"
  by (erule destroy_cases) (auto simp: same_globals_def)

lemma globals_connect: "dhmp_transport_connect L t url port p = (p', r) \<Longrightarrow> same_globals p p'"
  by (auto simp: dhmp_transport_connect_def dhmp_port_uri_transfer_def new_cm_id_def same_globals_def upd_cm_def Let_def
      split: if_splits option.splits prod.splits)

lemma route_resolved_frame:
  assumes "on_cm_route_resolved L t p = Inr (p', r)"
  shows "grows {t} X p p'" "same_globals p p'"
proof -
  from assms obtain p1 r1 where q: "dhmp_qp_create L t p = Inr (p1, r1)" by (auto simp: on_cm_route_resolved_def res_simps)
  note g = grows_qp[OF q] and s = globals_qp[OF q]
  have "grows {t} X p1 p' \<and> same_globals p1 p'"
  proof -
    consider "r1 \<noteq> 0" | "r1 = 0" "lib_connect L = 0" | "r1 = 0" "lib_connect L \<noteq> 0" by blast
    then show ?thesis
  proof cases
    case 1
    then show ?thesis using assms q by (simp add: on_cm_route_resolved_def grows_refl same_globals_def)
  next
    case 2
    then have "dhmp_post_all_recv t p1 = Inr p'" using assms q by (auto simp: on_cm_route_resolved_def res_simps)
    then show ?thesis by (simp add: grows_post_all globals_post_all)
  next
    case 3
    then obtain p2 where r: "dhmp_qp_release t p1 = Inr p2" "p' = (upd_cm p2 t (\<lambda>x. x\<lparr>trans_state := DHMP_TRANSPORT_STATE_ERROR\<rparr>))\<lparr>ctx_stop := True\<rparr>"
      using assms q by (auto simp: on_cm_route_resolved_def res_simps)
    have "grows {t} X p2 p'" unfolding r(2) by (rule grows_trans[OF grows_upd[of _ t] grows_fields]) simp_all
    moreover have "same_globals p2 p'" unfolding r(2) by (simp add: same_globals_def upd_cm_def)
    ultimately show ?thesis using grows_release[OF r(1)] globals_release[OF r(1)] by (blast intro: grows_trans globals_trans)
  qed
  qed
  then show "grows {t} X p p'" "same_globals p p'" using g s by (blast intro: grows_trans globals_trans)+
qed

lemma grows_new: "grows (insert k T) X p p' \<Longrightarrow> next_trans p \<le> k \<Longrightarrow> grows T X p p'"
  unfolding grows_def by auto

text \<open>A connection request either ends early, after creating its transport and queue pair, or goes through.\<close>

lemma connect_request_cases:
  assumes "on_cm_connect_request L h p = Inr (p', r)"
  obtains normal p1 o1 where "dhmp_is_exist_connection p (id_dst p h) = Inr normal"
      "dhmp_transport_create L p False (normal \<noteq> None) = (p1, o1)" "o1 = None" "p' = p1" "r = -1"
  | normal p1 n p2 p3 rq where "dhmp_is_exist_connection p (id_dst p h) = Inr normal"
      "dhmp_transport_create L p False (normal \<noteq> None) = (p1, Some n)" "n = next_trans p"
      "p2 = (upd_cm p1 n (\<lambda>x. x\<lparr>link_trans := None, cm_id := Some h\<rparr>))\<lparr>id_ctx := (id_ctx p1)(h := n)\<rparr>"
      "dhmp_qp_create L n p2 = Inr (p3, rq)" "rq \<noteq> 0" "p' = p3" "r = rq"
  | normal p1 n p2 p3 p4 where "dhmp_is_exist_connection p (id_dst p h) = Inr normal"
      "dhmp_transport_create L p False (normal \<noteq> None) = (p1, Some n)" "n = next_trans p"
      "p2 = (upd_cm p1 n (\<lambda>x. x\<lparr>link_trans := None, cm_id := Some h\<rparr>))\<lparr>id_ctx := (id_ctx p1)(h := n)\<rparr>"
      "dhmp_qp_create L n p2 = Inr (p3, 0)"
      "p4 = link_connections normal n (p3\<lparr>cm_srv := map_option (enlist_connection n) (cm_srv p3)\<rparr>)"
      "lib_accept L \<noteq> 0 \<and> p' = p4 \<and> r = -1 \<or>
       lib_accept L = 0 \<and> r = 0 \<and> dhmp_post_all_recv n (upd_cm p4 n (\<lambda>x. x\<lparr>trans_state := DHMP_TRANSPORT_STATE_CONNECTING\<rparr>)) = Inr p'"
proof -
  from assms obtain normal where n: "dhmp_is_exist_connection p (id_dst p h) = Inr normal"
    by (auto simp: on_cm_connect_request_def res_simps)
  obtain p1 o1 where c: "dhmp_transport_create L p False (normal \<noteq> None) = (p1, o1)" by fastforce
  show thesis
  proof (cases o1)
    case None
    then show thesis using that(1)[OF n c] assms n c by (simp add: on_cm_connect_request_def)
  next
    case (Some k)
    define p2 where "p2 = (upd_cm p1 k (\<lambda>x. x\<lparr>link_trans := None, cm_id := Some h\<rparr>))\<lparr>id_ctx := (id_ctx p1)(h := k)\<rparr>"
    have c': "dhmp_transport_create L p False (normal \<noteq> None) = (p1, Some k)" using c Some by simp
    have k: "k = next_trans p" using grows_create[OF c'] by simp
    from assms obtain p3 rq where q: "dhmp_qp_create L k p2 = Inr (p3, rq)"
      using n c' unfolding on_cm_connect_request_def by (auto simp: res_simps Let_def p2_def)
    show thesis
    proof (cases "rq = 0")
      case False
      then show thesis using that(2)[OF n c' k p2_def q] assms n c' q unfolding on_cm_connect_request_def by (simp add: Let_def p2_def[symmetric])
    next
      case True
      then have q0: "dhmp_qp_create L k p2 = Inr (p3, 0)" using q by simp
      have "lib_accept L \<noteq> 0 \<and> p' = link_connections normal k (p3\<lparr>cm_srv := map_option (enlist_connection k) (cm_srv p3)\<rparr>) \<and> r = -1 \<or>
          lib_accept L = 0 \<and> r = 0 \<and> dhmp_post_all_recv k (upd_cm (link_connections normal k
            (p3\<lparr>cm_srv := map_option (enlist_connection k) (cm_srv p3)\<rparr>)) k (\<lambda>x. x\<lparr>trans_state := DHMP_TRANSPORT_STATE_CONNECTING\<rparr>)) = Inr p'"
        using assms n c' q0 unfolding on_cm_connect_request_def by (auto simp: Let_def p2_def[symmetric] res_simps split: if_splits)
      then show thesis by (rule that(3)[OF n c' k p2_def q0 refl])
    qed
  qed
qed

lemma link_simps [simp]:
  "cm_srv (link_connections m n p) = cm_srv p" "cm_cli (link_connections m n p) = cm_cli p"
  by (cases m; simp add: link_connections_def upd_cm_def)+

lemma grows_link: "grows T X p (link_connections m n p)"
  by (cases m) (auto simp: link_connections_def grows_def upd_cm_def)

lemma connect_request_frame:
  assumes "on_cm_connect_request L h p = Inr (p', r)"
  shows "grows {} {h} p p'" "cm_cli p' = cm_cli p"
proof -
  have "grows {} {h} p p' \<and> cm_cli p' = cm_cli p"
    using assms
  proof (cases rule: connect_request_cases)
    case (1 normal p1 o1)
    then show ?thesis using grows_create[OF 1(2)] globals_create[OF 1(2)] by (simp add: same_globals_def)
  next
    case (2 normal p1 n p2 p3 rq)
    have "grows {} {h} p p1" "cm_cli p1 = cm_cli p" using grows_create[OF 2(2)] globals_create[OF 2(2)] by (simp_all add: same_globals_def)
    moreover have "grows {} {h} p1 p2" "cm_cli p2 = cm_cli p1" by (simp_all add: 2(4) grows_def upd_cm_def)
    moreover have "grows {} {h} p2 p3" "cm_cli p3 = cm_cli p2" using grows_qp[OF 2(5)] globals_qp[OF 2(5)] by (simp_all add: same_globals_def)
    ultimately show ?thesis using 2(7) by (metis grows_trans)
  next
    case (3 normal p1 n p2 p3 p4)
    let ?p5 = "upd_cm p4 n (\<lambda>x. x\<lparr>trans_state := DHMP_TRANSPORT_STATE_CONNECTING\<rparr>)"
    have "grows {n} {h} p p1" "cm_cli p1 = cm_cli p" using grows_create[OF 3(2)] globals_create[OF 3(2)] by (simp_all add: same_globals_def)
    moreover have "grows {n} {h} p1 p2" "cm_cli p2 = cm_cli p1" by (simp_all add: 3(4) grows_def upd_cm_def)
    moreover have "grows {n} {h} p2 p3" "cm_cli p3 = cm_cli p2" using grows_qp[OF 3(5)] globals_qp[OF 3(5)] by (simp_all add: same_globals_def)
    moreover have "grows {n} {h} p3 p4" "cm_cli p4 = cm_cli p3"
      unfolding 3(6) by (rule grows_trans[OF grows_fields grows_link]) simp_all
    moreover have "grows {n} {h} p4 ?p5" "cm_cli ?p5 = cm_cli p4" by (auto simp: upd_cm_def[of p4] intro: grows_upd[unfolded upd_cm_def])
    moreover have "p' = p4 \<or> grows {n} {h} ?p5 p' \<and> cm_cli p' = cm_cli ?p5"
      using 3(7) grows_post_all[of n ?p5 p'] globals_post_all[of n ?p5 p'] by (auto simp: same_globals_def)
    ultimately have "grows {n} {h} p p'" "cm_cli p' = cm_cli p" by (metis grows_trans)+
    then show ?thesis using grows_new[of n "{}" "{h}" p p'] 3(3) by simp
  qed
  then show "grows {} {h} p p'" "cm_cli p' = cm_cli p" by blast+
qed

text \<open>The handlers of established, ended and failed connections.\<close>

lemma destroy_trans: "dhmp_destroy_source t p = Inr p' \<Longrightarrow> cm_trans p' = cm_trans p"
  by (erule destroy_cases) simp

lemma disconnected_cases:
  assumes "on_cm_disconnected t p = Inr (p', r)"
  obtains p1 where "grows {t} X p p1" "cm_cli p1 = cm_cli p" "trans_state (cm_trans p1 t) = DHMP_TRANSPORT_STATE_DISCONNECTED" "cm_cli p = None" "p' = p1"
  | p1 p2 c where "grows {t} X p p1" "cm_cli p1 = cm_cli p" "trans_state (cm_trans p1 t) = DHMP_TRANSPORT_STATE_DISCONNECTED" "cm_cli p = Some c" "cm_prepare_destroy c" "dhmp_destroy_source t p1 = Inr p2" "p' = p2"
  | p1 c where "grows {t} X p p1" "cm_cli p1 = cm_cli p" "trans_state (cm_trans p1 t) = DHMP_TRANSPORT_STATE_DISCONNECTED" "cm_cli p = Some c" "\<not> cm_prepare_destroy c" "cm_in_recovery c" "p' = p1"
  | p1 c where "grows {t} X p p1" "cm_cli p1 = cm_cli p" "trans_state (cm_trans p1 t) = DHMP_TRANSPORT_STATE_DISCONNECTED" "cm_cli p = Some c" "\<not> cm_prepare_destroy c" "\<not> cm_in_recovery c"
      "p' = p1\<lparr>cm_cli := Some (c\<lparr>cm_in_recovery := True, cm_threads := cm_threads c @ [t]\<rparr>)\<rparr>"
proof -
  let ?p = "upd_cm p t (\<lambda>x. x\<lparr>trans_state := DHMP_TRANSPORT_STATE_DISCONNECTED\<rparr>)"
  have g: "grows {t} X p ?p" by (rule grows_upd) simp_all
  have cli: "cm_cli ?p = cm_cli p" by (simp add: upd_cm_def)
  let ?srv = "case cm_srv ?p of None \<Rightarrow> Inr ?p
    | Some s \<Rightarrow> if cm_watcher s = Some t then Inr ?p
        else rbind (dhmp_destroy_source t ?p) (\<lambda>p1. if t \<notin> set (cm_clients s) then Inl Wild_deref
               else Inr (dhmp_inform_watcher_func (cm_watcher s) (p1\<lparr>cm_srv := Some (drop_connection t s)\<rparr>)))"
  from assms obtain p1 where p1: "?srv = Inr p1" by (auto simp: on_cm_disconnected_def Let_def res_simps)
  have "grows {t} X ?p p1 \<and> cm_cli p1 = cm_cli ?p \<and> trans_state (cm_trans p1 t) = trans_state (cm_trans ?p t)"
  proof (cases "?p = p1")
    case False
    with p1 obtain s p2 where d: "dhmp_destroy_source t ?p = Inr p2" "p1 = p2\<lparr>cm_srv := Some (drop_connection t s)\<rparr>"
      by (auto simp: res_simps dhmp_inform_watcher_func_def split: option.splits if_splits)
    have "grows {t} X p2 p1" unfolding d(2) by (rule grows_fields) simp_all
    then show ?thesis using grows_destroy[OF d(1)] globals_destroy[OF d(1)] destroy_trans[OF d(1)] d(2) by (auto simp: same_globals_def intro: grows_trans)
  qed (simp add: grows_refl)
  then have f: "grows {t} X p p1" "cm_cli p1 = cm_cli p" "trans_state (cm_trans p1 t) = DHMP_TRANSPORT_STATE_DISCONNECTED" using g cli grows_trans by (auto simp: upd_cm_def)
  have rest: "rbind (Inr p1) (\<lambda>p1. case cm_cli p1 of
                    None \<Rightarrow> Inr (p1, 0)
                  | Some c \<Rightarrow>
                      if cm_prepare_destroy c then rbind (dhmp_destroy_source t p1) (\<lambda>p2. Inr (p2, 0))
                      else if cm_in_recovery c then Inr (p1, 0)
                      else Inr (p1\<lparr>cm_cli := Some (c\<lparr>cm_in_recovery := True, cm_threads := cm_threads c @ [t]\<rparr>)\<rparr>, 0)) = Inr (p', r)"
    using assms unfolding on_cm_disconnected_def Let_def p1 .
  show thesis
  proof (cases "cm_cli p")
    case None
    then show thesis using that(1)[OF f None] rest f(2) by simp
  next
    case (Some c)
    consider "cm_prepare_destroy c" | "\<not> cm_prepare_destroy c" "cm_in_recovery c" | "\<not> cm_prepare_destroy c" "\<not> cm_in_recovery c" by blast
    then show thesis
    proof cases
      case 1
      then show thesis using that(2)[OF f Some 1] rest f(2) Some by (auto simp: res_simps)
    next
      case 2
      then show thesis using that(3)[OF f Some 2] rest f(2) Some by simp
    next
      case 3
      then show thesis using that(4)[OF f Some 3] rest f(2) Some by simp
    qed
  qed
qed

lemma cm_error_frame:
  assumes "on_cm_error t p = Inr (p', r)"
  shows "grows {t} X p p'" "cm_cli p' = cm_cli p"
proof -
  from assms obtain p1 where d: "dhmp_destroy_source t p = Inr p1" by (auto simp: on_cm_error_def res_simps)
  let ?p2 = "upd_cm p1 t (\<lambda>x. x\<lparr>trans_state := DHMP_TRANSPORT_STATE_ERROR\<rparr>)"
  have g: "grows {t} X p1 ?p2" by (rule grows_upd) simp_all
  have "\<exists>s. p' = ?p2\<lparr>cm_srv := s\<rparr>"
    using assms d by (auto simp: on_cm_error_def res_simps Let_def dhmp_inform_watcher_func_def split: option.splits if_splits intro: exI[of _ "cm_srv ?p2"])
  then obtain s where s: "p' = ?p2\<lparr>cm_srv := s\<rparr>" by blast
  have "grows {t} X ?p2 p'" unfolding s by (rule grows_fields) simp_all
  then show "grows {t} X p p'" using grows_destroy[OF d] g by (blast intro: grows_trans)
  show "cm_cli p' = cm_cli p" using globals_destroy[OF d] by (simp add: s same_globals_def upd_cm_def)
qed

lemma established_frame:
  assumes "on_cm_established t p = Inr (p', r)"
  shows "grows {t} X p p'" "cm_cli p' = cm_cli p"
  using assms by (auto simp: on_cm_established_def upd_cm_def split: option.splits intro!: grows_upd[unfolded upd_cm_def])

lemma event_frame:
  assumes "dhmp_handle_ec_event L e h p = Inr (p', r)" "e \<noteq> RDMA_CM_EVENT_CONNECT_REQUEST"
  shows "grows {id_ctx p h} {} p p'" "e \<noteq> RDMA_CM_EVENT_DISCONNECTED \<Longrightarrow> cm_cli p' = cm_cli p"
proof -
  have "grows {id_ctx p h} {} p p' \<and> (e \<noteq> RDMA_CM_EVENT_DISCONNECTED \<longrightarrow> cm_cli p' = cm_cli p)"
  proof (cases e)
    case RDMA_CM_EVENT_ROUTE_RESOLVED
    then have "on_cm_route_resolved L (id_ctx p h) p = Inr (p', r)" using assms(1) by (simp add: dhmp_handle_ec_event_def)
    from route_resolved_frame[OF this] show ?thesis by (simp add: same_globals_def)
  next
    case RDMA_CM_EVENT_ESTABLISHED
    then have "on_cm_established (id_ctx p h) p = Inr (p', r)" using assms(1) by (simp add: dhmp_handle_ec_event_def)
    from established_frame[OF this] show ?thesis by simp
  next
    case RDMA_CM_EVENT_DISCONNECTED
    then have d: "on_cm_disconnected (id_ctx p h) p = Inr (p', r)" using assms(1) by (simp add: dhmp_handle_ec_event_def)
    have "grows {id_ctx p h} {} p p'"
      by (rule disconnected_cases[OF d, where X = "{}"]) (auto intro: grows_trans grows_destroy grows_trans[OF _ grows_fields])
    then show ?thesis using RDMA_CM_EVENT_DISCONNECTED by simp
  next
    case RDMA_CM_EVENT_CONNECT_ERROR
    then have "on_cm_error (id_ctx p h) p = Inr (p', r)" using assms(1) by (simp add: dhmp_handle_ec_event_def)
    from cm_error_frame[OF this] show ?thesis by simp
  qed (use assms in \<open>auto simp: dhmp_handle_ec_event_def on_cm_addr_resolved_def grows_refl split: if_splits\<close>)
  then show "grows {id_ctx p h} {} p p'" "e \<noteq> RDMA_CM_EVENT_DISCONNECTED \<Longrightarrow> cm_cli p' = cm_cli p" by blast+
qed

lemma grows_new_id: "grows T (insert x X) p p' \<Longrightarrow> next_handle p \<le> x \<Longrightarrow> grows T X p p'"
  unfolding grows_def by auto

lemma request_frame:
  assumes "dhmp_handle_ec_event L RDMA_CM_EVENT_CONNECT_REQUEST (next_handle p) (request_id l peer p) = Inr (p', r)"
  shows "grows {} {} p p'" "cm_cli p' = cm_cli p" "next_handle p < next_handle p'"
proof -
  let ?p = "request_id l peer p"
  have c: "on_cm_connect_request L (next_handle p) ?p = Inr (p', r)" using assms by (simp add: dhmp_handle_ec_event_def)
  note f = connect_request_frame[OF c]
  have g: "grows {} {next_handle p} p ?p" "next_handle ?p = Suc (next_handle p)" by (simp_all add: grows_def request_id_def Let_def)
  show "grows {} {} p p'" using grows_new_id[of "{}" "next_handle p" "{}" p p'] grows_trans[OF g(1) f(1)] by simp
  show "cm_cli p' = cm_cli p" using f(2) by (simp add: request_id_def Let_def)
  show "next_handle p < next_handle p'" using f(1) g(2) by (simp add: grows_def)
qed

lemma connect_state:
  assumes "dhmp_transport_connect L t url port p = (p', r)"
  shows "trans_state (cm_trans p' t) = trans_state (cm_trans p t) \<or> trans_state (cm_trans p' t) = DHMP_TRANSPORT_STATE_CONNECTING"
  using assms by (auto simp: dhmp_transport_connect_def dhmp_port_uri_transfer_def new_cm_id_def upd_cm_def Let_def split: if_splits option.splits prod.splits)

lemma reconnect_frame:
  assumes "reconnect L t p = Inr p'"
  shows "grows {t} X p p'" "same_globals p p'"
    "trans_state (cm_trans p' t) = trans_state (cm_trans p t) \<or> trans_state (cm_trans p' t) = DHMP_TRANSPORT_STATE_CONNECTING"
proof -
  from assms obtain c where c: "cm_cli p = Some c" by (auto simp: reconnect_def split: option.splits)
  let ?p = "upd_cm p t (\<lambda>x. x\<lparr>nvm_used_size := 0, dram_used_size := 0\<rparr>)"
  obtain url port where u: "cm_nets c (node_id (cm_trans ?p t)) = (url, port)" by fastforce
  obtain r where d: "dhmp_transport_connect L t url port ?p = (p', r)"
    using assms c u by (cases "dhmp_transport_connect L t url port ?p") (auto simp: reconnect_def Let_def)
  have g: "grows {t} X p ?p" by (rule grows_upd) simp_all
  show "grows {t} X p p'" by (rule grows_trans[OF g grows_connect[OF _ d]]) simp
  show "same_globals p p'" using globals_connect[OF d] by (simp add: same_globals_def upd_cm_def)
  show "trans_state (cm_trans p' t) = trans_state (cm_trans p t) \<or> trans_state (cm_trans p' t) = DHMP_TRANSPORT_STATE_CONNECTING"
    using connect_state[OF d] by (simp add: upd_cm_def)
qed

lemma create_frame:
  assumes "create_connection L i poll p = p'"
  shows "grows {} X p p'" "same_globals p p'"
proof -
  obtain p1 o1 where c: "dhmp_transport_create L p False poll = (p1, o1)" by fastforce
  note g1 = grows_create[OF c, of "{next_trans p}" X] and s1 = globals_create[OF c]
  have "grows {next_trans p} X p p' \<and> same_globals p p'"
  proof (cases "o1 = None \<or> cm_cli p1 = None")
    case True
    then show ?thesis using assms c g1 s1 by (auto simp: create_connection_def split: option.splits)
  next
    case False
    then obtain t cl where t: "o1 = Some t" "cm_cli p1 = Some cl" "t = next_trans p" using g1 by auto
    obtain url port where u: "cm_nets cl i = (url, port)" by fastforce
    let ?p2 = "upd_cm p1 t (\<lambda>x. x\<lparr>node_id := i\<rparr>)"
    obtain r where d: "dhmp_transport_connect L t url port ?p2 = (p', r)"
      using assms c t(1,2) u by (cases "dhmp_transport_connect L t url port ?p2") (auto simp: create_connection_def Let_def)
    have "grows {t} X p1 ?p2" by (rule grows_upd) simp_all
    then show ?thesis using g1 s1 grows_connect[OF _ d, of "{t}"] globals_connect[OF d] t(3)
      by (auto simp: same_globals_def upd_cm_def intro: grows_trans)
  qed
  then show "grows {} X p p'" "same_globals p p'" using grows_new[of "next_trans p" "{}" X p p'] by simp_all
qed

section \<open>Transports that no event reaches any more\<close>

definition live :: "cm_phase \<Rightarrow> bool" where
  "live x \<longleftrightarrow> x = Ph_addr \<or> x = Ph_route \<or> x = Ph_connecting \<or> x = Ph_up"

definition env_ok :: "rdma_proc \<Rightarrow> (nat \<Rightarrow> cm_phase) \<Rightarrow> bool" where
  "env_ok p ph \<longleftrightarrow> (\<forall>h. live (ph h) \<longrightarrow> h < next_handle p)"

lemma allowed_live: "event_allowed e x \<Longrightarrow> live x"
  by (cases e) (auto simp: live_def)

text \<open>\<open>ids_satisfy P\<close>: every live id satisfies \<open>P\<close> of its transport and its channel.\<close>

definition ids_satisfy :: "(nat \<Rightarrow> nat \<Rightarrow> bool) \<Rightarrow> rdma_proc \<Rightarrow> (nat \<Rightarrow> cm_phase) \<Rightarrow> bool" where
  "ids_satisfy P p ph \<longleftrightarrow> env_ok p ph \<and> (\<forall>h. live (ph h) \<longrightarrow> P (id_ctx p h) (id_chan p h))"

lemma ids_satisfy_event:
  assumes "ids_satisfy P p ph" "grows T {} p p'" "live (ph h)"
  shows "ids_satisfy P p' (ph(h := x))"
  using assms unfolding ids_satisfy_def env_ok_def grows_def by (auto simp: less_le_trans)

lemma ids_satisfy_new:
  assumes "ids_satisfy P p ph" "grows T {} p p'" "h < next_handle p'" "live x \<Longrightarrow> P (id_ctx p' h) (id_chan p' h)"
  shows "ids_satisfy P p' (ph(h := x))"
  using assms unfolding ids_satisfy_def env_ok_def grows_def by (auto simp: less_le_trans)

lemma ids_satisfy_same: "ids_satisfy P p ph \<Longrightarrow> grows T {} p p' \<Longrightarrow> ids_satisfy P p' ph"
  unfolding ids_satisfy_def env_ok_def grows_def by (auto simp: less_le_trans)

lemma ids_satisfy_attempt:
  assumes "ids_satisfy P p ph" "grows T {} p p'" "\<And>c. event_channel (cm_trans p' t) = Some c \<Longrightarrow> P t c"
  shows "ids_satisfy P p' (attempt_phase p p' t ph)"
proof (cases "cm_id (cm_trans p' t)")
  case None
  then show ?thesis using ids_satisfy_same[OF assms(1,2)] by (simp add: attempt_phase_def)
next
  case (Some h)
  then show ?thesis using ids_satisfy_same[OF assms(1,2)] ids_satisfy_new[OF assms(1,2), of h Ph_addr] assms(3)
    by (auto simp: attempt_phase_def)
qed

lemma request_context:
  assumes "dhmp_handle_ec_event L RDMA_CM_EVENT_CONNECT_REQUEST (next_handle p) (request_id l peer p) = Inr (p', 0)"
  shows "id_ctx p' (next_handle p) = next_trans p"
proof -
  let ?p = "request_id l peer p" and ?h = "next_handle p"
  have h: "?h < next_handle ?p" "next_trans ?p = next_trans p" by (simp_all add: request_id_def Let_def)
  have c: "on_cm_connect_request L ?h ?p = Inr (p', 0)" using assms by (simp add: dhmp_handle_ec_event_def)
  then show ?thesis
  proof (cases rule: connect_request_cases)
    case (3 normal p1 n p2 p3 p4)
    let ?p5 = "upd_cm p4 n (\<lambda>x. x\<lparr>trans_state := DHMP_TRANSPORT_STATE_CONNECTING\<rparr>)"
    have "grows {n} {} p3 p4" unfolding 3(6) by (rule grows_trans[OF grows_fields grows_link]) simp_all
    moreover have "grows {n} {} p4 ?p5" by (rule grows_upd) simp_all
    moreover have "grows {n} {} ?p5 p'" using 3(7) by (auto intro: grows_post_all)
    ultimately have "grows {n} {} p2 p'" using grows_qp[OF 3(5), of "{n}" "{}"] by (blast intro: grows_trans)
    moreover have "?h < next_handle p2" using grows_create[OF 3(2), of "{}" "{}"] h(1) by (simp add: 3(4) upd_cm_def grows_def)
    ultimately have "id_ctx p' ?h = id_ctx p2 ?h" by (simp add: grows_def)
    then show ?thesis using 3(3,4) h(2) by simp
  qed simp_all
qed

text \<open>A transport in state \<open>st\<close> that has no live id and no recovery thread; it stays in that state.\<close>

definition lost :: "dhmp_transport_state \<Rightarrow> nat \<Rightarrow> rdma_proc \<Rightarrow> (nat \<Rightarrow> cm_phase) \<Rightarrow> bool" where
  "lost st t p ph \<longleftrightarrow> trans_state (cm_trans p t) = st \<and> t < next_trans p \<and>
     ids_satisfy (\<lambda>t' c'. t' \<noteq> t) p ph \<and> (\<forall>cl. cm_cli p = Some cl \<longrightarrow> t \<notin> set (cm_threads cl))"

lemma lost_step:
  assumes "cm_step (p, ph) (p', ph')" "lost st t p ph"
  shows "lost st t p' ph'"
proof -
  note d = assms(2)[unfolded lost_def]
  have keep: "lost st t p' ph'" if "grows T {} p p'" "t \<notin> T" "ids_satisfy (\<lambda>t' c'. t' \<noteq> t) p' ph'"
      "\<And>cl'. cm_cli p' = Some cl' \<Longrightarrow> \<exists>cl. cm_cli p = Some cl \<and> set (cm_threads cl') \<subseteq> set (cm_threads cl) \<union> T" for T
    using that d unfolding lost_def grows_def by fastforce
  show ?thesis
    using assms(1)
  proof (cases rule: cm_stepE)
    case (event e h L r)
    have lv: "live (ph h)" by (rule allowed_live[OF event(2)])
    have ne: "t \<notin> {id_ctx p h}" using d lv by (auto simp: ids_satisfy_def)
    have req: "e \<noteq> RDMA_CM_EVENT_CONNECT_REQUEST" using event(2) by auto
    note f = event_frame[OF event(3) req]
    have "\<exists>cl. cm_cli p = Some cl \<and> set (cm_threads cl') \<subseteq> set (cm_threads cl) \<union> {id_ctx p h}" if "cm_cli p' = Some cl'" for cl'
    proof (cases "e = RDMA_CM_EVENT_DISCONNECTED")
      case True
      then have dc: "on_cm_disconnected (id_ctx p h) p = Inr (p', r)" using event(3) by (simp add: dhmp_handle_ec_event_def)
      show ?thesis by (rule disconnected_cases[OF dc, where X = "{}"]) (use that globals_destroy in \<open>auto simp: same_globals_def\<close>)
    next
      case False
      then have "cm_cli p = Some cl'" using f(2) that by simp
      then show ?thesis by auto
    qed
    moreover have "ids_satisfy (\<lambda>t' c'. t' \<noteq> t) p' ph'"
      unfolding event(1) by (rule ids_satisfy_event[OF _ f(1)]) (use d lv in blast)+
    ultimately show ?thesis using keep[OF f(1) ne] by blast
  next
    case (request l L peer r)
    note f = request_frame[OF request(3)]
    have "ids_satisfy (\<lambda>t' c'. t' \<noteq> t) p' ph'"
      unfolding request(1)
    proof (rule ids_satisfy_new[OF _ f(1,3)])
      assume "live (if r = 0 then Ph_connecting else Ph_closed)"
      then have "id_ctx p' (next_handle p) = next_trans p" using request_context[of L p l peer p'] request(3) by (simp add: live_def split: if_splits)
      then show "id_ctx p' (next_handle p) \<noteq> t" using d by simp
    qed (use d in blast)
    then show ?thesis using keep[OF f(1)] f(2) by simp
  next
    case (recovery cl t' L)
    have ne: "t' \<noteq> t" using recovery(2,3) d by auto
    have "grows {t'} {} p p' \<and> (\<forall>cl'. cm_cli p' = Some cl' \<longrightarrow> set (cm_threads cl') \<subseteq> set (cm_threads cl))"
    proof (cases "trans_state (cm_trans p t') = DHMP_TRANSPORT_STATE_CONNECTED")
      case True
      then have e: "p' = p\<lparr>cm_cli := Some (cl\<lparr>cm_recovered := node_id (cm_trans p t') # cm_recovered cl, cm_in_recovery := False,
             cm_threads := remove1 t' (cm_threads cl)\<rparr>)\<rparr>" using recovery(2,4) by (simp add: recovery_thread_def)
      have "grows {t'} {} p p'" unfolding e by (rule grows_fields) simp_all
      then show ?thesis by (auto simp: e dest: notin_set_remove1 set_mp[OF set_remove1_subset])
    next
      case False
      then have "reconnect L t' p = Inr p'" using recovery(4) by (simp add: recovery_thread_def)
      from reconnect_frame(1,2)[OF this] show ?thesis using recovery(2) by (auto simp: same_globals_def)
    qed
    then have f: "grows {t'} {} p p'" "\<And>cl'. cm_cli p' = Some cl' \<Longrightarrow> set (cm_threads cl') \<subseteq> set (cm_threads cl)" by blast+
    have "ids_satisfy (\<lambda>t' c'. t' \<noteq> t) p' ph'"
      unfolding recovery(1) by (rule ids_satisfy_attempt[OF _ f(1)]) (use d ne in auto)
    then show ?thesis using keep[OF f(1)] f(2) ne recovery(2) by blast
  next
    case (connect cl L i poll)
    note f = create_frame[OF connect(3)]
    have "ids_satisfy (\<lambda>t' c'. t' \<noteq> t) p' ph'"
      unfolding connect(1) by (rule ids_satisfy_attempt[OF _ f(1)]) (use d in auto)
    then show ?thesis using keep[OF f(1)] f(2) connect(2) by (auto simp: same_globals_def)
  next
    case (destroy cl)
    have g: "grows {} {} p p'" unfolding destroy(2) by (rule grows_fields) simp_all
    have "ids_satisfy (\<lambda>t' c'. t' \<noteq> t) p' ph'" unfolding destroy(3) by (rule ids_satisfy_same[OF _ g]) (use d in blast)
    then show ?thesis using keep[OF g] destroy by auto
  qed
qed

lemma cm_steps_keep:
  assumes "cm_step\<^sup>*\<^sup>* x y" "\<And>p ph p' ph'. cm_step (p, ph) (p', ph') \<Longrightarrow> Q p ph \<Longrightarrow> Q p' ph'" "Q (fst x) (snd x)"
  shows "Q (fst y) (snd y)"
  using assms(1,3)
proof (induction rule: rtranclp_induct)
  case (step y z)
  then show ?case using assms(2)[of "fst y" "snd y" "fst z" "snd z"] by simp
qed

section \<open>A process with one connection\<close>

definition sample_lib :: cm_lib where
  "sample_lib = \<lparr>lib_event_channel = True, lib_fcntl = True, lib_epoll_add = 0, lib_malloc = (\<lambda>_. True), lib_reg_mr = (\<lambda>_. True),
     lib_comp_channel = True, lib_cq_fcntl = True, lib_create_cq = True, lib_req_notify = 0, lib_create_qp = 0, lib_create_id = 0,
     lib_bind_addr = 0, lib_listen = 0, lib_resolve_addr = 0, lib_resolve_route = 0, lib_connect = 0, lib_accept = 0,
     lib_pton = (\<lambda>_. (1, 1)), lib_region = (0, 0)\<rparr>"

definition sample_trans :: dhmp_transport where
  "sample_trans = \<lparr>peer_addr = \<lparr>sin_addr = 0, sin_port = 0\<rparr>, local_addr = \<lparr>sin_addr = 0, sin_port = 0\<rparr>, node_id = 0,
     trans_state = DHMP_TRANSPORT_STATE_CONNECTING, dcq = Some 2, qp = Some 4, event_channel = Some 1, cm_id = Some 5,
     send_mr = Some \<lparr>cur_pos = 0, dmr_addr = 0, dmr_lkey = 0\<rparr>, recv_mr = Some \<lparr>cur_pos = 0, dmr_addr = 0, dmr_lkey = 0\<rparr>,
     is_poll_qp = True, link_trans = None, dram_used_size = 0, nvm_used_size = 0\<rparr>"

definition sample_proc :: "cm_server option \<Rightarrow> cm_client option \<Rightarrow> rdma_proc" where
  "sample_proc srv cli = \<lparr>cm_trans = (\<lambda>_. sample_trans), next_trans = 1, next_handle = 6, fds = [1 \<mapsto> Cm_channel 1, 3 \<mapsto> Cq_channel 2],
     id_ctx = (\<lambda>_. 0), id_chan = (\<lambda>_. 1), id_src = (\<lambda>_. \<lparr>sin_addr = 0, sin_port = 0\<rparr>), id_dst = (\<lambda>_. \<lparr>sin_addr = 0, sin_port = 0\<rparr>),
     cqs = [2 \<mapsto> 3], posted = (\<lambda>_. []), released = {}, ctx_stop = False, cm_srv = srv, cm_cli = cli\<rparr>"

definition sample_client :: "nat list \<Rightarrow> cm_client" where
  "sample_client ts = \<lparr>cm_prepare_destroy = False, cm_in_recovery = True, cm_threads = ts, cm_recovered = [], cm_nets = (\<lambda>_. (Some ''10.0.0.1'', 5000))\<rparr>"

section \<open>Properties\<close>

text \<open>C37: a connection lost while the recovery of another one runs, and with no other attempt of its own under way, is lost for
  good: the handler only marks it, and in no later state, also after the running recovery has ended, is it anything but
  disconnected.\<close>

theorem missed_disconnect:
  assumes "dhmp_handle_ec_event L RDMA_CM_EVENT_DISCONNECTED h p = Inr (p1, r)" "id_ctx p h = t" "ph h = Ph_up" "t < next_trans p"
    and "env_ok p ph" "\<forall>h'. live (ph h') \<and> h' \<noteq> h \<longrightarrow> id_ctx p h' \<noteq> t"
    and "cm_cli p = Some cl" "cm_in_recovery cl" "t \<notin> set (cm_threads cl)"
    and "cm_step\<^sup>*\<^sup>* (p1, ph(h := Ph_closed)) (p2, ph2)"
  shows "trans_state (cm_trans p2 t) = DHMP_TRANSPORT_STATE_DISCONNECTED"
proof -
  have dc: "on_cm_disconnected t p = Inr (p1, r)" using assms(1,2) by (simp add: dhmp_handle_ec_event_def)
  have "trans_state (cm_trans p1 t) = DHMP_TRANSPORT_STATE_DISCONNECTED \<and> cm_cli p1 = cm_cli p \<and> grows {t} {} p p1"
    by (rule disconnected_cases[OF dc, where X = "{}"])
      (use assms(7,8) destroy_trans globals_destroy grows_destroy in \<open>auto simp: same_globals_def intro: grows_trans\<close>)
  then have f: "trans_state (cm_trans p1 t) = DHMP_TRANSPORT_STATE_DISCONNECTED" "cm_cli p1 = cm_cli p" "grows {t} {} p p1" by blast+
  have "t < next_trans p1" using f(3) assms(4) by (simp add: grows_def)
  moreover have "ids_satisfy (\<lambda>t' c'. t' \<noteq> t) p1 (ph(h := Ph_closed))"
    using assms(5,6) f(3) unfolding ids_satisfy_def env_ok_def grows_def by (auto simp: live_def less_le_trans)
  ultimately have s: "lost DHMP_TRANSPORT_STATE_DISCONNECTED t (fst (p1, ph(h := Ph_closed))) (snd (p1, ph(h := Ph_closed)))"
    using f assms(7,9) by (simp add: lost_def)
  have "lost DHMP_TRANSPORT_STATE_DISCONNECTED t (fst (p2, ph2)) (snd (p2, ph2))"
    by (rule cm_steps_keep[OF assms(10), of "lost DHMP_TRANSPORT_STATE_DISCONNECTED t", OF _ s]) (rule lost_step)
  then show ?thesis by (simp add: lost_def)
qed

lemma missed_disconnect_witness:
  "let p = sample_proc None (Some (sample_client [7])); ph = (\<lambda>_. Ph_idle)(5 := Ph_up);
       p1 = upd_cm p 0 (\<lambda>x. x\<lparr>trans_state := DHMP_TRANSPORT_STATE_DISCONNECTED\<rparr>)
   in dhmp_handle_ec_event sample_lib RDMA_CM_EVENT_DISCONNECTED 5 p = Inr (p1, 0) \<and>
      (\<exists>p2 ph2. cm_step (p1, ph(5 := Ph_closed)) (p2, ph2) \<and> p2 \<noteq> p1 \<and> trans_state (cm_trans p2 0) = DHMP_TRANSPORT_STATE_DISCONNECTED)"
proof -
  let ?p = "sample_proc None (Some (sample_client [7]))"
  let ?ph = "(\<lambda>_. Ph_idle)(5 := Ph_up)"
  let ?p1 = "upd_cm ?p 0 (\<lambda>x. x\<lparr>trans_state := DHMP_TRANSPORT_STATE_DISCONNECTED\<rparr>)"
  have e: "dhmp_handle_ec_event sample_lib RDMA_CM_EVENT_DISCONNECTED 5 ?p = Inr (?p1, 0)"
    by (simp add: dhmp_handle_ec_event_def on_cm_disconnected_def sample_proc_def sample_client_def upd_cm_def Let_def)
  obtain p2 where r: "create_connection sample_lib 1 False ?p1 = p2" by blast
  have step: "cm_step (?p1, ?ph(5 := Ph_closed)) (p2, attempt_phase ?p1 p2 (next_trans ?p1) (?ph(5 := Ph_closed)))"
    by (rule step_connect[OF _ r]) (simp add: sample_proc_def upd_cm_def)
  have "next_trans p2 \<noteq> next_trans ?p1"
    unfolding r[symmetric] by (simp add: create_connection_def dhmp_transport_create_def dhmp_event_channel_create_def dhmp_context_add_event_fd_def
        dhmp_memory_register_def dhmp_transport_connect_def dhmp_port_uri_transfer_def new_cm_id_def sample_lib_def
        sample_proc_def sample_client_def upd_cm_def Let_def)
  moreover have "trans_state (cm_trans p2 0) = DHMP_TRANSPORT_STATE_DISCONNECTED"
    by (rule missed_disconnect[OF e, where ph = ?ph and cl = "sample_client [7]"])
      (use step in \<open>auto simp: sample_proc_def sample_client_def env_ok_def live_def\<close>)
  ultimately show ?thesis using e step unfolding Let_def by metis
qed

end
