(* ===== verification/Dhmp_Accept.thy ===== *)
theory Dhmp_Accept
  imports Dhmp_Transport "HOL-Library.Multiset"
begin

text \<open>
  The connections of a server, as \<open>on_cm_connect_request\<close>, \<open>on_cm_disconnected\<close> and \<open>on_cm_error\<close> of
  \<open>src/dhmp_client/src/dhmp_transport.c\<close> keep them: in every state the process can reach, each listed
  transport has all its resources, so that no event handler meets a null or freed pointer; and the receive buffers
  of a connection.
\<close>

section \<open>The resources of a server's connections\<close>

text \<open>What a handler dereferences of a transport, and how handlers leave it alone.\<close>

definition resources :: "dhmp_transport \<Rightarrow> nat option \<times> nat option \<times> nat option \<times> nat option \<times> dhmp_mr option \<times> dhmp_mr option" where
  "resources r = (qp r, dcq r, event_channel r, cm_id r, send_mr r, recv_mr r)"

definition keeps :: "nat set \<Rightarrow> nat set \<Rightarrow> rdma_proc \<Rightarrow> rdma_proc \<Rightarrow> bool" where
  "keeps T R p p' \<longleftrightarrow> next_handle p \<le> next_handle p' \<and> next_trans p \<le> next_trans p' \<and> released p' = released p \<union> R \<and>
     (\<forall>t < next_trans p. t \<notin> T \<longrightarrow> resources (cm_trans p' t) = resources (cm_trans p t)) \<and> (\<forall>d < next_handle p. cqs p' d = cqs p d)"

lemma keeps_trans: "keeps T R p p1 \<Longrightarrow> keeps T R' p1 p2 \<Longrightarrow> keeps T (R \<union> R') p p2"
  unfolding keeps_def by (auto dest: order_less_le_trans)

lemma keeps_trans0: "keeps T {} p p1 \<Longrightarrow> keeps T {} p1 p2 \<Longrightarrow> keeps T {} p p2"
  using keeps_trans[of T "{}" p p1 "{}"] by simp

lemma keeps_create: "dhmp_transport_create L p is_listen poll = (p', r) \<Longrightarrow> keeps {} {} p p'"
  by (auto simp: dhmp_transport_create_def dhmp_event_channel_create_def dhmp_context_add_event_fd_def dhmp_context_del_event_fd_def
      keeps_def upd_cm_def resources_def Let_def split: if_splits option.splits)

lemma keeps_qp: "dhmp_qp_create L t p = Inr (p', r) \<Longrightarrow> keeps {t} {} p p'"
  by (auto simp: dhmp_qp_create_def dhmp_cq_get_def dhmp_context_add_event_fd_def dhmp_context_del_event_fd_def keeps_def upd_cm_def Let_def
      split: if_splits)

lemma keeps_post: "dhmp_post_recv t off p = Inr p' \<Longrightarrow> keeps T {} p p'"
  by (auto simp: dhmp_post_recv_def Let_def res_simps keeps_def split: if_splits option.splits)

lemma keeps_posts: "post_recvs t offs p = Inr p' \<Longrightarrow> keeps T {} p p'"
proof (induction offs arbitrary: p)
  case Nil
  then show ?case by (simp add: keeps_def)
next
  case (Cons off offs)
  then obtain p1 where p1: "dhmp_post_recv t off p = Inr p1" "post_recvs t offs p1 = Inr p'" by (auto simp: res_simps)
  show ?case by (rule keeps_trans0[OF keeps_post[OF p1(1)] Cons.IH[OF p1(2)]])
qed

lemma keeps_destroy: "dhmp_destroy_source t p = Inr p' \<Longrightarrow> keeps T {t} p p'"
  by (erule destroy_cases) (auto simp: keeps_def)

lemma keeps_upd: "(\<And>x. resources (f x) = resources x) \<Longrightarrow> keeps T {} p (upd_cm p t f)"
  by (simp add: keeps_def upd_cm_def)

lemma keeps_link: "keeps T {} p (link_connections m n p)"
  by (cases m) (auto simp: link_connections_def keeps_def upd_cm_def resources_def)

lemma keeps_fields: "next_handle p' = next_handle p \<Longrightarrow> next_trans p' = next_trans p \<Longrightarrow> cm_trans p' = cm_trans p \<Longrightarrow> released p' = released p \<Longrightarrow>
    cqs p' = cqs p \<Longrightarrow> keeps T {} p p'"
  by (simp add: keeps_def)

text \<open>A transport with everything in place.\<close>

definition trans_typed :: "rdma_proc \<Rightarrow> nat \<Rightarrow> bool" where
  "trans_typed p t \<longleftrightarrow> t < next_trans p \<and> t \<notin> released p \<and> cm_id (cm_trans p t) \<noteq> None \<and> event_channel (cm_trans p t) \<noteq> None \<and>
     qp (cm_trans p t) \<noteq> None \<and> recv_mr (cm_trans p t) \<noteq> None \<and> (\<exists>d fd. dcq (cm_trans p t) = Some d \<and> d < next_handle p \<and> cqs p d = Some fd)"

lemma typed_keeps: "trans_typed p t \<Longrightarrow> keeps T R p p' \<Longrightarrow> t \<notin> T \<union> R \<Longrightarrow> trans_typed p' t"
  unfolding trans_typed_def keeps_def resources_def by (auto simp: less_le_trans)

lemma typed_destroy: "trans_typed p t \<Longrightarrow> \<exists>p'. dhmp_destroy_source t p = Inr p'"
  by (auto simp: dhmp_destroy_source_def trans_typed_def trans_cq_def Let_def)

lemma typed_posts: "trans_typed p t \<Longrightarrow> \<exists>p'. post_recvs t offs p = Inr p' \<and> trans_typed p' t"
proof (induction offs arbitrary: p)
  case Nil
  then show ?case by simp
next
  case (Cons off offs)
  have "\<exists>p1. dhmp_post_recv t off p = Inr p1"
    using Cons.prems
    by (cases "trans_state (cm_trans p t) > DHMP_TRANSPORT_STATE_CONNECTED") (auto simp: dhmp_post_recv_def trans_typed_def dhmp_recv_task_create_def Let_def)
  then obtain p1 where p1: "dhmp_post_recv t off p = Inr p1" by blast
  have "trans_typed p1 t" using typed_keeps[OF Cons.prems keeps_post[OF p1, of "{}"]] by simp
  from Cons.IH[OF this] p1 show ?case by simp
qed

lemma keeps_weaken: "keeps T R p p' \<Longrightarrow> T \<subseteq> T' \<Longrightarrow> keeps T' R p p'"
  unfolding keeps_def by blast

lemma keeps_new: "keeps (insert k T) R p p' \<Longrightarrow> next_trans p \<le> k \<Longrightarrow> keeps T R p p'"
  unfolding keeps_def by auto

lemma create_made:
  assumes "dhmp_transport_create L p False poll = (p', Some n)"
  shows "n = next_trans p" "next_trans p' = Suc n" "event_channel (cm_trans p' n) \<noteq> None" "recv_mr (cm_trans p' n) \<noteq> None" "released p' = released p"
  using assms by (auto simp: dhmp_transport_create_def dhmp_event_channel_create_def dhmp_context_add_event_fd_def dhmp_context_del_event_fd_def
      upd_cm_def Let_def split: if_splits option.splits)

lemma qp_made:
  assumes "cm_id (cm_trans p t) \<noteq> None"
  obtains p' r where "dhmp_qp_create L t p = Inr (p', r)" "next_trans p' = next_trans p"
    "\<And>x. cm_id (cm_trans p' x) = cm_id (cm_trans p x) \<and> event_channel (cm_trans p' x) = event_channel (cm_trans p x) \<and> recv_mr (cm_trans p' x) = recv_mr (cm_trans p x)"
    "r = 0 \<Longrightarrow> qp (cm_trans p' t) \<noteq> None \<and> (\<exists>d fd. dcq (cm_trans p' t) = Some d \<and> d < next_handle p' \<and> cqs p' d = Some fd)"
proof -
  obtain c where c: "cm_id (cm_trans p t) = Some c" using assms by auto
  show thesis
  proof (cases "dhmp_qp_create L t p")
    case (Inl e)
    then show thesis using c
      by (auto simp: dhmp_qp_create_def dhmp_cq_get_def dhmp_context_add_event_fd_def dhmp_context_del_event_fd_def upd_cm_def Let_def split: if_splits)
  next
    case (Inr x)
    obtain p' r where x: "x = (p', r)" by fastforce
    show thesis
      by (rule that[of p' r], use Inr x c in \<open>auto simp: dhmp_qp_create_def dhmp_cq_get_def dhmp_context_add_event_fd_def dhmp_context_del_event_fd_def
            upd_cm_def Let_def split: if_splits\<close>)
  qed
qed

text \<open>
  The list of connections: the count is the length of the list, the listed transports have all their resources, and
  the watcher's connection is not among them.
\<close>

definition members :: "cm_server \<Rightarrow> nat set" where
  "members s = set (cm_clients s) \<union> set_option (cm_watcher s)"

definition conns_typed :: "rdma_proc \<Rightarrow> cm_server \<Rightarrow> bool" where
  "conns_typed p s \<longleftrightarrow> cm_srv p = Some s \<and> released p \<subseteq> {..< next_trans p} \<and> members s \<subseteq> {..< next_trans p} \<and>
     distinct (cm_clients s) \<and> cm_connections s = int (length (cm_clients s)) \<and> (\<forall>t \<in> set (cm_clients s). trans_typed p t) \<and>
     (\<forall>w. cm_watcher s = Some w \<longrightarrow> w \<notin> set (cm_clients s))"

text \<open>
  Moreover every live id is connecting or up and belongs to a transport with all its resources, a listed one or the
  watcher's, each transport to one id.
\<close>

definition srv_typed :: "rdma_proc \<Rightarrow> (nat \<Rightarrow> cm_phase) \<Rightarrow> bool" where
  "srv_typed p ph \<longleftrightarrow> cm_cli p = None \<and> env_ok p ph \<and> (\<exists>s. conns_typed p s \<and>
     (\<forall>h. live (ph h) \<longrightarrow> (ph h = Ph_connecting \<or> ph h = Ph_up) \<and> trans_typed p (id_ctx p h) \<and> id_ctx p h \<in> members s)) \<and>
     (\<forall>h h'. live (ph h) \<longrightarrow> live (ph h') \<longrightarrow> id_ctx p h = id_ctx p h' \<longrightarrow> h = h')"

lemma members_enlist: "members (enlist_connection n s) = insert n (members s)"
  by (cases "cm_watcher s") (auto simp: members_def enlist_connection_def)

lemma enlist_typed:
  assumes "conns_typed p s" "keeps {} {} p p'" "cm_srv p' = Some (enlist_connection n s)" "trans_typed p' n" "n = next_trans p"
  shows "conns_typed p' (enlist_connection n s)"
proof -
  have n: "n < next_trans p'" using assms(4) by (simp add: trans_typed_def)
  have t: "trans_typed p' t" if "t \<in> set (cm_clients s)" for t
    using assms(1) that typed_keeps[OF _ assms(2)] by (auto simp: conns_typed_def)
  have "released p' = released p" "next_trans p \<le> next_trans p'" using assms(2) by (simp_all add: keeps_def)
  then have sub: "released p' \<subseteq> {..< next_trans p'}" "members s \<subseteq> {..< next_trans p}" "members s \<subseteq> {..< next_trans p'}"
    using assms(1) by (auto simp: conns_typed_def)
  have "n \<notin> members s" using sub(2) assms(5) by auto
  then show ?thesis
    using assms(1,3,4) t sub n by (auto simp: conns_typed_def enlist_connection_def members_def)
qed

lemma conns_same:
  assumes "conns_typed p s" "keeps {} {} p p'" "cm_srv p' = cm_srv p"
  shows "conns_typed p' s"
  using assms typed_keeps[OF _ assms(2)] unfolding conns_typed_def by (auto simp: keeps_def)

lemma typed_upd: "(\<And>x. resources (f x) = resources x) \<Longrightarrow> trans_typed (upd_cm p t' f) t = trans_typed p t"
  using typed_keeps[OF _ keeps_upd[of f "{}" p t'], of t] by (auto simp: trans_typed_def upd_cm_def resources_def)

lemma request_typed:
  assumes "conns_typed p s" "n = next_trans p"
  obtains p' r where "on_cm_connect_request L h p = Inr (p', r)" "keeps {} {} p p'"
    "cm_srv p' = Some s \<and> r \<noteq> 0 \<or> cm_srv p' = Some (enlist_connection n s) \<and> trans_typed p' n"
proof -
  have s: "cm_srv p = Some s" using assms(1) by (simp add: conns_typed_def)
  obtain normal where e: "dhmp_is_exist_connection p (id_dst p h) = Inr normal" using s by (simp add: dhmp_is_exist_connection_def)
  obtain p1 o1 where c: "dhmp_transport_create L p False (normal \<noteq> None) = (p1, o1)" by fastforce
  note k1 = keeps_create[OF c] and g1 = globals_create[OF c]
  show thesis
  proof (cases o1)
    case None
    then show thesis using that[of p1 "-1"] e c k1 g1 s by (simp add: on_cm_connect_request_def same_globals_def)
  next
    case (Some k)
    note m = create_made[OF c[unfolded Some]]
    have k: "k = n" using m(1) assms(2) by simp
    define p2 where "p2 = (upd_cm p1 n (\<lambda>x. x\<lparr>link_trans := None, cm_id := Some h\<rparr>))\<lparr>id_ctx := (id_ctx p1)(h := n)\<rparr>"
    have id: "cm_id (cm_trans p2 n) \<noteq> None" by (simp add: p2_def upd_cm_def)
    have k2: "keeps {n} {} p p2" using k1 by (auto simp: keeps_def p2_def upd_cm_def)
    have rel: "n \<notin> released p" using assms by (auto simp: conns_typed_def)
    obtain p3 r where q: "dhmp_qp_create L n p2 = Inr (p3, r)" "next_trans p3 = next_trans p2"
        "\<And>x. cm_id (cm_trans p3 x) = cm_id (cm_trans p2 x) \<and> event_channel (cm_trans p3 x) = event_channel (cm_trans p2 x) \<and> recv_mr (cm_trans p3 x) = recv_mr (cm_trans p2 x)"
        "r = 0 \<Longrightarrow> qp (cm_trans p3 n) \<noteq> None \<and> (\<exists>d fd. dcq (cm_trans p3 n) = Some d \<and> d < next_handle p3 \<and> cqs p3 d = Some fd)"
      using qp_made[OF id] by metis
    have k3: "keeps {n} {} p p3" by (rule keeps_trans0[OF k2 keeps_qp[OF q(1)]])
    have s3: "cm_srv p3 = Some s" using globals_qp[OF q(1)] g1 s by (simp add: p2_def same_globals_def upd_cm_def)
    have new: "keeps {} {} p x" if "keeps {n} {} p x" for x using keeps_new that assms(2) by blast
    show thesis
    proof (cases "r = 0")
      case False
      then show thesis using that[of p3 r] e c q(1) new[OF k3] s3 unfolding on_cm_connect_request_def Some k
        by (simp add: Let_def p2_def[symmetric])
    next
      case True
      let ?p3 = "p3\<lparr>cm_srv := map_option (enlist_connection n) (cm_srv p3)\<rparr>"
      define p4 where "p4 = link_connections normal n ?p3"
      have "trans_typed p3 n"
        using q(2) q(3)[of n] q(4)[OF True] m k rel k3 id by (auto simp: trans_typed_def keeps_def p2_def upd_cm_def)
      then have "trans_typed ?p3 n" by (simp add: trans_typed_def)
      then have t4: "trans_typed p4 n" unfolding p4_def
        by (cases normal) (simp_all add: link_connections_def typed_upd resources_def)
      have k4: "keeps {n} {} p p4"
        unfolding p4_def by (rule keeps_trans0[OF k3 keeps_trans0[OF keeps_fields keeps_link]]) simp_all
      have s4: "cm_srv p4 = Some (enlist_connection n s)" by (simp add: p4_def s3)
      let ?p5 = "upd_cm p4 n (\<lambda>x. x\<lparr>trans_state := DHMP_TRANSPORT_STATE_CONNECTING\<rparr>)"
      have t5: "trans_typed ?p5 n" using t4 by (simp add: typed_upd resources_def)
      obtain p6 where p6: "dhmp_post_all_recv n ?p5 = Inr p6" "trans_typed p6 n"
        using typed_posts[OF t5] unfolding dhmp_post_all_recv_def Let_def by blast
      have k6: "keeps {n} {} p p6"
        by (rule keeps_trans0[OF k4 keeps_trans0[OF keeps_upd keeps_posts[OF p6(1)[unfolded dhmp_post_all_recv_def Let_def]]]])
          (simp add: resources_def)
      have s6: "cm_srv p6 = Some (enlist_connection n s)" using globals_post_all[OF p6(1)] s4 by (simp add: same_globals_def upd_cm_def)
      have "on_cm_connect_request L h p = (if lib_accept L \<noteq> 0 then Inr (p4, -1) else Inr (p6, 0))"
        using e c q(1) True p6(1) unfolding on_cm_connect_request_def Some k by (simp add: Let_def p2_def[symmetric] p4_def[symmetric])
      then show thesis using that[of p4 "-1"] that[of p6 0] new[OF k4] new[OF k6] s4 s6 t4 p6(2) by (cases "lib_accept L = 0") simp_all
    qed
  qed
qed

text \<open>A listed connection that ends is taken off the list and its resources are released; no other loses any.\<close>

lemma drop_typed:
  assumes "conns_typed p s" "t \<in> set (cm_clients s)" "keeps {} {t} p p'" "cm_srv p' = Some (drop_connection t s)"
  shows "conns_typed p' (drop_connection t s)"
proof -
  have "trans_typed p' x" if "x \<in> set (cm_clients s)" "x \<noteq> t" for x
    using assms(1) that typed_keeps[OF _ assms(3)] by (auto simp: conns_typed_def)
  moreover have "t < next_trans p" "next_trans p \<le> next_trans p'" "released p' = insert t (released p)"
    using assms(1-3) by (auto simp: conns_typed_def trans_typed_def keeps_def)
  moreover have "int (length (remove1 t (cm_clients s))) = int (length (cm_clients s)) - 1"
    using assms(2) by (cases "length (cm_clients s)") (auto simp: length_remove1)
  ultimately show ?thesis
    using assms(1,4) by (auto simp: conns_typed_def drop_connection_def members_def dest: notin_set_remove1)
qed

lemma watcher_released:
  assumes "conns_typed p s" "cm_watcher s = Some t" "keeps {} {t} p p'" "cm_srv p' = cm_srv p"
  shows "conns_typed p' s"
proof -
  have "trans_typed p' x" if "x \<in> set (cm_clients s)" for x
    using assms(1,2) that typed_keeps[OF _ assms(3)] by (auto simp: conns_typed_def)
  moreover have "next_trans p \<le> next_trans p'" "released p' = insert t (released p)" using assms(3) by (auto simp: keeps_def)
  ultimately show ?thesis using assms(1,2,4) by (auto simp: conns_typed_def members_def)
qed

text \<open>After an event for \<open>h\<close> the ids are still in order when only the transport of \<open>h\<close> has changed.\<close>

lemma ids_typed:
  assumes "srv_typed p ph" "conns_typed p s" "live (ph h)" "keeps {} R p p'" "R \<subseteq> {id_ctx p h}" "id_ctx p' = id_ctx p" "cm_cli p' = None"
    "conns_typed p' s'" "members s \<subseteq> insert (id_ctx p h) (members s')"
    "\<not> live x \<or> R = {} \<and> members s \<subseteq> members s' \<and> (x = Ph_connecting \<or> x = Ph_up)"
  shows "srv_typed p' (ph(h := x))"
proof -
  from assms(1,2) have i: "\<And>h. live (ph h) \<Longrightarrow> (ph h = Ph_connecting \<or> ph h = Ph_up) \<and> trans_typed p (id_ctx p h) \<and> id_ctx p h \<in> members s"
    and inj: "\<And>h h'. live (ph h) \<Longrightarrow> live (ph h') \<Longrightarrow> id_ctx p h = id_ctx p h' \<Longrightarrow> h = h'" and e: "env_ok p ph"
    by (auto simp: srv_typed_def conns_typed_def)
  have ok: "(ph k = Ph_connecting \<or> ph k = Ph_up) \<and> trans_typed p' (id_ctx p k) \<and> id_ctx p k \<in> members s'" if "live (ph k)" "k \<noteq> h" for k
  proof -
    have "id_ctx p k \<noteq> id_ctx p h" using inj[OF that(1) assms(3)] that(2) by auto
    then show ?thesis using i[OF that(1)] typed_keeps[OF _ assms(4)] assms(5,9) by auto
  qed
  have "trans_typed p' (id_ctx p h) \<and> id_ctx p h \<in> members s' \<and> (x = Ph_connecting \<or> x = Ph_up)" if "live x"
    using assms(10) that i[OF assms(3)] typed_keeps[OF _ assms(4)] by auto
  moreover have "env_ok p' (ph(h := x))" using e assms(3,4) by (auto simp: env_ok_def keeps_def intro: less_le_trans)
  ultimately show ?thesis using ok inj assms(3,6-8) unfolding srv_typed_def by auto
qed

lemma listed_end:
  assumes "conns_typed p s" "t \<in> members s" "cm_watcher s \<noteq> Some t" "trans_typed p t" "cm_cli p = None"
  obtains p' where "dhmp_destroy_source t p = Inr p'" "t \<in> set (cm_clients s)" "cm_srv p' = Some s" "cm_cli p' = None" "id_ctx p' = id_ctx p"
    "keeps {} {t} p p'"
proof -
  obtain p' where d: "dhmp_destroy_source t p = Inr p'" using typed_destroy[OF assms(4)] by blast
  have "t \<in> set (cm_clients s)" using assms(2,3) by (auto simp: members_def)
  moreover have "id_ctx p' = id_ctx p" by (rule destroy_cases[OF d]) simp
  ultimately show thesis using that[OF d] globals_destroy[OF d] keeps_destroy[OF d, of "{}"] assms(1,5) by (simp add: same_globals_def conns_typed_def)
qed

lemma state_only:
  fixes x :: dhmp_transport
  shows "resources (x\<lparr>trans_state := v\<rparr>) = resources x"
  by (simp add: resources_def)

text \<open>What the handler of an event for \<open>h\<close> starts from.\<close>

lemma event_start:
  assumes "srv_typed p ph" "live (ph h)"
  obtains s where "conns_typed p s" "cm_cli p = None" "cm_srv p = Some s" "ph h = Ph_connecting \<or> ph h = Ph_up"
    "trans_typed p (id_ctx p h)" "id_ctx p h \<in> members s"
  using assms unfolding srv_typed_def conns_typed_def by blast

lemma established_typed:
  assumes "srv_typed p ph" "live (ph h)"
  obtains p' where "on_cm_established (id_ctx p h) p = Inr (p', 0)" "srv_typed p' (ph(h := Ph_up))"
proof -
  obtain s where s: "conns_typed p s" "cm_cli p = None" "trans_typed p (id_ctx p h)" using event_start[OF assms] by metis
  obtain k where k: "cm_id (cm_trans p (id_ctx p h)) = Some k" using s(3) by (auto simp: trans_typed_def)
  define f where "f = (\<lambda>x::dhmp_transport. x\<lparr>local_addr := id_src p k, peer_addr := id_dst p k, trans_state := DHMP_TRANSPORT_STATE_CONNECTED\<rparr>)"
  let ?p = "upd_cm p (id_ctx p h) f"
  have kp: "keeps {} {} p ?p" by (rule keeps_upd) (simp add: f_def resources_def)
  have u: "id_ctx ?p = id_ctx p" "cm_cli ?p = None" "cm_srv ?p = cm_srv p" using s(2) by (simp_all add: upd_cm_def)
  have "srv_typed ?p (ph(h := Ph_up))"
    by (rule ids_typed[OF assms(1) s(1) assms(2) kp _ u(1,2) conns_same[OF s(1) kp u(3)]]) auto
  then show thesis by (rule that[rotated]) (simp add: on_cm_established_def k f_def)
qed

text \<open>A connection that ends or fails closes its id, with the transport still in place or released.\<close>

lemma closed_typed:
  assumes "srv_typed p ph" "conns_typed p s" "live (ph h)" "keeps {} R p p'" "R \<subseteq> {id_ctx p h}" "id_ctx p' = id_ctx p" "cm_cli p' = None"
    "conns_typed p' s'" "s' = s \<or> s' = drop_connection (id_ctx p h) s"
  shows "srv_typed p' (ph(h := Ph_closed))"
  by (rule ids_typed[OF assms(1-8)])
    (use assms(9) in \<open>auto simp: live_def members_def drop_connection_def dest: in_set_remove1[THEN iffD2, rotated]\<close>)

lemma disconnected_typed:
  assumes "srv_typed p ph" "live (ph h)"
  obtains p' where "on_cm_disconnected (id_ctx p h) p = Inr (p', 0)" "srv_typed p' (ph(h := Ph_closed))"
proof -
  let ?t = "id_ctx p h"
  obtain s where s: "conns_typed p s" "cm_cli p = None" "cm_srv p = Some s" "trans_typed p ?t" "?t \<in> members s"
    using event_start[OF assms] by metis
  let ?p = "upd_cm p ?t (\<lambda>x. x\<lparr>trans_state := DHMP_TRANSPORT_STATE_DISCONNECTED\<rparr>)"
  have kp: "keeps {} {} p ?p" by (rule keeps_upd) (rule state_only)
  have u: "id_ctx ?p = id_ctx p" "cm_cli ?p = None" "cm_srv ?p = Some s" using s by (simp_all add: upd_cm_def)
  note s' = conns_same[OF s(1) kp, unfolded s(3), OF u(3)] and closed = closed_typed[OF assms(1) s(1) assms(2)]
  show thesis
  proof (cases "cm_watcher s = Some ?t")
    case True
    have "on_cm_disconnected ?t p = Inr (?p, 0)" using True u by (simp add: on_cm_disconnected_def)
    then show thesis by (rule that) (use closed[OF kp _ u(1,2) s'] in blast)
  next
    case False
    have ty: "trans_typed ?p ?t" using s(4) by (simp add: typed_upd state_only)
    obtain p1 where d: "dhmp_destroy_source ?t ?p = Inr p1" "?t \<in> set (cm_clients s)" "cm_srv p1 = Some s" "cm_cli p1 = None"
        "id_ctx p1 = id_ctx ?p" "keeps {} {?t} ?p p1"
      using listed_end[OF s' s(5) False ty u(2)] by metis
    let ?p1 = "p1\<lparr>cm_srv := Some (drop_connection ?t s)\<rparr>"
    have "on_cm_disconnected ?t p = Inr (?p1, 0)" using False u d(1,2,4) by (simp add: on_cm_disconnected_def dhmp_inform_watcher_func_def)
    moreover have k1: "keeps {} {?t} p ?p1" using keeps_trans[OF kp d(6)] by (simp add: keeps_def)
    have c1: "conns_typed ?p1 (drop_connection ?t s)" by (rule drop_typed[OF s(1) d(2) k1]) simp
    have "srv_typed ?p1 (ph(h := Ph_closed))" by (rule closed[OF k1 _ _ _ c1]) (use d u in auto)
    ultimately show thesis by (rule that)
  qed
qed

lemma error_typed:
  assumes "srv_typed p ph" "live (ph h)"
  obtains p' where "on_cm_error (id_ctx p h) p = Inr (p', 0)" "srv_typed p' (ph(h := Ph_closed))"
proof -
  let ?t = "id_ctx p h"
  obtain s where s: "conns_typed p s" "cm_cli p = None" "cm_srv p = Some s" "trans_typed p ?t" "?t \<in> members s"
    using event_start[OF assms] by metis
  obtain p1 where d: "dhmp_destroy_source ?t p = Inr p1" using typed_destroy[OF s(4)] by blast
  let ?p = "upd_cm p1 ?t (\<lambda>x. x\<lparr>trans_state := DHMP_TRANSPORT_STATE_ERROR\<rparr>)"
  have kp: "keeps {} {?t} p ?p" using keeps_trans[OF keeps_destroy[OF d, of "{}"] keeps_upd] state_only by fastforce
  have u: "id_ctx ?p = id_ctx p" "cm_cli ?p = None" "cm_srv ?p = Some s"
    using globals_destroy[OF d] s(2,3) by (auto simp: same_globals_def upd_cm_def intro: destroy_cases[OF d])
  note closed = closed_typed[OF assms(1) s(1) assms(2)]
  show thesis
  proof (cases "cm_watcher s = Some ?t")
    case True
    have "on_cm_error ?t p = Inr (?p, 0)" using True u d by (simp add: on_cm_error_def)
    moreover have c: "conns_typed ?p s" by (rule watcher_released[OF s(1) True kp]) (simp add: u(3) s(3))
    have "srv_typed ?p (ph(h := Ph_closed))" by (rule closed[OF kp _ u(1,2) c]) simp_all
    ultimately show thesis by (rule that)
  next
    case False
    have m: "?t \<in> set (cm_clients s)" using s(5) False by (auto simp: members_def)
    let ?p1 = "?p\<lparr>cm_srv := Some (drop_connection ?t s)\<rparr>"
    have "on_cm_error ?t p = Inr (?p1, 0)" using False u d m by (simp add: on_cm_error_def Let_def dhmp_inform_watcher_func_def)
    moreover have k1: "keeps {} {?t} p ?p1" using kp by (simp add: keeps_def)
    have c1: "conns_typed ?p1 (drop_connection ?t s)" by (rule drop_typed[OF s(1) m k1]) simp
    have "srv_typed ?p1 (ph(h := Ph_closed))" by (rule closed[OF k1 _ _ _ c1]) (use u in auto)
    ultimately show thesis by (rule that)
  qed
qed

lemma event_typed:
  assumes "srv_typed p ph" "event_allowed e (ph h)"
  obtains p' r where "dhmp_handle_ec_event L e h p = Inr (p', r)" "srv_typed p' (ph(h := next_phase e r))"
proof -
  have lv: "live (ph h)" by (rule allowed_live[OF assms(2)])
  obtain s where s: "conns_typed p s" "cm_cli p = None" "ph h = Ph_connecting \<or> ph h = Ph_up" using event_start[OF assms(1) lv] by metis
  have none: "srv_typed p (ph(h := Ph_closed))"
    by (rule closed_typed[OF assms(1) s(1) lv _ _ _ s(2) s(1), of "{}"]) (simp_all add: keeps_def)
  consider "e = RDMA_CM_EVENT_ESTABLISHED" | "e = RDMA_CM_EVENT_DISCONNECTED" | "e = RDMA_CM_EVENT_CONNECT_ERROR"
    | "e = RDMA_CM_EVENT_REJECTED" | "e = RDMA_CM_EVENT_OTHER" using assms(2) s(3) by (cases e) auto
  then show thesis
  proof cases
    case 1
    then show thesis using established_typed[OF assms(1) lv] that by (simp add: dhmp_handle_ec_event_def) metis
  next
    case 2
    then show thesis using disconnected_typed[OF assms(1) lv] that by (simp add: dhmp_handle_ec_event_def) metis
  next
    case 3
    then show thesis using error_typed[OF assms(1) lv] that by (simp add: dhmp_handle_ec_event_def) metis
  qed (use that none in \<open>auto simp: dhmp_handle_ec_event_def\<close>)
qed

lemma request_srv_typed:
  assumes "srv_typed p ph" "\<not> live (ph (next_handle p))"
  obtains p' r where "dhmp_handle_ec_event L RDMA_CM_EVENT_CONNECT_REQUEST (next_handle p) (request_id l peer p) = Inr (p', r)"
    "srv_typed p' (ph(next_handle p := if r = 0 then Ph_connecting else Ph_closed))"
proof -
  let ?q = "request_id l peer p" and ?h = "next_handle p" and ?n = "next_trans p"
  obtain s where s: "conns_typed p s" and cli: "cm_cli p = None" and e: "env_ok p ph"
    and i: "\<And>h. live (ph h) \<Longrightarrow> (ph h = Ph_connecting \<or> ph h = Ph_up) \<and> trans_typed p (id_ctx p h) \<and> id_ctx p h \<in> members s"
    and inj: "\<And>h h'. live (ph h) \<Longrightarrow> live (ph h') \<Longrightarrow> id_ctx p h = id_ctx p h' \<Longrightarrow> h = h'"
    using assms(1) unfolding srv_typed_def by blast
  have kq: "keeps {} {} p ?q" "cm_srv ?q = cm_srv p" "next_trans ?q = ?n" by (simp_all add: request_id_def Let_def keeps_def)
  obtain p' r where c: "on_cm_connect_request L ?h ?q = Inr (p', r)" "keeps {} {} ?q p'"
      "cm_srv p' = Some s \<and> r \<noteq> 0 \<or> cm_srv p' = Some (enlist_connection ?n s) \<and> trans_typed p' ?n"
    using request_typed[OF conns_same[OF s kq(1,2)] kq(3)[symmetric], of L ?h] by metis
  have h: "dhmp_handle_ec_event L RDMA_CM_EVENT_CONNECT_REQUEST ?h ?q = Inr (p', r)" using c(1) by (simp add: dhmp_handle_ec_event_def)
  note f = request_frame[OF h]
  have k: "keeps {} {} p p'" by (rule keeps_trans0[OF kq(1) c(2)])
  have "cm_srv p = Some s" using s by (simp add: conns_typed_def)
  then obtain s' where s': "conns_typed p' s'" "members s \<subseteq> members s'" "r = 0 \<Longrightarrow> trans_typed p' ?n \<and> ?n \<in> members s'"
    using c(3)
  proof (elim disjE conjE)
    assume "cm_srv p' = Some s" "r \<noteq> 0"
    then show thesis using that[of s] conns_same[OF s k] \<open>cm_srv p = Some s\<close> by simp
  next
    assume "cm_srv p' = Some (enlist_connection ?n s)" "trans_typed p' ?n"
    then show thesis using that[OF enlist_typed[OF s k]] by (auto simp: members_enlist)
  qed
  have old: "id_ctx p' x = id_ctx p x \<and> x < ?h \<and> x \<noteq> ?h" if "live (ph x)" for x
    using that e f(1) by (auto simp: env_ok_def grows_def)
  have ty: "trans_typed p' (id_ctx p x)" "id_ctx p x \<noteq> ?n" if "live (ph x)" for x
    using i[OF that] typed_keeps[OF _ k] by (auto simp: trans_typed_def)
  have new: "id_ctx p' ?h = ?n" if "r = 0" using request_context[of L p l peer p'] h that by simp
  let ?ph = "ph(?h := if r = 0 then Ph_connecting else Ph_closed)"
  have "env_ok p' ?ph" using e f(1,3) by (auto simp: env_ok_def grows_def intro: less_le_trans)
  moreover have "(?ph x = Ph_connecting \<or> ?ph x = Ph_up) \<and> trans_typed p' (id_ctx p' x) \<and> id_ctx p' x \<in> members s'" if "live (?ph x)" for x
    using that i[of x] old[of x] ty[of x] s'(2,3) new by (auto simp: live_def split: if_splits)
  moreover have "x = y" if "live (?ph x)" "live (?ph y)" "id_ctx p' x = id_ctx p' y" for x y
    using that inj[of x y] old[of x] old[of y] ty[of x] ty[of y] new by (auto simp: live_def split: if_splits)
  moreover have "cm_cli p' = None" using f(2) cli by simp
  ultimately have "srv_typed p' ?ph" using s'(1) unfolding srv_typed_def by blast
  then show thesis by (rule that[OF h])
qed

lemma step_typed:
  assumes "cm_step (p, ph) (p', ph')" "srv_typed p ph"
  shows "srv_typed p' ph'"
  using assms(1)
proof (cases rule: cm_stepE)
  case (event e h L r)
  then show ?thesis using event_typed[OF assms(2) event(2), of L] by fastforce
next
  case (request l L peer r)
  have "\<not> live (ph (next_handle p))" using assms(2) by (auto simp: srv_typed_def env_ok_def)
  then show ?thesis using request_srv_typed[OF assms(2), of L l peer] request by fastforce
qed (use assms(2) in \<open>auto simp: srv_typed_def\<close>)

section \<open>Receive buffers\<close>

lemma slots_cover: "concat (map (\<lambda>off. [off ..< off + sz]) (map (\<lambda>i. i * sz) [0 ..< n])) = [0 ..< n * sz]"
proof (induction n)
  case (Suc n)
  have "[0 ..< n * sz] @ [n * sz ..< n * sz + sz] = [0 ..< Suc n * sz]"
    using upt_add_eq_append[of 0 "n * sz" sz] by (simp add: add.commute[of sz])
  then show ?case using Suc by simp
qed simp

lemma slots_exact: "RECV_REGION_SIZE div recv_slot_size r * recv_slot_size r = RECV_REGION_SIZE"
  by (simp add: recv_slot_size_def RECV_REGION_SIZE_def SINGLE_POLL_RECV_REGION_def SINGLE_NORM_RECV_REGION_def)

definition takes :: "nat \<Rightarrow> nat \<Rightarrow> rdma_proc \<Rightarrow> bool" where
  "takes t q p \<longleftrightarrow> qp (cm_trans p t) = Some q \<and> trans_state (cm_trans p t) \<le> DHMP_TRANSPORT_STATE_CONNECTED"

lemma post_appends: "dhmp_post_recv t off p = Inr p' \<Longrightarrow> takes t q p \<Longrightarrow> p' = p\<lparr>posted := (posted p)(q := posted p q @ [off])\<rparr>"
  by (auto simp: dhmp_post_recv_def Let_def takes_def res_simps split: if_splits)

lemma takes_posted [simp]: "takes t q (p\<lparr>posted := x\<rparr>) = takes t q p"
  by (simp add: takes_def)

lemma posts_append: "post_recvs t offs p = Inr p' \<Longrightarrow> takes t q p \<Longrightarrow> takes t q p' \<and> posted p' q = posted p q @ offs"
proof (induction offs arbitrary: p)
  case (Cons off offs)
  then obtain p1 where p1: "dhmp_post_recv t off p = Inr p1" "post_recvs t offs p1 = Inr p'" by (auto simp: res_simps)
  note e = post_appends[OF p1(1) Cons.prems(2)]
  have "takes t q p1" using Cons.prems(2) by (simp add: e)
  from Cons.IH[OF p1(2) this] show ?case by (simp add: e)
qed simp

lemma posts_run: "takes t q p \<Longrightarrow> recv_mr (cm_trans p t) \<noteq> None \<Longrightarrow> t \<notin> released p \<Longrightarrow>
    post_recvs t offs p = Inr (p\<lparr>posted := (posted p)(q := posted p q @ offs)\<rparr>)"
proof (induction offs arbitrary: p)
  case (Cons off offs)
  have "dhmp_post_recv t off p = Inr (p\<lparr>posted := (posted p)(q := posted p q @ [off])\<rparr>)"
    using Cons.prems by (auto simp: dhmp_post_recv_def takes_def dhmp_recv_task_create_def Let_def)
  then show ?case using Cons.IH[of "p\<lparr>posted := (posted p)(q := posted p q @ [off])\<rparr>"] Cons.prems by (simp add: fun_upd_def if_distrib cong: if_cong)
qed simp

text \<open>The buffers of the receives that completed well on the queue of \<open>t\<close>.\<close>

fun received :: "(wc \<times> bool) list \<Rightarrow> nat list" where
  "received [] = []"
| "received ((Wc_recv t off, True) # ws) = off # received ws"
| "received (_ # ws) = received ws"

definition serves_queue :: "nat \<Rightarrow> (wc \<times> bool) list \<Rightarrow> bool" where
  "serves_queue t ws \<longleftrightarrow> (\<forall>(w, ok) \<in> set ws. \<forall>t' off. w = Wc_recv t' off \<longrightarrow> t' = t)"

definition leaves_queues :: "(nat \<Rightarrow> rdma_proc \<Rightarrow> rdma_proc res) \<Rightarrow> bool" where
  "leaves_queues h \<longleftrightarrow> (\<forall>t p p' q. h t p = Inr p' \<longrightarrow> posted p' = posted p \<and> takes t q p' = takes t q p)"

lemma poll_reposts: "poll_cq_loop h ws p = Inr p' \<Longrightarrow> takes t q p \<Longrightarrow> leaves_queues h \<Longrightarrow> serves_queue t ws \<Longrightarrow>
    posted p' q = posted p q @ received ws"
proof (induction ws arbitrary: p rule: received.induct)
  case (2 t' off ws)
  have t': "t' = t" "serves_queue t ws" using 2(5) by (auto simp: serves_queue_def)
  from 2(2) t' obtain p1 p2 where p: "h t p = Inr p1" "dhmp_post_recv t off p1 = Inr p2" "poll_cq_loop h ws p2 = Inr p'"
    by (auto simp: dhmp_wc_success_handler_def res_simps)
  have k: "takes t q p1" "posted p1 = posted p" using 2(3,4) p(1) unfolding leaves_queues_def by blast+
  note e = post_appends[OF p(2) k(1)]
  show ?case using 2(1)[OF p(3) _ 2(4) t'(2)] k by (simp add: e)
qed (auto simp: serves_queue_def dhmp_wc_success_handler_def dhmp_wc_error_handler_def split: if_splits)

section \<open>Properties\<close>

definition start_server :: "rdma_proc \<Rightarrow> (nat \<Rightarrow> cm_phase) \<Rightarrow> bool" where
  "start_server p ph \<longleftrightarrow> cm_srv p = Some \<lparr>cm_watcher = None, cm_connections = 0, cm_clients = []\<rparr> \<and> cm_cli p = None \<and>
     released p \<subseteq> {..< next_trans p} \<and> (\<forall>h. ph h = Ph_idle \<or> ph h = Ph_listening)"

text \<open>C26: whatever connections come, end or fail, a server never meets a missing or freed resource: in every state it reaches
  from its start, the handler of each event that can come next and of each connection request returns, and
  the count of connections is the length of the list.\<close>

theorem server_progress:
  assumes "start_server p0 ph0" "cm_step\<^sup>*\<^sup>* (p0, ph0) (p, ph)"
  shows "(\<forall>e h L. event_allowed e (ph h) \<longrightarrow> (\<exists>p' r. dhmp_handle_ec_event L e h p = Inr (p', r))) \<and>
    (\<forall>l peer L. \<exists>p' r. dhmp_handle_ec_event L RDMA_CM_EVENT_CONNECT_REQUEST (next_handle p) (request_id l peer p) = Inr (p', r)) \<and>
    (\<exists>s. cm_srv p = Some s \<and> cm_connections s = int (length (cm_clients s)) \<and> distinct (cm_clients s))"
proof -
  have no: "\<not> live (ph0 h)" for h using assms(1) by (metis start_server_def live_def cm_phase.distinct)
  have "srv_typed (fst (p0, ph0)) (snd (p0, ph0))"
    using assms(1) no unfolding srv_typed_def conns_typed_def start_server_def env_ok_def by (auto simp: members_def)
  from cm_steps_keep[OF assms(2), of srv_typed, OF step_typed this] have t: "srv_typed p ph" by simp
  then have "\<not> live (ph (next_handle p))" by (auto simp: srv_typed_def env_ok_def)
  then show ?thesis using event_typed[OF t] request_srv_typed[OF t] t unfolding srv_typed_def conns_typed_def by metis
qed

lemma server_progress_witness:
  "let p = sample_proc (Some \<lparr>cm_watcher = None, cm_connections = 0, cm_clients = []\<rparr>) None; ph = (\<lambda>_. Ph_idle)(5 := Ph_listening)
   in \<exists>p1 r ph1 s. dhmp_handle_ec_event sample_lib RDMA_CM_EVENT_CONNECT_REQUEST 6 (request_id 5 \<lparr>sin_addr = 1, sin_port = 9\<rparr> p) = Inr (p1, r) \<and>
      cm_step (p, ph) (p1, ph1) \<and> cm_srv p1 = Some s \<and> cm_connections s = int (length (cm_clients s))"
proof -
  let ?p = "sample_proc (Some \<lparr>cm_watcher = None, cm_connections = 0, cm_clients = []\<rparr>) None"
  let ?ph = "(\<lambda>_. Ph_idle)(5 := Ph_listening)" and ?a = "\<lparr>sin_addr = 1, sin_port = 9\<rparr>"
  have s: "start_server ?p ?ph" by (simp add: start_server_def sample_proc_def)
  have n: "next_handle ?p = 6" by (simp add: sample_proc_def)
  obtain p1 r where h: "dhmp_handle_ec_event sample_lib RDMA_CM_EVENT_CONNECT_REQUEST (next_handle ?p) (request_id 5 ?a ?p) = Inr (p1, r)"
    using server_progress[OF s rtranclp.rtrancl_refl] by blast
  have step: "cm_step (?p, ?ph) (p1, ?ph(next_handle ?p := if r = 0 then Ph_connecting else Ph_closed))"
    by (rule step_request[OF _ h]) (simp add: sample_proc_def)
  from server_progress[OF s r_into_rtranclp[of cm_step, OF step]] step h show ?thesis unfolding Let_def n by blast
qed

text \<open>C27: the receive buffers of a connection: posting all of them posts every slot of the region once, the slots cover the
  region without overlap, and whatever receives complete well, their buffers go back on the queue, so that it holds the
  same buffers as after the first posting.\<close>

theorem recv_buffers:
  assumes "dhmp_post_all_recv t p = Inr p1" "takes t q p" "posted p q = []"
    and "takes t q p2" "mset (posted p2 q) + mset (received ws) = mset (posted p1 q)"
    and "leaves_queues h" "serves_queue t ws" "dhmp_comp_channel_handler h False ws p2 = Inr p3"
  shows "concat (map (\<lambda>off. [off ..< off + recv_slot_size (cm_trans p t)]) (posted p1 q)) = [0 ..< RECV_REGION_SIZE] \<and>
    mset (posted p3 q) = mset (posted p1 q)"
proof -
  let ?sz = "recv_slot_size (cm_trans p t)"
  have "posted p1 q = map (\<lambda>i. i * ?sz) [0 ..< RECV_REGION_SIZE div ?sz]"
    using posts_append[OF assms(1)[unfolded dhmp_post_all_recv_def Let_def] assms(2)] assms(3) by simp
  then have "concat (map (\<lambda>off. [off ..< off + ?sz]) (posted p1 q)) = [0 ..< RECV_REGION_SIZE]"
    by (simp only: slots_cover slots_exact)
  moreover have "posted p3 q = posted p2 q @ received ws"
    using poll_reposts[OF _ assms(4,6,7)] assms(8) by (simp add: dhmp_comp_channel_handler_def)
  ultimately show ?thesis using assms(5) by simp
qed

lemma recv_buffers_witness:
  "\<exists>p1 p3. dhmp_post_all_recv 0 (sample_proc None None) = Inr p1 \<and>
     dhmp_comp_channel_handler (\<lambda>_. Inr) False [(Wc_recv 0 0, True), (Wc_send, True)] (p1\<lparr>posted := (posted p1)(4 := tl (posted p1 4))\<rparr>) = Inr p3 \<and>
     concat (map (\<lambda>off. [off ..< off + SINGLE_POLL_RECV_REGION]) (posted p1 4)) = [0 ..< RECV_REGION_SIZE] \<and>
     mset (posted p3 4) = mset (posted p1 4)"
proof -
  have slots: "RECV_REGION_SIZE div SINGLE_POLL_RECV_REGION = 8" "recv_slot_size sample_trans = SINGLE_POLL_RECV_REGION"
    by (simp_all add: recv_slot_size_def sample_trans_def RECV_REGION_SIZE_def SINGLE_POLL_RECV_REGION_def)
  have up: "[0 ..< 8] = [0, 1, 2, 3, 4, 5, 6, 7 :: nat]" by code_simp
  let ?p1 = "(sample_proc None None)\<lparr>posted := (\<lambda>_. [])(4 := map (\<lambda>i. i * SINGLE_POLL_RECV_REGION) [0 ..< 8])\<rparr>"
  let ?p2 = "?p1\<lparr>posted := (posted ?p1)(4 := tl (posted ?p1 4))\<rparr>"
  have "takes 0 4 (sample_proc None None)" by (simp add: takes_def sample_proc_def sample_trans_def state_order)
  from posts_run[OF this, of "map (\<lambda>i. i * SINGLE_POLL_RECV_REGION) [0 ..< 8]"]
  have a: "dhmp_post_all_recv 0 (sample_proc None None) = Inr ?p1"
    unfolding dhmp_post_all_recv_def Let_def by (simp add: sample_proc_def slots) (simp add: sample_trans_def)
  obtain p3 where h: "dhmp_comp_channel_handler (\<lambda>_. Inr) False [(Wc_recv 0 0, True), (Wc_send, True)] ?p2 = Inr p3"
    by (simp add: dhmp_comp_channel_handler_def dhmp_wc_success_handler_def dhmp_post_recv_def dhmp_recv_task_create_def sample_proc_def sample_trans_def state_order)
  have t: "takes 0 4 (sample_proc None None)" "takes 0 4 ?p2" by (simp_all add: takes_def sample_proc_def sample_trans_def state_order)
  have "mset (posted ?p2 4) + mset (received [(Wc_recv 0 0, True), (Wc_send, True)]) = mset (posted ?p1 4)" by (simp add: up)
  from recv_buffers[OF a t(1) _ t(2) this _ _ h] show ?thesis using a h
    by (simp add: leaves_queues_def serves_queue_def sample_proc_def slots(2))
qed

end
