(* ===== verification/Dhmp_Config.thy ===== *)
theory Dhmp_Config
  imports Dhmp_Types
begin

text \<open>
  \<open>src/dhmp_client/src/dhmp_config.c\<close>: reading the configuration file into \<open>struct dhmp_config\<close>, and finding which of
  the listed servers this machine is. The document libxml returns is an argument, and so are the network
  interfaces the kernel lists. The last part writes a configuration as a document and shows that reading gives it back.
\<close>

section \<open>Data\<close>

text \<open>An element: its name, what \<open>xmlNodeListGetString\<close> gives for its children, and the children.\<close>

datatype xml_node = Xml_node (xml_name: string) (xml_string: "string option") (xml_children: "xml_node list")

record dhmp_net_info =
  nic_name :: string
  net_addr :: string
  net_port :: int

record dhmp_simu_info =
  simu_rdelay :: int
  simu_wdelay :: int
  simu_knum :: int

record dhmp_mem_info =
  dram_node :: int
  nvm_node :: int

text \<open>The arrays have \<open>DHMP_SERVER_NODE_NUM\<close> elements. \<open>global_log_level\<close> is a variable of its own.\<close>

record dhmp_config =
  net_infos :: "dhmp_net_info list"
  simu_infos :: "dhmp_simu_info list"
  mem_infos :: "dhmp_mem_info list"
  curnet_id :: int
  nets_cnt :: nat
  watcher_addr :: string
  watcher_port :: int
  global_log_level :: int

definition DHMP_ADDR_LEN :: nat where "DHMP_ADDR_LEN = 18"
definition DHMA_NIC_NAME_LEN :: nat where "DHMA_NIC_NAME_LEN = 10"

section \<open>Text\<close>

text \<open>\<open>atoi\<close> of the C library: blanks, a sign, digits up to the first other character, cut to an \<open>int\<close>.\<close>

definition digit_val :: "char \<Rightarrow> int" where
  "digit_val c = int (of_char c) - 48"

definition is_digit :: "char \<Rightarrow> bool" where
  "is_digit c \<longleftrightarrow> 48 \<le> (of_char c :: nat) \<and> (of_char c :: nat) \<le> 57"

definition is_blank :: "char \<Rightarrow> bool" where
  "is_blank c \<longleftrightarrow> (of_char c :: nat) = 32 \<or> 9 \<le> (of_char c :: nat) \<and> (of_char c :: nat) \<le> 13"

fun digits_val :: "int \<Rightarrow> string \<Rightarrow> int" where
  "digits_val acc [] = acc"
| "digits_val acc (c # cs) = (if is_digit c then digits_val (10 * acc + digit_val c) cs else acc)"

definition atoi :: "string \<Rightarrow> int" where
  "atoi s =
     (let v = (case dropWhile is_blank s of
                 [] \<Rightarrow> 0
               | c # cs \<Rightarrow> if c = CHR ''-'' then - digits_val 0 cs else if c = CHR ''+'' then digits_val 0 cs else digits_val 0 (c # cs))
      in sint32 (max (- (2 ^ 63)) (min (2 ^ 63 - 1) v)))"

text \<open>\<open>memcpy\<close> of a text with its end into an array of \<open>n\<close> characters.\<close>

definition copy_text :: "nat \<Rightarrow> string \<Rightarrow> string res" where
  "copy_text n s = (if n < length s + 1 then Inl Buffer_overflow else Inr s)"

definition node_text :: "xml_node \<Rightarrow> string res" where
  "node_text x = (case xml_string x of None \<Rightarrow> Inl Null_deref | Some s \<Rightarrow> Inr s)"

definition node_int :: "xml_node \<Rightarrow> int res" where
  "node_int x = rbind (node_text x) (\<lambda>s. Inr (atoi s))"

section \<open>Parsing\<close>

fun dhmp_parse_watcher_node :: "xml_node list \<Rightarrow> dhmp_config \<Rightarrow> dhmp_config res" where
  "dhmp_parse_watcher_node [] c = Inr c"
| "dhmp_parse_watcher_node (x # xs) c =
     rbind (if xml_name x = ''addr'' then rbind (rbind (node_text x) (copy_text DHMP_ADDR_LEN)) (\<lambda>s. Inr (c\<lparr>watcher_addr := s\<rparr>))
            else if xml_name x = ''port'' then rbind (node_int x) (\<lambda>v. Inr (c\<lparr>watcher_port := v\<rparr>))
            else Inr c)
       (dhmp_parse_watcher_node xs)"

fun dhmp_parse_client_node :: "xml_node list \<Rightarrow> dhmp_config \<Rightarrow> dhmp_config res" where
  "dhmp_parse_client_node [] c = Inr c"
| "dhmp_parse_client_node (x # xs) c =
     rbind (if xml_name x = ''log_level'' then rbind (node_int x) (\<lambda>v. Inr (c\<lparr>global_log_level := v\<rparr>)) else Inr c)
       (dhmp_parse_client_node xs)"

text \<open>The index is checked nowhere; an element past the arrays' end is out of bounds.\<close>

definition upd_net :: "nat \<Rightarrow> (dhmp_net_info \<Rightarrow> dhmp_net_info) \<Rightarrow> dhmp_config \<Rightarrow> dhmp_config res" where
  "upd_net i f c = (if i < length (net_infos c) then Inr (c\<lparr>net_infos := (net_infos c)[i := f (net_infos c ! i)]\<rparr>) else Inl Out_of_bounds)"

definition upd_simu :: "nat \<Rightarrow> (dhmp_simu_info \<Rightarrow> dhmp_simu_info) \<Rightarrow> dhmp_config \<Rightarrow> dhmp_config res" where
  "upd_simu i f c = (if i < length (simu_infos c) then Inr (c\<lparr>simu_infos := (simu_infos c)[i := f (simu_infos c ! i)]\<rparr>) else Inl Out_of_bounds)"

definition upd_mem :: "nat \<Rightarrow> (dhmp_mem_info \<Rightarrow> dhmp_mem_info) \<Rightarrow> dhmp_config \<Rightarrow> dhmp_config res" where
  "upd_mem i f c = (if i < length (mem_infos c) then Inr (c\<lparr>mem_infos := (mem_infos c)[i := f (mem_infos c ! i)]\<rparr>) else Inl Out_of_bounds)"

definition server_field :: "nat \<Rightarrow> xml_node \<Rightarrow> dhmp_config \<Rightarrow> dhmp_config res" where
  "server_field i x c =
     (let nm = xml_name x
      in if nm = ''nic_name'' then
           rbind (rbind (node_text x) (copy_text DHMA_NIC_NAME_LEN)) (\<lambda>s. upd_net i (\<lambda>n. n\<lparr>nic_name := s\<rparr>) c)
         else if nm = ''addr'' then
           rbind (rbind (node_text x) (copy_text DHMP_ADDR_LEN)) (\<lambda>s. upd_net i (\<lambda>n. n\<lparr>net_addr := s\<rparr>) c)
         else if nm = ''port'' then rbind (node_int x) (\<lambda>v. upd_net i (\<lambda>n. n\<lparr>net_port := v\<rparr>) c)
         else if nm = ''rdelay'' then rbind (node_int x) (\<lambda>v. upd_simu i (\<lambda>n. n\<lparr>simu_rdelay := v\<rparr>) c)
         else if nm = ''wdelay'' then rbind (node_int x) (\<lambda>v. upd_simu i (\<lambda>n. n\<lparr>simu_wdelay := v\<rparr>) c)
         else if nm = ''knum'' then rbind (node_int x) (\<lambda>v. upd_simu i (\<lambda>n. n\<lparr>simu_knum := v\<rparr>) c)
         else if nm = ''dram_node'' then rbind (node_int x) (\<lambda>v. upd_mem i (\<lambda>n. n\<lparr>dram_node := v\<rparr>) c)
         else if nm = ''nvm_node'' then rbind (node_int x) (\<lambda>v. upd_mem i (\<lambda>n. n\<lparr>nvm_node := v\<rparr>) c)
         else Inr c)"

fun dhmp_parse_server_node :: "nat \<Rightarrow> xml_node list \<Rightarrow> dhmp_config \<Rightarrow> dhmp_config res" where
  "dhmp_parse_server_node i [] c = Inr c"
| "dhmp_parse_server_node i (x # xs) c = rbind (server_field i x c) (dhmp_parse_server_node i xs)"

section \<open>Which server this is\<close>

record net_if =
  if_name :: string
  if_addr :: string
  if_loopback :: bool
  if_up :: bool

text \<open>
  The inner loop runs \<open>n\<close> times from where \<open>ifr\<close> stands, which is where it stopped for the server before; past the
  interfaces the kernel listed it reads memory that was never written.
\<close>

fun scan_ifs :: "nat \<Rightarrow> net_if list \<Rightarrow> string \<Rightarrow> (net_if option \<times> net_if list) res" where
  "scan_ifs 0 ifs nic = Inr (None, ifs)"
| "scan_ifs (Suc n) [] nic = Inl Out_of_bounds"
| "scan_ifs (Suc n) (x # xs) nic =
     (if \<not> if_loopback x \<and> if_up x \<and> if_name x = nic then Inr (Some x, x # xs) else scan_ifs n xs nic)"

fun find_net :: "string \<Rightarrow> dhmp_net_info list \<Rightarrow> nat option" where
  "find_net a [] = None"
| "find_net a (n # ns) = (if net_addr n = a then Some 0 else map_option Suc (find_net a ns))"

fun curnode_loop :: "nat \<Rightarrow> nat list \<Rightarrow> net_if list \<Rightarrow> dhmp_config \<Rightarrow> dhmp_config option res" where
  "curnode_loop dev_num [] ifr c = Inr None"
| "curnode_loop dev_num (k # ks) ifr c =
     (if length (net_infos c) \<le> k \<and> 0 < dev_num then Inl Out_of_bounds
      else
        rbind (scan_ifs dev_num ifr (nic_name (net_infos c ! k))) (\<lambda>(found, ifr').
          case found of
            None \<Rightarrow> curnode_loop dev_num ks ifr' c
          | Some x \<Rightarrow>
              (case find_net (if_addr x) (take (nets_cnt c) (net_infos c)) of
                 Some i \<Rightarrow> Inr (Some (c\<lparr>curnet_id := int i\<rparr>))
               | None \<Rightarrow>
                   if length (net_infos c) < nets_cnt c then Inl Out_of_bounds
                   else curnode_loop dev_num ks ifr' c)))"

definition dhmp_set_curnode_id :: "net_if list \<Rightarrow> dhmp_config \<Rightarrow> dhmp_config res" where
  "dhmp_set_curnode_id ifs c =
     rbind (curnode_loop (length ifs) [0 ..< nets_cnt c] ifs c)
       (\<lambda>r. case r of None \<Rightarrow> Inl Process_exit | Some c' \<Rightarrow> Inr c')"

section \<open>Reading the file\<close>

fun config_loop :: "xml_node list \<Rightarrow> nat \<Rightarrow> dhmp_config \<Rightarrow> dhmp_config res" where
  "config_loop [] index c = Inr c"
| "config_loop (x # xs) index c =
     rbind (if xml_name x = ''watcher'' then dhmp_parse_watcher_node (xml_children x) c else Inr c) (\<lambda>c1.
     rbind (if xml_name x = ''client'' then dhmp_parse_client_node (xml_children x) c1 else Inr c1) (\<lambda>c2.
       if xml_name x = ''server'' then
         rbind (dhmp_parse_server_node index (xml_children x) c2) (\<lambda>c3. config_loop xs (Suc index) (c3\<lparr>nets_cnt := nets_cnt c3 + 1\<rparr>))
       else config_loop xs index c2))"

text \<open>\<open>doc\<close> is the parsed file, if it could be parsed, with its root element, if it has one.\<close>

definition dhmp_config_init :: "xml_node option option \<Rightarrow> net_if list \<Rightarrow> bool \<Rightarrow> dhmp_config \<Rightarrow> (dhmp_config \<times> int) res" where
  "dhmp_config_init doc ifs is_client c =
     (case doc of
        None \<Rightarrow> Inr (c, -1)
      | Some None \<Rightarrow> Inr (c, -1)
      | Some (Some root) \<Rightarrow>
          if xml_name root \<noteq> ''dhmp_config'' then Inr (c, -1)
          else
            rbind (config_loop (xml_children root) 0 (c\<lparr>nets_cnt := 0, curnet_id := -1\<rparr>)) (\<lambda>c1.
              rbind (if is_client then Inr c1 else dhmp_set_curnode_id ifs c1) (\<lambda>c2. Inr (c2, 0))))"

section \<open>Writing a configuration\<close>

fun digits :: "nat \<Rightarrow> string" where
  "digits n = (if n < 10 then [char_of (48 + n)] else digits (n div 10) @ [char_of (48 + n mod 10)])"

declare digits.simps [simp del]

definition int_text :: "int \<Rightarrow> string" where
  "int_text v = (if v < 0 then CHR ''-'' # digits (nat (- v)) else digits (nat v))"

lemma digit_char: "d < 10 \<Longrightarrow> is_digit (char_of (48 + d))" "d < 10 \<Longrightarrow> digit_val (char_of (48 + d)) = int d"
  by (simp_all add: is_digit_def digit_val_def)

lemma digits_val_append: "\<forall>c \<in> set xs. is_digit c \<Longrightarrow> digits_val acc (xs @ ys) = digits_val (digits_val acc xs) ys"
  by (induction xs arbitrary: acc) auto

lemma digits_digits: "\<forall>c \<in> set (digits n). is_digit c"
proof (induction n rule: digits.induct)
  case (1 n)
  then show ?case by (subst digits.simps) (auto simp: digit_char)
qed

lemma digits_value: "digits_val 0 (digits n) = int n"
proof (induction n rule: digits.induct)
  case (1 n)
  show ?case
  proof (cases "n < 10")
    case True
    then show ?thesis by (subst digits.simps) (simp add: digit_char)
  next
    case False
    have "10 * int (n div 10) + int (n mod 10) = int n" by (metis mult_div_mod_eq of_nat_add of_nat_mult of_nat_numeral)
    then show ?thesis using 1 False by (subst digits.simps) (simp add: digits_val_append digits_digits digit_char)
  qed
qed

lemma digits_head: obtains c cs where "digits n = c # cs" "is_digit c"
  using digits_digits[of n] by (cases "digits n") (auto simp: digits.simps[of n] split: if_splits)

lemma digit_not_blank: "is_digit c \<Longrightarrow> \<not> is_blank c \<and> c \<noteq> CHR ''-'' \<and> c \<noteq> CHR ''+''"
  by (auto simp: is_digit_def is_blank_def)

lemma sint_cut: "- (2 ^ 31) \<le> v \<Longrightarrow> v < 2 ^ 31 \<Longrightarrow> sint32 (max (- (2 ^ 63)) (min (2 ^ 63 - 1) v)) = v"
  by (simp add: sint32_id max_def min_def)

lemma atoi_text:
  assumes "- (2 ^ 31) \<le> v" "v < 2 ^ 31"
  shows "atoi (int_text v) = v"
proof (cases "v < 0")
  case True
  have "atoi (int_text v) = sint32 (max (- (2 ^ 63)) (min (2 ^ 63 - 1) (- digits_val 0 (digits (nat (- v))))))"
    using True by (simp add: atoi_def int_text_def is_blank_def Let_def)
  then show ?thesis using True sint_cut[OF assms] by (simp add: digits_value)
next
  case False
  obtain c cs where c: "digits (nat v) = c # cs" "is_digit c" by (rule digits_head)
  have "atoi (int_text v) = sint32 (max (- (2 ^ 63)) (min (2 ^ 63 - 1) (digits_val 0 (digits (nat v)))))"
    using False c digit_not_blank[OF c(2)] by (simp add: atoi_def int_text_def Let_def)
  then show ?thesis using False sint_cut[OF assms] by (simp add: digits_value)
qed

definition text_leaf :: "string \<Rightarrow> string \<Rightarrow> xml_node" where
  "text_leaf n s = Xml_node n (Some s) []"

definition int_leaf :: "string \<Rightarrow> int \<Rightarrow> xml_node" where
  "int_leaf n v = Xml_node n (Some (int_text v)) []"

definition server_xml :: "dhmp_net_info \<times> dhmp_simu_info \<times> dhmp_mem_info \<Rightarrow> xml_node" where
  "server_xml = (\<lambda>(n, s, m). Xml_node ''server'' None
     [text_leaf ''nic_name'' (nic_name n), text_leaf ''addr'' (net_addr n), int_leaf ''port'' (net_port n),
      int_leaf ''rdelay'' (simu_rdelay s), int_leaf ''wdelay'' (simu_wdelay s), int_leaf ''knum'' (simu_knum s),
      int_leaf ''dram_node'' (dram_node m), int_leaf ''nvm_node'' (nvm_node m)])"

definition config_servers :: "dhmp_config \<Rightarrow> (dhmp_net_info \<times> dhmp_simu_info \<times> dhmp_mem_info) list" where
  "config_servers c = take (nets_cnt c) (zip (net_infos c) (zip (simu_infos c) (mem_infos c)))"

definition config_xml :: "dhmp_config \<Rightarrow> xml_node" where
  "config_xml c = Xml_node ''dhmp_config'' None
     (Xml_node ''client'' None [int_leaf ''log_level'' (global_log_level c)] #
      Xml_node ''watcher'' None [text_leaf ''addr'' (watcher_addr c), int_leaf ''port'' (watcher_port c)] #
      map server_xml (config_servers c))"

definition is_int :: "int \<Rightarrow> bool" where
  "is_int v \<longleftrightarrow> - (2 ^ 31) \<le> v \<and> v < 2 ^ 31"

fun server_fits :: "dhmp_net_info \<times> dhmp_simu_info \<times> dhmp_mem_info \<Rightarrow> bool" where
  "server_fits (n, s, m) \<longleftrightarrow> length (nic_name n) < DHMA_NIC_NAME_LEN \<and> length (net_addr n) < DHMP_ADDR_LEN \<and> is_int (net_port n) \<and>
     is_int (simu_rdelay s) \<and> is_int (simu_wdelay s) \<and> is_int (simu_knum s) \<and> is_int (dram_node m) \<and> is_int (nvm_node m)"

definition arrays_ok :: "dhmp_config \<Rightarrow> bool" where
  "arrays_ok c \<longleftrightarrow> length (net_infos c) = DHMP_SERVER_NODE_NUM \<and> length (simu_infos c) = DHMP_SERVER_NODE_NUM \<and>
     length (mem_infos c) = DHMP_SERVER_NODE_NUM"

definition storable :: "dhmp_config \<Rightarrow> bool" where
  "storable c \<longleftrightarrow> arrays_ok c \<and> nets_cnt c \<le> DHMP_SERVER_NODE_NUM \<and> (\<forall>t \<in> set (config_servers c). server_fits t) \<and>
     length (watcher_addr c) < DHMP_ADDR_LEN \<and> is_int (watcher_port c) \<and> is_int (global_log_level c)"

lemma read_int_leaf: "is_int v \<Longrightarrow> node_int (int_leaf n v) = Inr v"
  by (simp add: node_int_def node_text_def int_leaf_def atoi_text is_int_def)

lemma read_text_leaf: "length s < n \<Longrightarrow> rbind (node_text (text_leaf nm s)) (copy_text n) = Inr s"
  by (simp add: node_text_def text_leaf_def copy_text_def)

lemma leaf_names [simp]: "xml_name (text_leaf n s) = n" "xml_name (int_leaf n v) = n" "xml_name (server_xml t) = ''server''"
  by (simp_all add: text_leaf_def int_leaf_def server_xml_def split_beta)

lemma arrays_upd:
  assumes "arrays_ok c" "i < DHMP_SERVER_NODE_NUM"
  shows "upd_net i f c = Inr (c\<lparr>net_infos := (net_infos c)[i := f (net_infos c ! i)]\<rparr>)"
    "upd_simu i g c = Inr (c\<lparr>simu_infos := (simu_infos c)[i := g (simu_infos c ! i)]\<rparr>)"
    "upd_mem i h c = Inr (c\<lparr>mem_infos := (mem_infos c)[i := h (mem_infos c ! i)]\<rparr>)"
  using assms by (simp_all add: upd_net_def upd_simu_def upd_mem_def arrays_ok_def)

lemma infos_set:
  fixes x n :: dhmp_net_info and y m :: dhmp_simu_info and z k :: dhmp_mem_info
  shows "x\<lparr>nic_name := nic_name n, net_addr := net_addr n, net_port := net_port n\<rparr> = n"
    "y\<lparr>simu_rdelay := simu_rdelay m, simu_wdelay := simu_wdelay m, simu_knum := simu_knum m\<rparr> = m"
    "z\<lparr>dram_node := dram_node k, nvm_node := nvm_node k\<rparr> = k"
  by simp_all

lemma take_update_snoc: "i < length xs \<Longrightarrow> take (Suc i) (xs[i := t]) = take i xs @ [t]"
  by (simp add: take_Suc_conv_app_nth)

lemma take_snoc_split:
  assumes "take (Suc i) xs = take i ys @ [t]" "i < length xs" "i \<le> length ys"
  shows "take i xs = take i ys" "drop i xs = t # drop (Suc i) xs"
proof -
  have e: "take i xs @ [xs ! i] = take i ys @ [t]" using assms(1,2) by (simp add: take_Suc_conv_app_nth)
  then show "take i xs = take i ys" by simp
  show "drop i xs = t # drop (Suc i) xs" using e assms(2) by (metis Cons_nth_drop_Suc last_snoc)
qed

text \<open>Reading a written server stores it at its index.\<close>

lemma parse_server:
  assumes "arrays_ok c" "i < DHMP_SERVER_NODE_NUM" "server_fits (n, s, m)"
  shows "dhmp_parse_server_node i (xml_children (server_xml (n, s, m))) c =
    Inr (c\<lparr>net_infos := (net_infos c)[i := n], simu_infos := (simu_infos c)[i := s], mem_infos := (mem_infos c)[i := m]\<rparr>)"
  using assms
  by (simp add: server_xml_def server_field_def read_int_leaf read_text_leaf upd_net_def upd_simu_def upd_mem_def arrays_ok_def infos_set)

lemma parse_servers:
  assumes "arrays_ok c" "i + length ts \<le> DHMP_SERVER_NODE_NUM" "\<forall>t \<in> set ts. server_fits t"
  shows "\<exists>c'. config_loop (map server_xml ts) i c = Inr c' \<and> arrays_ok c' \<and> nets_cnt c' = nets_cnt c + length ts \<and>
    take (length ts) (drop i (zip (net_infos c') (zip (simu_infos c') (mem_infos c')))) = ts \<and>
    take i (zip (net_infos c') (zip (simu_infos c') (mem_infos c'))) = take i (zip (net_infos c) (zip (simu_infos c) (mem_infos c))) \<and>
    curnet_id c' = curnet_id c \<and> watcher_addr c' = watcher_addr c \<and> watcher_port c' = watcher_port c \<and> global_log_level c' = global_log_level c"
  using assms
proof (induction ts arbitrary: i c)
  case (Cons t ts)
  obtain n s m where t: "t = (n, s, m)" by (cases t)
  let ?c = "c\<lparr>net_infos := (net_infos c)[i := n], simu_infos := (simu_infos c)[i := s], mem_infos := (mem_infos c)[i := m],
    nets_cnt := nets_cnt c + 1\<rparr>"
  have i: "i < DHMP_SERVER_NODE_NUM" using Cons.prems(2) by simp
  have step: "config_loop (map server_xml (t # ts)) i c = config_loop (map server_xml ts) (Suc i) ?c"
    using parse_server[OF Cons.prems(1) i, of n s m] Cons.prems(3) by (simp add: t)
  have ok: "arrays_ok ?c" using Cons.prems(1) by (simp add: arrays_ok_def)
  have z: "zip (net_infos ?c) (zip (simu_infos ?c) (mem_infos ?c)) = (zip (net_infos c) (zip (simu_infos c) (mem_infos c)))[i := (n, s, m)]"
    by (simp add: update_zip)
  obtain c' where c': "config_loop (map server_xml ts) (Suc i) ?c = Inr c'" "arrays_ok c'" "nets_cnt c' = nets_cnt ?c + length ts"
      "take (length ts) (drop (Suc i) (zip (net_infos c') (zip (simu_infos c') (mem_infos c')))) = ts"
      "take (Suc i) (zip (net_infos c') (zip (simu_infos c') (mem_infos c'))) = take (Suc i) (zip (net_infos ?c) (zip (simu_infos ?c) (mem_infos ?c)))"
      "curnet_id c' = curnet_id ?c" "watcher_addr c' = watcher_addr ?c" "watcher_port c' = watcher_port ?c" "global_log_level c' = global_log_level ?c"
    using Cons.IH[OF ok, of "Suc i"] Cons.prems(2,3) by auto
  let ?z = "zip (net_infos c') (zip (simu_infos c') (mem_infos c'))" and ?old = "zip (net_infos c) (zip (simu_infos c) (mem_infos c))"
  have l: "i < length ?z" "i < length ?old" using c'(2) Cons.prems(1) i by (simp_all add: arrays_ok_def)
  have up: "take (Suc i) (?old[i := (n, s, m)]) = take i ?old @ [(n, s, m)]" by (rule take_update_snoc[OF l(2)])
  have tk: "take (Suc i) ?z = take i ?old @ [t]" unfolding t by (rule trans[OF c'(5) trans[OF arg_cong[OF z, of "take (Suc i)"] up]])
  note sp = take_snoc_split[OF tk l(1) less_imp_le[OF l(2)]]
  have "take (length (t # ts)) (drop i ?z) = t # ts" unfolding sp(2) using c'(4) by simp
  then show ?case unfolding step using c'(1,2,3,6,7,8,9) sp(1) by auto
qed simp

section \<open>A configuration of two servers\<close>

definition sample_net :: "string \<Rightarrow> string \<Rightarrow> dhmp_net_info" where
  "sample_net nic a = \<lparr>nic_name = nic, net_addr = a, net_port = 39300\<rparr>"

definition sample_config :: dhmp_config where
  "sample_config = \<lparr>net_infos = [sample_net ''ib0'' ''10.0.0.1'', sample_net ''ib1'' ''10.0.0.2'', sample_net [] []],
     simu_infos = replicate 3 \<lparr>simu_rdelay = 0, simu_wdelay = 150, simu_knum = 1\<rparr>, mem_infos = replicate 3 \<lparr>dram_node = 0, nvm_node = 1\<rparr>,
     curnet_id = -1, nets_cnt = 2, watcher_addr = ''10.0.0.9'', watcher_port = -1, global_log_level = 2\<rparr>"

definition sample_if :: "string \<Rightarrow> string \<Rightarrow> net_if" where
  "sample_if n a = \<lparr>if_name = n, if_addr = a, if_loopback = False, if_up = True\<rparr>"

section \<open>Properties\<close>

text \<open>C34: reading a configuration file gives the configuration it was written from: for any configuration of at most three servers
  whose texts fit their arrays and whose numbers are machine integers, whatever the structure held before.\<close>

theorem config_roundtrip:
  assumes "storable c" "arrays_ok c0"
  shows "\<exists>c1. dhmp_config_init (Some (Some (config_xml c))) ifs True c0 = Inr (c1, 0) \<and> nets_cnt c1 = nets_cnt c \<and>
    config_servers c1 = config_servers c \<and> watcher_addr c1 = watcher_addr c \<and> watcher_port c1 = watcher_port c \<and>
    global_log_level c1 = global_log_level c \<and> curnet_id c1 = -1"
proof -
  let ?c = "c0\<lparr>nets_cnt := 0, curnet_id := -1, global_log_level := global_log_level c, watcher_addr := watcher_addr c, watcher_port := watcher_port c\<rparr>"
  have ok: "arrays_ok ?c" using assms(2) by (simp add: arrays_ok_def)
  have n: "length (config_servers c) = nets_cnt c" using assms(1) by (simp add: storable_def arrays_ok_def config_servers_def)
  have "0 + length (config_servers c) \<le> DHMP_SERVER_NODE_NUM" "\<forall>t \<in> set (config_servers c). server_fits t"
    using assms(1) n by (auto simp: storable_def)
  from parse_servers[OF ok this] obtain c1 where c1: "config_loop (map server_xml (config_servers c)) 0 ?c = Inr c1"
      "nets_cnt c1 = nets_cnt c" "take (nets_cnt c) (zip (net_infos c1) (zip (simu_infos c1) (mem_infos c1))) = config_servers c"
      "curnet_id c1 = -1" "watcher_addr c1 = watcher_addr c" "watcher_port c1 = watcher_port c" "global_log_level c1 = global_log_level c"
    unfolding n by auto
  have "dhmp_config_init (Some (Some (config_xml c))) ifs True c0 = Inr (c1, 0)"
    using c1(1) assms(1) by (simp add: dhmp_config_init_def config_xml_def read_int_leaf read_text_leaf storable_def)
  moreover have "config_servers c1 = config_servers c" using c1(2,3) by (simp add: config_servers_def)
  ultimately show ?thesis using c1 by blast
qed

lemma config_roundtrip_witness:
  "\<exists>c1. dhmp_config_init (Some (Some (config_xml sample_config))) [] True (sample_config\<lparr>watcher_port := 7, nets_cnt := 9\<rparr>) = Inr (c1, 0) \<and>
     nets_cnt c1 = 2 \<and> config_servers c1 = config_servers sample_config \<and> watcher_port c1 = -1"
proof -
  have a: "arrays_ok sample_config" "arrays_ok (sample_config\<lparr>watcher_port := 7, nets_cnt := 9\<rparr>)"
    by (simp_all add: arrays_ok_def sample_config_def DHMP_SERVER_NODE_NUM_def)
  have "storable sample_config"
    using a(1) by (simp add: storable_def config_servers_def sample_config_def sample_net_def is_int_def numeral_2_eq_2 numeral_3_eq_3
        DHMP_SERVER_NODE_NUM_def DHMP_ADDR_LEN_def DHMA_NIC_NAME_LEN_def)
  from config_roundtrip[OF this a(2), of "[]"] show ?thesis by (auto simp: sample_config_def)
qed

lemma scan_found: "scan_ifs n ifs nic = Inr (Some x, rest) \<Longrightarrow> x \<in> set ifs \<and> \<not> if_loopback x \<and> if_up x \<and> if_name x = nic \<and> set rest \<subseteq> set ifs"
  by (induction n ifs nic rule: scan_ifs.induct) (auto split: if_splits)

lemma scan_rest: "scan_ifs n ifs nic = Inr (None, rest) \<Longrightarrow> set rest \<subseteq> set ifs"
  by (induction n ifs nic rule: scan_ifs.induct) (auto split: if_splits)

lemma find_net_found: "find_net a ns = Some i \<Longrightarrow> i < length ns \<and> net_addr (ns ! i) = a"
  by (induction ns arbitrary: i) (auto split: if_splits)

lemma curnode_loop_found:
  assumes "curnode_loop n ks ifr c = Inr (Some c')"
  shows "\<exists>k \<in> set ks. \<exists>x \<in> set ifr. \<exists>i. \<not> if_loopback x \<and> if_up x \<and> if_name x = nic_name (net_infos c ! k) \<and>
    i < nets_cnt c \<and> i < length (net_infos c) \<and> net_addr (net_infos c ! i) = if_addr x \<and> c' = c\<lparr>curnet_id := int i\<rparr>"
  using assms
proof (induction ks arbitrary: ifr)
  case (Cons k ks)
  obtain found ifr' where s: "scan_ifs n ifr (nic_name (net_infos c ! k)) = Inr (found, ifr')"
    using Cons.prems by (auto simp: res_simps split: if_splits)
  show ?case
  proof (cases "found = None \<or> find_net (if_addr (the found)) (take (nets_cnt c) (net_infos c)) = None")
    case True
    then have "curnode_loop n ks ifr' c = Inr (Some c')" using Cons.prems s by (auto split: if_splits option.splits)
    moreover have "set ifr' \<subseteq> set ifr" using s scan_found scan_rest by (cases found) auto
    ultimately show ?thesis using Cons.IH by fastforce
  next
    case False
    then obtain x i where x: "found = Some x" "find_net (if_addr x) (take (nets_cnt c) (net_infos c)) = Some i" by auto
    then have "c' = c\<lparr>curnet_id := int i\<rparr>" using Cons.prems s by (auto split: if_splits)
    moreover have "x \<in> set ifr \<and> \<not> if_loopback x \<and> if_up x \<and> if_name x = nic_name (net_infos c ! k)"
      using scan_found[of n ifr _ x ifr'] s x(1) by blast
    moreover have "i < nets_cnt c \<and> i < length (net_infos c) \<and> net_addr (net_infos c ! i) = if_addr x" using find_net_found[OF x(2)] by auto
    ultimately show ?thesis by (intro bexI[of _ k] bexI[of _ x] exI[of _ i]) auto
  qed
qed simp

text \<open>A server that takes itself for number \<open>i\<close> is that server: the address listed for \<open>i\<close> is one of this machine's, on an
  interface that is up, no loopback, and named in the file; nothing else of the configuration changes.\<close>

theorem curnode_is_local:
  assumes "dhmp_set_curnode_id ifs c = Inr c'"
  shows "\<exists>k < nets_cnt c. \<exists>x \<in> set ifs. \<exists>i < nets_cnt c. \<not> if_loopback x \<and> if_up x \<and> if_name x = nic_name (net_infos c ! k) \<and>
    net_addr (net_infos c ! i) = if_addr x \<and> c' = c\<lparr>curnet_id := int i\<rparr>"
proof -
  from assms have "curnode_loop (length ifs) [0 ..< nets_cnt c] ifs c = Inr (Some c')"
    by (auto simp: dhmp_set_curnode_id_def res_simps split: option.splits)
  from curnode_loop_found[OF this] obtain k x i where "k < nets_cnt c" "x \<in> set ifs" "\<not> if_loopback x" "if_up x"
      "if_name x = nic_name (net_infos c ! k)" "i < nets_cnt c" "net_addr (net_infos c ! i) = if_addr x" "c' = c\<lparr>curnet_id := int i\<rparr>" by auto
  then show ?thesis by blast
qed

lemma curnode_is_local_witness:
  "dhmp_set_curnode_id [sample_if ''lo'' ''127.0.0.1'', sample_if ''ib0'' ''10.0.0.2''] sample_config = Inr (sample_config\<lparr>curnet_id := 1\<rparr>) \<and>
   (\<exists>k < 2. \<exists>i < 2. nic_name (net_infos sample_config ! k) = ''ib0'' \<and> net_addr (net_infos sample_config ! i) = ''10.0.0.2'')"
proof -
  let ?ifs = "[sample_if ''lo'' ''127.0.0.1'', sample_if ''ib0'' ''10.0.0.2'']"
  have e: "dhmp_set_curnode_id ?ifs sample_config = Inr (sample_config\<lparr>curnet_id := 1\<rparr>)"
    by (simp add: dhmp_set_curnode_id_def sample_config_def sample_net_def sample_if_def numeral_2_eq_2)
  have n: "nets_cnt sample_config = 2" by (simp add: sample_config_def)
  have "\<forall>k < 2. nic_name (net_infos sample_config ! k) \<noteq> ''lo''"
    by (simp add: sample_config_def sample_net_def less_2_cases_iff)
  with curnode_is_local[OF e] obtain k i where "k < 2" "i < 2" "nic_name (net_infos sample_config ! k) = ''ib0''"
      "net_addr (net_infos sample_config ! i) = ''10.0.0.2''"
    unfolding n by (auto simp: sample_if_def)
  then show ?thesis using e by blast
qed

lemma scan_nothing: "\<forall>x \<in> set ifs. if_name x \<noteq> nic \<Longrightarrow> scan_ifs (length ifs) ifs nic = Inr (None, [])"
  by (induction ifs) auto

text \<open>A machine whose interface is named in the second entry only is never found: the pointer into the interfaces is not set back
  for the second entry, which reads past the interfaces the kernel listed.\<close>

theorem second_nic_reads_past:
  assumes "arrays_ok c" "2 \<le> nets_cnt c" "ifs \<noteq> []" "\<forall>x \<in> set ifs. if_name x \<noteq> nic_name (net_infos c ! 0)"
  shows "dhmp_set_curnode_id ifs c = Inl Out_of_bounds"
proof -
  obtain n where n: "length ifs = Suc n" using assms(3) by (cases ifs) auto
  have "[0 ..< nets_cnt c] = 0 # 1 # [2 ..< nets_cnt c]" using assms(2) by (simp add: upt_conv_Cons numeral_2_eq_2)
  then show ?thesis
    using assms(1) scan_nothing[OF assms(4)] n by (simp add: dhmp_set_curnode_id_def arrays_ok_def DHMP_SERVER_NODE_NUM_def)
qed

lemma second_nic_reads_past_witness:
  "dhmp_set_curnode_id [sample_if ''ib1'' ''10.0.0.2''] sample_config = Inl Out_of_bounds"
  by (rule second_nic_reads_past)
    (simp_all add: arrays_ok_def sample_config_def sample_net_def sample_if_def DHMP_SERVER_NODE_NUM_def)

end
