(* ===== verification/Dhmp_Poll.thy ===== *)
theory Dhmp_Poll
  imports Dhmp_Client "HOL-Library.Multiset"
begin

text \<open>
  The cache policy of a client, \<open>src/dhmp_client/src/dhmp_poll.c\<close>: from the counts of reads and writes of every
  region it chooses the regions a server shall keep in DRAM and those it shall drop. Modelled are the choice, for
  free DRAM (every region used often enough) and for a full cache (\<open>dhmp_handle_cache_model\<close>, which exchanges
  cold regions in DRAM for hot ones outside), and the requests that follow. The adjustment of thresholds and of
  the period after them works on \<open>double\<close> values, some never initialised; it is left out, and with it the sums that
  only it uses (\<open>total_benefit_numerator\<close>, \<open>total_benefit_denominator\<close>, \<open>dram_cache_size\<close>, \<open>access_region_size\<close>).
\<close>

section \<open>State\<close>

record dhmp_sort_addr_entry =
  sa_addr :: "64 word"
  sa_length :: nat
  rwcnt :: int
  in_dram :: bool

text \<open>
  The part of \<open>struct dhmp_client\<close> and the variables of the file that only this file uses; arrays over the nodes are
  functions, and an array filled up to a count is the list of its used elements.
\<close>

record poll_state =
  threshold :: "nat \<Rightarrow> int"
  dram_threshold_policy :: "nat \<Rightarrow> bool"
  req_dram_size :: "nat \<Rightarrow> nat"
  access_total_num :: int
  access_dram_num :: "nat \<Rightarrow> int"
  hot_nvm :: "nat \<Rightarrow> dhmp_nvm_info list"
  cold_nvm :: "nat \<Rightarrow> dhmp_nvm_info list"
  sa_entries :: "nat \<Rightarrow> dhmp_sort_addr_entry list"

definition DHMP_MAX_OBJ_NUM :: nat where "DHMP_MAX_OBJ_NUM = 40000"

definition comp_sort_addr_entry :: "dhmp_sort_addr_entry \<Rightarrow> dhmp_sort_addr_entry \<Rightarrow> int" where
  "comp_sort_addr_entry a b = rwcnt a - rwcnt b"

definition entry_info :: "dhmp_sort_addr_entry \<Rightarrow> dhmp_nvm_info" where
  "entry_info e = \<lparr>nvm_addr = sa_addr e, nvm_length = sa_length e\<rparr>"

section \<open>A full cache\<close>

text \<open>The inner loops: past entries outside DRAM from the front, past entries in DRAM from the back.\<close>

function skip_outside :: "dhmp_sort_addr_entry list \<Rightarrow> int \<Rightarrow> int \<Rightarrow> int" where
  "skip_outside es s e = (if s < e \<and> \<not> in_dram (es ! nat s) then skip_outside es (s + 1) e else s)"
  by auto
termination by (relation "measure (\<lambda>(es, s, e). nat (e - s))") auto

function skip_inside :: "dhmp_sort_addr_entry list \<Rightarrow> int \<Rightarrow> int \<Rightarrow> int" where
  "skip_inside es s e = (if s < e \<and> in_dram (es ! nat e) then skip_inside es s (e - 1) else e)"
  by auto
termination by (relation "measure (\<lambda>(es, s, e). nat (e - s))") auto

declare skip_outside.simps [simp del] skip_inside.simps [simp del]

lemma skip_outside_bounds: "s \<le> skip_outside es s e \<and> (s \<le> e \<longrightarrow> skip_outside es s e \<le> e)"
proof (induction es s e rule: skip_outside.induct)
  case (1 es s e)
  then show ?case by (cases "s < e \<and> \<not> in_dram (es ! nat s)") (auto simp: skip_outside.simps[of es s e])
qed

lemma skip_inside_bounds: "skip_inside es s e \<le> e \<and> (s \<le> e \<longrightarrow> s \<le> skip_inside es s e)"
proof (induction es s e rule: skip_inside.induct)
  case (1 es s e)
  then show ?case by (cases "s < e \<and> in_dram (es ! nat e)") (auto simp: skip_inside.simps[of es s e])
qed

text \<open>The outer loop gives the final \<open>start\<close> and the cold and hot entries.\<close>

function swap_loop :: "dhmp_sort_addr_entry list \<Rightarrow> int \<Rightarrow> int \<Rightarrow> dhmp_sort_addr_entry list \<Rightarrow> dhmp_sort_addr_entry list \<Rightarrow>
    int \<times> dhmp_sort_addr_entry list \<times> dhmp_sort_addr_entry list" where
  "swap_loop es s e cold hot =
     (if s < e then
        let s1 = skip_outside es s e; e1 = skip_inside es s1 e
        in if s1 < e1 then swap_loop es (s1 + 1) (e1 - 1) (cold @ [es ! nat s1]) (hot @ [es ! nat e1])
           else swap_loop es s1 e1 cold hot
      else (s, cold, hot))"
  by auto
termination
proof (relation "measure (\<lambda>(es, s, e, cold, hot). nat (e - s))", goal_cases)
  case (2 es s e cold hot s1 e1)
  then show ?case using skip_outside_bounds[of s es e] skip_inside_bounds[of es s1 e] by auto
next
  case (3 es s e cold hot s1 e1)
  then show ?case using skip_outside_bounds[of s es e] skip_inside_bounds[of es s1 e] by auto
qed simp

declare swap_loop.simps [simp del]

function hot_loop :: "dhmp_sort_addr_entry list \<Rightarrow> int \<Rightarrow> int \<Rightarrow> dhmp_sort_addr_entry list \<Rightarrow> dhmp_sort_addr_entry list" where
  "hot_loop es th s hot =
     (if 0 \<le> s \<and> th \<le> rwcnt (es ! nat s) then
        hot_loop es th (s - 1) (if in_dram (es ! nat s) then hot else hot @ [es ! nat s])
      else hot)"
  by auto
termination by (relation "measure (\<lambda>(es, th, s, hot). nat (s + 1))") auto

declare hot_loop.simps [simp del]

definition dhmp_handle_cache_model :: "nat \<Rightarrow> dhmp_sort_addr_entry list \<Rightarrow> poll_state \<Rightarrow> poll_state" where
  "dhmp_handle_cache_model i es p =
     (let (s, cold, hot0) = swap_loop es 0 (int (length es) - 1) [] [];
          hot = hot_loop es (threshold p i) (s - 1) hot0
      in p\<lparr>cold_nvm := (cold_nvm p)(i := map entry_info cold), hot_nvm := (hot_nvm p)(i := map entry_info hot),
           req_dram_size := (req_dram_size p)(i := sum_list (map sa_length hot))\<rparr>)"

section \<open>The choice\<close>

text \<open>
  The sizes asked for and granted are \<open>size_t\<close>, so their difference is positive unless they are equal. The
  granted sizes are kept in the client.
\<close>

definition poll_policy :: "'n dhmp_client \<Rightarrow> poll_state \<Rightarrow> poll_state" where
  "poll_policy c p =
     (let full = (\<lambda>i. req_dram_size p i \<noteq> res_dram_size c i);
          th = (\<lambda>i. if \<not> full i \<and> \<not> dram_threshold_policy p i then 5 else threshold p i)
      in p\<lparr>dram_threshold_policy := (\<lambda>i. \<not> full i), threshold := (\<lambda>i. if th i = 0 then 1 else th i), req_dram_size := (\<lambda>_. 0),
           hot_nvm := (\<lambda>_. []), cold_nvm := (\<lambda>_. []), sa_entries := (\<lambda>_. []), access_total_num := 0\<rparr>)"

text \<open>One region: counted, chosen when it is due, and its counts set back.\<close>

definition poll_region :: "dhmp_addr_info \<Rightarrow> nat \<Rightarrow> int \<Rightarrow> poll_state \<Rightarrow> poll_state res" where
  "poll_region a i rw p =
     (let cached = mr_addr (dram_mr a) \<noteq> 0;
          info = \<lparr>nvm_addr = mr_addr (nvm_mr a), nvm_length = mr_length (nvm_mr a)\<rparr>;
          p1 = p\<lparr>access_total_num := access_total_num p + rw,
                 access_dram_num := (if cached then (access_dram_num p)(i := access_dram_num p i + rw) else access_dram_num p)\<rparr>
      in if dram_threshold_policy p i then
           if threshold p i \<le> rw \<and> \<not> cached then
             if DHMP_MAX_OBJ_NUM \<le> length (hot_nvm p i) then Inl Out_of_bounds
             else Inr (p1\<lparr>hot_nvm := (hot_nvm p)(i := hot_nvm p i @ [info]), req_dram_size := (req_dram_size p)(i := req_dram_size p i + nvm_length info)\<rparr>)
           else Inr p1
         else if threshold p i \<le> rw \<or> cached then
           if DHMP_MAX_OBJ_NUM \<le> length (sa_entries p i) then Inl Out_of_bounds
           else Inr (p1\<lparr>sa_entries := (sa_entries p)(i := sa_entries p i @
                  [\<lparr>sa_addr = nvm_addr info, sa_length = nvm_length info, rwcnt = rw, in_dram = cached\<rparr>])\<rparr>)
         else Inr p1)"

fun poll_bucket :: "nat list \<Rightarrow> 'n dhmp_client \<Rightarrow> poll_state \<Rightarrow> ('n dhmp_client \<times> poll_state) res" where
  "poll_bucket [] c p = Inr (c, p)"
| "poll_bucket (k # ks) c p =
     (case infos c k of
        None \<Rightarrow> Inl Use_after_free
      | Some a \<Rightarrow>
          let rw = read_cnt a + write_cnt a
          in if rw = 0 then poll_bucket ks c p
             else if node_index a < 0 \<or> int DHMP_SERVER_NODE_NUM \<le> node_index a then Inl Out_of_bounds
             else
               rbind (poll_region a (nat (node_index a)) rw p) (\<lambda>p1.
                 poll_bucket ks (c\<lparr>infos := (infos c)(k \<mapsto> a\<lparr>read_cnt := 0, write_cnt := 0\<rparr>)\<rparr>) p1))"

definition table_list :: "'n dhmp_client \<Rightarrow> nat list" where
  "table_list c = concat (map (addr_info_ht c) [0 ..< DHMP_CLIENT_HT_SIZE])"

definition poll_table :: "'n dhmp_client \<Rightarrow> poll_state \<Rightarrow> ('n dhmp_client \<times> poll_state) res" where
  "poll_table c p = poll_bucket (table_list c) c p"

section \<open>The requests\<close>

text \<open>
  One kind of request to a node: it is counted in \<open>poll_num\<close>, which its response counts down. A node without a poll
  transport is a null pointer.
\<close>

definition poll_send :: "'n verbs \<Rightarrow> nat \<Rightarrow> dhmp_nvm_info list \<Rightarrow> (dhmp_nvm_info list \<Rightarrow> dhmp_msg) \<Rightarrow> 'n dhmp_client \<Rightarrow> 'n dhmp_client res" where
  "poll_send V i xs msg c =
     (if xs = [] then Inr c
      else case poll_trans c i of
             None \<Rightarrow> Inl Null_deref
           | Some t \<Rightarrow> dhmp_post_send V (c\<lparr>poll_num := poll_num c + 1\<rparr>) t (msg xs))"

text \<open>\<open>qsort\<close> leaves the order of equal entries open, so it is an argument.\<close>

fun poll_requests :: "'n verbs \<Rightarrow> (dhmp_sort_addr_entry list \<Rightarrow> dhmp_sort_addr_entry list) \<Rightarrow> nat list \<Rightarrow>
    'n dhmp_client \<Rightarrow> poll_state \<Rightarrow> ('n dhmp_client \<times> poll_state) res" where
  "poll_requests V qsort [] c p = Inr (c, p)"
| "poll_requests V qsort (i # is) c p =
     (let p1 = (if dram_threshold_policy p i then p else dhmp_handle_cache_model i (qsort (sa_entries p i)) p)
      in rbind (poll_send V i (cold_nvm p1 i) DHMP_MSG_CLEAR_DRAM_REQUEST c) (\<lambda>c1.
         rbind (poll_send V i (hot_nvm p1 i) DHMP_MSG_APPLY_DRAM_REQUEST c1) (\<lambda>c2. poll_requests V qsort is c2 p1)))"

text \<open>\<open>dhmp_poll_ht_func\<close> up to the end of the wait for the responses, which are handled as they are sent.\<close>

definition poll_round :: "'n verbs \<Rightarrow> (dhmp_sort_addr_entry list \<Rightarrow> dhmp_sort_addr_entry list) \<Rightarrow>
    'n dhmp_client \<Rightarrow> poll_state \<Rightarrow> ('n dhmp_client \<times> poll_state) res" where
  "poll_round V qsort c p =
     rbind (poll_table (c\<lparr>res_dram_size := (\<lambda>_. 0)\<rparr>) (poll_policy c p)) (\<lambda>(c1, p1).
     rbind (poll_requests V qsort [0 ..< DHMP_SERVER_NODE_NUM] (c1\<lparr>poll_num := 0\<rparr>) p1) (\<lambda>(c2, p2).
       if 0 < poll_num c2 then Inl Hang else Inr (c2, p2)))"

section \<open>What is exchanged\<close>

lemma skip_outside_stop: "skip_outside es s e < e \<Longrightarrow> in_dram (es ! nat (skip_outside es s e))"
proof (induction es s e rule: skip_outside.induct)
  case (1 es s e)
  then show ?case by (cases "s < e \<and> \<not> in_dram (es ! nat s)") (auto simp: skip_outside.simps[of es s e])
qed

lemma skip_inside_stop: "s < skip_inside es s e \<Longrightarrow> \<not> in_dram (es ! nat (skip_inside es s e))"
proof (induction es s e rule: skip_inside.induct)
  case (1 es s e)
  then show ?case by (cases "s < e \<and> in_dram (es ! nat e)") (auto simp: skip_inside.simps[of es s e])
qed

text \<open>The indices of the cold entries lie before \<open>start\<close>, those of the hot ones behind \<open>end\<close>.\<close>

definition swap_inv :: "dhmp_sort_addr_entry list \<Rightarrow> int \<Rightarrow> int \<Rightarrow> nat list \<Rightarrow> nat list \<Rightarrow> bool" where
  "swap_inv es s e ci hi \<longleftrightarrow> 0 \<le> s \<and> s \<le> e + 1 \<and> e < int (length es) \<and> length ci = length hi \<and> distinct ci \<and> distinct hi \<and>
     (\<forall>j \<in> set ci. int j < s \<and> in_dram (es ! j)) \<and> (\<forall>j \<in> set hi. e < int j \<and> j < length es \<and> \<not> in_dram (es ! j))"

lemma swap_step:
  assumes "swap_inv es s e ci hi" "s < e" "s1 = skip_outside es s e" "e1 = skip_inside es s1 e"
  shows "swap_inv es s1 e1 ci hi" "s1 < e1 \<Longrightarrow> swap_inv es (s1 + 1) (e1 - 1) (ci @ [nat s1]) (hi @ [nat e1])"
proof -
  have b: "s \<le> s1" "s1 \<le> e1" "e1 \<le> e"
    using skip_outside_bounds[of s es e] skip_inside_bounds[of es s1 e] assms(2-4) by auto
  show "swap_inv es s1 e1 ci hi" using assms(1) b unfolding swap_inv_def by fastforce
  show "swap_inv es (s1 + 1) (e1 - 1) (ci @ [nat s1]) (hi @ [nat e1])" if lt: "s1 < e1"
  proof -
    have "in_dram (es ! nat s1)" "\<not> in_dram (es ! nat e1)"
      using skip_outside_stop[of es s e] skip_inside_stop[of s1 es e] assms(3,4) b lt by auto
    then show ?thesis using assms(1) b lt unfolding swap_inv_def by fastforce
  qed
qed

lemma swap_loop_inv:
  assumes "swap_loop es s e cold hot = (s', cold', hot')" "swap_inv es s e ci hi" "cold = map ((!) es) ci" "hot = map ((!) es) hi"
  shows "\<exists>ci' hi' e'. swap_inv es s' e' ci' hi' \<and> cold' = map ((!) es) ci' \<and> hot' = map ((!) es) hi'"
  using assms
proof (induction es s e cold hot arbitrary: ci hi rule: swap_loop.induct)
  case (1 es s e cold hot)
  show ?case
  proof (cases "s < e")
    case False
    then show ?thesis using 1(3-6) by (auto simp: swap_loop.simps[of es s e])
  next
    case True
    let ?s = "skip_outside es s e"
    let ?e = "skip_inside es ?s e"
    note st = swap_step[OF 1(4) True refl refl]
    show ?thesis
    proof (cases "?s < ?e")
      case True
      with 1(3) \<open>s < e\<close> have "swap_loop es (?s + 1) (?e - 1) (cold @ [es ! nat ?s]) (hot @ [es ! nat ?e]) = (s', cold', hot')"
        by (simp add: swap_loop.simps[of es s e] Let_def)
      then show ?thesis by (rule 1(1)[OF \<open>s < e\<close> refl refl True _ st(2)[OF True]]) (simp_all add: 1(5,6))
    next
      case False
      with 1(3) \<open>s < e\<close> have "swap_loop es ?s ?e cold hot = (s', cold', hot')" by (simp add: swap_loop.simps[of es s e] Let_def)
      then show ?thesis by (rule 1(2)[OF \<open>s < e\<close> refl refl False _ st(1) 1(5,6)])
    qed
  qed
qed

lemma hot_loop_spec:
  assumes "s < int (length es)"
  shows "\<exists>js. hot_loop es th s hot = hot @ map ((!) es) js \<and> distinct js \<and>
    (\<forall>j \<in> set js. int j \<le> s \<and> \<not> in_dram (es ! j) \<and> th \<le> rwcnt (es ! j))"
  using assms
proof (induction es th s hot rule: hot_loop.induct)
  case (1 es th s hot)
  show ?case
  proof (cases "0 \<le> s \<and> th \<le> rwcnt (es ! nat s)")
    case False
    then show ?thesis by (auto simp: hot_loop.simps[of es th s] intro: exI[of _ "[]"])
  next
    case True
    let ?h = "if in_dram (es ! nat s) then hot else hot @ [es ! nat s]"
    obtain js where js: "hot_loop es th (s - 1) ?h = ?h @ map ((!) es) js" "distinct js"
        "\<forall>j \<in> set js. int j \<le> s - 1 \<and> \<not> in_dram (es ! j) \<and> th \<le> rwcnt (es ! j)"
      using 1 True by force
    let ?js = "(if in_dram (es ! nat s) then [] else [nat s]) @ js"
    have "hot_loop es th s hot = hot @ map ((!) es) ?js" using True js(1) by (simp add: hot_loop.simps[of es th s])
    moreover have "nat s \<notin> set js"
    proof
      assume "nat s \<in> set js"
      then have "int (nat s) \<le> s - 1" using js(3) by blast
      then show False using True by simp
    qed
    then have "distinct ?js \<and> (\<forall>j \<in> set ?js. int j \<le> s \<and> \<not> in_dram (es ! j) \<and> th \<le> rwcnt (es ! j))"
      using js(2,3) True by auto
    ultimately show ?thesis by blast
  qed
qed

text \<open>The result of the exchange, by the indices of the entries.\<close>

lemma cache_model_spec:
  assumes "dhmp_handle_cache_model i es p = p'"
  shows "\<exists>ci hi js. cold_nvm p' i = map (\<lambda>j. entry_info (es ! j)) ci \<and> hot_nvm p' i = map (\<lambda>j. entry_info (es ! j)) (hi @ js) \<and>
    req_dram_size p' i = sum_list (map nvm_length (hot_nvm p' i)) \<and> length ci = length hi \<and> distinct ci \<and> distinct (hi @ js) \<and>
    (\<forall>j \<in> set ci. j < length es \<and> in_dram (es ! j)) \<and> (\<forall>j \<in> set (hi @ js). j < length es \<and> \<not> in_dram (es ! j)) \<and>
    (\<forall>j \<in> set ci. \<forall>k \<in> set hi. j < k) \<and> (\<forall>j \<in> set js. threshold p i \<le> rwcnt (es ! j))"
proof -
  obtain s cold hot where l: "swap_loop es 0 (int (length es) - 1) [] [] = (s, cold, hot)" by (cases "swap_loop es 0 (int (length es) - 1) [] []")
  have "swap_inv es 0 (int (length es) - 1) [] []" by (simp add: swap_inv_def)
  from swap_loop_inv[OF l this] obtain ci hi e where inv: "swap_inv es s e ci hi" "cold = map ((!) es) ci" "hot = map ((!) es) hi" by auto
  have "s - 1 < int (length es)" using inv(1) by (simp add: swap_inv_def)
  from hot_loop_spec[OF this] obtain js where js: "hot_loop es (threshold p i) (s - 1) hot = hot @ map ((!) es) js" "distinct js"
      "\<forall>j \<in> set js. int j \<le> s - 1 \<and> \<not> in_dram (es ! j) \<and> threshold p i \<le> rwcnt (es ! j)" by blast
  have "cold_nvm p' i = map (\<lambda>j. entry_info (es ! j)) ci" "hot_nvm p' i = map (\<lambda>j. entry_info (es ! j)) (hi @ js)"
      "req_dram_size p' i = sum_list (map nvm_length (hot_nvm p' i))"
    unfolding assms[symmetric] dhmp_handle_cache_model_def using l js(1) inv(2,3) by (simp_all add: entry_info_def comp_def)
  moreover have "distinct (hi @ js)" using inv(1) js(2,3) by (fastforce simp: swap_inv_def)
  moreover have "\<forall>j \<in> set (hi @ js). j < length es \<and> \<not> in_dram (es ! j)" "\<forall>j \<in> set ci. j < length es \<and> in_dram (es ! j)"
    using inv(1) js(3) by (fastforce simp: swap_inv_def)+
  moreover have "\<forall>j \<in> set ci. \<forall>k \<in> set hi. j < k" using inv(1) by (fastforce simp: swap_inv_def)
  ultimately show ?thesis using inv(1) js(3) unfolding swap_inv_def by blast
qed

section \<open>What is asked for while DRAM is free\<close>

definition uses :: "dhmp_addr_info \<Rightarrow> int" where
  "uses a = read_cnt a + write_cnt a"

definition region_info :: "dhmp_addr_info \<Rightarrow> dhmp_nvm_info" where
  "region_info a = \<lparr>nvm_addr = mr_addr (nvm_mr a), nvm_length = mr_length (nvm_mr a)\<rparr>"

text \<open>A region of node \<open>i\<close> that is used, often enough, and not in DRAM.\<close>

definition due :: "poll_state \<Rightarrow> nat \<Rightarrow> dhmp_addr_info \<Rightarrow> bool" where
  "due p i a \<longleftrightarrow> node_index a = int i \<and> uses a \<noteq> 0 \<and> threshold p i \<le> uses a \<and> mr_addr (dram_mr a) = 0"

lemma poll_region_pool:
  assumes "poll_region a n (uses a) p = Inr p'" "\<forall>i. dram_threshold_policy p i" "node_index a = int n" "uses a \<noteq> 0"
  shows "hot_nvm p' i = hot_nvm p i @ (if due p i a then [region_info a] else [])"
    "req_dram_size p' i = req_dram_size p i + (if due p i a then mr_length (nvm_mr a) else 0)"
    "access_total_num p' = access_total_num p + uses a" "dram_threshold_policy p' = dram_threshold_policy p" "threshold p' = threshold p"
  using assms by (auto simp: poll_region_def Let_def due_def region_info_def split: if_splits)

lemma poll_bucket_pool:
  assumes "poll_bucket ks c p = Inr (c', p')" "\<forall>i. dram_threshold_policy p i" "distinct ks"
  shows "hot_nvm p' i = hot_nvm p i @ map region_info (filter (due p i) (map (the \<circ> infos c) ks)) \<and>
    req_dram_size p' i = req_dram_size p i + sum_list (map (\<lambda>a. mr_length (nvm_mr a)) (filter (due p i) (map (the \<circ> infos c) ks))) \<and>
    access_total_num p' = access_total_num p + sum_list (map (uses \<circ> the \<circ> infos c) ks) \<and>
    (\<forall>k \<in> set ks. \<exists>a. infos c' k = Some a \<and> uses a = 0) \<and> (\<forall>k. k \<notin> set ks \<longrightarrow> infos c' k = infos c k)"
  using assms
proof (induction ks arbitrary: c p)
  case (Cons k ks)
  obtain a where a: "infos c k = Some a" using Cons.prems(1) by (auto split: option.splits)
  show ?case
  proof (cases "uses a = 0")
    case True
    then have "poll_bucket ks c p = Inr (c', p')" using Cons.prems(1) a by (simp add: uses_def)
    from Cons.IH[OF this Cons.prems(2)] show ?thesis using Cons.prems(3) a True by (auto simp: due_def)
  next
    case False
    let ?c = "c\<lparr>infos := (infos c)(k \<mapsto> a\<lparr>read_cnt := 0, write_cnt := 0\<rparr>)\<rparr>"
    from Cons.prems(1) a False obtain p1 where p1: "0 \<le> node_index a" "poll_region a (nat (node_index a)) (uses a) p = Inr p1"
        "poll_bucket ks ?c p1 = Inr (c', p')"
      by (auto simp: uses_def res_simps split: if_splits)
    note r = poll_region_pool[OF p1(2) Cons.prems(2) _ False]
    have n: "node_index a = int (nat (node_index a))" using p1(1) by simp
    have same: "map (the \<circ> infos ?c) ks = map (the \<circ> infos c) ks" using Cons.prems(3) by auto
    have d: "due p1 = due p" by (simp add: due_def fun_eq_iff r(5)[OF n])
    have same2: "map (uses \<circ> the \<circ> infos ?c) ks = map (uses \<circ> the \<circ> infos c) ks" using Cons.prems(3) by auto
    have "\<forall>i. dram_threshold_policy p1 i" "distinct ks" using Cons.prems(2,3) r(4)[OF n] by simp_all
    note ih = Cons.IH[OF p1(3) this, unfolded same same2 d]
    let ?xs = "filter (due p i) (map (the \<circ> infos c) ks)"
    have f: "filter (due p i) (map (the \<circ> infos c) (k # ks)) = (if due p i a then [a] else []) @ ?xs" by (simp add: a)
    have "hot_nvm p' i = hot_nvm p i @ map region_info (filter (due p i) (map (the \<circ> infos c) (k # ks)))"
      unfolding f using ih r(1)[OF n, of i] by simp
    moreover have "req_dram_size p' i = req_dram_size p i + sum_list (map (\<lambda>a. mr_length (nvm_mr a)) (filter (due p i) (map (the \<circ> infos c) (k # ks))))"
      unfolding f using ih r(2)[OF n, of i] by simp
    moreover have "access_total_num p' = access_total_num p + sum_list (map (uses \<circ> the \<circ> infos c) (k # ks))"
      using ih r(3)[OF n] a by simp
    moreover have "\<exists>x. infos c' k = Some x \<and> uses x = 0" using ih Cons.prems(3) by (simp add: uses_def)
    then have "\<forall>j \<in> set (k # ks). \<exists>x. infos c' j = Some x \<and> uses x = 0" using ih by simp
    moreover have "\<forall>j. j \<notin> set (k # ks) \<longrightarrow> infos c' j = infos c j" using ih by simp
    ultimately show ?thesis by blast
  qed
qed simp

section \<open>Properties\<close>

text \<open>C35: what the cache policy exchanges for a node, given its entries in ascending order of use: every region it drops is in
  DRAM, every region it asks for is not, no region occurs twice, the dropped ones are paired with asked-for ones used at
  least as often, the others asked for reach the threshold, and the size asked for is the sum of their lengths.\<close>

theorem cache_exchange:
  assumes "sorted (map rwcnt es)" "dhmp_handle_cache_model i es p = p'"
  shows "\<exists>ci hi. cold_nvm p' i = map (\<lambda>j. entry_info (es ! j)) ci \<and> hot_nvm p' i = map (\<lambda>j. entry_info (es ! j)) hi \<and>
    distinct (ci @ hi) \<and> (\<forall>j \<in> set (ci @ hi). j < length es \<and> in_dram (es ! j) = (j \<in> set ci)) \<and> length ci \<le> length hi \<and>
    (\<forall>k < length ci. rwcnt (es ! (ci ! k)) \<le> rwcnt (es ! (hi ! k))) \<and>
    (\<forall>k < length hi. length ci \<le> k \<longrightarrow> threshold p i \<le> rwcnt (es ! (hi ! k))) \<and>
    req_dram_size p' i = sum_list (map nvm_length (hot_nvm p' i))"
proof -
  from cache_model_spec[OF assms(2)] obtain ci hi js where x:
      "cold_nvm p' i = map (\<lambda>j. entry_info (es ! j)) ci" "hot_nvm p' i = map (\<lambda>j. entry_info (es ! j)) (hi @ js)"
      "req_dram_size p' i = sum_list (map nvm_length (hot_nvm p' i))" "length ci = length hi" "distinct ci" "distinct (hi @ js)"
      "\<forall>j \<in> set ci. j < length es \<and> in_dram (es ! j)" "\<forall>j \<in> set (hi @ js). j < length es \<and> \<not> in_dram (es ! j)"
      "\<forall>j \<in> set ci. \<forall>k \<in> set hi. j < k" "\<forall>j \<in> set js. threshold p i \<le> rwcnt (es ! j)"
    by blast
  have "distinct (ci @ hi @ js)" using x(5-8) by auto
  moreover have "\<forall>j \<in> set (ci @ hi @ js). j < length es \<and> in_dram (es ! j) = (j \<in> set ci)" using x(7,8) by auto
  moreover have "rwcnt (es ! (ci ! k)) \<le> rwcnt (es ! ((hi @ js) ! k))" if "k < length ci" for k
  proof -
    have "ci ! k \<in> set ci" "hi ! k \<in> set hi" using that x(4) by simp_all
    then have "ci ! k < hi ! k" "hi ! k < length es" using x(8,9) by auto
    with sorted_nth_mono[OF assms(1), of "ci ! k" "hi ! k"] show ?thesis using that x(4) by (simp add: nth_append)
  qed
  moreover have "threshold p i \<le> rwcnt (es ! ((hi @ js) ! k))" if "k < length (hi @ js)" "length ci \<le> k" for k
    using that x(4,10) by (simp add: nth_append)
  ultimately show ?thesis using x(1-4) by (intro exI[of _ ci] exI[of _ "hi @ js"]) auto
qed

definition sample_entry :: "nat \<Rightarrow> int \<Rightarrow> bool \<Rightarrow> dhmp_sort_addr_entry" where
  "sample_entry a n d = \<lparr>sa_addr = word_of_nat a, sa_length = 64, rwcnt = n, in_dram = d\<rparr>"

definition sample_poll :: poll_state where
  "sample_poll = \<lparr>threshold = (\<lambda>_. 2), dram_threshold_policy = (\<lambda>_. False), req_dram_size = (\<lambda>_. 0), access_total_num = 0, access_dram_num = (\<lambda>_. 0),
     hot_nvm = (\<lambda>_. []), cold_nvm = (\<lambda>_. []), sa_entries = (\<lambda>_. [])\<rparr>"

lemma cache_exchange_witness:
  "\<exists>ci hi. cold_nvm (dhmp_handle_cache_model 0 [sample_entry 1 1 True, sample_entry 2 5 False, sample_entry 3 9 False] sample_poll) 0 =
     map (\<lambda>j. entry_info ([sample_entry 1 1 True, sample_entry 2 5 False, sample_entry 3 9 False] ! j)) ci \<and> distinct (ci @ hi) \<and> length ci \<le> length hi"
  using cache_exchange[of "[sample_entry 1 1 True, sample_entry 2 5 False, sample_entry 3 9 False]" 0 sample_poll, OF _ refl]
  by (auto simp: sample_entry_def)

lemma skip_all: "0 \<le> s \<Longrightarrow> s \<le> e \<Longrightarrow> \<forall>j. s \<le> int j \<and> int j < e \<longrightarrow> \<not> in_dram (es ! j) \<Longrightarrow> skip_outside es s e = e"
proof (induction es s e rule: skip_outside.induct)
  case (1 es s e)
  show ?case
  proof (cases "s < e \<and> \<not> in_dram (es ! nat s)")
    case True
    then show ?thesis using 1 by (simp add: skip_outside.simps[of es s e])
  next
    case False
    then have "\<not> s < e" using 1(2) 1(4)[rule_format, of "nat s"] by auto
    then have "s = e" using 1(3) by simp
    then show ?thesis by (simp add: skip_outside.simps[of es e e])
  qed
qed

text \<open>When the cache is full of nothing, no region of the node being in DRAM, the one used most is never asked for: the search
  for regions in DRAM stops at it and the search for hot ones starts before it.\<close>

theorem hottest_skipped:
  assumes "es \<noteq> []" "\<forall>e \<in> set es. \<not> in_dram e" "distinct (map sa_addr es)" "dhmp_handle_cache_model i es p = p'"
  shows "entry_info (last es) \<notin> set (hot_nvm p' i) \<and> cold_nvm p' i = []"
proof -
  let ?n = "int (length es) - 1"
  have "skip_outside es 0 ?n = ?n" by (rule skip_all) (use assms(1,2) in \<open>auto simp: Suc_le_eq\<close>)
  moreover have "skip_inside es ?n ?n = ?n" by (simp add: skip_inside.simps)
  moreover have "swap_loop es ?n ?n [] [] = (?n, [], [])" by (simp add: swap_loop.simps)
  moreover have "0 < ?n \<or> ?n = 0" using assms(1) by (cases es) auto
  ultimately have l: "swap_loop es 0 ?n [] [] = (?n, [], [])" by (elim disjE) (simp_all add: swap_loop.simps[of es 0])
  obtain js where js: "hot_loop es (threshold p i) (?n - 1) [] = map ((!) es) js" "\<forall>j \<in> set js. int j \<le> ?n - 1"
    using hot_loop_spec[of "?n - 1" es "threshold p i" "[]"] by auto
  have h: "hot_nvm p' i = map (\<lambda>j. entry_info (es ! j)) js" "cold_nvm p' i = []"
    unfolding assms(4)[symmetric] dhmp_handle_cache_model_def l using js(1) by (simp_all add: comp_def)
  have ne: "entry_info (es ! j) \<noteq> entry_info (last es)" if "j \<in> set js" for j
  proof -
    have j: "j < length es - 1" using js(2) that by fastforce
    then have "map sa_addr es ! j \<noteq> map sa_addr es ! (length es - 1)" using nth_eq_iff_index_eq[OF assms(3)] by simp
    then show ?thesis using j assms(1) by (simp add: entry_info_def last_conv_nth)
  qed
  show ?thesis unfolding h set_map using ne by (metis imageE)
qed

lemma hottest_skipped_witness:
  "entry_info (sample_entry 3 9 False) \<notin> set (hot_nvm (dhmp_handle_cache_model 0 [sample_entry 2 5 False, sample_entry 3 9 False] sample_poll) 0)"
  using hottest_skipped[of "[sample_entry 2 5 False, sample_entry 3 9 False]", OF _ _ _ refl, of 0 sample_poll] by (simp add: sample_entry_def)

lemma table_single: "b < DHMP_CLIENT_HT_SIZE \<Longrightarrow> \<forall>i. i \<noteq> b \<longrightarrow> addr_info_ht c i = [] \<Longrightarrow> table_list c = addr_info_ht c b"
proof -
  assume b: "b < DHMP_CLIENT_HT_SIZE" and e: "\<forall>i. i \<noteq> b \<longrightarrow> addr_info_ht c i = []"
  have "[0 ..< DHMP_CLIENT_HT_SIZE] = [0 ..< b] @ b # [Suc b ..< DHMP_CLIENT_HT_SIZE]"
    using b upt_add_eq_append[of 0 b "DHMP_CLIENT_HT_SIZE - b"] by (simp add: upt_conv_Cons)
  moreover have "concat (map (addr_info_ht c) [0 ..< b]) = []" "concat (map (addr_info_ht c) [Suc b ..< DHMP_CLIENT_HT_SIZE]) = []"
    using e by simp_all
  ultimately show ?thesis by (simp only: table_list_def map_append list.map concat_append concat.simps append_Nil append_Nil2)
qed

text \<open>C36: while every request for DRAM is granted in full, a round asks each node for exactly the regions that are used at least as
  often as its threshold and are not in DRAM, in the order of the table; it counts all uses and sets them back.\<close>

theorem poll_selects:
  assumes "poll_table (c\<lparr>res_dram_size := (\<lambda>_. 0)\<rparr>) (poll_policy c p) = Inr (c', p')" "\<forall>i. req_dram_size p i = res_dram_size c i"
    "distinct (table_list c)"
  shows "hot_nvm p' i = map region_info (filter (due (poll_policy c p) i) (map (the \<circ> infos c) (table_list c))) \<and>
    req_dram_size p' i = sum_list (map nvm_length (hot_nvm p' i)) \<and>
    access_total_num p' = sum_list (map (uses \<circ> the \<circ> infos c) (table_list c)) \<and>
    (\<forall>k \<in> set (table_list c). \<exists>a. infos c' k = Some a \<and> uses a = 0) \<and> 0 \<noteq> threshold (poll_policy c p) i"
proof -
  have b: "poll_bucket (table_list c) (c\<lparr>res_dram_size := (\<lambda>_. 0)\<rparr>) (poll_policy c p) = Inr (c', p')"
    using assms(1) by (simp add: poll_table_def table_list_def)
  have i: "\<forall>i. dram_threshold_policy (poll_policy c p) i" "hot_nvm (poll_policy c p) i = []" "req_dram_size (poll_policy c p) i = 0"
      "access_total_num (poll_policy c p) = 0" "threshold (poll_policy c p) i \<noteq> 0"
    using assms(2) by (simp_all add: poll_policy_def Let_def)
  have z: "sum_list (map (nvm_length \<circ> region_info) xs) = sum_list (map (\<lambda>a. mr_length (nvm_mr a)) xs)" for xs
    by (simp add: region_info_def comp_def)
  from poll_bucket_pool[OF b i(1) assms(3), of i] show ?thesis using i(2-5) by (simp add: z)
qed

lemma poll_selects_witness:
  "let c = region_client\<lparr>infos := [0 \<mapsto> blank_info\<lparr>nvm_mr := \<lparr>mr_addr = 0x1000, mr_length = 256, lkey = 7, rkey = 7\<rparr>,
         dram_mr := \<lparr>mr_addr = 0, mr_length = 0, lkey = 0, rkey = 0\<rparr>, node_index := 0, read_cnt := 3, write_cnt := 1\<rparr>], res_dram_size := (\<lambda>_. 0)\<rparr>
   in \<exists>c' p'. poll_table c (poll_policy c (sample_poll\<lparr>dram_threshold_policy := (\<lambda>_. True)\<rparr>)) = Inr (c', p') \<and>
      hot_nvm p' 0 = [\<lparr>nvm_addr = 0x1000, nvm_length = 256\<rparr>] \<and> access_total_num p' = 4"
proof -
  let ?a = "blank_info\<lparr>nvm_mr := \<lparr>mr_addr = 0x1000, mr_length = 256, lkey = 7, rkey = 7\<rparr>,
         dram_mr := \<lparr>mr_addr = 0, mr_length = 0, lkey = 0, rkey = 0\<rparr>, node_index := 0, read_cnt := 3, write_cnt := 1\<rparr>"
  let ?c = "region_client\<lparr>infos := [0 \<mapsto> ?a], res_dram_size := (\<lambda>_. 0)\<rparr>"
  have t: "table_list ?c = [0]"
  proof -
    have "nat (dhmp_hash_in_client 0x1000) < DHMP_CLIENT_HT_SIZE" by (simp add: client_index DHMP_CLIENT_HT_SIZE_def)
    from table_single[OF this, of ?c] show ?thesis by (simp add: region_client_def)
  qed
  obtain c' p' where r: "poll_table ?c (poll_policy ?c (sample_poll\<lparr>dram_threshold_policy := (\<lambda>_. True)\<rparr>)) = Inr (c', p')"
    by (simp add: poll_table_def t poll_region_def poll_policy_def sample_poll_def DHMP_MAX_OBJ_NUM_def DHMP_SERVER_NODE_NUM_def Let_def)
  have e: "?c\<lparr>res_dram_size := (\<lambda>_. 0)\<rparr> = ?c" by simp
  have "poll_table (?c\<lparr>res_dram_size := (\<lambda>_. 0)\<rparr>) (poll_policy ?c (sample_poll\<lparr>dram_threshold_policy := (\<lambda>_. True)\<rparr>)) = Inr (c', p')" unfolding e by (rule r)
  from poll_selects[OF this, of 0] show ?thesis unfolding Let_def using r
    by (simp add: t sample_poll_def due_def uses_def region_info_def poll_policy_def)
qed

end
