(* ===== verification/Fs_System.thy ===== *)
theory Fs_System
  imports Fs_Store "HOL-Library.Sublist"
begin

text \<open>
  The file system as a whole: the calls libfuse makes through \<open>dhmp_fs_oper\<close> of \<open>src/src/dhmp_fs.c\<close>, one after the
  other, over the client library, with sweeps of the background thread between them. The specification is a map from
  paths to directories and files, a file being the bytes whose value is known; every legal history of calls
  runs without a fault, answers as the map says and ends in a state that shows the map.
\<close>

section \<open>Calls\<close>

text \<open>
  Paths are lists of names. A read or write comes with the handle that \<open>open\<close> gave for its path; libfuse keeps a
  file that is open from being removed, so the path still leads there. \<open>Sweep\<close> is one round of the thread
  that writes dirty banks back, with the locks it finds taken.
\<close>

datatype fs_call =
    Mkdir "string list" string
  | Mknod "string list" string
  | Unlink "string list" string
  | Rmdir "string list" string
  | Rename "string list" string string
  | Readdir "string list"
  | Getattr "string list"
  | Write "string list" nat "byte list"
  | Read "string list" nat "byte list"
  | Open "string list"
  | Access "string list" int
  | Chmod "string list" nat
  | Chown "string list" nat nat
  | Truncate "string list" int
  | Statfs "string list" nat
  | Sweep "nat \<Rightarrow> bool"

datatype fs_answer = Ret int | Entries "(string \<times> bool) list" | Attr stat int | Data "byte list" int

definition new_stat :: stat where
  "new_stat = \<lparr>st_mode = 0, st_size = 0, st_nlink = 0, st_uid = 0, st_gid = 0, st_rdev = 0, st_atime = 0, st_mtime = 0, st_ctime = 0\<rparr>"

definition with_handle :: "('m, 'z) io_state_scheme \<Rightarrow> string list \<Rightarrow>
    (inode_id \<Rightarrow> (('m, 'z) io_state_scheme \<times> fs_answer) res) \<Rightarrow> (('m, 'z) io_state_scheme \<times> fs_answer) res" where
  "with_handle s p f = rbind (dhmp_fs_open s (dir_path p) 0) (\<lambda>(fh, r). if r \<noteq> 0 then Inr (s, Ret r) else f fh)"

text \<open>\<open>filler\<close> of a caller with room for all entries: their names, and whether they are directories.\<close>

definition collect :: "(string \<times> bool) list \<Rightarrow> string \<Rightarrow> nat \<Rightarrow> int \<times> (string \<times> bool) list" where
  "collect L n mode = (0, L @ [(n, mode = S_IFDIR)])"

fun dhmp_fs_oper :: "'m dhmp_api \<Rightarrow> ('m, 'z) io_state_scheme \<Rightarrow> fs_call \<Rightarrow> (('m, 'z) io_state_scheme \<times> fs_answer) res" where
  "dhmp_fs_oper dm s (Mkdir p n) = rbind (dhmp_fs_mkdir s (path_of (p @ [n]))) (\<lambda>(s', r). Inr (s', Ret r))"
| "dhmp_fs_oper dm s (Mknod p n) = rbind (dhmp_fs_mknod s (path_of (p @ [n]))) (\<lambda>(s', r). Inr (s', Ret r))"
| "dhmp_fs_oper dm s (Unlink p n) = rbind (dhmp_fs_unlink s (path_of (p @ [n]))) (\<lambda>(s', r). Inr (s', Ret r))"
| "dhmp_fs_oper dm s (Rmdir p n) = rbind (dhmp_fs_rmdir s (path_of (p @ [n]))) (\<lambda>(s', r). Inr (s', Ret r))"
| "dhmp_fs_oper dm s (Rename p n n') = rbind (dhmp_fs_rename s (path_of (p @ [n])) (path_of (p @ [n']))) (\<lambda>(s', r). Inr (s', Ret r))"
| "dhmp_fs_oper dm s (Readdir p) = rbind (dhmp_fs_readdir s (dir_path p) [] collect) (\<lambda>(L, r). Inr (s, Entries L))"
| "dhmp_fs_oper dm s (Getattr p) = rbind (dhmp_fs_getattr s (dir_path p) new_stat) (\<lambda>(st, r). Inr (s, Attr st r))"
| "dhmp_fs_oper dm s (Write p off buf) = with_handle s p (\<lambda>fh. rbind (dhmp_fs_write dm s buf off (Some fh)) (\<lambda>(s', buf', r). Inr (s', Ret r)))"
| "dhmp_fs_oper dm s (Read p off buf) = with_handle s p (\<lambda>fh. rbind (dhmp_fs_read dm s buf off (Some fh)) (\<lambda>(s', buf', r). Inr (s', Data buf' r)))"
| "dhmp_fs_oper dm s (Open p) = rbind (dhmp_fs_open s (dir_path p) 0) (\<lambda>(fh, r). Inr (s, Ret r))"
| "dhmp_fs_oper dm s (Access p k) = Inr (s, Ret (dhmp_fs_access (dir_path p) k))"
| "dhmp_fs_oper dm s (Chmod p k) = Inr (s, Ret (dhmp_fs_chmod (dir_path p) k))"
| "dhmp_fs_oper dm s (Chown p u g) = Inr (s, Ret (dhmp_fs_chown (dir_path p) u g))"
| "dhmp_fs_oper dm s (Truncate p len) = Inr (s, Ret (dhmp_fs_truncate (dir_path p) len))"
| "dhmp_fs_oper dm s (Statfs p bsize) = Inr (s, Ret (snd (dhmp_fs_statfs (dir_path p) bsize)))"
| "dhmp_fs_oper dm s (Sweep busy) = rbind (rewrite_dirty_cache dm busy s) (\<lambda>s'. Inr (s', Ret 0))"

fun fs_run :: "'m dhmp_api \<Rightarrow> ('m, 'z) io_state_scheme \<Rightarrow> fs_call list \<Rightarrow> (('m, 'z) io_state_scheme \<times> fs_answer list) res" where
  "fs_run dm s [] = Inr (s, [])"
| "fs_run dm s (c # cs) = rbind (dhmp_fs_oper dm s c) (\<lambda>(s1, a). rbind (fs_run dm s1 cs) (\<lambda>(s2, as). Inr (s2, a # as)))"

section \<open>The specification\<close>

datatype spec_node = Dir | File "nat \<Rightarrow> byte option"

type_synonym spec_fs = "string list \<Rightarrow> spec_node option"

text \<open>
  What a call does to the map; \<open>truncate\<close> does nothing. \<open>hit\<close> tells of a write whether its banks were in the cache: if not, the bytes
  written are lost and those of the range are no longer known.
\<close>

definition spec_remove :: "string list \<Rightarrow> spec_fs \<Rightarrow> spec_fs" where
  "spec_remove p m = (\<lambda>q. if prefix p q then None else m q)"

definition spec_rename :: "string list \<Rightarrow> string \<Rightarrow> string \<Rightarrow> spec_fs \<Rightarrow> spec_fs" where
  "spec_rename p n n' m =
     (\<lambda>q. if prefix (p @ [n']) q then m (p @ n # drop (Suc (length p)) q) else if prefix (p @ [n]) q then None else m q)"

definition spec_write :: "bool \<Rightarrow> string list \<Rightarrow> nat \<Rightarrow> byte list \<Rightarrow> spec_fs \<Rightarrow> spec_fs" where
  "spec_write hit p off bs m =
     (case m p of
        Some (File f) \<Rightarrow>
          m(p \<mapsto> File (\<lambda>k. if off \<le> k \<and> k < off + length bs then (if hit then Some (bs ! (k - off)) else None) else f k))
      | _ \<Rightarrow> m)"

fun spec_call :: "bool \<Rightarrow> fs_call \<Rightarrow> spec_fs \<Rightarrow> spec_fs" where
  "spec_call hit (Mkdir p n) m = m(p @ [n] \<mapsto> Dir)"
| "spec_call hit (Mknod p n) m = m(p @ [n] \<mapsto> File (\<lambda>_. None))"
| "spec_call hit (Unlink p n) m = spec_remove (p @ [n]) m"
| "spec_call hit (Rmdir p n) m = spec_remove (p @ [n]) m"
| "spec_call hit (Rename p n n') m = spec_rename p n n' m"
| "spec_call hit (Write p off bs) m = spec_write hit p off bs m"
| "spec_call hit c m = m"

text \<open>What the map says a call answers.\<close>

fun spec_answer :: "spec_fs \<Rightarrow> fs_call \<Rightarrow> fs_answer \<Rightarrow> bool" where
  "spec_answer m (Readdir p) (Entries L) \<longleftrightarrow> distinct (map fst L) \<and> (\<forall>n b. (n, b) \<in> set L \<longleftrightarrow> (\<exists>x. m (p @ [n]) = Some x \<and> b = (x = Dir)))"
| "spec_answer m (Getattr p) (Attr st r) \<longleftrightarrow>
     (case m p of None \<Rightarrow> r = -2 | Some Dir \<Rightarrow> r = 0 \<and> st_mode st = 0x41B6 | Some (File f) \<Rightarrow> r = 0 \<and> st_mode st = 0x81FF)"
| "spec_answer m (Read p off buf) (Data bs r) \<longleftrightarrow>
     (\<exists>f k. m p = Some (File f) \<and> r = int k \<and> k \<le> length buf \<and> length bs = length buf \<and> drop k bs = drop k buf \<and>
        (\<forall>j < k. \<forall>b. f (off + j) = Some b \<longrightarrow> bs ! j = b) \<and> (k < length buf \<longrightarrow> f (off + k) = None))"
| "spec_answer m (Write p off buf) (Ret r) \<longleftrightarrow> r = int (length buf)"
| "spec_answer m (Mkdir p n) (Ret r) \<longleftrightarrow> r = 0"
| "spec_answer m (Mknod p n) (Ret r) \<longleftrightarrow> r = 0"
| "spec_answer m (Unlink p n) (Ret r) \<longleftrightarrow> r = 0"
| "spec_answer m (Rmdir p n) (Ret r) \<longleftrightarrow> r = 0"
| "spec_answer m (Rename p n n') (Ret r) \<longleftrightarrow> r = 0"
| "spec_answer m (Open p) (Ret r) \<longleftrightarrow> r = (if m p = None then -1 else 0)"
| "spec_answer m (Access p k) (Ret r) \<longleftrightarrow> r = 0"
| "spec_answer m (Chmod p k) (Ret r) \<longleftrightarrow> r = 0"
| "spec_answer m (Chown p u g) (Ret r) \<longleftrightarrow> r = 0"
| "spec_answer m (Truncate p len) (Ret r) \<longleftrightarrow> r = 0"
| "spec_answer m (Statfs p bsize) (Ret r) \<longleftrightarrow> r = 0"
| "spec_answer m (Sweep busy) (Ret r) \<longleftrightarrow> r = 0"
| "spec_answer m _ _ \<longleftrightarrow> False"

text \<open>
  Which calls are legal. The kernel checks the path first: parents are directories, what is created is new, what is
  removed exists. Removing a directory that is not empty is allowed here. A rename stays in its directory
  and takes a free name. A write needs free chunks, and a read starts where data is or at the end of it.
\<close>

fun spec_legal :: "spec_fs \<Rightarrow> fs_call \<Rightarrow> bool" where
  "spec_legal m (Mkdir p n) \<longleftrightarrow> valid_path p n \<and> m p = Some Dir \<and> m (p @ [n]) = None"
| "spec_legal m (Mknod p n) \<longleftrightarrow> valid_path p n \<and> m p = Some Dir \<and> m (p @ [n]) = None"
| "spec_legal m (Unlink p n) \<longleftrightarrow> valid_path p n \<and> m p = Some Dir \<and> m (p @ [n]) \<noteq> None"
| "spec_legal m (Rmdir p n) \<longleftrightarrow> valid_path p n \<and> m p = Some Dir \<and> m (p @ [n]) \<noteq> None"
| "spec_legal m (Rename p n n') \<longleftrightarrow> valid_path p n \<and> valid_path p n' \<and> m p = Some Dir \<and> m (p @ [n]) \<noteq> None \<and> m (p @ [n']) = None"
| "spec_legal m (Readdir p) \<longleftrightarrow> (\<forall>n \<in> set p. valid_name n) \<and> m p = Some Dir"
| "spec_legal m (Getattr p) \<longleftrightarrow> (\<forall>n \<in> set p. valid_name n) \<and> (p = [] \<or> m (butlast p) = Some Dir)"
| "spec_legal m (Write p off buf) \<longleftrightarrow> (\<forall>n \<in> set p. valid_name n) \<and> (\<exists>f. m p = Some (File f)) \<and> off + length buf \<le> SIZE_THIRD_DIRECT_END \<and> length buf < 2 ^ 31"
| "spec_legal m (Read p off buf) \<longleftrightarrow> (\<forall>n \<in> set p. valid_name n) \<and> (\<exists>f. m p = Some (File f)) \<and> length buf < 2 ^ 31"
| "spec_legal m (Open p) \<longleftrightarrow> (\<forall>n \<in> set p. valid_name n) \<and> (p = [] \<or> m (butlast p) = Some Dir)"
| "spec_legal m c \<longleftrightarrow> True"

fun room_for :: "('n dhmp_client, 'z) io_state_scheme \<Rightarrow> fs_call \<Rightarrow> bool" where
  "room_for s (Write p off buf) \<longleftrightarrow> card (used_chunks s) + touched off (length buf) \<le> CHUNK_NUM"
| "room_for s (Read p off buf) \<longleftrightarrow>
     (case lookup_path s p of None \<Rightarrow> True | Some i \<Rightarrow> file_stop s i off \<or> file_byte (\<lambda>_ _ _. 0) s i off \<noteq> None)"
| "room_for s _ \<longleftrightarrow> True"

text \<open>Whether the banks a write went to were in the cache.\<close>

fun call_hit :: "('m, 'z) io_state_scheme \<Rightarrow> ('m, 'z) io_state_scheme \<Rightarrow> fs_call \<Rightarrow> bool" where
  "call_hit s s' (Write p off buf) \<longleftrightarrow> (case lookup_path s p of None \<Rightarrow> False | Some i \<Rightarrow> resident s s' i off (length buf))"
| "call_hit s s' c \<longleftrightarrow> False"

section \<open>What a state shows\<close>

fun shows_node :: "('n \<Rightarrow> int \<Rightarrow> buf) \<Rightarrow> (nat \<Rightarrow> nat \<Rightarrow> bool) \<Rightarrow> ('n dhmp_client, 'z) io_state_scheme \<Rightarrow> inode_id option \<Rightarrow> spec_node option \<Rightarrow> bool" where
  "shows_node mem D s None x \<longleftrightarrow> x = None"
| "shows_node mem D s (Some i) x \<longleftrightarrow>
     (case x of
        None \<Rightarrow> False
      | Some Dir \<Rightarrow> isDirectories (inodes s i)
      | Some (File f) \<Rightarrow> \<not> isDirectories (inodes s i) \<and>
          (\<forall>k b. f k = Some b \<longrightarrow> known D s i k \<and> file_byte (cl_content mem BANK_SIZE) s i k = Some b))"

definition shows_fs :: "('n \<Rightarrow> int \<Rightarrow> buf) \<Rightarrow> (nat \<Rightarrow> nat \<Rightarrow> bool) \<Rightarrow> ('n dhmp_client, 'z) io_state_scheme \<Rightarrow> spec_fs \<Rightarrow> bool" where
  "shows_fs mem D s m \<longleftrightarrow> (\<forall>q. shows_node mem D s (lookup_path s q) (m q))"

definition fs_ok :: "('n \<Rightarrow> int \<Rightarrow> buf) \<Rightarrow> ('n \<Rightarrow> int \<Rightarrow> nat \<Rightarrow> nat \<Rightarrow> nat \<Rightarrow> bool) \<Rightarrow> (nat \<Rightarrow> nat \<Rightarrow> bool) \<Rightarrow>
    ('n dhmp_client, 'z) io_state_scheme \<Rightarrow> spec_fs \<Rightarrow> bool" where
  "fs_ok mem grant D s m \<longleftrightarrow> dir_inv s \<and> store_ok mem grant D s \<and> shows_fs mem D s m"

section \<open>Frames\<close>

lemma collect_all: "filler_loop collect L xs = L @ xs"
  by (induction xs arbitrary: L) (auto simp: collect_def S_IFDIR_def S_IFMT_def)

lemma readdir_collect: "dhmp_fs_readdir s p [] collect = rbind (dhmpReadDir s p) (\<lambda>L. Inr (L, 0))"
  by (simp add: dhmp_fs_readdir_def collect_all)

lemma byte_there: "(file_byte content s i n \<noteq> None) = (file_byte content' s i n \<noteq> None)"
  by (simp add: file_byte_def split: option.split)

lemma lookup_same:
  assumes "root s' = root s" "\<And>i. d_hash (inodes s' i) = d_hash (inodes s i)"
  shows "lookup_path s' = lookup_path s"
proof
  fix p
  have "walk s' (root s) p = walk s (root s) p" by (rule walk_frame) (rule assms(2))
  then show "lookup_path s' p = lookup_path s p" by (simp add: lookup_path_def assms(1))
qed

lemma shows_cases:
  assumes "shows_fs mem D s m"
  shows "m q = None \<longleftrightarrow> lookup_path s q = None"
    "m q = Some Dir \<longleftrightarrow> (\<exists>i. lookup_path s q = Some i \<and> isDirectories (inodes s i))"
    "m q = Some (File f) \<Longrightarrow> \<exists>i. lookup_path s q = Some i \<and> \<not> isDirectories (inodes s i) \<and>
       (\<forall>k b. f k = Some b \<longrightarrow> known D s i k \<and> file_byte (cl_content mem BANK_SIZE) s i k = Some b)"
proof -
  have n: "shows_node mem D s (lookup_path s q) (m q)" using assms by (simp add: shows_fs_def)
  show "m q = None \<longleftrightarrow> lookup_path s q = None" "m q = Some Dir \<longleftrightarrow> (\<exists>i. lookup_path s q = Some i \<and> isDirectories (inodes s i))"
    using n by (cases "lookup_path s q"; auto split: option.splits spec_node.splits)+
  show "\<exists>i. lookup_path s q = Some i \<and> \<not> isDirectories (inodes s i) \<and>
      (\<forall>k b. f k = Some b \<longrightarrow> known D s i k \<and> file_byte (cl_content mem BANK_SIZE) s i k = Some b)" if "m q = Some (File f)"
    using n that by (cases "lookup_path s q") auto
qed

text \<open>A file whose chunks and their sizes stay, on the same banks.\<close>

lemma node_keep:
  assumes "shows_node mem D s (Some i) x" "isDirectories (inodes s' i) = isDirectories (inodes s i)" "file_chunk s' i = file_chunk s i"
    "\<And>n c. file_chunk s i n = Some c \<Longrightarrow> context_addr s' c = context_addr s c" "index_state.more s' = index_state.more s"
  shows "shows_node mem D s' (Some i) x"
proof -
  have v: "bank_view content s' = bank_view content s" for content :: "'a dhmp_client \<Rightarrow> nat \<Rightarrow> buf" by (rule io_cong[OF io_more[OF assms(5)]])
  have "known D s' i k = known D s i k" for k by (simp add: known_def assms(3))
  moreover have "file_byte (cl_content mem BANK_SIZE) s' i k = file_byte (cl_content mem BANK_SIZE) s i k" for k
    using assms(4) by (simp add: file_byte_def assms(3) v split: option.split)
  ultimately show ?thesis using assms(1,2) by (auto split: option.splits spec_node.splits)
qed

lemma store_frame:
  assumes "store_ok mem grant D s" "ix_inv s'" "index_state.more s' = index_state.more s"
  shows "store_ok mem grant D s'"
  using assms io_cong(3)[OF io_more[OF assms(3)]] by (simp add: store_ok_def)

lemma created_ok:
  assumes "fs_ok mem grant D s m" "dir_inv s'" "created s s' p c isdir"
  shows "fs_ok mem grant D s' (m(p \<mapsto> if isdir then Dir else File (\<lambda>_. None)))"
proof -
  note c = assms(3)[unfolded created_def]
  have sh: "shows_node mem D s (lookup_path s q) (m q)" for q using assms(1) by (simp add: fs_ok_def shows_fs_def)
  have "shows_node mem D s' (lookup_path s' q) ((m(p \<mapsto> if isdir then Dir else File (\<lambda>_. None))) q)" for q
  proof (cases "q = p")
    case True
    then show ?thesis using c by simp
  next
    case False
    show ?thesis
    proof (cases "lookup_path s q")
      case None
      then show ?thesis using sh[of q] c False by simp
    next
      case (Some i)
      then have "i \<noteq> c" using c by auto
      then have "shows_node mem D s' (Some i) (m q)" using node_keep[of mem D s i "m q" s'] sh[of q] c Some by simp
      then show ?thesis using c False Some by simp
    qed
  qed
  moreover have "store_ok mem grant D s'"
    using store_frame[of mem grant D s s'] assms(1,2) c by (simp add: fs_ok_def dir_inv_def)
  ultimately show ?thesis using assms(2) by (simp add: fs_ok_def shows_fs_def)
qed

lemma removed_ok:
  assumes "fs_ok mem grant D s m" "dir_inv s'" "removed s s' p"
  shows "fs_ok mem grant D s' (spec_remove p m)"
proof -
  note r = assms(3)[unfolded removed_def]
  have sh: "shows_node mem D s (lookup_path s q) (m q)" for q using assms(1) by (simp add: fs_ok_def shows_fs_def)
  have ix: "ix_inv s'" using assms(2) by (simp add: dir_inv_def)
  have "shows_node mem D s' (lookup_path s' q) (spec_remove p m q)" for q
  proof (cases "lookup_path s' q")
    case None
    then show ?thesis using sh[of q] r by (auto simp: spec_remove_def prefix_def split: if_splits)
  next
    case (Some i)
    then have q: "\<not> prefix p q" "lookup_path s q = Some i" using r by (auto simp: prefix_def split: if_splits)
    have f: "isDirectories (inodes s' i) = isDirectories (inodes s i)" "file_chunk s' i = file_chunk s i" using r Some by blast+
    have "context_addr s' c = context_addr s c" if "file_chunk s i n = Some c" for n c
      using file_chunk_owned[OF ix, of i n c] that f(2) r by simp
    then have "shows_node mem D s' (Some i) (m q)" using node_keep[of mem D s i "m q" s'] sh[of q] q(2) f r by simp
    then show ?thesis using q Some by (simp add: spec_remove_def)
  qed
  moreover have "store_ok mem grant D s'" using store_frame[OF _ ix] assms(1) r by (auto simp: fs_ok_def)
  ultimately show ?thesis using assms(2) by (simp add: fs_ok_def shows_fs_def)
qed

lemma renamed_ok:
  assumes "fs_ok mem grant D s m" "dir_inv s'" "renamed s s' p n n'" "n \<noteq> n'"
  shows "fs_ok mem grant D s' (spec_rename p n n' m)"
proof -
  note r = assms(3)[unfolded renamed_def]
  have sh: "shows_node mem D s (lookup_path s q) (m q)" for q using assms(1) by (simp add: fs_ok_def shows_fs_def)
  have keep: "shows_node mem D s' (lookup_path s q) (m q)" for q
  proof (cases "lookup_path s q")
    case (Some i)
    then show ?thesis using node_keep[of mem D s i "m q" s'] sh[of q] r by simp
  qed (use sh[of q] in simp)
  have "shows_node mem D s' (lookup_path s' q) (spec_rename p n n' m q)" for q
  proof -
    consider k where "q = p @ n' # k" | k where "q = p @ n # k" | "\<forall>k. q \<noteq> p @ n # k \<and> q \<noteq> p @ n' # k" by blast
    then show ?thesis
    proof cases
      case 1
      then show ?thesis using keep[of "p @ n # k"] r by (simp add: spec_rename_def)
    next
      case 2
      then have "lookup_path s' q = None" using r assms(4) by auto
      then show ?thesis using 2 assms(4) by (simp add: spec_rename_def)
    next
      case 3
      then have "\<not> prefix (p @ [n]) q" "\<not> prefix (p @ [n']) q" by (auto simp: prefix_def)
      then show ?thesis using keep[of q] r 3 by (simp add: spec_rename_def)
    qed
  qed
  moreover have "store_ok mem grant D s'"
    using store_frame[of mem grant D s s'] assms(1,2) r by (simp add: fs_ok_def dir_inv_def)
  ultimately show ?thesis using assms(2) by (simp add: fs_ok_def shows_fs_def)
qed

text \<open>Reading and sweeping change the cache only.\<close>

lemma dir_same:
  assumes "dir_inv s" "ix_inv s'" "inodes s' = inodes s" "root s' = root s" "next_addr s' = next_addr s" "free_inode_slab s' = free_inode_slab s"
  shows "dir_inv s'"
proof -
  obtain T where T: "dir_tree s T" using assms(1) by (auto simp: dir_inv_def)
  have "node_ok s' i cs = node_ok s i cs" for i cs by (rule node_ok_cong) (simp_all add: assms(3))
  then have "dir_tree s' T" using T by (simp add: dir_tree_def tree_ok_def assms(3-6))
  then show ?thesis using assms(2) by (auto simp: dir_inv_def)
qed

lemma cached_ok:
  assumes "fs_ok mem grant D s m" "store_ok mem grant D s'" "same_view (cl_content mem BANK_SIZE) D s s'" "fs_same s s'"
  shows "fs_ok mem grant D s' m"
proof -
  have ix: "ix_inv s" "ix_inv s'" using assms(1,2) by (simp_all add: fs_ok_def store_ok_def)
  have e: "inodes s' = inodes s" "root s' = root s" "next_addr s' = next_addr s" "free_inode_slab s' = free_inode_slab s"
    using assms(4) by (simp_all add: fs_same_def)
  note f = file_same[OF ix(1) assms(4,3)]
  have l: "lookup_path s' = lookup_path s" by (rule lookup_same) (simp_all add: e)
  have "shows_node mem D s' x y" if "shows_node mem D s x y" for x y
    using that by (cases x) (auto simp: e f(3,7) split: option.splits spec_node.splits)
  then have "shows_fs mem D s' m" using assms(1) by (simp add: fs_ok_def shows_fs_def l)
  moreover have "dir_inv s'" using dir_same[OF _ ix(2) e] assms(1) by (simp add: fs_ok_def)
  ultimately show ?thesis using assms(2) by (simp add: fs_ok_def)
qed

text \<open>A write changes the chunks of its file.\<close>

lemma wrote_dir:
  assumes "dir_inv s" "ix_inv s'" "other_files content D s s' head" "lookup_path s p = Some head"
  shows "dir_inv s'" "lookup_path s' = lookup_path s" "isDirectories (inodes s' i) = isDirectories (inodes s i)"
proof -
  note o = assms(3)[unfolded other_files_def]
  have h: "inodes s' i = (inodes s i)\<lparr>cnt_id := cnt_id (inodes s' i), ctxs := ctxs (inodes s' i), isize := isize (inodes s' i)\<rparr>" for i
    using o by (cases "i = head") auto
  have f: "isDirectories (inodes s' i) = isDirectories (inodes s i)" "d_hash (inodes s' i) = d_hash (inodes s i)"
      "bro (inodes s' i) = bro (inodes s i)" "son (inodes s' i) = son (inodes s i)" "son_nums (inodes s' i) = son_nums (inodes s i)"
      "filename (inodes s' i) = filename (inodes s i)" for i
    by (subst h, simp)+
  show "isDirectories (inodes s' i) = isDirectories (inodes s i)" by (rule f(1))
  show "lookup_path s' = lookup_path s" by (rule lookup_same) (use o f(2) in auto)
  obtain T where T: "dir_tree s T" using assms(1) by (auto simp: dir_inv_def)
  have "head \<in> set (nodes T)" by (rule lookup_node(1)[OF T assms(4)])
  then have "clean (inodes s' i)" if "i \<notin> set (nodes T)" for i using that o T by (auto simp: dir_tree_def)
  moreover have "node_ok s' i cs" if "node_ok s i cs" for i cs by (rule node_ok_cong'[OF that]) (simp_all add: f)
  ultimately have "dir_tree s' T" using T o f(1) by (auto simp: dir_tree_def tree_ok_def)
  then show "dir_inv s'" using assms(2) by (auto simp: dir_inv_def)
qed

lemma wrote_ok:
  assumes "fs_ok mem grant D s m" "store_ok mem grant D' s'" "wrote (cl_content mem BANK_SIZE) D D' s s' head off bs" "lookup_path s p = Some head"
    "m p = Some (File f)" "hit \<Longrightarrow> resident s s' head off (length bs)"
  shows "fs_ok mem grant D' s' (spec_write hit p off bs m)"
proof -
  note w = wroteD[OF assms(3)]
  note o = w(1)[unfolded other_files_def]
  have d: "dir_inv s" "ix_inv s'" using assms(1,2) by (simp_all add: fs_ok_def store_ok_def)
  note dir = wrote_dir[OF d w(1) assms(4)]
  have sh: "shows_node mem D s (lookup_path s q) (m q)" for q using assms(1) by (simp add: fs_ok_def shows_fs_def)
  have known: "known D' s' i k" if "known D s i k" for i k
  proof (rule known_keep[OF that w(2)])
    fix n c assume "n < MAX_CHUNKS" "file_chunk s i n = Some c"
    then show "file_chunk s' i n = Some c" using w(3) o by (cases "i = head") (simp_all add: file_chunk_def)
  qed
  have byte: "file_byte (cl_content mem BANK_SIZE) s' i k = Some b"
    if "known D s i k" "file_byte (cl_content mem BANK_SIZE) s i k = Some b" "i \<noteq> head \<or> k < off \<or> off + length bs \<le> k" for i k b
    using that w(4)[of k] o unfolding kept_def by (cases "i = head") auto
  have other: "shows_node mem D' s' (Some i) x" if "shows_node mem D s (Some i) x" "i \<noteq> head" for i x
    using that known byte by (auto simp: dir(3) split: option.splits spec_node.splits)
  have nd: "\<not> isDirectories (inodes s head)" "\<forall>k b. f k = Some b \<longrightarrow> known D s head k \<and> file_byte (cl_content mem BANK_SIZE) s head k = Some b"
    using sh[of p] assms(4,5) by simp_all
  obtain T where T: "dir_tree s T" using d(1) by (auto simp: dir_inv_def)
  have uniq: "q = p" if "lookup_path s q = Some head" for q
    using walk_unique[of s T q head p] T that assms(4) by (simp add: dir_tree_def lookup_path_def)
  have "shows_node mem D' s' (lookup_path s' q) (spec_write hit p off bs m q)" for q
  proof (cases "q = p")
    case True
    have "known D' s' head k \<and> file_byte (cl_content mem BANK_SIZE) s' head k = Some b"
      if "(if off \<le> k \<and> k < off + length bs then (if hit then Some (bs ! (k - off)) else None) else f k) = Some b" for k b
    proof (cases "off \<le> k \<and> k < off + length bs")
      case True
      then show ?thesis using that w(8,9)[OF assms(6), of "k - off"] by (auto split: if_splits)
    next
      case False
      then show ?thesis using that nd(2) known byte by auto
    qed
    then show ?thesis using True assms(4,5) nd(1) dir(2,3) by (simp add: spec_write_def)
  next
    case False
    then have "lookup_path s q \<noteq> Some head" using uniq by blast
    then show ?thesis using other sh[of q] dir(2) assms(5) False by (cases "lookup_path s q") (simp_all add: spec_write_def)
  qed
  then show ?thesis using assms(2) dir(1) by (simp add: fs_ok_def shows_fs_def)
qed

text \<open>A read that starts where data is, or where it ends, goes on to the first place where the data ends.\<close>

lemma read_extent:
  assumes "file_stop s i off \<or> file_byte content s i off \<noteq> None"
  obtains k where "k \<le> n" "\<forall>j < k. file_byte content s i (off + j) \<noteq> None" "k < n \<longrightarrow> file_stop s i (off + k) \<and> file_byte content s i (off + k) = None"
proof -
  let ?P = "\<lambda>k. k = n \<or> file_byte content s i (off + k) = None"
  define k where "k = (LEAST k. ?P k)"
  have pk: "?P k" unfolding k_def by (rule LeastI[of ?P n]) simp
  have kn: "k \<le> n" unfolding k_def by (rule Least_le) simp
  have lt: "\<forall>j < k. file_byte content s i (off + j) \<noteq> None" unfolding k_def using not_less_Least by blast
  have "file_stop s i (off + k)" if "k < n"
  proof -
    have none: "file_byte content s i (off + k) = None" using pk that by simp
    show ?thesis
    proof (cases k)
      case 0
      then show ?thesis using assms none by simp
    next
      case (Suc j)
      have p: "0 < CHUNK_SIZE" by (simp add: sizes(2))
      have prev: "file_byte content s i (off + j) \<noteq> None" using lt Suc by simp
      show ?thesis
      proof (cases "SIZE_THIRD_DIRECT_END \<le> off + k \<or> file_chunk s i ((off + k) div CHUNK_SIZE) = None")
        case True
        then show ?thesis by (auto simp: file_stop_def)
      next
        case False
        then obtain c where c: "off + k < SIZE_THIRD_DIRECT_END" "file_chunk s i ((off + k) div CHUNK_SIZE) = Some c" by auto
        have le: "csize (context_addr s c) \<le> (off + k) mod CHUNK_SIZE" using none c by (simp add: file_byte_def split: if_splits)
        have "(off + k) mod CHUNK_SIZE \<le> csize (context_addr s c)"
        proof (cases "(off + k) mod CHUNK_SIZE = 0")
          case False
          then have e: "(off + k) mod CHUNK_SIZE = Suc ((off + j) mod CHUNK_SIZE)" "(off + j) div CHUNK_SIZE = (off + k) div CHUNK_SIZE"
            using Suc p by (simp_all add: mod_Suc div_Suc split: if_splits)
          then show ?thesis using prev c by (auto simp: file_byte_def split: if_splits)
        qed simp
        then show ?thesis using le c by (simp add: file_stop_def)
      qed
    qed
  qed
  then show thesis using that[OF kn lt] pk by auto
qed


section \<open>Each call\<close>

lemma resolve_append: "resolve s i p = Inr (Some f) \<Longrightarrow> resolve s i (p @ q) = resolve s f q"
  by (induction p arbitrary: i) (auto split: option.splits)

lemma dir_found:
  assumes "shows_fs mem D s m" "m p = Some Dir"
  obtains f where "lookup_path s p = Some f" "resolve s (root s) p = Inr (Some f)" "isDirectories (inodes s f)"
  using shows_cases(2)[OF assms(1), of p] assms(2) resolve_lookup[of s p] by blast

lemma file_found:
  assumes "shows_fs mem D s m" "m p = Some (File f)" "\<forall>n \<in> set p. valid_name n"
  obtains i where "lookup_path s p = Some i" "\<not> isDirectories (inodes s i)" "with_handle s p = (\<lambda>g. g i)"
    "\<forall>k b. f k = Some b \<longrightarrow> known D s i k \<and> file_byte (cl_content mem BANK_SIZE) s i k = Some b"
proof -
  from shows_cases(3)[OF assms(1,2)] obtain i where i: "lookup_path s p = Some i" "\<not> isDirectories (inodes s i)"
    "\<forall>k b. f k = Some b \<longrightarrow> known D s i k \<and> file_byte (cl_content mem BANK_SIZE) s i k = Some b" by blast
  have "resolve s (root s) p = Inr (Some i)" using i(1) by (simp add: resolve_lookup)
  then have "with_handle s p = (\<lambda>g. g i)"
    by (simp add: fun_eq_iff with_handle_def dhmp_fs_open_def search_dir_path[OF assms(3)])
  then show thesis by (rule that[OF i(1,2) _ i(3)])
qed

definition call_ok :: "('n \<Rightarrow> int \<Rightarrow> buf) \<Rightarrow> ('n \<Rightarrow> int \<Rightarrow> nat \<Rightarrow> nat \<Rightarrow> nat \<Rightarrow> bool) \<Rightarrow> ('n dhmp_client, 'z) io_state_scheme \<Rightarrow>
    spec_fs \<Rightarrow> spec_fs \<Rightarrow> fs_call \<Rightarrow> (('n dhmp_client, 'z) io_state_scheme \<times> fs_answer) res \<Rightarrow> bool" where
  "call_ok mem grant s m m' c out \<longleftrightarrow> (\<exists>s' a D'. out = Inr (s', a) \<and> spec_answer m c a \<and> fs_ok mem grant D' s' m')"

lemma make_call_ok:
  assumes "fs_ok mem grant D s m" "valid_path p n" "m p = Some Dir" "m (p @ [n]) = None"
  shows "call_ok mem grant s m (m(p @ [n] \<mapsto> Dir)) (Mkdir p n) (dhmp_fs_oper dm s (Mkdir p n))"
    "call_ok mem grant s m (m(p @ [n] \<mapsto> File (\<lambda>_. None))) (Mknod p n) (dhmp_fs_oper dm s (Mknod p n))"
proof -
  have sh: "dir_inv s" "shows_fs mem D s m" using assms(1) by (simp_all add: fs_ok_def)
  obtain f where f: "resolve s (root s) p = Inr (Some f)" "isDirectories (inodes s f)" using dir_found[OF sh(2) assms(3)] by blast
  have none: "lookup_path s (p @ [n]) = None" using shows_cases(1)[OF sh(2), of "p @ [n]"] assms(4) by simp
  from mkdir_spec[OF sh(1) assms(2)] f none obtain s' c where
    s': "dhmpCreateDirectory s (path_of (p @ [n])) = Inr (s', 1)" "dir_inv s'" "created s s' (p @ [n]) c True" by auto
  from mknod_spec[OF sh(1) assms(2)] f none obtain t' d where
    t': "dhmpMknod s (path_of (p @ [n])) = Inr (t', 1)" "dir_inv t'" "created s t' (p @ [n]) d False" by auto
  show "call_ok mem grant s m (m(p @ [n] \<mapsto> Dir)) (Mkdir p n) (dhmp_fs_oper dm s (Mkdir p n))"
    using created_ok[OF assms(1) s'(2,3)] s'(1) by (auto simp: call_ok_def dhmp_fs_mkdir_def simp del: path_of_simps)
  show "call_ok mem grant s m (m(p @ [n] \<mapsto> File (\<lambda>_. None))) (Mknod p n) (dhmp_fs_oper dm s (Mknod p n))"
    using created_ok[OF assms(1) t'(2,3)] t'(1) by (auto simp: call_ok_def dhmp_fs_mknod_def simp del: path_of_simps)
qed

lemma remove_call_ok:
  assumes "fs_ok mem grant D s m" "valid_path p n" "m p = Some Dir" "m (p @ [n]) \<noteq> None"
  shows "call_ok mem grant s m (spec_remove (p @ [n]) m) (Unlink p n) (dhmp_fs_oper dm s (Unlink p n))"
    "call_ok mem grant s m (spec_remove (p @ [n]) m) (Rmdir p n) (dhmp_fs_oper dm s (Rmdir p n))"
proof -
  have sh: "dir_inv s" "shows_fs mem D s m" using assms(1) by (simp_all add: fs_ok_def)
  obtain f where f: "resolve s (root s) p = Inr (Some f)" "isDirectories (inodes s f)" using dir_found[OF sh(2) assms(3)] by blast
  have some: "lookup_path s (p @ [n]) \<noteq> None" using shows_cases(1)[OF sh(2), of "p @ [n]"] assms(4) by simp
  from delete_spec[OF sh(1) assms(2)] f some obtain s' where
    s': "dhmpDelete s (path_of (p @ [n])) = Inr (s', 1)" "dir_inv s'" "removed s s' (p @ [n])" by auto
  note ok = removed_ok[OF assms(1) s'(2,3)]
  show "call_ok mem grant s m (spec_remove (p @ [n]) m) (Unlink p n) (dhmp_fs_oper dm s (Unlink p n))"
    using ok s'(1) by (auto simp: call_ok_def dhmp_fs_unlink_def simp del: path_of_simps)
  show "call_ok mem grant s m (spec_remove (p @ [n]) m) (Rmdir p n) (dhmp_fs_oper dm s (Rmdir p n))"
    using ok s'(1) by (auto simp: call_ok_def dhmp_fs_rmdir_def simp del: path_of_simps)
qed

lemma rename_call_ok:
  assumes "fs_ok mem grant D s m" "valid_path p n" "valid_path p n'" "m p = Some Dir" "m (p @ [n]) \<noteq> None" "m (p @ [n']) = None"
  shows "call_ok mem grant s m (spec_rename p n n' m) (Rename p n n') (dhmp_fs_oper dm s (Rename p n n'))"
proof -
  have sh: "dir_inv s" "shows_fs mem D s m" using assms(1) by (simp_all add: fs_ok_def)
  obtain f where f: "resolve s (root s) p = Inr (Some f)" "isDirectories (inodes s f)" using dir_found[OF sh(2) assms(4)] by blast
  have l: "lookup_path s (p @ [n]) \<noteq> None" "lookup_path s (p @ [n']) = None" "n \<noteq> n'"
    using shows_cases(1)[OF sh(2), of "p @ [n]"] shows_cases(1)[OF sh(2), of "p @ [n']"] assms(5,6) by auto
  from rename_spec[OF sh(1) assms(2,3)] f l obtain s' where
    s': "dhmp_fs_rename s (path_of (p @ [n])) (path_of (p @ [n'])) = Inr (s', 0)" "dir_inv s'" "renamed s s' p n n'" by auto
  show ?thesis using renamed_ok[OF assms(1) s'(2,3) l(3)] s'(1) by (auto simp: call_ok_def simp del: path_of_simps)
qed

lemma readdir_call_ok:
  assumes "fs_ok mem grant D s m" "\<forall>n \<in> set p. valid_name n" "m p = Some Dir"
  shows "call_ok mem grant s m m (Readdir p) (dhmp_fs_oper dm s (Readdir p))"
proof -
  have sh: "dir_inv s" "shows_fs mem D s m" using assms(1) by (simp_all add: fs_ok_def)
  obtain f where f: "lookup_path s p = Some f" "isDirectories (inodes s f)" using dir_found[OF sh(2) assms(3)] by blast
  from readdir_spec[OF sh(1) assms(2) f] obtain L where
    L: "dhmpReadDir s (dir_path p) = Inr L" "distinct (map fst L)"
      "\<forall>n b. (n, b) \<in> set L \<longleftrightarrow> (\<exists>j. lookup_path s (p @ [n]) = Some j \<and> b = isDirectories (inodes s j))" by blast
  have "(\<exists>j. lookup_path s q = Some j \<and> b = isDirectories (inodes s j)) \<longleftrightarrow> (\<exists>x. m q = Some x \<and> b = (x = Dir))" for q b
  proof -
    have n: "shows_node mem D s (lookup_path s q) (m q)" using sh(2) by (simp add: shows_fs_def)
    show ?thesis using n by (cases "lookup_path s q") (auto split: option.splits spec_node.splits)
  qed
  then have "spec_answer m (Readdir p) (Entries L)" using L(2,3) by simp
  then show ?thesis using assms(1) L(1) by (auto simp: call_ok_def readdir_collect)
qed

text \<open>A path whose parent is a directory resolves, to nothing if the map has nothing there.\<close>

lemma resolves:
  assumes "fs_ok mem grant D s m" "p = [] \<or> m (butlast p) = Some Dir"
  shows "resolve s (root s) p = Inr (lookup_path s p)"
proof (cases "lookup_path s p")
  case None
  have sh: "dir_inv s" "shows_fs mem D s m" using assms(1) by (simp_all add: fs_ok_def)
  from None have "p \<noteq> []" by (auto simp: lookup_path_def)
  then obtain q k where q: "p = q @ [k]" "m q = Some Dir" using assms(2) by (cases p rule: rev_cases) auto
  obtain f where f: "lookup_path s q = Some f" "isDirectories (inodes s f)" "resolve s (root s) q = Inr (Some f)" using dir_found[OF sh(2) q(2)] by blast
  obtain T where T: "dir_tree s T" using sh(1) by (auto simp: dir_inv_def)
  obtain cs where cs: "node_ok s f cs" using lookup_node(2)[OF T f(1)] by blast
  then obtain h where h: "d_hash (inodes s f) = Some h" using node_ok_dir f(2) by blast
  have "defaultGet h k = None" using lookup_snoc[OF f(1) h, of k] None q(1) by simp
  then show ?thesis using resolve_append[of s "root s" q f "[k]"] f(3) h q(1) None by simp
qed (simp add: resolve_lookup)

lemma getattr_call_ok:
  assumes "fs_ok mem grant D s m" "\<forall>n \<in> set p. valid_name n" "p = [] \<or> m (butlast p) = Some Dir"
  shows "call_ok mem grant s m m (Getattr p) (dhmp_fs_oper dm s (Getattr p))"
proof -
  have sh: "dir_inv s" "shows_fs mem D s m" using assms(1) by (simp_all add: fs_ok_def)
  have n: "shows_node mem D s (lookup_path s p) (m p)" using sh(2) by (simp add: shows_fs_def)
  note g = getattr_reports[OF sh(1) assms(2), of new_stat, unfolded resolves[OF assms(1,3)]]
  show ?thesis
  proof (cases "lookup_path s p")
    case None
    then show ?thesis using g n assms(1) by (auto simp: call_ok_def)
  next
    case (Some i)
    then obtain st where st: "dhmp_fs_getattr s (dir_path p) new_stat = Inr (st, 0)"
      "if isDirectories (inodes s i) then st_mode st = 0x41B6 else st_mode st = 0x81FF" using g by (auto split: if_splits)
    have "spec_answer m (Getattr p) (Attr st 0)" using n st(2) Some by (auto split: option.splits spec_node.splits)
    then show ?thesis using assms(1) st(1) by (auto simp: call_ok_def)
  qed
qed

lemma open_call_ok:
  assumes "fs_ok mem grant D s m" "\<forall>n \<in> set p. valid_name n" "p = [] \<or> m (butlast p) = Some Dir"
  shows "call_ok mem grant s m m (Open p) (dhmp_fs_oper dm s (Open p))"
proof -
  have "m p = None \<longleftrightarrow> lookup_path s p = None" using shows_cases(1)[of mem D s m p] assms(1) by (simp add: fs_ok_def)
  then show ?thesis using assms(1)
    by (cases "lookup_path s p") (auto simp: call_ok_def dhmp_fs_open_def search_dir_path[OF assms(2)] resolves[OF assms(1,3)])
qed

lemma idle_call_ok:
  assumes "fs_ok mem grant D s m"
  shows "call_ok mem grant s m m (Access p k) (dhmp_fs_oper dm s (Access p k))" "call_ok mem grant s m m (Chmod p j) (dhmp_fs_oper dm s (Chmod p j))"
    "call_ok mem grant s m m (Chown p u g) (dhmp_fs_oper dm s (Chown p u g))"
    "call_ok mem grant s m m (Truncate p len) (dhmp_fs_oper dm s (Truncate p len))"
    "call_ok mem grant s m m (Statfs p b) (dhmp_fs_oper dm s (Statfs p b))"
  using assms by (auto simp: call_ok_def dhmp_fs_access_def dhmp_fs_chmod_def dhmp_fs_chown_def dhmp_fs_truncate_def dhmp_fs_statfs_def)

lemma write_call_ok:
  assumes "verbs_ok V mem grant" "fs_ok mem grant D s m" "\<forall>n \<in> set p. valid_name n" "m p = Some (File f)"
    and "off + length buf \<le> SIZE_THIRD_DIRECT_END" "length buf < 2 ^ 31" "card (used_chunks s) + touched off (length buf) \<le> CHUNK_NUM"
  shows "\<exists>s' D'. dhmp_fs_oper (client_api V) s (Write p off buf) = Inr (s', Ret (int (length buf))) \<and>
    fs_ok mem grant D' s' (spec_write (call_hit s s' (Write p off buf)) p off buf m)"
proof -
  have sh: "shows_fs mem D s m" "store_ok mem grant D s" using assms(2) by (simp_all add: fs_ok_def)
  obtain i where i: "lookup_path s p = Some i" "\<not> isDirectories (inodes s i)" "with_handle s p = (\<lambda>g. g i)"
    by (rule file_found[OF sh(1) assms(4,3)])
  from store_write[OF assms(1) sh(2) assms(7,5,6) i(2)] obtain s' buf' D' where
    w: "dhmp_fs_write (client_api V) s buf off (Some i) = Inr (s', buf', int (length buf))" "store_ok mem grant D' s'"
      "wrote (cl_content mem BANK_SIZE) D D' s s' i off buf" by blast
  have "call_hit s s' (Write p off buf) \<Longrightarrow> resident s s' i off (length buf)" by (simp add: i(1))
  from wrote_ok[OF assms(2) w(2,3) i(1) assms(4) this] w(1) show ?thesis by (auto simp: i(3) simp del: call_hit.simps)
qed

lemma read_call_ok:
  assumes "verbs_ok V mem grant" "fs_ok mem grant D s m" "\<forall>n \<in> set p. valid_name n" "m p = Some (File f)"
    and "length buf < 2 ^ 31" "room_for s (Read p off buf)"
  shows "call_ok mem grant s m m (Read p off buf) (dhmp_fs_oper (client_api V) s (Read p off buf))"
proof -
  have sh: "shows_fs mem D s m" "store_ok mem grant D s" using assms(2) by (simp_all add: fs_ok_def)
  let ?c = "cl_content mem BANK_SIZE"
  obtain i where i: "lookup_path s p = Some i" "\<not> isDirectories (inodes s i)" "with_handle s p = (\<lambda>g. g i)"
    "\<forall>j b. f j = Some b \<longrightarrow> known D s i j \<and> file_byte ?c s i j = Some b"
    by (rule file_found[OF sh(1) assms(4,3)])
  have "file_stop s i off \<or> file_byte ?c s i off \<noteq> None" using assms(6) byte_there[of _ s i off ?c] by (auto simp: i(1))
  from read_extent[OF this, of "length buf"] obtain k where k: "k \<le> length buf" "\<forall>j < k. file_byte ?c s i (off + j) \<noteq> None"
    "k < length buf \<longrightarrow> file_stop s i (off + k) \<and> file_byte ?c s i (off + k) = None" by blast
  then have stop: "k < length buf \<longrightarrow> file_stop s i (off + k)" by simp
  from store_read[OF assms(1) sh(2) assms(5) i(2) k(1,2) stop] obtain s' bs where
    r: "dhmp_fs_read (client_api V) s buf off (Some i) = Inr (s', bs @ drop k buf, int k)" "length bs = k"
      "reads ?c D s i off bs" "store_ok mem grant D s'" "same_view ?c D s s'" "fs_same s s'" by blast
  have "bs ! j = b" if "j < k" "f (off + j) = Some b" for j b
    using i(4)[rule_format, OF that(2)] r(2) r(3)[unfolded reads_def] that(1) by auto
  moreover have "f (off + k) = None" if "k < length buf" using k(3) that i(4) by (cases "f (off + k)") auto
  ultimately have "spec_answer m (Read p off buf) (Data (bs @ drop k buf) (int k))"
    using assms(4) k(1) r(2) by (auto simp: nth_append intro!: exI[of _ k])
  then show ?thesis using cached_ok[OF assms(2) r(4,5,6)] r(1) by (auto simp: call_ok_def i(3))
qed

lemma sweep_call_ok:
  assumes "verbs_ok V mem grant" "fs_ok mem grant D s m"
  shows "call_ok mem grant s m m (Sweep busy) (dhmp_fs_oper (client_api V) s (Sweep busy))"
proof -
  have "store_ok mem grant D s" using assms(2) by (simp add: fs_ok_def)
  from store_sweep[OF assms(1) this, of busy] obtain s' where s': "rewrite_dirty_cache (client_api V) busy s = Inr s'"
    "store_ok mem grant D s'" "same_view (cl_content mem BANK_SIZE) D s s'" "fs_same s s'" by blast
  then show ?thesis using cached_ok[OF assms(2) s'(2-4)] by (auto simp: call_ok_def)
qed

lemma fs_call_ok:
  assumes "verbs_ok V mem grant" "fs_ok mem grant D s m" "spec_legal m c" "room_for s c"
  shows "\<exists>s' a D'. dhmp_fs_oper (client_api V) s c = Inr (s', a) \<and> spec_answer m c a \<and> fs_ok mem grant D' s' (spec_call (call_hit s s' c) c m)"
proof (cases c)
  case (Write p off buf)
  then obtain f where "\<forall>n \<in> set p. valid_name n" "m p = Some (File f)" "off + length buf \<le> SIZE_THIRD_DIRECT_END" "length buf < 2 ^ 31"
    "card (used_chunks s) + touched off (length buf) \<le> CHUNK_NUM" using assms(3,4) by auto
  from write_call_ok[OF assms(1,2) this] show ?thesis
    unfolding Write spec_call.simps by (auto simp del: call_hit.simps)
next
  case (Read p off buf)
  then show ?thesis using read_call_ok[OF assms(1,2)] assms(3,4) unfolding call_ok_def by force
next
  case (Sweep busy)
  then show ?thesis using sweep_call_ok[OF assms(1,2)] unfolding call_ok_def by force
qed (use assms(3) make_call_ok[OF assms(2)] remove_call_ok[OF assms(2)] rename_call_ok[OF assms(2)] readdir_call_ok[OF assms(2)]
    getattr_call_ok[OF assms(2)] open_call_ok[OF assms(2)] idle_call_ok[OF assms(2)] in \<open>simp add: call_ok_def\<close>)+

section \<open>Histories\<close>

text \<open>
  A history is legal when each call is legal for the map it meets; what the maps are depends only on the calls
  and on which writes hit. A call that faults would end it.
\<close>

fun legal_history :: "'n dhmp_client dhmp_api \<Rightarrow> ('n dhmp_client, 'z) io_state_scheme \<Rightarrow> spec_fs \<Rightarrow> fs_call list \<Rightarrow> bool" where
  "legal_history dm s m [] \<longleftrightarrow> True"
| "legal_history dm s m (c # cs) \<longleftrightarrow> spec_legal m c \<and> room_for s c \<and>
     (\<forall>s' a. dhmp_fs_oper dm s c = Inr (s', a) \<longrightarrow> legal_history dm s' (spec_call (call_hit s s' c) c m) cs)"

text \<open>The map each call meets, and the one at the end.\<close>

fun spec_run :: "'n dhmp_client dhmp_api \<Rightarrow> ('n dhmp_client, 'z) io_state_scheme \<Rightarrow> spec_fs \<Rightarrow> fs_call list \<Rightarrow> spec_fs list" where
  "spec_run dm s m [] = [m]"
| "spec_run dm s m (c # cs) =
     m # (case dhmp_fs_oper dm s c of Inl e \<Rightarrow> [] | Inr (s', a) \<Rightarrow> spec_run dm s' (spec_call (call_hit s s' c) c m) cs)"

lemma fs_run_ok:
  assumes V: "verbs_ok V mem grant" and "fs_ok mem grant D s m" "legal_history (client_api V) s m cs"
  shows "\<exists>s' as D'. fs_run (client_api V) s cs = Inr (s', as) \<and> list_all2 (\<lambda>(m, c) a. spec_answer m c a) (zip (spec_run (client_api V) s m cs) cs) as \<and>
    spec_run (client_api V) s m cs \<noteq> [] \<and> fs_ok mem grant D' s' (last (spec_run (client_api V) s m cs))"
  using assms(2,3)
proof (induction cs arbitrary: s m D)
  case (Cons c cs)
  then have l: "spec_legal m c" "room_for s c" by simp_all
  from fs_call_ok[OF V Cons.prems(1) l] obtain s1 a D1 where
    s1: "dhmp_fs_oper (client_api V) s c = Inr (s1, a)" "spec_answer m c a" "fs_ok mem grant D1 s1 (spec_call (call_hit s s1 c) c m)" by blast
  then have "legal_history (client_api V) s1 (spec_call (call_hit s s1 c) c m) cs" using Cons.prems(2) by simp
  from Cons.IH[OF s1(3) this] s1(1,2) show ?case by (auto simp del: call_hit.simps)
qed auto

text \<open>A fresh file system on \<open>bank_client\<close>: nothing but the root directory.\<close>

definition bank_root :: "(int \<Rightarrow> buf) dhmp_client io_state" where
  "bank_root = bank_fs\<lparr>inodes := inodes dir_start\<rparr>"

lemma bank_root_ok: "fs_ok id flat_grant (\<lambda>b off. False) bank_root [[] \<mapsto> Dir]"
proof -
  have f: "root bank_root = 0" "next_addr bank_root = 1" "free_inode_slab bank_root = []" "inodes bank_root = inodes dir_start"
    by (simp_all add: bank_root_def bank_fs_def io_start_def)
  have "ix_inv bank_fs" using bank_fs_ok by (simp add: store_ok_def)
  then have ix: "ix_inv bank_root"
    by (rule ix_inv_frame) (simp_all add: bank_root_def dir_start_def index_start_def bank_fs_def io_start_def)
  have "dir_tree bank_root (INode 0 [])"
    by (simp add: dir_tree_def tree_ok_def node_ok_def f) (simp add: f dir_start_def index_start_def blank_inode_def clean_def createHashMap_ok(1) empty_table)
  then have "dir_inv bank_root" using ix by (auto simp: dir_inv_def)
  moreover have "store_ok id flat_grant (\<lambda>b off. False) bank_root"
    by (rule store_frame[OF bank_fs_ok ix]) (simp add: bank_root_def)
  moreover have "lookup_path bank_root p = (if p = [] then Some 0 else None)" for p
    by (cases p) (simp_all add: lookup_path_def f, simp add: dir_start_def index_start_def blank_inode_def empty_table)
  then have "shows_fs id (\<lambda>b off. False) bank_root [[] \<mapsto> Dir]" by (simp add: shows_fs_def f)
  ultimately show ?thesis by (simp add: fs_ok_def)
qed

lemma sample_legal:
  "legal_history (client_api flat_verbs) bank_root [[] \<mapsto> Dir] [Mknod [] ''a'', Write [''a''] 0 [1, 2, 3], Sweep (\<lambda>_. False), Readdir []]"
proof -
  have inv: "dir_inv bank_root" using bank_root_ok by (simp add: fs_ok_def)
  have r: "resolve bank_root (root bank_root) [] = Inr (Some 0)" "isDirectories (inodes bank_root 0)"
    by (simp_all add: bank_root_def bank_fs_def io_start_def)
  have "shows_fs id (\<lambda>b off. False) bank_root [[] \<mapsto> Dir]" using bank_root_ok by (simp add: fs_ok_def)
  from shows_cases(1)[OF this, of "[''a'']"] have n: "lookup_path bank_root [''a''] = None" by simp
  have "card (used_chunks s) + touched 0 (length [1 :: byte, 2, 3]) \<le> CHUNK_NUM" if s: "dhmp_fs_oper dm bank_root (Mknod [] ''a'') = Inr (s, a)" for dm s a
  proof -
    obtain s1 c where s1: "dhmpMknod bank_root ''/a'' = Inr (s1, 1)" "created bank_root s1 [''a''] c False"
      using mknod_spec[OF inv valid_path_a(1)] r n by auto
    then have "s = s1" using s by (simp add: dhmp_fs_mknod_def)
    then have "bitmap s = (\<lambda>_. False)" using s1(2) by (simp add: created_def bank_root_def bank_fs_def io_start_def)
    then show ?thesis by (simp add: used_chunks_def touched_def const_simps)
  qed
  then show ?thesis by (auto simp add: valid_path_a valid_name_def sizes(6) const_simps spec_write_def)
qed

section \<open>Properties\<close>

text \<open>C1: the file system as a whole, on a reachable store, refines a map from paths to directories and files: every
  legal history of mkdir, mknod, unlink, rmdir, rename, readdir, getattr, read and write, with sweeps of the background
  thread at any point between them, runs without a fault; every answer is the one the map gives, data included; and the
  state at the end shows the map at the end. The only concession is in the map: a write that misses the cache loses what is known
  of its range.\<close>

theorem fs_history:
  assumes "verbs_ok V mem grant" "fs_ok mem grant D s m" "legal_history (client_api V) s m cs"
  shows "\<exists>s' as D'. fs_run (client_api V) s cs = Inr (s', as) \<and> list_all2 (\<lambda>(m, c) a. spec_answer m c a) (zip (spec_run (client_api V) s m cs) cs) as \<and>
    fs_ok mem grant D' s' (last (spec_run (client_api V) s m cs))"
  using fs_run_ok[OF assms] by blast


theorem fs_history_witness:
  "\<exists>s' as D'. fs_run (client_api flat_verbs) bank_root [Mknod [] ''a'', Write [''a''] 0 [1, 2, 3], Sweep (\<lambda>_. False), Readdir []] = Inr (s', as) \<and>
    list_all2 (\<lambda>(m, c) a. spec_answer m c a)
      (zip (spec_run (client_api flat_verbs) bank_root [[] \<mapsto> Dir] [Mknod [] ''a'', Write [''a''] 0 [1, 2, 3], Sweep (\<lambda>_. False), Readdir []])
        [Mknod [] ''a'', Write [''a''] 0 [1, 2, 3], Sweep (\<lambda>_. False), Readdir []]) as \<and>
    fs_ok id flat_grant D' s' (last (spec_run (client_api flat_verbs) bank_root [[] \<mapsto> Dir]
      [Mknod [] ''a'', Write [''a''] 0 [1, 2, 3], Sweep (\<lambda>_. False), Readdir []]))"
  by (rule fs_history[OF flat_verbs_ok bank_root_ok sample_legal])

end
