(* ===== verification/Dhmp_Work.thy ===== *)
theory Dhmp_Work
  imports Dhmp_Client
begin

text \<open>
  The work queue of the client, \<open>src/dhmp_client/src/dhmp_work.c\<close> with the queueing halves of the calls in
  \<open>dhmp_client.c\<close>: threads put work items on \<open>work_list\<close> under a mutex and spin on the item's \<open>done_flag\<close>, one
  thread takes items off and handles them. \<open>Dhmp_Client\<close> models a call as if nobody else were there; here
  the calls of any number of threads interleave with the work thread, and every call gets the answer it would get if the calls were
  made one after the other in the order in which they were queued.
\<close>

section \<open>Work items\<close>

datatype dhmp_work =
    DHMP_WORK_MALLOC nat nat nat
  | DHMP_WORK_FREE nat "64 word"
  | DHMP_WORK_READ nat "64 word" "byte list" int
  | DHMP_WORK_WRITE nat "64 word" "byte list" int
  | DHMP_WORK_POLL
  | DHMP_WORK_CLOSE nat
  | DHMP_WORK_DONE
  | DHMP_WORK_SEND nat nat bool "64 word"

text \<open>What a handler leaves for the caller: the result field of the item, or the caller's buffer.\<close>

datatype work_answer = Res_addr "64 word" | Local_buf "byte list" | Done

definition with_answer :: "('a \<Rightarrow> work_answer) \<Rightarrow> ('a \<times> 'n dhmp_client) res \<Rightarrow> (work_answer option \<times> 'n dhmp_client) res" where
  "with_answer g r = rbind r (\<lambda>(x, c). Inr (Some (g x), c))"

definition done_with :: "'n dhmp_client res \<Rightarrow> (work_answer option \<times> 'n dhmp_client) res" where
  "done_with r = rbind r (\<lambda>c. Inr (Some Done, c))"

text \<open>
  The switch of \<open>dhmp_work_handle_thread\<close>. \<open>dhmp_poll_ht_func\<close>, which only the cache policy queues, is the
  parameter \<open>poll\<close>; it and the items the switch does not know set no \<open>done_flag\<close>.
\<close>

fun work_dispatch :: "('n dhmp_client \<Rightarrow> 'n dhmp_client res) \<Rightarrow> 'n verbs \<Rightarrow> 'n dhmp_client \<Rightarrow> dhmp_work \<Rightarrow> (work_answer option \<times> 'n dhmp_client) res" where
  "work_dispatch poll V c (DHMP_WORK_MALLOC t p len) = with_answer Res_addr (dhmp_malloc_work_handler V c t p len)"
| "work_dispatch poll V c (DHMP_WORK_FREE t a) = done_with (dhmp_free_work_handler V c t a)"
| "work_dispatch poll V c (DHMP_WORK_READ t a buf off) = with_answer Local_buf (dhmp_read_work_handler V c t a buf off)"
| "work_dispatch poll V c (DHMP_WORK_WRITE t a buf off) = done_with (dhmp_write_work_handler V c t a buf off)"
| "work_dispatch poll V c (DHMP_WORK_SEND t w is_write a) = done_with (dhmp_send_work_handler V c t w is_write a)"
| "work_dispatch poll V c DHMP_WORK_POLL = rbind (poll c) (\<lambda>c1. Inr (None, c1))"
| "work_dispatch poll V c (DHMP_WORK_CLOSE t) = done_with (dhmp_close_work_handler V c t)"
| "work_dispatch poll V c DHMP_WORK_DONE = Inr (None, c)"

section \<open>Calls\<close>

datatype client_call =
    Malloc_call nat int
  | Free_call "64 word"
  | Read_call "64 word" "byte list" int
  | Write_call "64 word" "byte list" int
  | Close_call "nat option"

datatype call_answer = Pointer "64 word" | Void | Status int "byte list"

text \<open>
  A call up to its \<open>list_add_tail\<close>: it returns an answer at once or has an item to queue. And what it
  returns when its item is done.
\<close>

definition on_node :: "'n dhmp_client \<Rightarrow> 64 word \<Rightarrow> call_answer \<Rightarrow> (nat \<Rightarrow> dhmp_work) \<Rightarrow> (call_answer + dhmp_work) res" where
  "on_node c a bad w =
     rbind (dhmp_get_trans_from_addr c a) (\<lambda>r.
       case r of None \<Rightarrow> Inr (Inl bad) | Some t \<Rightarrow> Inr (if node_connected c r then Inr (w t) else Inl bad))"

definition malloc_enqueue :: "'n dhmp_client \<Rightarrow> nat \<Rightarrow> int \<Rightarrow> ((call_answer + dhmp_work) \<times> 'n dhmp_client) res" where
  "malloc_enqueue c len nodeid =
     (if len = 0 then Inr (Inl (Pointer 0), c)
      else rbind (dhmp_node_select_by_id c nodeid) (\<lambda>r.
             case r of
               None \<Rightarrow> Inr (Inl (Pointer 0), c)
             | Some t \<Rightarrow>
                 let p = next_info c; raw = raw_info c p;
                     a = raw\<lparr>nvm_mr := (nvm_mr raw)\<lparr>mr_length := 0\<rparr>, dram_mr := (dram_mr raw)\<lparr>mr_addr := 0\<rparr>\<rparr>
                 in Inr (Inr (DHMP_WORK_MALLOC t p len), c\<lparr>next_info := Suc p, infos := (infos c)(p \<mapsto> a)\<rparr>)))"

definition free_enqueue :: "'n dhmp_client \<Rightarrow> 64 word \<Rightarrow> ((call_answer + dhmp_work) \<times> 'n dhmp_client) res" where
  "free_enqueue c a = (if a = 0 then Inr (Inl Void, c) else rbind (on_node c a Void (\<lambda>t. DHMP_WORK_FREE t a)) (\<lambda>x. Inr (x, c)))"

definition read_enqueue :: "'n dhmp_client \<Rightarrow> 64 word \<Rightarrow> byte list \<Rightarrow> int \<Rightarrow> ((call_answer + dhmp_work) \<times> 'n dhmp_client) res" where
  "read_enqueue c a buf off = rbind (on_node c a (Status (-1) buf) (\<lambda>t. DHMP_WORK_READ t a buf off)) (\<lambda>x. Inr (x, c))"

definition write_enqueue :: "'n dhmp_client \<Rightarrow> 64 word \<Rightarrow> byte list \<Rightarrow> int \<Rightarrow> ((call_answer + dhmp_work) \<times> 'n dhmp_client) res" where
  "write_enqueue c a buf off = rbind (on_node c a (Status (-1) buf) (\<lambda>t. DHMP_WORK_WRITE t a buf off)) (\<lambda>x. Inr (x, c))"

definition close_enqueue :: "'n dhmp_client \<Rightarrow> nat option \<Rightarrow> ((call_answer + dhmp_work) \<times> 'n dhmp_client) res" where
  "close_enqueue c t = Inr (case t of None \<Rightarrow> Inl Void | Some p \<Rightarrow> if node_connected c t then Inr (DHMP_WORK_CLOSE p) else Inl Void, c)"

lemmas enqueue_defs [simp] = malloc_enqueue_def free_enqueue_def read_enqueue_def write_enqueue_def close_enqueue_def

fun call_enqueue :: "'n dhmp_client \<Rightarrow> client_call \<Rightarrow> ((call_answer + dhmp_work) \<times> 'n dhmp_client) res" where
  "call_enqueue c (Malloc_call len nodeid) = malloc_enqueue c len nodeid"
| "call_enqueue c (Free_call a) = free_enqueue c a"
| "call_enqueue c (Read_call a buf off) = read_enqueue c a buf off"
| "call_enqueue c (Write_call a buf off) = write_enqueue c a buf off"
| "call_enqueue c (Close_call t) = close_enqueue c t"

fun call_return :: "client_call \<Rightarrow> work_answer \<Rightarrow> call_answer" where
  "call_return (Malloc_call len nodeid) (Res_addr a) = Pointer a"
| "call_return (Read_call a buf off) (Local_buf bs) = Status 0 bs"
| "call_return (Write_call a buf off) x = Status 0 buf"
| "call_return c x = Void"

text \<open>The same calls made by one thread alone, as \<open>Dhmp_Client\<close> has them.\<close>

fun client_seq :: "'n verbs \<Rightarrow> 'n dhmp_client \<Rightarrow> client_call \<Rightarrow> (call_answer \<times> 'n dhmp_client) res" where
  "client_seq V c (Malloc_call len nodeid) = rbind (dhmp_malloc V c len nodeid) (\<lambda>(a, c1). Inr (Pointer a, c1))"
| "client_seq V c (Free_call a) = rbind (dhmp_free V c a) (\<lambda>c1. Inr (Void, c1))"
| "client_seq V c (Read_call a buf off) = rbind (dhmp_read V c a buf off) (\<lambda>(re, bs, c1). Inr (Status re bs, c1))"
| "client_seq V c (Write_call a buf off) = rbind (dhmp_write V c a buf off) (\<lambda>(re, c1). Inr (Status re buf, c1))"
| "client_seq V c (Close_call t) = rbind (dhmp_close_connection V c t) (\<lambda>c1. Inr (Void, c1))"

fun client_seqs :: "'n verbs \<Rightarrow> 'n dhmp_client \<Rightarrow> client_call list \<Rightarrow> (call_answer list \<times> 'n dhmp_client) res" where
  "client_seqs V c [] = Inr ([], c)"
| "client_seqs V c (x # xs) = rbind (client_seq V c x) (\<lambda>(a, c1). rbind (client_seqs V c1 xs) (\<lambda>(as, c2). Inr (a # as, c2)))"

section \<open>The threads\<close>

text \<open>
  Calls are numbered in the order in which they take the mutex. \<open>work_list\<close> holds the numbers and items, \<open>taken\<close> the item
  the work thread has removed and is handling, \<open>done_flag\<close> the answers ready for the callers.
\<close>

record 'n work_sys =
  ws_client :: "'n dhmp_client"
  work_list :: "(nat \<times> dhmp_work) list"
  taken :: "(nat \<times> dhmp_work) option"
  done_flag :: "nat \<Rightarrow> work_answer option"
  returned :: "nat \<Rightarrow> call_answer option"

definition sys_start :: "'n dhmp_client \<Rightarrow> 'n work_sys" where
  "sys_start c = \<lparr>ws_client = c, work_list = [], taken = None, done_flag = (\<lambda>k. None), returned = (\<lambda>k. None)\<rparr>"

definition sys_call :: "nat \<Rightarrow> client_call \<Rightarrow> 'n work_sys \<Rightarrow> 'n work_sys res" where
  "sys_call k x s =
     rbind (call_enqueue (ws_client s) x) (\<lambda>(r, c).
       Inr (case r of
              Inl a \<Rightarrow> s\<lparr>ws_client := c, returned := (returned s)(k \<mapsto> a)\<rparr>
            | Inr w \<Rightarrow> s\<lparr>ws_client := c, work_list := work_list s @ [(k, w)]\<rparr>))"

text \<open>The two halves of an iteration of \<open>dhmp_work_handle_thread\<close>, each with the other threads free to run before it.\<close>

definition work_take :: "'n work_sys \<Rightarrow> 'n work_sys" where
  "work_take s = (case work_list s of [] \<Rightarrow> s\<lparr>taken := None\<rparr> | w # ws \<Rightarrow> s\<lparr>taken := Some w, work_list := ws\<rparr>)"

definition work_handle :: "('n dhmp_client \<Rightarrow> 'n dhmp_client res) \<Rightarrow> 'n verbs \<Rightarrow> 'n work_sys \<Rightarrow> 'n work_sys res" where
  "work_handle poll V s =
     (case taken s of
        None \<Rightarrow> Inr s
      | Some (k, w) \<Rightarrow>
          rbind (work_dispatch poll V (ws_client s) w) (\<lambda>(a, c).
            Inr (s\<lparr>ws_client := c, taken := None, done_flag := (done_flag s)(k := a)\<rparr>)))"

text \<open>The caller sees the flag and returns.\<close>

definition sys_return :: "nat \<Rightarrow> client_call \<Rightarrow> 'n work_sys \<Rightarrow> 'n work_sys" where
  "sys_return k x s =
     (case done_flag s k of None \<Rightarrow> s | Some a \<Rightarrow> s\<lparr>done_flag := (done_flag s)(k := None), returned := (returned s)(k \<mapsto> call_return x a)\<rparr>)"

text \<open>All interleavings: \<open>sys_run poll V c0 xs s\<close> when the calls \<open>xs\<close> have been made so far and \<open>s\<close> is reached.\<close>

inductive sys_run :: "('n dhmp_client \<Rightarrow> 'n dhmp_client res) \<Rightarrow> 'n verbs \<Rightarrow> 'n dhmp_client \<Rightarrow> client_call list \<Rightarrow> 'n work_sys \<Rightarrow> bool"
  for poll V c0 where
  run_start: "sys_run poll V c0 [] (sys_start c0)"
| run_call: "sys_run poll V c0 xs s \<Longrightarrow> sys_call (length xs) x s = Inr s' \<Longrightarrow> sys_run poll V c0 (xs @ [x]) s'"
| run_take: "sys_run poll V c0 xs s \<Longrightarrow> taken s = None \<Longrightarrow> sys_run poll V c0 xs (work_take s)"
| run_handle: "sys_run poll V c0 xs s \<Longrightarrow> work_handle poll V s = Inr s' \<Longrightarrow> sys_run poll V c0 xs s'"
| run_return: "sys_run poll V c0 xs s \<Longrightarrow> k < length xs \<Longrightarrow> sys_run poll V c0 xs (sys_return k (xs ! k) s)"

text \<open>The work thread alone, for as many iterations as there are items.\<close>

fun work_drain :: "('n dhmp_client \<Rightarrow> 'n dhmp_client res) \<Rightarrow> 'n verbs \<Rightarrow> nat \<Rightarrow> 'n work_sys \<Rightarrow> 'n work_sys res" where
  "work_drain poll V 0 s = work_handle poll V s"
| "work_drain poll V (Suc n) s = rbind (work_handle poll V s) (\<lambda>s1. work_drain poll V n (work_take s1))"

section \<open>Calls and items\<close>

lemma rbind_assoc: "rbind (rbind m f) g = rbind m (\<lambda>x. rbind (f x) g)"
  by (cases m) simp_all

lemma rbind_right: "rbind m Inr = m"
  by (cases m) simp_all

lemma client_seq_split:
  "client_seq V c x = rbind (call_enqueue c x) (\<lambda>(r, c1).
     case r of Inl a \<Rightarrow> Inr (a, c1) | Inr w \<Rightarrow> rbind (work_dispatch poll V c1 w) (\<lambda>(a, c2). Inr (call_return x (the a), c2)))"
proof (cases x)
  case (Malloc_call len nodeid)
  show ?thesis
  proof (cases "dhmp_node_select_by_id c nodeid")
    case (Inr r)
    then show ?thesis unfolding Malloc_call
      by (cases r) (simp_all add: dhmp_malloc_def with_answer_def Let_def rbind_assoc split_def)
  qed (simp add: Malloc_call dhmp_malloc_def)
next
  case (Free_call a)
  show ?thesis
  proof (cases "dhmp_get_trans_from_addr c a")
    case (Inr r)
    then show ?thesis unfolding Free_call
      by (cases r) (simp_all add: dhmp_free_def done_with_def on_node_def rbind_assoc)
  qed (simp add: Free_call dhmp_free_def on_node_def)
next
  case (Read_call a buf off)
  show ?thesis
  proof (cases "dhmp_get_trans_from_addr c a")
    case (Inr r)
    then show ?thesis unfolding Read_call
      by (cases r) (simp_all add: dhmp_read_def with_answer_def on_node_def rbind_assoc split_def)
  qed (simp add: Read_call dhmp_read_def on_node_def)
next
  case (Write_call a buf off)
  show ?thesis
  proof (cases "dhmp_get_trans_from_addr c a")
    case (Inr r)
    then show ?thesis unfolding Write_call
      by (cases r) (simp_all add: dhmp_write_def done_with_def on_node_def rbind_assoc)
  qed (simp add: Write_call dhmp_write_def on_node_def)
next
  case (Close_call t)
  then show ?thesis
    by (cases t) (simp_all add: dhmp_close_connection_def done_with_def rbind_assoc)
qed

section \<open>A new address record in between\<close>

text \<open>
  While an item waits, a later \<open>malloc\<close> may already have made its record. The item's handler works on its own record
  and on those of the address table, so it does not notice.
\<close>

definition add_info :: "nat \<Rightarrow> dhmp_addr_info \<Rightarrow> 'n dhmp_client \<Rightarrow> 'n dhmp_client" where
  "add_info p a c = c\<lparr>next_info := Suc p, infos := (infos c)(p \<mapsto> a)\<rparr>"

definition off_table :: "nat \<Rightarrow> 'n dhmp_client \<Rightarrow> bool" where
  "off_table p c \<longleftrightarrow> (\<forall>k. p \<notin> set (addr_info_ht c k))"

text \<open>The answer to a request about record \<open>q\<close> is about record \<open>q\<close>; closing a connection is not answered.\<close>

fun msg_about :: "nat \<Rightarrow> dhmp_msg \<Rightarrow> bool" where
  "msg_about q (DHMP_MSG_MALLOC_RESPONSE req mr) \<longleftrightarrow> mc_addr_info req = q"
| "msg_about q (DHMP_MSG_MALLOC_ERROR req) \<longleftrightarrow> mc_addr_info req = q"
| "msg_about q (DHMP_MSG_FREE_RESPONSE p) \<longleftrightarrow> p = q"
| "msg_about q _ \<longleftrightarrow> False"

fun request_of :: "dhmp_msg \<Rightarrow> nat option" where
  "request_of (DHMP_MSG_MALLOC_REQUEST req) = Some (mc_addr_info req)"
| "request_of (DHMP_MSG_FREE_REQUEST p mr) = Some p"
| "request_of _ = None"

definition answers_own :: "'n verbs \<Rightarrow> bool" where
  "answers_own V \<longleftrightarrow> (\<forall>n node msg m n'. net_call V n node msg = (Some m, n') \<longrightarrow>
     (\<forall>q. request_of msg = Some q \<longrightarrow> msg_about q m) \<and> msg \<noteq> DHMP_MSG_CLOSE_CONNECTION)"

lemma add_info_sel [simp]:
  "transports (add_info p a c) = transports c" "connect_trans (add_info p a c) = connect_trans c" "poll_trans (add_info p a c) = poll_trans c"
  "addr_info_ht (add_info p a c) = addr_info_ht c" "net (add_info p a c) = net c" "in_recovery (add_info p a c) = in_recovery c"
  "send_mr_list (add_info p a c) = send_mr_list c" "read_mr (add_info p a c) = read_mr c" "raw_info (add_info p a c) = raw_info c"
  "next_info (add_info p a c) = Suc p" "infos (add_info p a c) = (infos c)(p \<mapsto> a)"
  by (simp_all add: add_info_def)

lemma add_info_upd [simp]:
  "(add_info p a c)\<lparr>transports := t, net := n\<rparr> = add_info p a (c\<lparr>transports := t, net := n\<rparr>)"
  "(add_info p a c)\<lparr>net := n\<rparr> = add_info p a (c\<lparr>net := n\<rparr>)" "(add_info p a c)\<lparr>send_mr_list := l\<rparr> = add_info p a (c\<lparr>send_mr_list := l\<rparr>)"
  "(add_info p a c)\<lparr>addr_info_ht := h\<rparr> = add_info p a (c\<lparr>addr_info_ht := h\<rparr>)"
  "q \<noteq> p \<Longrightarrow> (add_info p a c)\<lparr>infos := (f(p \<mapsto> a))(q := x)\<rparr> = add_info p a (c\<lparr>infos := f(q := x)\<rparr>)"
  by (simp_all add: add_info_def fun_upd_twist)

lemma add_info_fns [simp]:
  "node_connected (add_info p a c) t = node_connected c t" "trans_at (add_info p a c) i = trans_at c i" "trans_index (add_info p a c) t = trans_index c t"
  "dhmp_get_trans_from_addr (add_info p a c) w = dhmp_get_trans_from_addr c w"
  "dhmp_node_select_by_id (add_info p a c) i = dhmp_node_select_by_id c i"
  "dhmp_transfer_dhmp_addr (add_info p a c) t w = dhmp_transfer_dhmp_addr c t w"
  by (simp_all add: node_connected_def trans_at_def trans_index_def dhmp_get_trans_from_addr_def dhmp_node_select_by_id_def dhmp_transfer_dhmp_addr_def
      cong: option.case_cong)

lemma add_upd: "q \<noteq> p \<Longrightarrow> upd_info (add_info p a c) q f = rbind (upd_info c q f) (\<lambda>c1. Inr (add_info p a c1))"
  by (simp add: upd_info_def split: option.split)

lemma add_find: "p \<notin> set ps \<Longrightarrow> bucket_find (add_info p a c) ps w = bucket_find c ps w"
  by (induction ps) (auto split: option.split)

lemma add_info_lookup: "off_table p c \<Longrightarrow> dhmp_get_addr_info_from_ht (add_info p a c) i w = dhmp_get_addr_info_from_ht c i w"
  by (simp add: dhmp_get_addr_info_from_ht_def off_table_def add_find)

lemma find_in: "bucket_find c ps w = Inr (Some q) \<Longrightarrow> q \<in> set ps"
  by (induction ps) (auto split: option.splits if_splits)

lemma lookup_off: "off_table p c \<Longrightarrow> dhmp_get_addr_info_from_ht c i w = Inr (Some q) \<Longrightarrow> q \<noteq> p"
  using find_in by (fastforce simp: off_table_def dhmp_get_addr_info_from_ht_def)

lemma add_insert:
  "q \<noteq> p \<Longrightarrow> dhmp_addr_info_insert_ht (add_info p a c) w q = rbind (dhmp_addr_info_insert_ht c w q) (\<lambda>c1. Inr (add_info p a c1))"
  by (simp add: dhmp_addr_info_insert_ht_def add_upd rbind_assoc Let_def)

lemma add_recv:
  assumes "msg_about q m" "q \<noteq> p"
  shows "client_recv_handler (add_info p a c) t m = rbind (client_recv_handler c t m) (\<lambda>c1. Inr (add_info p a c1))"
  using assms by (cases m) (auto simp: client_recv_handler_def dhmp_malloc_response_handler_def dhmp_malloc_error_handler_def dhmp_free_response_handler_def add_upd)

lemma add_post:
  assumes "answers_own V" "request_of msg = Some q \<and> q \<noteq> p \<or> msg = DHMP_MSG_CLOSE_CONNECTION"
  shows "dhmp_post_send V (add_info p a c) t msg = rbind (dhmp_post_send V c t msg) (\<lambda>c1. Inr (add_info p a c1))"
proof (cases "trans_state (transports c t) = DHMP_TRANSPORT_STATE_CONNECTED")
  case True
  show ?thesis
  proof (cases "dhmp_send_task_create t (transports c t) msg")
    case (Inr x)
    obtain rt task answer n where x: "x = (rt, task)" "net_call V (net c) (node_id rt) msg = (answer, n)" by (metis surj_pair)
    show ?thesis
    proof (cases answer)
      case None
      then show ?thesis using True Inr x by (simp add: dhmp_post_send_def)
    next
      case (Some m)
      then have "msg_about q m" "q \<noteq> p" using assms x(2) unfolding answers_own_def by blast+
      then show ?thesis using True Inr x Some by (simp add: dhmp_post_send_def add_recv)
    qed
  qed (use True in \<open>simp add: dhmp_post_send_def\<close>)
qed (simp add: dhmp_post_send_def)

lemma add_get_mr: "dhmp_get_mr_from_send_list V (add_info p a c) len = (add_info p a (fst (dhmp_get_mr_from_send_list V c len)), snd (dhmp_get_mr_from_send_list V c len))"
  by (simp add: dhmp_get_mr_from_send_list_def split: option.split)

lemma add_rdma_read:
  "dhmp_rdma_read V (add_info p a c) t mr buf len off = rbind (dhmp_rdma_read V c t mr buf len off) (\<lambda>(re, bs, c1). Inr (re, bs, add_info p a c1))"
proof -
  obtain c1 r where g: "dhmp_get_mr_from_send_list V c len = (c1, r)" by (metis surj_pair)
  show ?thesis
    by (simp add: dhmp_rdma_read_def add_get_mr g Let_def split: option.split prod.split wc_result.split)
qed

lemma add_rdma_write:
  assumes "q \<noteq> p"
  shows "dhmp_rdma_write V (add_info p a c) t q mr buf len off = rbind (dhmp_rdma_write V c t q mr buf len off) (\<lambda>(re, c1). Inr (re, add_info p a c1))"
proof -
  obtain c1 r where g: "dhmp_get_mr_from_send_list V c len = (c1, r)" by (metis surj_pair)
  let ?node = "node_id (transports c1 t)"
  obtain wc n where w: "net_write V (net c1) ?node (mr_addr mr + word_of_int off) (rkey mr) (take (nat len) buf) = (wc, n)" by (metis surj_pair)
  obtain wc2 bs n2 where r2: "net_read V n ?node (mr_addr mr + word_of_int len - 1) (rkey mr) 1 = (wc2, bs, n2)" by (metis surj_pair)
  show ?thesis
    by (cases r; cases wc; cases wc2) (simp_all add: dhmp_rdma_write_def add_get_mr g w r2[simplified] Let_def add_upd[OF assms] rbind_assoc)
qed

text \<open>The record an item brings along, and the handlers.\<close>

fun work_record :: "dhmp_work \<Rightarrow> nat option" where
  "work_record (DHMP_WORK_MALLOC t p len) = Some p"
| "work_record w = None"

fun queued_work :: "dhmp_work \<Rightarrow> bool" where
  "queued_work DHMP_WORK_POLL \<longleftrightarrow> False"
| "queued_work DHMP_WORK_DONE \<longleftrightarrow> False"
| "queued_work (DHMP_WORK_SEND t w is_write a) \<longleftrightarrow> False"
| "queued_work w \<longleftrightarrow> True"

lemma add_malloc:
  assumes "answers_own V" "q \<noteq> p"
  shows "dhmp_malloc_work_handler V (add_info p a c) t q len = rbind (dhmp_malloc_work_handler V c t q len) (\<lambda>(x, c1). Inr (x, add_info p a c1))"
proof -
  have post: "dhmp_post_send V (add_info p a c) t (DHMP_MSG_MALLOC_REQUEST \<lparr>mc_req_size = len, mc_addr_info = q\<rparr>) =
      rbind (dhmp_post_send V c t (DHMP_MSG_MALLOC_REQUEST \<lparr>mc_req_size = len, mc_addr_info = q\<rparr>)) (\<lambda>c1. Inr (add_info p a c1))"
    by (rule add_post[where q = q, OF assms(1)]) (simp add: assms(2))
  show ?thesis
  proof (cases "dhmp_post_send V c t (DHMP_MSG_MALLOC_REQUEST \<lparr>mc_req_size = len, mc_addr_info = q\<rparr>)")
    case (Inr c1)
    then show ?thesis using assms(2)
      by (simp add: dhmp_malloc_work_handler_def post Let_def add_upd add_insert rbind_assoc split: option.split)
  qed (simp add: dhmp_malloc_work_handler_def post)
qed

lemma add_free:
  assumes "answers_own V" "off_table p c"
  shows "dhmp_free_work_handler V (add_info p a c) t w = rbind (dhmp_free_work_handler V c t w) (\<lambda>c1. Inr (add_info p a c1))"
proof (cases "dhmp_get_addr_info_from_ht c (dhmp_hash_in_client w) w")
  case (Inl e)
  then show ?thesis by (simp add: dhmp_free_work_handler_def add_info_lookup[OF assms(2)])
next
  case (Inr r)
  show ?thesis
  proof (cases r)
    case None
    then show ?thesis using Inr by (simp add: dhmp_free_work_handler_def add_info_lookup[OF assms(2)])
  next
    case (Some q)
    then have q: "q \<noteq> p" using lookup_off[OF assms(2)] Inr by blast
    let ?c = "c\<lparr>addr_info_ht := (addr_info_ht c)(nat (dhmp_hash_in_client w) := remove1 q (addr_info_ht c (nat (dhmp_hash_in_client w))))\<rparr>"
    have post: "dhmp_post_send V (add_info p a ?c) t (DHMP_MSG_FREE_REQUEST q mr) =
        rbind (dhmp_post_send V ?c t (DHMP_MSG_FREE_REQUEST q mr)) (\<lambda>c1. Inr (add_info p a c1))" for mr
      by (rule add_post[where q = q, OF assms(1)]) (simp add: q)
    have eq: "(case infos (add_info p a c1) q of None \<Rightarrow> Inl Use_after_free | Some a2 \<Rightarrow> if mr_addr (nvm_mr a2) = 0 then Inr (add_info p a c1) else Inl Hang) =
        rbind (case infos c1 q of None \<Rightarrow> Inl Use_after_free | Some a2 \<Rightarrow> if mr_addr (nvm_mr a2) = 0 then Inr c1 else Inl Hang) (\<lambda>c2. Inr (add_info p a c2))" for c1
      using q by (simp split: option.split)
    show ?thesis
    proof (cases "in_recovery c")
      case True
      then show ?thesis using Inr Some q by (simp add: dhmp_free_work_handler_def add_info_lookup[OF assms(2)] Let_def)
    next
      case False
      show ?thesis
      proof (cases "infos c q")
        case None
        then show ?thesis using Inr Some q False by (simp add: dhmp_free_work_handler_def add_info_lookup[OF assms(2)] Let_def)
      next
        case info: (Some info)
        show ?thesis
        proof (cases "dhmp_post_send V ?c t (DHMP_MSG_FREE_REQUEST q (nvm_mr info))")
          case (Inl e)
          then show ?thesis using \<open>dhmp_get_addr_info_from_ht c (dhmp_hash_in_client w) w = Inr r\<close> Some q False info
            by (simp add: dhmp_free_work_handler_def add_info_lookup[OF assms(2)] Let_def post)
        next
          case c1: (Inr c1)
          then show ?thesis using Inr Some q False info
            by (simp add: dhmp_free_work_handler_def add_info_lookup[OF assms(2)] Let_def post split: option.split)
        qed
      qed
    qed
  qed
qed

lemma add_read:
  assumes "off_table p c"
  shows "dhmp_read_work_handler V (add_info p a c) t w buf off = rbind (dhmp_read_work_handler V c t w buf off) (\<lambda>(bs, c1). Inr (bs, add_info p a c1))"
proof (cases "dhmp_get_addr_info_from_ht c (dhmp_hash_in_client w) w")
  case (Inr r)
  show ?thesis
  proof (cases r)
    case (Some q)
    then have "q \<noteq> p" using lookup_off[OF assms] Inr by blast
    then show ?thesis using Inr Some
      by (simp add: dhmp_read_work_handler_def add_info_lookup[OF assms] add_upd add_rdma_read rbind_assoc split_def split: option.split)
  qed (use Inr in \<open>simp add: dhmp_read_work_handler_def add_info_lookup[OF assms]\<close>)
qed (simp add: dhmp_read_work_handler_def add_info_lookup[OF assms])

lemma add_write:
  assumes "off_table p c"
  shows "dhmp_write_work_handler V (add_info p a c) t w buf off = rbind (dhmp_write_work_handler V c t w buf off) (\<lambda>c1. Inr (add_info p a c1))"
proof (cases "dhmp_get_addr_info_from_ht c (dhmp_hash_in_client w) w")
  case (Inr r)
  show ?thesis
  proof (cases r)
    case (Some q)
    then have "q \<noteq> p" using lookup_off[OF assms] Inr by blast
    then show ?thesis using Inr Some
      by (simp add: dhmp_write_work_handler_def add_info_lookup[OF assms] add_upd add_rdma_write rbind_assoc split_def split: option.split)
  qed (use Inr in \<open>simp add: dhmp_write_work_handler_def add_info_lookup[OF assms]\<close>)
qed (simp add: dhmp_write_work_handler_def add_info_lookup[OF assms])

lemma add_dispatch:
  assumes "answers_own V" "off_table p c" "queued_work w" "work_record w \<noteq> Some p"
  shows "work_dispatch poll V (add_info p a c) w = rbind (work_dispatch poll V c w) (\<lambda>(x, c1). Inr (x, add_info p a c1))"
  using assms
  by (cases w) (simp_all add: add_malloc add_free add_read add_write with_answer_def done_with_def rbind_assoc split_def
      dhmp_close_work_handler_def add_post)

section \<open>What handlers keep\<close>

definition same_calls :: "'n dhmp_client \<Rightarrow> 'n dhmp_client \<Rightarrow> bool" where
  "same_calls c c' \<longleftrightarrow> next_info c' = next_info c \<and> raw_info c' = raw_info c \<and> connect_trans c' = connect_trans c \<and>
     (\<forall>t. trans_state (transports c' t) = trans_state (transports c t))"

definition tables_within :: "nat set \<Rightarrow> 'n dhmp_client \<Rightarrow> 'n dhmp_client \<Rightarrow> bool" where
  "tables_within P c c' \<longleftrightarrow> (\<forall>k. set (addr_info_ht c' k) \<subseteq> set (addr_info_ht c k) \<union> P)"

definition keeps_calls :: "nat set \<Rightarrow> 'n dhmp_client \<Rightarrow> 'n dhmp_client \<Rightarrow> bool" where
  "keeps_calls P c c' \<longleftrightarrow> same_calls c c' \<and> tables_within P c c'"

lemma same_calls_trans: "same_calls a b \<Longrightarrow> same_calls b c \<Longrightarrow> same_calls a c"
  by (simp add: same_calls_def)

lemma keeps_calls_refl [simp]: "keeps_calls P c c"
  by (auto simp: keeps_calls_def same_calls_def tables_within_def)

lemma keeps_calls_trans: "keeps_calls P a b \<Longrightarrow> keeps_calls P b c \<Longrightarrow> keeps_calls P a c"
  unfolding keeps_calls_def tables_within_def using same_calls_trans by blast

lemma keeps_calls_upd [simp]:
  "keeps_calls P c (c\<lparr>infos := f\<rparr>)" "keeps_calls P c (c\<lparr>net := n\<rparr>)" "keeps_calls P c (c\<lparr>send_mr_list := l\<rparr>)"
  by (auto simp: keeps_calls_def same_calls_def tables_within_def)

lemma keeps_calls_upd_info: "upd_info c q f = Inr c' \<Longrightarrow> keeps_calls P c c'"
  by (auto simp: upd_info_def split: option.splits)

lemma keeps_recv: "client_recv_handler c t m = Inr c' \<Longrightarrow> msg_about q m \<Longrightarrow> keeps_calls P c c'"
  by (cases m) (auto simp: client_recv_handler_def dhmp_malloc_response_handler_def dhmp_malloc_error_handler_def dhmp_free_response_handler_def intro: keeps_calls_upd_info)

lemma send_task_state: "dhmp_send_task_create t rt msg = Inr (rt', task) \<Longrightarrow> trans_state rt' = trans_state rt"
  by (auto simp: dhmp_send_task_create_def Let_def split: option.splits if_splits)

lemma keeps_calls_post:
  assumes "answers_own V" "request_of msg = Some q \<or> msg = DHMP_MSG_CLOSE_CONNECTION" "dhmp_post_send V c t msg = Inr c'"
  shows "keeps_calls P c c'"
proof (cases "trans_state (transports c t) = DHMP_TRANSPORT_STATE_CONNECTED")
  case True
  then obtain rt task where x: "dhmp_send_task_create t (transports c t) msg = Inr (rt, task)"
    using assms(3) by (auto simp: dhmp_post_send_def rbind_eq_Inr)
  obtain answer n where a: "net_call V (net c) (node_id rt) msg = (answer, n)" by (metis surj_pair)
  let ?c = "c\<lparr>transports := (transports c)(t := rt), net := n\<rparr>"
  have k: "keeps_calls P c ?c" using send_task_state[OF x] by (auto simp: keeps_calls_def same_calls_def tables_within_def)
  show ?thesis
  proof (cases answer)
    case None
    then show ?thesis using True assms(3) x a k by (simp add: dhmp_post_send_def)
  next
    case (Some m)
    then have "msg_about q m" "client_recv_handler ?c t m = Inr c'"
      using True assms x a unfolding answers_own_def by (blast, simp add: dhmp_post_send_def)
    then show ?thesis using k keeps_recv keeps_calls_trans by blast
  qed
qed (use assms(3) in \<open>simp add: dhmp_post_send_def\<close>)

lemma keeps_get_mr: "dhmp_get_mr_from_send_list V c len = (c', r) \<Longrightarrow> keeps_calls P c c'"
  by (auto simp: dhmp_get_mr_from_send_list_def split: if_splits option.splits)

lemma keeps_calls_put [simp]: "keeps_calls P c c1 \<Longrightarrow> keeps_calls P c (c1\<lparr>net := n\<rparr>)" "keeps_calls P c c1 \<Longrightarrow> keeps_calls P c (c1\<lparr>net := n, send_mr_list := l\<rparr>)"
  by (auto simp: keeps_calls_def same_calls_def tables_within_def)

lemma keeps_rdma_read: "dhmp_rdma_read V c t mr buf len off = Inr (re, bs, c') \<Longrightarrow> keeps_calls P c c'"
proof -
  assume r: "dhmp_rdma_read V c t mr buf len off = Inr (re, bs, c')"
  obtain c1 x where g: "dhmp_get_mr_from_send_list V c len = (c1, x)" by (metis surj_pair)
  have "keeps_calls P c c1" by (rule keeps_get_mr[OF g])
  then show ?thesis using r
    by (auto simp: dhmp_rdma_read_def g Let_def split: option.splits prod.splits wc_result.splits if_splits)
qed

lemma keeps_rdma_write: "dhmp_rdma_write V c t q mr buf len off = Inr (re, c') \<Longrightarrow> keeps_calls P c c'"
proof -
  assume r: "dhmp_rdma_write V c t q mr buf len off = Inr (re, c')"
  obtain c1 x where g: "dhmp_get_mr_from_send_list V c len = (c1, x)" by (metis surj_pair)
  have k: "keeps_calls P c c1" by (rule keeps_get_mr[OF g])
  obtain n l where "upd_info (c1\<lparr>net := n\<rparr>) q (\<lambda>a. a\<lparr>write_flag := False\<rparr>) = Inr c' \<or> upd_info (c1\<lparr>net := n, send_mr_list := l\<rparr>) q (\<lambda>a. a\<lparr>write_flag := False\<rparr>) = Inr c'"
    using r by (auto simp: dhmp_rdma_write_def g Let_def rbind_eq_Inr split: option.splits prod.splits wc_result.splits if_splits)
  then show ?thesis using keeps_calls_upd_info keeps_calls_trans keeps_calls_put[OF k] by metis
qed

lemma keeps_malloc:
  assumes "answers_own V" "dhmp_malloc_work_handler V c t q len = Inr (a, c')"
  shows "keeps_calls {q} c c'"
proof -
  obtain c1 where c1: "dhmp_post_send V c t (DHMP_MSG_MALLOC_REQUEST \<lparr>mc_req_size = len, mc_addr_info = q\<rparr>) = Inr c1"
    using assms(2) by (auto simp: dhmp_malloc_work_handler_def rbind_eq_Inr)
  then have k: "keeps_calls {q} c c1" using keeps_calls_post[OF assms(1), of "DHMP_MSG_MALLOC_REQUEST \<lparr>mc_req_size = len, mc_addr_info = q\<rparr>" q] by simp
  have ins: "keeps_calls {q} d d'" if insert: "dhmp_addr_info_insert_ht d w q = Inr d'" for d d' w
  proof -
    obtain d1 where d1: "upd_info d q (\<lambda>a. a\<lparr>dram_mr := (dram_mr a)\<lparr>mr_addr := 0\<rparr>\<rparr>) = Inr d1"
      "d' = d1\<lparr>addr_info_ht := (addr_info_ht d1)(nat (dhmp_hash_in_client w) := q # addr_info_ht d1 (nat (dhmp_hash_in_client w)))\<rparr>"
      using insert by (auto simp: dhmp_addr_info_insert_ht_def Let_def rbind_eq_Inr)
    have "keeps_calls {q} d1 d'" by (auto simp: d1(2) keeps_calls_def same_calls_def tables_within_def)
    then show ?thesis using keeps_calls_upd_info[OF d1(1)] keeps_calls_trans by blast
  qed
  have "keeps_calls {q} c1 c'"
    using assms(2) c1
    by (auto simp: dhmp_malloc_work_handler_def Let_def rbind_eq_Inr split: option.splits if_splits intro: keeps_calls_trans keeps_calls_upd_info ins)
  then show ?thesis using k keeps_calls_trans by blast
qed

lemma keeps_free:
  assumes "answers_own V" "dhmp_free_work_handler V c t w = Inr c'"
  shows "keeps_calls P c c'"
proof -
  let ?k = "nat (dhmp_hash_in_client w)"
  have rm: "keeps_calls P c (c\<lparr>addr_info_ht := (addr_info_ht c)(?k := remove1 q (addr_info_ht c ?k))\<rparr>)" for q
    using set_remove1_subset[of q "addr_info_ht c ?k"] by (auto simp: keeps_calls_def same_calls_def tables_within_def)
  have post: "dhmp_post_send V d t (DHMP_MSG_FREE_REQUEST q mr) = Inr d' \<Longrightarrow> keeps_calls P d d'" for d d' q mr
    using keeps_calls_post[OF assms(1), of "DHMP_MSG_FREE_REQUEST q mr" q] by simp
  show ?thesis
  proof (cases "dhmp_get_addr_info_from_ht c (dhmp_hash_in_client w) w")
    case (Inr r)
    show ?thesis
    proof (cases r)
      case None
      then show ?thesis using Inr assms(2) by (simp add: dhmp_free_work_handler_def)
    next
      case (Some q)
      let ?c = "c\<lparr>addr_info_ht := (addr_info_ht c)(?k := remove1 q (addr_info_ht c ?k))\<rparr>"
      have "\<exists>d. keeps_calls P ?c d \<and> c' = d\<lparr>infos := (infos d)(q := None)\<rparr>"
      proof (cases "in_recovery c")
        case True
        then show ?thesis using Inr Some assms(2) by (intro exI[of _ ?c]) (simp add: dhmp_free_work_handler_def Let_def)
      next
        case False
        then obtain info where i: "infos c q = Some info"
          using Inr Some assms(2) by (auto simp: dhmp_free_work_handler_def Let_def split: option.splits)
        then obtain d where d: "dhmp_post_send V ?c t (DHMP_MSG_FREE_REQUEST q (nvm_mr info)) = Inr d"
          using Inr Some assms(2) False by (auto simp: dhmp_free_work_handler_def Let_def rbind_eq_Inr)
        have "c' = d\<lparr>infos := (infos d)(q := None)\<rparr>"
          using Inr Some assms(2) False i d by (auto simp: dhmp_free_work_handler_def Let_def split: option.splits if_splits)
        then show ?thesis using post[OF d] by blast
      qed
      then show ?thesis using rm[of q] keeps_calls_trans keeps_calls_upd(1) by metis
    qed
  qed (use assms(2) in \<open>simp add: dhmp_free_work_handler_def\<close>)
qed

lemma keeps_read:
  assumes "dhmp_read_work_handler V c t w buf off = Inr (bs, c')"
  shows "keeps_calls P c c'"
proof (cases "dhmp_get_addr_info_from_ht c (dhmp_hash_in_client w) w")
  case (Inr r)
  show ?thesis
  proof (cases r)
    case (Some q)
    then obtain a where a: "infos c q = Some a" "\<not> write_flag a"
      using Inr assms by (auto simp: dhmp_read_work_handler_def split: option.splits if_splits)
    then obtain c1 re where "upd_info c q (\<lambda>a. a\<lparr>read_cnt := sint32 (read_cnt a + 1)\<rparr>) = Inr c1"
      "dhmp_rdma_read V c1 t (nvm_mr a) buf (sint32 (int (length buf))) off = Inr (re, bs, c')"
      using Inr Some assms by (auto simp: dhmp_read_work_handler_def rbind_eq_Inr)
    then show ?thesis using keeps_calls_upd_info keeps_rdma_read keeps_calls_trans by metis
  qed (use Inr assms in \<open>simp add: dhmp_read_work_handler_def\<close>)
qed (use assms in \<open>simp add: dhmp_read_work_handler_def\<close>)

lemma keeps_write:
  assumes "dhmp_write_work_handler V c t w buf off = Inr c'"
  shows "keeps_calls P c c'"
proof (cases "dhmp_get_addr_info_from_ht c (dhmp_hash_in_client w) w")
  case (Inr r)
  show ?thesis
  proof (cases r)
    case (Some q)
    then obtain a where a: "infos c q = Some a" "\<not> write_flag a"
      using Inr assms by (auto simp: dhmp_write_work_handler_def split: option.splits if_splits)
    then obtain c1 re where "upd_info c q (\<lambda>a. a\<lparr>write_flag := True, write_cnt := sint32 (write_cnt a + 1)\<rparr>) = Inr c1"
      "dhmp_rdma_write V c1 t q (nvm_mr a) buf (sint32 (int (length buf))) off = Inr (re, c')"
      using Inr Some assms by (auto simp: dhmp_write_work_handler_def rbind_eq_Inr)
    then show ?thesis using keeps_calls_upd_info keeps_rdma_write keeps_calls_trans by metis
  qed (use Inr assms in \<open>simp add: dhmp_write_work_handler_def\<close>)
qed (use assms in \<open>simp add: dhmp_write_work_handler_def\<close>)

lemma keeps_dispatch:
  assumes "answers_own V" "queued_work w" "work_dispatch poll V c w = Inr (a, c')"
  shows "keeps_calls (set_option (work_record w)) c c' \<and> (\<exists>x. a = Some x)"
proof (cases w)
  case (DHMP_WORK_MALLOC t p len)
  then show ?thesis using assms(3) keeps_malloc[OF assms(1)] by (auto simp: with_answer_def rbind_eq_Inr)
next
  case (DHMP_WORK_FREE t x)
  then show ?thesis using assms(3) keeps_free[OF assms(1)] by (auto simp: done_with_def rbind_eq_Inr)
next
  case (DHMP_WORK_READ t x buf off)
  then show ?thesis using assms(3) by (auto simp: with_answer_def rbind_eq_Inr intro: keeps_read)
next
  case (DHMP_WORK_WRITE t x buf off)
  then show ?thesis using assms(3) by (auto simp: done_with_def rbind_eq_Inr intro: keeps_write)
next
  case (DHMP_WORK_CLOSE t)
  then show ?thesis using assms(3) keeps_calls_post[OF assms(1), of DHMP_MSG_CLOSE_CONNECTION]
    by (auto simp: done_with_def dhmp_close_work_handler_def rbind_eq_Inr)
qed (use assms(2) in auto)

section \<open>The pending items\<close>

text \<open>
  What the client becomes when the pending items are handled, one after the other: the state the sequence of calls leads to. It is kept
  by the work thread, and a new call changes it like a call made alone.
\<close>

fun handle_all :: "('n dhmp_client \<Rightarrow> 'n dhmp_client res) \<Rightarrow> 'n verbs \<Rightarrow> 'n dhmp_client \<Rightarrow> (nat \<times> dhmp_work) list \<Rightarrow>
    ((nat \<times> work_answer option) list \<times> 'n dhmp_client) res" where
  "handle_all poll V c [] = Inr ([], c)"
| "handle_all poll V c ((k, w) # ws) =
     rbind (work_dispatch poll V c w) (\<lambda>(a, c1). rbind (handle_all poll V c1 ws) (\<lambda>(as, c2). Inr ((k, a) # as, c2)))"

definition item_ok :: "'n dhmp_client \<Rightarrow> dhmp_work \<Rightarrow> bool" where
  "item_ok c w \<longleftrightarrow> queued_work w \<and> (\<forall>p. work_record w = Some p \<longrightarrow> p < next_info c)"

lemma tidy_off: "table_fresh c \<Longrightarrow> off_table (next_info c) c"
  by (auto simp: table_fresh_def off_table_def)

lemma tidy_step:
  assumes "table_fresh c" "item_ok c w" "keeps_calls (set_option (work_record w)) c c'"
  shows "table_fresh c'" "next_info c' = next_info c" "item_ok c' v = item_ok c v"
proof -
  show n: "next_info c' = next_info c" using assms(3) by (simp add: keeps_calls_def same_calls_def)
  show "item_ok c' v = item_ok c v" by (simp add: item_ok_def n)
  show "table_fresh c'" unfolding table_fresh_def
  proof (intro allI ballI)
    fix k q assume "q \<in> set (addr_info_ht c' k)"
    then have "q \<in> set (addr_info_ht c k) \<union> set_option (work_record w)"
      using assms(3) unfolding keeps_calls_def tables_within_def by blast
    then show "q < next_info c'" using assms(1,2) by (auto simp: n table_fresh_def item_ok_def)
  qed
qed

lemma handle_all_add:
  assumes "answers_own V" "table_fresh c" "\<forall>x \<in> set ws. item_ok c (snd x)" "p = next_info c"
  shows "handle_all poll V (add_info p a c) ws = rbind (handle_all poll V c ws) (\<lambda>(as, c1). Inr (as, add_info p a c1))"
  using assms(2-)
proof (induction ws arbitrary: c)
  case (Cons x ws)
  obtain k w where x: "x = (k, w)" by (cases x)
  have w: "item_ok c w" using Cons.prems(2) x by simp
  then have d: "work_dispatch poll V (add_info p a c) w = rbind (work_dispatch poll V c w) (\<lambda>(x, c1). Inr (x, add_info p a c1))"
    using add_dispatch[OF assms(1) tidy_off[OF Cons.prems(1)]] Cons.prems(3) by (auto simp: item_ok_def)
  show ?case
  proof (cases "work_dispatch poll V c w")
    case (Inr r)
    obtain b c1 where r: "r = (b, c1)" by (cases r)
    have k: "keeps_calls (set_option (work_record w)) c c1"
      using keeps_dispatch[OF assms(1)] w Inr r unfolding item_ok_def by blast
    note t = tidy_step[OF Cons.prems(1) w k]
    have "handle_all poll V (add_info p a c1) ws = rbind (handle_all poll V c1 ws) (\<lambda>(as, c1). Inr (as, add_info p a c1))"
      using Cons.IH[OF t(1)] Cons.prems(2,3) t(2,3) by simp
    then show ?thesis using Inr r x by (simp add: d rbind_assoc split_def)
  qed (simp add: x d)
qed simp

lemma handle_all_keeps:
  assumes "answers_own V" "table_fresh c" "\<forall>x \<in> set ws. item_ok c (snd x)" "handle_all poll V c ws = Inr (as, c')"
  shows "same_calls c c' \<and> table_fresh c'"
  using assms(2-)
proof (induction ws arbitrary: c as)
  case Nil
  then show ?case by (simp add: same_calls_def)
next
  case (Cons x ws)
  obtain k w where x: "x = (k, w)" by (cases x)
  have w: "item_ok c w" using Cons.prems(2) x by simp
  obtain b c1 bs where h: "work_dispatch poll V c w = Inr (b, c1)" "handle_all poll V c1 ws = Inr (bs, c')"
    using Cons.prems(3) by (auto simp: x rbind_eq_Inr)
  have k: "keeps_calls (set_option (work_record w)) c c1" using keeps_dispatch[OF assms(1) _ h(1)] w by (simp add: item_ok_def)
  note t = tidy_step[OF Cons.prems(1) w k]
  have "same_calls c1 c' \<and> table_fresh c'" using Cons.IH[OF t(1) _ h(2)] Cons.prems(2) t(3) by simp
  then show ?case using k same_calls_trans by (auto simp: keeps_calls_def)
qed

lemma handle_all_append:
  "handle_all poll V c (xs @ ys) = rbind (handle_all poll V c xs) (\<lambda>(as, c1). rbind (handle_all poll V c1 ys) (\<lambda>(bs, c2). Inr (as @ bs, c2)))"
  by (induction xs arbitrary: c) (auto simp: rbind_assoc rbind_right split_def)

lemma handle_all_keys: "handle_all poll V c ws = Inr (as, c') \<Longrightarrow> map fst as = map fst ws"
  by (induction ws arbitrary: c as) (auto simp: rbind_eq_Inr)

text \<open>What a call does up to its \<open>list_add_tail\<close> depends on nothing that handlers change.\<close>

lemma node_same: "same_calls c c' \<Longrightarrow> node_connected c' = node_connected c" "same_calls c c' \<Longrightarrow> trans_at c' i = trans_at c i"
  by (simp_all add: same_calls_def node_connected_def[abs_def] trans_at_def)

lemma on_node_same: "same_calls c c' \<Longrightarrow> on_node c' a bad w = on_node c a bad w"
  by (simp only: on_node_def dhmp_get_trans_from_addr_def node_same[of c c'])

lemma on_node_item: "on_node c a bad f = Inr (Inr w) \<Longrightarrow> \<exists>t. w = f t"
  by (auto simp: on_node_def rbind_eq_Inr split: option.splits if_splits)

lemma enqueue_cases:
  assumes "call_enqueue c x = Inr (r, c1)" "same_calls c c'"
  obtains (plain) "c1 = c" "call_enqueue c' x = Inr (r, c')" "\<And>w. r = Inr w \<Longrightarrow> queued_work w \<and> work_record w = None"
  | (made) t len a where "c1 = add_info (next_info c) a c" "call_enqueue c' x = Inr (r, add_info (next_info c) a c')"
      "r = Inr (DHMP_WORK_MALLOC t (next_info c) len)"
proof (cases x)
  case (Malloc_call len nodeid)
  have n: "next_info c' = next_info c" "raw_info c' = raw_info c" "dhmp_node_select_by_id c' nodeid = dhmp_node_select_by_id c nodeid"
    using assms(2) by (simp_all add: same_calls_def dhmp_node_select_by_id_def node_same[OF assms(2)])
  show thesis
  proof (cases "len = 0 \<or> dhmp_node_select_by_id c nodeid = Inr None")
    case True
    then have "r = Inl (Pointer 0)" "c1 = c" "call_enqueue c' x = Inr (r, c')" using assms(1) Malloc_call n(3) by (auto split: if_splits)
    then show thesis using plain by simp
  next
    case False
    then obtain t where "dhmp_node_select_by_id c nodeid = Inr (Some t)" "0 < len" using assms(1) Malloc_call by (auto simp: rbind_eq_Inr)
    then show thesis using made[of _ t len] assms(1) Malloc_call n by (auto simp: Let_def add_info_def)
  qed
next
  case (Free_call a)
  show thesis
  proof (cases "a = 0")
    case True
    then show thesis using plain assms(1) Free_call by auto
  next
    case False
    then have n: "on_node c a Void (\<lambda>t. DHMP_WORK_FREE t a) = Inr r" "c1 = c" using assms(1) Free_call by (auto simp: rbind_eq_Inr)
    have "queued_work w \<and> work_record w = None" if "r = Inr w" for w using on_node_item n(1)[unfolded that] by fastforce
    then show thesis using plain[OF n(2)] n(1) False Free_call on_node_same[OF assms(2)] by simp
  qed
next
  case (Read_call a buf off)
  then have n: "on_node c a (Status (-1) buf) (\<lambda>t. DHMP_WORK_READ t a buf off) = Inr r" "c1 = c" using assms(1) by (auto simp: rbind_eq_Inr)
  have "queued_work w \<and> work_record w = None" if "r = Inr w" for w using on_node_item n(1)[unfolded that] by fastforce
  then show thesis using plain[OF n(2)] n(1) Read_call on_node_same[OF assms(2)] by simp
next
  case (Write_call a buf off)
  then have n: "on_node c a (Status (-1) buf) (\<lambda>t. DHMP_WORK_WRITE t a buf off) = Inr r" "c1 = c" using assms(1) by (auto simp: rbind_eq_Inr)
  have "queued_work w \<and> work_record w = None" if "r = Inr w" for w using on_node_item n(1)[unfolded that] by fastforce
  then show thesis using plain[OF n(2)] n(1) Write_call on_node_same[OF assms(2)] by simp
next
  case (Close_call t)
  then show thesis using assms plain by (auto simp: node_same[OF assms(2)] split: option.splits if_splits)
qed

lemma enqueue_fault: "call_enqueue c x = Inl e \<Longrightarrow> same_calls c c' \<Longrightarrow> call_enqueue c' x = Inl e"
  by (cases x) (auto simp: on_node_same[of c c'] node_same[of c c'] dhmp_node_select_by_id_def rbind_eq_Inl Let_def split: option.splits if_splits)

section \<open>The simulation\<close>

definition pending :: "'n work_sys \<Rightarrow> (nat \<times> dhmp_work) list" where
  "pending s = (case taken s of None \<Rightarrow> [] | Some x \<Rightarrow> [x]) @ work_list s"

definition right_answers :: "client_call list \<Rightarrow> call_answer list \<Rightarrow> 'n work_sys \<Rightarrow> bool" where
  "right_answers xs as s \<longleftrightarrow> length as = length xs \<and>
     (\<forall>k a. done_flag s k = Some a \<longrightarrow> k < length xs \<and> call_return (xs ! k) a = as ! k) \<and>
     (\<forall>k a. returned s k = Some a \<longrightarrow> k < length xs \<and> a = as ! k) \<and>
     (\<forall>k < length xs. k \<in> fst ` set (pending s) \<or> done_flag s k \<noteq> None \<or> returned s k \<noteq> None)"

definition right_items :: "client_call list \<Rightarrow> call_answer list \<Rightarrow> (nat \<times> work_answer option) list \<Rightarrow> bool" where
  "right_items xs as bs \<longleftrightarrow> (\<forall>(k, b) \<in> set bs. k < length xs \<and> (\<exists>a. b = Some a \<and> call_return (xs ! k) a = as ! k))"

definition work_sim :: "('n dhmp_client \<Rightarrow> 'n dhmp_client res) \<Rightarrow> 'n verbs \<Rightarrow> client_call list \<Rightarrow> call_answer list \<Rightarrow> 'n dhmp_client \<Rightarrow> 'n work_sys \<Rightarrow> bool" where
  "work_sim poll V xs as cf s \<longleftrightarrow> table_fresh (ws_client s) \<and> (\<forall>x \<in> set (pending s). item_ok (ws_client s) (snd x)) \<and>
     (\<exists>bs. handle_all poll V (ws_client s) (pending s) = Inr (bs, cf) \<and> right_items xs as bs) \<and> right_answers xs as s"

lemma sim_start: "table_fresh c \<Longrightarrow> work_sim poll V [] [] c (sys_start c)"
  by (simp add: work_sim_def pending_def sys_start_def right_items_def right_answers_def)

lemma sim_enqueue:
  assumes "answers_own V" "work_sim poll V xs as cf s" "call_enqueue (ws_client s) x = Inr (r, c1)"
  shows "\<exists>bs cf1. handle_all poll V c1 (pending s) = Inr (bs, cf1) \<and> right_items xs as bs \<and> call_enqueue cf x = Inr (r, cf1) \<and>
    table_fresh c1 \<and> (\<forall>x \<in> set (pending s). item_ok c1 (snd x)) \<and> (\<forall>w. r = Inr w \<longrightarrow> item_ok c1 w)"
proof -
  have t: "table_fresh (ws_client s)" "\<forall>x \<in> set (pending s). item_ok (ws_client s) (snd x)" using assms(2) by (simp_all add: work_sim_def)
  obtain bs where h: "handle_all poll V (ws_client s) (pending s) = Inr (bs, cf)" "right_items xs as bs" using assms(2) by (auto simp: work_sim_def)
  have same: "same_calls (ws_client s) cf" using handle_all_keeps[OF assms(1) t h(1)] by simp
  show ?thesis
  proof (rule enqueue_cases[OF assms(3) same], goal_cases)
    case 1
    then show ?thesis using t h by (auto simp: item_ok_def)
  next
    case (2 tr len a)
    have "handle_all poll V c1 (pending s) = Inr (bs, add_info (next_info (ws_client s)) a cf)"
      using handle_all_add[OF assms(1) t refl, of poll a] h(1) 2(1) by simp
    moreover have "table_fresh c1" "item_ok (ws_client s) w \<Longrightarrow> item_ok c1 w" for w
      using t(1) 2(1) by (auto simp: table_fresh_def item_ok_def less_Suc_eq)
    ultimately show ?thesis using 2 t(2) h(2) by (auto simp: item_ok_def)
  qed
qed

lemma nth_before: "k < length xs \<Longrightarrow> length as = length xs \<Longrightarrow> (xs @ [x]) ! k = xs ! k \<and> (as @ [a]) ! k = as ! k"
  by (simp add: nth_append)

lemma right_items_snoc: "right_items xs as bs \<Longrightarrow> length as = length xs \<Longrightarrow> right_items (xs @ [x]) (as @ [a]) bs"
  unfolding right_items_def using nth_before[of _ xs as x a] by fastforce

lemma sim_call:
  assumes "answers_own V" "work_sim poll V xs as cf s" "sys_call (length xs) x s = Inr s'" "client_seq V cf x = Inr (a, cf')"
  shows "work_sim poll V (xs @ [x]) (as @ [a]) cf' s'"
proof -
  have ra: "right_answers xs as s" using assms(2) by (simp add: work_sim_def)
  then have len: "length as = length xs" by (simp add: right_answers_def)
  obtain r c1 where r: "call_enqueue (ws_client s) x = Inr (r, c1)" using assms(3) by (auto simp: sys_call_def rbind_eq_Inr)
  from sim_enqueue[OF assms(1,2) r] obtain bs cf1 where
    e: "handle_all poll V c1 (pending s) = Inr (bs, cf1)" "right_items xs as bs" "call_enqueue cf x = Inr (r, cf1)" "table_fresh c1"
      "\<forall>x \<in> set (pending s). item_ok c1 (snd x)" "\<forall>w. r = Inr w \<longrightarrow> item_ok c1 w" by blast
  note seq = assms(4)[unfolded client_seq_split[where poll = poll] e(3)]
  show ?thesis
  proof (cases r)
    case (Inl b)
    then have s': "s' = s\<lparr>ws_client := c1, returned := (returned s)(length xs \<mapsto> a)\<rparr>" "cf' = cf1"
      using assms(3) r seq by (auto simp: sys_call_def)
    have p: "pending s' = pending s" by (simp add: s' pending_def)
    have "right_answers (xs @ [x]) (as @ [a]) s'"
      using ra unfolding right_answers_def p by (auto simp: s' nth_append less_Suc_eq)
    then show ?thesis using e(1,4,5) right_items_snoc[OF e(2) len] s'(2) unfolding work_sim_def p by (auto simp: s'(1))
  next
    case (Inr w)
    then obtain y where y: "work_dispatch poll V cf1 w = Inr (y, cf')" "a = call_return x (the y)" using seq by (auto simp: rbind_eq_Inr)
    have s': "s' = s\<lparr>ws_client := c1, work_list := work_list s @ [(length xs, w)]\<rparr>" using assms(3) r Inr by (auto simp: sys_call_def)
    have p: "pending s' = pending s @ [(length xs, w)]" by (simp add: s' pending_def)
    have "item_ok c1 w" using e(6) Inr by simp
    then obtain z where z: "y = Some z" using keeps_dispatch[OF assms(1) _ y(1)] by (auto simp: item_ok_def)
    have "right_answers (xs @ [x]) (as @ [a]) s'"
      using ra unfolding right_answers_def p by (auto simp: s' nth_append less_Suc_eq)
    moreover have "handle_all poll V c1 (pending s') = Inr (bs @ [(length xs, y)], cf')" by (simp add: p handle_all_append e(1) y(1))
    moreover have "right_items (xs @ [x]) (as @ [a]) (bs @ [(length xs, y)])"
      using right_items_snoc[OF e(2) len, of x a] y(2) z len by (auto simp: right_items_def nth_append)
    moreover have "\<forall>v \<in> set (pending s'). item_ok c1 (snd v)" using e(5) \<open>item_ok c1 w\<close> by (simp add: p)
    ultimately show ?thesis using e(4) by (auto simp: work_sim_def s')
  qed
qed

lemma sim_take: "work_sim poll V xs as cf s \<Longrightarrow> taken s = None \<Longrightarrow> work_sim poll V xs as cf (work_take s)"
proof -
  assume a: "work_sim poll V xs as cf s" "taken s = None"
  have p: "pending (work_take s) = pending s" using a(2) by (simp add: pending_def work_take_def split: list.split)
  have "ws_client (work_take s) = ws_client s" "done_flag (work_take s) = done_flag s" "returned (work_take s) = returned s"
    by (simp_all add: work_take_def split: list.split)
  then show ?thesis using a(1) by (simp add: work_sim_def right_answers_def p)
qed

lemma sim_handle:
  assumes "answers_own V" "work_sim poll V xs as cf s"
  shows "\<exists>s'. work_handle poll V s = Inr s' \<and> work_sim poll V xs as cf s' \<and> taken s' = None \<and> work_list s' = work_list s"
proof (cases "taken s")
  case None
  then show ?thesis using assms(2) by (simp add: work_handle_def)
next
  case (Some x)
  obtain k w where x: "x = (k, w)" by (cases x)
  have p: "pending s = (k, w) # work_list s" using Some x by (simp add: pending_def)
  have t: "table_fresh (ws_client s)" "item_ok (ws_client s) w" "\<forall>x \<in> set (work_list s). item_ok (ws_client s) (snd x)"
    using assms(2) by (simp_all add: work_sim_def p)
  obtain y c1 bs where h: "work_dispatch poll V (ws_client s) w = Inr (y, c1)" "handle_all poll V c1 (work_list s) = Inr (bs, cf)"
    "right_items xs as ((k, y) # bs)" using assms(2) by (auto simp: work_sim_def p rbind_eq_Inr)
  have kp: "keeps_calls (set_option (work_record w)) (ws_client s) c1" using keeps_dispatch[OF assms(1) _ h(1)] t(2) by (simp add: item_ok_def)
  note td = tidy_step[OF t(1,2) kp]
  let ?s = "s\<lparr>ws_client := c1, taken := None, done_flag := (done_flag s)(k := y)\<rparr>"
  have p': "pending ?s = work_list s" by (simp add: pending_def)
  obtain z where z: "y = Some z" "k < length xs" "call_return (xs ! k) z = as ! k" using h(3) by (auto simp: right_items_def)
  have "right_answers xs as s" using assms(2) by (simp add: work_sim_def)
  then have "right_answers xs as ?s" using z unfolding right_answers_def p' p by auto
  moreover have "right_items xs as bs" using h(3) by (simp add: right_items_def)
  moreover have "\<forall>x \<in> set (pending ?s). item_ok c1 (snd x)" using t(3) td(3) by (simp add: p')
  ultimately have "work_sim poll V xs as cf ?s" using td(1) h(2) by (simp add: work_sim_def p')
  then show ?thesis using h(1) Some x by (simp add: work_handle_def)
qed

lemma sim_return:
  assumes "work_sim poll V xs as cf s"
  shows "work_sim poll V xs as cf (sys_return k (xs ! k) s)"
proof (cases "done_flag s k")
  case (Some a)
  let ?s = "s\<lparr>done_flag := (done_flag s)(k := None), returned := (returned s)(k \<mapsto> call_return (xs ! k) a)\<rparr>"
  have p: "pending ?s = pending s" by (simp add: pending_def)
  have "right_answers xs as s" using assms by (simp add: work_sim_def)
  then have "right_answers xs as ?s" using Some unfolding right_answers_def p by auto
  then show ?thesis using assms Some p by (simp add: work_sim_def sys_return_def)
qed (use assms in \<open>simp add: sys_return_def\<close>)

lemma client_seqs_snoc:
  "client_seqs V c (xs @ [x]) = rbind (client_seqs V c xs) (\<lambda>(as, c1). rbind (client_seq V c1 x) (\<lambda>(a, c2). Inr (as @ [a], c2)))"
  by (induction xs arbitrary: c) (auto simp: rbind_assoc split_def)

lemma sim_run:
  assumes "answers_own V" "table_fresh c0" "sys_run poll V c0 xs s" "client_seqs V c0 xs = Inr (as, cf)"
  shows "work_sim poll V xs as cf s"
  using assms(3,4)
proof (induction arbitrary: as cf rule: sys_run.induct)
  case run_start
  then show ?case using sim_start[OF assms(2)] by simp
next
  case (run_call xs s x s')
  then obtain as1 c1 a where "client_seqs V c0 xs = Inr (as1, c1)" "client_seq V c1 x = Inr (a, cf)" "as = as1 @ [a]"
    by (auto simp: client_seqs_snoc rbind_eq_Inr)
  then show ?case using sim_call[OF assms(1)] run_call by blast
next
  case (run_take xs s)
  then show ?case using sim_take by blast
next
  case (run_handle xs s s')
  then show ?case using sim_handle[OF assms(1)] by fastforce
next
  case (run_return xs s k)
  then show ?case using sim_return by blast
qed

lemma sim_drain:
  assumes "answers_own V"
  shows "work_sim poll V xs as cf s \<Longrightarrow> n = length (work_list s) \<Longrightarrow>
    \<exists>s'. work_drain poll V n s = Inr s' \<and> work_sim poll V xs as cf s' \<and> pending s' = []"
proof (induction n arbitrary: s)
  case 0
  then show ?case using sim_handle[OF assms 0(1)] by (auto simp: pending_def)
next
  case (Suc n)
  obtain s1 where s1: "work_handle poll V s = Inr s1" "work_sim poll V xs as cf s1" "taken s1 = None" "work_list s1 = work_list s"
    using sim_handle[OF assms Suc.prems(1)] by blast
  have "n = length (work_list (work_take s1))" using Suc.prems(2) s1(4) by (auto simp: work_take_def split: list.split)
  then show ?case using Suc.IH[OF sim_take[OF s1(2,3)]] s1(1) by simp
qed

text \<open>One thread writes to a region and another reads it; the read is queued while the work thread has taken the write.\<close>

definition queue_client :: "(int \<Rightarrow> buf) dhmp_client" where
  "queue_client = region_client\<lparr>next_info := 1\<rparr>"

definition sample_calls :: "client_call list" where
  "sample_calls = [Write_call 0x1000 [1, 2, 3] 253, Read_call 0x1000 [0, 0, 0] 253]"

definition sample_sys :: "(int \<Rightarrow> buf) work_sys" where
  "sample_sys = \<lparr>ws_client = queue_client, work_list = [(1, DHMP_WORK_READ 0 0x1000 [0, 0, 0] 253)],
     taken = Some (0, DHMP_WORK_WRITE 0 0x1000 [1, 2, 3] 253), done_flag = (\<lambda>k. None), returned = (\<lambda>k. None)\<rparr>"

lemma sample_sys_run: "sys_run Inr flat_verbs queue_client sample_calls sample_sys"
proof -
  have n: "on_node queue_client 0x1000 bad f = Inr (Inr (f 0))" for bad f
    by (simp add: on_node_def dhmp_get_trans_from_addr_def addr_node_small trans_at_def node_connected_def queue_client_def region_client_def
        sample_client_def blank_transport_def DHMP_SERVER_NODE_NUM_def)
  let ?s1 = "(sys_start queue_client)\<lparr>work_list := [(0, DHMP_WORK_WRITE 0 0x1000 [1, 2, 3] 253)]\<rparr>"
  have "sys_run Inr flat_verbs queue_client ([] @ [sample_calls ! 0]) ?s1"
    by (rule run_call[OF run_start]) (simp add: sys_call_def sample_calls_def n sys_start_def)
  from run_take[OF this] have "sys_run Inr flat_verbs queue_client ([] @ [sample_calls ! 0]) (work_take ?s1)" by (simp add: sys_start_def)
  moreover have "sys_call (length ([] @ [sample_calls ! 0])) (sample_calls ! 1) (work_take ?s1) = Inr sample_sys"
    by (simp add: sys_call_def sample_calls_def n sys_start_def work_take_def sample_sys_def)
  ultimately have "sys_run Inr flat_verbs queue_client (([] @ [sample_calls ! 0]) @ [sample_calls ! 1]) sample_sys" by (rule run_call)
  then show ?thesis by (simp add: sample_calls_def)
qed

lemma sample_calls_seq:
  "\<exists>cf. client_seqs flat_verbs queue_client sample_calls = Inr ([Status 0 [1, 2, 3], Status 0 [1, 2, 3]], cf)"
proof -
  have "same_table region_client queue_client" by (simp add: same_table_def queue_client_def)
  from same_table_ok[OF this, of flat_grant 256] have ok: "cl_ok flat_grant 256 queue_client 0x1000"
    using region_client_ok by (simp add: queue_client_def)
  have lt: "(256 :: nat) < 2 ^ 31" by simp
  note store = client_store[OF flat_verbs_ok lt]
  from remote_store.wr_ok[OF store ok, of "[1, 2, 3]" 253] obtain c1 where
    c1: "dhmp_write flat_verbs queue_client 0x1000 [1, 2, 3] 253 = Inr (0, c1)" "cl_ok flat_grant 256 c1 0x1000"
      "cl_content id 256 c1 0x1000 = buf_write (cl_content id 256 queue_client 0x1000) 253 [1, 2, 3]" using ok by auto
  from remote_store.rd_ok[OF store c1(2), of "[0, 0, 0]" 253] obtain c2 where
    "dhmp_read flat_verbs c1 0x1000 [0, 0, 0] 253 = Inr (0, [1, 2, 3], c2)"
    by (auto simp: c1(3) buf_read_def buf_write_def upt_rec)
  then show ?thesis using c1(1) by (simp add: sample_calls_def)
qed

lemma queue_client_tidy: "table_fresh queue_client" "answers_own flat_verbs"
  by (simp_all add: table_fresh_def queue_client_def region_client_def answers_own_def flat_verbs_def)

text \<open>What every caller has got so far, and gets once the work thread has emptied the list.\<close>

lemma run_answers:
  assumes "answers_own V" "table_fresh c0" "sys_run poll V c0 xs s" "client_seqs V c0 xs = Inr (as, cf)"
  shows "\<forall>k a. returned s k = Some a \<longrightarrow> k < length xs \<and> a = as ! k"
    "\<exists>s'. work_drain poll V (length (work_list s)) s = Inr s' \<and> ws_client s' = cf \<and> work_list s' = [] \<and>
      (\<forall>k < length xs. returned (sys_return k (xs ! k) s') k = Some (as ! k))"
proof -
  have sim: "work_sim poll V xs as cf s" by (rule sim_run[OF assms])
  obtain s' where s': "work_drain poll V (length (work_list s)) s = Inr s'" "work_sim poll V xs as cf s'" "pending s' = []"
    using sim_drain[OF assms(1) sim refl] by blast
  have ra: "right_answers xs as s" "right_answers xs as s'" using sim s'(2) by (simp_all add: work_sim_def)
  show "\<forall>k a. returned s k = Some a \<longrightarrow> k < length xs \<and> a = as ! k" using ra(1) by (auto simp: right_answers_def)
  have "ws_client s' = cf" using s'(2,3) by (simp add: work_sim_def)
  moreover have "returned (sys_return k (xs ! k) s') k = Some (as ! k)" if "k < length xs" for k
    using ra(2) that s'(3) by (cases "done_flag s' k") (auto simp: right_answers_def sys_return_def)
  moreover have "work_list s' = []" using s'(3) by (simp add: pending_def)
  ultimately show "\<exists>s'. work_drain poll V (length (work_list s)) s = Inr s' \<and> ws_client s' = cf \<and> work_list s' = [] \<and>
      (\<forall>k < length xs. returned (sys_return k (xs ! k) s') k = Some (as ! k))" using s'(1) by blast
qed

section \<open>Property\<close>

text \<open>C2: however the calls of the client's threads and the work thread interleave, each call gets the answer it would get if the
  calls were made one after the other in the order in which they take the mutex; the work thread never faults
  where that sequence would not, and as many of its iterations as items wait release every caller and leave the client as the
  sequence would leave it. The servers answer a request with a message about the record it names.\<close>

theorem calls_linearise:
  assumes "answers_own V" "table_fresh c0" "sys_run poll V c0 xs s" "client_seqs V c0 xs = Inr (as, cf)"
  shows "(\<forall>k a. returned s k = Some a \<longrightarrow> k < length xs \<and> a = as ! k) \<and>
    (\<exists>s'. work_drain poll V (length (work_list s)) s = Inr s' \<and> ws_client s' = cf \<and> work_list s' = [] \<and>
      (\<forall>k < length xs. returned (sys_return k (xs ! k) s') k = Some (as ! k))) \<and>
    (\<forall>x e. sys_call (length xs) x s = Inl e \<longrightarrow> client_seqs V c0 (xs @ [x]) = Inl e)"
proof -
  have sim: "work_sim poll V xs as cf s" by (rule sim_run[OF assms])
  have "client_seqs V c0 (xs @ [x]) = Inl e" if "sys_call (length xs) x s = Inl e" for x e
  proof -
    obtain bs where h: "handle_all poll V (ws_client s) (pending s) = Inr (bs, cf)" "table_fresh (ws_client s)"
      "\<forall>x \<in> set (pending s). item_ok (ws_client s) (snd x)" using sim by (auto simp: work_sim_def)
    have "call_enqueue (ws_client s) x = Inl e" using that by (auto simp: sys_call_def rbind_eq_Inl)
    then have "call_enqueue cf x = Inl e" using enqueue_fault handle_all_keeps[OF assms(1) h(2,3,1)] by blast
    then show ?thesis by (simp add: client_seqs_snoc assms(4) client_seq_split[where poll = poll])
  qed
  then show ?thesis using run_answers[OF assms] by blast
qed


theorem calls_linearise_witness:
  "\<exists>cf s'. client_seqs flat_verbs queue_client sample_calls = Inr ([Status 0 [1, 2, 3], Status 0 [1, 2, 3]], cf) \<and>
    work_drain Inr flat_verbs (length (work_list sample_sys)) sample_sys = Inr s' \<and> ws_client s' = cf \<and> work_list s' = [] \<and>
    (\<forall>k < 2. returned (sys_return k (sample_calls ! k) s') k = Some (Status 0 [1, 2, 3]))"
proof -
  obtain cf where cf: "client_seqs flat_verbs queue_client sample_calls = Inr ([Status 0 [1, 2, 3], Status 0 [1, 2, 3]], cf)"
    using sample_calls_seq by blast
  have two: "length sample_calls = 2" by (simp add: sample_calls_def)
  from calls_linearise[OF queue_client_tidy(2,1) sample_sys_run cf] obtain s' where
    "work_drain Inr flat_verbs (length (work_list sample_sys)) sample_sys = Inr s'" "ws_client s' = cf" "work_list s' = []"
    "\<forall>k < 2. returned (sys_return k (sample_calls ! k) s') k = Some ([Status 0 [1, 2, 3], Status 0 [1, 2, 3]] ! k)"
    unfolding two by blast
  then show ?thesis using cf by (auto simp: less_2_cases_iff)
qed

end
