(* ===== verification/Kernel_List.thy ===== *)
theory Kernel_List
  imports Prelude
begin

text \<open>
  The intrusive lists of \<open>src/include/list.h\<close> (the same file is \<open>src/dhmp_client/include/linux/list.h\<close>), on which every queue and
  table of the program is built. A node is an address; the memory maps an address to the two pointers of the
  \<open>struct list_head\<close> there, and an address that is not mapped faults. \<open>represents\<close> says that the rings of pointers in
  memory are the given lists of nodes; every operation used by the program keeps it, so the other theories may speak of lists.
  The lists with a single pointer as head (\<open>hlist\<close>), the buckets of the address table, are treated the same way at the end.
\<close>

section \<open>Memory\<close>

type_synonym ptr = "64 word"

definition LIST_POISON1 :: ptr where "LIST_POISON1 = 0x00100100"
definition LIST_POISON2 :: ptr where "LIST_POISON2 = 0x00200200"

record list_head =
  lh_next :: ptr
  lh_prev :: ptr

type_synonym lmem = "ptr \<rightharpoonup> list_head"

definition get_next :: "lmem \<Rightarrow> ptr \<Rightarrow> ptr res" where
  "get_next h p = (case h p of None \<Rightarrow> Inl Wild_deref | Some n \<Rightarrow> Inr (lh_next n))"

definition get_prev :: "lmem \<Rightarrow> ptr \<Rightarrow> ptr res" where
  "get_prev h p = (case h p of None \<Rightarrow> Inl Wild_deref | Some n \<Rightarrow> Inr (lh_prev n))"

definition set_next :: "lmem \<Rightarrow> ptr \<Rightarrow> ptr \<Rightarrow> lmem res" where
  "set_next h p v = (case h p of None \<Rightarrow> Inl Wild_deref | Some n \<Rightarrow> Inr (h(p \<mapsto> n\<lparr>lh_next := v\<rparr>)))"

definition set_prev :: "lmem \<Rightarrow> ptr \<Rightarrow> ptr \<Rightarrow> lmem res" where
  "set_prev h p v = (case h p of None \<Rightarrow> Inl Wild_deref | Some n \<Rightarrow> Inr (h(p \<mapsto> n\<lparr>lh_prev := v\<rparr>)))"

section \<open>The operations\<close>

definition INIT_LIST_HEAD :: "lmem \<Rightarrow> ptr \<Rightarrow> lmem res" where
  "INIT_LIST_HEAD h list = rbind (set_next h list list) (\<lambda>h. set_prev h list list)"

text \<open>\<open>__list_add\<close> and \<open>__list_del\<close>.\<close>

definition raw_list_add :: "lmem \<Rightarrow> ptr \<Rightarrow> ptr \<Rightarrow> ptr \<Rightarrow> lmem res" where
  "raw_list_add h new prev next =
     rbind (set_prev h next new) (\<lambda>h.
     rbind (set_next h new next) (\<lambda>h.
     rbind (set_prev h new prev) (\<lambda>h.
     set_next h prev new)))"

definition list_add :: "lmem \<Rightarrow> ptr \<Rightarrow> ptr \<Rightarrow> lmem res" where
  "list_add h new head = rbind (get_next h head) (\<lambda>next. raw_list_add h new head next)"

definition list_add_tail :: "lmem \<Rightarrow> ptr \<Rightarrow> ptr \<Rightarrow> lmem res" where
  "list_add_tail h new head = rbind (get_prev h head) (\<lambda>prev. raw_list_add h new prev head)"

definition raw_list_del :: "lmem \<Rightarrow> ptr \<Rightarrow> ptr \<Rightarrow> lmem res" where
  "raw_list_del h prev next = rbind (set_prev h next prev) (\<lambda>h. set_next h prev next)"

definition raw_list_del_entry :: "lmem \<Rightarrow> ptr \<Rightarrow> lmem res" where
  "raw_list_del_entry h entry =
     rbind (get_prev h entry) (\<lambda>prev. rbind (get_next h entry) (\<lambda>next. raw_list_del h prev next))"

definition list_del :: "lmem \<Rightarrow> ptr \<Rightarrow> lmem res" where
  "list_del h entry =
     rbind (raw_list_del_entry h entry) (\<lambda>h.
     rbind (set_next h entry LIST_POISON1) (\<lambda>h.
     set_prev h entry LIST_POISON2))"

definition list_del_init :: "lmem \<Rightarrow> ptr \<Rightarrow> lmem res" where
  "list_del_init h entry = rbind (raw_list_del_entry h entry) (\<lambda>h. INIT_LIST_HEAD h entry)"

definition list_replace :: "lmem \<Rightarrow> ptr \<Rightarrow> ptr \<Rightarrow> lmem res" where
  "list_replace h old new =
     rbind (get_next h old) (\<lambda>n.
     rbind (set_next h new n) (\<lambda>h.
     rbind (set_prev h n new) (\<lambda>h.
     rbind (get_prev h old) (\<lambda>p.
     rbind (set_prev h new p) (\<lambda>h.
     set_next h p new)))))"

definition list_move :: "lmem \<Rightarrow> ptr \<Rightarrow> ptr \<Rightarrow> lmem res" where
  "list_move h list head = rbind (raw_list_del_entry h list) (\<lambda>h. list_add h list head)"

definition list_move_tail :: "lmem \<Rightarrow> ptr \<Rightarrow> ptr \<Rightarrow> lmem res" where
  "list_move_tail h list head = rbind (raw_list_del_entry h list) (\<lambda>h. list_add_tail h list head)"

definition list_is_last :: "lmem \<Rightarrow> ptr \<Rightarrow> ptr \<Rightarrow> bool res" where
  "list_is_last h list head = rbind (get_next h list) (\<lambda>n. Inr (n = head))"

definition list_empty :: "lmem \<Rightarrow> ptr \<Rightarrow> bool res" where
  "list_empty h head = rbind (get_next h head) (\<lambda>n. Inr (n = head))"

definition list_empty_careful :: "lmem \<Rightarrow> ptr \<Rightarrow> bool res" where
  "list_empty_careful h head =
     rbind (get_next h head) (\<lambda>next.
     if next = head then rbind (get_prev h head) (\<lambda>prev. Inr (next = prev)) else Inr False)"

definition list_is_singular :: "lmem \<Rightarrow> ptr \<Rightarrow> bool res" where
  "list_is_singular h head =
     rbind (list_empty h head) (\<lambda>e.
     if e then Inr False
     else rbind (get_next h head) (\<lambda>n. rbind (get_prev h head) (\<lambda>p. Inr (n = p))))"

definition list_rotate_left :: "lmem \<Rightarrow> ptr \<Rightarrow> lmem res" where
  "list_rotate_left h head =
     rbind (list_empty h head) (\<lambda>e.
     if e then Inr h else rbind (get_next h head) (\<lambda>first. list_move_tail h first head))"

text \<open>
  The loops. \<open>list_for_each\<close> collects the nodes the cursor visits; \<open>list_search\<close> is a \<open>list_for_each_entry\<close> whose body leaves the
  loop at the first node that passes a test, and its value is where the cursor stands afterwards: on the head if none did.
  \<open>list_for_each_safe\<close> deletes the nodes that pass a test while it runs. The first argument bounds the number of rounds.
\<close>

fun for_each_from :: "nat \<Rightarrow> lmem \<Rightarrow> ptr \<Rightarrow> ptr \<Rightarrow> ptr list res" where
  "for_each_from 0 h head pos = Inl Out_of_fuel"
| "for_each_from (Suc n) h head pos =
     (if pos = head then Inr []
      else rbind (get_next h pos) (\<lambda>q. rbind (for_each_from n h head q) (\<lambda>ps. Inr (pos # ps))))"

definition list_for_each :: "nat \<Rightarrow> lmem \<Rightarrow> ptr \<Rightarrow> ptr list res" where
  "list_for_each n h head = rbind (get_next h head) (for_each_from n h head)"

fun for_each_prev_from :: "nat \<Rightarrow> lmem \<Rightarrow> ptr \<Rightarrow> ptr \<Rightarrow> ptr list res" where
  "for_each_prev_from 0 h head pos = Inl Out_of_fuel"
| "for_each_prev_from (Suc n) h head pos =
     (if pos = head then Inr []
      else rbind (get_prev h pos) (\<lambda>q. rbind (for_each_prev_from n h head q) (\<lambda>ps. Inr (pos # ps))))"

definition list_for_each_prev :: "nat \<Rightarrow> lmem \<Rightarrow> ptr \<Rightarrow> ptr list res" where
  "list_for_each_prev n h head = rbind (get_prev h head) (for_each_prev_from n h head)"

fun search_from :: "nat \<Rightarrow> lmem \<Rightarrow> ptr \<Rightarrow> (ptr \<Rightarrow> bool) \<Rightarrow> ptr \<Rightarrow> ptr res" where
  "search_from 0 h head test pos = Inl Out_of_fuel"
| "search_from (Suc n) h head test pos =
     (if pos = head then Inr pos
      else if test pos then Inr pos
      else rbind (get_next h pos) (search_from n h head test))"

definition list_search :: "nat \<Rightarrow> lmem \<Rightarrow> ptr \<Rightarrow> (ptr \<Rightarrow> bool) \<Rightarrow> ptr res" where
  "list_search n h head test = rbind (get_next h head) (search_from n h head test)"

fun for_each_safe_from :: "nat \<Rightarrow> lmem \<Rightarrow> ptr \<Rightarrow> (ptr \<Rightarrow> bool) \<Rightarrow> ptr \<Rightarrow> ptr \<Rightarrow> lmem res" where
  "for_each_safe_from 0 h head test pos n = Inl Out_of_fuel"
| "for_each_safe_from (Suc k) h head test pos n =
     (if pos = head then Inr h
      else rbind (if test pos then list_del h pos else Inr h) (\<lambda>h.
           rbind (get_next h n) (\<lambda>n'. for_each_safe_from k h head test n n')))"

definition list_for_each_safe :: "nat \<Rightarrow> lmem \<Rightarrow> ptr \<Rightarrow> (ptr \<Rightarrow> bool) \<Rightarrow> lmem res" where
  "list_for_each_safe k h head test =
     rbind (get_next h head) (\<lambda>pos. rbind (get_next h pos) (\<lambda>n. for_each_safe_from k h head test pos n))"

section \<open>Links\<close>

text \<open>The two pointer fields as maps, and what the accesses do to them.\<close>

definition nx :: "lmem \<Rightarrow> ptr \<rightharpoonup> ptr" where "nx h p = map_option lh_next (h p)"
definition pv :: "lmem \<Rightarrow> ptr \<rightharpoonup> ptr" where "pv h p = map_option lh_prev (h p)"

definition wr_next :: "lmem \<Rightarrow> ptr \<Rightarrow> ptr \<Rightarrow> lmem" where "wr_next h p v = h(p \<mapsto> (the (h p))\<lparr>lh_next := v\<rparr>)"
definition wr_prev :: "lmem \<Rightarrow> ptr \<Rightarrow> ptr \<Rightarrow> lmem" where "wr_prev h p v = h(p \<mapsto> (the (h p))\<lparr>lh_prev := v\<rparr>)"

named_theorems link_simps

lemma get_next_ok [link_simps]: "nx h p = Some q \<Longrightarrow> get_next h p = Inr q"
  by (auto simp: get_next_def nx_def split: option.splits)

lemma get_prev_ok [link_simps]: "pv h p = Some q \<Longrightarrow> get_prev h p = Inr q"
  by (auto simp: get_prev_def pv_def split: option.splits)

lemma set_next_ok [link_simps]: "p \<in> dom h \<Longrightarrow> set_next h p v = Inr (wr_next h p v)"
  by (auto simp: set_next_def wr_next_def)

lemma set_prev_ok [link_simps]: "p \<in> dom h \<Longrightarrow> set_prev h p v = Inr (wr_prev h p v)"
  by (auto simp: set_prev_def wr_prev_def)

lemma dom_wr [link_simps]:
  "dom (wr_next h p v) = insert p (dom h)" "dom (wr_prev h p v) = insert p (dom h)"
  by (auto simp: wr_next_def wr_prev_def)

lemma nx_wr [link_simps]: "nx (wr_next h p v) = (nx h)(p \<mapsto> v)"
  by (auto simp: wr_next_def nx_def)

lemma pv_wr [link_simps]: "pv (wr_prev h p v) = (pv h)(p \<mapsto> v)"
  by (auto simp: wr_prev_def pv_def)

lemma nx_wr_prev [link_simps]: "p \<in> dom h \<Longrightarrow> nx (wr_prev h p v) = nx h"
  by (auto simp: wr_prev_def nx_def)

lemma pv_wr_next [link_simps]: "p \<in> dom h \<Longrightarrow> pv (wr_next h p v) = pv h"
  by (auto simp: wr_next_def pv_def)

lemma dom_nx: "dom (nx h) = dom h" and dom_pv: "dom (pv h) = dom h"
  by (auto simp: nx_def pv_def)

lemma nx_dom: "nx h p = Some q \<Longrightarrow> p \<in> dom h" and pv_dom: "pv h p = Some q \<Longrightarrow> p \<in> dom h"
  by (auto simp: nx_def pv_def)

text \<open>\<open>chain N P p xs q\<close>: from \<open>p\<close> the pointers lead through \<open>xs\<close> to \<open>q\<close>, and back.\<close>

fun chain :: "(ptr \<rightharpoonup> ptr) \<Rightarrow> (ptr \<rightharpoonup> ptr) \<Rightarrow> ptr \<Rightarrow> ptr list \<Rightarrow> ptr \<Rightarrow> bool" where
  "chain N P p [] q \<longleftrightarrow> N p = Some q \<and> P q = Some p"
| "chain N P p (x # xs) q \<longleftrightarrow> N p = Some x \<and> P x = Some p \<and> chain N P x xs q"

lemma chain_append: "chain N P p (as @ x # bs) q \<longleftrightarrow> chain N P p as x \<and> chain N P x bs q"
  by (induction as arbitrary: p) auto

lemma chain_upd_next: "a \<notin> set (p # xs) \<Longrightarrow> chain (N(a := v)) P p xs q = chain N P p xs q"
  by (induction xs arbitrary: p) auto

lemma chain_upd_prev: "a \<notin> set xs \<Longrightarrow> a \<noteq> q \<Longrightarrow> chain N (P(a := v)) p xs q = chain N P p xs q"
  by (induction xs arbitrary: p) auto

lemma chain_next: "chain N P p xs q \<Longrightarrow> N p = Some (hd (xs @ [q]))"
  by (cases xs) auto

lemma chain_prev: "chain N P p xs q \<Longrightarrow> P q = Some (last (p # xs))"
  by (induction xs arbitrary: p) auto

lemma chain_cong:
  assumes "\<And>a. a \<in> set (p # xs) \<Longrightarrow> N' a = N a" "\<And>a. a \<in> set xs \<or> a = q \<Longrightarrow> P' a = P a"
  shows "chain N' P' p xs q = chain N P p xs q"
  using assms by (induction xs arbitrary: p) auto

text \<open>Taking a node out of a chain, and putting one in.\<close>

lemma chain_join:
  assumes "chain N P p as x" "chain N P x bs q" "distinct (as @ x # bs)" "p \<notin> set as" "p \<notin> set bs" "p \<noteq> x"
    "q \<notin> set as" "q \<notin> set bs" "q \<noteq> x"
  shows "chain (N(last (p # as) \<mapsto> hd (bs @ [q]))) (P(hd (bs @ [q]) \<mapsto> last (p # as))) p (as @ bs) q"
  using assms
proof (induction as arbitrary: p)
  case Nil
  then show ?case
  proof (cases bs)
    case (Cons b bs')
    then have "chain (N(p \<mapsto> b)) (P(b \<mapsto> p)) b bs' q = chain N P b bs' q" using Nil.prems by (intro chain_cong) auto
    then have "chain (N(p \<mapsto> b)) (P(b \<mapsto> p)) p (b # bs') q" using Cons Nil.prems by simp
    then show ?thesis by (simp add: Cons fun_upd_def)
  qed simp
next
  case (Cons a as)
  let ?l = "last (a # as)" and ?f = "hd (bs @ [q])"
  have "chain (N(?l \<mapsto> ?f)) (P(?f \<mapsto> ?l)) a (as @ bs) q" using Cons.prems by (intro Cons.IH) auto
  moreover have "?l \<in> set (a # as)" "?f \<in> set bs \<or> ?f = q" by (rule last_in_set, simp) (cases bs, auto)
  ultimately show ?case using Cons.prems by (auto simp: fun_upd_def)
qed

lemma chain_insert:
  assumes "chain N P p (as @ bs) q" "distinct (as @ bs)" "x \<notin> set (as @ bs)" "p \<noteq> x" "q \<noteq> x"
    "p \<notin> set (as @ bs)" "q \<notin> set (as @ bs)"
  shows "chain (N(x \<mapsto> hd (bs @ [q]), last (p # as) \<mapsto> x)) (P(hd (bs @ [q]) \<mapsto> x, x \<mapsto> last (p # as))) p (as @ x # bs) q"
  using assms
proof (induction as arbitrary: p)
  case Nil
  then show ?case
  proof (cases bs)
    case (Cons b bs')
    then have "chain (N(x \<mapsto> b, p \<mapsto> x)) (P(b \<mapsto> x, x \<mapsto> p)) b bs' q = chain N P b bs' q" using Nil.prems by (intro chain_cong) auto
    then have "chain (N(x \<mapsto> b, p \<mapsto> x)) (P(b \<mapsto> x, x \<mapsto> p)) p (x # b # bs') q" using Cons Nil.prems by (auto simp: fun_upd_def)
    then show ?thesis by (simp add: Cons fun_upd_def)
  qed simp
next
  case (Cons a as)
  let ?l = "last (a # as)" and ?f = "hd (bs @ [q])"
  have "chain (N(x \<mapsto> ?f, ?l \<mapsto> x)) (P(?f \<mapsto> x, x \<mapsto> ?l)) a (as @ x # bs) q" using Cons.prems by (intro Cons.IH) auto
  moreover have "?l \<in> set (a # as)" "?f \<in> set bs \<or> ?f = q" by (rule last_in_set, simp) (cases bs, auto)
  ultimately show ?case using Cons.prems by (auto simp: fun_upd_def)
qed

section \<open>Memory that represents lists\<close>

text \<open>
  The abstract state: the addresses that are allocated, and for every list head the nodes of its list. \<open>well_placed\<close>: a node is in at most
  one place of one list, everything that is linked is allocated, and the poison addresses never are.
\<close>

record lists_state =
  mapped :: "ptr set"
  lists :: "ptr \<rightharpoonup> ptr list"

definition well_placed :: "lists_state \<Rightarrow> bool" where
  "well_placed a \<longleftrightarrow>
     (\<forall>head xs. lists a head = Some xs \<longrightarrow> distinct (head # xs) \<and> set (head # xs) \<subseteq> mapped a) \<and>
     (\<forall>head xs head' ys. lists a head = Some xs \<longrightarrow> lists a head' = Some ys \<longrightarrow> head \<noteq> head' \<longrightarrow>
        set (head # xs) \<inter> set (head' # ys) = {}) \<and>
     LIST_POISON1 \<notin> mapped a \<and> LIST_POISON2 \<notin> mapped a"

definition represents :: "lmem \<Rightarrow> lists_state \<Rightarrow> bool" where
  "represents h a \<longleftrightarrow> dom h = mapped a \<and> well_placed a \<and>
     (\<forall>head xs. lists a head = Some xs \<longrightarrow> chain (nx h) (pv h) head xs head)"

definition in_list :: "lists_state \<Rightarrow> ptr \<Rightarrow> bool" where
  "in_list a x \<longleftrightarrow> (\<exists>head xs. lists a head = Some xs \<and> x \<in> set xs)"

definition loose :: "lists_state \<Rightarrow> ptr \<Rightarrow> bool" where
  "loose a x \<longleftrightarrow> x \<in> mapped a \<and> lists a x = None \<and> \<not> in_list a x"

definition without :: "ptr \<Rightarrow> lists_state \<Rightarrow> lists_state" where
  "without x a = a\<lparr>lists := (\<lambda>head. map_option (removeAll x) (lists a head))\<rparr>"

definition change :: "ptr \<Rightarrow> (ptr list \<Rightarrow> ptr list) \<Rightarrow> lists_state \<Rightarrow> lists_state" where
  "change head f a = a\<lparr>lists := (lists a)(head := map_option f (lists a head))\<rparr>"

lemma well_placedD:
  assumes "well_placed a" "lists a head = Some xs"
  shows "distinct (head # xs)" "set (head # xs) \<subseteq> mapped a"
    "\<And>head' ys. lists a head' = Some ys \<Longrightarrow> head' \<noteq> head \<Longrightarrow> set (head' # ys) \<inter> set (head # xs) = {}"
  using assms unfolding well_placed_def by blast+

lemma looseD:
  assumes "loose a x" "lists a head = Some xs"
  shows "x \<notin> set (head # xs)"
  using assms by (auto simp: loose_def in_list_def)

lemma representsD:
  assumes "represents h a" "lists a head = Some xs"
  shows "chain (nx h) (pv h) head xs head" "distinct (head # xs)" "set (head # xs) \<subseteq> dom h"
  using assms well_placedD[of a head xs] by (auto simp: represents_def)

text \<open>Only the list at \<open>head\<close> changes, and the memory only at nodes of no other list.\<close>

lemma represents_change:
  assumes r: "represents h a"
    and w: "well_placed (a\<lparr>lists := (lists a)(head \<mapsto> ys)\<rparr>)"
    and d: "dom h' = dom h"
    and c: "chain (nx h') (pv h') head ys head"
    and f: "\<And>p. p \<notin> T \<Longrightarrow> nx h' p = nx h p \<and> pv h' p = pv h p"
    and o: "\<And>head' zs. lists a head' = Some zs \<Longrightarrow> head' \<noteq> head \<Longrightarrow> set (head' # zs) \<inter> T = {}"
  shows "represents h' (a\<lparr>lists := (lists a)(head \<mapsto> ys)\<rparr>)"
proof -
  have "chain (nx h') (pv h') head' zs head'" if l: "lists a head' = Some zs" "head' \<noteq> head" for head' zs
    using representsD(1)[OF r l(1)] o[OF l] f by (subst chain_cong[where N = "nx h" and P = "pv h"]) auto
  then show ?thesis using r w d c by (auto simp: represents_def)
qed

lemma last_hd_in: "last (p # as) \<in> set (p # as)" "hd (bs @ [q]) \<in> set bs \<or> hd (bs @ [q]) = q"
  by (rule last_in_set, simp) (cases bs, auto)

lemma represents_insert:
  assumes r: "represents h a" and l: "lists a head = Some (as @ bs)" and x: "loose a x"
  shows "\<exists>h'. raw_list_add h x (last (head # as)) (hd (bs @ [head])) = Inr h' \<and>
    represents h' (a\<lparr>lists := (lists a)(head \<mapsto> as @ x # bs)\<rparr>)"
proof -
  let ?l = "last (head # as)" and ?f = "hd (bs @ [head])"
  let ?h = "wr_next (wr_prev (wr_next (wr_prev h ?f x) x ?f) x ?l) ?l x"
  note rd = representsD[OF r l]
  have xd: "x \<in> dom h" using x r by (simp add: loose_def represents_def)
  have xn: "x \<notin> set (head # as @ bs)" by (rule looseD[OF x l])
  have m: "?l \<in> set (head # as @ bs)" "?f \<in> set (head # as @ bs)"
    using last_hd_in(1)[of head as] last_hd_in(2)[of bs head] by auto
  then have md: "?l \<in> dom h" "?f \<in> dom h" using rd(3) by blast+
  have run: "raw_list_add h x ?l ?f = Inr ?h"
    unfolding raw_list_add_def using md xd by (simp only: rbind_Inr set_prev_ok set_next_ok dom_wr insertI1 insertI2)
  have dom: "dom ?h = dom h" using md xd by (simp only: dom_wr) auto
  have nxh: "nx ?h = (nx h)(x \<mapsto> ?f, ?l \<mapsto> x)" and pvh: "pv ?h = (pv h)(?f \<mapsto> x, x \<mapsto> ?l)"
    using md xd by (simp_all only: nx_wr pv_wr nx_wr_prev pv_wr_next dom_wr insertI1 insertI2)
  have "chain (nx ?h) (pv ?h) head (as @ x # bs) head"
    unfolding nxh pvh using rd xn by (intro chain_insert) auto
  moreover have "well_placed (a\<lparr>lists := (lists a)(head \<mapsto> as @ x # bs)\<rparr>)"
  proof -
    have w: "well_placed a" using r by (simp add: represents_def)
    have "x \<in> mapped a" using x by (simp add: loose_def)
    moreover have "x \<notin> set (head' # zs)" if "lists a head' = Some zs" for head' zs by (rule looseD[OF x that])
    ultimately show ?thesis using well_placedD[OF w l] w xn unfolding well_placed_def by (auto split: if_splits) blast+
  qed
  moreover have "nx ?h p = nx h p \<and> pv ?h p = pv h p" if "p \<notin> insert x (set (head # as @ bs))" for p
    using that m unfolding nxh pvh by auto
  moreover have "set (head' # zs) \<inter> insert x (set (head # as @ bs)) = {}" if "lists a head' = Some zs" "head' \<noteq> head" for head' zs
    using looseD[OF x that(1)] well_placedD(3)[OF _ l that] r by (auto simp: represents_def)
  ultimately show ?thesis using represents_change[OF r _ dom, where T = "insert x (set (head # as @ bs))"] run by blast
qed

lemma without_eq:
  assumes w: "well_placed a" and l: "lists a head = Some (as @ x # bs)"
  shows "without x a = a\<lparr>lists := (lists a)(head \<mapsto> as @ bs)\<rparr>"
proof -
  have "map_option (removeAll x) (lists a head') = lists a head'" if "head' \<noteq> head" for head'
  proof (cases "lists a head'")
    case (Some zs)
    then have "x \<notin> set zs" using well_placedD(3)[OF w l Some that] by auto
    then show ?thesis by (simp add: Some)
  qed simp
  moreover have "removeAll x (as @ x # bs) = as @ bs" using well_placedD(1)[OF w l] by simp
  ultimately have "(\<lambda>head'. map_option (removeAll x) (lists a head')) = (lists a)(head \<mapsto> as @ bs)"
    using l by (auto simp: fun_eq_iff)
  then show ?thesis by (simp add: without_def)
qed

lemma represents_remove:
  assumes r: "represents h a" and x: "in_list a x"
  shows "\<exists>h'. raw_list_del_entry h x = Inr h' \<and> represents h' (without x a) \<and> loose (without x a) x \<and> x \<in> dom h'"
proof -
  obtain head as bs where l: "lists a head = Some (as @ x # bs)" using x by (auto simp: in_list_def dest: split_list)
  let ?l = "last (head # as)" and ?f = "hd (bs @ [head])"
  let ?h = "wr_next (wr_prev h ?f ?l) ?l ?f"
  have w: "well_placed a" using r by (simp add: represents_def)
  note rd = representsD[OF r l]
  have ch: "chain (nx h) (pv h) head as x" "chain (nx h) (pv h) x bs head" using rd(1) by (simp_all add: chain_append)
  have m: "?l \<in> set (head # as @ bs)" "?f \<in> set (head # as @ bs)"
    using last_hd_in(1)[of head as] last_hd_in(2)[of bs head] by auto
  then have md: "?l \<in> dom h" "?f \<in> dom h" using rd(3) by auto
  have run: "raw_list_del_entry h x = Inr ?h"
    unfolding raw_list_del_entry_def raw_list_del_def get_prev_ok[OF chain_prev[OF ch(1)]] get_next_ok[OF chain_next[OF ch(2)]]
    using md by (simp only: rbind_Inr set_prev_ok set_next_ok dom_wr insertI1 insertI2)
  have dom: "dom ?h = dom h" using md by (simp only: dom_wr) auto
  have nxh: "nx ?h = (nx h)(?l \<mapsto> ?f)" and pvh: "pv ?h = (pv h)(?f \<mapsto> ?l)"
    using md by (simp_all only: nx_wr pv_wr nx_wr_prev pv_wr_next dom_wr insertI1 insertI2)
  have "chain (nx ?h) (pv ?h) head (as @ bs) head"
    unfolding nxh pvh using rd ch by (intro chain_join[where x = x]) auto
  moreover have "well_placed (a\<lparr>lists := (lists a)(head \<mapsto> as @ bs)\<rparr>)"
    using w well_placedD[OF w l] unfolding well_placed_def by (auto split: if_splits)
  moreover have "nx ?h p = nx h p \<and> pv ?h p = pv h p" if "p \<notin> set (head # as @ bs)" for p
    using that m unfolding nxh pvh by auto
  moreover have "set (head' # zs) \<inter> set (head # as @ bs) = {}" if "lists a head' = Some zs" "head' \<noteq> head" for head' zs
    using well_placedD(3)[OF w l that] by auto
  ultimately have "represents ?h (without x a)"
    unfolding without_eq[OF w l] using represents_change[OF r _ dom, where T = "set (head # as @ bs)"] by blast
  moreover have "loose (without x a) x"
  proof -
    have "lists a x = None"
    proof (cases "lists a x")
      case (Some zs)
      then show ?thesis using well_placedD(3)[OF w l Some] well_placedD(1)[OF w l] by auto
    qed
    then show ?thesis using well_placedD(2)[OF w l] by (auto simp: loose_def in_list_def without_def)
  qed
  moreover have "x \<in> dom ?h" using dom rd(3) by simp
  ultimately show ?thesis using run by blast
qed


text \<open>Overwriting the pointers of a loose node leaves every list as it is.\<close>

lemma represents_loose:
  assumes r: "represents h a" and x: "loose a x"
    and f: "\<And>p. p \<noteq> x \<Longrightarrow> nx h' p = nx h p \<and> pv h' p = pv h p" and d: "dom h' = dom h"
  shows "represents h' a"
proof -
  have "chain (nx h') (pv h') head xs head" if l: "lists a head = Some xs" for head xs
  proof -
    have "nx h' p = nx h p \<and> pv h' p = pv h p" if "p \<in> set (head # xs)" for p
      using looseD[OF x l] that by (intro f) blast
    then show ?thesis using representsD(1)[OF r l] by (subst chain_cong[where N = "nx h" and P = "pv h"]) auto
  qed
  then show ?thesis using r d by (auto simp: represents_def)
qed

lemma represents_write:
  assumes r: "represents h a" and x: "loose a x"
  shows "\<exists>h'. rbind (set_next h x u) (\<lambda>h. set_prev h x v) = Inr h' \<and> represents h' a"
proof -
  let ?h = "wr_prev (wr_next h x u) x v"
  have d: "x \<in> dom h" using r x by (simp add: represents_def loose_def)
  have dom: "dom ?h = dom h" using d by (simp only: dom_wr) auto
  have nxh: "nx ?h = (nx h)(x \<mapsto> u)" and pvh: "pv ?h = (pv h)(x \<mapsto> v)"
    using d by (simp_all only: nx_wr pv_wr nx_wr_prev pv_wr_next dom_wr insertI1 insertI2)
  have "rbind (set_next h x u) (\<lambda>h. set_prev h x v) = Inr ?h"
    using d by (simp only: rbind_Inr set_prev_ok set_next_ok dom_wr insertI1 insertI2)
  moreover have "represents ?h a" by (rule represents_loose[OF r x _ dom]) (simp add: nxh pvh)
  ultimately show ?thesis by blast
qed

section \<open>Every operation keeps the representation\<close>

lemma add_represents:
  assumes r: "represents h a" and x: "loose a x" and l: "lists a head = Some xs"
  shows "\<exists>h'. list_add h x head = Inr h' \<and> represents h' (change head (Cons x) a)"
    "\<exists>h'. list_add_tail h x head = Inr h' \<and> represents h' (change head (\<lambda>xs. xs @ [x]) a)"
proof -
  note c = representsD(1)[OF r l]
  show "\<exists>h'. list_add h x head = Inr h' \<and> represents h' (change head (Cons x) a)"
    using represents_insert[OF r, of head "[]" xs x] l x
    by (simp add: list_add_def get_next_ok[OF chain_next[OF c]] change_def)
  show "\<exists>h'. list_add_tail h x head = Inr h' \<and> represents h' (change head (\<lambda>xs. xs @ [x]) a)"
    using represents_insert[OF r, of head xs "[]" x] l x
    by (simp add: list_add_tail_def get_prev_ok[OF chain_prev[OF c]] change_def)
qed

lemma del_represents:
  assumes r: "represents h a" and x: "in_list a x"
  shows "\<exists>h'. list_del h x = Inr h' \<and> represents h' (without x a)"
    "\<exists>h'. list_del_init h x = Inr h' \<and> represents h' (without x a)"
proof -
  obtain h1 where h1: "raw_list_del_entry h x = Inr h1" "represents h1 (without x a)" "loose (without x a) x"
    using represents_remove[OF r x] by blast
  show "\<exists>h'. list_del h x = Inr h' \<and> represents h' (without x a)"
    using represents_write[OF h1(2,3)] by (simp add: list_del_def h1(1))
  show "\<exists>h'. list_del_init h x = Inr h' \<and> represents h' (without x a)"
    using represents_write[OF h1(2,3)] by (simp add: list_del_init_def INIT_LIST_HEAD_def h1(1))
qed

lemma lists_without: "lists a head = Some xs \<Longrightarrow> lists (without x a) head = Some (removeAll x xs)"
  by (simp add: without_def)

lemma move_represents:
  assumes r: "represents h a" and x: "in_list a x" and l: "lists a head = Some xs"
  shows "\<exists>h'. list_move h x head = Inr h' \<and> represents h' (change head (Cons x) (without x a))"
    "\<exists>h'. list_move_tail h x head = Inr h' \<and> represents h' (change head (\<lambda>xs. xs @ [x]) (without x a))"
proof -
  obtain h1 where h1: "raw_list_del_entry h x = Inr h1" "represents h1 (without x a)" "loose (without x a) x"
    using represents_remove[OF r x] by blast
  note a = add_represents[OF h1(2,3) lists_without[OF l]]
  show "\<exists>h'. list_move h x head = Inr h' \<and> represents h' (change head (Cons x) (without x a))"
    using a(1) by (simp add: list_move_def h1(1))
  show "\<exists>h'. list_move_tail h x head = Inr h' \<and> represents h' (change head (\<lambda>xs. xs @ [x]) (without x a))"
    using a(2) by (simp add: list_move_tail_def h1(1))
qed

lemma well_placed_new_head:
  "well_placed a \<Longrightarrow> loose a x \<Longrightarrow> well_placed (a\<lparr>lists := (lists a)(x \<mapsto> [])\<rparr>)"
  unfolding well_placed_def loose_def in_list_def by (auto split: if_splits)

lemma init_represents:
  assumes r: "represents h a" and x: "loose a x \<or> lists a x = Some []"
  shows "\<exists>h'. INIT_LIST_HEAD h x = Inr h' \<and> represents h' (a\<lparr>lists := (lists a)(x \<mapsto> [])\<rparr>)"
proof -
  let ?h = "wr_prev (wr_next h x x) x x"
  have w: "well_placed a" using r by (simp add: represents_def)
  have xd: "x \<in> dom h" using x representsD(3)[OF r] r by (auto simp: loose_def represents_def)
  have dom: "dom ?h = dom h" using xd by (simp only: dom_wr) auto
  have nxh: "nx ?h = (nx h)(x \<mapsto> x)" and pvh: "pv ?h = (pv h)(x \<mapsto> x)"
    using xd by (simp_all only: nx_wr pv_wr nx_wr_prev pv_wr_next dom_wr insertI1 insertI2)
  have "INIT_LIST_HEAD h x = Inr ?h"
    unfolding INIT_LIST_HEAD_def using xd by (simp only: rbind_Inr set_prev_ok set_next_ok dom_wr insertI1 insertI2)
  moreover have "represents ?h (a\<lparr>lists := (lists a)(x \<mapsto> [])\<rparr>)"
  proof (rule represents_change[OF r _ dom, where T = "{x}"])
    show "well_placed (a\<lparr>lists := (lists a)(x \<mapsto> [])\<rparr>)"
      using x well_placed_new_head[OF w] w by (auto simp: fun_upd_idem)
    show "set (head' # zs) \<inter> {x} = {}" if "lists a head' = Some zs" "head' \<noteq> x" for head' zs
      using x that looseD[of a x head' zs] well_placedD(3)[OF w _ that, of "[]"] by auto
  qed (auto simp: nxh pvh)
  ultimately show ?thesis by blast
qed

text \<open>Replacing a node is taking it out and putting the other one in its place.\<close>

lemma replace_represents:
  assumes r: "represents h a" and l: "lists a head = Some (as @ x # bs)" and n: "loose a y"
  shows "\<exists>h'. list_replace h x y = Inr h' \<and> represents h' (a\<lparr>lists := (lists a)(head \<mapsto> as @ y # bs)\<rparr>)"
proof -
  let ?l = "last (head # as)" and ?f = "hd (bs @ [head])"
  let ?h = "wr_next (wr_prev (wr_prev (wr_next h y ?f) ?f y) y ?l) ?l y"
  have w: "well_placed a" using r by (simp add: represents_def)
  note rd = representsD[OF r l]
  have ch: "chain (nx h) (pv h) head as x" "chain (nx h) (pv h) x bs head" using rd(1) by (simp_all add: chain_append)
  have yn: "y \<notin> set (head # as @ x # bs)" by (rule looseD[OF n l])
  have yd: "y \<in> dom h" using n r by (simp add: loose_def represents_def)
  have m: "?l \<in> set (head # as @ bs)" "?f \<in> set (head # as @ bs)"
    using last_hd_in(1)[of head as] last_hd_in(2)[of bs head] by auto
  then have md: "?l \<in> dom h" "?f \<in> dom h" using rd(3) by auto
  have fx: "?f \<noteq> x" using m rd(2) by auto
  have pvx: "pv (wr_prev (wr_next h y ?f) ?f y) x = Some ?l"
    using chain_prev[OF ch(1)] fx yd md by (simp add: pv_wr pv_wr_next)
  have run: "list_replace h x y = Inr ?h"
    unfolding list_replace_def get_next_ok[OF chain_next[OF ch(2)]] rbind_Inr
    using md yd by (simp only: rbind_Inr set_prev_ok set_next_ok dom_wr insertI1 insertI2 get_prev_ok[OF pvx])
  have dom: "dom ?h = dom h" using md yd by (simp only: dom_wr) auto
  have nxh: "nx ?h = (nx h)(?l \<mapsto> ?f, y \<mapsto> ?f, ?l \<mapsto> y)"
    using md yd yn m by (simp only: nx_wr nx_wr_prev dom_wr insertI1 insertI2) (auto simp: fun_eq_iff)
  have pvh: "pv ?h = (pv h)(?f \<mapsto> ?l, ?f \<mapsto> y, y \<mapsto> ?l)"
    using md yd by (simp only: pv_wr pv_wr_next dom_wr insertI1 insertI2) (auto simp: fun_eq_iff)
  have "chain (nx ?h) (pv ?h) head (as @ y # bs) head"
    unfolding nxh pvh using rd ch yn by (intro chain_insert chain_join[where x = x]) auto
  moreover have "well_placed (a\<lparr>lists := (lists a)(head \<mapsto> as @ y # bs)\<rparr>)"
  proof -
    have "y \<in> mapped a" using n by (simp add: loose_def)
    moreover have "y \<notin> set (head' # zs)" if "lists a head' = Some zs" for head' zs by (rule looseD[OF n that])
    ultimately show ?thesis using well_placedD[OF w l] w yn unfolding well_placed_def by (auto split: if_splits) blast+
  qed
  moreover have "nx ?h p = nx h p \<and> pv ?h p = pv h p" if "p \<notin> insert y (set (head # as @ bs))" for p
    using that m unfolding nxh pvh by auto
  moreover have "set (head' # zs) \<inter> insert y (set (head # as @ bs)) = {}" if "lists a head' = Some zs" "head' \<noteq> head" for head' zs
    using looseD[OF n that(1)] well_placedD(3)[OF w l that] by auto
  ultimately show ?thesis using represents_change[OF r _ dom, where T = "insert y (set (head # as @ bs))"] run by blast
qed


section \<open>Every loop visits the list\<close>

lemma chain_rev: "chain N P p xs q = chain P N q (rev xs) p"
proof (induction xs arbitrary: p)
  case (Cons x xs)
  have "chain P N q (rev xs @ x # []) p = (chain P N q (rev xs) x \<and> chain P N x [] p)" by (rule chain_append)
  then show ?case using Cons by auto
qed auto

lemma for_each_from_chain:
  "chain (nx h) (pv h) p xs q \<Longrightarrow> q \<notin> set xs \<Longrightarrow> length xs < n \<Longrightarrow> for_each_from n h q (hd (xs @ [q])) = Inr xs"
proof (induction xs arbitrary: p n)
  case (Cons x xs)
  then obtain m where "n = Suc m" by (cases n) auto
  moreover have c: "chain (nx h) (pv h) x xs q" using Cons.prems(1) by simp
  ultimately show ?case using Cons.IH[of x m] Cons.prems by (auto simp: get_next_ok[OF chain_next[OF c]])
qed (auto elim: less_natE)

lemma for_each_prev_from_chain:
  "chain (pv h) (nx h) p xs q \<Longrightarrow> q \<notin> set xs \<Longrightarrow> length xs < n \<Longrightarrow> for_each_prev_from n h q (hd (xs @ [q])) = Inr xs"
proof (induction xs arbitrary: p n)
  case (Cons x xs)
  then obtain m where "n = Suc m" by (cases n) auto
  moreover have c: "chain (pv h) (nx h) x xs q" using Cons.prems(1) by simp
  ultimately show ?case using Cons.IH[of x m] Cons.prems by (auto simp: get_prev_ok[OF chain_next[OF c]])
qed (auto elim: less_natE)

lemma search_from_chain:
  "chain (nx h) (pv h) p xs q \<Longrightarrow> q \<notin> set xs \<Longrightarrow> length xs < n \<Longrightarrow>
     search_from n h q test (hd (xs @ [q])) = Inr (case find test xs of None \<Rightarrow> q | Some x \<Rightarrow> x)"
proof (induction xs arbitrary: p n)
  case (Cons x xs)
  then obtain m where "n = Suc m" by (cases n) auto
  moreover have c: "chain (nx h) (pv h) x xs q" using Cons.prems(1) by simp
  ultimately show ?case using Cons.IH[of x m] Cons.prems by (auto simp: get_next_ok[OF chain_next[OF c]])
qed (auto elim: less_natE)

lemma loops_represent:
  assumes r: "represents h a" and l: "lists a head = Some xs" and n: "length xs < n"
  shows "list_for_each n h head = Inr xs" "list_for_each_prev n h head = Inr (rev xs)"
    "list_search n h head test = Inr (case find test xs of None \<Rightarrow> head | Some x \<Rightarrow> x)"
    "list_empty h head = Inr (xs = [])"
proof -
  note c = representsD[OF r l]
  have c': "chain (pv h) (nx h) head (rev xs) head" using c(1) chain_rev by simp
  show "list_for_each n h head = Inr xs"
    using for_each_from_chain[OF c(1) _ n] c(2) by (simp add: list_for_each_def get_next_ok[OF chain_next[OF c(1)]])
  show "list_for_each_prev n h head = Inr (rev xs)"
    using for_each_prev_from_chain[OF c', of n] n c(2) by (simp add: list_for_each_prev_def get_prev_ok[OF chain_next[OF c']])
  show "list_search n h head test = Inr (case find test xs of None \<Rightarrow> head | Some x \<Rightarrow> x)"
    using search_from_chain[OF c(1) _ n] c(2) by (simp add: list_search_def get_next_ok[OF chain_next[OF c(1)]])
  show "list_empty h head = Inr (xs = [])"
    using c(2) by (cases xs) (auto simp: list_empty_def get_next_ok[OF chain_next[OF c(1)]])
qed

lemma tests_represent:
  assumes r: "represents h a" and l: "lists a head = Some xs"
  shows "list_empty_careful h head = Inr (xs = [])" "list_is_singular h head = Inr (length xs = 1)"
    "x \<in> set xs \<Longrightarrow> list_is_last h x head = Inr (x = last xs)"
proof -
  note c = representsD[OF r l]
  note ends = get_next_ok[OF chain_next[OF c(1)]] get_prev_ok[OF chain_prev[OF c(1)]]
  have n: "hd (xs @ [head]) = head \<longleftrightarrow> xs = []" using c(2) by (cases xs) auto
  have s: "hd (xs @ [head]) = last (head # xs) \<longleftrightarrow> length xs \<le> 1"
  proof (cases xs)
    case (Cons y ys)
    then have "ys \<noteq> [] \<Longrightarrow> y \<noteq> last ys" using c(2) last_in_set[of ys] by auto
    then show ?thesis using Cons by auto
  qed simp
  show "list_empty_careful h head = Inr (xs = [])" using n s by (auto simp: list_empty_careful_def ends)
  show "list_is_singular h head = Inr (length xs = 1)"
    using n s by (cases xs) (auto simp: list_is_singular_def list_empty_def ends)
  show "list_is_last h x head = Inr (x = last xs)" if m: "x \<in> set xs"
  proof -
    obtain as bs where xs: "xs = as @ x # bs" using split_list[OF m] by blast
    then have "chain (nx h) (pv h) x bs head" using c(1) by (simp add: chain_append)
    from get_next_ok[OF chain_next[OF this]] have g: "get_next h x = Inr (hd (bs @ [head]))" .
    have "hd (bs @ [head]) = head \<longleftrightarrow> bs = []" using c(2) xs by (cases bs) auto
    moreover have "x = last xs \<longleftrightarrow> bs = []" using c(2) xs last_in_set[of bs] by (cases "bs = []") auto
    ultimately show ?thesis by (simp add: list_is_last_def g)
  qed
qed

lemma rotate_represents:
  assumes r: "represents h a" and l: "lists a head = Some xs"
  shows "\<exists>h'. list_rotate_left h head = Inr h' \<and> represents h' (change head rotate1 a)"
proof (cases xs)
  case Nil
  then have "change head rotate1 a = a" using l by (simp add: change_def fun_upd_idem)
  then show ?thesis using Nil r loops_represent(4)[OF r l, of 1] by (simp add: list_rotate_left_def)
next
  case (Cons x ys)
  have w: "well_placed a" using r by (simp add: represents_def)
  have "in_list a x" using l Cons unfolding in_list_def by (intro exI[of _ head] exI[of _ xs]) simp
  then obtain h' where h': "list_move_tail h x head = Inr h'" "represents h' (change head (\<lambda>xs. xs @ [x]) (without x a))"
    using move_represents(2)[OF r _ l] by blast
  have "change head (\<lambda>xs. xs @ [x]) (without x a) = change head rotate1 a"
    using without_eq[OF w, of head "[]" x ys] l Cons by (simp add: change_def)
  moreover have "list_empty h head = Inr False" using loops_represent(4)[OF r l, of "Suc (length xs)"] Cons by simp
  moreover have "get_next h head = Inr x" using get_next_ok[OF chain_next[OF representsD(1)[OF r l]]] Cons by simp
  ultimately show ?thesis using h' by (simp add: list_rotate_left_def)
qed

text \<open>The loop that deletes while it runs leaves the nodes that do not pass the test.\<close>

lemma for_each_safe_from_filter:
  assumes "represents h a" "lists a head = Some (as @ bs)" "length bs < k"
    "pos = hd (bs @ [head])" "bs \<noteq> [] \<Longrightarrow> n = hd (tl bs @ [head])"
  shows "\<exists>h'. for_each_safe_from k h head test pos n = Inr h' \<and>
    represents h' (a\<lparr>lists := (lists a)(head \<mapsto> as @ filter (\<lambda>x. \<not> test x) bs)\<rparr>)"
  using assms
proof (induction bs arbitrary: h a as k pos n)
  case Nil
  have "a\<lparr>lists := (lists a)(head \<mapsto> as @ filter (\<lambda>x. \<not> test x) [])\<rparr> = a"
    using Nil(2) by (simp add: fun_upd_idem)
  moreover have "for_each_safe_from k h head test pos n = Inr h" using Nil(3,4) by (cases k) auto
  ultimately show ?case using Nil(1) by metis
next
  case (Cons x bs)
  obtain m where k: "k = Suc m" using Cons.prems(3) by (cases k) auto
  note rd = representsD[OF Cons.prems(1,2)]
  have w: "well_placed a" using Cons.prems(1) by (simp add: represents_def)
  have px: "pos = x" "x \<noteq> head" "n = hd (bs @ [head])" using Cons.prems(4,5) rd(2) by auto
  define as' where "as' = (if test x then as else as @ [x])"
  define a1 where "a1 = a\<lparr>lists := (lists a)(head \<mapsto> as' @ bs)\<rparr>"
  obtain h1 where h1: "(if test x then list_del h x else Inr h) = Inr h1" and r1: "represents h1 a1"
  proof (cases "test x")
    case True
    have "in_list a x" using Cons.prems(2) by (force simp: in_list_def)
    then obtain h1 where "list_del h x = Inr h1" "represents h1 (without x a)" using del_represents(1)[OF Cons.prems(1)] by blast
    moreover have "without x a = a1" using without_eq[OF w Cons.prems(2)] True by (simp add: a1_def as'_def)
    ultimately show ?thesis using that[of h1] True by simp
  next
    case False
    then have "a1 = a" using Cons.prems(2) by (simp add: a1_def as'_def fun_upd_idem)
    then show ?thesis using that[of h] False Cons.prems(1) by simp
  qed
  have l1: "lists a1 head = Some (as' @ bs)" by (simp add: a1_def)
  have c1: "chain (nx h1) (pv h1) head (as' @ bs) head" by (rule representsD(1)[OF r1 l1])
  obtain n' where n': "get_next h1 n = Inr n'" "bs \<noteq> [] \<Longrightarrow> n' = hd (tl bs @ [head])"
  proof (cases bs)
    case Nil
    then show ?thesis using that[of "hd (as' @ bs @ [head])"] get_next_ok[OF chain_next[OF c1]] px(3) by simp
  next
    case (Cons b bs')
    then have "chain (nx h1) (pv h1) b bs' head" using c1 by (simp add: chain_append)
    from get_next_ok[OF chain_next[OF this]] show ?thesis by (intro that[of "hd (bs' @ [head])"]) (simp_all add: px(3) Cons)
  qed
  have "\<exists>h'. for_each_safe_from m h1 head test n n' = Inr h' \<and>
      represents h' (a1\<lparr>lists := (lists a1)(head \<mapsto> as' @ filter (\<lambda>x. \<not> test x) bs)\<rparr>)"
    by (rule Cons.IH[OF r1 l1 _ px(3) n'(2)]) (use Cons.prems(3) k in auto)
  moreover have "a1\<lparr>lists := (lists a1)(head \<mapsto> as' @ filter (\<lambda>x. \<not> test x) bs)\<rparr> =
      a\<lparr>lists := (lists a)(head \<mapsto> as @ filter (\<lambda>x. \<not> test x) (x # bs))\<rparr>"
    unfolding a1_def as'_def by simp
  moreover have "for_each_safe_from k h head test pos n = for_each_safe_from m h1 head test n n'"
    using h1 n'(1) px(1,2) k by simp
  ultimately show ?case by metis
qed

lemma for_each_safe_represents:
  assumes r: "represents h a" and l: "lists a head = Some xs" and k: "length xs < k"
  shows "\<exists>h'. list_for_each_safe k h head test = Inr h' \<and> represents h' (change head (filter (\<lambda>x. \<not> test x)) a)"
proof -
  note c = representsD(1)[OF r l]
  obtain n where n: "get_next h (hd (xs @ [head])) = Inr n" "xs \<noteq> [] \<Longrightarrow> n = hd (tl xs @ [head])"
  proof (cases xs)
    case Nil
    then show ?thesis using that[of head] get_next_ok[OF chain_next[OF c]] by simp
  next
    case (Cons x ys)
    then have "chain (nx h) (pv h) x ys head" using c by simp
    from get_next_ok[OF chain_next[OF this]] show ?thesis by (intro that[of "hd (ys @ [head])"]) (simp_all add: Cons)
  qed
  have "\<exists>h'. for_each_safe_from k h head test (hd (xs @ [head])) n = Inr h' \<and>
      represents h' (a\<lparr>lists := (lists a)(head \<mapsto> [] @ filter (\<lambda>x. \<not> test x) xs)\<rparr>)"
    by (rule for_each_safe_from_filter[OF r _ k refl n(2)]) (simp add: l)
  then show ?thesis
    using l n(1) by (simp add: list_for_each_safe_def get_next_ok[OF chain_next[OF c]] change_def)
qed


section \<open>Histories\<close>

text \<open>
  What a program does with its nodes. \<open>Node p n\<close>: the allocator returns a node at \<open>p\<close> with whatever is in it; \<open>Release p\<close> frees it.
  \<open>Prune head test\<close> is the deleting loop, with as many rounds as it needs at most.
\<close>

datatype list_op =
    Node ptr list_head
  | Release ptr
  | Init ptr
  | Add ptr ptr
  | Add_tail ptr ptr
  | Del ptr
  | Del_init ptr
  | Replace ptr ptr
  | Move ptr ptr
  | Move_tail ptr ptr
  | Prune ptr "ptr \<Rightarrow> bool" nat

fun run_list_op :: "lmem \<Rightarrow> list_op \<Rightarrow> lmem res" where
  "run_list_op h (Node p n) = Inr (h(p \<mapsto> n))"
| "run_list_op h (Release p) = (if h p = None then Inl Use_after_free else Inr (h(p := None)))"
| "run_list_op h (Init head) = INIT_LIST_HEAD h head"
| "run_list_op h (Add x head) = list_add h x head"
| "run_list_op h (Add_tail x head) = list_add_tail h x head"
| "run_list_op h (Del x) = list_del h x"
| "run_list_op h (Del_init x) = list_del_init h x"
| "run_list_op h (Replace x y) = list_replace h x y"
| "run_list_op h (Move x head) = list_move h x head"
| "run_list_op h (Move_tail x head) = list_move_tail h x head"
| "run_list_op h (Prune head test k) = list_for_each_safe k h head test"

fun run_list_ops :: "lmem \<Rightarrow> list_op list \<Rightarrow> lmem res" where
  "run_list_ops h [] = Inr h"
| "run_list_ops h (op # ops) = rbind (run_list_op h op) (\<lambda>h. run_list_ops h ops)"

fun abs_op :: "lists_state \<Rightarrow> list_op \<Rightarrow> lists_state" where
  "abs_op a (Node p n) = a\<lparr>mapped := insert p (mapped a)\<rparr>"
| "abs_op a (Release p) = a\<lparr>mapped := mapped a - {p}\<rparr>"
| "abs_op a (Init head) = a\<lparr>lists := (lists a)(head \<mapsto> [])\<rparr>"
| "abs_op a (Add x head) = change head (Cons x) a"
| "abs_op a (Add_tail x head) = change head (\<lambda>xs. xs @ [x]) a"
| "abs_op a (Del x) = without x a"
| "abs_op a (Del_init x) = without x a"
| "abs_op a (Replace x y) = a\<lparr>lists := (\<lambda>head. map_option (map (\<lambda>z. if z = x then y else z)) (lists a head))\<rparr>"
| "abs_op a (Move x head) = change head (Cons x) (without x a)"
| "abs_op a (Move_tail x head) = change head (\<lambda>xs. xs @ [x]) (without x a)"
| "abs_op a (Prune head test k) = change head (filter (\<lambda>x. \<not> test x)) a"

text \<open>The rules a program has to keep: add only nodes that are in no list, take out only nodes that are in one, free only nodes in none.\<close>

fun legal_op :: "lists_state \<Rightarrow> list_op \<Rightarrow> bool" where
  "legal_op a (Node p n) \<longleftrightarrow> p \<notin> mapped a \<and> p \<noteq> LIST_POISON1 \<and> p \<noteq> LIST_POISON2"
| "legal_op a (Release p) \<longleftrightarrow> loose a p"
| "legal_op a (Init head) \<longleftrightarrow> loose a head \<or> lists a head = Some []"
| "legal_op a (Add x head) \<longleftrightarrow> loose a x \<and> lists a head \<noteq> None"
| "legal_op a (Add_tail x head) \<longleftrightarrow> loose a x \<and> lists a head \<noteq> None"
| "legal_op a (Del x) \<longleftrightarrow> in_list a x"
| "legal_op a (Del_init x) \<longleftrightarrow> in_list a x"
| "legal_op a (Replace x y) \<longleftrightarrow> in_list a x \<and> loose a y"
| "legal_op a (Move x head) \<longleftrightarrow> in_list a x \<and> lists a head \<noteq> None"
| "legal_op a (Move_tail x head) \<longleftrightarrow> in_list a x \<and> lists a head \<noteq> None"
| "legal_op a (Prune head test k) \<longleftrightarrow> (case lists a head of None \<Rightarrow> False | Some xs \<Rightarrow> length xs < k)"

fun legal_ops :: "lists_state \<Rightarrow> list_op list \<Rightarrow> bool" where
  "legal_ops a [] \<longleftrightarrow> True"
| "legal_ops a (op # ops) \<longleftrightarrow> legal_op a op \<and> legal_ops (abs_op a op) ops"

definition no_lists :: lists_state where "no_lists = \<lparr>mapped = {}, lists = Map.empty\<rparr>"

lemma replace_eq:
  assumes w: "well_placed a" and l: "lists a head = Some (as @ x # bs)"
  shows "abs_op a (Replace x y) = a\<lparr>lists := (lists a)(head \<mapsto> as @ y # bs)\<rparr>"
proof -
  let ?f = "map (\<lambda>z. if z = x then y else z)"
  have id: "?f zs = zs" if "x \<notin> set zs" for zs using that by (intro map_idI) auto
  have "map_option ?f (lists a head') = lists a head'" if "head' \<noteq> head" for head'
  proof (cases "lists a head'")
    case (Some zs)
    then have "x \<notin> set zs" using well_placedD(3)[OF w l Some that] by auto
    then show ?thesis by (simp add: Some id)
  qed simp
  moreover have "?f (as @ x # bs) = as @ y # bs" using well_placedD(1)[OF w l] by (simp add: id)
  ultimately have "(\<lambda>head'. map_option ?f (lists a head')) = (lists a)(head \<mapsto> as @ y # bs)"
    using l by (auto simp: fun_eq_iff)
  then show ?thesis by simp
qed

lemma node_represents:
  assumes "represents h a" "legal_op a (Node p n)"
  shows "represents (h(p \<mapsto> n)) (abs_op a (Node p n))"
proof -
  have "chain (nx (h(p \<mapsto> n))) (pv (h(p \<mapsto> n))) head xs head" if l: "lists a head = Some xs" for head xs
  proof -
    have "p \<notin> set (head # xs)" using representsD(3)[OF assms(1) l] assms by (auto simp: represents_def)
    then have "\<And>q. q \<in> set (head # xs) \<Longrightarrow> nx (h(p \<mapsto> n)) q = nx h q \<and> pv (h(p \<mapsto> n)) q = pv h q"
      by (auto simp: nx_def pv_def)
    then show ?thesis using representsD(1)[OF assms(1) l] by (subst chain_cong[where N = "nx h" and P = "pv h"]) auto
  qed
  moreover have "well_placed (abs_op a (Node p n))" using assms unfolding represents_def well_placed_def by simp blast
  ultimately show ?thesis using assms by (auto simp: represents_def)
qed

lemma release_represents:
  assumes "represents h a" "loose a p"
  shows "represents (h(p := None)) (abs_op a (Release p))"
proof -
  have "chain (nx (h(p := None))) (pv (h(p := None))) head xs head" if l: "lists a head = Some xs" for head xs
  proof -
    have "p \<notin> set (head # xs)" by (rule looseD[OF assms(2) l])
    then have "\<And>q. q \<in> set (head # xs) \<Longrightarrow> nx (h(p := None)) q = nx h q \<and> pv (h(p := None)) q = pv h q"
      by (auto simp: nx_def pv_def)
    then show ?thesis using representsD(1)[OF assms(1) l] by (subst chain_cong[where N = "nx h" and P = "pv h"]) auto
  qed
  moreover have "well_placed (abs_op a (Release p))"
  proof -
    have "p \<notin> set (head # xs)" if "lists a head = Some xs" for head xs by (rule looseD[OF assms(2) that])
    then show ?thesis using assms(1) unfolding represents_def well_placed_def by simp blast
  qed
  ultimately show ?thesis using assms by (auto simp: represents_def)
qed

lemma op_represents:
  assumes r: "represents h a" and l: "legal_op a op"
  shows "\<exists>h'. run_list_op h op = Inr h' \<and> represents h' (abs_op a op)"
proof (cases op)
  case (Node p n)
  then show ?thesis using node_represents[OF r] l by auto
next
  case (Release p)
  then have "h p \<noteq> None" using r l by (auto simp: represents_def loose_def)
  then show ?thesis using release_represents[OF r] l Release by auto
next
  case (Replace x y)
  then obtain head as bs where *: "lists a head = Some (as @ x # bs)" using l by (auto simp: in_list_def dest: split_list)
  have "well_placed a" using r by (simp add: represents_def)
  then show ?thesis using replace_represents[OF r *] replace_eq[OF _ *] l Replace by simp
next
  case (Prune head test k)
  then obtain xs where "lists a head = Some xs" "length xs < k" using l by (auto split: option.splits)
  then show ?thesis using for_each_safe_represents[OF r] Prune by simp
qed (use l init_represents[OF r] add_represents[OF r] del_represents[OF r] move_represents[OF r] in auto)

lemma ops_represent:
  "represents h a \<Longrightarrow> legal_ops a ops \<Longrightarrow> \<exists>h'. run_list_ops h ops = Inr h' \<and> represents h' (foldl abs_op a ops)"
proof (induction ops arbitrary: h a)
  case (Cons op ops)
  then have "legal_op a op" by simp
  then obtain h1 where "run_list_op h op = Inr h1" "represents h1 (abs_op a op)" using op_represents[OF Cons.prems(1)] by blast
  then show ?case using Cons by auto
qed simp

lemma represents_start: "represents Map.empty no_lists"
  by (simp add: represents_def well_placed_def no_lists_def)

text \<open>C11: Starting from no memory, any legal history of allocations, insertions, removals, moves, replacements and deleting loops runs
  without touching an address that is not allocated, and afterwards the memory represents the lists that the same history gives on lists of
  nodes: walking a list forward visits its nodes in order, walking it backward in reverse, \<open>list_empty\<close> tells whether there are any, and a
  search stops at the first node that passes the test, or on the head when none does.\<close>

theorem lists_history:
  assumes legal: "legal_ops no_lists ops"
  shows "\<exists>h. run_list_ops Map.empty ops = Inr h \<and> represents h (foldl abs_op no_lists ops) \<and>
    (\<forall>head xs n test. lists (foldl abs_op no_lists ops) head = Some xs \<longrightarrow> length xs < n \<longrightarrow>
      list_for_each n h head = Inr xs \<and> list_for_each_prev n h head = Inr (rev xs) \<and> list_empty h head = Inr (xs = []) \<and>
      list_search n h head test = Inr (case find test xs of None \<Rightarrow> head | Some x \<Rightarrow> x))"
proof -
  obtain h where h: "run_list_ops Map.empty ops = Inr h" "represents h (foldl abs_op no_lists ops)"
    using ops_represent[OF represents_start legal] by blast
  then show ?thesis using loops_represent[OF h(2)] by blast
qed


definition demo_ops :: "list_op list" where
  "demo_ops = [Node 1 \<lparr>lh_next = 0, lh_prev = 0\<rparr>, Node 2 \<lparr>lh_next = 7, lh_prev = 0\<rparr>, Node 3 \<lparr>lh_next = 0, lh_prev = 9\<rparr>,
     Init 1, Add_tail 2 1, Add_tail 3 1, Move 3 1, Del 2, Release 2]"

lemma demo_ops_lists: "lists (foldl abs_op no_lists demo_ops) = [1 \<mapsto> [3]]"
  by (simp add: demo_ops_def no_lists_def change_def without_def fun_eq_iff)

lemma demo_ops_legal: "legal_ops no_lists demo_ops"
  by (simp add: demo_ops_def no_lists_def change_def without_def loose_def in_list_def LIST_POISON1_def LIST_POISON2_def)

theorem lists_history_witness: "\<exists>h. run_list_ops Map.empty demo_ops = Inr h \<and> list_for_each 2 h 1 = Inr [3]"
proof -
  obtain h where "run_list_ops Map.empty demo_ops = Inr h"
    "\<And>head xs n. lists (foldl abs_op no_lists demo_ops) head = Some xs \<Longrightarrow> length xs < n \<Longrightarrow> list_for_each n h head = Inr xs"
    using lists_history[OF demo_ops_legal] by blast
  then show ?thesis by (simp add: demo_ops_lists)
qed

text \<open>Deleting a node twice without adding it again in between runs into the poison the first \<open>list_del\<close> left.\<close>

lemma list_del_twice:
  assumes r: "represents h a" and x: "in_list a x"
  shows "rbind (list_del h x) (\<lambda>h. list_del h x) = Inl Wild_deref"
proof -
  obtain h1 where h1: "raw_list_del_entry h x = Inr h1" "represents h1 (without x a)" "x \<in> dom h1"
    using represents_remove[OF r x] by blast
  let ?h = "wr_prev (wr_next h1 x LIST_POISON1) x LIST_POISON2"
  have "list_del h x = Inr ?h"
    unfolding list_del_def h1(1) rbind_Inr using h1(3) by (simp only: rbind_Inr set_prev_ok set_next_ok dom_wr insertI1)
  moreover have "get_prev ?h x = Inr LIST_POISON2" "get_next ?h x = Inr LIST_POISON1"
    using h1(3) by (simp_all add: get_prev_ok get_next_ok pv_wr nx_wr nx_wr_prev dom_wr)
  moreover have "LIST_POISON1 \<notin> dom ?h"
    using h1(2,3) by (auto simp: dom_wr represents_def well_placed_def)
  then have "set_prev ?h LIST_POISON1 LIST_POISON2 = Inl Wild_deref"
    by (auto simp: set_prev_def split: option.splits)
  ultimately show ?thesis by (simp add: list_del_def raw_list_del_entry_def raw_list_del_def)
qed

text \<open>
  A search over the list at \<open>head\<close> that finds nothing stops at \<open>head\<close>. A caller that tests the cursor against the head of another
  list (as \<open>dhmp_free_one_area\<close> does) takes the search to have succeeded.
\<close>

lemma failed_search:
  assumes "represents h a" "lists a head = Some xs" "length xs < n" "\<forall>x\<in>set xs. \<not> test x" "other \<noteq> head"
  shows "\<exists>pos. list_search n h head test = Inr pos \<and> pos = head \<and> pos \<noteq> other"
proof -
  have "find test xs = None" using assms(4) by (simp add: find_None_iff)
  then show ?thesis using loops_represent(3)[OF assms(1-3)] assms(5) by simp
qed

section \<open>Lists with a single pointer as head\<close>

text \<open>
  A node of an \<open>hlist\<close> points back at the pointer that leads to it: the \<open>first\<close> of a head or the \<open>next\<close> of a node. Heads and nodes
  are kept apart; address 0 is NULL.
\<close>

datatype hslot = No_slot | First ptr | Next ptr | Poison_slot

record hlist_node =
  hl_next :: ptr
  hl_pprev :: hslot

record hmem =
  firsts :: "ptr \<rightharpoonup> ptr"
  hnodes :: "ptr \<rightharpoonup> hlist_node"

definition INIT_HLIST_HEAD :: "hmem \<Rightarrow> ptr \<Rightarrow> hmem res" where
  "INIT_HLIST_HEAD m p = (if firsts m p = None then Inl Wild_deref else Inr (m\<lparr>firsts := (firsts m)(p \<mapsto> 0)\<rparr>))"

definition INIT_HLIST_NODE :: "hmem \<Rightarrow> ptr \<Rightarrow> hmem res" where
  "INIT_HLIST_NODE m p = (if hnodes m p = None then Inl Wild_deref
     else Inr (m\<lparr>hnodes := (hnodes m)(p \<mapsto> \<lparr>hl_next = 0, hl_pprev = No_slot\<rparr>)\<rparr>))"

definition hlist_unhashed :: "hmem \<Rightarrow> ptr \<Rightarrow> bool res" where
  "hlist_unhashed m p = (case hnodes m p of None \<Rightarrow> Inl Wild_deref | Some n \<Rightarrow> Inr (hl_pprev n = No_slot))"

definition hlist_empty :: "hmem \<Rightarrow> ptr \<Rightarrow> bool res" where
  "hlist_empty m p = (case firsts m p of None \<Rightarrow> Inl Wild_deref | Some f \<Rightarrow> Inr (f = 0))"

fun store_slot :: "hmem \<Rightarrow> hslot \<Rightarrow> ptr \<Rightarrow> hmem res" where
  "store_slot m (First p) v = (if firsts m p = None then Inl Wild_deref else Inr (m\<lparr>firsts := (firsts m)(p \<mapsto> v)\<rparr>))"
| "store_slot m (Next p) v = (case hnodes m p of None \<Rightarrow> Inl Wild_deref
     | Some n \<Rightarrow> Inr (m\<lparr>hnodes := (hnodes m)(p \<mapsto> n\<lparr>hl_next := v\<rparr>)\<rparr>))"
| "store_slot m No_slot v = Inl Null_deref"
| "store_slot m Poison_slot v = Inl Wild_deref"

definition set_pprev :: "hmem \<Rightarrow> ptr \<Rightarrow> hslot \<Rightarrow> hmem res" where
  "set_pprev m p s = (case hnodes m p of None \<Rightarrow> Inl Wild_deref
     | Some n \<Rightarrow> Inr (m\<lparr>hnodes := (hnodes m)(p \<mapsto> n\<lparr>hl_pprev := s\<rparr>)\<rparr>))"

text \<open>\<open>__hlist_del\<close>.\<close>

definition raw_hlist_del :: "hmem \<Rightarrow> ptr \<Rightarrow> hmem res" where
  "raw_hlist_del m p = (case hnodes m p of None \<Rightarrow> Inl Wild_deref
     | Some n \<Rightarrow> rbind (store_slot m (hl_pprev n) (hl_next n)) (\<lambda>m.
         if hl_next n \<noteq> 0 then set_pprev m (hl_next n) (hl_pprev n) else Inr m))"

definition hlist_del :: "hmem \<Rightarrow> ptr \<Rightarrow> hmem res" where
  "hlist_del m p = rbind (raw_hlist_del m p) (\<lambda>m.
     rbind (store_slot m (Next p) LIST_POISON1) (\<lambda>m. set_pprev m p Poison_slot))"

definition hlist_del_init :: "hmem \<Rightarrow> ptr \<Rightarrow> hmem res" where
  "hlist_del_init m p = rbind (hlist_unhashed m p) (\<lambda>u.
     if u then Inr m else rbind (raw_hlist_del m p) (\<lambda>m. INIT_HLIST_NODE m p))"

definition hlist_add_head :: "hmem \<Rightarrow> ptr \<Rightarrow> ptr \<Rightarrow> hmem res" where
  "hlist_add_head m n h = (case firsts m h of None \<Rightarrow> Inl Wild_deref
     | Some first \<Rightarrow> rbind (store_slot m (Next n) first) (\<lambda>m.
         rbind (if first \<noteq> 0 then set_pprev m first (Next n) else Inr m) (\<lambda>m.
         rbind (store_slot m (First h) n) (\<lambda>m. set_pprev m n (First h)))))"

fun hlist_from :: "nat \<Rightarrow> hmem \<Rightarrow> ptr \<Rightarrow> ptr list res" where
  "hlist_from 0 m pos = Inl Out_of_fuel"
| "hlist_from (Suc k) m pos =
     (if pos = 0 then Inr []
      else case hnodes m pos of None \<Rightarrow> Inl Wild_deref
           | Some n \<Rightarrow> rbind (hlist_from k m (hl_next n)) (\<lambda>ps. Inr (pos # ps)))"

definition hlist_for_each :: "nat \<Rightarrow> hmem \<Rightarrow> ptr \<Rightarrow> ptr list res" where
  "hlist_for_each k m head = (case firsts m head of None \<Rightarrow> Inl Wild_deref | Some f \<Rightarrow> hlist_from k m f)"


definition hnx :: "hmem \<Rightarrow> ptr \<rightharpoonup> ptr" where "hnx m p = map_option hl_next (hnodes m p)"
definition hpv :: "hmem \<Rightarrow> ptr \<rightharpoonup> hslot" where "hpv m p = map_option hl_pprev (hnodes m p)"

fun hchain :: "(ptr \<rightharpoonup> ptr) \<Rightarrow> (ptr \<rightharpoonup> hslot) \<Rightarrow> hslot \<Rightarrow> ptr \<Rightarrow> ptr list \<Rightarrow> bool" where
  "hchain N P s p [] \<longleftrightarrow> p = 0"
| "hchain N P s p (x # xs) \<longleftrightarrow> p = x \<and> x \<noteq> 0 \<and> P x = Some s \<and> (case N x of None \<Rightarrow> False | Some q \<Rightarrow> hchain N P (Next x) q xs)"

definition hrep :: "hmem \<Rightarrow> (ptr \<rightharpoonup> ptr list) \<Rightarrow> bool" where
  "hrep m T \<longleftrightarrow> dom (firsts m) = dom T \<and>
     (\<forall>head xs. T head = Some xs \<longrightarrow> distinct xs \<and>
        (\<exists>f. firsts m head = Some f \<and> hchain (hnx m) (hpv m) (First head) f xs)) \<and>
     (\<forall>head xs head' ys. T head = Some xs \<longrightarrow> T head' = Some ys \<longrightarrow> head \<noteq> head' \<longrightarrow> set xs \<inter> set ys = {})"

lemma hchain_cong:
  "(\<And>a. a \<in> set xs \<Longrightarrow> N' a = N a \<and> P' a = P a) \<Longrightarrow> hchain N' P' s p xs = hchain N P s p xs"
  by (induction xs arbitrary: s p) (auto split: option.splits)

lemma hchain_nodes: "hchain N P s p xs \<Longrightarrow> set xs \<subseteq> dom N \<inter> dom P - {0}"
  by (induction xs arbitrary: s p) (auto split: option.splits)

lemma hchain_first: "hchain N P s p xs \<Longrightarrow> p = (case xs of [] \<Rightarrow> 0 | x # _ \<Rightarrow> x)"
  by (cases xs) auto

text \<open>Giving the first node another back pointer.\<close>

lemma hchain_rehang:
  assumes "hchain N P s p xs" "distinct xs"
  shows "hchain N (if p = 0 then P else P(p \<mapsto> s')) s' p xs"
proof (cases xs)
  case (Cons x ys)
  then obtain q where q: "p = x" "x \<noteq> 0" "N x = Some q" "hchain N P (Next x) q ys" using assms(1) by (auto split: option.splits)
  have "hchain N (P(x \<mapsto> s')) (Next x) q ys = hchain N P (Next x) q ys"
    using assms(2) Cons by (intro hchain_cong) auto
  then show ?thesis using q Cons by simp
qed (use assms in simp)

lemma hchain_remove:
  assumes "hchain N P s p (as @ x # bs)" "distinct (as @ x # bs)"
  shows "\<exists>q. N x = Some q \<and> P x = Some (if as = [] then s else Next (last as)) \<and>
     (q \<noteq> 0 \<longrightarrow> q \<in> set bs) \<and>
     hchain (if as = [] then N else N(last as \<mapsto> q))
       (if q = 0 then P else P(q \<mapsto> (if as = [] then s else Next (last as)))) s (if as = [] then q else p) (as @ bs)"
  using assms
proof (induction as arbitrary: s p)
  case Nil
  then obtain q where q: "N x = Some q" "P x = Some s" "hchain N P (Next x) q bs" by (auto split: option.splits)
  then show ?case using hchain_rehang[OF q(3), of s] hchain_first[OF q(3)] Nil.prems(2) by (cases bs) auto
next
  case (Cons a as)
  then obtain r where r: "p = a" "a \<noteq> 0" "N a = Some r" "P a = Some s" "hchain N P (Next a) r (as @ x # bs)"
    by (auto split: option.splits)
  obtain q where q: "N x = Some q" "P x = Some (if as = [] then Next a else Next (last as))" "q \<noteq> 0 \<longrightarrow> q \<in> set bs"
    "hchain (if as = [] then N else N(last as \<mapsto> q))
       (if q = 0 then P else P(q \<mapsto> (if as = [] then Next a else Next (last as)))) (Next a) (if as = [] then q else r) (as @ bs)"
    using Cons.IH[OF r(5)] Cons.prems(2) by auto
  have "q \<noteq> a" using q(3) r(2) Cons.prems(2) by auto
  show ?case
  proof (cases "as = []")
    case True
    have "hchain (N(a \<mapsto> q)) (if q = 0 then P else P(q \<mapsto> Next a)) (Next a) q bs =
        hchain N (if q = 0 then P else P(q \<mapsto> Next a)) (Next a) q bs"
      using Cons.prems(2) True by (intro hchain_cong) auto
    then show ?thesis using q r True \<open>q \<noteq> a\<close> by (auto simp: fun_upd_def)
  next
    case False
    then have "last as \<noteq> a" using Cons.prems(2) last_in_set[of as] by auto
    then show ?thesis using q r False \<open>q \<noteq> a\<close> by (auto simp: fun_upd_def)
  qed
qed

text \<open>The three operations the address table uses.\<close>

lemma hrepD:
  assumes "hrep m T" "T head = Some xs"
  obtains f where "firsts m head = Some f" "hchain (hnx m) (hpv m) (First head) f xs" "distinct xs" "set xs \<subseteq> dom (hnodes m)" "0 \<notin> set xs"
proof -
  obtain f where f: "firsts m head = Some f" "hchain (hnx m) (hpv m) (First head) f xs" "distinct xs"
    using assms unfolding hrep_def by blast
  moreover have "set xs \<subseteq> dom (hnodes m)" "0 \<notin> set xs" using hchain_nodes[OF f(2)] by (auto simp: hnx_def)
  ultimately show ?thesis using that by blast
qed

lemma hrep_change:
  assumes r: "hrep m T" and l: "T head = Some xs"
    and n: "firsts m' = (firsts m)(head \<mapsto> f)" "hchain (hnx m') (hpv m') (First head) f ys" "distinct ys"
    and fr: "\<And>p. p \<notin> insert x (set xs) \<Longrightarrow> hnx m' p = hnx m p \<and> hpv m' p = hpv m p"
    and y: "set ys \<subseteq> insert x (set xs)" and x: "\<And>h zs. T h = Some zs \<Longrightarrow> h \<noteq> head \<Longrightarrow> x \<notin> set zs"
  shows "hrep m' (T(head \<mapsto> ys))"
proof -
  have o: "set zs \<inter> insert x (set xs) = {}" if "T h = Some zs" "h \<noteq> head" for h zs
    using r l that x[OF that] unfolding hrep_def by blast
  have "\<exists>g. firsts m' h = Some g \<and> hchain (hnx m') (hpv m') (First h) g zs" if z: "T h = Some zs" "h \<noteq> head" for h zs
  proof -
    obtain g where g: "firsts m h = Some g" "hchain (hnx m) (hpv m) (First h) g zs" using hrepD[OF r z(1)] by blast
    have "hnx m' p = hnx m p \<and> hpv m' p = hpv m p" if "p \<in> set zs" for p using o[OF z] that by (intro fr) blast
    then have "hchain (hnx m') (hpv m') (First h) g zs" using g(2) by (subst hchain_cong[where N = "hnx m" and P = "hpv m"]) auto
    then show ?thesis using g n(1) z(2) by simp
  qed
  moreover have "dom (firsts m') = dom (T(head \<mapsto> ys))" using r n(1) by (auto simp: hrep_def)
  moreover have "set zs \<inter> set ys = {}" if "T h = Some zs" "h \<noteq> head" for h zs using o[OF that] y by auto
  ultimately show ?thesis using r n unfolding hrep_def by (auto split: if_splits) blast+
qed


lemma hlist_add_head_ok:
  assumes r: "hrep m T" and l: "T head = Some xs" and x: "x \<noteq> 0" "x \<in> dom (hnodes m)"
    and u: "\<And>h zs. T h = Some zs \<Longrightarrow> x \<notin> set zs"
  shows "\<exists>m'. hlist_add_head m x head = Inr m' \<and> hrep m' (T(head \<mapsto> x # xs)) \<and> dom (hnodes m') = dom (hnodes m)"
proof -
  obtain f where f: "firsts m head = Some f" "hchain (hnx m) (hpv m) (First head) f xs" "distinct xs" "set xs \<subseteq> dom (hnodes m)" "0 \<notin> set xs"
    by (rule hrepD[OF r l])
  obtain n where n: "hnodes m x = Some n" using x(2) by auto
  have fx: "f \<noteq> 0 \<Longrightarrow> f \<in> set xs" using hchain_first[OF f(2)] by (cases xs) auto
  have xn: "x \<notin> set xs" by (rule u[OF l])
  have "f \<noteq> 0 \<Longrightarrow> f \<in> dom (hnodes m)" using fx f(4) by blast
  then obtain k where k: "f \<noteq> 0 \<Longrightarrow> hnodes m f = Some k" by (cases "f = 0") auto
  have fnx: "f \<noteq> x \<or> f = 0" using fx xn by auto
  let ?N = "if f = 0 then (hnodes m)(x \<mapsto> n\<lparr>hl_next := f, hl_pprev := First head\<rparr>)
     else (hnodes m)(x \<mapsto> n\<lparr>hl_next := f, hl_pprev := First head\<rparr>, f \<mapsto> k\<lparr>hl_pprev := Next x\<rparr>)"
  let ?m = "m\<lparr>firsts := (firsts m)(head \<mapsto> x), hnodes := ?N\<rparr>"
  have run: "hlist_add_head m x head = Inr ?m"
    using n k fnx x(1) by (auto simp: hlist_add_head_def f(1) set_pprev_def fun_upd_twist)
  have nxm: "hnx ?m = (hnx m)(x \<mapsto> f)" using k fnx x(1) by (auto simp: hnx_def fun_eq_iff)
  have pvm: "hpv ?m = (if f = 0 then hpv m else (hpv m)(f \<mapsto> Next x))(x \<mapsto> First head)"
    using k fnx x(1) by (auto simp: hpv_def fun_eq_iff)
  have "hchain (hnx ?m) (hpv ?m) (Next x) f xs = hchain (hnx m) (if f = 0 then hpv m else (hpv m)(f \<mapsto> Next x)) (Next x) f xs"
    unfolding nxm pvm using xn by (intro hchain_cong) auto
  moreover have "hnx ?m x = Some f" "hpv ?m x = Some (First head)" unfolding nxm pvm by simp_all
  ultimately have c: "hchain (hnx ?m) (hpv ?m) (First head) x (x # xs)"
    using hchain_rehang[OF f(2,3)] x(1) by (simp only: hchain.simps option.case) blast
  have "hrep ?m (T(head \<mapsto> x # xs))"
  proof (rule hrep_change[OF r l _ c, where x = x])
    show "hnx ?m p = hnx m p \<and> hpv ?m p = hpv m p" if "p \<notin> insert x (set xs)" for p
      using that fx unfolding nxm pvm by auto
  qed (use f(3) xn u in auto)
  moreover have "dom ?N = dom (hnodes m)" using n k by auto
  ultimately show ?thesis using run by auto
qed

lemma hlist_del_ok:
  assumes r: "hrep m T" and l: "T head = Some (as @ x # bs)"
  shows "\<exists>m'. hlist_del m x = Inr m' \<and> hrep m' (T(head \<mapsto> as @ bs)) \<and> dom (hnodes m') = dom (hnodes m)"
proof -
  obtain f where f: "firsts m head = Some f" "hchain (hnx m) (hpv m) (First head) f (as @ x # bs)" "distinct (as @ x # bs)"
      "set (as @ x # bs) \<subseteq> dom (hnodes m)" "0 \<notin> set (as @ x # bs)"
    by (rule hrepD[OF r l])
  let ?s = "if as = [] then First head else Next (last as)"
  obtain q where q: "hnx m x = Some q" "hpv m x = Some ?s" "q \<noteq> 0 \<longrightarrow> q \<in> set bs"
    "hchain (if as = [] then hnx m else (hnx m)(last as \<mapsto> q)) (if q = 0 then hpv m else (hpv m)(q \<mapsto> ?s)) (First head)
       (if as = [] then q else f) (as @ bs)"
    using hchain_remove[OF f(2,3)] by blast
  have nodes: "q \<noteq> 0 \<Longrightarrow> q \<in> dom (hnodes m)" "as \<noteq> [] \<Longrightarrow> last as \<in> dom (hnodes m)" "x \<in> dom (hnodes m)"
    using q(3) f(4) last_in_set[of as] by (auto dest!: subsetD)
  have ne: "q \<noteq> x" "as \<noteq> [] \<Longrightarrow> last as \<noteq> x" "as \<noteq> [] \<Longrightarrow> last as \<noteq> q"
  proof -
    show "q \<noteq> x" using q(3) f(3,5) by auto
    have "last as \<notin> set (x # bs)" "last as \<noteq> 0" if "as \<noteq> []" using last_in_set[OF that] f(3,5) by auto
    then show "as \<noteq> [] \<Longrightarrow> last as \<noteq> x" "as \<noteq> [] \<Longrightarrow> last as \<noteq> q" using q(3) by auto
  qed
  obtain n where n: "hnodes m x = Some n" "hl_next n = q" "hl_pprev n = ?s" using q(1,2) by (auto simp: hnx_def hpv_def)
  define m1 where "m1 = (if as = [] then m\<lparr>firsts := (firsts m)(head \<mapsto> q)\<rparr>
     else m\<lparr>hnodes := (hnodes m)(last as \<mapsto> (the (hnodes m (last as)))\<lparr>hl_next := q\<rparr>)\<rparr>)"
  have s1: "store_slot m ?s q = Inr m1" using nodes(2) f(1) by (auto simp: m1_def)
  define m2 where "m2 = (if q = 0 then m1 else m1\<lparr>hnodes := (hnodes m1)(q \<mapsto> (the (hnodes m1 q))\<lparr>hl_pprev := ?s\<rparr>)\<rparr>)"
  have d1: "dom (hnodes m1) = dom (hnodes m)" using nodes(2) by (auto simp: m1_def)
  have raw: "raw_hlist_del m x = Inr m2"
    using nodes(1) d1 by (auto simp: raw_hlist_del_def n s1 m2_def set_pprev_def split: option.splits)
  have d2: "dom (hnodes m2) = dom (hnodes m)" using nodes(1) d1 by (auto simp: m2_def)
  have nx2: "hnx m2 = (if as = [] then hnx m else (hnx m)(last as \<mapsto> q))"
    using nodes(1,2) ne(3) by (auto simp: m2_def m1_def hnx_def fun_eq_iff)
  have pv2: "hpv m2 = (if q = 0 then hpv m else (hpv m)(q \<mapsto> ?s))"
    using nodes(1,2) ne(3) by (auto simp: m2_def m1_def hpv_def fun_eq_iff)
  obtain k where k: "hnodes m2 x = Some k" using nodes(3) d2 by auto
  let ?m = "m2\<lparr>hnodes := (hnodes m2)(x \<mapsto> k\<lparr>hl_next := LIST_POISON1, hl_pprev := Poison_slot\<rparr>)\<rparr>"
  have run: "hlist_del m x = Inr ?m" using k by (simp add: hlist_del_def raw set_pprev_def)
  have far: "hnx ?m p = hnx m2 p \<and> hpv ?m p = hpv m2 p" if "p \<noteq> x" for p using that by (simp add: hnx_def hpv_def)
  have "hchain (hnx ?m) (hpv ?m) (First head) (if as = [] then q else f) (as @ bs) =
      hchain (hnx m2) (hpv m2) (First head) (if as = [] then q else f) (as @ bs)"
  proof (rule hchain_cong)
    show "hnx ?m a = hnx m2 a \<and> hpv ?m a = hpv m2 a" if "a \<in> set (as @ bs)" for a
      using f(3) that by (intro far) auto
  qed
  then have c: "hchain (hnx ?m) (hpv ?m) (First head) (if as = [] then q else f) (as @ bs)" using q(4) nx2 pv2 by simp
  have "hrep ?m (T(head \<mapsto> as @ bs))"
  proof (rule hrep_change[OF r l _ c, where x = x])
    show "firsts ?m = (firsts m)(head \<mapsto> (if as = [] then q else f))" using f(1) by (auto simp: m2_def m1_def)
    show "hnx ?m p = hnx m p \<and> hpv ?m p = hpv m p" if "p \<notin> insert x (set (as @ x # bs))" for p
    proof -
      have "p \<noteq> x" "as \<noteq> [] \<Longrightarrow> p \<noteq> last as" "q \<noteq> 0 \<Longrightarrow> p \<noteq> q" using that q(3) last_in_set[of as] by auto
      then show ?thesis using far nx2 pv2 by auto
    qed
    show "x \<notin> set zs" if "T h = Some zs" "h \<noteq> head" for h zs using r l that unfolding hrep_def by (auto 0 4)
  qed (use f(3) in auto)
  moreover have "dom (hnodes ?m) = dom (hnodes m)" using nodes(3) d2 by auto
  ultimately show ?thesis using run by blast
qed

lemma hlist_from_hchain:
  "hchain (hnx m) (hpv m) s p xs \<Longrightarrow> length xs < k \<Longrightarrow> hlist_from k m p = Inr xs"
proof (induction xs arbitrary: s p k)
  case (Cons x xs)
  then obtain j where "k = Suc j" by (cases k) auto
  then show ?case using Cons by (auto simp: hnx_def split: option.splits)
qed (auto elim: less_natE)

lemma hlist_for_each_ok:
  assumes "hrep m T" "T head = Some xs" "length xs < k"
  shows "hlist_for_each k m head = Inr xs" "hlist_empty m head = Inr (xs = [])"
proof -
  obtain f where f: "firsts m head = Some f" "hchain (hnx m) (hpv m) (First head) f xs" by (rule hrepD[OF assms(1,2)])
  show "hlist_for_each k m head = Inr xs" using hlist_from_hchain[OF f(2) assms(3)] by (simp add: hlist_for_each_def f(1))
  show "hlist_empty m head = Inr (xs = [])" using f by (cases xs) (auto simp: hlist_empty_def)
qed

end
