(* ===== verification/Dhmp_Lifecycle.thy ===== *)
theory Dhmp_Lifecycle
  imports Dhmp_Accept
begin

text \<open>
  The life of a client process: \<open>dhmp_client_init\<close> and \<open>dhmp_client_destroy\<close> of \<open>src/dhmp_client/src/dhmp_client.c\<close>, the devices of
  \<open>dhmp_dev.c\<close> they use, and the thread that waits for events (\<open>dhmp_context_run\<close> of \<open>dhmp_context.c\<close>). Three kinds of threads
  take turns: the main thread, which opens the connections and spins until they are up, the event thread, which runs the handlers of
  \<open>Dhmp_Transport\<close>, and the recovery threads those start.
\<close>

section \<open>Devices\<close>

text \<open>What \<open>ibv_query_device\<close> and \<open>ibv_alloc_pd\<close> give for a device.\<close>

record ibv_context =
  query_result :: int
  alloc_pd :: "nat option"

record dhmp_device =
  dev_pd :: "nat option"
  dev_verbs :: "ibv_context option"

definition dhmp_dev_init :: "ibv_context \<Rightarrow> dhmp_device \<times> int" where
  "dhmp_dev_init verbs =
     (if query_result verbs < 0 then (\<lparr>dev_pd = None, dev_verbs = None\<rparr>, query_result verbs)
      else case alloc_pd verbs of
             None \<Rightarrow> (\<lparr>dev_pd = None, dev_verbs = None\<rparr>, -1)
           | Some pd \<Rightarrow> (\<lparr>dev_pd = Some pd, dev_verbs = Some verbs\<rparr>, query_result verbs))"

text \<open>The loop over the devices; an entry of the array may be NULL.\<close>

fun dev_loop :: "ibv_context option list \<Rightarrow> dhmp_device list \<Rightarrow> dhmp_device list" where
  "dev_loop [] devs = devs"
| "dev_loop (None # cs) devs = dev_loop cs devs"
| "dev_loop (Some c # cs) devs = (let d = fst (dhmp_dev_init c) in dev_loop cs (if dev_verbs d = None then devs else devs @ [d]))"

definition dhmp_dev_list_init :: "ibv_context option list option \<Rightarrow> dhmp_device list \<Rightarrow> dhmp_device list" where
  "dhmp_dev_list_init cs devs = (case cs of None \<Rightarrow> devs | Some cs \<Rightarrow> dev_loop cs devs)"

definition dhmp_get_dev_from_client :: "dhmp_device list \<Rightarrow> dhmp_device option" where
  "dhmp_get_dev_from_client devs = (case devs of [] \<Rightarrow> None | d # _ \<Rightarrow> Some d)"

text \<open>The protection domains that are given back.\<close>

definition dhmp_dev_list_destroy :: "dhmp_device list \<Rightarrow> nat list" where
  "dhmp_dev_list_destroy devs = map (\<lambda>d. the (dev_pd d)) (filter (\<lambda>d. dev_verbs d \<noteq> None) devs)"

definition dev_works :: "ibv_context \<Rightarrow> bool" where
  "dev_works c \<longleftrightarrow> 0 \<le> query_result c \<and> alloc_pd c \<noteq> None"

lemma dev_loop_works:
  "dev_loop cs devs = devs @ map (\<lambda>c. \<lparr>dev_pd = alloc_pd c, dev_verbs = Some c\<rparr>) (filter dev_works (List.map_filter id cs))"
proof (induction cs devs rule: dev_loop.induct)
  case (3 c cs devs)
  then show ?case by (auto simp: dhmp_dev_init_def dev_works_def map_filter_simps Let_def split: option.splits)
qed (simp_all add: map_filter_simps)

text \<open>Every domain that was allocated is given back, once and in order.\<close>

lemma dev_list_roundtrip:
  "dhmp_dev_list_destroy (dhmp_dev_list_init (Some cs) []) = map (\<lambda>c. the (alloc_pd c)) (filter dev_works (List.map_filter id cs))"
  by (simp add: dhmp_dev_list_destroy_def dhmp_dev_list_init_def dev_loop_works comp_def)

section \<open>The threads of a client\<close>

text \<open>
  Where the main thread is: opening the connection of node \<open>i\<close> (to be polled or not), waiting for it, out of \<open>dhmp_client_init\<close>, and
  in \<open>dhmp_client_destroy\<close> asking the servers to close, waiting for that, setting \<open>stop\<close>, joining the event thread, done. The event
  thread waits in \<open>epoll_wait\<close>, handles events, tests \<open>stop\<close>, or has ended.
\<close>

datatype main_pc = Open nat bool | Wait nat bool | In_use | Close nat bool | Wait_closed nat bool | Stop | Join | Freed

datatype epoll_pc = Ep_waiting | Ep_handling | Ep_ended

record life =
  conn :: rdma_proc
  phase :: "nat \<Rightarrow> cm_phase"
  trans_of :: "bool \<Rightarrow> nat \<Rightarrow> nat option"
  read_mrs :: "nat set"
  asked :: "nat set"
  main :: main_pc
  epoll :: epoll_pc

definition set_trans :: "bool \<Rightarrow> nat \<Rightarrow> nat option \<Rightarrow> life \<Rightarrow> life" where
  "set_trans poll i t s = s\<lparr>trans_of := (trans_of s)(poll := (trans_of s poll)(i := t))\<rparr>"

definition state_of :: "life \<Rightarrow> nat \<Rightarrow> dhmp_transport_state" where
  "state_of s t = trans_state (cm_trans (conn s) t)"

text \<open>
  The steps of the main thread for \<open>n\<close> configured servers. A busy wait that does not see what it waits for stays where it is.
  Opening a connection with no device at hand dereferences NULL. \<open>Close\<close> queues the request to close for the work thread and waits until
  it is sent; \<open>asked\<close> are the transports it was sent on.
\<close>

definition open_step :: "cm_lib \<Rightarrow> dhmp_device list \<Rightarrow> nat \<Rightarrow> bool \<Rightarrow> life \<Rightarrow> life res" where
  "open_step L devs i poll s =
     (if dhmp_get_dev_from_client devs = None then Inl Null_deref
      else
        let p' = create_connection L (int i) poll (conn s)
        in Inr ((set_trans poll i (snd (dhmp_transport_create L (conn s) False poll)) s)
             \<lparr>conn := p', phase := attempt_phase (conn s) p' (next_trans (conn s)) (phase s), main := Open (Suc i) poll\<rparr>))"

definition wait_step :: "nat \<Rightarrow> bool \<Rightarrow> life \<Rightarrow> life" where
  "wait_step i poll s =
     (case trans_of s poll i of
        None \<Rightarrow> s\<lparr>main := Wait (Suc i) poll\<rparr>
      | Some t \<Rightarrow>
          if state_of s t < DHMP_TRANSPORT_STATE_CONNECTED then s
          else s\<lparr>main := Wait (Suc i) poll, read_mrs := (if poll then read_mrs s else insert i (read_mrs s))\<rparr>)"

definition close_step :: "nat \<Rightarrow> bool \<Rightarrow> life \<Rightarrow> life" where
  "close_step i poll s =
     (case trans_of s poll i of
        None \<Rightarrow> s\<lparr>main := Close (Suc i) poll\<rparr>
      | Some t \<Rightarrow> s\<lparr>main := Close (Suc i) poll,
          asked := (if state_of s t = DHMP_TRANSPORT_STATE_CONNECTED then insert t (asked s) else asked s)\<rparr>)"

definition wait_closed_step :: "nat \<Rightarrow> bool \<Rightarrow> life \<Rightarrow> life" where
  "wait_closed_step i poll s =
     (case trans_of s poll i of
        None \<Rightarrow> s\<lparr>main := Wait_closed (Suc i) poll\<rparr>
      | Some t \<Rightarrow> if state_of s t = DHMP_TRANSPORT_STATE_CONNECTED then s else s\<lparr>main := Wait_closed (Suc i) poll\<rparr>)"

definition main_step :: "nat \<Rightarrow> cm_lib \<Rightarrow> dhmp_device list \<Rightarrow> life \<Rightarrow> life res" where
  "main_step n L devs s =
     (case main s of
        Open i poll \<Rightarrow> if i < n then open_step L devs i poll s else Inr (s\<lparr>main := Wait 0 poll\<rparr>)
      | Wait i poll \<Rightarrow> Inr (if i < n then wait_step i poll s else s\<lparr>main := (if poll then In_use else Open 0 True)\<rparr>)
      | In_use \<Rightarrow> Inr (s\<lparr>conn := (conn s)\<lparr>cm_cli := map_option (\<lambda>c. c\<lparr>cm_prepare_destroy := True\<rparr>) (cm_cli (conn s))\<rparr>, main := Close 0 False\<rparr>)
      | Close i poll \<Rightarrow> Inr (if i < n then close_step i poll s else s\<lparr>main := (if poll then Wait_closed 0 False else Close 0 True)\<rparr>)
      | Wait_closed i poll \<Rightarrow> Inr (if i < n then wait_closed_step i poll s else s\<lparr>main := (if poll then Stop else Wait_closed 0 True)\<rparr>)
      | Stop \<Rightarrow> Inr (s\<lparr>conn := (conn s)\<lparr>ctx_stop := True\<rparr>, main := Join\<rparr>)
      | Join \<Rightarrow> Inr (if epoll s = Ep_ended then s\<lparr>main := Freed\<rparr> else s)
      | Freed \<Rightarrow> Inr s)"

text \<open>An event wakes the event thread only while the channel of the id is in the \<open>epoll\<close> set.\<close>

definition hears :: "rdma_proc \<Rightarrow> nat \<Rightarrow> bool" where
  "hears p h \<longleftrightarrow> fds p (id_chan p h) = Some (Cm_channel (id_chan p h))"

text \<open>
  One step of some thread. The event thread wakes up for a connection event or for a completion (which the main thread here does not
  see), runs handlers, also for further events of channels an earlier handler has taken out of the set, and then tests \<open>stop\<close> once before it waits again. No signal interrupts \<open>epoll_wait\<close>. After \<open>free(client)\<close> nothing is followed.
\<close>

inductive life_step :: "nat \<Rightarrow> dhmp_device list \<Rightarrow> life \<Rightarrow> life \<Rightarrow> bool" for n devs where
  main: "main s \<noteq> Freed \<Longrightarrow> main_step n L devs s = Inr s' \<Longrightarrow> life_step n devs s s'"
| event: "main s \<noteq> Freed \<Longrightarrow> epoll s \<noteq> Ep_ended \<Longrightarrow> event_allowed e (phase s h) \<Longrightarrow>
    (epoll s = Ep_waiting \<Longrightarrow> hears (conn s) h) \<Longrightarrow>
    dhmp_handle_ec_event L e h (conn s) = Inr (p', r) \<Longrightarrow> r \<noteq> 0 \<or> current_id (conn s) e h \<Longrightarrow>
    life_step n devs s (s\<lparr>conn := p', phase := (phase s)(h := next_phase e r), epoll := Ep_handling\<rparr>)"
| wake: "main s \<noteq> Freed \<Longrightarrow> epoll s = Ep_waiting \<Longrightarrow> fds (conn s) fd = Some (Cq_channel d) \<Longrightarrow>
    life_step n devs s (s\<lparr>epoll := Ep_handling\<rparr>)"
| test_stop: "main s \<noteq> Freed \<Longrightarrow> epoll s = Ep_handling \<Longrightarrow>
    life_step n devs s (s\<lparr>epoll := (if ctx_stop (conn s) then Ep_ended else Ep_waiting)\<rparr>)"
| recovery: "main s \<noteq> Freed \<Longrightarrow> cm_cli (conn s) = Some c \<Longrightarrow> t \<in> set (cm_threads c) \<Longrightarrow> recovery_thread L t (conn s) = Inr p' \<Longrightarrow>
    life_step n devs s (s\<lparr>conn := p', phase := attempt_phase (conn s) p' t (phase s)\<rparr>)"

inductive_cases life_step_elim: "life_step n devs s s'"

lemmas life_stepE = life_step_elim [consumes 1, case_names main event wake test_stop recovery]

text \<open>A client that has just been allocated: the configuration is read and nothing is connected.\<close>

definition fresh_client :: "(int \<Rightarrow> string option \<times> int) \<Rightarrow> (nat \<Rightarrow> dhmp_transport) \<Rightarrow> life" where
  "fresh_client nets ts =
     \<lparr>conn = \<lparr>cm_trans = ts, next_trans = 0, next_handle = 0, fds = Map.empty, id_ctx = (\<lambda>_. 0), id_chan = (\<lambda>_. 0),
        id_src = (\<lambda>_. \<lparr>sin_addr = 0, sin_port = 0\<rparr>), id_dst = (\<lambda>_. \<lparr>sin_addr = 0, sin_port = 0\<rparr>), cqs = Map.empty, posted = (\<lambda>_. []),
        released = {}, ctx_stop = False, cm_srv = None,
        cm_cli = Some \<lparr>cm_prepare_destroy = False, cm_in_recovery = False, cm_threads = [], cm_recovered = [], cm_nets = nets\<rparr>\<rparr>,
      phase = (\<lambda>_. Ph_idle), trans_of = (\<lambda>_ _. None), read_mrs = {}, asked = {}, main = Open 0 False, epoll = Ep_waiting\<rparr>"

section \<open>Connections that have come up\<close>

text \<open>A transport is settled once its state has reached \<open>CONNECTED\<close>; it then stays at or above it, or a recovery thread works on it.\<close>

definition settled :: "rdma_proc \<Rightarrow> nat \<Rightarrow> bool" where
  "settled p t \<longleftrightarrow> DHMP_TRANSPORT_STATE_CONNECTED \<le> trans_state (cm_trans p t) \<or> (\<exists>c. cm_cli p = Some c \<and> t \<in> set (cm_threads c))"

lemma route_state:
  assumes "on_cm_route_resolved L t p = Inr (p', r)"
  shows "trans_state (cm_trans p' t) = trans_state (cm_trans p t) \<or> trans_state (cm_trans p' t) = DHMP_TRANSPORT_STATE_ERROR"
proof -
  from assms obtain p1 r1 where q: "dhmp_qp_create L t p = Inr (p1, r1)" by (auto simp: on_cm_route_resolved_def res_simps)
  have q1: "trans_state (cm_trans p1 t) = trans_state (cm_trans p t)"
    using q by (auto simp: dhmp_qp_create_def dhmp_cq_get_def dhmp_context_add_event_fd_def dhmp_context_del_event_fd_def upd_cm_def Let_def split: if_splits)
  have posts: "post_recvs t offs x = Inr y \<Longrightarrow> cm_trans y = cm_trans x" for offs x y
    by (induction offs arbitrary: x) (fastforce simp: dhmp_post_recv_def Let_def res_simps split: if_splits option.splits)+
  show ?thesis
  proof (cases "r1 \<noteq> 0 \<or> lib_connect L = 0")
    case True
    then have "cm_trans p' = cm_trans p1" using assms q posts by (auto simp: on_cm_route_resolved_def res_simps dhmp_post_all_recv_def Let_def split: if_splits)
    then show ?thesis using q1 by simp
  next
    case False
    then show ?thesis using assms q by (auto simp: on_cm_route_resolved_def res_simps upd_cm_def)
  qed
qed

lemma event_state:
  assumes "dhmp_handle_ec_event L e h p = Inr (p', r)" "e \<noteq> RDMA_CM_EVENT_CONNECT_REQUEST" "t = id_ctx p h"
    and "DHMP_TRANSPORT_STATE_CONNECTED \<le> trans_state (cm_trans p t)"
  shows "DHMP_TRANSPORT_STATE_CONNECTED \<le> trans_state (cm_trans p' t)"
proof (cases e)
  case RDMA_CM_EVENT_ROUTE_RESOLVED
  then have "on_cm_route_resolved L t p = Inr (p', r)" using assms(1,3) by (simp add: dhmp_handle_ec_event_def)
  from route_state[OF this] show ?thesis using assms(4) by (auto simp: state_order)
next
  case RDMA_CM_EVENT_ESTABLISHED
  then show ?thesis using assms(1,3) by (auto simp: dhmp_handle_ec_event_def on_cm_established_def upd_cm_def Let_def split: option.splits)
next
  case RDMA_CM_EVENT_DISCONNECTED
  then have d: "on_cm_disconnected t p = Inr (p', r)" using assms(1,3) by (simp add: dhmp_handle_ec_event_def)
  have "trans_state (cm_trans p' t) = DHMP_TRANSPORT_STATE_DISCONNECTED"
    by (rule disconnected_cases[OF d, where X = "{}"]) (use destroy_trans in auto)
  then show ?thesis by (simp add: state_order)
next
  case RDMA_CM_EVENT_CONNECT_ERROR
  then have d: "on_cm_error t p = Inr (p', r)" using assms(1,3) by (simp add: dhmp_handle_ec_event_def)
  then obtain p1 where "dhmp_destroy_source t p = Inr p1" by (auto simp: on_cm_error_def res_simps)
  then have "trans_state (cm_trans p' t) = DHMP_TRANSPORT_STATE_ERROR"
    using d by (cases "cm_srv p1") (auto simp: on_cm_error_def upd_cm_def Let_def dhmp_inform_watcher_func_def split: if_splits)
  then show ?thesis by (simp add: state_order)
qed (use assms in \<open>auto simp: dhmp_handle_ec_event_def on_cm_addr_resolved_def split: if_splits\<close>)

lemma event_threads:
  assumes "dhmp_handle_ec_event L e h p = Inr (p', r)" "e \<noteq> RDMA_CM_EVENT_CONNECT_REQUEST" "cm_cli p = Some c"
  shows "\<exists>c'. cm_cli p' = Some c' \<and> set (cm_threads c) \<subseteq> set (cm_threads c') \<and> set (cm_threads c') \<subseteq> insert (id_ctx p h) (set (cm_threads c))"
proof (cases "e = RDMA_CM_EVENT_DISCONNECTED")
  case True
  then have d: "on_cm_disconnected (id_ctx p h) p = Inr (p', r)" using assms(1) by (simp add: dhmp_handle_ec_event_def)
  show ?thesis by (rule disconnected_cases[OF d, where X = "{}"]) (use assms(3) globals_destroy in \<open>auto simp: same_globals_def\<close>)
next
  case False
  then show ?thesis using event_frame(2)[OF assms(1,2)] assms(3) by auto
qed

lemma settled_event:
  assumes "dhmp_handle_ec_event L e h p = Inr (p', r)" "e \<noteq> RDMA_CM_EVENT_CONNECT_REQUEST" "cm_cli p = Some c" "settled p t" "t < next_trans p"
  shows "settled p' t"
proof (cases "\<exists>c. cm_cli p = Some c \<and> t \<in> set (cm_threads c)")
  case True
  then show ?thesis using event_threads[OF assms(1-3)] assms(3) by (auto simp: settled_def)
next
  case False
  then have "DHMP_TRANSPORT_STATE_CONNECTED \<le> trans_state (cm_trans p t)" using assms(4) unfolding settled_def by blast
  then show ?thesis
    using event_state[OF assms(1,2)] event_frame(1)[OF assms(1,2)] assms(5) by (cases "t = id_ctx p h") (auto simp: settled_def grows_def)
qed

lemma settled_grows:
  "settled p t \<Longrightarrow> t < next_trans p \<Longrightarrow> grows {} X p p' \<Longrightarrow> cm_cli p' = cm_cli p \<Longrightarrow> settled p' t"
  by (auto simp: settled_def grows_def)

lemma settled_recovery:
  assumes "recovery_thread L u p = Inr p'" "cm_cli p = Some c" "u \<in> set (cm_threads c)" "settled p t" "t < next_trans p"
  shows "settled p' t"
proof (cases "trans_state (cm_trans p u) = DHMP_TRANSPORT_STATE_CONNECTED")
  case True
  then show ?thesis using assms by (cases "t = u") (auto simp: recovery_thread_def settled_def)
next
  case False
  then have r: "reconnect L u p = Inr p'" using assms(1) by (simp add: recovery_thread_def)
  note f = reconnect_frame(1)[OF r, of "{}"] reconnect_frame(2)[OF r]
  show ?thesis using f assms(2-5) by (cases "t = u") (auto simp: settled_def grows_def same_globals_def)
qed

section \<open>What every state of a client satisfies\<close>

text \<open>\<open>waited\<close>: the main thread has waited for the connection of node \<open>i\<close>; \<open>returned\<close>: \<open>dhmp_client_init\<close> is over.\<close>

definition waited :: "life \<Rightarrow> bool \<Rightarrow> nat \<Rightarrow> bool" where
  "waited s poll i \<longleftrightarrow> (case main s of Open j p \<Rightarrow> p \<and> \<not> poll | Wait j p \<Rightarrow> p \<and> \<not> poll \<or> p = poll \<and> i < j | _ \<Rightarrow> True)"

definition returned :: "life \<Rightarrow> bool" where
  "returned s \<longleftrightarrow> (case main s of Open j p \<Rightarrow> False | Wait j p \<Rightarrow> False | _ \<Rightarrow> True)"

definition conn_inv :: "rdma_proc \<Rightarrow> (nat \<Rightarrow> cm_phase) \<Rightarrow> bool" where
  "conn_inv p ph \<longleftrightarrow> (\<exists>c. cm_cli p = Some c \<and> (\<forall>t \<in> set (cm_threads c). t < next_trans p)) \<and> env_ok p ph \<and>
     (\<forall>h. live (ph h) \<longrightarrow> id_ctx p h < next_trans p) \<and>
     (\<forall>h h'. live (ph h) \<longrightarrow> live (ph h') \<longrightarrow> id_ctx p h = id_ctx p h' \<longrightarrow> \<not> settled p (id_ctx p h) \<longrightarrow> h = h')"

definition life_inv :: "nat \<Rightarrow> life \<Rightarrow> bool" where
  "life_inv n s \<longleftrightarrow> conn_inv (conn s) (phase s) \<and>
     (\<forall>poll i t. trans_of s poll i = Some t \<longrightarrow> t < next_trans (conn s)) \<and>
     (\<forall>poll i t. i < n \<longrightarrow> waited s poll i \<longrightarrow> trans_of s poll i = Some t \<longrightarrow> settled (conn s) t \<and> (\<not> poll \<longrightarrow> i \<in> read_mrs s))"

lemma conn_inv_ids:
  assumes "conn_inv p ph" "grows T {} p p'" "live (ph h)"
  shows "h < next_handle p" "id_ctx p' h = id_ctx p h" "id_ctx p h < next_trans p'"
proof -
  show "h < next_handle p" using assms(1,3) by (auto simp: conn_inv_def env_ok_def)
  then show "id_ctx p' h = id_ctx p h" using assms(2) by (simp add: grows_def)
  have "id_ctx p h < next_trans p" using assms(1,3) by (auto simp: conn_inv_def)
  then show "id_ctx p h < next_trans p'" using assms(2) by (simp add: grows_def)
qed


lemma conn_inv_event:
  assumes inv: "conn_inv p ph" and e: "dhmp_handle_ec_event L e h p = Inr (p', r)" "event_allowed e (ph h)"
  shows "conn_inv p' (ph(h := x))" "grows {id_ctx p h} {} p p'" "\<And>t. settled p t \<Longrightarrow> t < next_trans p \<Longrightarrow> settled p' t"
proof -
  have req: "e \<noteq> RDMA_CM_EVENT_CONNECT_REQUEST" using e(2) by auto
  have lv: "live (ph h)" by (rule allowed_live[OF e(2)])
  show g: "grows {id_ctx p h} {} p p'" by (rule event_frame(1)[OF e(1) req])
  obtain c where c: "cm_cli p = Some c" "\<forall>t \<in> set (cm_threads c). t < next_trans p" using inv by (auto simp: conn_inv_def)
  show st: "\<And>t. settled p t \<Longrightarrow> t < next_trans p \<Longrightarrow> settled p' t" by (rule settled_event[OF e(1) req c(1)])
  obtain c' where c': "cm_cli p' = Some c'" "set (cm_threads c') \<subseteq> insert (id_ctx p h) (set (cm_threads c))"
    using event_threads[OF e(1) req c(1)] by auto
  note ids = conn_inv_ids[OF inv g]
  have old: "live (ph k)" if "live ((ph(h := x)) k)" for k using that lv by (auto split: if_splits)
  have "\<forall>t \<in> set (cm_threads c'). t < next_trans p'" using c(2) c'(2) ids(3)[OF lv] g by (fastforce simp: grows_def)
  moreover have "env_ok p' (ph(h := x))" unfolding env_ok_def using ids(1)[OF old] g by (fastforce simp: grows_def)
  moreover have "k = k'" if "live ((ph(h := x)) k)" "live ((ph(h := x)) k')" "id_ctx p' k = id_ctx p' k'" "\<not> settled p' (id_ctx p' k)" for k k'
  proof -
    note o = old[OF that(1)] old[OF that(2)]
    have "\<not> settled p (id_ctx p k)" using st[of "id_ctx p k"] that(4) ids(2)[OF o(1)] inv o(1) by (auto simp: conn_inv_def)
    then show ?thesis using inv o that(3) ids(2)[OF o(1)] ids(2)[OF o(2)] unfolding conn_inv_def by auto
  qed
  moreover have "id_ctx p' k < next_trans p'" if "live ((ph(h := x)) k)" for k using ids(2,3)[OF old[OF that]] by simp
  ultimately show "conn_inv p' (ph(h := x))" using c'(1) unfolding conn_inv_def by blast
qed

lemma attempt_cases:
  obtains "attempt_phase p p' t ph = ph"
  | h where "next_handle p \<le> h" "h < next_handle p'" "id_ctx p' h = t" "attempt_phase p p' t ph = ph(h := Ph_addr)"
proof -
  have "attempt_phase p p' t ph = ph \<or> (\<exists>h. next_handle p \<le> h \<and> h < next_handle p' \<and> id_ctx p' h = t \<and> attempt_phase p p' t ph = ph(h := Ph_addr))"
    unfolding attempt_phase_def by (cases "cm_id (cm_trans p' t)") auto
  then show thesis using that by blast
qed

text \<open>An attempt adds an id to a transport that has none, or that is settled.\<close>

lemma conn_inv_attempt:
  assumes inv: "conn_inv p ph" and g: "grows T {} p p'" and t: "t < next_trans p'" "settled p' t \<or> next_trans p \<le> t"
    and c: "\<exists>c. cm_cli p' = Some c \<and> (\<forall>t \<in> set (cm_threads c). t < next_trans p')"
    and st: "\<And>u. settled p u \<Longrightarrow> u < next_trans p \<Longrightarrow> settled p' u"
  shows "conn_inv p' (attempt_phase p p' t ph)"
proof -
  note ids = conn_inv_ids[OF inv g]
  have le: "next_handle p \<le> next_handle p'" using g by (simp add: grows_def)
  have lt: "id_ctx p k < next_trans p" if "live (ph k)" for k using inv that by (auto simp: conn_inv_def)
  have uniq: "k = k'" if "live (ph k)" "live (ph k')" "id_ctx p' k = id_ctx p' k'" "\<not> settled p' (id_ctx p' k)" for k k'
  proof -
    have "\<not> settled p (id_ctx p k)" using st[OF _ lt[OF that(1)]] that(4) ids(2)[OF that(1)] by auto
    then show ?thesis using inv that ids(2)[OF that(1)] ids(2)[OF that(2)] unfolding conn_inv_def by auto
  qed
  show ?thesis
  proof (cases rule: attempt_cases[of p p' t ph])
    case 1
    have "env_ok p' ph" unfolding env_ok_def using ids(1) le by (meson less_le_trans)
    then show ?thesis using 1 c ids uniq unfolding conn_inv_def by auto
  next
    case (2 h)
    have "env_ok p' (ph(h := Ph_addr))" unfolding env_ok_def using ids(1) le 2(2) by (auto intro: less_le_trans)
    moreover have "id_ctx p' k < next_trans p'" if "live ((ph(h := Ph_addr)) k)" for k
      using that ids(2,3)[of k] 2(3) t(1) by (auto split: if_splits)
    moreover have "k = k'" if k: "live ((ph(h := Ph_addr)) k)" "live ((ph(h := Ph_addr)) k')" "id_ctx p' k = id_ctx p' k'" "\<not> settled p' (id_ctx p' k)" for k k'
    proof -
      have old: "id_ctx p' j < next_trans p" if "live (ph j)" for j using lt[OF that] ids(2)[OF that] by simp
      show ?thesis
      proof (cases "k = h \<or> k' = h")
        case True
        then have "next_trans p \<le> t" "id_ctx p' k = t" using k(3,4) t(2) 2(3) by auto
        then have "\<not> live (ph k)" "\<not> live (ph k')" using old k(3) by fastforce+
        then have "k = h" "k' = h" using k(1,2) by (auto split: if_splits)
        then show ?thesis by simp
      next
        case False
        then show ?thesis using uniq k by auto
      qed
    qed
    ultimately show ?thesis unfolding 2(4) conn_inv_def using c by blast
  qed
qed

lemma create_next: "next_trans (create_connection L i poll p) = Suc (next_trans p)"
proof -
  obtain p1 o1 where c: "dhmp_transport_create L p False poll = (p1, o1)" by fastforce
  have n: "next_trans p1 = Suc (next_trans p)" using grows_create[OF c, of "{}" "{}"] by simp
  have "next_trans (fst (dhmp_transport_connect L t url port q)) = next_trans q" for t url port q
    by (auto simp: dhmp_transport_connect_def dhmp_port_uri_transfer_def new_cm_id_def upd_cm_def Let_def split: option.splits prod.splits)
  then show ?thesis using n by (auto simp: create_connection_def c upd_cm_def split: option.splits prod.splits)
qed

lemma create_none: "snd (dhmp_transport_create L p False poll) = Some t \<Longrightarrow> t = next_trans p"
  using grows_create[of L p False poll] by (cases "dhmp_transport_create L p False poll") auto

lemma conn_inv_open:
  assumes "conn_inv p ph"
  shows "conn_inv (create_connection L i poll p) (attempt_phase p (create_connection L i poll p) (next_trans p) ph)"
    "\<And>t. settled p t \<Longrightarrow> t < next_trans p \<Longrightarrow> settled (create_connection L i poll p) t"
proof -
  let ?p = "create_connection L i poll p"
  have g: "grows {} {} p ?p" "cm_cli ?p = cm_cli p" using create_frame[of L i poll p ?p] by (simp_all add: same_globals_def)
  show st: "\<And>t. settled p t \<Longrightarrow> t < next_trans p \<Longrightarrow> settled ?p t" by (rule settled_grows[OF _ _ g])
  obtain c where c: "cm_cli p = Some c" "\<forall>t \<in> set (cm_threads c). t < next_trans p" using assms by (auto simp: conn_inv_def)
  show "conn_inv ?p (attempt_phase p ?p (next_trans p) ph)"
    by (rule conn_inv_attempt[OF assms g(1) _ _ _ st]) (use c g(2) create_next in \<open>auto intro: less_SucI\<close>)
qed

lemma conn_inv_recovery:
  assumes inv: "conn_inv p ph" and c: "cm_cli p = Some c" "t \<in> set (cm_threads c)" and r: "recovery_thread L t p = Inr p'"
  shows "conn_inv p' (attempt_phase p p' t ph)" "next_trans p \<le> next_trans p'" "\<And>u. settled p u \<Longrightarrow> u < next_trans p \<Longrightarrow> settled p' u"
proof -
  show st: "\<And>u. settled p u \<Longrightarrow> u < next_trans p \<Longrightarrow> settled p' u" by (rule settled_recovery[OF r c])
  have ct: "\<forall>u \<in> set (cm_threads c). u < next_trans p" using inv c(1) by (auto simp: conn_inv_def)
  have f: "grows {t} {} p p'" "\<exists>c'. cm_cli p' = Some c' \<and> set (cm_threads c') \<subseteq> set (cm_threads c)"
  proof -
    have "grows {t} {} p p' \<and> (\<exists>c'. cm_cli p' = Some c' \<and> set (cm_threads c') \<subseteq> set (cm_threads c))"
    proof (cases "trans_state (cm_trans p t) = DHMP_TRANSPORT_STATE_CONNECTED")
      case True
      then have e: "p' = p\<lparr>cm_cli := Some (c\<lparr>cm_recovered := node_id (cm_trans p t) # cm_recovered c, cm_in_recovery := False,
             cm_threads := remove1 t (cm_threads c)\<rparr>)\<rparr>" using r c by (simp add: recovery_thread_def)
      then show ?thesis using set_remove1_subset[of t "cm_threads c"] by (auto simp: grows_def)
    next
      case False
      then have "reconnect L t p = Inr p'" using r by (simp add: recovery_thread_def)
      from reconnect_frame(1,2)[OF this] show ?thesis using c(1) by (auto simp: same_globals_def)
    qed
    then show "grows {t} {} p p'" "\<exists>c'. cm_cli p' = Some c' \<and> set (cm_threads c') \<subseteq> set (cm_threads c)" by blast+
  qed
  show le: "next_trans p \<le> next_trans p'" using f(1) by (simp add: grows_def)
  have tn: "t < next_trans p" using ct c(2) by blast
  have "settled p t" using c by (auto simp: settled_def)
  then have s': "settled p' t" by (rule st[OF _ tn])
  have "\<exists>c. cm_cli p' = Some c \<and> (\<forall>u \<in> set (cm_threads c). u < next_trans p')" using f(2) ct le by (meson less_le_trans subsetD)
  then show "conn_inv p' (attempt_phase p p' t ph)"
    using conn_inv_attempt[OF inv f(1) less_le_trans[OF tn le] disjI1[OF s'] _ st] by blast
qed

lemma conn_inv_flags:
  assumes "conn_inv p ph"
  shows "conn_inv (p\<lparr>ctx_stop := b\<rparr>) ph" "conn_inv (p\<lparr>cm_cli := map_option (\<lambda>c. c\<lparr>cm_prepare_destroy := b\<rparr>) (cm_cli p)\<rparr>) ph"
    "settled (p\<lparr>ctx_stop := b\<rparr>) t = settled p t"
    "settled (p\<lparr>cm_cli := map_option (\<lambda>c. c\<lparr>cm_prepare_destroy := b\<rparr>) (cm_cli p)\<rparr>) t = settled p t"
  using assms by (auto simp: conn_inv_def settled_def env_ok_def)

text \<open>What a step does to the connections, seen from outside.\<close>

lemma life_conn:
  assumes "life_step n devs s s'" "conn_inv (conn s) (phase s)"
  shows "conn_inv (conn s') (phase s')" "next_trans (conn s) \<le> next_trans (conn s')"
    "\<And>t. settled (conn s) t \<Longrightarrow> t < next_trans (conn s) \<Longrightarrow> settled (conn s') t"
proof -
  have "conn_inv (conn s') (phase s') \<and> next_trans (conn s) \<le> next_trans (conn s') \<and>
      (\<forall>t. settled (conn s) t \<longrightarrow> t < next_trans (conn s) \<longrightarrow> settled (conn s') t)"
    using assms(1)
  proof (cases rule: life_stepE)
    case (main L)
    show ?thesis
    proof (cases "\<exists>i poll. main s = Open i poll \<and> i < n")
      case True
      then show ?thesis using main(2) conn_inv_open[OF assms(2)] create_next
        by (auto simp: main_step_def open_step_def set_trans_def Let_def split: if_splits)
    next
      case False
      then have "conn s' = conn s \<or> (\<exists>b. conn s' = (conn s)\<lparr>ctx_stop := b\<rparr>) \<or>
          (\<exists>b. conn s' = (conn s)\<lparr>cm_cli := map_option (\<lambda>c. c\<lparr>cm_prepare_destroy := b\<rparr>) (cm_cli (conn s))\<rparr>)"
        "phase s' = phase s"
        using main(2) by (auto simp: main_step_def wait_step_def close_step_def wait_closed_step_def split: main_pc.splits if_splits option.splits)
      then show ?thesis using conn_inv_flags[OF assms(2)] assms(2) by auto
    qed
  next
    case (event e h L p' r)
    note c = conn_inv_event[OF assms(2) event(6,4)]
    then show ?thesis using event(1) c(2) by (auto simp: grows_def)
  next
    case (recovery c t L p')
    then show ?thesis using conn_inv_recovery[OF assms(2) recovery(3-5)] by auto
  qed (use assms(2) in auto)
  then show "conn_inv (conn s') (phase s')" "next_trans (conn s) \<le> next_trans (conn s')"
    "\<And>t. settled (conn s) t \<Longrightarrow> t < next_trans (conn s) \<Longrightarrow> settled (conn s') t" by blast+
qed


lemma other_step_same:
  assumes "life_step n devs s s'"
  obtains "trans_of s' = trans_of s" "main s' = main s" "read_mrs s' = read_mrs s" "asked s' = asked s"
  | L where "main_step n L devs s = Inr s'"
  using assms by (cases rule: life_stepE) auto

lemma returned_step:
  assumes "main_step n L devs s = Inr s'" "returned s"
  shows "returned s'" "trans_of s' = trans_of s" "read_mrs s' = read_mrs s" "phase s' = phase s" "epoll s' = epoll s"
    "\<And>t. trans_state (cm_trans (conn s') t) = trans_state (cm_trans (conn s) t)"
  using assms
  by (cases "main s"; simp add: main_step_def returned_def close_step_def wait_closed_step_def split: if_splits option.splits; fastforce)+

lemma waited_returned: "returned s \<Longrightarrow> waited s poll i"
  by (cases "main s") (auto simp: returned_def waited_def)

lemma life_inv_step:
  assumes "life_step n devs s s'" "life_inv n s"
  shows "life_inv n s'"
proof -
  note inv = assms(2)[unfolded life_inv_def]
  note c = life_conn[OF assms(1)]
  have old: "trans_of s poll i = Some t \<Longrightarrow> t < next_trans (conn s')" for poll i t using inv c(2) by (meson less_le_trans)
  have keep: "settled (conn s') t \<and> (\<not> poll \<longrightarrow> i \<in> read_mrs s')"
    if "i < n" "waited s poll i" "trans_of s poll i = Some t" "read_mrs s \<subseteq> read_mrs s'" for poll i t
    using inv that c(3) by blast
  show ?thesis
  proof (cases rule: other_step_same[OF assms(1)])
    case 1
    then show ?thesis using inv c(1) old keep by (auto simp: life_inv_def waited_def)
  next
    case (2 L)
    show ?thesis
    proof (cases "main s")
      case (Open j p)
      show ?thesis
      proof (cases "j < n")
        case True
        then have e: "main s' = Open (Suc j) p" "read_mrs s' = read_mrs s" "next_trans (conn s') = Suc (next_trans (conn s))"
          "trans_of s' = (trans_of s)(p := (trans_of s p)(j := snd (dhmp_transport_create L (conn s) False p)))"
          using 2 Open by (auto simp: main_step_def open_step_def set_trans_def Let_def create_next split: if_splits)
        have "t < next_trans (conn s')" if "trans_of s' q i = Some t" for q i t
          using that old[of q i t] create_none[of L "conn s" p t] e(3,4) by (auto split: if_splits)
        moreover have "settled (conn s') t \<and> (\<not> q \<longrightarrow> i \<in> read_mrs s')" if "i < n" "waited s' q i" "trans_of s' q i = Some t" for q i t
          using that keep[of i q t] e Open by (auto simp: waited_def)
        ultimately show ?thesis using c(1) inv unfolding life_inv_def by blast
      next
        case False
        then have "s' = s\<lparr>main := Wait 0 p\<rparr>" using 2 Open by (simp add: main_step_def)
        then show ?thesis using inv c(1) Open by (auto simp: life_inv_def waited_def)
      qed
    next
      case (Wait j p)
      show ?thesis
      proof (cases "j < n")
        case True
        then have e: "s' = wait_step j p s" using 2 Wait by (simp add: main_step_def)
        show ?thesis
        proof (cases "s' = s")
          case False
          then have m: "main s' = Wait (Suc j) p" "trans_of s' = trans_of s" "conn s' = conn s" "read_mrs s \<subseteq> read_mrs s'"
            and up: "trans_of s p j = Some t \<Longrightarrow> settled (conn s) t \<and> (\<not> p \<longrightarrow> j \<in> read_mrs s')" for t
            using e by (auto simp: wait_step_def settled_def state_of_def split: option.splits if_splits)
          have "settled (conn s') t \<and> (\<not> q \<longrightarrow> i \<in> read_mrs s')" if "i < n" "waited s' q i" "trans_of s' q i = Some t" for q i t
          proof (cases "waited s q i")
            case True
            then show ?thesis using keep[OF that(1) True] that(3) m by simp
          next
            case False
            then have "q = p" "i = j" using that(2) m(1) Wait by (auto simp: waited_def less_Suc_eq)
            then show ?thesis using up that(3) m by simp
          qed
          then show ?thesis using c(1) inv old unfolding life_inv_def m(2) by blast
        qed (use assms(2) in simp)
      next
        case False
        then have "s' = s\<lparr>main := (if p then In_use else Open 0 True)\<rparr>" using 2 Wait by (simp add: main_step_def)
        then show ?thesis using inv c(1) Wait False by (cases p) (auto simp: life_inv_def waited_def)
      qed
    qed (use 2 returned_step[OF 2] waited_returned[of s] inv c(1) old keep in \<open>auto simp: life_inv_def returned_def\<close>)
  qed
qed


lemma life_inv_start: "life_inv n (fresh_client nets ts)"
  by (simp add: life_inv_def conn_inv_def env_ok_def live_def waited_def fresh_client_def)

lemma life_inv_reach: "(life_step n devs)\<^sup>*\<^sup>* (fresh_client nets ts) s \<Longrightarrow> life_inv n s"
  by (induction rule: rtranclp_induct) (auto intro: life_inv_start life_inv_step)


section \<open>What the main thread waits for\<close>





text \<open>Nothing can wake an event thread that waits with an empty \<open>epoll\<close> set.\<close>

definition asleep :: "life \<Rightarrow> bool" where
  "asleep s \<longleftrightarrow> epoll s = Ep_waiting \<and> fds (conn s) = Map.empty \<and> (\<forall>c. cm_cli (conn s) = Some c \<longrightarrow> cm_threads c = []) \<and>
     (main s = Stop \<or> main s = Join)"

lemma asleep_step:
  assumes "life_step n devs s s'" "asleep s"
  shows "asleep s'"
  using assms(1)
  by (cases rule: life_stepE) (use assms(2) in \<open>auto simp: asleep_def main_step_def hears_def\<close>)

section \<open>A run in which every connection comes up\<close>

definition lib_good :: "cm_lib \<Rightarrow> bool" where
  "lib_good L \<longleftrightarrow> lib_event_channel L \<and> lib_fcntl L \<and> lib_epoll_add L = 0 \<and> (\<forall>k. lib_malloc L k) \<and> (\<forall>k. lib_reg_mr L k) \<and> lib_comp_channel L \<and>
     lib_cq_fcntl L \<and> lib_create_cq L \<and> lib_req_notify L = 0 \<and> lib_create_qp L = 0 \<and> lib_create_id L = 0 \<and> lib_resolve_addr L = 0 \<and>
     lib_resolve_route L = 0 \<and> lib_connect L = 0 \<and> (\<forall>u. 0 < fst (lib_pton L u))"

definition nets_good :: "nat \<Rightarrow> (int \<Rightarrow> string option \<times> int) \<Rightarrow> bool" where
  "nets_good n nets \<longleftrightarrow> (\<forall>i < n. \<exists>u port. nets (int i) = (Some u, port) \<and> 0 < port)"

text \<open>A transport with an id that is being resolved, and everything at hand to bring it up.\<close>

definition ready :: "rdma_proc \<Rightarrow> (nat \<Rightarrow> cm_phase) \<Rightarrow> nat \<Rightarrow> nat \<Rightarrow> bool" where
  "ready p ph t h \<longleftrightarrow> cm_id (cm_trans p t) = Some h \<and> id_ctx p h = t \<and> ph h = Ph_addr \<and> event_channel (cm_trans p t) = Some (id_chan p h) \<and>
     hears p h \<and> id_chan p h < next_handle p \<and> recv_mr (cm_trans p t) \<noteq> None \<and> t \<notin> released p \<and>
     trans_state (cm_trans p t) = DHMP_TRANSPORT_STATE_CONNECTING"

text \<open>What bringing up \<open>t\<close> leaves alone.\<close>

definition beside :: "nat \<Rightarrow> rdma_proc \<Rightarrow> rdma_proc \<Rightarrow> bool" where
  "beside t p p' \<longleftrightarrow> (\<forall>u. u \<noteq> t \<longrightarrow> cm_trans p' u = cm_trans p u) \<and> id_ctx p' = id_ctx p \<and> id_chan p' = id_chan p \<and>
     (\<forall>c < next_handle p. fds p' c = fds p c) \<and> next_handle p \<le> next_handle p' \<and> released p' = released p \<and>
     next_trans p' = next_trans p \<and> cm_cli p' = cm_cli p"

lemma ready_beside: "ready p ph u k \<Longrightarrow> beside t p p' \<Longrightarrow> u \<noteq> t \<Longrightarrow> ph' k = ph k \<Longrightarrow> ready p' ph' u k"
  by (auto simp: ready_def beside_def hears_def)

lemma route_up:
  assumes "ready p ph t h" "lib_good L"
  shows "\<exists>p'. on_cm_route_resolved L t p = Inr (p', 0) \<and> beside t p p' \<and> cm_id (cm_trans p' t) = Some h \<and> event_channel (cm_trans p' t) = Some (id_chan p h)"
proof -
  let ?d = "next_handle p"
  let ?p1 = "(upd_cm (p\<lparr>next_handle := Suc (Suc ?d), fds := (fds p)(Suc ?d \<mapsto> Cq_channel ?d), cqs := (cqs p)(?d \<mapsto> Suc ?d)\<rparr>) t
      (\<lambda>r. r\<lparr>qp := Some (Suc (Suc ?d)), dcq := Some ?d\<rparr>))\<lparr>next_handle := Suc (Suc (Suc ?d)), posted := (posted p)(Suc (Suc ?d) := [])\<rparr>"
  have q: "dhmp_qp_create L t p = Inr (?p1, 0)"
    using assms by (simp add: dhmp_qp_create_def dhmp_cq_get_def dhmp_context_add_event_fd_def lib_good_def ready_def Let_def upd_cm_def)
  have "takes t (Suc (Suc ?d)) ?p1" using assms(1) by (simp add: takes_def ready_def upd_cm_def state_order)
  then obtain posts where "dhmp_post_all_recv t ?p1 = Inr (?p1\<lparr>posted := posts\<rparr>)"
    using posts_run[of t "Suc (Suc ?d)" ?p1] assms(1) by (fastforce simp: ready_def upd_cm_def dhmp_post_all_recv_def Let_def)
  then have "on_cm_route_resolved L t p = Inr (?p1\<lparr>posted := posts\<rparr>, 0)"
    using assms(2) by (simp add: on_cm_route_resolved_def q lib_good_def)
  moreover have "beside t p (?p1\<lparr>posted := posts\<rparr>)" by (auto simp: beside_def upd_cm_def)
  ultimately show ?thesis using assms(1) by (auto simp: ready_def upd_cm_def)
qed


abbreviation life_run :: "nat \<Rightarrow> dhmp_device list \<Rightarrow> life \<Rightarrow> life \<Rightarrow> bool" where
  "life_run n devs \<equiv> (life_step n devs)\<^sup>*\<^sup>*"

text \<open>The three events that bring a connection up, one after the other.\<close>

lemma bring_up:
  assumes r: "ready (conn s) (phase s) t h" and L: "lib_good L" and s: "main s \<noteq> Freed" "epoll s \<noteq> Ep_ended"
  shows "\<exists>p'. life_run n devs s (s\<lparr>conn := p', phase := (phase s)(h := Ph_up), epoll := Ep_handling\<rparr>) \<and> beside t (conn s) p' \<and>
    trans_state (cm_trans p' t) = DHMP_TRANSPORT_STATE_CONNECTED"
proof -
  let ?p = "conn s" and ?ph = "phase s"
  let ?s1 = "s\<lparr>conn := ?p, phase := ?ph(h := Ph_route), epoll := Ep_handling\<rparr>"
  have a: "dhmp_handle_ec_event L RDMA_CM_EVENT_ADDR_RESOLVED h ?p = Inr (?p, 0)"
    using r L by (simp add: dhmp_handle_ec_event_def on_cm_addr_resolved_def ready_def lib_good_def)
  have "event_allowed RDMA_CM_EVENT_ADDR_RESOLVED (?ph h)" "hears ?p h" "0 \<noteq> (0::int) \<or> current_id ?p RDMA_CM_EVENT_ADDR_RESOLVED h"
    using r by (simp_all add: ready_def current_id_def)
  from life_step.event[OF s this(1,2) a this(3), of n devs] have s1: "life_step n devs s ?s1" by simp
  obtain p2 where p2: "on_cm_route_resolved L t ?p = Inr (p2, 0)" "beside t ?p p2" "cm_id (cm_trans p2 t) = Some h"
    "event_channel (cm_trans p2 t) = Some (id_chan ?p h)" using route_up[OF r L] by blast
  let ?s2 = "s\<lparr>conn := p2, phase := ?ph(h := Ph_connecting), epoll := Ep_handling\<rparr>"
  have b: "dhmp_handle_ec_event L RDMA_CM_EVENT_ROUTE_RESOLVED h ?p = Inr (p2, 0)"
    using r p2(1) by (simp add: dhmp_handle_ec_event_def ready_def)
  have "life_step n devs ?s1 (?s1\<lparr>conn := p2, phase := (phase ?s1)(h := next_phase RDMA_CM_EVENT_ROUTE_RESOLVED 0), epoll := Ep_handling\<rparr>)"
    by (rule life_step.event) (use r s b in \<open>simp_all add: ready_def current_id_def\<close>)
  then have s2: "life_step n devs ?s1 ?s2" by simp
  let ?p3 = "upd_cm p2 t (\<lambda>x. x\<lparr>local_addr := id_src p2 h, peer_addr := id_dst p2 h, trans_state := DHMP_TRANSPORT_STATE_CONNECTED\<rparr>)"
  have h2: "id_ctx p2 h = t" "hears p2 h" using r p2(2) by (auto simp: ready_def beside_def hears_def)
  have c: "dhmp_handle_ec_event L RDMA_CM_EVENT_ESTABLISHED h p2 = Inr (?p3, 0)"
    using h2 p2(3) by (simp add: dhmp_handle_ec_event_def on_cm_established_def Let_def)
  have "life_step n devs ?s2 (?s2\<lparr>conn := ?p3, phase := (phase ?s2)(h := next_phase RDMA_CM_EVENT_ESTABLISHED 0), epoll := Ep_handling\<rparr>)"
    by (rule life_step.event) (use h2 s c in \<open>simp_all add: current_id_def\<close>)
  then have s3: "life_step n devs ?s2 (s\<lparr>conn := ?p3, phase := ?ph(h := Ph_up), epoll := Ep_handling\<rparr>)" by simp
  have "beside t ?p ?p3" using p2(2) by (simp add: beside_def upd_cm_def)
  moreover have "trans_state (cm_trans ?p3 t) = DHMP_TRANSPORT_STATE_CONNECTED" by (simp add: upd_cm_def)
  ultimately show ?thesis using s1 s2 s3 by (meson rtranclp.rtrancl_into_rtrancl rtranclp.rtrancl_refl)
qed

text \<open>Opening a connection.\<close>

lemma open_ready:
  assumes L: "lib_good L" and c: "cm_cli p = Some c" "cm_nets c i = (Some u, port)" "0 < port" "next_trans p \<notin> released p"
  shows "\<exists>h. ready (create_connection L i poll p) (attempt_phase p (create_connection L i poll p) (next_trans p) ph) (next_trans p) h \<and>
      next_handle p \<le> h \<and> h < next_handle (create_connection L i poll p) \<and>
      attempt_phase p (create_connection L i poll p) (next_trans p) ph = ph(h := Ph_addr)"
    "snd (dhmp_transport_create L p False poll) = Some (next_trans p)"
    "released (create_connection L i poll p) = released p"
    "\<And>v. v \<noteq> next_trans p \<Longrightarrow> cm_trans (create_connection L i poll p) v = cm_trans p v"
    "\<And>k. k < next_handle p \<Longrightarrow> id_ctx (create_connection L i poll p) k = id_ctx p k \<and> id_chan (create_connection L i poll p) k = id_chan p k \<and>
       fds (create_connection L i poll p) k = fds p k"
    "next_handle p \<le> next_handle (create_connection L i poll p)"
proof -
  obtain r a where pt: "lib_pton L u = (r, a)" "0 < r" using L by (metis lib_good_def prod.collapse)
  let ?t = "next_trans p" and ?c = "next_handle p"
  have mr: "dhmp_memory_register L len = Some \<lparr>cur_pos = 0, dmr_addr = fst (lib_region L), dmr_lkey = snd (lib_region L)\<rparr>" for len
    using L by (simp add: dhmp_memory_register_def lib_good_def)
  note defs = create_connection_def dhmp_transport_create_def dhmp_event_channel_create_def dhmp_context_add_event_fd_def Let_def
    dhmp_transport_connect_def dhmp_port_uri_transfer_def new_cm_id_def mr
  let ?p = "create_connection L i poll p"
  have e: "cm_id (cm_trans ?p ?t) = Some (Suc ?c)" "id_ctx ?p = (id_ctx p)(Suc ?c := ?t)" "id_chan ?p = (id_chan p)(Suc ?c := ?c)"
    "next_handle ?p = Suc (Suc ?c)" "event_channel (cm_trans ?p ?t) = Some ?c" "fds ?p = (fds p)(?c \<mapsto> Cm_channel ?c)"
    "recv_mr (cm_trans ?p ?t) \<noteq> None" "released ?p = released p" "trans_state (cm_trans ?p ?t) = DHMP_TRANSPORT_STATE_CONNECTING"
    "\<And>v. v \<noteq> ?t \<Longrightarrow> cm_trans ?p v = cm_trans p v"
    using L c pt by (simp_all add: defs lib_good_def upd_cm_def)
  have at: "attempt_phase p ?p ?t ph = ph(Suc ?c := Ph_addr)" by (simp add: attempt_phase_def e)
  have "ready ?p (ph(Suc ?c := Ph_addr)) ?t (Suc ?c)" using c(4) by (simp add: ready_def hears_def e)
  then show "\<exists>h. ready ?p (attempt_phase p ?p ?t ph) ?t h \<and> next_handle p \<le> h \<and> h < next_handle ?p \<and> attempt_phase p ?p ?t ph = ph(h := Ph_addr)"
    unfolding at by (intro exI[of _ "Suc ?c"]) (simp add: e)
  show "snd (dhmp_transport_create L p False poll) = Some ?t" using L by (simp add: defs lib_good_def)
  show "released ?p = released p" "\<And>v. v \<noteq> ?t \<Longrightarrow> cm_trans ?p v = cm_trans p v" "next_handle p \<le> next_handle ?p" using e by simp_all
  show "\<And>k. k < next_handle p \<Longrightarrow> id_ctx ?p k = id_ctx p k \<and> id_chan ?p k = id_chan p k \<and> fds ?p k = fds p k" using e by simp
qed

text \<open>
  The invariant of the run while the connections of one kind are opened and waited for: \<open>T\<close> is the first of their transports, \<open>C\<close> the
  earlier transports and \<open>D\<close> the array of the other kind.
\<close>

definition rest :: "nat \<Rightarrow> (nat \<Rightarrow> dhmp_transport) \<Rightarrow> bool \<Rightarrow> (nat \<Rightarrow> nat option) \<Rightarrow> cm_client \<Rightarrow> life \<Rightarrow> bool" where
  "rest T C poll D c s \<longleftrightarrow> (\<forall>u < T. cm_trans (conn s) u = C u) \<and> trans_of s (\<not> poll) = D \<and> cm_cli (conn s) = Some c \<and>
     released (conn s) = {} \<and> epoll s \<noteq> Ep_ended"

definition on_the_way :: "life \<Rightarrow> nat \<Rightarrow> bool" where
  "on_the_way s t \<longleftrightarrow> (\<exists>h < next_handle (conn s). ready (conn s) (phase s) t h)"

definition opened_to :: "nat \<Rightarrow> bool \<Rightarrow> nat \<Rightarrow> life \<Rightarrow> bool" where
  "opened_to T poll i s \<longleftrightarrow> main s = Open i poll \<and> next_trans (conn s) = T + i \<and>
     (\<forall>j < i. trans_of s poll j = Some (T + j) \<and> on_the_way s (T + j))"

definition waiting :: "nat \<Rightarrow> nat \<Rightarrow> bool \<Rightarrow> nat \<Rightarrow> life \<Rightarrow> bool" where
  "waiting n T poll i s \<longleftrightarrow> main s = Wait i poll \<and> next_trans (conn s) = T + n \<and>
     (\<forall>j < n. trans_of s poll j = Some (T + j) \<and> (if j < i then state_of s (T + j) = DHMP_TRANSPORT_STATE_CONNECTED else on_the_way s (T + j)))"

lemma opened_to_step:
  assumes o: "opened_to T poll i s" "rest T C poll D c s" and i: "i < n" and L: "lib_good L" "nets_good n (cm_nets c)" and d: "devs \<noteq> []"
  shows "\<exists>s'. life_step n devs s s' \<and> opened_to T poll (Suc i) s' \<and> rest T C poll D c s'"
proof -
  let ?p = "conn s" and ?q = "create_connection L (int i) poll (conn s)"
  let ?t = "next_trans ?p"
  obtain u port where u: "cm_nets c (int i) = (Some u, port)" "0 < port" using L(2) i by (auto simp: nets_good_def)
  have cl: "cm_cli ?p = Some c" "?t \<notin> released ?p" "?t = T + i" "main s = Open i poll" "released ?p = {}"
    using o by (simp_all add: rest_def opened_to_def)
  note r = open_ready[OF L(1) cl(1) u cl(2), where poll = poll]
  obtain h where h: "ready ?q (attempt_phase ?p ?q ?t (phase s)) ?t h" "next_handle ?p \<le> h"
    and hq: "h < next_handle ?q" and h3: "attempt_phase ?p ?q ?t (phase s) = (phase s)(h := Ph_addr)"
    using r(1) by blast
  let ?s = "(set_trans poll i (Some ?t) s)\<lparr>conn := ?q, phase := (phase s)(h := Ph_addr), main := Open (Suc i) poll\<rparr>"
  have "main_step n L devs s = Inr ?s"
    using cl(4) i d r(2) h3 by (simp add: main_step_def open_step_def dhmp_get_dev_from_client_def Let_def split: list.splits)
  then have step: "life_step n devs s ?s" using cl(4) by (intro life_step.main) simp_all
  have old: "on_the_way ?s (T + j)" if j: "j < i" for j
  proof -
    obtain k where k: "k < next_handle ?p" "ready ?p (phase s) (T + j) k" using o(1) j by (auto simp: opened_to_def on_the_way_def)
    have ne: "T + j \<noteq> ?t" using cl(3) j by simp
    have "id_chan ?p k < next_handle ?p" using k(2) by (simp add: ready_def)
    then have "ready ?q ((phase s)(h := Ph_addr)) (T + j) k"
      using k r(4)[OF ne] r(5)[OF k(1)] r(5)[of "id_chan ?p k"] r(3,6) h(2) by (auto simp: ready_def hears_def)
    moreover have "k < next_handle ?q" using k(1) r(6) by simp
    ultimately show ?thesis by (auto simp: on_the_way_def set_trans_def)
  qed
  have "on_the_way ?s ?t" using h hq h3 by (auto simp: on_the_way_def set_trans_def)
  then have "opened_to T poll (Suc i) ?s"
    using o(1) old cl(3) create_next by (auto simp: opened_to_def set_trans_def less_Suc_eq)
  moreover have "rest T C poll D c ?s"
    using o(2) r(3) r(4) cl create_frame(2)[of L "int i" poll ?p ?q] by (simp add: rest_def set_trans_def same_globals_def)
  ultimately show ?thesis using step by blast
qed

lemma opened_to_all:
  assumes "opened_to T poll i s" "rest T C poll D c s" "i \<le> n" "lib_good L" "nets_good n (cm_nets c)" "devs \<noteq> []"
  shows "\<exists>s'. life_run n devs s s' \<and> waiting n T poll 0 s' \<and> rest T C poll D c s'"
  using assms
proof (induction "n - i" arbitrary: i s)
  case 0
  let ?s = "s\<lparr>main := Wait 0 poll\<rparr>"
  have "i = n" using 0(1,4) by simp
  then have m: "main s = Open n poll" using 0(2) by (simp add: opened_to_def)
  then have "main_step n L devs s = Inr ?s" by (simp add: main_step_def)
  then have "life_step n devs s ?s" using m by (intro life_step.main) simp_all
  moreover have "waiting n T poll 0 ?s" using 0(2) \<open>i = n\<close> by (simp add: opened_to_def waiting_def on_the_way_def)
  moreover have "rest T C poll D c ?s" using 0(3) by (simp add: rest_def)
  ultimately show ?case by blast
next
  case (Suc k)
  then have "i < n" by simp
  from opened_to_step[OF Suc.prems(1,2) this Suc.prems(4,5,6)] obtain s1 where
    s1: "life_step n devs s s1" "opened_to T poll (Suc i) s1" "rest T C poll D c s1" by blast
  have "\<exists>s'. life_run n devs s1 s' \<and> waiting n T poll 0 s' \<and> rest T C poll D c s'"
    by (rule Suc.hyps(1)[OF _ s1(2,3)]) (use Suc.hyps(2) \<open>i < n\<close> Suc.prems in auto)
  then show ?case using s1(1) by (meson converse_rtranclp_into_rtranclp)
qed

lemma waiting_step:
  assumes w: "waiting n T poll i s" "rest T C poll D c s" and i: "i < n" and L: "lib_good L"
  shows "\<exists>s'. life_run n devs s s' \<and> waiting n T poll (Suc i) s' \<and> rest T C poll D c s'"
proof -
  let ?t = "T + i"
  have m: "main s = Wait i poll" "epoll s \<noteq> Ep_ended" "trans_of s poll i = Some ?t" "on_the_way s ?t"
    using w i by (simp_all add: waiting_def rest_def)
  then obtain h where h: "h < next_handle (conn s)" "ready (conn s) (phase s) ?t h" by (auto simp: on_the_way_def)
  obtain p' where p': "life_run n devs s (s\<lparr>conn := p', phase := (phase s)(h := Ph_up), epoll := Ep_handling\<rparr>)" "beside ?t (conn s) p'"
    "trans_state (cm_trans p' ?t) = DHMP_TRANSPORT_STATE_CONNECTED"
    using bring_up[OF h(2) L] m(1,2) by force
  let ?s1 = "s\<lparr>conn := p', phase := (phase s)(h := Ph_up), epoll := Ep_handling\<rparr>"
  let ?s2 = "?s1\<lparr>main := Wait (Suc i) poll, read_mrs := (if poll then read_mrs s else insert i (read_mrs s))\<rparr>"
  have "main_step n L devs ?s1 = Inr ?s2"
    using m i p'(3) by (simp add: main_step_def wait_step_def state_of_def)
  then have "life_step n devs ?s1 ?s2" using m(1) by (intro life_step.main) simp_all
  then have run: "life_run n devs s ?s2" using p'(1) by (rule rtranclp.rtrancl_into_rtrancl[rotated])
  have other: "if j < i then state_of ?s2 (T + j) = DHMP_TRANSPORT_STATE_CONNECTED else on_the_way ?s2 (T + j)" if j: "j < n" "j \<noteq> i" for j
  proof (cases "j < i")
    case True
    then have "state_of s (T + j) = DHMP_TRANSPORT_STATE_CONNECTED" using w(1) j(1) unfolding waiting_def by metis
    then show ?thesis using True j p'(2) by (simp add: state_of_def beside_def)
  next
    case False
    then have "on_the_way s (T + j)" using w(1) j(1) unfolding waiting_def by metis
    then obtain k where k: "k < next_handle (conn s)" "ready (conn s) (phase s) (T + j) k" unfolding on_the_way_def by blast
    have "k \<noteq> h" using k(2) h(2) j(2) by (auto simp: ready_def)
    then have "ready p' ((phase s)(h := Ph_up)) (T + j) k" using j(2) by (intro ready_beside[OF k(2) p'(2)]) auto
    moreover have "k < next_handle p'" using k(1) p'(2) by (simp add: beside_def)
    ultimately show ?thesis using False by (auto simp: on_the_way_def)
  qed
  have "waiting n T poll (Suc i) ?s2"
  proof -
    have "if j < Suc i then state_of ?s2 (T + j) = DHMP_TRANSPORT_STATE_CONNECTED else on_the_way ?s2 (T + j)" if "j < n" for j
      using other[OF that] p'(3) by (cases "j = i") (auto simp: state_of_def less_Suc_eq)
    moreover have "main ?s2 = Wait (Suc i) poll" "next_trans (conn ?s2) = T + n" "\<forall>j < n. trans_of ?s2 poll j = Some (T + j)"
      using w(1) p'(2) by (simp_all add: waiting_def beside_def)
    ultimately show ?thesis unfolding waiting_def by blast
  qed
  moreover have "rest T C poll D c ?s2" using w(2) p'(2) by (auto simp: rest_def beside_def)
  ultimately show ?thesis using run by blast
qed

lemma waiting_all:
  assumes "waiting n T poll i s" "rest T C poll D c s" "i \<le> n" "lib_good L"
  shows "\<exists>s'. life_run n devs s s' \<and> waiting n T poll n s' \<and> rest T C poll D c s'"
  using assms
proof (induction "n - i" arbitrary: i s)
  case (Suc k)
  then have "i < n" by simp
  from waiting_step[OF Suc.prems(1,2) this Suc.prems(4), of devs] obtain s1 where
    s1: "life_run n devs s s1" "waiting n T poll (Suc i) s1" "rest T C poll D c s1" by blast
  have "\<exists>s'. life_run n devs s1 s' \<and> waiting n T poll n s' \<and> rest T C poll D c s'"
    by (rule Suc.hyps(1)[OF _ s1(2,3)]) (use Suc.hyps(2) \<open>i < n\<close> Suc.prems in auto)
  then show ?case using s1(1) by (meson rtranclp_trans)
qed (auto intro: exI[of _ s])

text \<open>The whole of \<open>dhmp_client_init\<close>.\<close>

lemma init_run:
  assumes L: "lib_good L" "nets_good n nets" and d: "devs \<noteq> []"
  shows "\<exists>s. life_run n devs (fresh_client nets ts) s \<and> main s = In_use \<and> epoll s \<noteq> Ep_ended \<and>
    (\<forall>i < n. \<forall>poll. \<exists>t. trans_of s poll i = Some t \<and> state_of s t = DHMP_TRANSPORT_STATE_CONNECTED)"
proof -
  let ?s0 = "fresh_client nets ts" and ?c = "\<lparr>cm_prepare_destroy = False, cm_in_recovery = False, cm_threads = [], cm_recovered = [], cm_nets = nets\<rparr>"
  have c: "nets_good n (cm_nets ?c)" using L(2) by simp
  have 0: "opened_to 0 False 0 ?s0" "rest 0 ts False (\<lambda>_. None) ?c ?s0" by (simp_all add: opened_to_def rest_def fresh_client_def)
  obtain s1 where s1: "life_run n devs ?s0 s1" "waiting n 0 False 0 s1" "rest 0 ts False (\<lambda>_. None) ?c s1"
    using opened_to_all[OF 0 le0 L(1) c d] by blast
  obtain s2 where s2: "life_run n devs s1 s2" "waiting n 0 False n s2" "rest 0 ts False (\<lambda>_. None) ?c s2"
    using waiting_all[OF s1(2,3) le0 L(1)] by blast
  let ?s3 = "s2\<lparr>main := Open 0 True\<rparr>"
  have "main_step n L devs s2 = Inr ?s3" using s2(2) by (simp add: main_step_def waiting_def)
  then have step3: "life_step n devs s2 ?s3" using s2(2) by (intro life_step.main) (simp_all add: waiting_def)
  have 3: "opened_to n True 0 ?s3" "rest n (cm_trans (conn s2)) True (trans_of s2 False) ?c ?s3"
    using s2(2,3) by (simp_all add: opened_to_def rest_def waiting_def)
  obtain s4 where s4: "life_run n devs ?s3 s4" "waiting n n True 0 s4" "rest n (cm_trans (conn s2)) True (trans_of s2 False) ?c s4"
    using opened_to_all[OF 3 le0 L(1) c d] by blast
  obtain s5 where s5: "life_run n devs s4 s5" "waiting n n True n s5" "rest n (cm_trans (conn s2)) True (trans_of s2 False) ?c s5"
    using waiting_all[OF s4(2,3) le0 L(1)] by blast
  let ?s6 = "s5\<lparr>main := In_use\<rparr>"
  have "main_step n L devs s5 = Inr ?s6" using s5(2) by (simp add: main_step_def waiting_def)
  then have step6: "life_step n devs s5 ?s6" using s5(2) by (intro life_step.main) (simp_all add: waiting_def)
  have run: "life_run n devs ?s0 ?s6"
    using s1(1) s2(1) step3 s4(1) s5(1) step6 by (meson rtranclp_trans rtranclp.rtrancl_into_rtrancl)
  have polls: "trans_of ?s6 True i = Some (n + i)" "state_of ?s6 (n + i) = DHMP_TRANSPORT_STATE_CONNECTED" if "i < n" for i
  proof -
    show "trans_of ?s6 True i = Some (n + i)" using s5(2) that by (simp add: waiting_def)
    have "state_of s5 (n + i) = DHMP_TRANSPORT_STATE_CONNECTED" using s5(2) that unfolding waiting_def by metis
    then show "state_of ?s6 (n + i) = DHMP_TRANSPORT_STATE_CONNECTED" by (simp add: state_of_def)
  qed
  have norms: "trans_of ?s6 False i = Some i" "state_of ?s6 i = DHMP_TRANSPORT_STATE_CONNECTED" if "i < n" for i
  proof -
    have w: "trans_of s2 False i = Some (0 + i)" "state_of s2 (0 + i) = DHMP_TRANSPORT_STATE_CONNECTED"
      using s2(2) that unfolding waiting_def by metis+
    show "trans_of ?s6 False i = Some i" using w(1) s5(3) by (simp add: rest_def)
    show "state_of ?s6 i = DHMP_TRANSPORT_STATE_CONNECTED" using w(2) s5(3) that by (simp add: rest_def state_of_def)
  qed
  have "\<exists>t. trans_of ?s6 poll i = Some t \<and> state_of ?s6 t = DHMP_TRANSPORT_STATE_CONNECTED" if "i < n" for i poll
    using polls[OF that] norms[OF that] by (cases poll) auto
  moreover have "epoll ?s6 \<noteq> Ep_ended" using s5(3) by (simp add: rest_def)
  ultimately show ?thesis using run by (intro exI[of _ ?s6]) simp
qed

section \<open>What start-up has seen\<close>

text \<open>A run with the states it has gone through.\<close>

inductive life_history :: "nat \<Rightarrow> dhmp_device list \<Rightarrow> life \<Rightarrow> life list \<Rightarrow> life \<Rightarrow> bool" for n devs s0 where
  history_start: "life_history n devs s0 [s0] s0"
| history_step: "life_history n devs s0 ss s \<Longrightarrow> life_step n devs s s' \<Longrightarrow> life_history n devs s0 (ss @ [s']) s'"

lemma history_run: "life_history n devs s0 ss s \<Longrightarrow> (life_step n devs)\<^sup>*\<^sup>* s0 s"
  by (induction rule: life_history.induct) (auto intro: rtranclp.rtrancl_into_rtrancl)

lemma run_history: "(life_step n devs)\<^sup>*\<^sup>* s0 s \<Longrightarrow> \<exists>ss. life_history n devs s0 ss s"
  by (induction rule: rtranclp_induct) (blast intro: life_history.intros)+

text \<open>An event other than a disconnection takes a transport past \<open>CONNECTING\<close> only to \<open>CONNECTED\<close> or \<open>ERROR\<close>.\<close>

lemma event_states:
  assumes "dhmp_handle_ec_event L e h p = Inr (p', r)" "e \<noteq> RDMA_CM_EVENT_CONNECT_REQUEST" "e \<noteq> RDMA_CM_EVENT_DISCONNECTED" "t = id_ctx p h"
  shows "trans_state (cm_trans p' t) \<in> {trans_state (cm_trans p t), DHMP_TRANSPORT_STATE_CONNECTED, DHMP_TRANSPORT_STATE_ERROR}"
    "e = RDMA_CM_EVENT_ESTABLISHED \<Longrightarrow> trans_state (cm_trans p' t) = DHMP_TRANSPORT_STATE_CONNECTED"
proof -
  show "e = RDMA_CM_EVENT_ESTABLISHED \<Longrightarrow> trans_state (cm_trans p' t) = DHMP_TRANSPORT_STATE_CONNECTED"
    using assms(1,4) by (auto simp: dhmp_handle_ec_event_def on_cm_established_def upd_cm_def Let_def split: option.splits)
  show "trans_state (cm_trans p' t) \<in> {trans_state (cm_trans p t), DHMP_TRANSPORT_STATE_CONNECTED, DHMP_TRANSPORT_STATE_ERROR}"
  proof (cases e)
    case RDMA_CM_EVENT_ROUTE_RESOLVED
    then have "on_cm_route_resolved L t p = Inr (p', r)" using assms(1,4) by (simp add: dhmp_handle_ec_event_def)
    from route_state[OF this] show ?thesis by auto
  next
    case RDMA_CM_EVENT_ESTABLISHED
    then show ?thesis using assms(1,4) by (auto simp: dhmp_handle_ec_event_def on_cm_established_def upd_cm_def Let_def split: option.splits)
  next
    case RDMA_CM_EVENT_CONNECT_ERROR
    then have d: "on_cm_error t p = Inr (p', r)" using assms(1,4) by (simp add: dhmp_handle_ec_event_def)
    then obtain p1 where "dhmp_destroy_source t p = Inr p1" by (auto simp: on_cm_error_def res_simps)
    then have "trans_state (cm_trans p' t) = DHMP_TRANSPORT_STATE_ERROR"
      using d by (cases "cm_srv p1") (auto simp: on_cm_error_def upd_cm_def Let_def dhmp_inform_watcher_func_def split: if_splits)
    then show ?thesis by simp
  qed (use assms in \<open>auto simp: dhmp_handle_ec_event_def on_cm_addr_resolved_def split: if_splits\<close>)
qed

lemma create_state: "trans_state (cm_trans (create_connection L i poll p) (next_trans p)) < DHMP_TRANSPORT_STATE_CONNECTED"
proof -
  show ?thesis
    by (auto simp: create_connection_def dhmp_transport_create_def dhmp_event_channel_create_def dhmp_context_add_event_fd_def dhmp_context_del_event_fd_def Let_def
        dhmp_transport_connect_def dhmp_port_uri_transfer_def new_cm_id_def upd_cm_def state_order split: option.splits prod.splits if_splits)
qed

text \<open>How a transport becomes settled in one step, and how an id comes up.\<close>

definition newly :: "life \<Rightarrow> life \<Rightarrow> nat \<Rightarrow> bool" where
  "newly s s' t \<longleftrightarrow> state_of s' t = DHMP_TRANSPORT_STATE_CONNECTED \<or> state_of s' t = DHMP_TRANSPORT_STATE_ERROR \<or>
     (\<exists>h. phase s h = Ph_up \<and> id_ctx (conn s) h = t)"

lemma newly_settled:
  assumes step: "life_step n devs s s'" and inv: "life_inv n s"
  shows "trans_of s' q i = Some t \<Longrightarrow> settled (conn s') t \<Longrightarrow> (\<exists>q i. trans_of s q i = Some t) \<and> settled (conn s) t \<or> newly s s' t"
    "phase s' k = Ph_up \<Longrightarrow> phase s k = Ph_up \<and> id_ctx (conn s') k = id_ctx (conn s) k \<or>
       state_of s' (id_ctx (conn s') k) = DHMP_TRANSPORT_STATE_CONNECTED"
proof -
  have c0: "conn_inv (conn s) (phase s)" using inv by (simp add: life_inv_def)
  then obtain c where c: "cm_cli (conn s) = Some c" "\<forall>t \<in> set (cm_threads c). t < next_trans (conn s)" by (auto simp: conn_inv_def)
  have lt: "trans_of s q i = Some t \<Longrightarrow> t < next_trans (conn s)" for q i t using inv by (auto simp: life_inv_def)
  have up: "live Ph_up" by (simp add: live_def)
  have same: "phase s k = Ph_up \<and> id_ctx (conn s') k = id_ctx (conn s) k" if "grows T {} (conn s) (conn s')" "phase s k = Ph_up" for T k
    using conn_inv_ids(2)[OF c0 that(1), of k] that(2) up by simp
  have old: "phase s k = Ph_up" if "attempt_phase (conn s) (conn s') u (phase s) k = Ph_up" for u k
    using that by (cases rule: attempt_cases[of "conn s" "conn s'" u "phase s"]) (auto split: if_splits)
  have "((\<exists>q i. trans_of s' q i = Some t) \<longrightarrow> settled (conn s') t \<longrightarrow> (\<exists>q i. trans_of s q i = Some t) \<and> settled (conn s) t \<or> newly s s' t) \<and>
      (phase s' k = Ph_up \<longrightarrow> phase s k = Ph_up \<and> id_ctx (conn s') k = id_ctx (conn s) k \<or>
         state_of s' (id_ctx (conn s') k) = DHMP_TRANSPORT_STATE_CONNECTED)" for t k
    using step
  proof (cases rule: life_stepE)
    case (main L)
    show ?thesis
    proof (cases "\<exists>i poll. main s = Open i poll \<and> i < n")
      case True
      then obtain j p where e: "conn s' = create_connection L (int j) p (conn s)"
        "phase s' = attempt_phase (conn s) (conn s') (next_trans (conn s)) (phase s)"
        "trans_of s' = (trans_of s)(p := (trans_of s p)(j := snd (dhmp_transport_create L (conn s) False p)))"
        using main(2) by (auto simp: main_step_def open_step_def set_trans_def Let_def split: if_splits)
      have g: "grows {} {} (conn s) (conn s')" "cm_cli (conn s') = cm_cli (conn s)"
        using create_frame[of L "int j" p "conn s" "conn s'"] e(1) by (simp_all add: same_globals_def)
      have "(\<exists>q i. trans_of s q i = Some t) \<and> settled (conn s) t" if t: "trans_of s' q i = Some t" "settled (conn s') t" for q i
      proof (cases "trans_of s q i = Some t")
        case True
        then show ?thesis using lt[OF True] g t(2) by (auto simp: settled_def grows_def)
      next
        case False
        then have n: "t = next_trans (conn s)" using t(1) create_none[of L "conn s" p t] by (auto simp: e(3) split: if_splits)
        have "\<not> settled (conn s') t" using create_state[of L "int j" p "conn s"] g(2) c by (auto simp: settled_def n e(1))
        then show ?thesis using t(2) by simp
      qed
      then show ?thesis using same[OF g(1)] old e(2) by metis
    next
      case False
      then have "conn s' = conn s \<or> (\<exists>b. conn s' = (conn s)\<lparr>ctx_stop := b\<rparr>) \<or>
          (\<exists>b. conn s' = (conn s)\<lparr>cm_cli := map_option (\<lambda>c. c\<lparr>cm_prepare_destroy := b\<rparr>) (cm_cli (conn s))\<rparr>)"
        "phase s' = phase s" "trans_of s' = trans_of s"
        using main(2) by (auto simp: main_step_def wait_step_def close_step_def wait_closed_step_def split: main_pc.splits if_splits option.splits)
      then show ?thesis using conn_inv_flags(3,4)[OF c0] by auto
    qed
  next
    case (event e h L p' r)
    have req: "e \<noteq> RDMA_CM_EVENT_CONNECT_REQUEST" using event(4) by auto
    have lv: "live (phase s h)" by (rule allowed_live[OF event(4)])
    have f: "conn s' = p'" "trans_of s' = trans_of s" "phase s' = (phase s)(h := next_phase e r)" using event(1) by simp_all
    note g = event_frame(1)[OF event(6) req]
    have hx: "id_ctx p' h = id_ctx (conn s) h" by (rule conn_inv_ids(2)[OF c0 g lv])
    obtain c' where c': "cm_cli p' = Some c'" "set (cm_threads c') \<subseteq> insert (id_ctx (conn s) h) (set (cm_threads c))"
      using event_threads[OF event(6) req c(1)] by auto
    have "settled (conn s) t \<or> newly s s' t" if t: "trans_of s q i = Some t" "settled p' t" for q i
    proof (cases "t = id_ctx (conn s) h")
      case False
      then show ?thesis using t c' c lt[OF t(1)] g by (auto simp: settled_def grows_def)
    next
      case True
      show ?thesis
      proof (cases "e = RDMA_CM_EVENT_DISCONNECTED")
        case True
        then show ?thesis using event(4) \<open>t = _\<close> by (auto simp: newly_def)
      next
        case False
        have "cm_cli p' = cm_cli (conn s)" by (rule event_frame(2)[OF event(6) req False])
        then show ?thesis using event_states(1)[OF event(6) req False True] t(2) by (auto simp: newly_def state_of_def f settled_def)
      qed
    qed
    moreover have "phase s k = Ph_up \<and> id_ctx (conn s') k = id_ctx (conn s) k \<or> state_of s' (id_ctx (conn s') k) = DHMP_TRANSPORT_STATE_CONNECTED"
      if k: "phase s' k = Ph_up" for k
    proof (cases "k = h")
      case False
      then show ?thesis using same[of _ k] g k f by auto
    next
      case True
      then have "next_phase e r = Ph_up" using k f(3) by simp
      then have e: "e = RDMA_CM_EVENT_ESTABLISHED" by (cases e) (auto split: if_splits)
      then have "e \<noteq> RDMA_CM_EVENT_DISCONNECTED" by simp
      from event_states(2)[OF event(6) req this refl e] show ?thesis using True hx by (simp add: state_of_def f)
    qed
    ultimately show ?thesis unfolding f by blast
  next
    case (recovery cl u L p')
    have f: "conn s' = p'" "trans_of s' = trans_of s" "phase s' = attempt_phase (conn s) (conn s') u (phase s)" using recovery(1) by simp_all
    have u: "settled (conn s) u" using recovery(3,4) by (auto simp: settled_def)
    have "grows {u} {} (conn s) p' \<and> (\<exists>c'. cm_cli p' = Some c' \<and> set (cm_threads c') \<subseteq> set (cm_threads cl))"
    proof (cases "trans_state (cm_trans (conn s) u) = DHMP_TRANSPORT_STATE_CONNECTED")
      case True
      then have e: "p' = (conn s)\<lparr>cm_cli := Some (cl\<lparr>cm_recovered := node_id (cm_trans (conn s) u) # cm_recovered cl, cm_in_recovery := False,
             cm_threads := remove1 u (cm_threads cl)\<rparr>)\<rparr>" using recovery(3,5) by (simp add: recovery_thread_def)
      then show ?thesis using set_remove1_subset[of u "cm_threads cl"] by (auto simp: grows_def)
    next
      case False
      then have "reconnect L u (conn s) = Inr p'" using recovery(5) by (simp add: recovery_thread_def)
      from reconnect_frame(1,2)[OF this] show ?thesis using recovery(3) by (auto simp: same_globals_def)
    qed
    then obtain c' where g: "grows {u} {} (conn s) p'" "cm_cli p' = Some c'" "set (cm_threads c') \<subseteq> set (cm_threads cl)" by blast
    have "settled (conn s) t" if "trans_of s q i = Some t" "settled p' t" for q i
      using that u lt[OF that(1)] g recovery(3) by (cases "t = u") (auto simp: settled_def grows_def)
    then show ?thesis using same[of "{u}"] g(1) old unfolding f(1,2) by (metis f(1,3))
  qed auto
  then show "trans_of s' q i = Some t \<Longrightarrow> settled (conn s') t \<Longrightarrow> (\<exists>q i. trans_of s q i = Some t) \<and> settled (conn s) t \<or> newly s s' t"
    "phase s' k = Ph_up \<Longrightarrow> phase s k = Ph_up \<and> id_ctx (conn s') k = id_ctx (conn s) k \<or>
       state_of s' (id_ctx (conn s') k) = DHMP_TRANSPORT_STATE_CONNECTED" by blast+
qed

text \<open>Every settled transport of the client has been \<open>CONNECTED\<close> or \<open>ERROR\<close> in the run, since it was made.\<close>

definition seen :: "life list \<Rightarrow> nat \<Rightarrow> bool" where
  "seen ss t \<longleftrightarrow> (\<exists>u \<in> set ss. t < next_trans (conn u) \<and> (state_of u t = DHMP_TRANSPORT_STATE_CONNECTED \<or> state_of u t = DHMP_TRANSPORT_STATE_ERROR))"

lemma settled_seen:
  assumes "life_history n devs (fresh_client nets ts) ss s"
  shows "s \<in> set ss \<and> (\<forall>q i t. trans_of s q i = Some t \<longrightarrow> settled (conn s) t \<longrightarrow> seen ss t) \<and>
    (\<forall>h. phase s h = Ph_up \<longrightarrow> seen ss (id_ctx (conn s) h))"
  using assms
proof (induction rule: life_history.induct)
  case history_start
  then show ?case by (simp add: fresh_client_def)
next
  case (history_step ss s s')
  have inv: "life_inv n s" using life_inv_reach history_run[OF history_step(1)] by blast
  note new = newly_settled[OF history_step(2) inv]
  have mono: "seen ss t \<Longrightarrow> seen (ss @ [s']) t" for t by (auto simp: seen_def)
  have last: "state_of s' t = DHMP_TRANSPORT_STATE_CONNECTED \<or> state_of s' t = DHMP_TRANSPORT_STATE_ERROR \<Longrightarrow> t < next_trans (conn s') \<Longrightarrow>
      seen (ss @ [s']) t" for t by (auto simp: seen_def)
  have inv': "life_inv n s'" by (rule life_inv_step[OF history_step(2) inv])
  have lt: "trans_of s' q i = Some t \<Longrightarrow> t < next_trans (conn s')" "phase s' h = Ph_up \<Longrightarrow> id_ctx (conn s') h < next_trans (conn s')" for q i t h
    using inv' by (auto simp: life_inv_def conn_inv_def live_def)
  have ne: "seen (ss @ [s']) t" if "newly s s' t" "t < next_trans (conn s')" for t
    using that history_step(3) mono last unfolding newly_def by blast
  have "seen (ss @ [s']) t" if "trans_of s' q i = Some t" "settled (conn s') t" for q i t
    using new(1)[OF that] ne lt(1)[OF that(1)] history_step(3) mono by blast
  moreover have "seen (ss @ [s']) (id_ctx (conn s') h)" if "phase s' h = Ph_up" for h
    using new(2)[OF that] lt(2)[OF that] history_step(3) mono last by metis
  ultimately show ?case by simp
qed

section \<open>Properties\<close>

text \<open>C9: when \<open>dhmp_client_init\<close> returns, it has waited for every server: each transport it has made, to be polled or not, was
  connected at some moment since it was made or its attempt ended in the error state, the transport is still in a state from \<open>CONNECTED\<close> on (which
  includes the error state) or a recovery thread is at work on it, and a buffer for reads is registered for every transport that is not polled.\<close>

theorem init_connects:
  assumes "life_history n devs (fresh_client nets ts) ss s" "returned s" "i < n" "trans_of s poll i = Some t"
  shows "(\<exists>u \<in> set ss. t < next_trans (conn u) \<and> (state_of u t = DHMP_TRANSPORT_STATE_CONNECTED \<or> state_of u t = DHMP_TRANSPORT_STATE_ERROR)) \<and>
    (DHMP_TRANSPORT_STATE_CONNECTED \<le> state_of s t \<or> (\<exists>c. cm_cli (conn s) = Some c \<and> t \<in> set (cm_threads c))) \<and>
    (\<not> poll \<longrightarrow> i \<in> read_mrs s)"
proof -
  have "settled (conn s) t \<and> (\<not> poll \<longrightarrow> i \<in> read_mrs s)"
    using life_inv_reach[OF history_run[OF assms(1)]] waited_returned[OF assms(2)] assms(3,4) unfolding life_inv_def by blast
  then show ?thesis using settled_seen[OF assms(1)] assms(4) unfolding seen_def settled_def state_of_def by blast
qed


text \<open>Once the last descriptor is gone and the event thread waits again, setting \<open>stop\<close> comes too late: \<open>dhmp_client_destroy\<close> never gets past
  joining that thread.\<close>

theorem destroy_blocks:
  assumes "asleep s" "(life_step n devs)\<^sup>*\<^sup>* s s'"
  shows "main s' \<noteq> Freed \<and> epoll s' = Ep_waiting"
proof -
  have "asleep s'" using assms(2,1) by (induction rule: rtranclp_induct) (auto intro: asleep_step)
  then show ?thesis by (auto simp: asleep_def)
qed


section \<open>A machine on which everything works\<close>

definition good_lib :: cm_lib where
  "good_lib = sample_lib\<lparr>lib_pton := (\<lambda>_. (1, 1))\<rparr>"

definition one_device :: "dhmp_device list" where
  "one_device = dhmp_dev_list_init (Some [None, Some \<lparr>query_result = 0, alloc_pd = Some 7\<rparr>, Some \<lparr>query_result = -1, alloc_pd = Some 8\<rparr>]) []"

definition sample_nets :: "int \<Rightarrow> string option \<times> int" where
  "sample_nets i = (Some ''10.0.0.1'', 5000 + (if i = 0 then 0 else 1))"

lemma good_lib_good: "lib_good good_lib" "nets_good n sample_nets" "one_device \<noteq> []"
  by (simp_all add: lib_good_def good_lib_def sample_lib_def nets_good_def sample_nets_def one_device_def dhmp_dev_list_init_def dhmp_dev_init_def)

lemma init_connects_witness:
  "\<exists>ss s t. life_history 2 one_device (fresh_client sample_nets (\<lambda>_. sample_trans)) ss s \<and> returned s \<and> trans_of s False 1 = Some t \<and>
     state_of s t = DHMP_TRANSPORT_STATE_CONNECTED \<and> 1 \<in> read_mrs s \<and>
     (\<exists>u \<in> set ss. t < next_trans (conn u) \<and> (state_of u t = DHMP_TRANSPORT_STATE_CONNECTED \<or> state_of u t = DHMP_TRANSPORT_STATE_ERROR))"
proof -
  obtain s where s: "life_run 2 one_device (fresh_client sample_nets (\<lambda>_. sample_trans)) s" "main s = In_use"
    "\<forall>i < 2. \<forall>poll. \<exists>t. trans_of s poll i = Some t \<and> state_of s t = DHMP_TRANSPORT_STATE_CONNECTED"
    using init_run[OF good_lib_good] by blast
  have "(1::nat) < 2" by simp
  then obtain t where t: "trans_of s False 1 = Some t" "state_of s t = DHMP_TRANSPORT_STATE_CONNECTED" using s(3) by blast
  obtain ss where ss: "life_history 2 one_device (fresh_client sample_nets (\<lambda>_. sample_trans)) ss s" using run_history[OF s(1)] by blast
  have r: "returned s" by (simp add: returned_def s(2))
  have "1 \<in> read_mrs s \<and> (\<exists>u \<in> set ss. t < next_trans (conn u) \<and> (state_of u t = DHMP_TRANSPORT_STATE_CONNECTED \<or> state_of u t = DHMP_TRANSPORT_STATE_ERROR))"
    using init_connects[OF ss r _ t(1)] by simp
  then show ?thesis using ss r t by blast
qed



text \<open>With no server configured the client goes straight through, and \<open>dhmp_client_destroy\<close> hangs.\<close>

lemma destroy_blocks_witness:
  "\<exists>s. life_run 0 one_device (fresh_client sample_nets (\<lambda>_. sample_trans)) s \<and> main s = Stop \<and>
     (\<forall>s'. life_run 0 one_device s s' \<longrightarrow> main s' \<noteq> Freed)"
proof -
  let ?f = "fresh_client sample_nets (\<lambda>_. sample_trans)"
  let ?d = "?f\<lparr>conn := (conn ?f)\<lparr>cm_cli := map_option (\<lambda>c. c\<lparr>cm_prepare_destroy := True\<rparr>) (cm_cli (conn ?f))\<rparr>\<rparr>"
  have step: "life_step 0 one_device s s'" if "main s \<noteq> Freed" "main_step 0 good_lib one_device s = Inr s'" for s s' by (rule life_step.main[OF that])
  have "life_step 0 one_device ?f (?f\<lparr>main := Wait 0 False\<rparr>)" by (rule step) (simp_all add: main_step_def fresh_client_def)
  moreover have "life_step 0 one_device (?f\<lparr>main := Wait 0 False\<rparr>) (?f\<lparr>main := Open 0 True\<rparr>)" by (rule step) (simp_all add: main_step_def)
  moreover have "life_step 0 one_device (?f\<lparr>main := Open 0 True\<rparr>) (?f\<lparr>main := Wait 0 True\<rparr>)" by (rule step) (simp_all add: main_step_def)
  moreover have "life_step 0 one_device (?f\<lparr>main := Wait 0 True\<rparr>) (?f\<lparr>main := In_use\<rparr>)" by (rule step) (simp_all add: main_step_def)
  moreover have "life_step 0 one_device (?f\<lparr>main := In_use\<rparr>) (?d\<lparr>main := Close 0 False\<rparr>)" by (rule step) (simp_all add: main_step_def)
  moreover have "life_step 0 one_device (?d\<lparr>main := Close 0 False\<rparr>) (?d\<lparr>main := Close 0 True\<rparr>)" by (rule step) (simp_all add: main_step_def)
  moreover have "life_step 0 one_device (?d\<lparr>main := Close 0 True\<rparr>) (?d\<lparr>main := Wait_closed 0 False\<rparr>)" by (rule step) (simp_all add: main_step_def)
  moreover have "life_step 0 one_device (?d\<lparr>main := Wait_closed 0 False\<rparr>) (?d\<lparr>main := Wait_closed 0 True\<rparr>)" by (rule step) (simp_all add: main_step_def)
  moreover have "life_step 0 one_device (?d\<lparr>main := Wait_closed 0 True\<rparr>) (?d\<lparr>main := Stop\<rparr>)" by (rule step) (simp_all add: main_step_def)
  ultimately have run: "life_run 0 one_device ?f (?d\<lparr>main := Stop\<rparr>)"
    by (meson rtranclp.rtrancl_refl rtranclp.rtrancl_into_rtrancl)
  have "asleep (?d\<lparr>main := Stop\<rparr>)" by (simp add: asleep_def fresh_client_def)
  then show ?thesis using run destroy_blocks by (intro exI[of _ "?d\<lparr>main := Stop\<rparr>"]) (auto simp del: update_convs)
qed

end
